(* ===== verification/RkPrelude.thy ===== *)
theory RkPrelude
  imports Main "HOL-Library.Word" "HOL-Library.Monad_Syntax"
begin

text \<open>
  Shared vocabulary of the rrkernel development: the machine integer types of the
  32-bit targets, the saturating operations of Rust's integers, collections of
  rewrite rules, and generic facts on words, options and lists.

  Every model function that reads or writes memory returns an \<open>option\<close>.  The value
  \<open>None\<close> stands for an access through a null or dangling pointer and for a loop that
  never returns (loops are \<open>partial_function (option)\<close>); a theorem that some call is
  \<open>Some\<close> therefore shows memory safety and termination at once.
\<close>

section \<open>Machine integers\<close>

type_synonym u8 = "8 word"
type_synonym u16 = "16 word"
type_synonym u32 = "32 word"
type_synonym u64 = "64 word"
type_synonym usize = "32 word"
type_synonym ptr = "32 word"

abbreviation null_ptr :: ptr where
  "null_ptr \<equiv> 0"

named_theorems struct_simps
named_theorems frame_simps

definition sat_sub :: "'a::len word \<Rightarrow> 'a word \<Rightarrow> 'a word" where
  "sat_sub a b = (if a < b then 0 else a - b)"

definition sat_add :: "'a::len word \<Rightarrow> 'a word \<Rightarrow> 'a word" where
  "sat_add a b = (if unat a + unat b < 2 ^ LENGTH('a) then a + b else - 1)"

definition sat_mul :: "'a::len word \<Rightarrow> 'a word \<Rightarrow> 'a word" where
  "sat_mul a b = (if unat a * unat b < 2 ^ LENGTH('a) then a * b else - 1)"

definition div_ceil :: "'a::len word \<Rightarrow> 'a word \<Rightarrow> 'a word" where
  "div_ceil a b = (if a mod b = 0 then a div b else a div b + 1)"

lemma unat_sat_sub: "unat (sat_sub a b) = unat a - unat b"
  by (auto simp: sat_sub_def word_less_nat_alt unat_sub_if')

lemma unat_max_word: "unat (- 1 :: 'a::len word) = 2 ^ LENGTH('a) - 1"
  by (simp add: unsigned_minus_1_eq_mask mask_eq_exp_minus_1)

lemma unat_sat_add:
  "unat (sat_add a b) = min (unat a + unat b) (2 ^ LENGTH('a) - 1)" for a b :: "'a::len word"
  by (auto simp: sat_add_def unat_max_word unat_word_ariths)

lemma unat_sat_mul:
  "unat (sat_mul a b) = min (unat a * unat b) (2 ^ LENGTH('a) - 1)" for a b :: "'a::len word"
  by (auto simp: sat_mul_def unat_max_word unat_word_ariths)

lemma unat_lt2p32 [simp]: "unat (x :: 32 word) < 4294967296"
  using unsigned_less [of x] by simp

lemma unat_lt2p64 [simp]: "unat (x :: 64 word) < 18446744073709551616"
  using unsigned_less [of x] by simp

lemma unat_plus_small:
  "unat a + unat b < 2 ^ LENGTH('a) \<Longrightarrow> unat (a + b) = unat a + unat b" for a b :: "'a::len word"
  by (simp add: unat_word_ariths)

lemma unat_Suc_small:
  "unat a + 1 < 2 ^ LENGTH('a) \<Longrightarrow> unat (a + 1) = unat a + 1" for a :: "'a::len word"
  by (simp add: unat_word_ariths)

lemma unat_ucast_mod: "unat (ucast x :: 'b::len word) = unat x mod 2 ^ LENGTH('b)"
  for x :: "'a::len word"
  by (simp add: unsigned_ucast_eq unsigned_take_bit_eq take_bit_eq_mod)

lemma unat_ucast_up:
  "LENGTH('a) \<le> LENGTH('b) \<Longrightarrow> unat (ucast x :: 'b::len word) = unat x" for x :: "'a::len word"
proof -
  assume le: "LENGTH('a) \<le> LENGTH('b)"
  have "unat x < 2 ^ LENGTH('a)"
    by (rule unsigned_less)
  also have "\<dots> \<le> 2 ^ LENGTH('b)"
    using le by (simp add: power_increasing)
  finally show ?thesis
    by (simp add: unat_ucast_mod)
qed

section \<open>Options and lists\<close>

lemma bind_SomeI: "m = Some x \<Longrightarrow> f x = r \<Longrightarrow> Option.bind m f = r"
  by simp

lemma find_append:
  "List.find P (xs @ ys) = (case List.find P xs of None \<Rightarrow> List.find P ys | Some x \<Rightarrow> Some x)"
  by (induction xs) auto

lemma find_None_iff': "List.find P xs = None \<longleftrightarrow> (\<forall>x\<in>set xs. \<not> P x)"
  by (induction xs) auto

lemma find_SomeD: "List.find P xs = Some x \<Longrightarrow> x \<in> set xs \<and> P x"
  by (induction xs) (auto split: if_splits)

lemma filter_split:
  "filter P xs = us @ a # vs \<Longrightarrow>
   \<exists>ys zs. xs = ys @ a # zs \<and> filter P ys = us \<and> filter P zs = vs \<and> P a"
proof (induction xs arbitrary: us)
  case (Cons x xs)
  show ?case
  proof (cases "P x \<and> us = []")
    case True
    with Cons.prems show ?thesis
      by (intro exI [of _ "[]"] exI [of _ xs]) auto
  next
    case False
    then have "filter P xs = (if P x then tl us else us) @ a # vs"
      using Cons.prems by (cases us) (auto split: if_splits)
    from Cons.IH [OF this] obtain ys zs
      where "xs = ys @ a # zs" "filter P ys = (if P x then tl us else us)" "filter P zs = vs" "P a"
      by blast
    with False Cons.prems show ?thesis
      by (intro exI [of _ "x # ys"] exI [of _ zs]) (cases us, auto split: if_splits)
  qed
qed simp

lemma distinct_rotate_cases:
  assumes "x \<in> set xs"
  obtains ys zs where "xs = ys @ x # zs"
  using assms by (auto simp: in_set_conv_decomp)

end
