(* ===== verification/RkConfig.thy ===== *)
theory RkConfig
  imports RkPrelude
begin

text \<open>
  \<^verbatim>\<open>src/config.rs\<close>, the configuration enums of \<^verbatim>\<open>src/tcb.rs\<close> and the timer
  plan of \<^verbatim>\<open>src/arch/mod.rs\<close>: the time slice a program asks for, its conversion to
  nanoseconds and to timer cycles (with the widths and the saturation of the code), the
  configuration record with its builders, and the reasons a configuration is refused.
\<close>

unbundle bit_operations_syntax

type_synonym u128 = "128 word"

section \<open>Time slices\<close>

datatype slice =
    Nanos u64
  | Micros u64
  | Millis u64
  | Hertz u32
  | Cycles u32
  | SliceDefault

definition as_nanos :: "slice \<Rightarrow> u32 \<Rightarrow> u64" where
  "as_nanos sl timer_hz = (case sl of
     Nanos n \<Rightarrow> n
   | Micros us \<Rightarrow> sat_mul us 1000
   | Millis ms \<Rightarrow> sat_mul ms 1000000
   | Hertz hz \<Rightarrow> (if hz = 0 then 0 else 1000000000 div ucast hz)
   | Cycles c \<Rightarrow> (if timer_hz = 0 then 0 else sat_mul (ucast c) 1000000000 div ucast timer_hz)
   | SliceDefault \<Rightarrow> 0)"

definition from_nanos :: "u64 \<Rightarrow> slice" where
  "from_nanos ns = Nanos ns"

definition to_cycles :: "slice \<Rightarrow> u32 \<Rightarrow> u64" where
  "to_cycles sl timer_hz =
     (if sl = SliceDefault then 0
      else if timer_hz = 0 then 0
      else let ns = (ucast (as_nanos sl timer_hz) :: u128);
               hz = (ucast timer_hz :: u128);
               cycles = (ns * hz + 500000000) div 1000000000
           in if cycles = 0 then 1 else ucast cycles)"

section \<open>Policies, limits and errors\<close>

datatype idle_policy = Wait | Spin | ExitWhenAllDead

datatype measure_mode = MeasureCycles | MeasureNanos | MeasureOff

datatype config_error =
    ZeroSlice
  | TimerClockRequired
  | SliceBelowPlatformMinimum (requested_ns: u64) (minimum_ns: u64)
  | SliceAboveTimerRange (requested_ns: u64) (maximum_ns: u64)
  | ArenaTooSmall (provided: usize) (minimum: usize)
  | AlreadyInitialized
  | ConfigNotInitialized
  | PlatformError string
  | QuantumBelowTick (requested_ns: u64) (tick_ns_of: u64)
  | QuantumNotMultipleOfTick (requested_ns: u64) (tick_ns_of: u64)
  | QuantumTooLarge (ticks_of: u64)

record platform_limits =
  min_slice_ns :: u64
  max_slice_ns :: "u64 option"
  limits_timer_hz :: u32
  timer_note :: string

text \<open>The slice as programmed into the timer (\<^verbatim>\<open>arch::TimerPlan\<close>).\<close>

record timer_plan =
  plan_slice_ns :: u64
  plan_slice_cycles :: u32
  plan_timer_hz :: u32

section \<open>The configuration and its builders\<close>

definition default_stack_size :: usize where
  "default_stack_size = 4096"

text \<open>The arena override is the base address and the length of the supplied region.\<close>

record scheduler_config =
  cfg_slice :: slice
  cfg_timer_hz :: u32
  cfg_stack_size :: usize
  cfg_arena :: "(ptr \<times> usize) option"
  cfg_idle :: idle_policy
  cfg_measure :: measure_mode

definition scheduler_config_default :: scheduler_config where
  "scheduler_config_default =
     \<lparr>cfg_slice = Millis 1, cfg_timer_hz = 0, cfg_stack_size = default_stack_size,
      cfg_arena = None, cfg_idle = Wait, cfg_measure = MeasureOff\<rparr>"

definition with_slice :: "slice \<Rightarrow> scheduler_config" where
  "with_slice sl =
     \<lparr>cfg_slice = sl, cfg_timer_hz = 0, cfg_stack_size = default_stack_size,
      cfg_arena = None, cfg_idle = Wait, cfg_measure = MeasureOff\<rparr>"

definition embedded :: "slice \<Rightarrow> u32 \<Rightarrow> scheduler_config" where
  "embedded sl core_clock_hz =
     \<lparr>cfg_slice = sl, cfg_timer_hz = core_clock_hz, cfg_stack_size = default_stack_size,
      cfg_arena = None, cfg_idle = Wait, cfg_measure = MeasureCycles\<rparr>"

definition set_stack_size :: "scheduler_config \<Rightarrow> usize \<Rightarrow> scheduler_config" where
  "set_stack_size c bytes = c\<lparr>cfg_stack_size := bytes\<rparr>"

definition set_idle :: "scheduler_config \<Rightarrow> idle_policy \<Rightarrow> scheduler_config" where
  "set_idle c policy = c\<lparr>cfg_idle := policy\<rparr>"

definition set_measure :: "scheduler_config \<Rightarrow> measure_mode \<Rightarrow> scheduler_config" where
  "set_measure c mode = c\<lparr>cfg_measure := mode\<rparr>"

definition set_arena :: "scheduler_config \<Rightarrow> ptr \<times> usize \<Rightarrow> scheduler_config" where
  "set_arena c region = c\<lparr>cfg_arena := Some region\<rparr>"

section \<open>Texts\<close>

text \<open>Decimal output, as \<^verbatim>\<open>core::fmt\<close> prints an unsigned integer with \<open>{}\<close>.\<close>

fun fmt_dec :: "nat \<Rightarrow> string" where
  "fmt_dec n = (if n < 10 then [char_of (48 + n)]
                else fmt_dec (n div 10) @ [char_of (48 + n mod 10)])"

declare fmt_dec.simps [simp del]

definition slice_display :: "slice \<Rightarrow> string" where
  "slice_display sl = (case sl of
     Nanos n \<Rightarrow> fmt_dec (unat n) @ '' ns''
   | Micros n \<Rightarrow> fmt_dec (unat n) @ '' us''
   | Millis n \<Rightarrow> fmt_dec (unat n) @ '' ms''
   | Hertz n \<Rightarrow> fmt_dec (unat n) @ '' Hz''
   | Cycles n \<Rightarrow> fmt_dec (unat n) @ '' cycles''
   | SliceDefault \<Rightarrow> ''the configured default'')"

definition config_error_display :: "config_error \<Rightarrow> string" where
  "config_error_display e = (case e of
     ZeroSlice \<Rightarrow> ''slice resolved to zero''
   | TimerClockRequired \<Rightarrow> ''timer_hz (core clock) must be set on bare metal: '' @
       ''SchedulerConfig::embedded(slice, core_clock_hz)''
   | SliceBelowPlatformMinimum r m \<Rightarrow> ''requested slice '' @ fmt_dec (unat r) @
       '' ns is below the platform minimum '' @ fmt_dec (unat m) @ '' ns''
   | SliceAboveTimerRange r m \<Rightarrow> ''requested slice '' @ fmt_dec (unat r) @
       '' ns exceeds the timer range (max '' @ fmt_dec (unat m) @ '' ns)''
   | ArenaTooSmall p m \<Rightarrow> ''arena of '' @ fmt_dec (unat p) @
       '' bytes is too small (need at least '' @ fmt_dec (unat m) @ '' bytes)''
   | AlreadyInitialized \<Rightarrow> ''scheduler already initialized''
   | ConfigNotInitialized \<Rightarrow> ''scheduler not initialized''
   | PlatformError msg \<Rightarrow> ''platform error: '' @ msg
   | QuantumBelowTick r t \<Rightarrow> ''requested quantum '' @ fmt_dec (unat r) @
       '' ns is shorter than one tick ('' @ fmt_dec (unat t) @
       '' ns): configure a shorter slice, or use a quantum of at least one tick''
   | QuantumNotMultipleOfTick r t \<Rightarrow> ''requested quantum '' @ fmt_dec (unat r) @
       '' ns is not a whole number of ticks ('' @ fmt_dec (unat t) @
       '' ns): nested quanta must be integer multiples of the configured slice''
   | QuantumTooLarge ticks \<Rightarrow> ''requested quantum of '' @ fmt_dec (unat ticks) @
       '' ticks is too large'')"

section \<open>Conversions: what the slice becomes\<close>

lemma unat_u64_u128: "unat (ucast (x :: u64) :: u128) = unat x"
  by (simp add: unat_ucast_up)

lemma unat_u32_u128: "unat (ucast (x :: u32) :: u128) = unat x"
  by (simp add: unat_ucast_up)

text \<open>The 128-bit intermediate never overflows.\<close>

lemma cycles_exact:
  "unat (((ucast (ns :: u64) :: u128) * ucast (hz :: u32) + 500000000) div 1000000000)
     = (unat ns * unat hz + 500000000) div 1000000000"
proof -
  have a: "unat ns < 2 ^ 64" and b: "unat hz < 2 ^ 32"
    by simp_all
  have "unat ns * unat hz \<le> 2 ^ 64 * 2 ^ 32"
    using less_imp_le [OF a] less_imp_le [OF b] by (rule mult_mono) simp_all
  then have m: "unat ns * unat hz + 500000000 < 2 ^ 128"
    by simp
  then have p: "unat ((ucast ns :: u128) * ucast hz) = unat ns * unat hz"
    by (simp add: unat_word_ariths unat_u64_u128 unat_u32_u128)
  with m have "unat ((ucast ns :: u128) * ucast hz + 500000000) = unat ns * unat hz + 500000000"
    by (simp add: unat_word_ariths)
  then show ?thesis
    by (simp add: unat_div)
qed

lemma unat_to_cycles:
  assumes "sl \<noteq> SliceDefault" and "hz \<noteq> 0"
  shows "unat (to_cycles sl hz) =
    (let c = (unat (as_nanos sl hz) * unat hz + 500000000) div 1000000000
     in if c = 0 then 1 else c mod 2 ^ 64)"
proof -
  let ?c = "((ucast (as_nanos sl hz) :: u128) * ucast hz + 500000000) div 1000000000"
  have c: "unat ?c = (unat (as_nanos sl hz) * unat hz + 500000000) div 1000000000"
    by (rule cycles_exact)
  have "?c = 0 \<longleftrightarrow> unat ?c = 0"
    by (simp add: unat_eq_0)
  moreover have "unat (ucast ?c :: u64) = unat ?c mod 2 ^ 64"
    by (simp add: unat_ucast_mod)
  ultimately show ?thesis
    using assms by (simp add: to_cycles_def Let_def c)
qed

lemma to_cycles_default: "to_cycles SliceDefault hz = 0"
  by (simp add: to_cycles_def)

end
