(* ===== verification/RkTcb.thy ===== *)
theory RkTcb
  imports RkConfig RkArena
begin

text \<open>
  \<^verbatim>\<open>src/tcb.rs\<close>: the task control block, the kernel control block, and access to TCBs
  through raw pointers.  The memory the pointers point into is the map \<open>heap\<close>; address 0
  is the null pointer.  \<open>rd\<close> is \<^verbatim>\<open>*p\<close> (it fails on a null or dangling pointer) and
  \<open>upd f p\<close> is an assignment to fields of \<^verbatim>\<open>*p\<close>.

  The kernel record also holds what the other modules keep in statics: the arena of
  \<^verbatim>\<open>scheduler.rs\<close>, its resource-id counter, the port's "switch pending" flag, and
  the memory words a port writes: the initial frames on task stacks and its timer registers.
\<close>

unbundle bit_operations_syntax

section \<open>Task control blocks\<close>

definition MAX_HELD_LOCKS :: nat where
  "MAX_HELD_LOCKS = 4"

datatype node_kind = Leaf | Group

datatype task_state = Ready | Running | Dead | Blocked

definition TCB_FLAG_USE_MSP :: u8 where
  "TCB_FLAG_USE_MSP = push_bit 0 1"

definition TCB_FLAG_WOKEN :: u8 where
  "TCB_FLAG_WOKEN = push_bit 1 1"

record tcb =
  sp :: ptr
  stack_base :: ptr
  stack_size :: usize
  closure_block :: ptr
  st :: task_state
  flags :: u8
  nxt :: ptr
  prv :: ptr
  tid :: u32
  slice_cycles :: u32
  slices_run :: u32
  tswitches :: u32
  backend :: ptr
  blocked_on :: u32
  block_deadline :: u64
  held_locks :: "u32 list"
  held_count :: u8
  kind :: node_kind
  parent :: ptr
  children_head :: ptr
  current_child :: ptr
  remaining_cycles :: u32

text \<open>What \<open>alloc_tcb\<close> hands out: every byte zero (\<open>Ready\<close> and \<open>Leaf\<close> are the zero variants).\<close>

definition zero_tcb :: tcb where
  "zero_tcb =
     \<lparr>sp = 0, stack_base = 0, stack_size = 0, closure_block = 0, st = Ready, flags = 0,
      nxt = 0, prv = 0, tid = 0, slice_cycles = 0, slices_run = 0, tswitches = 0,
      backend = 0, blocked_on = 0, block_deadline = 0,
      held_locks = replicate MAX_HELD_LOCKS 0, held_count = 0, kind = Leaf, parent = 0,
      children_head = 0, current_child = 0, remaining_cycles = 0\<rparr>"

definition tcb_is_linked :: "tcb \<Rightarrow> bool" where
  "tcb_is_linked t = (nxt t \<noteq> null_ptr)"

section \<open>C layout of the structures the assembly reads\<close>

text \<open>
  \<^verbatim>\<open>#[repr(C)]\<close> places each field at the next multiple of its alignment.  A field is
  given as (size, alignment); \<open>c_offsets\<close> lists the resulting offsets.
\<close>

definition c_align :: "nat \<Rightarrow> nat \<Rightarrow> nat" where
  "c_align off al = ((off + al - 1) div al) * al"

fun c_offsets :: "nat \<Rightarrow> (nat \<times> nat) list \<Rightarrow> nat list" where
  "c_offsets off [] = []"
| "c_offsets off ((s, al) # fs) = (let o' = c_align off al in o' # c_offsets (o' + s) fs)"

text \<open>Fields of \<open>TaskControlBlock\<close> on a 32-bit target, in declaration order.\<close>

definition tcb_fields :: "(nat \<times> nat) list" where
  "tcb_fields =
     [(4, 4), (4, 4), (4, 4), (4, 4), (1, 1), (1, 1), (4, 4), (4, 4), (4, 4), (4, 4), (4, 4),
      (4, 4), (4, 4), (4, 4), (8, 8), (16, 4), (1, 1), (1, 1), (4, 4), (4, 4), (4, 4), (4, 4)]"

definition tcb_offset :: "nat \<Rightarrow> nat" where
  "tcb_offset i = c_offsets 0 tcb_fields ! i"

definition TCB_SP_OFFSET :: nat where
  "TCB_SP_OFFSET = tcb_offset 0"

definition TCB_STATE_OFFSET :: nat where
  "TCB_STATE_OFFSET = tcb_offset 4"

definition TCB_FLAGS_OFFSET :: nat where
  "TCB_FLAGS_OFFSET = tcb_offset 5"

definition tcb_size :: usize where
  "tcb_size = of_nat (c_align (last (c_offsets 0 tcb_fields) + 4) 8)"

definition tcb_align :: usize where
  "tcb_align = 8"

lemma tcb_layout:
  "TCB_SP_OFFSET = 0" "TCB_STATE_OFFSET = 16" "TCB_FLAGS_OFFSET = 17" "tcb_size = 104"
  by (simp_all add: TCB_SP_OFFSET_def TCB_STATE_OFFSET_def TCB_FLAGS_OFFSET_def tcb_size_def
      tcb_offset_def tcb_fields_def c_align_def Let_def)

section \<open>The kernel control block\<close>

record kernel_config =
  kc_stack_size :: usize
  kc_idle :: idle_policy
  kc_measure :: measure_mode
  kc_slice_cycles :: u32
  kc_timer_hz :: u32
  kc_active_cores :: usize

definition kernel_config_default :: kernel_config where
  "kernel_config_default =
     \<lparr>kc_stack_size = default_stack_size, kc_idle = Wait, kc_measure = MeasureOff,
      kc_slice_cycles = 0, kc_timer_hz = 0, kc_active_cores = 1\<rparr>"

record kernel =
  current_tcb :: ptr
  ring_head :: ptr
  total_threads :: usize
  active_threads :: usize
  ticks :: u64
  switches :: u64
  ticks_deferred :: u64
  worst_latency :: u32
  last_latency :: u32
  worst_period_error_ns :: u32
  last_period_error_ns :: u32
  next_id :: u32
  running :: bool
  shutdown_flag :: bool
  pending_free :: ptr
  reclaimed :: u64
  blocks_without_current :: u64
  idle_waits :: u64
  config :: kernel_config
  root :: ptr
  nodes :: u32
  heap :: "ptr \<rightharpoonup> tcb"
  karena :: arena
  next_resource_id :: u32
  switch_pending :: bool
  words :: "ptr \<rightharpoonup> u32"

definition kernel_new :: kernel where
  "kernel_new =
     \<lparr>current_tcb = 0, ring_head = 0, total_threads = 0, active_threads = 0, ticks = 0,
      switches = 0, ticks_deferred = 0, worst_latency = 0, last_latency = 0,
      worst_period_error_ns = 0, last_period_error_ns = 0, next_id = 1, running = False,
      shutdown_flag = False, pending_free = 0, reclaimed = 0, blocks_without_current = 0,
      idle_waits = 0, config = kernel_config_default, root = 0, nodes = 0,
      heap = Map.empty, karena = arena_empty, next_resource_id = 0x40000000,
      switch_pending = False, words = Map.empty\<rparr>"

definition k_current :: "kernel \<Rightarrow> ptr" where
  "k_current k = current_tcb k"

definition k_set_current :: "ptr \<Rightarrow> kernel \<Rightarrow> kernel" where
  "k_set_current p k = k\<lparr>current_tcb := p\<rparr>"

section \<open>Access through pointers\<close>

type_synonym tcb_heap = "ptr \<rightharpoonup> tcb"

definition rdh :: "tcb_heap \<Rightarrow> ptr \<Rightarrow> tcb option" where
  "rdh h p = (if p = null_ptr then None else h p)"

definition updh :: "(tcb \<Rightarrow> tcb) \<Rightarrow> ptr \<Rightarrow> tcb_heap \<Rightarrow> tcb_heap option" where
  "updh f p h = (case rdh h p of None \<Rightarrow> None | Some t \<Rightarrow> Some (h(p \<mapsto> f t)))"

definition rd :: "kernel \<Rightarrow> ptr \<Rightarrow> tcb option" where
  "rd k p = rdh (heap k) p"

definition upd :: "(tcb \<Rightarrow> tcb) \<Rightarrow> ptr \<Rightarrow> kernel \<Rightarrow> kernel option" where
  "upd f p k = map_option (\<lambda>h. k\<lparr>heap := h\<rparr>) (updh f p (heap k))"

lemma rdh_null [simp]: "rdh h 0 = None"
  by (simp add: rdh_def)

lemma rd_null [simp]: "rd k 0 = None"
  by (simp add: rd_def)

lemma rdh_SomeD: "rdh h p = Some t \<Longrightarrow> p \<noteq> 0 \<and> h p = Some t"
  by (auto simp: rdh_def split: if_splits)

lemma rdh_upd: "p \<noteq> 0 \<Longrightarrow> rdh (h(p \<mapsto> t)) q = (if q = p then Some t else rdh h q)"
  by (auto simp: rdh_def)

lemma rdh_upd_same [simp]: "p \<noteq> 0 \<Longrightarrow> rdh (h(p \<mapsto> t)) p = Some t"
  by (simp add: rdh_def)

lemma rdh_upd_other [simp]: "q \<noteq> p \<Longrightarrow> rdh (h(p \<mapsto> t)) q = rdh h q"
  by (simp add: rdh_def)

lemma updh_Some: "rdh h p = Some t \<Longrightarrow> updh f p h = Some (h(p \<mapsto> f t))"
  by (simp add: updh_def)

lemma updh_SomeD: "updh f p h = Some h' \<Longrightarrow> \<exists>t. rdh h p = Some t \<and> h' = h(p \<mapsto> f t)"
  by (auto simp: updh_def split: option.splits)

lemma upd_Some: "rd k p = Some t \<Longrightarrow> upd f p k = Some (k\<lparr>heap := (heap k)(p \<mapsto> f t)\<rparr>)"
  by (simp add: upd_def rd_def updh_Some)

lemma upd_SomeD:
  "upd f p k = Some k' \<Longrightarrow> \<exists>t. rd k p = Some t \<and> k' = k\<lparr>heap := (heap k)(p \<mapsto> f t)\<rparr>"
  by (auto simp: upd_def rd_def dest!: updh_SomeD)

lemma rd_heap_upd:
  "p \<noteq> 0 \<Longrightarrow> rd (k\<lparr>heap := (heap k')(p \<mapsto> t)\<rparr>) q = (if q = p then Some t else rd k' q)"
  by (simp add: rd_def rdh_upd)

lemma rd_cong_heap: "heap k = heap k' \<Longrightarrow> rd k p = rd k' p"
  by (simp add: rd_def)

end
