(* ===== verification/RkRing.thy ===== *)
theory RkRing
  imports RkTcb
begin

text \<open>
  \<^verbatim>\<open>src/ring.rs\<close>: the doubly linked circular ring of TCBs.  The operations are
  translated over the heap of TCBs; loops are \<open>partial_function (option)\<close>.  The predicate
  \<open>ring h xs\<close> says that the addresses \<open>xs\<close> form one ring, in order, linked both ways.
  The lemmas give every operation's exact effect on that list, from any entry point.
\<close>

section \<open>Operations\<close>

definition not_runnable :: "task_state \<Rightarrow> bool" where
  "not_runnable s = (s = Dead \<or> s = Blocked)"

definition insert_after :: "ptr \<Rightarrow> ptr \<Rightarrow> tcb_heap \<Rightarrow> tcb_heap option" where
  "insert_after current node h =
     (if current = null_ptr then do {
        h \<leftarrow> updh (\<lambda>t. t\<lparr>nxt := node\<rparr>) node h;
        updh (\<lambda>t. t\<lparr>prv := node\<rparr>) node h
      }
      else do {
        c \<leftarrow> rdh h current;
        let after = nxt c;
        h \<leftarrow> updh (\<lambda>t. t\<lparr>prv := current\<rparr>) node h;
        h \<leftarrow> updh (\<lambda>t. t\<lparr>nxt := after\<rparr>) node h;
        h \<leftarrow> updh (\<lambda>t. t\<lparr>nxt := node\<rparr>) current h;
        updh (\<lambda>t. t\<lparr>prv := node\<rparr>) after h
      })"

definition unlink :: "ptr \<Rightarrow> tcb_heap \<Rightarrow> (ptr \<times> tcb_heap) option" where
  "unlink node h = do {
     t \<leftarrow> rdh h node;
     let next = nxt t;
     let prev = prv t;
     if next = node then do {
       h \<leftarrow> updh (\<lambda>t. t\<lparr>nxt := null_ptr\<rparr>) node h;
       h \<leftarrow> updh (\<lambda>t. t\<lparr>prv := null_ptr\<rparr>) node h;
       Some (null_ptr, h)
     }
     else do {
       h \<leftarrow> updh (\<lambda>t. t\<lparr>nxt := next\<rparr>) prev h;
       h \<leftarrow> updh (\<lambda>t. t\<lparr>prv := prev\<rparr>) next h;
       h \<leftarrow> updh (\<lambda>t. t\<lparr>nxt := null_ptr\<rparr>) node h;
       h \<leftarrow> updh (\<lambda>t. t\<lparr>prv := null_ptr\<rparr>) node h;
       Some (next, h)
     }
   }"

partial_function (option) next_runnable_loop :: "tcb_heap \<Rightarrow> ptr \<Rightarrow> ptr \<Rightarrow> ptr option" where
  "next_runnable_loop h start p =
     (if p = null_ptr then Some null_ptr
      else do {
        t \<leftarrow> rdh h p;
        if not_runnable (st t) then
          (if nxt t = start then do {
             f \<leftarrow> rdh h start;
             Some (if not_runnable (st f) then null_ptr else start)
           }
           else next_runnable_loop h start (nxt t))
        else Some p
      })"

declare next_runnable_loop.simps [code]

definition next_runnable :: "tcb_heap \<Rightarrow> ptr \<Rightarrow> ptr option" where
  "next_runnable h start =
     (if start = null_ptr then Some null_ptr
      else do { t \<leftarrow> rdh h start; next_runnable_loop h start (nxt t) })"

definition first_runnable_from :: "tcb_heap \<Rightarrow> ptr \<Rightarrow> ptr option" where
  "first_runnable_from h start =
     (if start = null_ptr then Some start
      else do {
        t \<leftarrow> rdh h start;
        if \<not> not_runnable (st t) then Some start else next_runnable h start
      })"

partial_function (option) ring_len_loop :: "tcb_heap \<Rightarrow> ptr \<Rightarrow> usize \<Rightarrow> ptr \<Rightarrow> usize option" where
  "ring_len_loop h any n p =
     (if p \<noteq> any \<and> p \<noteq> null_ptr then do {
        t \<leftarrow> rdh h p;
        ring_len_loop h any (n + 1) (nxt t)
      }
      else Some n)"

declare ring_len_loop.simps [code]

definition ring_len :: "tcb_heap \<Rightarrow> ptr \<Rightarrow> usize option" where
  "ring_len h any =
     (if any = null_ptr then Some 0
      else do { t \<leftarrow> rdh h any; ring_len_loop h any 1 (nxt t) })"

partial_function (option) prev_of_loop ::
  "tcb_heap \<Rightarrow> ptr \<Rightarrow> ptr \<Rightarrow> ptr \<Rightarrow> usize \<Rightarrow> ptr option" where
  "prev_of_loop h p any q guard = do {
     t \<leftarrow> rdh h q;
     let prev = prv t;
     if prev = null_ptr then Some null_ptr
     else do {
       s \<leftarrow> rdh h prev;
       if nxt s = p then Some prev
       else if guard + 1 > 1000000 \<or> prev = any then do { u \<leftarrow> rdh h p; Some (prv u) }
       else prev_of_loop h p any prev (guard + 1)
     }
   }"

declare prev_of_loop.simps [code]

definition prev_of :: "tcb_heap \<Rightarrow> ptr \<Rightarrow> ptr \<Rightarrow> ptr option" where
  "prev_of h p any = prev_of_loop h p any p 0"

partial_function (option) ring_check_loop ::
  "tcb_heap \<Rightarrow> ptr \<Rightarrow> usize \<Rightarrow> ptr \<Rightarrow> usize \<Rightarrow> (string + usize) option" where
  "ring_check_loop h any n p guard =
     (if p \<noteq> any then
        (if p = null_ptr then Some (Inl ''ring not circular (hit null)'')
         else do {
           t \<leftarrow> rdh h p;
           e \<leftarrow> (if n = 0 then Some any else prev_of h p any);
           if prv t \<noteq> e then Some (Inl ''ring not doubly linked (prev mismatch)'')
           else if guard + 1 > 1000000 then Some (Inl ''ring walk did not terminate'')
           else ring_check_loop h any (n + 1) (nxt t) (guard + 1)
         })
      else do {
        t \<leftarrow> rdh h any;
        e \<leftarrow> prev_of h any any;
        if prv t \<noteq> e then Some (Inl ''head prev does not point at tail'') else Some (Inr n)
      })"

declare ring_check_loop.simps [code]

definition ring_check :: "tcb_heap \<Rightarrow> ptr \<Rightarrow> (string + usize) option" where
  "ring_check h any =
     (if any = null_ptr then Some (Inr 0)
      else do {
        t \<leftarrow> rdh h any;
        if nxt t = null_ptr \<and> prv t = null_ptr then Some (Inr 0)
        else if prv t = null_ptr \<or> nxt t = null_ptr
        then Some (Inl ''half-linked node: exactly one of next/prev is null'')
        else ring_check_loop h any 1 (nxt t) 0
      })"

section \<open>The ring predicate\<close>

definition link :: "tcb_heap \<Rightarrow> ptr \<Rightarrow> ptr \<Rightarrow> bool" where
  "link h a b = (\<exists>s t. rdh h a = Some s \<and> rdh h b = Some t \<and> nxt s = b \<and> prv t = a)"

fun chain :: "tcb_heap \<Rightarrow> ptr \<Rightarrow> ptr list \<Rightarrow> bool" where
  "chain h a [] = True"
| "chain h a (b # bs) = (link h a b \<and> chain h b bs)"

fun ring :: "tcb_heap \<Rightarrow> ptr list \<Rightarrow> bool" where
  "ring h [] = False"
| "ring h (x # xs) = (distinct (x # xs) \<and> chain h x (xs @ [x]))"

definition h_runnable :: "tcb_heap \<Rightarrow> ptr \<Rightarrow> bool" where
  "h_runnable h p = (case rdh h p of None \<Rightarrow> False | Some t \<Rightarrow> \<not> not_runnable (st t))"

definition or_null :: "ptr option \<Rightarrow> ptr" where
  "or_null r = (case r of None \<Rightarrow> null_ptr | Some p \<Rightarrow> p)"

lemma chain_append: "chain h a (bs @ cs) \<longleftrightarrow> chain h a bs \<and> chain h (last (a # bs)) cs"
  by (induction bs arbitrary: a) auto

lemma ring_rotate1: "ring h (x # xs) \<Longrightarrow> ring h (xs @ [x])"
proof (cases xs)
  case (Cons y ys)
  assume "ring h (x # xs)"
  with Cons show ?thesis
    by (auto simp: chain_append)
qed simp

lemma ring_rotate: "ring h (xs @ ys) \<Longrightarrow> ring h (ys @ xs)"
proof (induction xs arbitrary: ys)
  case (Cons x xs)
  then have "ring h (xs @ (ys @ [x]))"
    using ring_rotate1 [of h x "xs @ ys"] by simp
  then show ?case
    using Cons.IH [of "ys @ [x]"] by simp
qed simp

lemma ring_not_Nil: "ring h xs \<Longrightarrow> xs \<noteq> []"
  by (cases xs) auto

lemma ring_distinct: "ring h xs \<Longrightarrow> distinct xs"
  by (cases xs) auto

lemma ring_enter:
  assumes "ring h xs" and "a \<in> set xs"
  obtains ys zs where "xs = ys @ a # zs" and "ring h (a # zs @ ys)"
  using assms ring_rotate by (metis append_Cons in_set_conv_decomp)

lemma link_rd: "link h a b \<Longrightarrow> \<exists>s t. rdh h a = Some s \<and> rdh h b = Some t \<and> nxt s = b \<and> prv t = a"
  by (simp add: link_def)

lemma link_nonnull: "link h a b \<Longrightarrow> a \<noteq> 0 \<and> b \<noteq> 0"
  by (auto simp: link_def)

lemma chain_rd: "chain h a bs \<Longrightarrow> b \<in> set bs \<Longrightarrow> \<exists>t. rdh h b = Some t \<and> prv t \<noteq> 0"
  by (induction bs arbitrary: a) (auto simp: link_def dest: rdh_SomeD)

lemma chain_prev: "chain h a (bs @ [b]) \<Longrightarrow> link h (last (a # bs)) b"
  by (simp add: chain_append)

lemma ring_succ:
  assumes "ring h (x # xs)"
  shows "\<exists>t. rdh h x = Some t \<and> nxt t = hd (xs @ [x]) \<and> prv t = last (x # xs)"
proof -
  have "link h x (hd (xs @ [x]))"
    using assms by (cases xs) auto
  moreover have "link h (last (x # xs)) x"
    using assms chain_prev by auto
  ultimately show ?thesis
    by (auto simp: link_def)
qed

lemma ring_member:
  assumes "ring h xs" and "a \<in> set xs"
  shows "\<exists>t. rdh h a = Some t \<and> nxt t \<in> set xs \<and> prv t \<in> set xs"
proof -
  obtain ys zs where xs: "xs = ys @ a # zs" and "ring h (a # zs @ ys)"
    using assms by (rule ring_enter)
  from ring_succ [OF this(2)] obtain t
    where t: "rdh h a = Some t" and n: "nxt t = hd ((zs @ ys) @ [a])"
      and p: "prv t = last (a # zs @ ys)"
    by blast
  have "nxt t \<in> set ((zs @ ys) @ [a])"
    unfolding n by (rule hd_in_set) simp
  moreover have "prv t \<in> set (a # zs @ ys)"
    unfolding p by (rule last_in_set) simp
  ultimately show ?thesis
    using t xs by auto
qed

lemma ring_nonnull: "ring h xs \<Longrightarrow> a \<in> set xs \<Longrightarrow> a \<noteq> 0"
  using ring_member rdh_SomeD by blast

lemma ring_nxt_in: "ring h xs \<Longrightarrow> a \<in> set xs \<Longrightarrow> rdh h a = Some t \<Longrightarrow> nxt t \<in> set xs"
  by (drule (1) ring_member) auto

lemma ring_nxt_nonnull:
  assumes "ring h xs" "a \<in> set xs" "rdh h a = Some t" shows "nxt t \<noteq> 0"
  using ring_nonnull [OF assms(1) ring_nxt_in [OF assms]] .

text \<open>A chain only depends on the links of its own nodes.\<close>

definition same_links :: "tcb_heap \<Rightarrow> tcb_heap \<Rightarrow> ptr \<Rightarrow> bool" where
  "same_links h h' a =
     (\<forall>t. rdh h a = Some t \<longrightarrow> (\<exists>t'. rdh h' a = Some t' \<and> nxt t' = nxt t \<and> prv t' = prv t))"

lemma link_cong: "link h a b \<Longrightarrow> same_links h h' a \<Longrightarrow> same_links h h' b \<Longrightarrow> link h' a b"
  unfolding link_def same_links_def by (elim exE conjE) (simp, blast)

lemma chain_cong:
  "chain h a bs \<Longrightarrow> \<forall>x\<in>set (a # bs). same_links h h' x \<Longrightarrow> chain h' a bs"
  by (induction bs arbitrary: a) (auto intro: link_cong [of h])

lemma ring_cong: "ring h xs \<Longrightarrow> \<forall>x\<in>set xs. same_links h h' x \<Longrightarrow> ring h' xs"
  by (cases xs) (simp, simp, rule chain_cong [of h], auto)

lemma same_linksI: "rdh h' a = rdh h a \<Longrightarrow> same_links h h' a"
  by (simp add: same_links_def)

text \<open>Finer: a chain uses the successor of all its nodes but the last, and the predecessor
  of all but the first.\<close>

definition same_nxt :: "tcb_heap \<Rightarrow> tcb_heap \<Rightarrow> ptr \<Rightarrow> bool" where
  "same_nxt h h' a = (\<forall>t. rdh h a = Some t \<longrightarrow> (\<exists>t'. rdh h' a = Some t' \<and> nxt t' = nxt t))"

definition same_prv :: "tcb_heap \<Rightarrow> tcb_heap \<Rightarrow> ptr \<Rightarrow> bool" where
  "same_prv h h' a = (\<forall>t. rdh h a = Some t \<longrightarrow> (\<exists>t'. rdh h' a = Some t' \<and> prv t' = prv t))"

lemma link_cong2: "link h a b \<Longrightarrow> same_nxt h h' a \<Longrightarrow> same_prv h h' b \<Longrightarrow> link h' a b"
  unfolding link_def same_nxt_def same_prv_def by (elim exE conjE) (simp, blast)

lemma chain_cong2:
  "chain h a bs \<Longrightarrow> \<forall>x\<in>set (butlast (a # bs)). same_nxt h h' x \<Longrightarrow>
   \<forall>x\<in>set bs. same_prv h h' x \<Longrightarrow> chain h' a bs"
  by (induction bs arbitrary: a) (auto intro: link_cong2 [of h] split: if_splits)

text \<open>The ring operations write links only.\<close>

definition unlinked :: "tcb \<Rightarrow> tcb" where
  "unlinked t = t\<lparr>nxt := null_ptr, prv := null_ptr\<rparr>"

definition only_links :: "tcb_heap \<Rightarrow> tcb_heap \<Rightarrow> bool" where
  "only_links h h' = (\<forall>a. map_option unlinked (rdh h' a) = map_option unlinked (rdh h a))"

lemma only_linksD:
  "only_links h h' \<Longrightarrow> rdh h a = Some t \<Longrightarrow> \<exists>t'. rdh h' a = Some t' \<and> unlinked t' = unlinked t"
  unfolding only_links_def by (drule spec [of _ a]) auto

lemma only_links_refl [simp]: "only_links h h"
  by (simp add: only_links_def)

lemma only_links_trans: "only_links h h' \<Longrightarrow> only_links h' h'' \<Longrightarrow> only_links h h''"
  by (simp add: only_links_def)

lemma unlinked_upd [simp]:
  "unlinked (t\<lparr>nxt := x\<rparr>) = unlinked t" "unlinked (t\<lparr>prv := x\<rparr>) = unlinked t"
  by (simp_all add: unlinked_def)

lemma only_links_upd:
  "rdh h a = Some t \<Longrightarrow> unlinked t' = unlinked t \<Longrightarrow> only_links h (h(a \<mapsto> t'))"
  using rdh_SomeD [of h a t] by (auto simp: only_links_def rdh_upd)

section \<open>Insertion\<close>

lemma insert_after_null:
  assumes "rdh h n = Some t"
  shows "insert_after null_ptr n h = Some (h(n \<mapsto> t\<lparr>nxt := n, prv := n\<rparr>))"
    and "ring (h(n \<mapsto> t\<lparr>nxt := n, prv := n\<rparr>)) [n]"
proof -
  have n: "n \<noteq> 0" using assms rdh_SomeD by blast
  show "insert_after null_ptr n h = Some (h(n \<mapsto> t\<lparr>nxt := n, prv := n\<rparr>))"
    using assms n by (simp add: insert_after_def updh_Some [of _ n t] updh_Some [of _ n "t\<lparr>nxt := n\<rparr>"])
  show "ring (h(n \<mapsto> t\<lparr>nxt := n, prv := n\<rparr>)) [n]"
    using n by (simp add: link_def)
qed

lemma insert_after_step:
  assumes tn: "rdh h n = Some t" and tc: "rdh h c = Some s" and "n \<noteq> c" and "nxt s \<noteq> n"
    and ta: "rdh h (nxt s) = Some u"
  shows "insert_after c n h =
    Some (if nxt s = c then h(n \<mapsto> t\<lparr>prv := c, nxt := c\<rparr>, c \<mapsto> s\<lparr>nxt := n, prv := n\<rparr>)
          else h(n \<mapsto> t\<lparr>prv := c, nxt := nxt s\<rparr>, c \<mapsto> s\<lparr>nxt := n\<rparr>, nxt s \<mapsto> u\<lparr>prv := n\<rparr>))"
proof -
  have nz: "n \<noteq> 0" "c \<noteq> 0" "nxt s \<noteq> 0" using assms rdh_SomeD by blast+
  show ?thesis
    using assms nz by (auto simp: insert_after_def updh_def Let_def)
qed

lemma insert_after_ring:
  assumes R: "ring h (c # xs)" and tn: "rdh h n = Some t" and nin: "n \<notin> set (c # xs)"
  shows "\<exists>h'. insert_after c n h = Some h' \<and> ring h' (c # n # xs) \<and> only_links h h'
           \<and> (\<forall>a. a \<notin> set (n # c # xs) \<longrightarrow> h' a = h a)"
proof -
  obtain s where tc: "rdh h c = Some s" and ns: "nxt s = hd (xs @ [c])"
    using ring_succ [OF R] by blast
  have a_in: "nxt s \<in> set (c # xs)"
    unfolding ns by (cases xs) auto
  then obtain u where tu: "rdh h (nxt s) = Some u"
    using ring_member [OF R] by blast
  have ne: "n \<noteq> c" "nxt s \<noteq> n" using nin a_in by auto
  have nz: "n \<noteq> 0" "c \<noteq> 0" "nxt s \<noteq> 0" using tn tc tu rdh_SomeD by blast+
  show ?thesis
  proof (cases xs)
    case Nil
    let ?h = "h(n \<mapsto> t\<lparr>prv := c, nxt := c\<rparr>, c \<mapsto> s\<lparr>nxt := n, prv := n\<rparr>)"
    have "insert_after c n h = Some ?h"
      using insert_after_step [OF tn tc ne tu] ns Nil by simp
    moreover have "ring ?h (c # n # xs)"
      using Nil nz ne by (simp add: link_def rdh_upd)
    moreover have "only_links h ?h"
      using tn tc nz ne unfolding only_links_def
      by (auto simp: rdh_upd)
    ultimately show ?thesis by fastforce
  next
    case (Cons a ys)
    with ns have a: "nxt s = a" by simp
    have ac: "a \<noteq> c" "a \<notin> set ys" "c \<notin> set ys" using R Cons by auto
    let ?h = "h(n \<mapsto> t\<lparr>prv := c, nxt := a\<rparr>, c \<mapsto> s\<lparr>nxt := n\<rparr>, a \<mapsto> u\<lparr>prv := n\<rparr>)"
    have "insert_after c n h = Some ?h"
      using insert_after_step [OF tn tc ne tu] a ac by simp
    moreover have "ring ?h (c # n # xs)"
    proof -
      have "chain h a (ys @ [c])" using R Cons by simp
      then have "chain ?h a (ys @ [c])"
        by (rule chain_cong2)
          (use ac nin nz a Cons tu tc in \<open>auto simp: same_nxt_def same_prv_def rdh_upd butlast_append\<close>)
      moreover have "link ?h c n" "link ?h n a"
        using nz ne a ac by (simp_all add: link_def rdh_upd)
      ultimately show ?thesis
        using R nin Cons by auto
    qed
    moreover have "only_links h ?h"
      using tn tc tu nz ne a ac unfolding only_links_def
      by (auto simp: rdh_upd)
    ultimately show ?thesis using Cons by fastforce
  qed
qed

section \<open>Removal\<close>

lemma unlink_sole:
  assumes "rdh h n = Some t" and "nxt t = n"
  shows "unlink n h = Some (null_ptr, h(n \<mapsto> t\<lparr>nxt := null_ptr, prv := null_ptr\<rparr>))"
  using assms rdh_SomeD [OF assms(1)] by (simp add: unlink_def updh_def)

lemma unlink_step:
  assumes tn: "rdh h n = Some t" and "nxt t = a" and "prv t = p" and "a \<noteq> n" and "p \<noteq> n"
    and ta: "rdh h a = Some u" and tp: "rdh h p = Some v"
  shows "unlink n h = Some (a,
     if p = a then h(a \<mapsto> u\<lparr>nxt := a, prv := a\<rparr>, n \<mapsto> t\<lparr>nxt := null_ptr, prv := null_ptr\<rparr>)
     else h(p \<mapsto> v\<lparr>nxt := a\<rparr>, a \<mapsto> u\<lparr>prv := p\<rparr>, n \<mapsto> t\<lparr>nxt := null_ptr, prv := null_ptr\<rparr>))"
proof -
  have nz: "n \<noteq> 0" "a \<noteq> 0" "p \<noteq> 0" using assms rdh_SomeD by blast+
  show ?thesis
    using assms nz by (auto simp: unlink_def updh_def Let_def fun_upd_twist)
qed

lemma unlink_ring:
  assumes R: "ring h (n # xs)" and tn: "rdh h n = Some t"
  shows "\<exists>h'. unlink n h = Some (if xs = [] then null_ptr else hd xs, h')
           \<and> (xs \<noteq> [] \<longrightarrow> ring h' xs) \<and> only_links h h'
           \<and> rdh h' n = Some (t\<lparr>nxt := null_ptr, prv := null_ptr\<rparr>)
           \<and> (\<forall>a. a \<notin> set (n # xs) \<longrightarrow> h' a = h a)"
proof (cases xs)
  case Nil
  have n0: "n \<noteq> 0" using tn rdh_SomeD by blast
  have "nxt t = n" using ring_succ [OF R] tn Nil by auto
  from unlink_sole [OF tn this] show ?thesis
    using Nil n0 only_links_upd [OF tn] by (simp add: unlinked_def)
next
  case (Cons a ys)
  obtain u where tu: "rdh h a = Some u"
    using ring_member [OF R, of a] Cons by auto
  define p where "p = last xs"
  have p_in: "p \<in> set xs" using Cons p_def by auto
  then obtain v where tv: "rdh h p = Some v"
    using ring_member [OF R, of p] by auto
  have na: "nxt t = a" "prv t = p"
    using ring_succ [OF R] tn Cons p_def by auto
  have ne: "a \<noteq> n" "p \<noteq> n" using R Cons p_in by auto
  have nz: "n \<noteq> 0" "a \<noteq> 0" "p \<noteq> 0" using tn tu tv rdh_SomeD by blast+
  let ?t = "t\<lparr>nxt := null_ptr, prv := null_ptr\<rparr>"
  show ?thesis
  proof (cases "p = a")
    case True
    have "ys = []"
      using True p_def Cons R by (cases ys rule: rev_cases) auto
    let ?h = "h(a \<mapsto> u\<lparr>nxt := a, prv := a\<rparr>, n \<mapsto> ?t)"
    have "unlink n h = Some (a, ?h)"
      using unlink_step [OF tn na ne tu tv] True by simp
    moreover have "ring ?h xs"
      using Cons \<open>ys = []\<close> nz ne by (simp add: link_def rdh_upd)
    moreover have "only_links h ?h"
      using tn tu nz ne unfolding only_links_def by (auto simp: rdh_upd)
    ultimately show ?thesis
      using Cons nz by (fastforce simp: rdh_upd)
  next
    case False
    let ?h = "h(p \<mapsto> v\<lparr>nxt := a\<rparr>, a \<mapsto> u\<lparr>prv := p\<rparr>, n \<mapsto> ?t)"
    obtain zs where ys: "ys = zs @ [p]"
      using False p_def Cons by (cases ys rule: rev_cases) auto
    have d: "a \<noteq> p" "a \<notin> set zs" "p \<notin> set zs" "n \<notin> set zs" "n \<noteq> p" "n \<noteq> a"
      using R Cons ys by auto
    have "unlink n h = Some (a, ?h)"
      using unlink_step [OF tn na ne tu tv] False by simp
    moreover have "ring ?h xs"
    proof -
      have "chain h a (zs @ [p])" using R Cons ys by (simp add: chain_append)
      then have "chain ?h a (zs @ [p])"
        by (rule chain_cong2)
          (use d nz tv tu in \<open>auto simp: same_nxt_def same_prv_def rdh_upd butlast_append\<close>)
      moreover have "link ?h p a"
        using nz d by (simp add: link_def rdh_upd)
      ultimately show ?thesis
        using R Cons ys by (simp add: chain_append)
    qed
    moreover have "only_links h ?h"
      using tn tu tv nz ne d unfolding only_links_def by (auto simp: rdh_upd)
    ultimately show ?thesis
      using Cons ys nz by (fastforce simp: rdh_upd)
  qed
qed

section \<open>Search\<close>

lemma next_runnable_loop_chain:
  assumes "chain h p ys" "ys = zs @ [start]" "start \<notin> set (p # zs)" "rdh h p = Some t"
  shows "next_runnable_loop h start p = Some (or_null (List.find (h_runnable h) (p # ys)))"
  using assms
proof (induction zs arbitrary: p t ys)
  case Nil
  then have l: "link h p start" by simp
  then obtain f where f: "rdh h start = Some f" and n: "nxt t = start"
    using Nil.prems(4) by (auto simp: link_def)
  have "p \<noteq> 0" using Nil.prems rdh_SomeD by blast
  then show ?case
    using Nil.prems f n
    by (subst next_runnable_loop.simps) (auto simp: h_runnable_def or_null_def)
next
  case (Cons z zs)
  then have l: "link h p z" and c: "chain h z (zs @ [start])" by auto
  then obtain s where s: "rdh h z = Some s" and n: "nxt t = z"
    using Cons.prems(4) by (auto simp: link_def)
  have "p \<noteq> 0" using Cons.prems rdh_SomeD by blast
  moreover have "next_runnable_loop h start z
      = Some (or_null (List.find (h_runnable h) (z # zs @ [start])))"
    using Cons.IH [OF c refl _ s] Cons.prems(3) by simp
  moreover have "z \<noteq> start" using Cons.prems(3) by auto
  ultimately show ?case
    using Cons.prems n
    by (subst next_runnable_loop.simps) (simp add: h_runnable_def or_null_def)
qed

theorem next_runnable_ring:
  assumes R: "ring h (a # xs)"
  shows "next_runnable h a = Some (or_null (List.find (h_runnable h) (xs @ [a])))"
proof -
  obtain t where t: "rdh h a = Some t" and n: "nxt t = hd (xs @ [a])"
    using ring_succ [OF R] by blast
  have a0: "a \<noteq> 0" using t rdh_SomeD by blast
  show ?thesis
  proof (cases xs)
    case Nil
    then show ?thesis
      using a0 t n by (auto simp: next_runnable_def next_runnable_loop.simps h_runnable_def or_null_def)
  next
    case (Cons y ys)
    obtain s where s: "rdh h y = Some s"
      using ring_member [OF R, of y] Cons by auto
    have "next_runnable_loop h a y = Some (or_null (List.find (h_runnable h) (y # ys @ [a])))"
      by (rule next_runnable_loop_chain [OF _ refl _ s]) (use R Cons in auto)
    then show ?thesis
      using a0 t n Cons by (simp add: next_runnable_def)
  qed
qed

theorem first_runnable_from_ring:
  assumes R: "ring h (a # xs)"
  shows "first_runnable_from h a = Some (or_null (List.find (h_runnable h) (a # xs)))"
proof -
  obtain t where t: "rdh h a = Some t"
    using ring_succ [OF R] by blast
  have a0: "a \<noteq> 0" using t rdh_SomeD by blast
  show ?thesis
    using a0 t next_runnable_ring [OF R]
    by (auto simp: first_runnable_from_def h_runnable_def or_null_def find_append split: option.splits)
qed

section \<open>Length and the invariant checker\<close>

lemma ring_len_loop_chain:
  assumes "chain h p (zs @ [any])" "any \<notin> set (p # zs)" "any \<noteq> 0" "rdh h p = Some t"
  shows "ring_len_loop h any n p = Some (n + of_nat (length (p # zs)))"
  using assms
proof (induction zs arbitrary: p t n)
  case Nil
  then have "nxt t = any" "p \<noteq> 0" "p \<noteq> any" by (auto simp: link_def dest: rdh_SomeD)
  then show ?case
    using Nil.prems by (simp add: ring_len_loop.simps)
next
  case (Cons z zs)
  then obtain s where s: "rdh h z = Some s" and n: "nxt t = z"
    by (auto simp: link_def)
  have "p \<noteq> 0" "p \<noteq> any" using Cons.prems rdh_SomeD by auto
  moreover have "ring_len_loop h any (n + 1) z = Some (n + 1 + of_nat (length (z # zs)))"
    using Cons.prems by (intro Cons.IH [OF _ _ _ s]) auto
  ultimately show ?case
    using Cons.prems n by (subst ring_len_loop.simps) (simp add: add.assoc)
qed

lemma ring_len_ring:
  assumes R: "ring h (a # xs)"
  shows "ring_len h a = Some (of_nat (length (a # xs)))"
proof -
  obtain t where t: "rdh h a = Some t" and n: "nxt t = hd (xs @ [a])"
    using ring_succ [OF R] by blast
  have a0: "a \<noteq> 0" using t rdh_SomeD by blast
  show ?thesis
  proof (cases xs)
    case Nil
    then show ?thesis using a0 t n by (simp add: ring_len_def ring_len_loop.simps)
  next
    case (Cons y ys)
    obtain s where s: "rdh h y = Some s"
      using ring_member [OF R, of y] Cons by auto
    have "ring_len_loop h a 1 y = Some (1 + of_nat (length (y # ys)))"
      by (rule ring_len_loop_chain [OF _ _ a0 s]) (use R Cons in auto)
    then show ?thesis
      using a0 t n Cons by (simp add: ring_len_def)
  qed
qed

lemma prev_of_link:
  assumes "link h b p" and "rdh h p = Some t"
  shows "prev_of h p any = Some (prv t)"
proof -
  have "b \<noteq> 0" using assms link_nonnull by blast
  then show ?thesis
    using assms by (auto simp: prev_of_def link_def prev_of_loop.simps [of h p any p])
qed

lemma ring_check_loop_chain:
  assumes "chain h b (p # zs @ [any])" "any \<notin> set (p # zs)" "any \<noteq> 0" "n \<noteq> 0"
    and "unat g + length (p # zs) \<le> 1000000" and "unat n + length (p # zs) < 2 ^ 32"
  shows "ring_check_loop h any n p g = Some (Inr (n + of_nat (length (p # zs))))"
  using assms
proof (induction zs arbitrary: b p n g)
  case Nil
  then obtain t u where t: "rdh h p = Some t" "nxt t = any" and u: "rdh h any = Some u"
    by (auto simp: link_def)
  have pn: "p \<noteq> 0" "p \<noteq> any" using Nil.prems t rdh_SomeD by auto
  have e: "prev_of h p any = Some (prv t)" "prev_of h any any = Some (prv u)"
    using Nil.prems t u by (auto intro: prev_of_link)
  have g: "\<not> g + 1 > 1000000"
    using Nil.prems(5) by (simp add: word_less_nat_alt unat_Suc_small)
  show ?case
    using pn t u e g Nil.prems(3,4) by (simp add: ring_check_loop.simps)
next
  case (Cons z zs)
  then obtain t where t: "rdh h p = Some t" "nxt t = z"
    by (auto simp: link_def)
  have pn: "p \<noteq> 0" "p \<noteq> any" using Cons.prems t rdh_SomeD by auto
  have e: "prev_of h p any = Some (prv t)"
    using Cons.prems t by (auto intro: prev_of_link)
  have g1: "unat (g + 1) = unat g + 1" and n1: "unat (n + 1) = unat n + 1"
    using Cons.prems(5,6) by (simp_all add: unat_Suc_small)
  have g: "\<not> g + 1 > 1000000"
    using Cons.prems(5) g1 by (simp add: word_less_nat_alt)
  have "n + 1 \<noteq> 0"
    using n1 by (metis add_eq_0_iff_both_eq_0 unat_0 zero_neq_one)
  then have "ring_check_loop h any (n + 1) z (g + 1) = Some (Inr (n + 1 + of_nat (length (z # zs))))"
    using Cons.prems g1 n1 by (intro Cons.IH [of p]) auto
  then show ?case
    using pn t e g Cons.prems(4) by (subst ring_check_loop.simps) (simp add: add.assoc)
qed

lemma ring_check_ring:
  assumes R: "ring h (a # xs)" and len: "length xs < 1000000"
  shows "ring_check h a = Some (Inr (of_nat (length (a # xs))))"
proof -
  obtain t where t: "rdh h a = Some t" and n: "nxt t = hd (xs @ [a])" and p: "prv t = last (a # xs)"
    using ring_succ [OF R] by blast
  have a0: "a \<noteq> 0" using t rdh_SomeD by blast
  have nz: "nxt t \<noteq> 0" "prv t \<noteq> 0"
    using ring_nxt_nonnull [OF R _ t] ring_nonnull [OF R, of "prv t"] p by auto
  show ?thesis
  proof (cases xs)
    case Nil
    have "prev_of h a a = Some (prv t)"
      using R Nil t by (auto intro: prev_of_link)
    then show ?thesis using a0 t n p Nil by (simp add: ring_check_def ring_check_loop.simps)
  next
    case (Cons y ys)
    have "ring_check_loop h a 1 y 0 = Some (Inr (1 + of_nat (length (y # ys))))"
      by (rule ring_check_loop_chain [where b = a]) (use R Cons a0 len in auto)
    then show ?thesis
      using a0 t n nz Cons by (simp add: ring_check_def)
  qed
qed

section \<open>Rings as an interface: rotation in ring order\<close>

text \<open>
  What a client relies on: a cyclic order of members that does not depend on the entry
  point, and a successor function that returns the first runnable member after its
  argument, coming back to the argument last.  Under these laws, going from runnable
  member to runnable member is exactly round robin.
\<close>

locale cyclic_order =
  fixes is_ring :: "'h \<Rightarrow> 'p list \<Rightarrow> bool"
    and runn :: "'h \<Rightarrow> 'p \<Rightarrow> bool"
    and succ :: "'h \<Rightarrow> 'p \<Rightarrow> 'p option"
  assumes rotate: "is_ring h (xs @ ys) \<Longrightarrow> is_ring h (ys @ xs)"
    and succ_find: "is_ring h (a # xs) \<Longrightarrow> succ h a = List.find (runn h) (xs @ [a])"
begin

lemma succ_at:
  assumes "is_ring h (ys @ a # zs)"
  shows "succ h a = List.find (runn h) (zs @ ys @ [a])"
  using succ_find [of h a "zs @ ys"] rotate [of h ys "a # zs"] assms by simp

lemma find_hd_filter: "List.find P xs = (case filter P xs of [] \<Rightarrow> None | y # _ \<Rightarrow> Some y)"
  by (induction xs) auto

lemma succ_runnable:
  assumes R: "is_ring h xs" and i: "i < length (filter (runn h) xs)"
  shows "succ h (filter (runn h) xs ! i)
       = Some (filter (runn h) xs ! (Suc i mod length (filter (runn h) xs)))"
proof -
  let ?rs = "filter (runn h) xs"
  obtain us vs where rs: "?rs = us @ ?rs ! i # vs" and u: "length us = i"
    using i by (metis id_take_nth_drop length_take min.absorb4)
  then obtain ys zs where xs: "xs = ys @ ?rs ! i # zs" and us: "us = filter (runn h) ys"
      and a: "runn h (?rs ! i)" and vs: "vs = filter (runn h) zs"
    using filter_split [of "runn h" xs us "?rs ! i" vs] by auto
  have s: "succ h (?rs ! i) = List.find (runn h) (zs @ ys @ [?rs ! i])"
    by (rule succ_at) (use R xs in simp)
  have f: "filter (runn h) (zs @ ys @ [?rs ! i]) = vs @ us @ [?rs ! i]"
    using us vs a by simp
  have len: "length ?rs = Suc (i + length vs)"
    using rs u by (metis length_Cons length_append add_Suc_right)
  show ?thesis
  proof (cases vs)
    case Nil
    have ne: "?rs \<noteq> []" using i by auto
    have "?rs ! (Suc i mod length ?rs) = hd ?rs"
      using Nil len ne by (simp add: hd_conv_nth)
    also have "hd ?rs = hd (us @ [?rs ! i])"
      using arg_cong [OF rs, of hd] Nil by simp
    finally show ?thesis
      using s f Nil by (cases us) (auto simp: find_hd_filter)
  next
    case (Cons v vs')
    have "?rs ! (Suc i mod length ?rs) = v"
      using Cons len u by (subst rs) (simp add: nth_append)
    then show ?thesis
      using s f Cons by (simp add: find_hd_filter)
  qed
qed

lemma succ_iterate:
  assumes R: "is_ring h xs" and i: "i < length (filter (runn h) xs)"
  shows "((\<lambda>p. the (succ h p)) ^^ n) (filter (runn h) xs ! i)
       = filter (runn h) xs ! ((i + n) mod length (filter (runn h) xs))"
proof (induction n)
  case 0
  then show ?case using i by simp
next
  case (Suc n)
  have "(i + n) mod length (filter (runn h) xs) < length (filter (runn h) xs)"
    by (rule mod_less_divisor) (use i in linarith)
  from succ_runnable [OF R this] show ?case
    by (simp add: Suc mod_Suc_eq)
qed

end

definition next_runnable_opt :: "tcb_heap \<Rightarrow> ptr \<Rightarrow> ptr option" where
  "next_runnable_opt h a =
     (case next_runnable h a of None \<Rightarrow> None | Some p \<Rightarrow> if p = null_ptr then None else Some p)"

interpretation ring_order: cyclic_order ring h_runnable next_runnable_opt
proof unfold_locales
  fix h a xs
  assume R: "ring h (a # xs)"
  have "List.find (h_runnable h) (xs @ [a]) \<noteq> Some 0"
    by (auto dest: find_SomeD simp: h_runnable_def)
  then show "next_runnable_opt h a = List.find (h_runnable h) (xs @ [a])"
    using next_runnable_ring [OF R]
    by (auto simp: next_runnable_opt_def or_null_def split: option.splits)
qed (rule ring_rotate)

end
