(* ===== verification/RkTree.thy ===== *)
theory RkTree
  imports RkRing
begin

text \<open>
  The tree walks of \<^verbatim>\<open>src/scheduler.rs\<close> (nested scheduling): how a quantum is armed
  and spent, which child a group resumes on, the descent to a leaf, the only place where a
  grp's cursor advances, the choice of the next leaf, and the walk that visits every node.
  The loops keep the code's step counter and limit (\<open>walk_limit\<close>), as 32-bit words.
\<close>

section \<open>Bounds and node tests\<close>

definition walk_limit :: "kernel \<Rightarrow> u32" where
  "walk_limit k = sat_add (nodes k) 2"

definition arm_if_needed :: "ptr \<Rightarrow> kernel \<Rightarrow> (u32 \<times> kernel) option" where
  "arm_if_needed node k = do {
     t \<leftarrow> rd k node;
     k \<leftarrow> (if remaining_cycles t = 0
          then upd (\<lambda>t. t\<lparr>remaining_cycles := max (slice_cycles t) 1\<rparr>) node k
          else Some k);
     t \<leftarrow> rd k node;
     Some (remaining_cycles t, k)
   }"

definition is_linked :: "kernel \<Rightarrow> ptr \<Rightarrow> bool option" where
  "is_linked k node =
     (if node = null_ptr then Some False
      else do { t \<leftarrow> rd k node; Some (nxt t \<noteq> null_ptr) })"

definition runnable :: "kernel \<Rightarrow> ptr \<Rightarrow> bool option" where
  "runnable k node =
     (if node = null_ptr then Some False
      else do { t \<leftarrow> rd k node; Some (\<not> (st t = Dead \<or> st t = Blocked)) })"

section \<open>Descending into a group\<close>

definition resume_child :: "ptr \<Rightarrow> kernel \<Rightarrow> ptr option" where
  "resume_child grp k = do {
     g \<leftarrow> rd k grp;
     let head = children_head g;
     if head = null_ptr then Some null_ptr
     else do {
       let cur = current_child g;
       r \<leftarrow> runnable k cur;
       l \<leftarrow> (if r then is_linked k cur else Some False);
       ours \<leftarrow> (if l then do { c \<leftarrow> rd k cur; Some (parent c = grp) } else Some False);
       if ours then Some cur
       else do {
         l \<leftarrow> is_linked k cur;
         n \<leftarrow> (if l then next_runnable (heap k) cur else Some null_ptr);
         if n \<noteq> null_ptr then Some n else first_runnable_from (heap k) head
       }
     }
   }"

partial_function (option) descend_loop ::
  "u32 \<Rightarrow> u32 \<Rightarrow> ptr \<Rightarrow> kernel \<Rightarrow> (ptr \<times> kernel) option" where
  "descend_loop limit depth node k = do {
     isgroup \<leftarrow> (if node = null_ptr then Some False
                else do { t \<leftarrow> rd k node; Some (kind t = Group) });
     if isgroup then
       (if depth + 1 > limit then Some (null_ptr, k)
        else do {
          (_, k) \<leftarrow> arm_if_needed node k;
          child \<leftarrow> resume_child node k;
          r \<leftarrow> runnable k child;
          if \<not> r then Some (null_ptr, k)
          else do {
            k \<leftarrow> upd (\<lambda>t. t\<lparr>current_child := child\<rparr>) node k;
            descend_loop limit (depth + 1) child k
          }
        })
     else do {
       r \<leftarrow> runnable k node;
       if \<not> r then Some (null_ptr, k)
       else do { (_, k) \<leftarrow> arm_if_needed node k; Some (node, k) }
     }
   }"

declare descend_loop.simps [code]

definition descend_and_arm :: "ptr \<Rightarrow> kernel \<Rightarrow> (ptr \<times> kernel) option" where
  "descend_and_arm node k = descend_loop (walk_limit k) 0 node k"

section \<open>Advancing a cursor\<close>

text \<open>The inner loop of \<open>advance_from\<close>: one lap over the child ring of a group.\<close>

partial_function (option) advance_ring ::
  "ptr \<Rightarrow> ptr \<Rightarrow> ptr \<Rightarrow> kernel \<Rightarrow> (ptr \<times> kernel) option" where
  "advance_ring grp start p k = do {
     r \<leftarrow> runnable k p;
     (leaf, k) \<leftarrow> (if r then descend_and_arm p k else Some (null_ptr, k));
     if leaf \<noteq> null_ptr then do {
       k \<leftarrow> upd (\<lambda>t. t\<lparr>current_child := p\<rparr>) grp k;
       Some (leaf, k)
     }
     else do {
       t \<leftarrow> rd k p;
       l \<leftarrow> is_linked k (nxt t);
       if \<not> l \<or> nxt t = start then Some (null_ptr, k)
       else advance_ring grp start (nxt t) k
     }
   }"

declare advance_ring.simps [code]

definition advance_start :: "ptr \<Rightarrow> kernel \<Rightarrow> ptr option" where
  "advance_start grp k = do {
     g \<leftarrow> rd k grp;
     let cur = current_child g;
     l \<leftarrow> is_linked k cur;
     if l then do {
       c \<leftarrow> rd k cur;
       Some (if parent c = grp \<and> nxt c \<noteq> null_ptr then nxt c else children_head g)
     }
     else Some (children_head g)
   }"

partial_function (option) advance_loop ::
  "u32 \<Rightarrow> u32 \<Rightarrow> ptr \<Rightarrow> kernel \<Rightarrow> (ptr \<times> kernel) option" where
  "advance_loop limit depth grp k =
     (if grp = null_ptr \<or> depth + 1 > limit then Some (null_ptr, k)
      else do {
        g \<leftarrow> rd k grp;
        l \<leftarrow> is_linked k (children_head g);
        (leaf, k) \<leftarrow> (if l then do { start \<leftarrow> advance_start grp k; advance_ring grp start start k }
                     else Some (null_ptr, k));
        if leaf \<noteq> null_ptr then Some (leaf, k)
        else do {
          g \<leftarrow> rd k grp;
          advance_loop limit (depth + 1) (parent g) k
        }
      })"

declare advance_loop.simps [code]

definition advance_from :: "ptr \<Rightarrow> kernel \<Rightarrow> (ptr \<times> kernel) option" where
  "advance_from grp k = advance_loop (walk_limit k) 0 grp k"

section \<open>Spending quanta and choosing the next leaf\<close>

partial_function (option) outermost_loop ::
  "kernel \<Rightarrow> u32 \<Rightarrow> u32 \<Rightarrow> ptr \<Rightarrow> ptr \<Rightarrow> ptr option" where
  "outermost_loop k limit depth found p =
     (if p = null_ptr then Some found
      else if depth + 1 > limit then Some found
      else do {
        t \<leftarrow> rd k p;
        outermost_loop k limit (depth + 1) (if remaining_cycles t = 0 then p else found) (parent t)
      })"

declare outermost_loop.simps [code]

definition outermost_exhausted :: "ptr \<Rightarrow> kernel \<Rightarrow> ptr option" where
  "outermost_exhausted node k = outermost_loop k (walk_limit k) 0 null_ptr node"

partial_function (option) drain_loop :: "u32 \<Rightarrow> u32 \<Rightarrow> ptr \<Rightarrow> kernel \<Rightarrow> kernel option" where
  "drain_loop limit depth n k =
     (if n = null_ptr then Some k
      else if depth + 1 > limit then Some k
      else do {
        k \<leftarrow> upd (\<lambda>t. t\<lparr>remaining_cycles := sat_sub (remaining_cycles t) 1\<rparr>) n k;
        t \<leftarrow> rd k n;
        drain_loop limit (depth + 1) (parent t) k
      })"

declare drain_loop.simps [code]

definition drain_current_path :: "kernel \<Rightarrow> kernel option" where
  "drain_current_path k = drain_loop (walk_limit k) 0 (k_current k) k"

text \<open>Every node below \<open>z\<close> on the running path whose quantum is spent loses its place.\<close>

partial_function (option) spent_loop ::
  "u32 \<Rightarrow> u32 \<Rightarrow> ptr \<Rightarrow> ptr \<Rightarrow> kernel \<Rightarrow> kernel option" where
  "spent_loop limit guard z n k =
     (if n \<noteq> null_ptr \<and> n \<noteq> z \<and> guard \<le> limit then do {
        t \<leftarrow> rd k n;
        k \<leftarrow> (if remaining_cycles t = 0 \<and> parent t \<noteq> null_ptr then do {
               next \<leftarrow> next_runnable (heap k) n;
               if next \<noteq> null_ptr then do {
                 s \<leftarrow> rd k next;
                 if parent s = parent t
                 then upd (\<lambda>g. g\<lparr>current_child := next\<rparr>) (parent t) k
                 else Some k
               }
               else Some k
             }
             else Some k);
        t \<leftarrow> rd k n;
        spent_loop limit (guard + 1) z (parent t) k
      }
      else Some k)"

declare spent_loop.simps [code]

definition pick_next_leaf :: "ptr \<Rightarrow> kernel \<Rightarrow> (ptr \<times> kernel) option" where
  "pick_next_leaf cur k =
     (if root k = null_ptr then Some (null_ptr, k)
      else if cur = null_ptr then do {
        c \<leftarrow> resume_child (root k) k;
        (leaf, k) \<leftarrow> descend_and_arm c k;
        if leaf \<noteq> null_ptr then Some (leaf, k) else advance_from (root k) k
      }
      else do {
        z \<leftarrow> outermost_exhausted cur k;
        if z = null_ptr then do {
          r \<leftarrow> runnable k cur;
          if r then Some (cur, k) else advance_from (root k) k
        }
        else do {
          k \<leftarrow> spent_loop (walk_limit k) 0 z cur k;
          if z = root k then advance_from (root k) k
          else do {
            t \<leftarrow> rd k z;
            if parent t = null_ptr then advance_from (root k) k
            else advance_from (parent t) k
          }
        }
      })"

section \<open>Visiting every node\<close>

text \<open>
  \<open>walk_side\<close> is the inner loop of \<open>walk_tree\<close>: sideways to the next sibling, or up.  Its
  result is the next node with the step count, or \<open>None\<close> when the walk is over.  The
  callback of \<open>walk_loop\<close> works on the kernel and on the variables it captures.
\<close>

partial_function (option) walk_side ::
  "kernel \<Rightarrow> u32 \<Rightarrow> ptr \<Rightarrow> u32 \<Rightarrow> ptr \<Rightarrow> (ptr \<times> u32) option option" where
  "walk_side k limit owner steps p =
     (if steps + 1 > limit then Some None
      else do {
        t \<leftarrow> rd k p;
        if parent t = null_ptr then Some None
        else do {
          pt \<leftarrow> rd k (parent t);
          l \<leftarrow> is_linked k (nxt t);
          if l \<and> nxt t \<noteq> children_head pt then Some (Some (nxt t, steps + 1))
          else if parent t = owner then Some None
          else walk_side k limit owner (steps + 1) (parent t)
        }
      })"

declare walk_side.simps [code]

partial_function (option) walk_loop ::
  "(ptr \<Rightarrow> 'b \<times> kernel \<Rightarrow> ('b \<times> kernel) option) \<Rightarrow> u32 \<Rightarrow> ptr \<Rightarrow> u32 \<Rightarrow> ptr
     \<Rightarrow> 'b \<times> kernel \<Rightarrow> ('b \<times> kernel) option" where
  "walk_loop f limit owner steps p s =
     (if steps + 1 > limit then Some s
      else do {
        s \<leftarrow> f p s;
        t \<leftarrow> rd (snd s) p;
        down \<leftarrow> (if kind t = Group then is_linked (snd s) (children_head t) else Some False);
        if down then walk_loop f limit owner (steps + 1) (children_head t) s
        else do {
          r \<leftarrow> walk_side (snd s) limit owner (steps + 1) p;
          (case r of None \<Rightarrow> Some s
           | Some q \<Rightarrow> walk_loop f limit owner (snd q) (fst q) s)
        }
      })"

declare walk_loop.simps [code]

definition walk_tree ::
  "(ptr \<Rightarrow> 'b \<times> kernel \<Rightarrow> ('b \<times> kernel) option) \<Rightarrow> ptr \<Rightarrow> 'b \<times> kernel \<Rightarrow> ('b \<times> kernel) option" where
  "walk_tree f first s = do {
     l \<leftarrow> is_linked (snd s) first;
     if \<not> l then Some s
     else do {
       t \<leftarrow> rd (snd s) first;
       walk_loop f (walk_limit (snd s)) (parent t) 0 first s
     }
   }"

end
