(* ===== verification/RkSched.thy ===== *)
theory RkSched
  imports RkTree
begin

text \<open>
  The operations of \<^verbatim>\<open>src/scheduler.rs\<close> that ports and tasks call: the tick, the
  switch, blocking and waking, counters and queries.  Each critical section of the code is
  one function on the kernel state; \<^verbatim>\<open>arch::request_switch\<close> sets \<open>switch_pending\<close> (on
  Cortex-M the \<open>PENDSVSET\<close> bit).  Debug assertions are those of a release build: absent.
\<close>

unbundle bit_operations_syntax

definition request_switch :: "kernel \<Rightarrow> kernel" where
  "request_switch k = k\<lparr>switch_pending := True\<rparr>"

section \<open>The switch\<close>

definition schedule_next :: "kernel \<Rightarrow> (ptr \<times> kernel) option" where
  "schedule_next k = do {
     let cur = k_current k;
     l \<leftarrow> is_linked k cur;
     let (cur, k) = (if cur \<noteq> null_ptr \<and> \<not> l then (null_ptr, k_set_current null_ptr k) else (cur, k));
     (next, k) \<leftarrow> pick_next_leaf cur k;
     nl \<leftarrow> is_linked k next;
     if next = null_ptr \<or> \<not> nl then Some (null_ptr, k)
     else do {
       k \<leftarrow> (if next \<noteq> cur then do {
              k \<leftarrow> (if cur \<noteq> null_ptr then do {
                     c \<leftarrow> rd k cur;
                     if st c = Running then upd (\<lambda>t. t\<lparr>st := Ready\<rparr>) cur k else Some k
                   }
                   else Some k);
              k \<leftarrow> upd (\<lambda>t. t\<lparr>st := Running\<rparr>) next k;
              let k = k_set_current next k;
              Some (k\<lparr>switches := switches k + 1\<rparr>)
            }
            else Some k);
       k \<leftarrow> upd (\<lambda>t. t\<lparr>tswitches := tswitches t + 1\<rparr>) next k;
       k \<leftarrow> upd (\<lambda>t. t\<lparr>slices_run := slices_run t + 1\<rparr>) next k;
       Some (next, k)
     }
   }"

section \<open>Waking\<close>

text \<open>Run a callback over every node below the root.\<close>

definition walk_all ::
  "(ptr \<Rightarrow> 'b \<times> kernel \<Rightarrow> ('b \<times> kernel) option) \<Rightarrow> 'b \<times> kernel \<Rightarrow> ('b \<times> kernel) option" where
  "walk_all f s =
     (if root (snd s) = null_ptr then Some s
      else do { r \<leftarrow> rd (snd s) (root (snd s)); walk_tree f (children_head r) s })"

definition make_ready :: "tcb \<Rightarrow> tcb" where
  "make_ready t = t\<lparr>st := Ready, blocked_on := 0, block_deadline := 0\<rparr>"

definition expire_cb :: "u64 \<Rightarrow> ptr \<Rightarrow> unit \<times> kernel \<Rightarrow> (unit \<times> kernel) option" where
  "expire_cb now p s = do {
     t \<leftarrow> rd (snd s) p;
     if st t = Blocked \<and> block_deadline t \<noteq> 0 \<and> now \<ge> block_deadline t
     then do { k \<leftarrow> upd make_ready p (snd s); Some ((), k) }
     else Some s
   }"

definition wake_expired :: "kernel \<Rightarrow> kernel option" where
  "wake_expired k = do { s \<leftarrow> walk_all (expire_cb (ticks k)) ((), k); Some (snd s) }"

definition on_tick :: "kernel \<Rightarrow> kernel option" where
  "on_tick k = do {
     let k = k\<lparr>ticks := ticks k + 1\<rparr>;
     k \<leftarrow> drain_current_path k;
     wake_expired k
   }"

definition on_tick_deferred :: "kernel \<Rightarrow> kernel" where
  "on_tick_deferred k = k\<lparr>ticks_deferred := ticks_deferred k + 1\<rparr>"

definition record_latency :: "u32 \<Rightarrow> kernel \<Rightarrow> kernel" where
  "record_latency v k =
     (let k = k\<lparr>last_latency := v\<rparr>
      in if v > worst_latency k then k\<lparr>worst_latency := v\<rparr> else k)"

definition record_period_error :: "u32 \<Rightarrow> kernel \<Rightarrow> kernel" where
  "record_period_error v k =
     (let k = k\<lparr>last_period_error_ns := v\<rparr>
      in if v > worst_period_error_ns k then k\<lparr>worst_period_error_ns := v\<rparr> else k)"

definition wake_task_cb :: "u32 \<Rightarrow> ptr \<Rightarrow> unit \<times> kernel \<Rightarrow> (unit \<times> kernel) option" where
  "wake_task_cb i p s = do {
     t \<leftarrow> rd (snd s) p;
     if tid t = i then do {
       k \<leftarrow> upd (\<lambda>t. t\<lparr>flags := flags t OR TCB_FLAG_WOKEN\<rparr>) p (snd s);
       if st t = Blocked then do { k \<leftarrow> upd make_ready p k; Some ((), k) }
       else Some ((), k)
     }
     else Some s
   }"

definition wake_task :: "u32 \<Rightarrow> kernel \<Rightarrow> kernel option" where
  "wake_task i k =
     (if i = 0 then Some k
      else do { s \<leftarrow> walk_all (wake_task_cb i) ((), k); Some (snd s) })"

definition wake_first_cb :: "u32 \<Rightarrow> ptr \<Rightarrow> bool \<times> kernel \<Rightarrow> (bool \<times> kernel) option" where
  "wake_first_cb resource p s = do {
     t \<leftarrow> rd (snd s) p;
     if \<not> fst s \<and> st t = Blocked \<and> blocked_on t = resource then do {
       k \<leftarrow> upd (\<lambda>t. t\<lparr>flags := flags t OR TCB_FLAG_WOKEN\<rparr>) p (snd s);
       k \<leftarrow> upd make_ready p k;
       Some (True, k)
     }
     else Some s
   }"

definition wake_first_blocked_on :: "u32 \<Rightarrow> kernel \<Rightarrow> (bool \<times> kernel) option" where
  "wake_first_blocked_on resource k = walk_all (wake_first_cb resource) (False, k)"

definition blocked_count_cb :: "u32 \<Rightarrow> ptr \<Rightarrow> usize \<times> kernel \<Rightarrow> (usize \<times> kernel) option" where
  "blocked_count_cb resource p s = do {
     t \<leftarrow> rd (snd s) p;
     Some (if st t = Blocked \<and> blocked_on t = resource then (fst s + 1, snd s) else s)
   }"

definition blocked_on_count :: "u32 \<Rightarrow> kernel \<Rightarrow> usize option" where
  "blocked_on_count resource k = do {
     s \<leftarrow> walk_all (blocked_count_cb resource) (0, k); Some (fst s) }"

definition wake_blocked_cb :: "u32 \<Rightarrow> ptr \<Rightarrow> unit \<times> kernel \<Rightarrow> (unit \<times> kernel) option" where
  "wake_blocked_cb resource p s = do {
     t \<leftarrow> rd (snd s) p;
     if st t = Blocked \<and> blocked_on t = resource
     then do { k \<leftarrow> upd make_ready p (snd s); Some ((), k) }
     else Some s
   }"

definition wake_blocked_on :: "u32 \<Rightarrow> kernel \<Rightarrow> kernel option" where
  "wake_blocked_on resource k = do {
     s \<leftarrow> walk_all (wake_blocked_cb resource) ((), k); Some (snd s) }"

section \<open>Blocking\<close>

datatype block_outcome = OutReady | OutBlocked | OutAlreadyPast | OutNoCurrentTask

definition mark_blocked_locked :: "u32 \<Rightarrow> u64 \<Rightarrow> kernel \<Rightarrow> (block_outcome \<times> kernel) option" where
  "mark_blocked_locked resource deadline_tick k =
     (let me = k_current k in
      if me = null_ptr
      then Some (OutNoCurrentTask, k\<lparr>blocks_without_current := blocks_without_current k + 1\<rparr>)
      else if deadline_tick \<noteq> 0 \<and> ticks k \<ge> deadline_tick then Some (OutAlreadyPast, k)
      else do {
        k \<leftarrow> upd (\<lambda>t. t\<lparr>blocked_on := resource\<rparr>) me k;
        k \<leftarrow> upd (\<lambda>t. t\<lparr>block_deadline := deadline_tick\<rparr>) me k;
        k \<leftarrow> upd (\<lambda>t. t\<lparr>st := Blocked\<rparr>) me k;
        Some (OutBlocked, request_switch k)
      })"

definition block_until_tick :: "u32 \<Rightarrow> u64 \<Rightarrow> kernel \<Rightarrow> (block_outcome \<times> kernel) option" where
  "block_until_tick resource deadline_tick k = mark_blocked_locked resource deadline_tick k"

text \<open>The condition runs in the same critical section; it may change the variables it captures.\<close>

definition block_until_tick_if ::
  "u32 \<Rightarrow> u64 \<Rightarrow> ('b \<times> kernel \<Rightarrow> (bool \<times> 'b \<times> kernel) option) \<Rightarrow> 'b \<times> kernel
     \<Rightarrow> (block_outcome \<times> 'b \<times> kernel) option" where
  "block_until_tick_if resource deadline_tick ready s = do {
     (b, c, k) \<leftarrow> ready s;
     if b then Some (OutReady, c, k)
     else do {
       (out, k) \<leftarrow> mark_blocked_locked resource deadline_tick k;
       Some (out, c, k)
     }
   }"

definition take_wake_flag_locked :: "kernel \<Rightarrow> (bool \<times> kernel) option" where
  "take_wake_flag_locked k =
     (let me = k_current k in
      if me = null_ptr then Some (False, k)
      else do {
        t \<leftarrow> rd k me;
        k \<leftarrow> upd (\<lambda>t. t\<lparr>flags := flags t AND NOT TCB_FLAG_WOKEN\<rparr>) me k;
        Some (flags t AND TCB_FLAG_WOKEN \<noteq> 0, k)
      })"

definition clear_timer_deadline :: "kernel \<Rightarrow> kernel option" where
  "clear_timer_deadline k =
     (if k_current k = null_ptr then Some k
      else upd (\<lambda>t. t\<lparr>block_deadline := 0\<rparr>) (k_current k) k)"

definition set_timer_deadline :: "u64 \<Rightarrow> kernel \<Rightarrow> kernel option" where
  "set_timer_deadline deadline_tick k =
     (if deadline_tick = 0 then Some k
      else if k_current k = null_ptr then Some k
      else do {
        t \<leftarrow> rd k (k_current k);
        if block_deadline t = 0 \<or> deadline_tick < block_deadline t
        then upd (\<lambda>t. t\<lparr>block_deadline := deadline_tick\<rparr>) (k_current k) k
        else Some k
      })"

definition task_timer_deadline :: "kernel \<Rightarrow> u64 option" where
  "task_timer_deadline k =
     (if k_current k = null_ptr then Some 0
      else do { t \<leftarrow> rd k (k_current k); Some (block_deadline t) })"

definition clear_wake_flag :: "kernel \<Rightarrow> kernel option" where
  "clear_wake_flag k =
     (if k_current k = null_ptr then Some k
      else upd (\<lambda>t. t\<lparr>flags := flags t AND NOT TCB_FLAG_WOKEN\<rparr>) (k_current k) k)"

definition yield_now :: "kernel \<Rightarrow> kernel" where
  "yield_now k = request_switch k"

definition alloc_resource_id :: "kernel \<Rightarrow> u32 \<times> kernel" where
  "alloc_resource_id k = (next_resource_id k, k\<lparr>next_resource_id := next_resource_id k + 1\<rparr>)"

definition block_for_ticks :: "u32 \<Rightarrow> u64 \<Rightarrow> kernel \<Rightarrow> (block_outcome \<times> kernel) option" where
  "block_for_ticks resource n k = mark_blocked_locked resource (ticks k + n) k"

definition deadline_after_ticks :: "u64 \<Rightarrow> kernel \<Rightarrow> u64" where
  "deadline_after_ticks n k = ticks k + n"

definition sleep_ticks :: "u64 \<Rightarrow> kernel \<Rightarrow> kernel option" where
  "sleep_ticks n k = do { (_, k) \<leftarrow> block_for_ticks 0 n k; Some k }"

text \<open>One turn of the loop of \<open>sleep_until_tick\<close>: \<open>True\<close> when the loop is left.  Between two
  turns the task is off the CPU and other steps run.\<close>

definition sleep_until_tick_turn :: "u64 \<Rightarrow> kernel \<Rightarrow> (bool \<times> kernel) option" where
  "sleep_until_tick_turn deadline_tick k =
     (if \<not> ticks k < deadline_tick then Some (True, k)
      else do {
        (out, k) \<leftarrow> block_until_tick 0 deadline_tick k;
        (case out of
           OutBlocked \<Rightarrow> Some (False, k)
         | OutReady \<Rightarrow> Some (False, k)
         | OutAlreadyPast \<Rightarrow> Some (True, k)
         | OutNoCurrentTask \<Rightarrow> Some (True, k))
      })"

end
