(* ===== verification/RkShape.thy ===== *)
theory RkShape
  imports RkSched
begin

text \<open>
  The scheduling tree as an abstract value, and what \<open>walk_tree\<close> visits.

  \<open>ntree\<close> is a rose tree of node addresses; \<open>tree_at h p T\<close> says that the heap holds \<open>T\<close>
  below the parent \<open>p\<close>: kinds, parent pointers, child rings, cursors.  \<open>tree_ok k T\<close> is
  the kernel's invariant.  A walk is described by its events: \<open>Enter a\<close> when node \<open>a\<close> is
  visited and \<open>Leave\<close> when the walk leaves a node; the code's step counter counts exactly
  these events, so a walk visits the nodes entered in the first \<open>walk_limit\<close> events.
\<close>

section \<open>Trees of nodes\<close>

datatype ntree = LeafN ptr | GroupN ptr "ntree list"

fun addr :: "ntree \<Rightarrow> ptr" where
  "addr (LeafN a) = a"
| "addr (GroupN a ts) = a"

fun addrs :: "ntree \<Rightarrow> ptr list" where
  "addrs (LeafN a) = [a]"
| "addrs (GroupN a ts) = a # concat (map addrs ts)"

fun kids :: "ntree \<Rightarrow> ntree list" where
  "kids (LeafN a) = []"
| "kids (GroupN a ts) = ts"

abbreviation kid_addrs :: "ntree list \<Rightarrow> ptr list" where
  "kid_addrs ts \<equiv> concat (map addrs ts)"

lemma addr_in_addrs [simp]: "addr T \<in> set (addrs T)"
  by (cases T) auto

lemma addrs_Cons: "\<exists>as. addrs T = addr T # as"
  by (cases T) auto

lemma distinct_map_addr: "distinct (kid_addrs ts) \<Longrightarrow> distinct (map addr ts)"
proof (induction ts)
  case (Cons c ts)
  have "addr c \<notin> addr ` set ts"
  proof
    assume "addr c \<in> addr ` set ts"
    then obtain d where d: "d \<in> set ts" "addr c = addr d" by auto
    then have "addr c \<in> set (kid_addrs ts)" by (auto intro!: bexI [of _ d])
    moreover have "addr c \<in> set (addrs c)" by simp
    moreover have "set (addrs c) \<inter> set (kid_addrs ts) = {}"
      using Cons.prems by (simp del: set_concat)
    ultimately show False by blast
  qed
  with Cons show ?case by auto
qed simp

section \<open>The heap holds a tree\<close>

text \<open>The fields a walk reads.\<close>

definition shape :: "tcb \<Rightarrow> node_kind \<times> ptr \<times> ptr \<times> ptr \<times> ptr \<times> ptr" where
  "shape t = (kind t, parent t, children_head t, current_child t, nxt t, prv t)"

definition same_shape :: "tcb_heap \<Rightarrow> tcb_heap \<Rightarrow> bool" where
  "same_shape h h' = (\<forall>a. map_option shape (rdh h' a) = map_option shape (rdh h a))"

definition ring_at :: "tcb_heap \<Rightarrow> tcb \<Rightarrow> ptr list \<Rightarrow> bool" where
  "ring_at h t xs =
     (if xs = [] then children_head t = null_ptr else children_head t = hd xs \<and> ring h xs)"

fun tree_at :: "tcb_heap \<Rightarrow> ptr \<Rightarrow> ntree \<Rightarrow> bool" where
  "tree_at h p (LeafN a) =
     (\<exists>t. rdh h a = Some t \<and> kind t = Leaf \<and> parent t = p \<and>
          children_head t = null_ptr \<and> current_child t = null_ptr)"
| "tree_at h p (GroupN a ts) =
     ((\<exists>t. rdh h a = Some t \<and> kind t = Group \<and> parent t = p \<and> ring_at h t (map addr ts) \<and>
           (current_child t = null_ptr \<or> current_child t \<in> addr ` set ts)) \<and>
      (\<forall>c\<in>set ts. tree_at h a c))"

text \<open>\<open>nxt\<close> is null outside the tree: this is what \<open>is_linked\<close> tests.\<close>

definition only_linked :: "tcb_heap \<Rightarrow> ntree \<Rightarrow> bool" where
  "only_linked h T = (\<forall>a t. rdh h a = Some t \<longrightarrow> a \<notin> set (addrs T) \<longrightarrow> nxt t = null_ptr)"

definition tree_ok :: "kernel \<Rightarrow> ntree \<Rightarrow> bool" where
  "tree_ok k T =
     (tree_at (heap k) null_ptr T \<and> addr T = root k \<and> (\<exists>ts. T = GroupN (root k) ts) \<and>
      distinct (addrs T) \<and> length (addrs T) \<le> unat (nodes k) \<and> unat (nodes k) < 2 ^ 31 \<and>
      only_linked (heap k) T)"

lemma same_shape_refl [simp]: "same_shape h h"
  by (simp add: same_shape_def)

lemma same_shape_trans: "same_shape h h' \<Longrightarrow> same_shape h' h'' \<Longrightarrow> same_shape h h''"
  by (simp add: same_shape_def)

lemma same_shapeD: "same_shape h h' \<Longrightarrow> rdh h a = Some t \<Longrightarrow> \<exists>t'. rdh h' a = Some t' \<and> shape t' = shape t"
  unfolding same_shape_def by (drule spec [of _ a]) auto

lemma same_shape_links: "same_shape h h' \<Longrightarrow> same_links h h' a"
  unfolding same_links_def by (auto dest!: same_shapeD simp: shape_def)

lemma same_shape_upd:
  "rdh h a = Some t \<Longrightarrow> shape t' = shape t \<Longrightarrow> same_shape h (h(a \<mapsto> t'))"
  using rdh_SomeD [of h a t] by (auto simp: same_shape_def rdh_upd)

lemma shape_upd [simp]:
  "shape (t\<lparr>st := x1\<rparr>) = shape t" "shape (t\<lparr>flags := x2\<rparr>) = shape t"
  "shape (t\<lparr>blocked_on := x3\<rparr>) = shape t" "shape (t\<lparr>block_deadline := x4\<rparr>) = shape t"
  "shape (t\<lparr>remaining_cycles := x5\<rparr>) = shape t" "shape (t\<lparr>tswitches := x6\<rparr>) = shape t"
  "shape (t\<lparr>slices_run := x7\<rparr>) = shape t" "shape (t\<lparr>held_count := x8\<rparr>) = shape t"
  "shape (t\<lparr>held_locks := x9\<rparr>) = shape t" "shape (make_ready t) = shape t"
  by (simp_all add: shape_def make_ready_def)

lemma ring_at_shape:
  "same_shape h h' \<Longrightarrow> ring_at h t xs \<Longrightarrow> shape t' = shape t \<Longrightarrow> ring_at h' t' xs"
  by (auto simp: ring_at_def shape_def intro: ring_cong [of h] same_shape_links split: if_splits)

lemma tree_at_shape: "same_shape h h' \<Longrightarrow> tree_at h p T \<Longrightarrow> tree_at h' p T"
proof (induction T arbitrary: p)
  case (LeafN a)
  then show ?case by (auto dest!: same_shapeD simp: shape_def)
next
  case (GroupN a ts)
  from GroupN.prems(2) obtain t where t: "rdh h a = Some t" "kind t = Group" "parent t = p"
      "ring_at h t (map addr ts)" "current_child t = null_ptr \<or> current_child t \<in> addr ` set ts"
    by auto
  from same_shapeD [OF GroupN.prems(1) t(1)] obtain t'
    where t': "rdh h' a = Some t'" "shape t' = shape t" by blast
  moreover have "ring_at h' t' (map addr ts)"
    using ring_at_shape [OF GroupN.prems(1) t(4) t'(2)] .
  ultimately show ?case
    using t GroupN by (auto simp: shape_def)
qed

lemma same_shapeD': "same_shape h h' \<Longrightarrow> rdh h' a = Some t \<Longrightarrow> \<exists>t'. rdh h a = Some t' \<and> shape t' = shape t"
  unfolding same_shape_def by (drule spec [of _ a], cases "rdh h a") auto

lemma only_linked_shape: "same_shape h h' \<Longrightarrow> only_linked h T \<Longrightarrow> only_linked h' T"
  unfolding only_linked_def by (auto dest!: same_shapeD' simp: shape_def)

lemma tree_ok_shape:
  "tree_ok k T \<Longrightarrow> same_shape (heap k) (heap k') \<Longrightarrow> root k' = root k \<Longrightarrow> nodes k' = nodes k
     \<Longrightarrow> tree_ok k' T"
  unfolding tree_ok_def by (auto intro: tree_at_shape only_linked_shape)

lemma tree_at_rd: "tree_at h p T \<Longrightarrow> \<exists>t. rdh h (addr T) = Some t \<and> parent t = p"
  by (cases T) auto

lemma tree_at_alloc: "tree_at h p T \<Longrightarrow> a \<in> set (addrs T) \<Longrightarrow> \<exists>t. rdh h a = Some t"
  by (induction T arbitrary: p) auto

lemma tree_at_frame:
  "tree_at h p T \<Longrightarrow> \<forall>a\<in>set (addrs T). rdh h' a = rdh h a \<Longrightarrow> tree_at h' p T"
proof (induction T arbitrary: p)
  case (LeafN a)
  then show ?case by simp
next
  case (GroupN a ts)
  from GroupN.prems obtain t where t: "rdh h a = Some t" "kind t = Group" "parent t = p"
      "ring_at h t (map addr ts)" "current_child t = null_ptr \<or> current_child t \<in> addr ` set ts"
    by auto
  have "\<forall>x\<in>addr ` set ts. rdh h' x = rdh h x"
    using GroupN.prems(2) by auto
  then have "ring_at h' t (map addr ts)"
    using t(4) ring_cong [of h "map addr ts" h'] same_linksI by (auto simp: ring_at_def)
  moreover have "\<forall>c\<in>set ts. tree_at h' a c"
    using GroupN by auto
  ultimately show ?case
    using t GroupN.prems(2) by auto
qed

section \<open>Events of a walk\<close>

datatype event = Enter ptr | Leave

fun entered :: "event list \<Rightarrow> ptr list" where
  "entered [] = []"
| "entered (Enter a # es) = a # entered es"
| "entered (Leave # es) = entered es"

fun events :: "ntree \<Rightarrow> event list" where
  "events (LeafN a) = [Enter a, Leave]"
| "events (GroupN a ts) = Enter a # concat (map events ts) @ [Leave]"

fun visit :: "(ptr \<Rightarrow> 's \<Rightarrow> 's option) \<Rightarrow> ptr list \<Rightarrow> 's \<Rightarrow> 's option" where
  "visit f [] s = Some s"
| "visit f (p # ps) s = do { s \<leftarrow> f p s; visit f ps s }"

lemma entered_append: "entered (es @ fs) = entered es @ entered fs"
  by (induction es rule: entered.induct) auto

lemma entered_events: "entered (events T) = addrs T"
  and entered_events_list: "entered (concat (map events ts)) = kid_addrs ts"
proof -
  show *: "entered (events T) = addrs T" for T
  proof (induction T)
    case (GroupN a ts)
    then have "entered (concat (map events ts)) = kid_addrs ts"
      by (induction ts) (auto simp: entered_append)
    then show ?case by (simp add: entered_append)
  qed simp
  show "entered (concat (map events ts)) = kid_addrs ts"
    by (induction ts) (auto simp: entered_append *)
qed

lemma length_events: "length (events T) = 2 * length (addrs T)"
  and length_events_list: "length (concat (map events ts)) = 2 * length (kid_addrs ts)"
proof -
  show *: "length (events T) = 2 * length (addrs T)" for T
  proof (induction T)
    case (GroupN a ts)
    then have "length (concat (map events ts)) = 2 * length (kid_addrs ts)"
      by (induction ts) auto
    then show ?case by simp
  qed simp
  show "length (concat (map events ts)) = 2 * length (kid_addrs ts)"
    by (induction ts) (auto simp: *)
qed

lemma entered_take: "\<exists>n. entered (take i es) = take n (entered es)"
proof (induction es arbitrary: i rule: entered.induct)
  case (2 a es)
  show ?case
  proof (cases i)
    case 0
    then show ?thesis by (intro exI [of _ 0]) simp
  next
    case (Suc j)
    from "2.IH" [of j] obtain n where "entered (take j es) = take n (entered es)" by blast
    with Suc show ?thesis by (intro exI [of _ "Suc n"]) simp
  qed
next
  case (3 es)
  show ?case
  proof (cases i)
    case 0
    then show ?thesis by (intro exI [of _ 0]) simp
  next
    case (Suc j)
    with "3.IH" [of j] show ?thesis by simp
  qed
qed simp

lemma visit_append:
  "visit f (ps @ qs) s = do { s \<leftarrow> visit f ps s; visit f qs s }"
  by (induction ps arbitrary: s) (auto split: bind_splits)

section \<open>Where a walk is\<close>

text \<open>
  A context lists, from the node upwards, each enclosing group with the siblings still to
  be visited in its ring; the last group is the owner of the ring the walk started in.
\<close>

fun sibs :: "tcb_heap \<Rightarrow> ptr \<Rightarrow> ptr \<Rightarrow> ptr list \<Rightarrow> bool" where
  "sibs h g hp [] = True"
| "sibs h g hp [a] = (\<exists>t. rdh h a = Some t \<and> parent t = g \<and> nxt t = hp)"
| "sibs h g hp (a # b # bs) =
     ((\<exists>t. rdh h a = Some t \<and> parent t = g \<and> nxt t = b \<and> b \<noteq> 0 \<and> b \<noteq> hp) \<and> sibs h g hp (b # bs))"

definition sib_ok :: "tcb_heap \<Rightarrow> ptr \<Rightarrow> ptr \<Rightarrow> ptr \<Rightarrow> ntree list \<Rightarrow> bool" where
  "sib_ok h owner g a rs =
     (\<exists>gt. rdh h g = Some gt \<and> sibs h g (children_head gt) (a # map addr rs) \<and>
       rdh h (children_head gt) \<noteq> None \<and>
       (\<forall>r\<in>set rs. tree_at h g r \<and> owner \<notin> set (addrs r)))"

fun ctx_ok :: "tcb_heap \<Rightarrow> ptr \<Rightarrow> ptr \<Rightarrow> (ptr \<times> ntree list) list \<Rightarrow> bool" where
  "ctx_ok h owner a [] = False"
| "ctx_ok h owner a [(g, rs)] = (g = owner \<and> sib_ok h owner g a rs)"
| "ctx_ok h owner a ((g, rs) # c # cs) =
     (g \<noteq> owner \<and> sib_ok h owner g a rs \<and> ctx_ok h owner g (c # cs))"

fun ctx_events :: "(ptr \<times> ntree list) list \<Rightarrow> event list" where
  "ctx_events [] = []"
| "ctx_events [(g, rs)] = concat (map events rs)"
| "ctx_events ((g, rs) # c # cs) = concat (map events rs) @ Leave # ctx_events (c # cs)"

fun side_step :: "nat \<Rightarrow> nat \<Rightarrow> (ptr \<times> ntree list) list \<Rightarrow> (ptr \<times> nat) option" where
  "side_step l s [] = None"
| "side_step l s ((g, rs) # cs) =
     (if s + 1 > l then None
      else case rs of r # _ \<Rightarrow> Some (addr r, s + 1) | [] \<Rightarrow> side_step l (s + 1) cs)"

lemma sibs_shape: "same_shape h h' \<Longrightarrow> sibs h g hp as \<Longrightarrow> sibs h' g hp as"
  by (induction h g hp as rule: sibs.induct) (auto dest!: same_shapeD simp: shape_def)

lemma sib_ok_shape:
  assumes S: "same_shape h h'" and ok: "sib_ok h owner g a rs"
  shows "sib_ok h' owner g a rs"
proof -
  from ok obtain gt u where g: "rdh h g = Some gt" and u: "rdh h (children_head gt) = Some u"
    and s: "sibs h g (children_head gt) (a # map addr rs)"
    and t: "\<forall>r\<in>set rs. tree_at h g r \<and> owner \<notin> set (addrs r)"
    by (auto simp: sib_ok_def)
  from same_shapeD [OF S g] obtain gt' where g': "rdh h' g = Some gt'" "children_head gt' = children_head gt"
    by (auto simp: shape_def)
  from same_shapeD [OF S u] obtain u' where u': "rdh h' (children_head gt) = Some u'"
    by blast
  have "sibs h' g (children_head gt) (a # map addr rs)"
    using sibs_shape [OF S s] .
  moreover have "\<forall>r\<in>set rs. tree_at h' g r \<and> owner \<notin> set (addrs r)"
    using t tree_at_shape [OF S] by blast
  ultimately show ?thesis
    using g' u' by (simp add: sib_ok_def)
qed

lemma ctx_ok_shape: "same_shape h h' \<Longrightarrow> ctx_ok h owner a cs \<Longrightarrow> ctx_ok h' owner a cs"
  by (induction h owner a cs rule: ctx_ok.induct) (auto intro: sib_ok_shape)

lemma chain_sibs:
  "chain h a (bs @ [x]) \<Longrightarrow> x \<notin> set bs \<Longrightarrow> \<forall>c\<in>set (a # bs). \<exists>t. rdh h c = Some t \<and> parent t = g
     \<Longrightarrow> sibs h g x (a # bs)"
proof (induction bs arbitrary: a)
  case Nil
  then show ?case by (auto simp: link_def)
next
  case (Cons b bs)
  then have "sibs h g x (b # bs)" by auto
  with Cons.prems show ?case by (auto simp: link_def dest: rdh_SomeD)
qed

lemma group_sibs:
  assumes "rdh h g = Some t" and "ring_at h t (map addr (c # cs))"
    and "\<forall>d\<in>set (c # cs). tree_at h g d" and "\<forall>d\<in>set (c # cs). owner \<notin> set (addrs d)"
  shows "children_head t = addr c" and "sib_ok h owner g (addr c) cs"
proof -
  show h: "children_head t = addr c"
    using assms(2) by (simp add: ring_at_def)
  have "ring h (addr c # map addr cs)"
    using assms(2) by (simp add: ring_at_def)
  then have "sibs h g (addr c) (addr c # map addr cs)"
    using assms(3) tree_at_rd by (intro chain_sibs) auto
  moreover obtain y where "rdh h (addr c) = Some y"
    using assms(3) tree_at_rd [of h g c] by auto
  ultimately show "sib_ok h owner g (addr c) cs"
    using assms h by (auto simp: sib_ok_def)
qed

lemma sib_ok_next:
  assumes "sib_ok (heap k) owner g a rs"
  obtains t gt l where "rd k a = Some t" "parent t = g" "g \<noteq> 0" "rd k g = Some gt"
    "is_linked k (nxt t) = Some l"
    "(l \<and> nxt t \<noteq> children_head gt) = (rs \<noteq> [])" "rs \<noteq> [] \<Longrightarrow> nxt t = addr (hd rs)"
proof -
  from assms obtain gt u where g: "rd k g = Some gt" and u: "rd k (children_head gt) = Some u"
    and s: "sibs (heap k) g (children_head gt) (a # map addr rs)"
    by (auto simp: sib_ok_def rd_def)
  have g0: "g \<noteq> 0" using g by auto
  have u0: "children_head gt \<noteq> 0" using u by auto
  show thesis
  proof (cases rs)
    case Nil
    with s obtain t where "rd k a = Some t" "parent t = g" "nxt t = children_head gt"
      by (auto simp: rd_def)
    with Nil g g0 u u0 show thesis
      by (intro that [of t gt "nxt u \<noteq> 0"]) (auto simp: is_linked_def)
  next
    case (Cons r rs')
    with s obtain t where t: "rd k a = Some t" "parent t = g" "nxt t = addr r" "addr r \<noteq> 0"
        "addr r \<noteq> children_head gt" and s': "sibs (heap k) g (children_head gt) (addr r # map addr rs')"
      by (auto simp: rd_def)
    from s' u0 obtain v where v: "rd k (addr r) = Some v" "nxt v \<noteq> 0"
      by (cases rs') (auto simp: rd_def)
    from t v Cons g g0 show thesis
      by (intro that [of t gt True]) (auto simp: is_linked_def)
  qed
qed

lemma walk_side_spec:
  assumes "ctx_ok (heap k) owner a cs" and "unat limit < 2 ^ 32 - 1" and "unat steps \<le> unat limit"
  shows "walk_side k limit owner steps a
       = Some (map_option (\<lambda>(p, s). (p, of_nat s)) (side_step (unat limit) (unat steps) cs))"
  using assms
proof (induction cs arbitrary: a steps)
  case Nil
  then show ?case by simp
next
  case (Cons gc cs)
  obtain g rs where gc: "gc = (g, rs)" by (cases gc)
  have sok: "sib_ok (heap k) owner g a rs" and own: "cs = [] \<longleftrightarrow> g = owner"
    using Cons.prems(1) gc by (cases cs; auto)+
  from sok obtain t gt l where t: "rd k a = Some t" "parent t = g" "g \<noteq> 0" "rd k g = Some gt"
    "is_linked k (nxt t) = Some l"
    "(l \<and> nxt t \<noteq> children_head gt) = (rs \<noteq> [])" "rs \<noteq> [] \<Longrightarrow> nxt t = addr (hd rs)"
    by (rule sib_ok_next) blast
  have s1: "unat (steps + 1) = unat steps + 1"
    using Cons.prems(2,3) by (simp add: unat_Suc_small)
  have lim: "(steps + 1 > limit) = (unat steps + 1 > unat limit)"
    using s1 by (simp add: word_less_nat_alt)
  show ?case
  proof (cases "unat steps + 1 > unat limit")
    case True
    then show ?thesis
      using lim gc by (subst walk_side.simps) simp
  next
    case False
    show ?thesis
    proof (cases rs)
      case (Cons r rs')
      have "of_nat (Suc (unat steps)) = steps + (1 :: u32)" by simp
      then show ?thesis
        using False lim t Cons gc by (subst walk_side.simps) simp
    next
      case Nil
      have nl: "\<not> (l \<and> nxt t \<noteq> children_head gt)"
        using t(6) Nil by simp
      show ?thesis
      proof (cases "cs = []")
        case True
        then show ?thesis
          using False lim t(1-5) nl Nil gc own by (subst walk_side.simps) simp
      next
        case False2: False
        have "ctx_ok (heap k) owner g cs"
          using Cons.prems(1) gc False2 by (cases cs) auto
        then have "walk_side k limit owner (steps + 1) g
            = Some (map_option (\<lambda>(p, s). (p, of_nat s)) (side_step (unat limit) (unat (steps + 1)) cs))"
          using Cons.IH [of g "steps + 1"] Cons.prems(2) False s1 by simp
        then show ?thesis
          using False lim t(1-5) nl Nil gc own False2 s1 by (subst walk_side.simps) auto
      qed
    qed
  qed
qed

lemma side_step_None:
  "side_step l s cs = None \<Longrightarrow> cs \<noteq> [] \<Longrightarrow> entered (take (l - s) (Leave # ctx_events cs)) = []"
proof (induction l s cs rule: side_step.induct)
  case (2 l s g rs cs)
  show ?case
  proof (cases "s + 1 > l")
    case True
    then show ?thesis by simp
  next
    case False
    with 2 have rs: "rs = []" and n: "side_step l (s + 1) cs = None"
      by (auto split: list.splits)
    from False have "l - s = Suc (l - (s + 1))" by simp
    with 2 False rs n show ?thesis
      by (cases cs) auto
  qed
qed simp

lemma side_step_Some:
  "side_step l s cs = Some (p, s') \<Longrightarrow> ctx_ok h owner a cs \<Longrightarrow>
   \<exists>r g cs'. p = addr r \<and> s < s' \<and> s' \<le> l \<and> tree_at h g r \<and> owner \<notin> set (addrs r)
     \<and> ctx_ok h owner (addr r) cs' \<and> g = fst (hd cs')
     \<and> entered (take (l - s) (Leave # ctx_events cs)) = entered (take (l - s') (events r @ ctx_events cs'))
     \<and> length (events r @ ctx_events cs') \<le> length (ctx_events cs)"
proof (induction l s cs arbitrary: a rule: side_step.induct)
  case (2 l s g rs cs)
  then have le: "s + 1 \<le> l" by (auto split: if_splits)
  then have ls: "l - s = Suc (l - (s + 1))" by simp
  show ?case
  proof (cases rs)
    case (Cons r rs')
    with 2 le have p: "p = addr r" "s' = s + 1" by auto
    have sib: "sib_ok h owner g a rs" using "2.prems"(2) by (cases cs) auto
    have "ctx_ok h owner (addr r) ((g, rs') # cs)"
      using "2.prems"(2) Cons by (cases cs) (auto simp: sib_ok_def)
    moreover have "ctx_events ((g, rs) # cs) = events r @ ctx_events ((g, rs') # cs)"
      using Cons by (cases cs) auto
    ultimately show ?thesis
      using p le ls sib Cons
      by (intro exI [of _ r] exI [of _ g] exI [of _ "(g, rs') # cs"]) (auto simp: sib_ok_def)
  next
    case Nil
    with 2 le have n: "side_step l (s + 1) cs = Some (p, s')" by auto
    then obtain c cs' where cs: "cs = c # cs'" by (cases cs) auto
    then have "ctx_ok h owner g cs" using "2.prems"(2) by simp
    from "2.IH" [OF _ Nil n this] le obtain r g' cs''
      where "p = addr r \<and> s + 1 < s' \<and> s' \<le> l \<and> tree_at h g' r \<and> owner \<notin> set (addrs r)
        \<and> ctx_ok h owner (addr r) cs'' \<and> g' = fst (hd cs'')
        \<and> entered (take (l - (s + 1)) (Leave # ctx_events cs)) = entered (take (l - s') (events r @ ctx_events cs''))
        \<and> length (events r @ ctx_events cs'') \<le> length (ctx_events cs)"
      by auto
    with ls Nil cs show ?thesis
      by (intro exI [of _ r] exI [of _ g'] exI [of _ cs'']) auto
  qed
qed simp

section \<open>What a walk visits\<close>

text \<open>A callback that reads its node and keeps every field a walk depends on.\<close>

definition cb_ok :: "(ptr \<Rightarrow> 'b \<times> kernel \<Rightarrow> ('b \<times> kernel) option) \<Rightarrow> bool" where
  "cb_ok f = (\<forall>p s. rd (snd s) p \<noteq> None \<longrightarrow>
     (\<exists>s'. f p s = Some s' \<and> same_shape (heap (snd s)) (heap (snd s'))))"

lemma cb_okD:
  assumes "cb_ok f" and "rd (snd s) p = Some t"
  obtains s' t' where "f p s = Some s'" "same_shape (heap (snd s)) (heap (snd s'))"
    "rd (snd s') p = Some t'" "shape t' = shape t"
proof -
  from assms obtain s' where s': "f p s = Some s'" "same_shape (heap (snd s)) (heap (snd s'))"
    unfolding cb_ok_def by fastforce
  from same_shapeD [OF s'(2), of p t] assms(2) obtain t'
    where "rd (snd s') p = Some t'" "shape t' = shape t"
    by (auto simp: rd_def)
  with s' show thesis by (rule that)
qed

lemma ring_hd_linked:
  assumes "ring (heap k) (a # as)"
  shows "is_linked k a = Some True"
proof -
  obtain t where t: "rdh (heap k) a = Some t"
    using ring_succ [OF assms] by blast
  have "nxt t \<noteq> 0" using ring_nxt_nonnull [OF assms _ t] by simp
  with t show ?thesis by (auto simp: is_linked_def rd_def)
qed

lemma walk_down:
  assumes T: "tree_at (heap k) g c" and t: "rd k (addr c) = Some t"
  shows "(if kind t = Group then is_linked k (children_head t) else Some False)
       = Some (kids c \<noteq> [])"
    and "kids c \<noteq> [] \<Longrightarrow> children_head t = addr (hd (kids c))"
proof -
  have "kind t \<noteq> Group \<and> kids c = [] \<or>
    kind t = Group \<and> ring_at (heap k) t (map addr (kids c))"
    using T t by (cases c) (auto simp: rd_def)
  moreover have "is_linked k (children_head t) = Some (kids c \<noteq> [])
      \<and> (kids c \<noteq> [] \<longrightarrow> children_head t = addr (hd (kids c)))"
    if "ring_at (heap k) t (map addr (kids c))"
  proof (cases "kids c")
    case Nil
    then show ?thesis using that by (simp add: ring_at_def is_linked_def)
  next
    case (Cons d ds)
    then show ?thesis using that ring_hd_linked [of k "addr d" "map addr ds"] by (simp add: ring_at_def)
  qed
  ultimately show "(if kind t = Group then is_linked k (children_head t) else Some False)
       = Some (kids c \<noteq> [])"
    and "kids c \<noteq> [] \<Longrightarrow> children_head t = addr (hd (kids c))"
    by auto
qed

lemma walk_loop_spec:
  assumes "cb_ok f" and "tree_at (heap (snd s)) g c" and "owner \<notin> set (addrs c)"
    and "ctx_ok (heap (snd s)) owner (addr c) cs"
    and "unat limit < 2 ^ 32 - 1" and "unat steps \<le> unat limit"
  shows "walk_loop f limit owner steps (addr c) s
       = visit f (entered (take (unat limit - unat steps) (events c @ ctx_events cs))) s"
  using assms
proof (induction "length (events c @ ctx_events cs)" arbitrary: c cs g s steps rule: less_induct)
  case less
  note prems = less.prems
  have s1: "unat (steps + 1) = unat steps + 1"
    using prems(5,6) by (simp add: unat_Suc_small)
  have lim: "(steps + 1 > limit) = (unat steps + 1 > unat limit)"
    using s1 by (simp add: word_less_nat_alt)
  show ?case
  proof (cases "unat steps + 1 > unat limit")
    case True
    then show ?thesis using lim by (subst walk_loop.simps) simp
  next
    case False
    then have ls: "unat limit - unat steps = Suc (unat limit - unat (steps + 1))"
      using s1 by simp
    have ne: "cs \<noteq> []" using prems(4) by auto
    from tree_at_rd [OF prems(2)] obtain t0 where "rd (snd s) (addr c) = Some t0"
      by (auto simp: rd_def)
    from cb_okD [OF prems(1) this] obtain s' t
      where s': "f (addr c) s = Some s'" "same_shape (heap (snd s)) (heap (snd s'))"
        "rd (snd s') (addr c) = Some t" by blast
    have T: "tree_at (heap (snd s')) g c" and C: "ctx_ok (heap (snd s')) owner (addr c) cs"
      using tree_at_shape [OF s'(2) prems(2)] ctx_ok_shape [OF s'(2) prems(4)] by auto
    note down = walk_down [OF T s'(3)]
    show ?thesis
    proof (cases "kids c")
      case Nil
      then have ev: "events c = [Enter (addr c), Leave]" by (cases c) auto
      have side: "walk_side (snd s') limit owner (steps + 1) (addr c)
        = Some (map_option (\<lambda>(p, s). (p, of_nat s)) (side_step (unat limit) (unat (steps + 1)) cs))"
        using walk_side_spec [OF C prems(5), of "steps + 1"] False s1 by simp
      show ?thesis
      proof (cases "side_step (unat limit) (unat (steps + 1)) cs")
        case None
        then show ?thesis
          using side_step_None [OF None ne] ls lim False s' down Nil side ev
          by (subst walk_loop.simps) simp
      next
        case (Some x)
        then obtain p n where x: "side_step (unat limit) (unat (steps + 1)) cs = Some (p, n)"
          by (cases x) auto
        from side_step_Some [OF x C] obtain r g' cs' where r: "p = addr r" "n \<le> unat limit"
            "tree_at (heap (snd s')) g' r" "owner \<notin> set (addrs r)"
            "ctx_ok (heap (snd s')) owner (addr r) cs'"
            "entered (take (unat limit - unat (steps + 1)) (Leave # ctx_events cs))
               = entered (take (unat limit - n) (events r @ ctx_events cs'))"
            "length (events r @ ctx_events cs') \<le> length (ctx_events cs)"
          by blast
        have n: "unat (of_nat n :: u32) = n"
          using r(2) prems(5) by (simp add: unat_of_nat)
        have "walk_loop f limit owner (of_nat n) (addr r) s'
          = visit f (entered (take (unat limit - unat (of_nat n :: u32)) (events r @ ctx_events cs'))) s'"
          by (rule less.hyps [OF _ prems(1) r(3-5)]) (use r n prems(5) ev in auto)
        then show ?thesis
          using ls lim False s' down Nil side ev x r n
          by (subst walk_loop.simps) simp
      qed
    next
      case (Cons d ds)
      then obtain a where c: "c = GroupN a (d # ds)" by (cases c) auto
      from T c obtain ta where ta: "rdh (heap (snd s')) a = Some ta" "ring_at (heap (snd s')) ta (map addr (d # ds))"
        and td: "\<forall>e\<in>set (d # ds). tree_at (heap (snd s')) a e" by auto
      have own: "\<forall>e\<in>set (d # ds). owner \<notin> set (addrs e)" and ao: "a \<noteq> owner"
        using prems(3) c by auto
      have "sib_ok (heap (snd s')) owner a (addr d) ds"
        using group_sibs [OF ta td own] by simp
      then have C': "ctx_ok (heap (snd s')) owner (addr d) ((a, ds) # cs)"
        using C ao ne c by (cases cs) auto
      have ev: "events c @ ctx_events cs = Enter a # (events d @ ctx_events ((a, ds) # cs))"
        using c ne by (cases cs) auto
      have "walk_loop f limit owner (steps + 1) (addr d) s'
          = visit f (entered (take (unat limit - unat (steps + 1)) (events d @ ctx_events ((a, ds) # cs)))) s'"
        by (rule less.hyps [OF _ prems(1) _ _ C' prems(5)]) (use td own ev s1 False in auto)
      then show ?thesis
        using ls lim False s' down Cons c ev
        by (subst walk_loop.simps) simp
    qed
  qed
qed

end
