(* ===== verification/RkWalk.thy ===== *)
theory RkWalk
  imports RkShape
begin

text \<open>
  What the tree walks of \<^verbatim>\<open>src/scheduler.rs\<close> do under the kernel's invariant.
  \<open>walk_all\<close> visits, in preorder, the nodes entered in the first \<open>nodes + 2\<close> events of the
  walk (\<open>visited\<close>); every wake-up, expiry and count is then a fold over that list, and its
  effect on the heap is a map over it.
\<close>

definition visited :: "kernel \<Rightarrow> ntree \<Rightarrow> ptr list" where
  "visited k T = entered (take (unat (nodes k) + 2) (concat (map events (kids T))))"

lemma unat_walk_limit: "unat (nodes k) < 2 ^ 31 \<Longrightarrow> unat (walk_limit k) = unat (nodes k) + 2"
  by (simp add: walk_limit_def unat_sat_add)

lemma tree_okD:
  assumes "tree_ok k T"
  obtains t ts where "T = GroupN (root k) ts" "kids T = ts" "rd k (root k) = Some t" "kind t = Group"
    "parent t = 0" "ring_at (heap k) t (map addr ts)" "root k \<noteq> 0"
    "current_child t = 0 \<or> current_child t \<in> addr ` set ts"
    "\<forall>c\<in>set ts. tree_at (heap k) (root k) c" "distinct (kid_addrs ts)" "root k \<notin> set (kid_addrs ts)"
proof -
  from assms obtain ts where T: "T = GroupN (root k) ts" by (auto simp: tree_ok_def)
  with assms obtain t where "rdh (heap k) (root k) = Some t" "kind t = Group" "parent t = 0"
      "ring_at (heap k) t (map addr ts)" "current_child t = 0 \<or> current_child t \<in> addr ` set ts"
    by (auto simp: tree_ok_def)
  with T assms show thesis
    using rdh_SomeD [of "heap k" "root k" t]
    by (intro that [of ts t]) (auto simp: tree_ok_def rd_def)
qed

theorem walk_all_visits:
  assumes "tree_ok (snd s) T" and "cb_ok f"
  shows "walk_all f s = visit f (visited (snd s) T) s"
proof -
  let ?k = "snd s"
  from assms(1) obtain t ts where T: "T = GroupN (root ?k) ts" "kids T = ts"
    and t: "rd ?k (root ?k) = Some t" "kind t = Group"
    and r: "ring_at (heap ?k) t (map addr ts)" and r0: "root ?k \<noteq> 0"
    and ch: "\<forall>c\<in>set ts. tree_at (heap ?k) (root ?k) c" and own: "root ?k \<notin> set (kid_addrs ts)"
    by (rule tree_okD) blast
  have lim: "unat (walk_limit ?k) = unat (nodes ?k) + 2" "unat (nodes ?k) < 2 ^ 31"
    using assms(1) by (auto simp: tree_ok_def unat_walk_limit)
  show ?thesis
  proof (cases ts)
    case Nil
    then show ?thesis
      using t r r0 T by (simp add: walk_all_def walk_tree_def ring_at_def is_linked_def visited_def)
  next
    case (Cons c cs)
    have g: "rdh (heap ?k) (root ?k) = Some t" using t by (simp add: rd_def)
    have own': "\<forall>d\<in>set (c # cs). root ?k \<notin> set (addrs d)" using own Cons by auto
    have c: "children_head t = addr c" and sib: "sib_ok (heap ?k) (root ?k) (root ?k) (addr c) cs"
      using group_sibs [OF g, of c cs "root ?k"] r ch own' Cons by auto
    have l: "is_linked ?k (addr c) = Some True"
      using ring_hd_linked [of ?k "addr c" "map addr cs"] r Cons by (simp add: ring_at_def)
    obtain tc where tc: "rd ?k (addr c) = Some tc" "parent tc = root ?k"
      using tree_at_rd [of "heap ?k" "root ?k" c] ch Cons by (auto simp: rd_def)
    have "walk_loop f (walk_limit ?k) (root ?k) 0 (addr c) s
        = visit f (entered (take (unat (walk_limit ?k) - unat (0 :: u32)) (events c @ ctx_events [(root ?k, cs)]))) s"
      by (rule walk_loop_spec [OF assms(2)]) (use ch Cons own' sib lim in auto)
    then show ?thesis
      using t r0 c l tc lim T Cons by (simp add: walk_all_def walk_tree_def visited_def)
  qed
qed

section \<open>How much is visited\<close>

lemma visited_prefix: "\<exists>n. visited k T = take n (kid_addrs (kids T))"
  using entered_take [of _ "concat (map events (kids T))"]
  by (simp add: visited_def entered_events_list)

lemma visited_subset: "set (visited k T) \<subseteq> set (addrs T)"
proof -
  have "set (kid_addrs (kids T)) \<subseteq> set (addrs T)" by (cases T) auto
  then show ?thesis
    using visited_prefix [of k T] set_take_subset by fastforce
qed

lemma visited_distinct: "tree_ok k T \<Longrightarrow> distinct (visited k T)"
  using visited_prefix [of k T] by (elim tree_okD) auto

text \<open>Few enough nodes below the root: everything is visited.\<close>

lemma visited_all:
  assumes "2 * length (kid_addrs (kids T)) \<le> unat (nodes k) + 2"
  shows "visited k T = kid_addrs (kids T)"
  using assms by (simp add: visited_def length_events_list entered_events_list)

lemma entered_flat:
  "entered (take n (concat (map (\<lambda>a. [Enter a, Leave]) as))) = take ((n + 1) div 2) as"
proof (induction as arbitrary: n)
  case (Cons a as)
  consider "n = 0" | "n = 1" | m where "n = Suc (Suc m)"
    by (cases n rule: nat.exhaust) (auto, metis not0_implies_Suc)
  then show ?case by cases (simp_all add: Cons.IH)
qed simp

text \<open>A root with leaves only: the walk stops after half of the budget.\<close>

lemma visited_flat:
  "visited k (GroupN r (map LeafN as)) = take ((unat (nodes k) + 3) div 2) as"
  using entered_flat [of "unat (nodes k) + 2" as] by (simp add: visited_def comp_def eval_nat_numeral)

section \<open>Callbacks as maps over the visited nodes\<close>

definition map_at :: "(tcb \<Rightarrow> tcb) \<Rightarrow> ptr set \<Rightarrow> tcb_heap \<Rightarrow> tcb_heap" where
  "map_at g A h = (\<lambda>a. if a \<in> A then map_option g (h a) else h a)"

lemma rdh_map_at: "rdh (map_at g A h) p = (if p \<in> A then map_option g (rdh h p) else rdh h p)"
  by (simp add: rdh_def map_at_def)

lemma map_at_insert:
  "rdh h p = Some t \<Longrightarrow> p \<notin> A \<Longrightarrow> map_at g A (h(p \<mapsto> g t)) = map_at g (insert p A) h"
  using rdh_SomeD [of h p t] by (auto simp: map_at_def)

lemma same_shape_map_at: "(\<And>t. shape (g t) = shape t) \<Longrightarrow> same_shape h (map_at g A h)"
  by (simp add: same_shape_def rdh_map_at option.map_comp comp_def)

text \<open>A callback that rewrites its node with \<open>g\<close>.\<close>

definition maps :: "(ptr \<Rightarrow> 'b \<times> kernel \<Rightarrow> ('b \<times> kernel) option) \<Rightarrow> (tcb \<Rightarrow> tcb) \<Rightarrow> bool" where
  "maps f g = ((\<forall>t. shape (g t) = shape t) \<and>
     (\<forall>p b k t. rd k p = Some t \<longrightarrow> f p (b, k) = Some (b, k\<lparr>heap := (heap k)(p \<mapsto> g t)\<rparr>)))"

lemma maps_cb_ok: "maps f g \<Longrightarrow> cb_ok f"
  by (auto simp: maps_def cb_ok_def rd_def intro!: same_shape_upd)

lemma visit_maps:
  assumes "maps f g" and "\<forall>p\<in>set ps. rd k p \<noteq> None" and "distinct ps"
  shows "visit f ps (b, k) = Some (b, k\<lparr>heap := map_at g (set ps) (heap k)\<rparr>)"
  using assms(2,3)
proof (induction ps arbitrary: k)
  case Nil
  then show ?case by (simp add: map_at_def)
next
  case (Cons p ps)
  then obtain t where t: "rd k p = Some t" by auto
  let ?k = "k\<lparr>heap := (heap k)(p \<mapsto> g t)\<rparr>"
  have p0: "p \<noteq> 0" using t by auto
  have "visit f ps (b, ?k) = Some (b, ?k\<lparr>heap := map_at g (set ps) (heap ?k)\<rparr>)"
    by (rule Cons.IH) (use Cons.prems p0 in \<open>auto simp: rd_heap_upd\<close>)
  then show ?case
    using assms(1) t Cons.prems map_at_insert [of "heap k" p t "set ps" g]
    by (simp add: maps_def rd_def)
qed

lemma visited_rd: "tree_ok k T \<Longrightarrow> p \<in> set (visited k T) \<Longrightarrow> rd k p \<noteq> None"
  using visited_subset [of k T] tree_at_alloc [of "heap k" null_ptr T p]
  by (auto simp: tree_ok_def rd_def)

theorem walk_all_maps:
  assumes "tree_ok k T" and "maps f g"
  shows "walk_all f (b, k) = Some (b, k\<lparr>heap := map_at g (set (visited k T)) (heap k)\<rparr>)"
  using assms walk_all_visits [of "(b, k)" T f] maps_cb_ok [of f g]
    visit_maps [of f g "visited k T" k b] visited_rd visited_distinct by simp

lemma tree_ok_map_at:
  "tree_ok k T \<Longrightarrow> (\<And>t. shape (g t) = shape t) \<Longrightarrow> tree_ok (k\<lparr>heap := map_at g A (heap k)\<rparr>) T"
  by (rule tree_ok_shape [of k]) (auto intro: same_shape_map_at)

section \<open>Expiry and wake-ups\<close>

definition due :: "u64 \<Rightarrow> tcb \<Rightarrow> bool" where
  "due now t = (st t = Blocked \<and> block_deadline t \<noteq> 0 \<and> now \<ge> block_deadline t)"

definition waits_on :: "u32 \<Rightarrow> tcb \<Rightarrow> bool" where
  "waits_on r t = (st t = Blocked \<and> blocked_on t = r)"

definition set_woken :: "tcb \<Rightarrow> tcb" where
  "set_woken t = t\<lparr>flags := flags t OR TCB_FLAG_WOKEN\<rparr>"

lemma shape_set_woken [simp]: "shape (set_woken t) = shape t"
  by (simp add: set_woken_def)

lemma upd_trivial: "rd k p = Some t \<Longrightarrow> k\<lparr>heap := (heap k)(p \<mapsto> t)\<rparr> = k"
  using rdh_SomeD [of "heap k" p t] by (simp add: rd_def fun_upd_idem)

lemma maps_expire: "maps (expire_cb now) (\<lambda>t. if due now t then make_ready t else t)"
  by (auto simp: maps_def expire_cb_def due_def upd_Some upd_trivial)

lemma maps_wake_blocked:
  "maps (wake_blocked_cb r) (\<lambda>t. if waits_on r t then make_ready t else t)"
  by (auto simp: maps_def wake_blocked_cb_def waits_on_def upd_Some upd_trivial)

lemma maps_wake_task:
  "maps (wake_task_cb i) (\<lambda>t. if tid t = i then
     (if st t = Blocked then make_ready (set_woken t) else set_woken t) else t)"
proof -
  have "upd make_ready p (k\<lparr>heap := (heap k)(p \<mapsto> u)\<rparr>) = Some (k\<lparr>heap := (heap k)(p \<mapsto> make_ready u)\<rparr>)"
    if "rd k p = Some t" for k p t u
  proof -
    have "p \<noteq> 0" using that by auto
    then show ?thesis by (simp add: upd_Some rd_heap_upd)
  qed
  then show ?thesis
    by (auto simp: maps_def wake_task_cb_def upd_Some upd_trivial set_woken_def)
qed

text \<open>Each wake-up is a map over the visited nodes.\<close>

theorem wake_expired_effect:
  assumes "tree_ok k T"
  shows "wake_expired k = Some (k\<lparr>heap :=
           map_at (\<lambda>t. if due (ticks k) t then make_ready t else t) (set (visited k T)) (heap k)\<rparr>)"
  using walk_all_maps [OF assms maps_expire] by (simp add: wake_expired_def)

theorem wake_blocked_on_effect:
  assumes "tree_ok k T"
  shows "wake_blocked_on r k = Some (k\<lparr>heap :=
           map_at (\<lambda>t. if waits_on r t then make_ready t else t) (set (visited k T)) (heap k)\<rparr>)"
  using walk_all_maps [OF assms maps_wake_blocked] by (simp add: wake_blocked_on_def)

theorem wake_task_effect:
  assumes "tree_ok k T" and "i \<noteq> 0"
  shows "wake_task i k = Some (k\<lparr>heap :=
           map_at (\<lambda>t. if tid t = i then (if st t = Blocked then make_ready (set_woken t)
                       else set_woken t) else t) (set (visited k T)) (heap k)\<rparr>)"
  using walk_all_maps [OF assms(1) maps_wake_task] assms(2) by (simp add: wake_task_def)

definition h_waits :: "kernel \<Rightarrow> u32 \<Rightarrow> ptr \<Rightarrow> bool" where
  "h_waits k r p = (case rd k p of None \<Rightarrow> False | Some t \<Rightarrow> waits_on r t)"

lemma cb_ok_wake_first: "cb_ok (wake_first_cb r)"
  unfolding cb_ok_def
proof (intro allI impI)
  fix p and s :: "bool \<times> kernel"
  assume "rd (snd s) p \<noteq> None"
  then obtain t where t: "rd (snd s) p = Some t" by auto
  then have "p \<noteq> 0" by auto
  with t show "\<exists>s'. wake_first_cb r p s = Some s' \<and> same_shape (heap (snd s)) (heap (snd s'))"
    by (cases s) (auto simp: wake_first_cb_def upd_Some rd_heap_upd rd_def intro!: same_shape_upd)
qed

lemma visit_wake_first_done:
  "\<forall>p\<in>set ps. rd k p \<noteq> None \<Longrightarrow> visit (wake_first_cb r) ps (True, k) = Some (True, k)"
  by (induction ps) (auto simp: wake_first_cb_def)

lemma visit_wake_first:
  assumes "\<forall>p\<in>set ps. rd k p \<noteq> None"
  shows "visit (wake_first_cb r) ps (False, k) = Some (case List.find (h_waits k r) ps of
           None \<Rightarrow> (False, k)
         | Some p \<Rightarrow> (True, k\<lparr>heap := map_at (make_ready \<circ> set_woken) {p} (heap k)\<rparr>))"
  using assms
proof (induction ps)
  case (Cons p ps)
  then obtain t where t: "rd k p = Some t" by auto
  then have p0: "p \<noteq> 0" and hp: "heap k p = Some t"
    by (auto simp: rd_def dest: rdh_SomeD)
  show ?case
  proof (cases "waits_on r t")
    case True
    let ?t = "make_ready (set_woken t)"
    have "wake_first_cb r p (False, k) = Some (True, k\<lparr>heap := (heap k)(p \<mapsto> ?t)\<rparr>)"
      using t p0 True by (simp add: wake_first_cb_def waits_on_def upd_Some rd_heap_upd set_woken_def)
    moreover have "(heap k)(p \<mapsto> ?t) = map_at (make_ready \<circ> set_woken) {p} (heap k)"
      using hp by (auto simp: map_at_def)
    moreover have "visit (wake_first_cb r) ps (True, k\<lparr>heap := (heap k)(p \<mapsto> ?t)\<rparr>)
        = Some (True, k\<lparr>heap := (heap k)(p \<mapsto> ?t)\<rparr>)"
      by (rule visit_wake_first_done) (use Cons.prems p0 in \<open>auto simp: rd_heap_upd\<close>)
    ultimately show ?thesis
      using t True by (simp add: h_waits_def)
  next
    case False
    then show ?thesis
      using t Cons by (auto simp: h_waits_def wake_first_cb_def waits_on_def)
  qed
qed simp

theorem wake_first_effect:
  assumes "tree_ok k T"
  shows "wake_first_blocked_on r k = Some (case List.find (h_waits k r) (visited k T) of
           None \<Rightarrow> (False, k)
         | Some p \<Rightarrow> (True, k\<lparr>heap := map_at (make_ready \<circ> set_woken) {p} (heap k)\<rparr>))"
  unfolding wake_first_blocked_on_def
  using walk_all_visits [of "(False, k)" T "wake_first_cb r"] assms cb_ok_wake_first
    visit_wake_first [of "visited k T" k r] visited_rd by simp

lemma visit_blocked_count:
  assumes "\<forall>p\<in>set ps. rd k p \<noteq> None"
  shows "visit (blocked_count_cb r) ps (n, k)
       = Some (n + of_nat (length (filter (h_waits k r) ps)), k)"
  using assms
proof (induction ps arbitrary: n)
  case (Cons p ps)
  then show ?case
    by (auto simp: blocked_count_cb_def h_waits_def waits_on_def add.assoc)
qed simp

theorem blocked_on_count_effect:
  assumes "tree_ok k T"
  shows "blocked_on_count r k = Some (of_nat (length (filter (h_waits k r) (visited k T))))"
proof -
  have "cb_ok (blocked_count_cb r)"
    by (auto simp: cb_ok_def blocked_count_cb_def)
  then show ?thesis
    unfolding blocked_on_count_def
    using walk_all_visits [of "(0, k)" T "blocked_count_cb r"] assms
      visit_blocked_count [of "visited k T" k r 0] visited_rd by simp
qed

end
