(* ===== verification/RkPick.thy ===== *)
theory RkPick
  imports RkWalk
begin

text \<open>
  The scheduling decision of \<^verbatim>\<open>src/scheduler.rs\<close>, specified on the abstract tree:
  the order in which a group offers the turn to its children, the leaf a descent reaches
  (\<open>first_leaf\<close>), the leaf found by climbing from a group to the root (\<open>climb\<close>).  The lemmas
  show that \<open>resume_child\<close>, \<open>descend_and_arm\<close>, \<open>advance_from\<close> compute exactly these, keep
  the tree, touch nothing but cursors and quanta, and return within their step bounds.
\<close>

section \<open>Subtrees\<close>

fun subs :: "ntree \<Rightarrow> ntree list" where
  "subs (LeafN a) = [LeafN a]"
| "subs (GroupN a ts) = GroupN a ts # concat (map subs ts)"

lemma subs_self [simp]: "T \<in> set (subs T)"
  by (cases T) auto

lemma subs_trans: "S \<in> set (subs T) \<Longrightarrow> D \<in> set (subs S) \<Longrightarrow> D \<in> set (subs T)"
  by (induction T) auto

lemma subs_kid: "GroupN a ts \<in> set (subs T) \<Longrightarrow> c \<in> set ts \<Longrightarrow> c \<in> set (subs T)"
  by (rule subs_trans [of "GroupN a ts"]) (auto intro: bexI [of _ c])

lemma addrs_subs: "addrs T = map addr (subs T)"
proof (induction T)
  case (GroupN a ts)
  then have "concat (map addrs ts) = map addr (concat (map subs ts))"
    by (induction ts) auto
  then show ?case by simp
qed simp

lemma subs_addr: "S \<in> set (subs T) \<Longrightarrow> addr S \<in> set (addrs T)"
  by (simp add: addrs_subs)

lemma subs_addrs: "S \<in> set (subs T) \<Longrightarrow> set (addrs S) \<subseteq> set (addrs T)"
  by (auto simp: addrs_subs intro: subs_trans)

lemma subs_unique:
  "distinct (addrs T) \<Longrightarrow> S \<in> set (subs T) \<Longrightarrow> D \<in> set (subs T) \<Longrightarrow> addr S = addr D \<Longrightarrow> S = D"
  by (auto simp: addrs_subs distinct_map dest: inj_onD)

lemma subs_distinct: "distinct (addrs T) \<Longrightarrow> S \<in> set (subs T) \<Longrightarrow> distinct (addrs S)"
proof (induction T)
  case (GroupN a ts)
  then show ?case
    by (auto simp: distinct_concat_iff)
qed simp

lemma tree_at_sub:
  "tree_at h p T \<Longrightarrow> S \<in> set (subs T) \<Longrightarrow> \<exists>q. tree_at h q S"
  by (induction T arbitrary: p) auto

lemma tree_at_kid: "tree_at h p (GroupN a ts) \<Longrightarrow> c \<in> set ts \<Longrightarrow> tree_at h a c"
  by simp

text \<open>Moving a cursor inside its own group.\<close>

lemma tree_at_cursor:
  assumes "tree_at h p T" and "rdh h a = Some t"
    and "\<And>ts. GroupN a ts \<in> set (subs T) \<Longrightarrow> c = 0 \<or> c \<in> addr ` set ts"
    and "LeafN a \<notin> set (subs T)"
  shows "tree_at (h(a \<mapsto> t\<lparr>current_child := c\<rparr>)) p T"
  using assms(1,3,4)
proof (induction T arbitrary: p)
  case (LeafN b)
  then have "b \<noteq> a" by auto
  then have "rdh (h(a \<mapsto> t\<lparr>current_child := c\<rparr>)) b = rdh h b" by (rule rdh_upd_other)
  with LeafN.prems(1) show ?case by (simp del: fun_upd_apply)
next
  case (GroupN b ts)
  let ?h = "h(a \<mapsto> t\<lparr>current_child := c\<rparr>)"
  have a0: "a \<noteq> 0" using assms(2) rdh_SomeD by blast
  from GroupN.prems(1) obtain u where u: "rdh h b = Some u" "kind u = Group" "parent u = p"
      "ring_at h u (map addr ts)" "current_child u = null_ptr \<or> current_child u \<in> addr ` set ts"
    by auto
  have "same_links h ?h x" for x
    using assms(2) a0 by (auto simp: same_links_def rdh_upd)
  then have r: "ring_at ?h u (map addr ts)"
    using u(4) ring_cong [of h "map addr ts" ?h] by (auto simp: ring_at_def)
  have "tree_at ?h b d" if "d \<in> set ts" for d
  proof (rule GroupN.IH [OF that])
    show "tree_at h b d" using GroupN.prems(1) that by simp
    show "c = 0 \<or> c \<in> addr ` set ts'" if "GroupN a ts' \<in> set (subs d)" for ts'
      using GroupN.prems(2) [of ts'] that \<open>d \<in> set ts\<close> by auto
    show "LeafN a \<notin> set (subs d)"
      using GroupN.prems(3) that by auto
  qed
  moreover have "\<exists>v. rdh ?h b = Some v \<and> kind v = Group \<and> parent v = p \<and> ring_at ?h v (map addr ts)
      \<and> (current_child v = 0 \<or> current_child v \<in> addr ` set ts)"
  proof (cases "b = a")
    case True
    then have "rdh ?h b = Some (u\<lparr>current_child := c\<rparr>)"
      using u(1) assms(2) a0 by simp
    moreover have "ring_at ?h (u\<lparr>current_child := c\<rparr>) (map addr ts)"
      using r by (simp add: ring_at_def del: fun_upd_apply)
    ultimately show ?thesis
      using u True GroupN.prems(2) [of ts] by (intro exI [of _ "u\<lparr>current_child := c\<rparr>"]) simp
  next
    case False
    then have "rdh ?h b = Some u" using u(1) by (simp del: fun_upd_apply)
    with u r show ?thesis by blast
  qed
  ultimately show ?case by (simp del: fun_upd_apply)
qed

section \<open>Turn order and the resumed child\<close>

definition cursor :: "tcb_heap \<Rightarrow> ptr \<Rightarrow> ptr" where
  "cursor h a = (case rdh h a of None \<Rightarrow> null_ptr | Some t \<Rightarrow> current_child t)"

text \<open>The children, the one under the cursor first; and the same order started one later.\<close>

definition turn :: "ptr \<Rightarrow> ntree list \<Rightarrow> ntree list" where
  "turn c ts = dropWhile (\<lambda>d. addr d \<noteq> c) ts @ takeWhile (\<lambda>d. addr d \<noteq> c) ts"

definition after :: "ptr \<Rightarrow> ntree list \<Rightarrow> ntree list" where
  "after c ts = (if c \<in> addr ` set ts then rotate1 (turn c ts) else ts)"

lemma set_turn [simp]: "set (turn c ts) = set ts"
proof -
  have "set (turn c ts) = set (takeWhile (\<lambda>d. addr d \<noteq> c) ts @ dropWhile (\<lambda>d. addr d \<noteq> c) ts)"
    by (simp only: turn_def set_append Un_commute)
  then show ?thesis by (simp only: takeWhile_dropWhile_id)
qed

lemma set_after [simp]: "set (after c ts) = set ts"
  by (simp add: after_def)

lemma turn_notin:
  assumes "c \<notin> addr ` set ts" shows "turn c ts = ts"
proof -
  have "dropWhile (\<lambda>d. addr d \<noteq> c) ts = []" "takeWhile (\<lambda>d. addr d \<noteq> c) ts = ts"
    using assms by (auto simp: dropWhile_eq_Nil_conv takeWhile_eq_all_conv)
  then show ?thesis by (simp only: turn_def append_Nil)
qed

lemma turn_split:
  assumes "ts = us @ d # vs" and "addr d \<notin> addr ` set us"
  shows "turn (addr d) ts = d # vs @ us"
proof -
  have u: "\<forall>e\<in>set us. addr e \<noteq> addr d" using assms(2) by (metis image_eqI)
  then have "dropWhile (\<lambda>e. addr e \<noteq> addr d) us = []" "takeWhile (\<lambda>e. addr e \<noteq> addr d) us = us"
    by (auto simp: dropWhile_eq_Nil_conv takeWhile_eq_all_conv)
  with u show ?thesis
    unfolding turn_def assms(1) by (subst dropWhile_append2, simp, subst takeWhile_append2, simp_all)
qed

lemma distinct_split:
  assumes "distinct (map addr ts)" and "c \<in> addr ` set ts"
  obtains us d vs where "ts = us @ d # vs" "addr d = c" "addr d \<notin> addr ` set us" "addr d \<notin> addr ` set vs"
proof -
  from assms(2) obtain d where d: "d \<in> set ts" "addr d = c" by auto
  then obtain us vs where "ts = us @ d # vs" by (auto simp: in_set_conv_decomp)
  with assms(1) d that show thesis by auto
qed

definition choice :: "tcb_heap \<Rightarrow> ptr \<Rightarrow> ntree list \<Rightarrow> ntree option" where
  "choice h a ts = List.find (\<lambda>c. h_runnable h (addr c)) (turn (cursor h a) ts)"

lemma choice_in: "choice h a ts = Some c \<Longrightarrow> c \<in> set ts \<and> h_runnable h (addr c)"
  unfolding choice_def by (drule find_SomeD) simp

lemma find_map_addr:
  "List.find P (map addr ts) = map_option addr (List.find (\<lambda>c. P (addr c)) ts)"
  by (induction ts) auto

lemma runnable_eq: "p = 0 \<or> rd k p \<noteq> None \<Longrightarrow> runnable k p = Some (h_runnable (heap k) p)"
  by (auto simp: runnable_def h_runnable_def rd_def not_runnable_def)

lemma h_runnable_null [simp]: "\<not> h_runnable h 0"
  by (simp add: h_runnable_def)

definition addr_or_null :: "ntree option \<Rightarrow> ptr" where
  "addr_or_null r = (case r of None \<Rightarrow> null_ptr | Some c \<Rightarrow> addr c)"

lemma or_null_find:
  "or_null (List.find P (map addr ts)) = addr_or_null (List.find (\<lambda>c. P (addr c)) ts)"
  by (auto simp: or_null_def addr_or_null_def find_map_addr split: option.splits)

theorem resume_child_spec:
  assumes T: "tree_at (heap k) p (GroupN a ts)" and dist: "distinct (map addr ts)"
  shows "resume_child a k = Some (addr_or_null (choice (heap k) a ts))"
proof -
  let ?h = "heap k"
  from T obtain t where t: "rd k a = Some t" "ring_at ?h t (map addr ts)"
      "current_child t = 0 \<or> current_child t \<in> addr ` set ts"
    and kids: "\<forall>c\<in>set ts. tree_at ?h a c" by (auto simp: rd_def)
  have cur: "cursor ?h a = current_child t" using t(1) by (simp add: cursor_def rd_def)
  show ?thesis
  proof (cases ts)
    case Nil
    then show ?thesis
      using t cur by (simp add: resume_child_def ring_at_def choice_def turn_def addr_or_null_def)
  next
    case (Cons c cs)
    then have hd: "children_head t = addr c" and R: "ring ?h (addr c # map addr cs)"
      using t(2) by (simp_all add: ring_at_def)
    have hd0: "addr c \<noteq> 0" using ring_nonnull [OF R] by simp
    have first: "first_runnable_from ?h (addr c) = Some (addr_or_null (List.find (\<lambda>d. h_runnable ?h (addr d)) ts))"
      using first_runnable_from_ring [OF R] or_null_find [of "h_runnable ?h" ts] Cons by simp
    show ?thesis
    proof (cases "current_child t = 0")
      case True
      have "0 \<notin> addr ` set ts" using ring_nonnull [OF R] Cons by force
      then show ?thesis
        using t True hd hd0 first cur
        by (simp add: resume_child_def runnable_def is_linked_def choice_def turn_notin)
    next
      case False
      with t(3) have mem: "current_child t \<in> addr ` set ts" by auto
      from dist mem obtain us d vs where d: "ts = us @ d # vs" "addr d = current_child t"
          "addr d \<notin> addr ` set us" by (rule distinct_split) blast
      have R': "ring ?h (addr d # map addr (vs @ us))"
      proof -
        have "ring ?h (map addr us @ map addr (d # vs))"
          using R Cons d(1) by (metis list.simps(9) map_append)
        from ring_rotate [OF this] show ?thesis by simp
      qed
      obtain u where u: "rd k (addr d) = Some u" "parent u = a"
        using tree_at_rd [of ?h a d] kids d(1) by (auto simp: rd_def)
      have u0: "nxt u \<noteq> 0"
        using ring_nxt_nonnull [OF R', of "addr d" u] u by (auto simp: rd_def)
      have l: "is_linked k (addr d) = Some True"
        using u u0 by (auto simp: is_linked_def)
      have r: "runnable k (addr d) = Some (h_runnable ?h (addr d))"
        using u by (simp add: runnable_eq)
      have ch: "choice ?h a ts = List.find (\<lambda>e. h_runnable ?h (addr e)) (d # vs @ us)"
        using cur d turn_split [OF d(1,3)] by (simp add: choice_def)
      show ?thesis
      proof (cases "h_runnable ?h (addr d)")
        case True
        then show ?thesis
          using t hd hd0 d(2) r l u ch by (simp add: resume_child_def addr_or_null_def)
      next
        case nr: False
        have nx: "next_runnable ?h (addr d) = Some (addr_or_null (choice ?h a ts))"
        proof -
          have "List.find (h_runnable ?h) (map addr (vs @ us) @ [addr d])
              = List.find (h_runnable ?h) (map addr (vs @ us))"
            using nr by (simp add: find_append split: option.splits)
          then show ?thesis
            using next_runnable_ring [OF R'] ch nr or_null_find [of "h_runnable ?h" "vs @ us"] by simp
        qed
        have none: "choice ?h a ts = None \<Longrightarrow> List.find (\<lambda>d. h_runnable ?h (addr d)) ts = None"
          unfolding ch unfolding d(1) by (simp only: find_None_iff' set_append list.set) blast
        have "addr e \<noteq> 0" if "choice ?h a ts = Some e" for e
          using choice_in [OF that] by auto
        then show ?thesis
          using t hd hd0 d(2) r l nr nx first none
          by (cases "choice ?h a ts") (simp_all add: resume_child_def addr_or_null_def)
      qed
    qed
  qed
qed

section \<open>The leaf a descent reaches\<close>

function first_leaf :: "tcb_heap \<Rightarrow> ntree \<Rightarrow> ptr" where
  "first_leaf h (LeafN a) = (if h_runnable h a then a else null_ptr)"
| "first_leaf h (GroupN a ts) =
     (case choice h a ts of None \<Rightarrow> null_ptr | Some c \<Rightarrow> first_leaf h c)"
  by pat_completeness auto
termination
  by (relation "measure (\<lambda>(h, T). size T)")
    (auto dest!: choice_in intro!: le_imp_less_Suc size_list_estimation')

lemma first_leaf_in:
  "first_leaf h S \<noteq> 0 \<Longrightarrow> LeafN (first_leaf h S) \<in> set (subs S) \<and> h_runnable h (first_leaf h S)"
proof (induction h S rule: first_leaf.induct)
  case (2 h a ts)
  then obtain c where "choice h a ts = Some c" by (auto split: option.splits)
  with 2 choice_in [OF this] show ?case by auto
qed (auto split: if_splits)

section \<open>Steps that only move cursors and quanta\<close>

definition plain :: "tcb \<Rightarrow> tcb" where
  "plain t = t\<lparr>remaining_cycles := 0, current_child := 0\<rparr>"

definition arm_only :: "tcb_heap \<Rightarrow> tcb_heap \<Rightarrow> bool" where
  "arm_only h h' = (\<forall>a. map_option plain (rdh h' a) = map_option plain (rdh h a))"

lemma arm_only_refl [simp]: "arm_only h h"
  by (simp add: arm_only_def)

lemma arm_only_trans: "arm_only h h' \<Longrightarrow> arm_only h' h'' \<Longrightarrow> arm_only h h''"
  by (simp add: arm_only_def)

lemma arm_only_upd:
  "rdh h a = Some t \<Longrightarrow> plain t' = plain t \<Longrightarrow> arm_only h (h(a \<mapsto> t'))"
  using rdh_SomeD [of h a t] by (auto simp: arm_only_def rdh_upd)

lemma arm_onlyD:
  "arm_only h h' \<Longrightarrow> rdh h a = Some t \<Longrightarrow> \<exists>t'. rdh h' a = Some t' \<and> plain t' = plain t"
  unfolding arm_only_def by (drule spec [of _ a]) auto

lemma arm_onlyD':
  "arm_only h h' \<Longrightarrow> rdh h' a = Some t \<Longrightarrow> \<exists>t'. rdh h a = Some t' \<and> plain t' = plain t"
  unfolding arm_only_def by (drule spec [of _ a], cases "rdh h a") auto

lemma plain_eqD:
  assumes "plain t' = plain t"
  shows "st t' = st t" "nxt t' = nxt t" "prv t' = prv t" "parent t' = parent t" "kind t' = kind t"
    "children_head t' = children_head t" "slice_cycles t' = slice_cycles t"
  using arg_cong [OF assms, of st] arg_cong [OF assms, of nxt] arg_cong [OF assms, of prv]
    arg_cong [OF assms, of parent] arg_cong [OF assms, of kind]
    arg_cong [OF assms, of children_head] arg_cong [OF assms, of slice_cycles]
  by (simp_all add: plain_def)

lemma plain_upd [simp]:
  "plain (t\<lparr>remaining_cycles := x\<rparr>) = plain t" "plain (t\<lparr>current_child := y\<rparr>) = plain t"
  by (simp_all add: plain_def)

lemma arm_only_runnable: "arm_only h h' \<Longrightarrow> h_runnable h' a = h_runnable h a"
proof (cases "rdh h a")
  case None
  assume "arm_only h h'"
  then have "rdh h' a = None" using None arm_onlyD' [of h h' a] by (cases "rdh h' a") auto
  with None show ?thesis by (simp add: h_runnable_def)
next
  case (Some t)
  assume "arm_only h h'"
  from arm_onlyD [OF this Some] obtain t' where t': "rdh h' a = Some t'" "plain t' = plain t"
    by blast
  from plain_eqD(1) [OF t'(2)] t'(1) Some show ?thesis by (simp add: h_runnable_def)
qed

lemma only_linked_arm: "arm_only h h' \<Longrightarrow> only_linked h T \<Longrightarrow> only_linked h' T"
  unfolding only_linked_def
  by (intro allI impI) (drule (1) arm_onlyD', auto dest: plain_eqD(2))

text \<open>\<open>settled\<close>: the tree is kept and every group would still offer the turn to the same child.\<close>

definition same_but_heap :: "kernel \<Rightarrow> kernel \<Rightarrow> bool" where
  "same_but_heap k k' = (k'\<lparr>heap := Map.empty\<rparr> = k\<lparr>heap := Map.empty\<rparr>)"

lemma same_but_heap_refl [simp]: "same_but_heap k k"
  by (simp add: same_but_heap_def)

lemma same_but_heap_upd [simp]: "same_but_heap k (k\<lparr>heap := h\<rparr>)"
  by (simp add: same_but_heap_def)

lemma same_but_heap_trans: "same_but_heap k k' \<Longrightarrow> same_but_heap k' k'' \<Longrightarrow> same_but_heap k k''"
  by (simp add: same_but_heap_def)

lemma same_but_heapD:
  assumes "same_but_heap k k'"
  shows "k' = k\<lparr>heap := heap k'\<rparr>" "root k' = root k" "nodes k' = nodes k"
    "current_tcb k' = current_tcb k" "switches k' = switches k" "ticks k' = ticks k"
proof -
  have e: "k'\<lparr>heap := Map.empty\<rparr> = k\<lparr>heap := Map.empty\<rparr>"
    using assms by (simp add: same_but_heap_def)
  have n: "k'\<lparr>heap := heap k'\<rparr> = k'" by simp
  have u: "x\<lparr>heap := Map.empty\<rparr>\<lparr>heap := y\<rparr> = x\<lparr>heap := y\<rparr>" for x :: kernel and y by simp
  have "k'\<lparr>heap := heap k'\<rparr> = k\<lparr>heap := heap k'\<rparr>"
    using arg_cong [OF e, of "\<lambda>x. x\<lparr>heap := heap k'\<rparr>"] unfolding u .
  with n show "k' = k\<lparr>heap := heap k'\<rparr>" by (simp only:)
  show "root k' = root k" using arg_cong [OF e, of root] by simp
  show "nodes k' = nodes k" using arg_cong [OF e, of nodes] by simp
  show "current_tcb k' = current_tcb k" using arg_cong [OF e, of current_tcb] by simp
  show "switches k' = switches k" using arg_cong [OF e, of switches] by simp
  show "ticks k' = ticks k" using arg_cong [OF e, of ticks] by simp
qed

definition settled :: "ntree \<Rightarrow> kernel \<Rightarrow> kernel \<Rightarrow> bool" where
  "settled T k k' = (same_but_heap k k' \<and> arm_only (heap k) (heap k') \<and>
     (\<forall>p. tree_at (heap k) p T \<longrightarrow> tree_at (heap k') p T) \<and>
     (\<forall>a ts. GroupN a ts \<in> set (subs T) \<longrightarrow> choice (heap k') a ts = choice (heap k) a ts))"

lemma settled_refl [simp]: "settled T k k"
  by (simp add: settled_def)

lemma settled_trans: "settled T k k' \<Longrightarrow> settled T k' k'' \<Longrightarrow> settled T k k''"
  unfolding settled_def
  by (elim conjE, intro conjI)
    (blast intro: same_but_heap_trans, blast intro: arm_only_trans, blast, simp)

lemma settled_runnable: "settled T k k' \<Longrightarrow> h_runnable (heap k') a = h_runnable (heap k) a"
  by (rule arm_only_runnable) (simp add: settled_def)

lemma settled_first_leaf:
  "settled T k k' \<Longrightarrow> S \<in> set (subs T) \<Longrightarrow> first_leaf (heap k') S = first_leaf (heap k) S"
proof (induction "heap k" S rule: first_leaf.induct)
  case (1 a)
  then have "arm_only (heap k) (heap k')" by (simp add: settled_def)
  then show ?case by (simp add: arm_only_runnable)
next
  case (2 a ts)
  then have "choice (heap k') a ts = choice (heap k) a ts" by (simp add: settled_def)
  with 2 show ?case
    by (auto split: option.splits dest: choice_in subs_kid)
qed

lemma choice_cong_cursor:
  "arm_only h h' \<Longrightarrow> cursor h' a = cursor h a \<Longrightarrow> choice h' a ts = choice h a ts"
  by (simp add: choice_def arm_only_runnable)

lemma choice_cursor_chosen:
  assumes "choice h a ts = Some c" and "distinct (map addr ts)" and "arm_only h h'"
    and "cursor h' a = addr c"
  shows "choice h' a ts = Some c"
proof -
  have c: "c \<in> set ts" "h_runnable h (addr c)" using choice_in [OF assms(1)] by auto
  from assms(2) obtain us d vs where d: "ts = us @ d # vs" "addr d = addr c" "addr d \<notin> addr ` set us"
    by (rule distinct_split [of ts "addr c"]) (use c in auto)
  have "d = c" using assms(2) c(1) d(1,2) by (auto simp: distinct_map dest: inj_onD)
  with d turn_split [OF d(1,3)] c assms(3,4) show ?thesis
    by (simp add: choice_def arm_only_runnable)
qed

section \<open>Descending\<close>

definition armed :: "tcb \<Rightarrow> u32" where
  "armed t = (if remaining_cycles t = 0 then max (slice_cycles t) 1 else remaining_cycles t)"

lemma armed_pos: "armed t \<noteq> 0"
proof -
  have "max (slice_cycles t) 1 \<noteq> 0"
    by (cases "slice_cycles t = 0") (auto simp: max_def word_le_nat_alt unat_eq_0)
  then show ?thesis by (simp add: armed_def)
qed

definition put :: "ptr \<Rightarrow> tcb \<Rightarrow> kernel \<Rightarrow> kernel" where
  "put a t k = k\<lparr>heap := (heap k)(a \<mapsto> t)\<rparr>"

lemma rd_put: "a \<noteq> 0 \<Longrightarrow> rd (put a t k) b = (if b = a then Some t else rd k b)"
  by (simp add: put_def rd_heap_upd)

lemma heap_put [simp]: "heap (put a t k) = (heap k)(a \<mapsto> t)"
  by (simp add: put_def)

lemma rd_nonnull: "rd k a = Some t \<Longrightarrow> a \<noteq> 0"
  by auto

lemma upd_put: "rd k a = Some t \<Longrightarrow> upd f a k = Some (put a (f t) k)"
  by (simp add: upd_Some put_def)

lemma same_but_heap_put [simp]: "same_but_heap k (put a t k)"
  by (simp add: put_def)

lemma arm_if_needed_put:
  assumes t: "rd k a = Some t"
  shows "arm_if_needed a k = Some (armed t, put a (t\<lparr>remaining_cycles := armed t\<rparr>) k)"
proof (cases "remaining_cycles t = 0")
  case True
  then show ?thesis
    using t rd_nonnull [OF t] by (simp add: arm_if_needed_def upd_put armed_def rd_put)
next
  case False
  then have "t\<lparr>remaining_cycles := armed t\<rparr> = t" by (simp add: armed_def)
  then have "put a (t\<lparr>remaining_cycles := armed t\<rparr>) k = k"
    using upd_trivial [OF t] by (simp add: put_def)
  then show ?thesis
    using t False by (simp add: arm_if_needed_def armed_def)
qed

lemma settled_arm:
  assumes t: "rd k a = Some t"
  shows "settled T k (put a (t\<lparr>remaining_cycles := r\<rparr>) k)"
proof -
  let ?k = "put a (t\<lparr>remaining_cycles := r\<rparr>) k"
  have t': "rdh (heap k) a = Some t" and a0: "a \<noteq> 0"
    using t rd_nonnull [OF t] by (auto simp: rd_def)
  have o: "arm_only (heap k) (heap ?k)"
    using arm_only_upd [OF t'] by simp
  have "same_shape (heap k) (heap ?k)"
    using same_shape_upd [OF t'] by simp
  then have "tree_at (heap k) p T \<longrightarrow> tree_at (heap ?k) p T" for p
    using tree_at_shape by blast
  moreover have "cursor (heap ?k) b = cursor (heap k) b" for b
    using t' a0 by (simp add: cursor_def rdh_upd)
  then have "choice (heap ?k) b ts = choice (heap k) b ts" for b ts
    by (rule choice_cong_cursor [OF o])
  ultimately show ?thesis
    using o by (simp add: settled_def)
qed

lemma settled_cursor:
  assumes D: "distinct (addrs T)" and G: "GroupN a ts \<in> set (subs T)" and t: "rd k a = Some t"
    and c: "choice (heap k) a ts = Some c"
  shows "settled T k (put a (t\<lparr>current_child := addr c\<rparr>) k)"
proof -
  let ?k = "put a (t\<lparr>current_child := addr c\<rparr>) k"
  have t': "rdh (heap k) a = Some t" and a0: "a \<noteq> 0"
    using t rd_nonnull [OF t] by (auto simp: rd_def)
  have o: "arm_only (heap k) (heap ?k)"
    using arm_only_upd [OF t'] by simp
  have uniq: "S = GroupN a ts" if "S \<in> set (subs T)" "addr S = a" for S
    using subs_unique [OF D that(1) G] that(2) by simp
  have "tree_at (heap k) p T \<longrightarrow> tree_at (heap ?k) p T" for p
    using tree_at_cursor [OF _ t', of p T "addr c"] uniq choice_in [OF c] by fastforce
  moreover have "choice (heap ?k) b us = choice (heap k) b us" if "GroupN b us \<in> set (subs T)" for b us
  proof (cases "b = a")
    case True
    then have us: "us = ts" using uniq [OF that] by simp
    have "distinct (map addr ts)"
      using subs_distinct [OF D G] by (auto intro: distinct_map_addr)
    moreover have "cursor (heap ?k) a = addr c"
      using a0 by (simp add: cursor_def rdh_upd)
    ultimately have "choice (heap ?k) a ts = Some c"
      using choice_cursor_chosen [OF c _ o] by blast
    with c us True show ?thesis by simp
  next
    case False
    then have "cursor (heap ?k) b = cursor (heap k) b"
      using a0 by (simp add: cursor_def rdh_upd)
    then show ?thesis by (rule choice_cong_cursor [OF o])
  qed
  ultimately show ?thesis
    using o by (simp add: settled_def)
qed

text \<open>The steps taken on the nodes \<open>A\<close> only.\<close>

definition only_at :: "ptr set \<Rightarrow> kernel \<Rightarrow> kernel \<Rightarrow> bool" where
  "only_at A k k' = (\<forall>b. b \<notin> A \<longrightarrow> rd k' b = rd k b)"

lemma only_at_refl [simp]: "only_at A k k"
  by (simp add: only_at_def)

lemma only_at_trans: "only_at A k k' \<Longrightarrow> only_at A k' k'' \<Longrightarrow> only_at A k k''"
  by (simp add: only_at_def)

lemma only_at_mono: "only_at A k k' \<Longrightarrow> A \<subseteq> B \<Longrightarrow> only_at B k k'"
  by (auto simp: only_at_def)

lemma only_at_put: "a \<noteq> 0 \<Longrightarrow> a \<in> A \<Longrightarrow> only_at A k (put a t k)"
  by (auto simp: only_at_def rd_put)

definition has_quantum :: "kernel \<Rightarrow> ptr \<Rightarrow> bool" where
  "has_quantum k a = (case rd k a of None \<Rightarrow> False | Some t \<Rightarrow> remaining_cycles t \<noteq> 0)"

theorem descend_spec:
  assumes "tree_at (heap k) r T" and D: "distinct (addrs T)" and "S \<in> set (subs T)"
    and "unat depth + length (addrs S) \<le> unat limit" and L: "unat limit < 2 ^ 32 - 1"
  shows "\<exists>k'. descend_loop limit depth (addr S) k = Some (first_leaf (heap k) S, k')
    \<and> settled T k k' \<and> only_at (set (addrs S)) k k'
    \<and> (first_leaf (heap k) S \<noteq> 0 \<longrightarrow> has_quantum k' (first_leaf (heap k) S))"
  using assms(1,3,4)
proof (induction S arbitrary: k depth)
  case (LeafN a)
  from tree_at_sub [OF LeafN.prems(1,2)] obtain t where t: "rd k a = Some t" "kind t = Leaf"
    by (auto simp: rd_def)
  have a0: "a \<noteq> 0" using t rd_nonnull by blast
  show ?case
  proof (cases "h_runnable (heap k) a")
    case True
    let ?k = "put a (t\<lparr>remaining_cycles := armed t\<rparr>) k"
    have "descend_loop limit depth a k = Some (a, ?k)"
      using t a0 True arm_if_needed_put [OF t(1)]
      by (subst descend_loop.simps) (simp add: runnable_eq)
    then show ?thesis
      using settled_arm [OF t(1)] a0 True armed_pos [of t]
      by (intro exI [of _ ?k]) (simp add: only_at_put has_quantum_def rd_put)
  next
    case False
    then have "descend_loop limit depth a k = Some (0, k)"
      using t a0 by (subst descend_loop.simps) (simp add: runnable_eq)
    with False show ?thesis by (intro exI [of _ k]) simp
  qed
next
  case (GroupN a ts)
  from tree_at_sub [OF GroupN.prems(1,2)] obtain q where q: "tree_at (heap k) q (GroupN a ts)" by blast
  then obtain t where t: "rd k a = Some t" "kind t = Group" by (auto simp: rd_def)
  have a0: "a \<noteq> 0" using t rd_nonnull by blast
  have dist: "distinct (map addr ts)"
    using subs_distinct [OF D GroupN.prems(2)] by (auto intro: distinct_map_addr)
  let ?k1 = "put a (t\<lparr>remaining_cycles := armed t\<rparr>) k"
  have s1: "settled T k ?k1" by (rule settled_arm [OF t(1)])
  have T1: "tree_at (heap ?k1) r T" using s1 GroupN.prems(1) by (auto simp: settled_def)
  from tree_at_sub [OF T1 GroupN.prems(2)] obtain q' where q': "tree_at (heap ?k1) q' (GroupN a ts)" by blast
  have ch: "choice (heap ?k1) a ts = choice (heap k) a ts"
    using s1 GroupN.prems(2) by (simp add: settled_def)
  have rc: "resume_child a ?k1 = Some (addr_or_null (choice (heap k) a ts))"
    using resume_child_spec [OF q' dist] ch by simp
  have dep: "\<not> depth + 1 > limit" "unat (depth + 1) = unat depth + 1"
    using GroupN.prems(3) L by (simp_all add: word_less_nat_alt unat_Suc_small)
  show ?case
  proof (cases "choice (heap k) a ts")
    case None
    have "descend_loop limit depth a k = Some (0, ?k1)"
      using t a0 arm_if_needed_put [OF t(1)] rc None dep
      by (subst descend_loop.simps) (simp add: runnable_eq addr_or_null_def)
    then show ?thesis
      using s1 None a0 by (intro exI [of _ ?k1]) (simp add: only_at_put)
  next
    case (Some c)
    have c: "c \<in> set ts" "h_runnable (heap k) (addr c)" using choice_in [OF Some] by auto
    let ?t1 = "t\<lparr>remaining_cycles := armed t\<rparr>"
    have t1: "rd ?k1 a = Some ?t1" using a0 by (simp add: rd_put)
    let ?k2 = "put a (?t1\<lparr>current_child := addr c\<rparr>) ?k1"
    have s2: "settled T ?k1 ?k2"
      by (rule settled_cursor [OF D GroupN.prems(2) t1]) (use ch Some in simp)
    have s12: "settled T k ?k2" using settled_trans [OF s1 s2] .
    have T2: "tree_at (heap ?k2) r T" using s12 GroupN.prems(1) by (auto simp: settled_def)
    have cT: "c \<in> set (subs T)" using subs_kid [OF GroupN.prems(2) c(1)] .
    have len: "length (addrs c) \<le> length (kid_addrs ts)"
      using c(1) by (auto simp: in_set_conv_decomp)
    have "\<exists>k'. descend_loop limit (depth + 1) (addr c) ?k2 = Some (first_leaf (heap ?k2) c, k')
      \<and> settled T ?k2 k' \<and> only_at (set (addrs c)) ?k2 k'
      \<and> (first_leaf (heap ?k2) c \<noteq> 0 \<longrightarrow> has_quantum k' (first_leaf (heap ?k2) c))"
      by (rule GroupN.IH [OF c(1) T2 cT]) (use dep len GroupN.prems(3) in simp)
    then obtain k' where k': "descend_loop limit (depth + 1) (addr c) ?k2 = Some (first_leaf (heap ?k2) c, k')"
      "settled T ?k2 k'" "only_at (set (addrs c)) ?k2 k'"
      "first_leaf (heap ?k2) c \<noteq> 0 \<longrightarrow> has_quantum k' (first_leaf (heap ?k2) c)" by blast
    have fl: "first_leaf (heap ?k2) c = first_leaf (heap k) c"
      by (rule settled_first_leaf [OF s12 cT])
    have r1: "runnable ?k1 (addr c) = Some True"
    proof -
      have "h_runnable (heap ?k1) (addr c)"
        using settled_runnable [OF s1] c(2) by blast
      then show ?thesis
        by (subst runnable_eq) (auto simp: h_runnable_def rd_def split: option.splits)
    qed
    have "descend_loop limit depth a k = Some (first_leaf (heap k) c, k')"
      using t a0 arm_if_needed_put [OF t(1)] rc Some dep r1 t1 k'(1) fl
      by (subst descend_loop.simps) (simp add: addr_or_null_def upd_put)
    moreover have "only_at (set (addrs (GroupN a ts))) k k'"
    proof -
      have "only_at (set (addrs (GroupN a ts))) k ?k1" "only_at (set (addrs (GroupN a ts))) ?k1 ?k2"
        using a0 by (simp_all add: only_at_put)
      moreover have "only_at (set (addrs (GroupN a ts))) ?k2 k'"
        by (rule only_at_mono [OF k'(3)]) (use c(1) in auto)
      ultimately show ?thesis by (blast intro: only_at_trans)
    qed
    ultimately show ?thesis
      using settled_trans [OF s12 k'(2)] Some k'(4) fl by (intro exI [of _ k']) simp
  qed
qed

section \<open>Advancing\<close>

text \<open>\<open>moved\<close>: the tree is kept, and only cursors and quanta change.\<close>

definition moved :: "ntree \<Rightarrow> kernel \<Rightarrow> kernel \<Rightarrow> bool" where
  "moved T k k' = (same_but_heap k k' \<and> arm_only (heap k) (heap k') \<and>
     (\<forall>p. tree_at (heap k) p T \<longrightarrow> tree_at (heap k') p T))"

lemma settled_moved: "settled T k k' \<Longrightarrow> moved T k k'"
  by (simp add: settled_def moved_def)

lemma moved_refl [simp]: "moved T k k"
  by (simp add: moved_def)

lemma moved_trans: "moved T k k' \<Longrightarrow> moved T k' k'' \<Longrightarrow> moved T k k''"
  unfolding moved_def
  by (elim conjE, intro conjI)
    (blast intro: same_but_heap_trans, blast intro: arm_only_trans, blast)

lemma moved_tree_ok: "moved T k k' \<Longrightarrow> tree_ok k T \<Longrightarrow> tree_ok k' T"
  unfolding moved_def tree_ok_def
  by (auto simp: same_but_heapD intro: only_linked_arm)

lemma moved_cursor:
  assumes D: "distinct (addrs T)" and G: "GroupN a ts \<in> set (subs T)" and t: "rd k a = Some t"
    and c: "c = 0 \<or> c \<in> addr ` set ts"
  shows "moved T k (put a (t\<lparr>current_child := c\<rparr>) k)"
proof -
  have t': "rdh (heap k) a = Some t" using t by (simp add: rd_def)
  have uniq: "S = GroupN a ts" if "S \<in> set (subs T)" "addr S = a" for S
    using subs_unique [OF D that(1) G] that(2) by simp
  show ?thesis
    using tree_at_cursor [OF _ t', of _ T c] uniq c arm_only_upd [OF t', of "t\<lparr>current_child := c\<rparr>"]
    unfolding moved_def by (fastforce simp del: fun_upd_apply)
qed

definition live :: "tcb_heap \<Rightarrow> ntree \<Rightarrow> bool" where
  "live h c = (h_runnable h (addr c) \<and> first_leaf h c \<noteq> null_ptr)"

definition first_of :: "tcb_heap \<Rightarrow> ntree list \<Rightarrow> ptr" where
  "first_of h cs = (case List.find (live h) cs of None \<Rightarrow> null_ptr | Some c \<Rightarrow> first_leaf h c)"

lemma settled_live: "settled T k k' \<Longrightarrow> S \<in> set (subs T) \<Longrightarrow> live (heap k') S = live (heap k) S"
  by (simp add: live_def settled_runnable settled_first_leaf)

lemma find_cong_set: "\<forall>x\<in>set xs. P x = Q x \<Longrightarrow> List.find P xs = List.find Q xs"
  by (induction xs) auto

lemma settled_first_of:
  assumes "settled T k k'" and "\<forall>c\<in>set cs. c \<in> set (subs T)"
  shows "first_of (heap k') cs = first_of (heap k) cs"
proof -
  have "List.find (live (heap k')) cs = List.find (live (heap k)) cs"
    using assms settled_live by (intro find_cong_set) blast
  then show ?thesis
    using assms settled_first_leaf
    by (auto simp: first_of_def split: option.splits dest: find_SomeD)
qed

lemma first_of_nonzero: "first_of h cs \<noteq> 0 \<longleftrightarrow> List.find (live h) cs \<noteq> None"
  by (auto simp: first_of_def live_def split: option.splits dest: find_SomeD)

lemma first_of_in:
  assumes "first_of h cs \<noteq> 0"
  shows "\<exists>c\<in>set cs. LeafN (first_of h cs) \<in> set (subs c) \<and> h_runnable h (first_of h cs)"
proof -
  from assms obtain c where c: "List.find (live h) cs = Some c"
    by (auto simp: first_of_def split: option.splits)
  with find_SomeD [OF c] first_leaf_in [of h c] show ?thesis
    by (auto simp: first_of_def live_def)
qed

lemma kid_next:
  assumes "tree_at h p (GroupN g ts)" and "ts = xs @ c # ys"
  shows "\<exists>t. rdh h (addr c) = Some t \<and> parent t = g \<and> nxt t = addr (hd (ys @ xs @ [c])) \<and> nxt t \<noteq> 0"
proof -
  from assms have R: "ring h (map addr ts)" by (auto simp: ring_at_def)
  have "ring h (addr c # map addr (ys @ xs))"
    using ring_rotate [of h "map addr xs" "map addr (c # ys)"] R assms(2) by (metis append_Cons list.simps(9) map_append)
  from ring_succ [OF this] obtain t where "rdh h (addr c) = Some t" "nxt t = hd (map addr (ys @ xs) @ [addr c])"
    by blast
  moreover have "hd (map addr (ys @ xs) @ [addr c]) = addr (hd (ys @ xs @ [c]))"
    by (cases ys; cases xs) auto
  moreover obtain u where "rdh h (addr c) = Some u" "parent u = g"
    using tree_at_rd [of h g c] assms by auto
  moreover have "nxt t \<noteq> 0"
    using ring_nxt_nonnull [OF R, of "addr c" t] calculation assms(2) by auto
  ultimately show ?thesis by auto
qed

lemma advance_start_spec:
  assumes T: "tree_at (heap k) p (GroupN g ts)" and ne: "ts \<noteq> []"
  shows "advance_start g k = Some (addr (hd (after (cursor (heap k) g) ts)))"
proof -
  from T obtain t where t: "rd k g = Some t" "ring_at (heap k) t (map addr ts)"
      "current_child t = 0 \<or> current_child t \<in> addr ` set ts" by (auto simp: rd_def)
  have cur: "cursor (heap k) g = current_child t" using t(1) by (simp add: cursor_def rd_def)
  have hd: "children_head t = addr (hd ts)" using t(2) ne by (cases ts) (auto simp: ring_at_def)
  have R: "ring (heap k) (map addr ts)" using t(2) ne by (simp add: ring_at_def)
  show ?thesis
  proof (cases "current_child t = 0")
    case True
    have "0 \<notin> addr ` set ts" using ring_nonnull [OF R] by force
    with True t hd cur show ?thesis by (simp add: advance_start_def is_linked_def after_def)
  next
    case False
    with t(3) have mem: "current_child t \<in> addr ` set ts" by auto
    from ring_distinct [OF R] mem obtain us d vs where d: "ts = us @ d # vs" "addr d = current_child t"
        "addr d \<notin> addr ` set us" by (rule distinct_split) blast
    from kid_next [OF T d(1)] obtain u where u: "rd k (addr d) = Some u" "parent u = g"
        "nxt u = addr (hd (vs @ us @ [d]))" "nxt u \<noteq> 0" by (auto simp: rd_def)
    have "after (cursor (heap k) g) ts = vs @ us @ [d]"
      using turn_split [OF d(1,3)] d(2) mem cur by (simp add: after_def)
    with t(1) u d(2) show ?thesis
      using rd_nonnull [OF u(1)] by (auto simp: advance_start_def is_linked_def)
  qed
qed

lemma rotated_split:
  assumes "ts = xs @ ys" and "ys @ xs = us @ c # vs"
  shows "\<exists>as bs. ts = as @ c # bs \<and> bs @ as @ [c] = vs @ us @ [c]"
proof -
  from assms(2) obtain ws
    where "ys = us @ ws \<and> ws @ xs = c # vs \<or> us = ys @ ws \<and> xs = ws @ c # vs"
    by (auto simp: append_eq_append_conv2)
  then show ?thesis
  proof
    assume w: "ys = us @ ws \<and> ws @ xs = c # vs"
    show ?thesis
    proof (cases ws)
      case Nil
      with w assms(1) show ?thesis by (intro exI [of _ "[]"] exI [of _ "vs @ us"]) simp
    next
      case (Cons c' ws')
      with w assms(1) show ?thesis by (intro exI [of _ "xs @ us"] exI [of _ ws']) auto
    qed
  next
    assume "us = ys @ ws \<and> xs = ws @ c # vs"
    with assms(1) show ?thesis by (intro exI [of _ ws] exI [of _ "vs @ ys"]) simp
  qed
qed

lemma try_child:
  assumes T: "tree_at (heap k) r T" and D: "distinct (addrs T)" and c: "c \<in> set (subs T)"
    and L: "length (addrs T) \<le> unat (walk_limit k)" "unat (walk_limit k) < 2 ^ 32 - 1"
  shows "\<exists>b k1. runnable k (addr c) = Some b
    \<and> (if b then descend_and_arm (addr c) k else Some (null_ptr, k)) = Some (first_of (heap k) [c], k1)
    \<and> settled T k k1 \<and> only_at (set (addrs c)) k k1
    \<and> (first_of (heap k) [c] \<noteq> 0 \<longrightarrow> has_quantum k1 (first_of (heap k) [c]))"
proof -
  from tree_at_sub [OF T c] tree_at_rd obtain t where "rd k (addr c) = Some t"
    unfolding rd_def by blast
  then have b: "runnable k (addr c) = Some (h_runnable (heap k) (addr c))"
    by (simp add: runnable_eq)
  show ?thesis
  proof (cases "h_runnable (heap k) (addr c)")
    case False
    then have "first_of (heap k) [c] = 0" by (simp add: first_of_def live_def)
    with b False show ?thesis by (intro exI [of _ False] exI [of _ k]) simp
  next
    case True
    have f: "first_of (heap k) [c] = first_leaf (heap k) c"
      using True by (simp add: first_of_def live_def)
    have "length (addrs c) \<le> length (addrs T)"
      using card_mono [OF _ subs_addrs [OF c]] D subs_distinct [OF D c] by (simp add: distinct_card)
    then have "unat (0 :: u32) + length (addrs c) \<le> unat (walk_limit k)" using L by simp
    from descend_spec [OF T D c this L(2)] b True f show ?thesis
      by (auto simp: descend_and_arm_def)
  qed
qed

lemma walk_limit_cong: "same_but_heap k k' \<Longrightarrow> walk_limit k' = walk_limit k"
  by (simp add: walk_limit_def same_but_heapD)

lemma settled_limit: "settled T k k' \<Longrightarrow> walk_limit k' = walk_limit k"
  by (rule walk_limit_cong) (simp add: settled_def)

lemma settled_tree: "settled T k k' \<Longrightarrow> tree_at (heap k) r T \<Longrightarrow> tree_at (heap k') r T"
  by (simp add: settled_def)

lemma advance_ring_step:
  assumes T: "tree_at (heap k) r T" and D: "distinct (addrs T)" and G: "GroupN g ts \<in> set (subs T)"
    and rot: "ts = xs @ ys" "ys @ xs = us @ c # vs" and start: "start = addr (hd (us @ [c]))"
    and L: "length (addrs T) \<le> unat (walk_limit k)" "unat (walk_limit k) < 2 ^ 32 - 1"
  shows "\<exists>k1 k2. settled T k k1 \<and> only_at (set (addrs c)) k k1 \<and> moved T k k2
    \<and> (first_of (heap k) [c] \<noteq> 0 \<longrightarrow> has_quantum k2 (first_of (heap k) [c]))
    \<and> advance_ring g start (addr c) k =
        (if first_of (heap k) [c] \<noteq> 0 then Some (first_of (heap k) [c], k2)
         else if vs = [] then Some (0, k1) else advance_ring g start (addr (hd vs)) k1)"
proof -
  from rotated_split [OF rot] obtain as bs where ab: "ts = as @ c # bs" "bs @ as @ [c] = vs @ us @ [c]"
    by blast
  have cT: "c \<in> set (subs T)" using subs_kid [OF G] ab(1) by simp
  from try_child [OF T D cT L] obtain b k1 where k1: "runnable k (addr c) = Some b"
     "(if b then descend_and_arm (addr c) k else Some (null_ptr, k)) = Some (first_of (heap k) [c], k1)"
     "settled T k k1" "only_at (set (addrs c)) k k1"
     "first_of (heap k) [c] \<noteq> 0 \<longrightarrow> has_quantum k1 (first_of (heap k) [c])"
    by blast
  have T1: "tree_at (heap k1) r T" using settled_tree [OF k1(3) T] .
  from tree_at_sub [OF T1 G] obtain q where q: "tree_at (heap k1) q (GroupN g ts)" by blast
  then obtain gt where gt: "rd k1 g = Some gt" by (auto simp: rd_def)
  have g0: "g \<noteq> 0" using rd_nonnull [OF gt] .
  from kid_next [OF q ab(1)] ab(2) obtain t where t: "rd k1 (addr c) = Some t" "parent t = g"
      "nxt t = addr (hd (vs @ us @ [c]))" "nxt t \<noteq> 0" by (auto simp: rd_def)
  have dist: "distinct (map addr ts)"
    using subs_distinct [OF D G] by (auto intro: distinct_map_addr)
  have last: "(nxt t = start) = (vs = [])"
  proof (cases vs)
    case Nil
    with t start show ?thesis by simp
  next
    case (Cons v vs')
    have "distinct (map addr (us @ c # vs))"
      using dist rot(1) unfolding rot(2) [symmetric] by auto
    then have "addr v \<noteq> addr (hd (us @ [c]))"
      using Cons by (cases us) auto
    with Cons t start show ?thesis by simp
  qed
  let ?k2 = "put g (gt\<lparr>current_child := addr c\<rparr>) k1"
  have "moved T k1 ?k2"
    by (rule moved_cursor [OF D G gt]) (use ab(1) in simp)
  then have m: "moved T k ?k2" using moved_trans [OF settled_moved [OF k1(3)]] by blast
  have hq: "has_quantum ?k2 a = has_quantum k1 a" for a
    using gt g0 by (simp add: has_quantum_def rd_put)
  have lnk: "is_linked k1 (nxt t) = Some True"
  proof -
    obtain d where d: "d \<in> set ts" "nxt t = addr d"
    proof (rule that [of "hd (bs @ as @ [c])"])
      have "hd (bs @ as @ [c]) \<in> set (bs @ as @ [c])" by (rule hd_in_set) simp
      then show "hd (bs @ as @ [c]) \<in> set ts" using ab(1) by auto
      show "nxt t = addr (hd (bs @ as @ [c]))" using t(3) unfolding ab(2) .
    qed
    then obtain as' bs' where "ts = as' @ d # bs'" by (auto simp: in_set_conv_decomp)
    from kid_next [OF q this] d t(4) show ?thesis by (auto simp: is_linked_def rd_def)
  qed
  have "advance_ring g start (addr c) k =
        (if first_of (heap k) [c] \<noteq> 0 then Some (first_of (heap k) [c], ?k2)
         else if vs = [] then Some (0, k1) else advance_ring g start (addr (hd vs)) k1)"
    using k1(1,2) t gt lnk last
    by (subst advance_ring.simps) (cases vs, auto simp: upd_put)
  with k1 m hq show ?thesis by (intro exI [of _ k1] exI [of _ ?k2]) simp
qed

lemma first_of_Cons: "first_of h (c # cs) = (if first_of h [c] \<noteq> 0 then first_of h [c] else first_of h cs)"
  by (simp add: first_of_def live_def)

theorem advance_ring_spec:
  assumes D: "distinct (addrs T)" and G: "GroupN g ts \<in> set (subs T)" and rot: "ts = xs @ ys"
  shows "tree_at (heap k) r T \<Longrightarrow> ys @ xs = us @ c # vs \<Longrightarrow> start = addr (hd (us @ [c])) \<Longrightarrow>
     length (addrs T) \<le> unat (walk_limit k) \<Longrightarrow> unat (walk_limit k) < 2 ^ 32 - 1 \<Longrightarrow>
    \<exists>k'. advance_ring g start (addr c) k = Some (first_of (heap k) (c # vs), k')
    \<and> moved T k k' \<and> (first_of (heap k) (c # vs) = 0 \<longrightarrow> settled T k k' \<and> only_at (set (kid_addrs ts)) k k')
    \<and> (first_of (heap k) (c # vs) \<noteq> 0 \<longrightarrow> has_quantum k' (first_of (heap k) (c # vs)))"
proof (induction vs arbitrary: k us c)
  case Nil
  from advance_ring_step [OF Nil(1) D G rot Nil(2-5)] obtain k1 k2 where
    s: "settled T k k1" "only_at (set (addrs c)) k k1" "moved T k k2"
      "first_of (heap k) [c] \<noteq> 0 \<longrightarrow> has_quantum k2 (first_of (heap k) [c])"
      "advance_ring g start (addr c) k = (if first_of (heap k) [c] \<noteq> 0 then Some (first_of (heap k) [c], k2)
         else if ([] :: ntree list) = [] then Some (0, k1) else advance_ring g start (addr (hd [])) k1)"
    by blast
  have "c \<in> set ts" using rot Nil(2) by (metis Un_iff in_set_conv_decomp set_append)
  then have o: "only_at (set (kid_addrs ts)) k k1"
    by (intro only_at_mono [OF s(2)]) auto
  show ?case
    using s o settled_moved [OF s(1)]
    by (cases "first_of (heap k) [c] = 0") auto
next
  case (Cons d vs)
  from advance_ring_step [OF Cons(2) D G rot Cons(3-6)] obtain k1 k2 where
    s: "settled T k k1" "only_at (set (addrs c)) k k1" "moved T k k2"
      "first_of (heap k) [c] \<noteq> 0 \<longrightarrow> has_quantum k2 (first_of (heap k) [c])"
      "advance_ring g start (addr c) k = (if first_of (heap k) [c] \<noteq> 0 then Some (first_of (heap k) [c], k2)
         else if d # vs = [] then Some (0, k1) else advance_ring g start (addr (hd (d # vs))) k1)"
    by blast
  have sub: "\<forall>e\<in>set (c # d # vs). e \<in> set ts"
    using rot Cons(3) by (metis Un_iff set_append)
  then have o: "only_at (set (kid_addrs ts)) k k1"
    by (intro only_at_mono [OF s(2)]) auto
  show ?case
  proof (cases "first_of (heap k) [c] = 0")
    case False
    with s show ?thesis using first_of_Cons [of "heap k" c "d # vs"] by auto
  next
    case True
    have f1: "first_of (heap k1) (d # vs) = first_of (heap k) (d # vs)"
      by (rule settled_first_of [OF s(1)]) (use sub subs_kid [OF G] in auto)
    have "\<exists>k'. advance_ring g start (addr d) k1 = Some (first_of (heap k1) (d # vs), k')
      \<and> moved T k1 k' \<and> (first_of (heap k1) (d # vs) = 0 \<longrightarrow> settled T k1 k' \<and> only_at (set (kid_addrs ts)) k1 k')
      \<and> (first_of (heap k1) (d # vs) \<noteq> 0 \<longrightarrow> has_quantum k' (first_of (heap k1) (d # vs)))"
      by (rule Cons.IH [where us = "us @ [c]"])
        (use settled_tree [OF s(1) Cons(2)] Cons(3-6) settled_limit [OF s(1)] in \<open>auto simp: hd_append\<close>)
    then obtain k' where k': "advance_ring g start (addr d) k1 = Some (first_of (heap k) (d # vs), k')"
        "moved T k1 k'" "first_of (heap k) (d # vs) = 0 \<longrightarrow> settled T k1 k' \<and> only_at (set (kid_addrs ts)) k1 k'"
        "first_of (heap k) (d # vs) \<noteq> 0 \<longrightarrow> has_quantum k' (first_of (heap k) (d # vs))"
      unfolding f1 by blast
    have "first_of (heap k) (c # d # vs) = first_of (heap k) (d # vs)"
      using first_of_Cons [of "heap k" c "d # vs"] True by simp
    moreover have "moved T k k'" using moved_trans [OF settled_moved [OF s(1)] k'(2)] .
    moreover have "first_of (heap k) (d # vs) = 0 \<longrightarrow> settled T k k' \<and> only_at (set (kid_addrs ts)) k k'"
      using k'(3) settled_trans [OF s(1)] only_at_trans [OF o] by blast
    ultimately show ?thesis
      using s(5) True k' by (intro exI [of _ k']) simp
  qed
qed

end
