(* ===== verification/RkPolicy.thy ===== *)
theory RkPolicy
  imports RkPick
begin

text \<open>
  The choice of the next leaf and the switch (\<^verbatim>\<open>advance_from\<close>, \<^verbatim>\<open>pick_next_leaf\<close>,
  \<^verbatim>\<open>schedule_next\<close> in \<^verbatim>\<open>src/scheduler.rs\<close>), and the tick that spends quanta
  (\<^verbatim>\<open>drain_current_path\<close>).  A \<open>lineage\<close> is a group with its ancestors up to the root;
  \<open>climb\<close> is the leaf that \<open>advance_from\<close> finds along it.
\<close>

section \<open>Lineages\<close>

fun lineage :: "ntree \<Rightarrow> ntree list \<Rightarrow> bool" where
  "lineage T [] = False"
| "lineage T [A] = (A = T)"
| "lineage T (A # B # As) = (A \<in> set (kids B) \<and> lineage T (B # As))"

lemma subs_kids: "B \<in> set (subs T) \<Longrightarrow> A \<in> set (kids B) \<Longrightarrow> A \<in> set (subs T)"
  by (cases B) (auto intro: subs_kid)

lemma lineage_sub: "lineage T As \<Longrightarrow> \<forall>A\<in>set As. A \<in> set (subs T)"
proof (induction T As rule: lineage.induct)
  case (3 T A B As)
  then have "B \<in> set (subs T)" "A \<in> set (kids B)" by auto
  then have "A \<in> set (subs T)" by (rule subs_kids)
  with 3 show ?case by simp
qed auto

lemma lineage_snoc: "lineage c As \<Longrightarrow> c \<in> set (kids T) \<Longrightarrow> lineage T (As @ [T])"
  by (induction c As rule: lineage.induct) auto

lemma lineage_ex: "S \<in> set (subs T) \<Longrightarrow> \<exists>As. lineage T (S # As)"
proof (induction T)
  case (LeafN a)
  then show ?case by (intro exI [of _ "[]"]) simp
next
  case (GroupN a ts)
  show ?case
  proof (cases "S = GroupN a ts")
    case True
    then show ?thesis by (intro exI [of _ "[]"]) simp
  next
    case False
    with GroupN.prems obtain c where c: "c \<in> set ts" "S \<in> set (subs c)" by auto
    from GroupN.IH [OF this] obtain As where "lineage c (S # As)" by blast
    from lineage_snoc [OF this, of "GroupN a ts"] c(1) show ?thesis
      by (intro exI [of _ "As @ [GroupN a ts]"]) simp
  qed
qed

lemma kid_addrs_len: "c \<in> set (kids B) \<Longrightarrow> length (addrs c) < length (addrs B)"
  by (cases B) (auto simp: in_set_conv_decomp)

lemma lineage_length: "lineage T (A # As) \<Longrightarrow> length (addrs A) + length As \<le> length (addrs T)"
proof (induction As arbitrary: A)
  case (Cons B As)
  then have "length (addrs A) < length (addrs B)" using kid_addrs_len by simp
  with Cons show ?case by fastforce
qed simp

lemma lineage_above: "distinct (addrs T) \<Longrightarrow> lineage T (A # As) \<Longrightarrow> X \<in> set As \<Longrightarrow> addr X \<notin> set (addrs A)"
proof (induction As arbitrary: A)
  case (Cons B As)
  then have B: "A \<in> set (kids B)" "lineage T (B # As)" "B \<in> set (subs T)"
    using lineage_sub [of T "B # As"] by auto
  then obtain b ts where b: "B = GroupN b ts" "A \<in> set ts" by (cases B) auto
  have "distinct (addrs B)" using subs_distinct [OF Cons.prems(1) B(3)] .
  then have "addr B \<notin> set (addrs A)" using b by auto
  moreover have "addr X \<notin> set (addrs A)" if "X \<in> set As"
    using Cons.IH [OF Cons.prems(1) B(2) that] b by auto
  ultimately show ?case using Cons.prems(3) by auto
qed simp

fun climb :: "tcb_heap \<Rightarrow> ntree list \<Rightarrow> ptr" where
  "climb h [] = null_ptr"
| "climb h (A # As) =
     (if first_of h (after (cursor h (addr A)) (kids A)) \<noteq> null_ptr
      then first_of h (after (cursor h (addr A)) (kids A)) else climb h As)"

lemma climb_cong:
  assumes "settled T k k'" and "\<forall>A\<in>set As. A \<in> set (subs T) \<and> cursor (heap k') (addr A) = cursor (heap k) (addr A)"
  shows "climb (heap k') As = climb (heap k) As"
  using assms(2)
proof (induction As)
  case (Cons A As)
  have "first_of (heap k') (after c (kids A)) = first_of (heap k) (after c (kids A))" for c
    by (rule settled_first_of [OF assms(1)])
      (use Cons.prems in \<open>cases A, auto intro: subs_kid\<close>)
  with Cons show ?case by simp
qed simp

text \<open>The place of an address in the order of a group.\<close>

lemma after_rot: "\<exists>xs ys. ts = xs @ ys \<and> after c ts = ys @ xs"
proof (cases "c \<in> addr ` set ts")
  case False
  then show ?thesis by (intro exI [of _ "[]"] exI [of _ ts]) (simp add: after_def)
next
  case True
  let ?u = "takeWhile (\<lambda>d. addr d \<noteq> c) ts" and ?v = "dropWhile (\<lambda>d. addr d \<noteq> c) ts"
  have "?v \<noteq> []"
  proof
    assume "?v = []"
    then have "\<forall>x\<in>set ts. addr x \<noteq> c" by (simp add: dropWhile_eq_Nil_conv)
    with True show False by auto
  qed
  then obtain d vs where v: "?v = d # vs" by (cases ?v) auto
  have "ts = (?u @ [d]) @ vs" using takeWhile_dropWhile_id [of "\<lambda>d. addr d \<noteq> c" ts] v by simp
  moreover have "after c ts = vs @ (?u @ [d])" using True v by (simp add: after_def turn_def)
  ultimately show ?thesis by blast
qed

lemma advance_level:
  assumes T: "tree_at (heap k) r T" and D: "distinct (addrs T)" and G: "GroupN a ts \<in> set (subs T)"
    and t: "rd k a = Some t"
    and L: "length (addrs T) \<le> unat (walk_limit k)" "unat (walk_limit k) < 2 ^ 32 - 1"
  shows "\<exists>l k1. is_linked k (children_head t) = Some l
    \<and> (if l then do { start \<leftarrow> advance_start a k; advance_ring a start start k } else Some (null_ptr, k))
      = Some (first_of (heap k) (after (cursor (heap k) a) ts), k1)
    \<and> moved T k k1
    \<and> (first_of (heap k) (after (cursor (heap k) a) ts) = 0 \<longrightarrow> settled T k k1 \<and> only_at (set (kid_addrs ts)) k k1)
    \<and> (first_of (heap k) (after (cursor (heap k) a) ts) \<noteq> 0
         \<longrightarrow> has_quantum k1 (first_of (heap k) (after (cursor (heap k) a) ts)))"
proof -
  from tree_at_sub [OF T G] obtain q where q: "tree_at (heap k) q (GroupN a ts)" by blast
  then have R: "ring_at (heap k) t (map addr ts)" using t by (auto simp: rd_def)
  show ?thesis
  proof (cases "ts = []")
    case True
    then show ?thesis
      using R by (intro exI [of _ False] exI [of _ k]) (simp add: ring_at_def is_linked_def first_of_def after_def)
  next
    case False
    then obtain d ds where ds: "ts = d # ds" by (cases ts) auto
    have l: "is_linked k (children_head t) = Some True"
      using ring_hd_linked [of k "addr d" "map addr ds"] R ds by (simp add: ring_at_def)
    obtain xs ys where xy: "ts = xs @ ys" "after (cursor (heap k) a) ts = ys @ xs"
      using after_rot by blast
    then obtain c vs where c: "ys @ xs = [] @ c # vs" using False by (cases "ys @ xs") auto
    have st: "advance_start a k = Some (addr c)"
      using advance_start_spec [OF q False] xy(2) c by simp
    from advance_ring_spec [OF D G xy(1) T c _ L, of "addr c"] obtain k1 where
      "advance_ring a (addr c) (addr c) k = Some (first_of (heap k) (c # vs), k1)"
      "moved T k k1" "first_of (heap k) (c # vs) = 0 \<longrightarrow> settled T k k1 \<and> only_at (set (kid_addrs ts)) k k1"
      "first_of (heap k) (c # vs) \<noteq> 0 \<longrightarrow> has_quantum k1 (first_of (heap k) (c # vs))"
      by auto
    with l st xy(2) c show ?thesis by (intro exI [of _ True] exI [of _ k1]) simp
  qed
qed

lemma only_at_cursor: "only_at A k k' \<Longrightarrow> b \<notin> A \<Longrightarrow> cursor (heap k') b = cursor (heap k) b"
  by (simp add: only_at_def cursor_def rd_def)

lemma moved_kernel:
  assumes "moved T k k'"
  shows "same_but_heap k k'" "walk_limit k' = walk_limit k" "root k' = root k" "nodes k' = nodes k"
    "current_tcb k' = current_tcb k" "h_runnable (heap k') a = h_runnable (heap k) a"
    "tree_at (heap k) r T \<Longrightarrow> tree_at (heap k') r T"
  using assms walk_limit_cong arm_only_runnable by (auto simp: moved_def same_but_heapD)

theorem advance_loop_spec:
  assumes D: "distinct (addrs T)"
  shows "tree_at (heap k) 0 T \<Longrightarrow> lineage T (A # As) \<Longrightarrow> (\<exists>a ts. A = GroupN a ts) \<Longrightarrow>
     unat depth + length (A # As) \<le> unat limit \<Longrightarrow> limit = walk_limit k \<Longrightarrow>
     length (addrs T) \<le> unat limit \<Longrightarrow> unat limit < 2 ^ 32 - 1 \<Longrightarrow>
   \<exists>k'. advance_loop limit depth (addr A) k = Some (climb (heap k) (A # As), k') \<and> moved T k k'
     \<and> (climb (heap k) (A # As) \<noteq> 0 \<longrightarrow> has_quantum k' (climb (heap k) (A # As)))"
proof (induction As arbitrary: A k depth)
  case Nil
  then obtain a ts where A: "A = GroupN a ts" "T = GroupN a ts" by auto
  have G: "GroupN a ts \<in> set (subs T)" using A(2) subs_self by metis
  have T: "tree_at (heap k) 0 (GroupN a ts)" using Nil.prems(1) A(2) by (simp only:)
  then obtain t where t: "rd k a = Some t" by (auto simp: rd_def)
  let ?f = "first_of (heap k) (after (cursor (heap k) a) ts)"
  from advance_level [OF Nil.prems(1) D G t] Nil.prems(5-7) obtain l k1 where
    k1: "is_linked k (children_head t) = Some l"
     "(if l then do { start \<leftarrow> advance_start a k; advance_ring a start start k } else Some (null_ptr, k))
      = Some (?f, k1)"
    "moved T k k1" "?f \<noteq> 0 \<longrightarrow> has_quantum k1 ?f" by auto
  have "tree_at (heap k1) 0 (GroupN a ts)"
    using moved_kernel(7) [OF k1(3) Nil.prems(1)] A(2) by (simp only:)
  then obtain t' where t': "rd k1 a = Some t'" "parent t' = 0" by (auto simp: rd_def)
  have dep: "\<not> depth + 1 > limit"
    using Nil.prems(4,7) by (simp add: word_less_nat_alt unat_Suc_small)
  have "advance_loop limit (depth + 1) 0 k1 = Some (0, k1)"
    by (subst advance_loop.simps) simp
  then have "advance_loop limit depth a k = Some (?f, k1)"
    using k1(1,2) t t' dep rd_nonnull [OF t]
    by (subst advance_loop.simps) simp
  with k1 A(1) show ?case by (intro exI [of _ k1]) simp
next
  case (Cons B As)
  then obtain a ts where A: "A = GroupN a ts" by blast
  have lin: "A \<in> set (kids B)" "lineage T (B # As)" using Cons.prems(2) by auto
  have AT: "A \<in> set (subs T)" "B \<in> set (subs T)" using lineage_sub [OF Cons.prems(2)] by auto
  have G: "GroupN a ts \<in> set (subs T)" using AT A by simp
  obtain bts where B: "B = GroupN (addr B) bts" using lin(1) by (cases B) auto
  from tree_at_sub [OF Cons.prems(1) G] obtain t where t: "rd k a = Some t" by (auto simp: rd_def)
  let ?f = "first_of (heap k) (after (cursor (heap k) a) ts)"
  from advance_level [OF Cons.prems(1) D G t] Cons.prems(5-7) obtain l k1 where
    k1: "is_linked k (children_head t) = Some l"
     "(if l then do { start \<leftarrow> advance_start a k; advance_ring a start start k } else Some (null_ptr, k))
      = Some (?f, k1)"
    "moved T k k1" "?f = 0 \<longrightarrow> settled T k k1 \<and> only_at (set (kid_addrs ts)) k k1"
    "?f \<noteq> 0 \<longrightarrow> has_quantum k1 ?f" by auto
  have T1: "tree_at (heap k1) 0 T" using moved_kernel(7) [OF k1(3) Cons.prems(1)] .
  have par: "\<exists>t'. rd k1 a = Some t' \<and> parent t' = addr B"
  proof -
    from tree_at_sub [OF T1 AT(2)] obtain q where "tree_at (heap k1) q B" by blast
    then have "tree_at (heap k1) (addr B) A" using B lin(1) by (metis tree_at_kid kids.simps(2))
    from tree_at_rd [OF this] A show ?thesis by (simp add: rd_def)
  qed
  then obtain t' where t': "rd k1 a = Some t'" "parent t' = addr B" by blast
  have dep: "\<not> depth + 1 > limit" "unat (depth + 1) = unat depth + 1"
    using Cons.prems(4,7) by (simp_all add: word_less_nat_alt unat_Suc_small)
  have step: "advance_loop limit depth a k =
      (if ?f \<noteq> 0 then Some (?f, k1) else advance_loop limit (depth + 1) (addr B) k1)"
    using k1(1,2) t t' dep rd_nonnull [OF t]
    by (subst advance_loop.simps) simp
  show ?case
  proof (cases "?f = 0")
    case False
    with step k1 A show ?thesis by (intro exI [of _ k1]) simp
  next
    case True
    with k1(4) have s: "settled T k k1" "only_at (set (kid_addrs ts)) k k1" by auto
    have cl: "climb (heap k1) (B # As) = climb (heap k) (B # As)"
    proof (rule climb_cong [OF s(1)], intro ballI conjI)
      fix X assume X: "X \<in> set (B # As)"
      then show "X \<in> set (subs T)" using lineage_sub [OF Cons.prems(2)] by auto
      have "addr X \<notin> set (addrs A)" using lineage_above [OF D Cons.prems(2) X] .
      then show "cursor (heap k1) (addr X) = cursor (heap k) (addr X)"
        using only_at_cursor [OF s(2)] A by simp
    qed
    have "\<exists>k'. advance_loop limit (depth + 1) (addr B) k1 = Some (climb (heap k1) (B # As), k') \<and> moved T k1 k'
      \<and> (climb (heap k1) (B # As) \<noteq> 0 \<longrightarrow> has_quantum k' (climb (heap k1) (B # As)))"
      by (rule Cons.IH [OF T1 lin(2)])
        (use B Cons.prems(4-7) dep moved_kernel(2) [OF k1(3)] in auto)
    then obtain k' where k': "advance_loop limit (depth + 1) (addr B) k1 = Some (climb (heap k) (B # As), k')"
        "moved T k1 k'" "climb (heap k) (B # As) \<noteq> 0 \<longrightarrow> has_quantum k' (climb (heap k) (B # As))"
      unfolding cl by blast
    have "climb (heap k) (A # B # As) = climb (heap k) (B # As)"
      using True A by (subst climb.simps(2)) simp
    with step True A moved_trans [OF k1(3) k'(2)] k' show ?thesis
      by (intro exI [of _ k']) simp
  qed
qed

lemma climb_in:
  assumes "climb h As \<noteq> 0" and "\<forall>A\<in>set As. A \<in> set (subs T)"
  shows "LeafN (climb h As) \<in> set (subs T) \<and> h_runnable h (climb h As)"
  using assms
proof (induction As)
  case (Cons A As)
  show ?case
  proof (cases "first_of h (after (cursor h (addr A)) (kids A)) = 0")
    case True
    with Cons show ?thesis by simp
  next
    case False
    from first_of_in [OF False] obtain c where c: "c \<in> set (kids A)"
      "LeafN (first_of h (after (cursor h (addr A)) (kids A))) \<in> set (subs c)"
      "h_runnable h (first_of h (after (cursor h (addr A)) (kids A)))" by auto
    have "c \<in> set (subs T)" using subs_kids [of A T c] c(1) Cons.prems(2) by simp
    with subs_trans c False show ?thesis by auto
  qed
qed simp

lemma tree_ok_limits:
  assumes "tree_ok k T"
  shows "length (addrs T) \<le> unat (walk_limit k)" "unat (walk_limit k) < 2 ^ 32 - 1"
    "distinct (addrs T)" "tree_at (heap k) 0 T" "length (addrs T) + 2 \<le> unat (walk_limit k)"
  using assms by (auto simp: tree_ok_def unat_walk_limit)

theorem advance_from_spec:
  assumes ok: "tree_ok k T" and lin: "lineage T (GroupN a ts # As)"
  shows "\<exists>k'. advance_from a k = Some (climb (heap k) (GroupN a ts # As), k') \<and> moved T k k'
     \<and> (climb (heap k) (GroupN a ts # As) \<noteq> 0 \<longrightarrow> has_quantum k' (climb (heap k) (GroupN a ts # As)))"
proof -
  note lim = tree_ok_limits [OF ok]
  have "unat (0 :: u32) + length (GroupN a ts # As) \<le> unat (walk_limit k)"
    using lineage_length [OF lin] lim(5) by simp
  from advance_loop_spec [OF lim(3,4) lin _ this refl lim(1,2)] show ?thesis
    by (simp add: advance_from_def)
qed

section \<open>The running path\<close>

definition spent :: "kernel \<Rightarrow> ptr \<Rightarrow> bool" where
  "spent k a = (case rd k a of None \<Rightarrow> False | Some t \<Rightarrow> remaining_cycles t = 0)"

lemma lineage_rd:
  assumes "tree_at (heap k) 0 T" and "lineage T (A # As)"
  shows "\<exists>t. rd k (addr A) = Some t \<and> parent t = (case As of [] \<Rightarrow> 0 | B # _ \<Rightarrow> addr B)"
proof (cases As)
  case Nil
  with assms tree_at_rd [OF assms(1)] show ?thesis by (auto simp: rd_def)
next
  case (Cons B Bs)
  then have B: "B \<in> set (subs T)" "A \<in> set (kids B)"
    using assms(2) lineage_sub [OF assms(2)] by auto
  obtain b ts where b0: "B = GroupN b ts" using B(2) by (cases B) auto
  with B have b: "B = GroupN b ts" "A \<in> set ts" "GroupN b ts \<in> set (subs T)" by auto
  from tree_at_sub [OF assms(1) b(3)] have "tree_at (heap k) b A" using b(2) by auto
  from tree_at_rd [OF this] b Cons show ?thesis by (auto simp: rd_def)
qed

lemma lineage_tl: "lineage T (A # B # As) \<Longrightarrow> lineage T (B # As)"
  by simp

theorem outermost_loop_spec:
  assumes "tree_at (heap k) 0 T"
  shows "lineage T (A # As) \<Longrightarrow> unat depth + length (A # As) \<le> unat limit \<Longrightarrow> unat limit < 2 ^ 32 - 1 \<Longrightarrow>
    outermost_loop k limit depth found (addr A)
      = Some (last (found # filter (spent k) (map addr (A # As))))"
proof (induction As arbitrary: A depth found)
  case Nil
  from lineage_rd [OF assms Nil(1)] obtain t where t: "rd k (addr A) = Some t" "parent t = 0" by auto
  have dep: "\<not> depth + 1 > limit"
    using Nil.prems(2,3) by (simp add: word_less_nat_alt unat_Suc_small)
  have base: "outermost_loop k limit d x 0 = Some x" for d x
    by (subst outermost_loop.simps) simp
  show ?case
    using t dep base rd_nonnull [OF t(1)]
    by (subst outermost_loop.simps) (simp add: spent_def)
next
  case (Cons B As)
  from lineage_rd [OF assms Cons.prems(1)] obtain t where t: "rd k (addr A) = Some t" "parent t = addr B" by auto
  have dep: "\<not> depth + 1 > limit" "unat (depth + 1) = unat depth + 1"
    using Cons.prems(2,3) by (simp_all add: word_less_nat_alt unat_Suc_small)
  have "outermost_loop k limit (depth + 1) x (addr B)
      = Some (last (x # filter (spent k) (map addr (B # As))))" for x
    by (rule Cons.IH [OF lineage_tl [OF Cons.prems(1)]]) (use dep Cons.prems in simp_all)
  then show ?case
    using t dep rd_nonnull [OF t(1)]
    by (subst outermost_loop.simps) (simp add: spent_def)
qed

theorem outermost_exhausted_spec:
  assumes ok: "tree_ok k T" and lin: "lineage T (A # As)"
  shows "outermost_exhausted (addr A) k = Some (last (0 # filter (spent k) (map addr (A # As))))"
proof -
  note lim = tree_ok_limits [OF ok]
  have "unat (0 :: u32) + length (A # As) \<le> unat (walk_limit k)"
    using lineage_length [OF lin] lim(5) by simp
  from outermost_loop_spec [OF lim(4) lin this lim(2)] show ?thesis
    by (simp add: outermost_exhausted_def)
qed

lemma last_filter_split:
  assumes "last (0 # filter P xs) = z" and "z \<noteq> 0"
  shows "\<exists>us vs. xs = us @ z # vs \<and> P z \<and> filter P vs = []"
proof -
  from assms have ne: "filter P xs \<noteq> []" by (cases "filter P xs") auto
  then have "z = last (filter P xs)" using assms(1) by simp
  with append_butlast_last_id [OF ne] have "filter P xs = butlast (filter P xs) @ z # []" by simp
  from filter_split [OF this] show ?thesis by auto
qed

lemma lineage_root: "lineage T As \<Longrightarrow> T \<in> set As"
  by (induction T As rule: lineage.induct) auto

lemma lineage_drop: "lineage T (Ps @ Z # Bs) \<Longrightarrow> lineage T (Z # Bs)"
proof (induction Ps)
  case (Cons P Ps)
  then show ?case by (cases "Ps @ Z # Bs") auto
qed simp

lemma lineage_below: "lineage T (P # Ps @ Z # Bs) \<Longrightarrow> P \<in> set (subs Z)"
proof (induction Ps arbitrary: P)
  case Nil
  then show ?case by (cases Z) (auto intro: bexI [of _ P])
next
  case (Cons Q Ps)
  then have "Q \<in> set (subs Z)" "P \<in> set (kids Q)" by auto
  then show ?case by (rule subs_kids)
qed

theorem spent_loop_spec:
  assumes D: "distinct (addrs T)"
  shows "tree_at (heap k) 0 T \<Longrightarrow> lineage T (Ps @ Z # Bs) \<Longrightarrow>
     unat guard + length Ps \<le> unat limit \<Longrightarrow> unat limit < 2 ^ 32 - 1 \<Longrightarrow>
     \<exists>k'. spent_loop limit guard (addr Z) (addr (hd (Ps @ [Z]))) k = Some k'
       \<and> moved T k k' \<and> only_at (set (addrs Z)) k k'"
proof (induction Ps arbitrary: k guard)
  case Nil
  then show ?case by (intro exI [of _ k], subst spent_loop.simps) simp
next
  case (Cons P Ps)
  obtain Q Qs where Q: "Ps @ Z # Bs = Q # Qs" by (cases "Ps @ Z # Bs") auto
  have QZ: "Q = hd (Ps @ [Z])" using Q by (cases Ps) auto
  have lin: "P \<in> set (kids Q)" "lineage T (Q # Qs)" "lineage T (P # Q # Qs)"
    using Cons.prems(2) Q by auto
  obtain q ts where q: "Q = GroupN q ts" using lin(1) by (cases Q) auto
  have G: "GroupN q ts \<in> set (subs T)" using lineage_sub [OF lin(2)] q by auto
  have QinZ: "Q \<in> set (subs Z)"
    using lineage_below [of T Q] lin(2) Q by (cases Ps) auto
  then have qA: "q \<in> set (addrs Z)" using subs_addr q by (metis addr.simps(2))
  from tree_at_sub [OF Cons.prems(1) G] obtain r where r: "tree_at (heap k) r (GroupN q ts)" by blast
  obtain us vs where uv: "ts = us @ P # vs" using lin(1) q by (auto simp: in_set_conv_decomp)
  from kid_next [OF r uv] obtain t where t: "rd k (addr P) = Some t" "parent t = q" by (auto simp: rd_def)
  from r obtain gt where gt: "rd k q = Some gt" "ring_at (heap k) gt (map addr ts)" by (auto simp: rd_def)
  have q0: "q \<noteq> 0" using rd_nonnull [OF gt(1)] .
  have R: "ring (heap k) (addr P # map addr (vs @ us))"
  proof -
    have "ring (heap k) (map addr us @ addr P # map addr vs)"
      using gt(2) uv by (simp add: ring_at_def)
    from ring_rotate [OF this] show ?thesis by simp
  qed
  let ?n = "or_null (List.find (h_runnable (heap k)) (map addr (vs @ us) @ [addr P]))"
  have nr: "next_runnable (heap k) (addr P) = Some ?n" by (rule next_runnable_ring [OF R])
  have n: "?n = 0 \<or> (\<exists>s. rd k ?n = Some s \<and> parent s = q \<and> ?n \<in> addr ` set ts)"
  proof (cases "List.find (h_runnable (heap k)) (map addr (vs @ us) @ [addr P])")
    case None
    then show ?thesis by (simp add: or_null_def)
  next
    case (Some x)
    then obtain c where c: "c \<in> set ts" "addr c = x"
      using find_SomeD [OF Some] uv by auto
    from tree_at_rd [of "heap k" q c] r c obtain s where "rd k x = Some s" "parent s = q"
      by (auto simp: rd_def)
    with Some c show ?thesis by (auto simp: or_null_def)
  qed
  have ne: "addr P \<noteq> addr Z"
  proof
    assume "addr P = addr Z"
    have "Z \<in> set (Q # Qs)" using Q by (metis in_set_conv_decomp)
    with lineage_above [OF D lin(3), of Z] \<open>addr P = addr Z\<close> show False
      by (metis addr_in_addrs)
  qed
  have g: "guard \<le> limit" "unat (guard + 1) = unat guard + 1"
    using Cons.prems(3,4) by (simp_all add: word_le_nat_alt unat_Suc_small)
  define k1 where "k1 = (if remaining_cycles t = 0 \<and> ?n \<noteq> 0 then put q (gt\<lparr>current_child := ?n\<rparr>) k else k)"
  have m1: "moved T k k1"
    using moved_cursor [OF D G gt(1), of ?n] n by (auto simp: k1_def)
  have o1: "only_at (set (addrs Z)) k k1"
    using qA q0 by (simp add: k1_def only_at_put)
  have t1: "\<exists>t'. rd k1 (addr P) = Some t' \<and> parent t' = q"
    using t gt q0 by (auto simp: k1_def rd_put)
  then obtain t' where t': "rd k1 (addr P) = Some t'" "parent t' = q" by blast
  have "\<exists>k'. spent_loop limit (guard + 1) (addr Z) (addr (hd (Ps @ [Z]))) k1 = Some k'
       \<and> moved T k1 k' \<and> only_at (set (addrs Z)) k1 k'"
    by (rule Cons.IH [OF moved_kernel(7) [OF m1 Cons.prems(1)]])
      (use lin(2) Q g Cons.prems(3,4) in simp_all)
  then obtain k' where k': "spent_loop limit (guard + 1) (addr Z) q k1 = Some k'"
      "moved T k1 k'" "only_at (set (addrs Z)) k1 k'"
    unfolding QZ [symmetric] q addr.simps by blast
  have "spent_loop limit guard (addr Z) (addr P) k = Some k'"
    using t ne g(1) nr n gt(1) q0 rd_nonnull [OF t(1)] t' k'(1)
    by (subst spent_loop.simps) (auto simp: k1_def upd_put)
  then show ?case
    using moved_trans [OF m1 k'(2)] only_at_trans [OF o1 k'(3)] by (intro exI [of _ k']) simp
qed

section \<open>The next leaf\<close>

text \<open>What every choice guarantees.\<close>

definition picked :: "ntree \<Rightarrow> kernel \<Rightarrow> ptr \<Rightarrow> kernel \<Rightarrow> bool" where
  "picked T k leaf k' = (moved T k k' \<and>
     (leaf \<noteq> 0 \<longrightarrow> LeafN leaf \<in> set (subs T) \<and> h_runnable (heap k) leaf \<and> has_quantum k' leaf))"

lemma pickedI_climb:
  assumes "moved T k k1" and "moved T k1 k'" and "lineage T As"
    and "climb (heap k1) As \<noteq> 0 \<longrightarrow> has_quantum k' (climb (heap k1) As)"
  shows "picked T k (climb (heap k1) As) k'"
  using climb_in [of "heap k1" As T] lineage_sub [OF assms(3)] assms(4)
    moved_trans [OF assms(1,2)] moved_kernel(6) [OF assms(1)]
  by (auto simp: picked_def)

lemma tree_ok_group: "tree_ok k T \<Longrightarrow> \<exists>ts. T = GroupN (root k) ts"
  by (auto simp: tree_ok_def)

lemma tree_ok_root: "tree_ok k T \<Longrightarrow> root k \<noteq> 0"
  by (elim tree_okD) simp

theorem pick_fresh:
  assumes ok: "tree_ok k T"
  shows "\<exists>k'. pick_next_leaf 0 k
      = Some (if first_leaf (heap k) T \<noteq> 0 then first_leaf (heap k) T else climb (heap k) [T], k')
    \<and> picked T k (if first_leaf (heap k) T \<noteq> 0 then first_leaf (heap k) T else climb (heap k) [T]) k'"
proof -
  note lim = tree_ok_limits [OF ok]
  from tree_ok_group [OF ok] obtain ts where T: "T = GroupN (root k) ts" by blast
  have G: "GroupN (root k) ts \<in> set (subs T)" using T subs_self by metis
  have r0: "root k \<noteq> 0" by (rule tree_ok_root [OF ok])
  have dist: "distinct (map addr ts)" using lim(3) T by (metis distinct_map_addr addrs.simps(2) distinct.simps(2))
  have tT: "tree_at (heap k) 0 (GroupN (root k) ts)" using lim(4) T by metis
  have rc: "resume_child (root k) k = Some (addr_or_null (choice (heap k) (root k) ts))"
    by (rule resume_child_spec [OF tT dist])
  have lin: "lineage T [GroupN (root k) ts]" using T by (metis lineage.simps(2))
  have fT: "first_leaf (heap k) T = (case choice (heap k) (root k) ts of None \<Rightarrow> 0 | Some c \<Rightarrow> first_leaf (heap k) c)"
    using T by (metis first_leaf.simps(2))
  show ?thesis
  proof (cases "choice (heap k) (root k) ts")
    case None
    have d: "descend_and_arm 0 k = Some (0, k)"
      by (simp add: descend_and_arm_def descend_loop.simps runnable_def)
    from advance_from_spec [OF ok lin] obtain k' where k': "advance_from (root k) k = Some (climb (heap k) [T], k')"
      "moved T k k'" "climb (heap k) [T] \<noteq> 0 \<longrightarrow> has_quantum k' (climb (heap k) [T])"
      using T by metis
    have "picked T k (climb (heap k) [T]) k'"
      by (rule pickedI_climb [OF moved_refl k'(2) _ k'(3)]) simp
    moreover have "pick_next_leaf 0 k = Some (climb (heap k) [T], k')"
      using r0 rc None d k'(1) by (simp add: pick_next_leaf_def addr_or_null_def)
    ultimately show ?thesis using fT None by (intro exI [of _ k']) simp
  next
    case (Some c)
    have c: "c \<in> set ts" "c \<in> set (subs T)" using choice_in [OF Some] subs_kid [OF G] by auto
    have "length (addrs c) \<le> length (addrs T)"
      using kid_addrs_len [of c "GroupN (root k) ts"] c(1) T by (metis kids.simps(2) less_imp_le)
    then have "unat (0 :: u32) + length (addrs c) \<le> unat (walk_limit k)" using lim by simp
    from descend_spec [OF lim(4,3) c(2) this lim(2)] obtain k1 where
      k1: "descend_and_arm (addr c) k = Some (first_leaf (heap k) c, k1)" "settled T k k1"
        "only_at (set (addrs c)) k k1"
        "first_leaf (heap k) c \<noteq> 0 \<longrightarrow> has_quantum k1 (first_leaf (heap k) c)"
      by (auto simp: descend_and_arm_def)
    show ?thesis
    proof (cases "first_leaf (heap k) c = 0")
      case False
      have "pick_next_leaf 0 k = Some (first_leaf (heap k) c, k1)"
        using r0 rc Some k1(1) False by (simp add: pick_next_leaf_def addr_or_null_def)
      moreover have "picked T k (first_leaf (heap k) c) k1"
        using first_leaf_in [OF False] subs_trans [OF c(2)] settled_moved [OF k1(2)] k1(4) False
        by (simp add: picked_def)
      ultimately show ?thesis using fT Some False by (intro exI [of _ k1]) simp
    next
      case True
      have m1: "moved T k k1" using settled_moved [OF k1(2)] .
      have ok1: "tree_ok k1 T" using moved_tree_ok [OF m1 ok] .
      have root1: "root k1 = root k" using moved_kernel(3) [OF m1] .
      from advance_from_spec [OF ok1 lin] obtain k' where k': "advance_from (root k) k1 = Some (climb (heap k1) [T], k')"
        "moved T k1 k'" "climb (heap k1) [T] \<noteq> 0 \<longrightarrow> has_quantum k' (climb (heap k1) [T])"
        using T by metis
      have "root k \<notin> set (addrs c)"
      proof -
        have "distinct (addrs (GroupN (root k) ts))" using lim(3) T by metis
        with c(1) show ?thesis by auto
      qed
      moreover have "addr T = root k" using T by (metis addr.simps(2))
      ultimately have cl: "climb (heap k1) [T] = climb (heap k) [T]"
        by (intro climb_cong [OF k1(2)]) (simp add: only_at_cursor [OF k1(3)])
      have "picked T k (climb (heap k1) [T]) k'"
        by (rule pickedI_climb [OF m1 k'(2) _ k'(3)]) simp
      moreover have "pick_next_leaf 0 k = Some (climb (heap k1) [T], k')"
        using r0 rc Some k1(1) True root1 k'(1) by (simp add: pick_next_leaf_def addr_or_null_def)
      ultimately show ?thesis using fT Some True cl by (intro exI [of _ k']) simp
    qed
  qed
qed

text \<open>Mid-slice: as long as no quantum on its path is spent, the running leaf keeps the CPU.\<close>

theorem pick_resume:
  assumes ok: "tree_ok k T" and lin: "lineage T (LeafN cur # As)"
    and fresh: "\<forall>A\<in>set (LeafN cur # As). \<not> spent k (addr A)" and run: "h_runnable (heap k) cur"
  shows "pick_next_leaf cur k = Some (cur, k)"
proof -
  have "outermost_exhausted cur k = Some 0"
    using outermost_exhausted_spec [OF ok lin] fresh by (simp add: filter_empty_conv)
  moreover have "runnable k cur = Some True"
    using run by (subst runnable_eq) (auto simp: h_runnable_def rd_def split: option.splits)
  moreover have "cur \<noteq> 0" using run by auto
  ultimately show ?thesis
    using tree_ok_root [OF ok] by (simp add: pick_next_leaf_def)
qed

theorem pick_blocked:
  assumes ok: "tree_ok k T" and lin: "lineage T (LeafN cur # As)"
    and fresh: "\<forall>A\<in>set (LeafN cur # As). \<not> spent k (addr A)" and run: "\<not> h_runnable (heap k) cur"
  shows "\<exists>k'. pick_next_leaf cur k = Some (climb (heap k) [T], k') \<and> picked T k (climb (heap k) [T]) k'"
proof -
  from tree_ok_group [OF ok] obtain ts where T: "T = GroupN (root k) ts" by blast
  have lT: "lineage T [GroupN (root k) ts]" using T by (metis lineage.simps(2))
  from lineage_rd [OF tree_ok_limits(4) [OF ok] lin] obtain t where t: "rd k cur = Some t" by auto
  have "outermost_exhausted cur k = Some 0"
    using outermost_exhausted_spec [OF ok lin] fresh by (simp add: filter_empty_conv)
  moreover have "runnable k cur = Some False"
    using run t by (subst runnable_eq) auto
  moreover from advance_from_spec [OF ok lT] obtain k' where
    k': "advance_from (root k) k = Some (climb (heap k) [T], k')" "moved T k k'"
      "climb (heap k) [T] \<noteq> 0 \<longrightarrow> has_quantum k' (climb (heap k) [T])" using T by metis
  moreover have "picked T k (climb (heap k) [T]) k'"
    by (rule pickedI_climb [OF moved_refl k'(2) _ k'(3)]) simp
  ultimately show ?thesis
    using tree_ok_root [OF ok] rd_nonnull [OF t]
    by (intro exI [of _ k']) (simp add: pick_next_leaf_def)
qed

text \<open>
  A spent quantum: the outermost spent node \<open>Z\<close> on the path loses the CPU, and the leaf is
  found by climbing from the group above it (from the root, when \<open>Z\<close> is the root itself).
\<close>

theorem pick_spent:
  assumes ok: "tree_ok k T" and lin: "lineage T (Ps @ Z # Bs)" and path: "Ps @ Z # Bs = LeafN cur # As"
    and sp: "spent k (addr Z)" and above: "\<forall>B\<in>set Bs. \<not> spent k (addr B)"
  shows "\<exists>k1 k'. moved T k k1 \<and> only_at (set (addrs Z)) k k1
    \<and> pick_next_leaf cur k = Some (climb (heap k1) (if Bs = [] then [T] else Bs), k')
    \<and> picked T k (climb (heap k1) (if Bs = [] then [T] else Bs)) k'"
proof -
  note lim = tree_ok_limits [OF ok]
  from tree_ok_group [OF ok] obtain ts where T: "T = GroupN (root k) ts" by blast
  have lin2: "lineage T (LeafN cur # As)" using lin path by simp
  have linZ: "lineage T (Z # Bs)" using lineage_drop [OF lin] .
  from lineage_rd [OF lim(4) linZ] obtain z where z: "rd k (addr Z) = Some z" by auto
  have z0: "addr Z \<noteq> 0" using rd_nonnull [OF z] .
  have f0: "filter (spent k) (map addr Bs) = []" using above by (simp add: filter_empty_conv)
  have out: "outermost_exhausted cur k = Some (addr Z)"
  proof -
    have "outermost_exhausted cur k = Some (last (0 # filter (spent k) (map addr (LeafN cur # As))))"
      using outermost_exhausted_spec [OF ok lin2] by simp
    also have "map addr (LeafN cur # As) = map addr Ps @ addr Z # map addr Bs"
      using arg_cong [OF path, of "map addr"] by simp
    finally show ?thesis using sp f0 by simp
  qed
  from lineage_rd [OF lim(4) lin2] obtain c where c: "rd k cur = Some c" by auto
  have hd: "addr (hd (Ps @ [Z])) = cur"
    using path by (cases Ps) auto
  have "length (LeafN cur # As) \<le> length (addrs T)"
    using lineage_length [OF lin2] by simp
  then have "length (Ps @ Z # Bs) \<le> length (addrs T)" using path by simp
  then have "unat (0 :: u32) + length Ps \<le> unat (walk_limit k)" using lim(1) by simp
  from spent_loop_spec [OF lim(3,4) lin this lim(2)] hd obtain k1 where
    k1: "spent_loop (walk_limit k) 0 (addr Z) cur k = Some k1" "moved T k k1" "only_at (set (addrs Z)) k k1"
    by auto
  have ok1: "tree_ok k1 T" using moved_tree_ok [OF k1(2) ok] .
  have root1: "root k1 = root k" using moved_kernel(3) [OF k1(2)] .
  have par: "\<exists>z1. rd k1 (addr Z) = Some z1 \<and> parent z1 = (case Bs of [] \<Rightarrow> 0 | B # _ \<Rightarrow> addr B)"
    using lineage_rd [OF tree_ok_limits(4) [OF ok1] linZ] .
  show ?thesis
  proof (cases Bs)
    case Nil
    then have ZT: "Z = T" using linZ by simp
    then have "addr Z = root k" using T by (metis addr.simps(2))
    have lT: "lineage T [GroupN (root k) ts]" using T by (metis lineage.simps(2))
    from advance_from_spec [OF ok1 lT] obtain k' where
      k': "advance_from (root k) k1 = Some (climb (heap k1) [T], k')" "moved T k1 k'"
        "climb (heap k1) [T] \<noteq> 0 \<longrightarrow> has_quantum k' (climb (heap k1) [T])" using T by metis
    have "picked T k (climb (heap k1) [T]) k'"
      by (rule pickedI_climb [OF k1(2) k'(2) _ k'(3)]) simp
    moreover have "pick_next_leaf cur k = Some (climb (heap k1) [T], k')"
      using tree_ok_root [OF ok] rd_nonnull [OF c] out z0 k1(1) \<open>addr Z = root k\<close> root1 k'(1)
      by (simp add: pick_next_leaf_def)
    ultimately show ?thesis using Nil k1 by (intro exI [of _ k1] exI [of _ k']) simp
  next
    case (Cons B Bs')
    then have linB: "lineage T (B # Bs')" "Z \<in> set (kids B)" using linZ by auto
    obtain b bts where b: "B = GroupN b bts" using linB(2) by (cases B) auto
    have b0: "b \<noteq> 0"
      using lineage_rd [OF lim(4) linB(1)] b by (auto simp: rd_def dest: rdh_SomeD)
    have ZnT: "addr Z \<noteq> root k"
    proof
      assume "addr Z = root k"
      moreover have "T \<in> set Bs"
        using lineage_root [OF linB(1)] Cons by simp
      ultimately show False
        using lineage_above [OF lim(3) linZ, of T] T by (metis addr.simps(2) addr_in_addrs)
    qed
    from advance_from_spec [OF ok1 linB(1) [unfolded b]] obtain k' where
      k': "advance_from b k1 = Some (climb (heap k1) (B # Bs'), k')" "moved T k1 k'"
        "climb (heap k1) (B # Bs') \<noteq> 0 \<longrightarrow> has_quantum k' (climb (heap k1) (B # Bs'))"
      using b by metis
    have "picked T k (climb (heap k1) (B # Bs')) k'"
      by (rule pickedI_climb [OF k1(2) k'(2) linB(1) k'(3)])
    moreover have "pick_next_leaf cur k = Some (climb (heap k1) (B # Bs'), k')"
      using tree_ok_root [OF ok] rd_nonnull [OF c] out z0 k1(1) ZnT root1 k'(1) par Cons b b0
      by (auto simp: pick_next_leaf_def)
    ultimately show ?thesis using Cons k1 by (intro exI [of _ k1] exI [of _ k']) simp
  qed
qed

text \<open>In every case.\<close>

theorem pick_next_leaf_safe:
  assumes ok: "tree_ok k T" and cur: "cur = 0 \<or> LeafN cur \<in> set (subs T)"
  shows "\<exists>leaf k'. pick_next_leaf cur k = Some (leaf, k') \<and> picked T k leaf k'"
proof (cases "cur = 0")
  case True
  with pick_fresh [OF ok] show ?thesis by blast
next
  case False
  with cur have "LeafN cur \<in> set (subs T)" by simp
  from lineage_ex [OF this] obtain As where lin: "lineage T (LeafN cur # As)" by blast
  show ?thesis
  proof (cases "\<forall>A\<in>set (LeafN cur # As). \<not> spent k (addr A)")
    case True
    show ?thesis
    proof (cases "h_runnable (heap k) cur")
      case run: True
      have "has_quantum k cur"
        using True lineage_rd [OF tree_ok_limits(4) [OF ok] lin]
        by (auto simp: has_quantum_def spent_def)
      with pick_resume [OF ok lin True run] run \<open>LeafN cur \<in> set (subs T)\<close> show ?thesis
        by (intro exI [of _ cur] exI [of _ k]) (simp add: picked_def)
    next
      case False
      from pick_blocked [OF ok lin True False] show ?thesis by blast
    qed
  next
    case False
    then obtain Ps Z Bs where p: "Ps @ Z # Bs = LeafN cur # As" "spent k (addr Z)"
        "\<forall>B\<in>set Bs. \<not> spent k (addr B)"
      using split_list_last_prop [of "LeafN cur # As" "\<lambda>A. spent k (addr A)"] by auto
    have "lineage T (Ps @ Z # Bs)" using lin p(1) by simp
    from pick_spent [OF ok this p] show ?thesis by blast
  qed
qed

end
