(* ===== verification/RkSwitch.thy ===== *)
theory RkSwitch
  imports RkPolicy
begin

text \<open>
  \<^verbatim>\<open>schedule_next\<close> and \<^verbatim>\<open>on_tick\<close> of \<^verbatim>\<open>src/scheduler.rs\<close> under the kernel's
  invariants: the tree (\<open>tree_ok\<close>), the current task is a leaf (\<open>cur_ok\<close>), and only the
  current task is \<open>Running\<close> (\<open>one_running\<close>).
\<close>

definition cur_ok :: "kernel \<Rightarrow> bool" where
  "cur_ok k = (current_tcb k = 0 \<or> (\<exists>t. rd k (current_tcb k) = Some t \<and> kind t = Leaf))"

definition one_running :: "kernel \<Rightarrow> bool" where
  "one_running k = (\<forall>a t. rd k a = Some t \<longrightarrow> st t = Running \<longrightarrow> a = current_tcb k \<and> nxt t \<noteq> 0)"

definition kernel_ok :: "kernel \<Rightarrow> ntree \<Rightarrow> bool" where
  "kernel_ok k T = (tree_ok k T \<and> cur_ok k \<and> one_running k)"

lemma subs_kinds: "tree_at h p T \<Longrightarrow> a \<in> set (addrs T) \<Longrightarrow> rdh h a = Some t \<Longrightarrow> kind t = Leaf
    \<Longrightarrow> LeafN a \<in> set (subs T)"
  by (induction T arbitrary: p) auto

lemma leaf_linked:
  assumes "tree_at h 0 T" and "S \<in> set (subs T)" and "S \<noteq> T"
  shows "\<exists>t. rdh h (addr S) = Some t \<and> nxt t \<noteq> 0"
proof -
  from lineage_ex [OF assms(2)] obtain As where lin: "lineage T (S # As)" by blast
  then obtain B Bs where As: "As = B # Bs" using assms(3) by (cases As) auto
  with lin have B: "S \<in> set (kids B)" "B \<in> set (subs T)" using lineage_sub [of T "S # As"] by auto
  then obtain b ts where b: "B = GroupN b ts" by (cases B) auto
  from tree_at_sub [OF assms(1) B(2)] b obtain q where q: "tree_at h q (GroupN b ts)" by blast
  from B(1) b obtain us vs where "ts = us @ S # vs" by (auto simp: in_set_conv_decomp)
  from kid_next [OF q this] show ?thesis by blast
qed

text \<open>Once the next leaf is chosen: the states, the counters, the current task.\<close>

text \<open>The fields of a TCB a switch does not write.\<close>

definition frozen :: "tcb \<Rightarrow> tcb" where
  "frozen t = t\<lparr>st := Ready, tswitches := 0, slices_run := 0\<rparr>"

definition switched :: "ptr \<Rightarrow> ptr \<Rightarrow> kernel \<Rightarrow> kernel \<Rightarrow> bool" where
  "switched cur leaf k k' =
     (same_shape (heap k) (heap k') \<and>
      root k' = root k \<and> nodes k' = nodes k \<and> current_tcb k' = leaf \<and> karena k' = karena k \<and>
      pending_free k' = pending_free k \<and> active_threads k' = active_threads k \<and>
      words k' = words k \<and> config k' = config k \<and> ticks k' = ticks k \<and>
      switches k' = (if leaf = cur then switches k else switches k + 1) \<and>
      (\<forall>a t. rd k a = Some t \<longrightarrow> (\<exists>t'. rd k' a = Some t' \<and> remaining_cycles t' = remaining_cycles t \<and>
         frozen t' = frozen t \<and>
         st t' = (if leaf \<noteq> cur \<and> a = leaf then Running
                  else if leaf \<noteq> cur \<and> a = cur \<and> st t = Running then Ready else st t) \<and>
         slices_run t' = (if a = leaf then slices_run t + 1 else slices_run t))))"

lemma switch_effect:
  assumes c: "cur = 0 \<or> rd k cur \<noteq> None" and n: "rd k leaf = Some t" and cur: "leaf = cur \<Longrightarrow> current_tcb k = cur"
  shows "\<exists>k'. do {
       k \<leftarrow> (if leaf \<noteq> cur then do {
              k \<leftarrow> (if cur \<noteq> null_ptr then do {
                     c \<leftarrow> rd k cur;
                     if st c = Running then upd (\<lambda>t. t\<lparr>st := Ready\<rparr>) cur k else Some k
                   }
                   else Some k);
              k \<leftarrow> upd (\<lambda>t. t\<lparr>st := Running\<rparr>) leaf k;
              let k = k_set_current leaf k;
              Some (k\<lparr>switches := switches k + 1\<rparr>)
            }
            else Some k);
       k \<leftarrow> upd (\<lambda>t. t\<lparr>tswitches := tswitches t + 1\<rparr>) leaf k;
       k \<leftarrow> upd (\<lambda>t. t\<lparr>slices_run := slices_run t + 1\<rparr>) leaf k;
       Some (leaf, k) } = Some (leaf, k') \<and> switched cur leaf k k'"
proof -
  have l0: "leaf \<noteq> 0" using rd_nonnull [OF n] .
  let ?fin = "\<lambda>t k. put leaf (t\<lparr>tswitches := tswitches t + 1, slices_run := slices_run t + 1\<rparr>) k"
  have fin: "do { k \<leftarrow> upd (\<lambda>t. t\<lparr>tswitches := tswitches t + 1\<rparr>) leaf k1;
       k \<leftarrow> upd (\<lambda>t. t\<lparr>slices_run := slices_run t + 1\<rparr>) leaf k;
       Some (leaf, k) } = Some (leaf, ?fin t1 k1)" if "rd k1 leaf = Some t1" for k1 t1
    using that l0 by (simp add: upd_put rd_put) (simp add: put_def)
  show ?thesis
  proof (cases "leaf = cur")
    case True
    have "switched cur leaf k (?fin t k)"
      using True n l0 cur same_shape_upd [of "heap k" leaf t]
      by (auto simp: switched_def rd_put frozen_def) (auto simp: put_def rd_def)
    with True fin [OF n] show ?thesis by (intro exI [of _ "?fin t k"]) simp
  next
    case False
    define k1 where "k1 = (if cur \<noteq> 0 \<and> st (the (rd k cur)) = Running
       then put cur ((the (rd k cur))\<lparr>st := Ready\<rparr>) k else k)"
    have r1: "rd k1 a = (if a = cur \<and> a \<noteq> 0 \<and> st (the (rd k cur)) = Running
        then Some ((the (rd k cur))\<lparr>st := Ready\<rparr>) else rd k a)" for a
      by (auto simp: k1_def rd_put)
    have s1: "same_shape (heap k) (heap k1)"
    proof (cases "rd k cur")
      case None
      then show ?thesis using c by (simp add: k1_def)
    next
      case (Some y)
      then show ?thesis
        using same_shape_upd [of "heap k" cur y "y\<lparr>st := Ready\<rparr>"] by (simp add: k1_def rd_def)
    qed
    have m1: "(if cur \<noteq> null_ptr then do {
                     c \<leftarrow> rd k cur;
                     if st c = Running then upd (\<lambda>t. t\<lparr>st := Ready\<rparr>) cur k else Some k
                   }
                   else Some k) = Some k1"
      using c by (auto simp: k1_def upd_put)
    let ?k2 = "(k_set_current leaf (put leaf (t\<lparr>st := Running\<rparr>) k1))\<lparr>switches := switches k1 + 1\<rparr>"
    have n1: "rd k1 leaf = Some t" using n r1 False by auto
    have k2: "rd ?k2 leaf = Some (t\<lparr>st := Running\<rparr>)"
      using l0 by (simp add: rd_def k_set_current_def)
    let ?k3 = "?fin (t\<lparr>st := Running\<rparr>) ?k2"
    let ?t3 = "t\<lparr>st := Running, tswitches := tswitches t + 1, slices_run := slices_run t + 1\<rparr>"
    have h3: "heap ?k3 = (heap k1)(leaf \<mapsto> ?t3)"
      by (simp add: k_set_current_def)
    have r3: "rd ?k3 a = (if a = leaf then Some ?t3 else rd k1 a)" for a
      using l0 unfolding rd_def h3 by (simp add: rdh_upd)
    have "same_shape (heap k1) (heap ?k3)"
      unfolding h3 using n1 by (intro same_shape_upd) (simp_all add: rd_def)
    then have s3: "same_shape (heap k) (heap ?k3)" using same_shape_trans [OF s1] by blast
    have f3: "root ?k3 = root k" "nodes ?k3 = nodes k" "current_tcb ?k3 = leaf" "switches ?k3 = switches k + 1"
      "karena ?k3 = karena k" "pending_free ?k3 = pending_free k" "active_threads ?k3 = active_threads k"
      "words ?k3 = words k" "config ?k3 = config k" "ticks ?k3 = ticks k"
      by (simp_all add: put_def k_set_current_def k1_def)
    have "switched cur leaf k ?k3"
      unfolding switched_def using s3 f3 r3 r1 n False by (auto simp: frozen_def)
    moreover have u2: "upd (\<lambda>t. t\<lparr>st := Running\<rparr>) leaf k1 = Some (put leaf (t\<lparr>st := Running\<rparr>) k1)"
      by (rule upd_put [OF n1])
    ultimately show ?thesis
      using False m1 fin [OF k2] by (intro exI [of _ ?k3]) (simp add: Let_def put_def k_set_current_def)
  qed
qed

lemma switched_keeps:
  assumes sw: "switched cur leaf k k'" and ok: "tree_ok k T"
  shows "tree_ok k' T"
  using sw tree_ok_shape [OF ok, of k'] by (auto simp: switched_def)

lemma switched_rd:
  assumes "switched cur leaf k k'" and "rd k' a = Some t'"
  obtains t where "rd k a = Some t" "kind t' = kind t" "nxt t' = nxt t"
    "st t' = (if leaf \<noteq> cur \<and> a = leaf then Running
                  else if leaf \<noteq> cur \<and> a = cur \<and> st t = Running then Ready else st t)"
proof -
  from assms have S: "same_shape (heap k) (heap k')" by (simp add: switched_def)
  from assms(2) have "rdh (heap k') a = Some t'" by (simp add: rd_def)
  from same_shapeD' [OF S this] obtain t where t: "rd k a = Some t" "shape t' = shape t"
    unfolding rd_def by metis
  moreover from assms(1) t(1) obtain t'' where "rd k' a = Some t''"
     "st t'' = (if leaf \<noteq> cur \<and> a = leaf then Running
                  else if leaf \<noteq> cur \<and> a = cur \<and> st t = Running then Ready else st t)"
    unfolding switched_def by blast
  ultimately show thesis
    using assms(2) by (intro that [of t]) (auto simp: shape_def)
qed

text \<open>The current task as \<open>schedule_next\<close> sees it: null once it is unlinked.\<close>

definition eff_cur :: "kernel \<Rightarrow> ptr" where
  "eff_cur k = (case rd k (current_tcb k) of None \<Rightarrow> 0 | Some t \<Rightarrow> if nxt t = 0 then 0 else current_tcb k)"

lemma eff_cur_leaf:
  assumes "tree_ok k T" and "cur_ok k"
  shows "eff_cur k = 0 \<or> LeafN (eff_cur k) \<in> set (subs T)"
proof (rule disjCI)
  assume "\<not> LeafN (eff_cur k) \<in> set (subs T)"
  show "eff_cur k = 0"
  proof (rule ccontr)
    assume "eff_cur k \<noteq> 0"
    then obtain t where t: "rd k (current_tcb k) = Some t" "nxt t \<noteq> 0" "eff_cur k = current_tcb k"
      by (auto simp: eff_cur_def split: option.splits if_splits)
    then have "current_tcb k \<in> set (addrs T)"
      using assms(1) by (auto simp: tree_ok_def only_linked_def rd_def)
    moreover have "kind t = Leaf" using assms(2) t rd_nonnull [OF t(1)] by (auto simp: cur_ok_def)
    ultimately have "LeafN (current_tcb k) \<in> set (subs T)"
      using subs_kinds [of "heap k" 0 T "current_tcb k" t] tree_ok_limits(4) [OF assms(1)] t(1)
      by (auto simp: rd_def)
    with \<open>\<not> LeafN (eff_cur k) \<in> set (subs T)\<close> t(3) show False by simp
  qed
qed

theorem schedule_next_spec:
  assumes ok: "tree_ok k T" and c: "cur_ok k"
  shows "\<exists>leaf k0 k1 k'. k0 = k\<lparr>current_tcb := (if eff_cur k = 0 then 0 else current_tcb k)\<rparr>
    \<and> pick_next_leaf (eff_cur k) k0 = Some (leaf, k1) \<and> picked T k0 leaf k1
    \<and> schedule_next k = Some (leaf, k')
    \<and> (if leaf = 0 then k' = k1 else switched (eff_cur k) leaf k1 k')"
proof -
  let ?k0 = "k\<lparr>current_tcb := (if eff_cur k = 0 then 0 else current_tcb k)\<rparr>"
  have ok0: "tree_ok ?k0 T" using tree_ok_shape [OF ok, of ?k0] by simp
  from pick_next_leaf_safe [OF ok0 eff_cur_leaf [OF ok c]] obtain leaf k1 where
    p: "pick_next_leaf (eff_cur k) ?k0 = Some (leaf, k1)" "picked T ?k0 leaf k1" by blast
  have m: "moved T ?k0 k1" using p(2) by (simp add: picked_def)
  obtain l where l: "is_linked k (current_tcb k) = Some l"
      "(if current_tcb k \<noteq> 0 \<and> \<not> l then (0, k_set_current 0 k) else (current_tcb k, k)) = (eff_cur k, ?k0)"
  proof (cases "current_tcb k = 0")
    case True
    then show thesis
      by (intro that [of False]) (simp_all add: is_linked_def eff_cur_def)
  next
    case False
    with c obtain t where "rd k (current_tcb k) = Some t" by (auto simp: cur_ok_def)
    with False show thesis
      by (intro that [of "nxt t \<noteq> 0"]) (simp_all add: is_linked_def eff_cur_def k_set_current_def)
  qed
  have sch: "schedule_next k = do {
     nl \<leftarrow> is_linked k1 leaf;
     if leaf = null_ptr \<or> \<not> nl then Some (null_ptr, k1)
     else do {
       k \<leftarrow> (if leaf \<noteq> eff_cur k then do {
              k \<leftarrow> (if eff_cur k \<noteq> null_ptr then do {
                     c \<leftarrow> rd k1 (eff_cur k);
                     if st c = Running then upd (\<lambda>t. t\<lparr>st := Ready\<rparr>) (eff_cur k) k1 else Some k1
                   }
                   else Some k1);
              k \<leftarrow> upd (\<lambda>t. t\<lparr>st := Running\<rparr>) leaf k;
              let k = k_set_current leaf k;
              Some (k\<lparr>switches := switches k + 1\<rparr>)
            }
            else Some k1);
       k \<leftarrow> upd (\<lambda>t. t\<lparr>tswitches := tswitches t + 1\<rparr>) leaf k;
       k \<leftarrow> upd (\<lambda>t. t\<lparr>slices_run := slices_run t + 1\<rparr>) leaf k;
       Some (leaf, k)
     }}"
    using l p(1) unfolding schedule_next_def k_current_def Let_def by (simp only: bind.simps prod.case)
  show ?thesis
  proof (cases "leaf = 0")
    case True
    then have "schedule_next k = Some (0, k1)" using sch by (simp add: is_linked_def)
    with p True show ?thesis by (intro exI [of _ leaf] exI [of _ ?k0] exI [of _ k1]) simp
  next
    case False
    have tT: "tree_at (heap k1) 0 T"
      using moved_tree_ok [OF m ok0] tree_ok_limits(4) by blast
    have leafT: "LeafN leaf \<in> set (subs T)" using p(2) False by (simp add: picked_def)
    have "LeafN leaf \<noteq> T" using tree_ok_group [OF ok] by auto
    from leaf_linked [OF tT leafT this] obtain t where t: "rd k1 leaf = Some t" "nxt t \<noteq> 0"
      by (auto simp: rd_def)
    have nl: "is_linked k1 leaf = Some True" using t False by (simp add: is_linked_def)
    have c1: "eff_cur k = 0 \<or> rd k1 (eff_cur k) \<noteq> None"
    proof (rule disjCI)
      assume "\<not> rd k1 (eff_cur k) \<noteq> None"
      with eff_cur_leaf [OF ok c] tree_at_sub [OF tT, of "LeafN (eff_cur k)"]
      show "eff_cur k = 0" by (auto simp: rd_def)
    qed
    have cur1: "leaf = eff_cur k \<Longrightarrow> current_tcb k1 = eff_cur k"
      using moved_kernel(5) [OF m] False by (auto simp: eff_cur_def split: option.splits if_splits)
    from switch_effect [OF c1 t(1) cur1] obtain k' where k':
      "schedule_next k = Some (leaf, k')" "switched (eff_cur k) leaf k1 k'"
      using sch nl False by auto
    with p False show ?thesis by (intro exI [of _ leaf] exI [of _ ?k0] exI [of _ k1] exI [of _ k']) simp
  qed
qed

text \<open>
  The switch is total, keeps the kernel's invariants, and hands out null or a linked,
  runnable leaf of the tree with a quantum to run on, now the current and only \<open>Running\<close> one.
\<close>

theorem schedule_next_ok:
  assumes "kernel_ok k T"
  shows "\<exists>leaf k'. schedule_next k = Some (leaf, k') \<and> kernel_ok k' T
    \<and> (leaf \<noteq> 0 \<longrightarrow> LeafN leaf \<in> set (subs T) \<and> current_tcb k' = leaf
        \<and> h_runnable (heap k') leaf \<and> has_quantum k' leaf)"
proof -
  from assms have ok: "tree_ok k T" and c: "cur_ok k" and one: "one_running k"
    by (auto simp: kernel_ok_def)
  from schedule_next_spec [OF ok c] obtain leaf k0 k1 k' where
    k0: "k0 = k\<lparr>current_tcb := (if eff_cur k = 0 then 0 else current_tcb k)\<rparr>"
    and p: "picked T k0 leaf k1" and s: "schedule_next k = Some (leaf, k')"
    and e: "if leaf = 0 then k' = k1 else switched (eff_cur k) leaf k1 k'" by blast
  have ok0: "tree_ok k0 T" using tree_ok_shape [OF ok, of k0] k0 by simp
  have m: "moved T k0 k1" using p by (simp add: picked_def)
  have ok1: "tree_ok k1 T" using moved_tree_ok [OF m ok0] .
  have rd0: "rd k0 a = rd k a" for a using k0 by (simp add: rd_def)
  have ao: "arm_only (heap k0) (heap k1)" using m by (simp add: moved_def)
  have rd1: "\<exists>t. rd k a = Some t \<and> st t = st t' \<and> nxt t = nxt t' \<and> kind t = kind t'"
    if "rd k1 a = Some t'" for a t'
  proof -
    from arm_onlyD' [OF ao, of a t'] that obtain t where t: "rdh (heap k0) a = Some t" "plain t = plain t'"
      unfolding rd_def by metis
    show ?thesis
      using t(1) rd0 [of a] plain_eqD [OF t(2)] by (intro exI [of _ t]) (simp add: rd_def)
  qed
  have rd1': "\<exists>t'. rd k1 a = Some t' \<and> kind t' = kind t" if "rd k a = Some t" for a t
  proof -
    from that rd0 [of a] have "rdh (heap k0) a = Some t" by (simp add: rd_def)
    from arm_onlyD [OF ao this] obtain t' where t': "rdh (heap k1) a = Some t'" "plain t' = plain t"
      by blast
    show ?thesis
      using t'(1) plain_eqD(5) [OF t'(2)] by (intro exI [of _ t']) (simp add: rd_def)
  qed
  have cur1: "current_tcb k1 = (if eff_cur k = 0 then 0 else current_tcb k)"
    using moved_kernel(5) [OF m] k0 by simp
  have eff: "eff_cur k \<noteq> 0 \<Longrightarrow> eff_cur k = current_tcb k"
    by (auto simp: eff_cur_def split: option.splits if_splits)
  have run0: "a = eff_cur k \<and> nxt t \<noteq> 0" if "rd k a = Some t" "st t = Running" for a t
    using one that by (auto simp: one_running_def eff_cur_def)
  have c1: "cur_ok k1"
    using c rd1' cur1 by (fastforce simp: cur_ok_def)
  show ?thesis
  proof (cases "leaf = 0")
    case True
    have "one_running k1"
      unfolding one_running_def
    proof (intro allI impI)
      fix a t' assume t': "rd k1 a = Some t'" "st t' = Running"
      from rd1 [OF t'(1)] obtain t where t: "rd k a = Some t" "st t = Running" "nxt t = nxt t'"
        using t'(2) by auto
      from run0 [OF t(1,2)] t(3) eff cur1 rd_nonnull [OF t(1)] show "a = current_tcb k1 \<and> nxt t' \<noteq> 0"
        by auto
    qed
    with True e s ok1 c1 show ?thesis by (auto simp: kernel_ok_def)
  next
    case False
    with e have sw: "switched (eff_cur k) leaf k1 k'" by simp
    have leaf: "LeafN leaf \<in> set (subs T)" "h_runnable (heap k0) leaf" "has_quantum k1 leaf"
      using p False by (auto simp: picked_def)
    have cur': "current_tcb k' = leaf" using sw by (simp add: switched_def)
    have ok': "tree_ok k' T" using switched_keeps [OF sw ok1] .
    from tree_at_sub [OF tree_ok_limits(4) [OF ok'] leaf(1)] have c': "cur_ok k'"
      using cur' by (auto simp: cur_ok_def rd_def)
    from leaf_linked [OF tree_ok_limits(4) [OF ok'] leaf(1)] tree_ok_group [OF ok] obtain t'
      where t': "rd k' leaf = Some t'" "nxt t' \<noteq> 0" by (auto simp: rd_def)
    have "one_running k'"
      unfolding one_running_def
    proof (intro allI impI)
      fix a u' assume u': "rd k' a = Some u'" "st u' = Running"
      from switched_rd [OF sw u'(1)] obtain u where u: "rd k1 a = Some u" "nxt u' = nxt u"
        "st u' = (if leaf \<noteq> eff_cur k \<and> a = leaf then Running
                  else if leaf \<noteq> eff_cur k \<and> a = eff_cur k \<and> st u = Running then Ready else st u)" by blast
      have "a = leaf"
      proof (rule ccontr)
        assume "a \<noteq> leaf"
        with u'(2) u(3) have "st u = Running" by (auto split: if_splits)
        with rd1 [OF u(1)] run0 have "a = eff_cur k" by auto
        with \<open>a \<noteq> leaf\<close> u'(2) u(3) \<open>st u = Running\<close> show False by auto
      qed
      with cur' t' u'(1) show "a = current_tcb k' \<and> nxt u' \<noteq> 0" by simp
    qed
    moreover have "h_runnable (heap k') leaf"
    proof -
      have r1: "h_runnable (heap k1) leaf" using arm_only_runnable [OF ao] leaf(2) by simp
      from switched_rd [OF sw t'(1)] obtain t where t: "rd k1 leaf = Some t"
        "st t' = (if leaf \<noteq> eff_cur k \<and> leaf = leaf then Running
                  else if leaf \<noteq> eff_cur k \<and> leaf = eff_cur k \<and> st t = Running then Ready else st t)" by blast
      with r1 t'(1) show ?thesis
        by (auto simp: h_runnable_def rd_def not_runnable_def split: if_splits)
    qed
    moreover have "has_quantum k' leaf"
    proof -
      from leaf(3) obtain t where "rd k1 leaf = Some t" "remaining_cycles t \<noteq> 0"
        by (auto simp: has_quantum_def split: option.splits)
      with sw show ?thesis by (fastforce simp: switched_def has_quantum_def)
    qed
    ultimately show ?thesis
      using s ok' c' leaf(1) cur' by (auto simp: kernel_ok_def)
  qed
qed

end
