(* ===== verification/RkTick.thy ===== *)
theory RkTick
  imports RkSwitch
begin

text \<open>
  The tick (\<^verbatim>\<open>on_tick\<close>, \<^verbatim>\<open>drain_current_path\<close> in \<^verbatim>\<open>src/scheduler.rs\<close>) and the
  flat case: a root with leaves only, where the policy is plain round robin.
\<close>

section \<open>Draining the running path\<close>

definition drain_one :: "tcb \<Rightarrow> tcb" where
  "drain_one t = t\<lparr>remaining_cycles := sat_sub (remaining_cycles t) 1\<rparr>"

lemma shape_drain_one [simp]: "shape (drain_one t) = shape t"
  by (simp add: drain_one_def)

lemma map_at_empty: "map_at g {} h = h"
  by (simp add: map_at_def)

lemma drain_loop_spec:
  assumes D: "distinct (addrs T)"
  shows "tree_at (heap k) 0 T \<Longrightarrow> lineage T (A # As) \<Longrightarrow> unat depth + length (A # As) \<le> unat limit \<Longrightarrow>
    unat limit < 2 ^ 32 - 1 \<Longrightarrow>
    drain_loop limit depth (addr A) k
      = Some (k\<lparr>heap := map_at drain_one (set (map addr (A # As))) (heap k)\<rparr>)"
proof (induction As arbitrary: A k depth)
  case Nil
  from lineage_rd [OF Nil(1,2)] obtain t where t: "rd k (addr A) = Some t" "parent t = 0" by auto
  have dep: "\<not> depth + 1 > limit"
    using Nil.prems(3,4) by (simp add: word_less_nat_alt unat_Suc_small)
  have a0: "addr A \<noteq> 0" using rd_nonnull [OF t(1)] .
  have "drain_loop limit (depth + 1) 0 k' = Some k'" for k'
    by (subst drain_loop.simps) simp
  moreover have t1: "rd (put (addr A) (drain_one t) k) (addr A) = Some (drain_one t)" "parent (drain_one t) = 0"
    using a0 t by (simp_all add: rd_put drain_one_def)
  moreover have "(heap k)(addr A \<mapsto> drain_one t) = map_at drain_one {addr A} (heap k)"
    using t(1) map_at_insert [of "heap k" "addr A" t "{}" drain_one]
    by (simp add: rd_def map_at_empty)
  ultimately show ?case
    using t dep a0 t1
    by (subst drain_loop.simps) (simp add: upd_put drain_one_def [symmetric], simp add: put_def)
next
  case (Cons B As)
  from lineage_rd [OF Cons.prems(1,2)] obtain t where t: "rd k (addr A) = Some t" "parent t = addr B" by auto
  have dep: "\<not> depth + 1 > limit" "unat (depth + 1) = unat depth + 1"
    using Cons.prems(3,4) by (simp_all add: word_less_nat_alt unat_Suc_small)
  have a0: "addr A \<noteq> 0" using rd_nonnull [OF t(1)] .
  let ?k1 = "put (addr A) (drain_one t) k"
  have "same_shape (heap k) (heap ?k1)"
    using t(1) by (auto simp: rd_def intro!: same_shape_upd)
  then have T1: "tree_at (heap ?k1) 0 T" using tree_at_shape Cons.prems(1) by blast
  have anot: "addr A \<notin> set (map addr (B # As))"
    using lineage_above [OF D Cons.prems(2)] by (metis addr_in_addrs image_iff set_map)
  have "drain_loop limit (depth + 1) (addr B) ?k1
      = Some (?k1\<lparr>heap := map_at drain_one (set (map addr (B # As))) (heap ?k1)\<rparr>)"
    by (rule Cons.IH [OF T1]) (use Cons.prems dep in auto)
  moreover have "map_at drain_one (set (map addr (B # As))) (heap ?k1)
      = map_at drain_one (set (map addr (A # B # As))) (heap k)"
    using map_at_insert [OF _ anot, of "heap k" t drain_one] t(1) by (simp add: rd_def)
  moreover have "rd ?k1 (addr A) = Some (drain_one t)" "parent (drain_one t) = addr B"
    using a0 t by (simp_all add: rd_put drain_one_def)
  ultimately show ?case
    using t dep a0
    by (subst drain_loop.simps) (simp add: upd_put drain_one_def [symmetric], simp add: put_def)
qed

theorem on_tick_effect:
  assumes ok: "tree_ok k T" and lin: "lineage T (LeafN (current_tcb k) # As)"
  shows "on_tick k = Some (k\<lparr>ticks := ticks k + 1, heap :=
     map_at (\<lambda>t. if due (ticks k + 1) t then make_ready t else t) (set (visited k T))
       (map_at drain_one (set (map addr (LeafN (current_tcb k) # As))) (heap k))\<rparr>)"
proof -
  let ?k0 = "k\<lparr>ticks := ticks k + 1\<rparr>"
  let ?P = "set (map addr (LeafN (current_tcb k) # As))"
  have ok0: "tree_ok ?k0 T" using tree_ok_shape [OF ok, of ?k0] by simp
  note lim = tree_ok_limits [OF ok0]
  have "unat (0 :: u32) + length (LeafN (current_tcb k) # As) \<le> unat (walk_limit ?k0)"
    using lineage_length [OF lin] lim(5) by simp
  from drain_loop_spec [OF lim(3,4) lin this lim(2)]
  have d: "drain_current_path ?k0 = Some (?k0\<lparr>heap := map_at drain_one ?P (heap k)\<rparr>)"
    by (simp add: drain_current_path_def k_current_def)
  let ?k1 = "?k0\<lparr>heap := map_at drain_one ?P (heap k)\<rparr>"
  have ok1: "tree_ok ?k1 T"
    using tree_ok_map_at [OF ok0, of drain_one ?P] by simp
  have "visited ?k1 T = visited k T" by (simp add: visited_def)
  with wake_expired_effect [OF ok1] d show ?thesis
    by (simp add: on_tick_def)
qed

section \<open>The flat case\<close>

abbreviation flat :: "ptr \<Rightarrow> ptr list \<Rightarrow> ntree" where
  "flat r as \<equiv> GroupN r (map LeafN as)"

lemma first_of_leaves:
  "first_of h (map LeafN as) = or_null (List.find (h_runnable h) as)"
proof (induction as)
  case (Cons a as)
  then show ?case
    by (cases "h_runnable h a") (auto simp: first_of_def live_def or_null_def h_runnable_def split: option.splits)
qed (simp add: first_of_def or_null_def)

lemma after_leaves:
  assumes "as = us @ c # vs" and "c \<notin> set us"
  shows "after c (map LeafN as) = map LeafN (vs @ us @ [c])"
proof -
  have "turn (addr (LeafN c)) (map LeafN as) = LeafN c # map LeafN vs @ map LeafN us"
    by (rule turn_split) (use assms in auto)
  then have "turn c (map LeafN as) = LeafN c # map LeafN vs @ map LeafN us" by simp
  moreover have "c \<in> addr ` set (map LeafN as)"
    using assms(1) by force
  ultimately show ?thesis by (simp add: after_def)
qed

lemma flat_lineage: "c \<in> set as \<Longrightarrow> lineage (flat r as) [LeafN c, flat r as]"
  by auto

text \<open>
  When the running leaf's quantum is spent and the root's is not, the turn goes to the
  next runnable leaf of the ring, and comes back to the leaf itself last.
\<close>

theorem flat_round_robin:
  assumes ok: "tree_ok k (flat r as)" and c: "c \<in> set as" and sp: "spent k c" and rs: "\<not> spent k r"
    and cur: "cursor (heap k) r = c"
  shows "\<exists>k'. pick_next_leaf c k = Some (or_null (next_runnable_opt (heap k) c), k')
    \<and> picked (flat r as) k (or_null (next_runnable_opt (heap k) c)) k'"
proof -
  from ok have D: "distinct as" "c \<noteq> r"
    using c by (auto simp: tree_ok_def comp_def)
  from c obtain us vs where uv: "as = us @ c # vs" by (auto simp: in_set_conv_decomp)
  then have cu: "c \<notin> set us" using D(1) by auto
  from ok obtain t where "ring_at (heap k) t as" by (auto simp: tree_ok_def comp_def)
  then have R: "ring (heap k) (us @ c # vs)" using uv by (auto simp: ring_at_def)
  have succ: "next_runnable_opt (heap k) c = List.find (h_runnable (heap k)) (vs @ us @ [c])"
    by (rule ring_order.succ_at [OF R])
  have lin: "lineage (flat r as) ([] @ LeafN c # [flat r as])" using flat_lineage [OF c] by simp
  from pick_spent [OF ok lin, of c "[flat r as]"] sp rs obtain k1 k' where
    k1: "moved (flat r as) k k1" "only_at {c} k k1"
      "pick_next_leaf c k = Some (climb (heap k1) [flat r as], k')"
      "picked (flat r as) k (climb (heap k1) [flat r as]) k'" by auto
  have "cursor (heap k1) r = c" using only_at_cursor [OF k1(2)] D(2) cur by simp
  then have "climb (heap k1) [flat r as] = first_of (heap k1) (map LeafN (vs @ us @ [c]))"
    using after_leaves [OF uv cu] by simp
  also have "\<dots> = or_null (List.find (h_runnable (heap k1)) (vs @ us @ [c]))"
    by (rule first_of_leaves)
  also have "List.find (h_runnable (heap k1)) (vs @ us @ [c]) = next_runnable_opt (heap k) c"
    unfolding succ by (rule find_cong_set) (simp add: moved_kernel(6) [OF k1(1)])
  finally show ?thesis using k1 by (intro exI [of _ k']) simp
qed

text \<open>Turn after turn: the runnable leaves in ring order, each exactly once per lap.\<close>

lemma flat_turns:
  assumes ok: "tree_ok k (flat r as)" and i: "i < length (filter (h_runnable (heap k)) as)"
  shows "((\<lambda>p. the (next_runnable_opt (heap k) p)) ^^ n) (filter (h_runnable (heap k)) as ! i)
       = filter (h_runnable (heap k)) as ! ((i + n) mod length (filter (h_runnable (heap k)) as))"
proof -
  from ok obtain t where "ring_at (heap k) t as" by (auto simp: tree_ok_def comp_def)
  moreover have "as \<noteq> []" using i by auto
  ultimately have "ring (heap k) as" by (simp add: ring_at_def)
  then show ?thesis by (rule ring_order.succ_iterate [OF _ i])
qed

text \<open>The cursor of the root follows the running leaf in the flat case.\<close>

lemma flat_idle:
  assumes ok: "tree_ok k (flat r as)" and none: "\<forall>a\<in>set as. \<not> h_runnable (heap k) a"
  shows "climb (heap k) [flat r as] = 0"
proof -
  from after_rot [of "map LeafN as" "cursor (heap k) r"] obtain xs ys where
    xy: "map LeafN as = xs @ ys" "after (cursor (heap k) r) (map LeafN as) = ys @ xs" by blast
  have "\<forall>x\<in>set (ys @ xs). \<exists>a\<in>set as. x = LeafN a"
    using arg_cong [OF xy(1), of set] by auto
  then have "\<forall>x\<in>set (ys @ xs). \<not> live (heap k) x"
    using none by (fastforce simp: live_def)
  then have "first_of (heap k) (ys @ xs) = 0"
    by (auto simp: first_of_def split: option.splits dest: find_SomeD)
  then show ?thesis using xy(2) by simp
qed

end
