(* ===== verification/RkExamples.thy ===== *)
theory RkExamples
  imports RkTick
begin

text \<open>
  Two small concrete kernels.  \<open>ex_kernel\<close> has a root with two tasks and a group of two
  tasks, the first running; \<open>flat_kernel\<close> has a root with five tasks, the last one asleep.
  They satisfy the invariants, and instantiate the hypotheses of the properties.
\<close>

definition ex_leaf :: "ptr \<Rightarrow> ptr \<Rightarrow> ptr \<Rightarrow> u32 \<Rightarrow> tcb" where
  "ex_leaf p n v i = zero_tcb\<lparr>parent := p, nxt := n, prv := v, tid := i, slice_cycles := 3,
     remaining_cycles := 2\<rparr>"

definition ex_group :: "ptr \<Rightarrow> ptr \<Rightarrow> ptr \<Rightarrow> ptr \<Rightarrow> ptr \<Rightarrow> tcb" where
  "ex_group p n v hp c = zero_tcb\<lparr>kind := Group, parent := p, nxt := n, prv := v,
     children_head := hp, current_child := c, slice_cycles := 3, remaining_cycles := 3\<rparr>"

definition ex_heap :: tcb_heap where
  "ex_heap = [16 \<mapsto> ex_group 0 0 0 32 32,
     32 \<mapsto> (ex_leaf 16 48 64 1)\<lparr>st := Running\<rparr>,
     48 \<mapsto> (ex_leaf 16 64 32 2)\<lparr>st := Blocked, blocked_on := 7, block_deadline := 5\<rparr>,
     64 \<mapsto> ex_group 16 32 48 80 0,
     80 \<mapsto> ex_leaf 64 96 96 3,
     96 \<mapsto> (ex_leaf 64 80 80 4)\<lparr>st := Blocked, blocked_on := 7\<rparr>]"

definition ex_kernel :: kernel where
  "ex_kernel = kernel_new\<lparr>heap := ex_heap, root := 16, nodes := 6, current_tcb := 32, ticks := 4\<rparr>"

definition ex_tree :: ntree where
  "ex_tree = GroupN 16 [LeafN 32, LeafN 48, GroupN 64 [LeafN 80, LeafN 96]]"

definition flat_heap :: tcb_heap where
  "flat_heap = [16 \<mapsto> ex_group 0 0 0 32 32,
     32 \<mapsto> (ex_leaf 16 48 96 1)\<lparr>st := Running\<rparr>,
     48 \<mapsto> ex_leaf 16 64 32 2,
     64 \<mapsto> (ex_leaf 16 80 48 3)\<lparr>st := Blocked\<rparr>,
     80 \<mapsto> ex_leaf 16 96 64 4,
     96 \<mapsto> (ex_leaf 16 32 80 5)\<lparr>st := Blocked, block_deadline := 2\<rparr>]"

definition flat_kernel :: kernel where
  "flat_kernel = kernel_new\<lparr>heap := flat_heap, root := 16, nodes := 6, current_tcb := 32, ticks := 1000\<rparr>"

definition flat_addrs :: "ptr list" where
  "flat_addrs = [32, 48, 64, 80, 96]"

lemmas ex_defs = ex_leaf_def ex_group_def ex_heap_def flat_heap_def zero_tcb_def

lemma ex_rdh:
  "rdh ex_heap p = (if p = 16 then Some (ex_group 0 0 0 32 32)
     else if p = 32 then Some ((ex_leaf 16 48 64 1)\<lparr>st := Running\<rparr>)
     else if p = 48 then Some ((ex_leaf 16 64 32 2)\<lparr>st := Blocked, blocked_on := 7, block_deadline := 5\<rparr>)
     else if p = 64 then Some (ex_group 16 32 48 80 0)
     else if p = 80 then Some (ex_leaf 64 96 96 3)
     else if p = 96 then Some ((ex_leaf 64 80 80 4)\<lparr>st := Blocked, blocked_on := 7\<rparr>)
     else None)"
  by (auto simp: rdh_def ex_heap_def)

lemma flat_rdh:
  "rdh flat_heap p = (if p = 16 then Some (ex_group 0 0 0 32 32)
     else if p = 32 then Some ((ex_leaf 16 48 96 1)\<lparr>st := Running\<rparr>)
     else if p = 48 then Some (ex_leaf 16 64 32 2)
     else if p = 64 then Some ((ex_leaf 16 80 48 3)\<lparr>st := Blocked\<rparr>)
     else if p = 80 then Some (ex_leaf 16 96 64 4)
     else if p = 96 then Some ((ex_leaf 16 32 80 5)\<lparr>st := Blocked, block_deadline := 2\<rparr>)
     else None)"
  by (auto simp: rdh_def flat_heap_def)

lemma ex_tree_at: "tree_at ex_heap 0 ex_tree"
  by (simp add: ex_tree_def ring_at_def link_def ex_rdh)
    (simp add: ex_group_def ex_leaf_def zero_tcb_def)

lemma flat_tree_at: "tree_at flat_heap 0 (flat 16 flat_addrs)"
  by (simp add: flat_addrs_def ring_at_def link_def flat_rdh)
    (simp add: ex_group_def ex_leaf_def zero_tcb_def)

lemma ex_fields [simp]:
  "heap ex_kernel = ex_heap" "root ex_kernel = 16" "nodes ex_kernel = 6" "current_tcb ex_kernel = 32"
  "ticks ex_kernel = 4" "heap flat_kernel = flat_heap" "root flat_kernel = 16" "nodes flat_kernel = 6"
  "current_tcb flat_kernel = 32" "ticks flat_kernel = 1000"
  by (simp_all add: ex_kernel_def flat_kernel_def)

lemma ex_tree_ok: "tree_ok ex_kernel ex_tree"
proof -
  have "only_linked ex_heap ex_tree"
    unfolding only_linked_def ex_rdh by (auto simp: ex_tree_def split: if_splits)
  then show ?thesis
    using ex_tree_at by (simp add: tree_ok_def) (simp add: ex_tree_def)
qed

lemma flat_tree_ok: "tree_ok flat_kernel (flat 16 flat_addrs)"
proof -
  have "only_linked flat_heap (flat 16 flat_addrs)"
    unfolding only_linked_def flat_rdh by (auto simp: flat_addrs_def split: if_splits)
  then show ?thesis
    using flat_tree_at by (simp add: tree_ok_def del: tree_at.simps) (simp add: flat_addrs_def)
qed

lemma ex_kernel_ok: "kernel_ok ex_kernel ex_tree"
proof -
  have "cur_ok ex_kernel"
    by (simp add: cur_ok_def rd_def ex_rdh) (simp add: ex_leaf_def zero_tcb_def)
  moreover have "one_running ex_kernel"
    by (auto simp: one_running_def rd_def ex_rdh ex_leaf_def ex_group_def zero_tcb_def split: if_splits)
  ultimately show ?thesis using ex_tree_ok by (simp add: kernel_ok_def)
qed

lemma ex_addr: "addr ex_tree = 16"
  by (simp add: ex_tree_def)

lemma ex_lineage: "lineage ex_tree [LeafN 32, ex_tree]" "lineage ex_tree [LeafN 80, GroupN 64 [LeafN 80, LeafN 96], ex_tree]"
  by (simp_all add: ex_tree_def)

end
