(* ===== verification/RkStarve.thy ===== *)
theory RkStarve
  imports RkExamples
begin

text \<open>
  What the policy promises about work: a flat kernel never idles while a task could run, but a
  group whose cursor rests on a child group with nothing to run hides its other children.
\<close>

section \<open>A pass that finds nothing changes nothing that matters\<close>

lemma advance_none:
  assumes ok: "tree_ok k T" and T: "T = GroupN (root k) ts" and none: "\<forall>c\<in>set ts. first_leaf (heap k) c = 0"
  shows "\<exists>k'. advance_from (root k) k = Some (0, k') \<and> settled T k k'"
proof -
  note lim = tree_ok_limits [OF ok]
  have G: "GroupN (root k) ts \<in> set (subs T)" using T subs_self by metis
  have tT: "tree_at (heap k) 0 (GroupN (root k) ts)" using lim(4) T by metis
  then obtain t where t: "rd k (root k) = Some t" by (auto simp: rd_def)
  have sub: "set (after c ts) = set ts" for c
    using after_rot [of ts c] by auto
  have f: "first_of (heap k) (after (cursor (heap k) (root k)) ts) = 0"
    using none sub by (auto simp: first_of_def live_def split: option.splits dest: find_SomeD)
  from advance_level [OF lim(4,3) G t lim(1,2)] f obtain l k1 where
    k1: "is_linked k (children_head t) = Some l"
     "(if l then do { start \<leftarrow> advance_start (root k) k; advance_ring (root k) start start k } else Some (null_ptr, k))
      = Some (0, k1)" "settled T k k1" by auto
  have "tree_at (heap k1) 0 (GroupN (root k) ts)"
    using moved_kernel(7) [OF settled_moved [OF k1(3)] lim(4)] T by metis
  then obtain t' where t': "rd k1 (root k) = Some t'" "parent t' = 0" by (auto simp: rd_def)
  have "walk_limit k > 0" using lim(5) by (simp add: word_less_nat_alt)
  then have dep: "\<not> (0 :: u32) + 1 > walk_limit k" by (simp add: word_less_nat_alt)
  have "advance_loop (walk_limit k) (0 + 1) 0 k1 = Some (0, k1)"
    by (subst advance_loop.simps) simp
  then have "advance_from (root k) k = Some (0, k1)"
    unfolding advance_from_def using k1(1,2) t t' dep rd_nonnull [OF t]
    by (subst advance_loop.simps) simp
  with k1(3) show ?thesis by blast
qed

lemma pick_none:
  assumes ok: "tree_ok k T" and T: "T = GroupN (root k) ts" and none: "\<forall>c\<in>set ts. first_leaf (heap k) c = 0"
  shows "\<exists>k'. pick_next_leaf 0 k = Some (0, k') \<and> settled T k k'"
proof -
  note lim = tree_ok_limits [OF ok]
  have G: "GroupN (root k) ts \<in> set (subs T)" using T subs_self by metis
  have r0: "root k \<noteq> 0" by (rule tree_ok_root [OF ok])
  have dist: "distinct (map addr ts)" using lim(3) T by (metis distinct_map_addr addrs.simps(2) distinct.simps(2))
  have tT: "tree_at (heap k) 0 (GroupN (root k) ts)" using lim(4) T by metis
  have rc: "resume_child (root k) k = Some (addr_or_null (choice (heap k) (root k) ts))"
    by (rule resume_child_spec [OF tT dist])
  show ?thesis
  proof (cases "choice (heap k) (root k) ts")
    case None
    have "descend_and_arm 0 k = Some (0, k)"
      by (simp add: descend_and_arm_def descend_loop.simps runnable_def)
    with advance_none [OF assms] r0 rc None show ?thesis
      by (simp add: pick_next_leaf_def addr_or_null_def)
  next
    case (Some c)
    have c: "c \<in> set ts" "c \<in> set (subs T)" using choice_in [OF Some] subs_kid [OF G] by auto
    have "length (addrs c) \<le> length (addrs T)"
      using kid_addrs_len [of c "GroupN (root k) ts"] c(1) T by (metis kids.simps(2) less_imp_le)
    then have "unat (0 :: u32) + length (addrs c) \<le> unat (walk_limit k)" using lim by simp
    from descend_spec [OF lim(4,3) c(2) this lim(2)] none c(1) obtain k1 where
      k1: "descend_and_arm (addr c) k = Some (0, k1)" "settled T k k1" by (auto simp: descend_and_arm_def)
    have ok1: "tree_ok k1 T" using moved_tree_ok [OF settled_moved [OF k1(2)] ok] .
    have root1: "root k1 = root k" using moved_kernel(3) [OF settled_moved [OF k1(2)]] .
    have none1: "\<forall>c\<in>set ts. first_leaf (heap k1) c = 0"
      using none settled_first_leaf [OF k1(2)] subs_kid [OF G] by simp
    from advance_none [OF ok1 _ none1] T root1 obtain k' where
      "advance_from (root k) k1 = Some (0, k')" "settled T k1 k'" by metis
    then show ?thesis
      using r0 rc Some k1(1) root1 settled_trans [OF k1(2)]
      by (intro exI [of _ k']) (simp add: pick_next_leaf_def addr_or_null_def)
  qed
qed

text \<open>With no current task, a switch at which no child of the root leads anywhere hands out nothing,
  and leaves a kernel in which the next switch will not either.\<close>

lemma switch_none:
  assumes ok: "kernel_ok k T" and T: "T = GroupN (root k) ts" and cur: "eff_cur k = 0"
    and none: "\<forall>c\<in>set ts. first_leaf (heap k) c = 0"
  shows "\<exists>k'. schedule_next k = Some (0, k') \<and> kernel_ok k' T \<and> root k' = root k \<and> eff_cur k' = 0
    \<and> (\<forall>c\<in>set ts. first_leaf (heap k') c = 0) \<and> (\<forall>a. h_runnable (heap k') a = h_runnable (heap k) a)"
proof -
  have t: "tree_ok k T" "cur_ok k" using ok by (simp_all add: kernel_ok_def)
  let ?k0 = "k\<lparr>current_tcb := 0\<rparr>"
  have "heap ?k0 = heap k" "root ?k0 = root k" by simp_all
  have G: "GroupN (root k) ts \<in> set (subs T)" using T subs_self by metis
  have t0: "tree_ok ?k0 T" using t(1) by (simp add: tree_ok_def)
  from pick_none [OF t0, of ts] T none obtain k1 where
    k1: "pick_next_leaf 0 ?k0 = Some (0, k1)" "settled T ?k0 k1" by auto
  from schedule_next_spec [OF t] cur k1(1) have s: "schedule_next k = Some (0, k1)" by auto
  from schedule_next_ok [OF ok] s have "kernel_ok k1 T" by auto
  moreover have "current_tcb k1 = 0" "root k1 = root k"
    using moved_kernel(5,3) [OF settled_moved [OF k1(2)]] by simp_all
  then have "eff_cur k1 = 0" "root k1 = root k" by (simp_all add: eff_cur_def)
  moreover have "\<forall>c\<in>set ts. first_leaf (heap k1) c = 0"
    using none settled_first_leaf [OF k1(2)] subs_kid [OF G] by simp
  moreover have "\<forall>a. h_runnable (heap k1) a = h_runnable (heap k) a"
    using settled_runnable [OF k1(2)] by simp
  ultimately show ?thesis using s by blast
qed

text \<open>A group whose cursor rests on a child group with nothing to run offers nothing, whatever its
  other children.\<close>

lemma hidden_by_cursor:
  assumes "distinct (map addr ts)" and "c \<in> set ts" and "cursor h g = addr c" and "h_runnable h (addr c)"
    and "first_leaf h c = 0"
  shows "first_leaf h (GroupN g ts) = 0"
proof -
  obtain us d vs where d: "ts = us @ d # vs" "addr d = addr c" "addr d \<notin> addr ` set us"
    by (rule distinct_split [of ts "addr c"]) (use assms(1,2) in auto)
  have "d = c" using assms(1,2) d(1,2) by (auto simp: distinct_map dest: inj_onD)
  with d turn_split [OF d(1,3)] assms(3,4) have "choice h g ts = Some c"
    by (simp add: choice_def)
  with assms(5) show ?thesis by simp
qed

section \<open>A task behind an idle group\<close>

text \<open>A root with a group of two: a group whose one task is blocked, under the cursor, and a task that
  is ready.\<close>

definition nest_heap :: tcb_heap where
  "nest_heap = [16 \<mapsto> ex_group 0 0 0 48 48,
     48 \<mapsto> ex_group 16 48 48 64 64,
     64 \<mapsto> ex_group 48 96 96 80 80,
     80 \<mapsto> (ex_leaf 64 80 80 1)\<lparr>st := Blocked, blocked_on := 7\<rparr>,
     96 \<mapsto> ex_leaf 48 64 64 2]"

definition nest_kernel :: kernel where
  "nest_kernel = kernel_new\<lparr>heap := nest_heap, root := 16, nodes := 5\<rparr>"

definition nest_tree :: ntree where
  "nest_tree = GroupN 16 [GroupN 48 [GroupN 64 [LeafN 80], LeafN 96]]"

lemma nest_rdh:
  "rdh nest_heap p = (if p = 16 then Some (ex_group 0 0 0 48 48)
     else if p = 48 then Some (ex_group 16 48 48 64 64)
     else if p = 64 then Some (ex_group 48 96 96 80 80)
     else if p = 80 then Some ((ex_leaf 64 80 80 1)\<lparr>st := Blocked, blocked_on := 7\<rparr>)
     else if p = 96 then Some (ex_leaf 48 64 64 2)
     else None)"
  by (auto simp: rdh_def nest_heap_def)

lemma nest_fields [simp]:
  "heap nest_kernel = nest_heap" "root nest_kernel = 16" "nodes nest_kernel = 5" "current_tcb nest_kernel = 0"
  by (simp_all add: nest_kernel_def kernel_new_def)

lemma nest_tree_at: "tree_at nest_heap 0 nest_tree"
  by (simp add: nest_tree_def ring_at_def link_def nest_rdh)
    (simp add: ex_group_def ex_leaf_def zero_tcb_def)

lemma nest_ok: "kernel_ok nest_kernel nest_tree"
proof -
  have "only_linked nest_heap nest_tree"
    unfolding only_linked_def nest_rdh by (auto simp: nest_tree_def split: if_splits)
  then have "tree_ok nest_kernel nest_tree"
    using nest_tree_at by (simp add: tree_ok_def) (simp add: nest_tree_def)
  moreover have "cur_ok nest_kernel" by (simp add: cur_ok_def)
  moreover have "one_running nest_kernel"
    by (auto simp: one_running_def rd_def nest_rdh ex_leaf_def ex_group_def zero_tcb_def split: if_splits)
  ultimately show ?thesis by (simp add: kernel_ok_def)
qed

lemma nest_hides:
  "first_leaf nest_heap (GroupN 48 [GroupN 64 [LeafN 80], LeafN 96]) = 0" "h_runnable nest_heap 96"
  by (simp_all add: choice_def turn_def cursor_def nest_rdh h_runnable_def not_runnable_def ex_leaf_def ex_group_def zero_tcb_def)

end
