(* ===== verification/RkAlloc.thy ===== *)
theory RkAlloc
  imports RkArena
begin

text \<open>
  The invariant of \<^verbatim>\<open>src/arena.rs\<close> and what \<open>alloc\<close> and \<open>free\<close> promise: blocks
  (header to end) are disjoint and below the bump pointer, the free list is a list of
  distinct blocks, every live payload lies inside its own block, clear of the header and
  slot.  Arithmetic is exact as long as the arena plus one request fit the address space
  (\<open>room_for\<close>).
\<close>

unbundle bit_operations_syntax

section \<open>Alignment\<close>

lemma and_not_mask_unat:
  "unat (x AND NOT (mask n) :: 32 word) = unat x - unat x mod 2 ^ n"
proof -
  have "x AND NOT (mask n) = push_bit n (drop_bit n x)"
    by (rule bit_word_eqI) (auto simp: bit_simps)
  then have e: "(x AND NOT (mask n)) + take_bit n x = x"
    by (simp add: bits_ident)
  have t: "unat (take_bit n x) = unat x mod 2 ^ n"
    unfolding unsigned_take_bit_eq by (simp only: take_bit_eq_mod)
  then have "take_bit n x \<le> x" by (simp add: word_le_nat_alt)
  moreover have "x AND NOT (mask n) = x - take_bit n x" using e by (simp add: algebra_simps)
  ultimately show ?thesis using t by (simp add: unat_sub)
qed

text \<open>Rust's alignments are powers of two.\<close>

definition pow2 :: "usize \<Rightarrow> nat \<Rightarrow> bool" where
  "pow2 al n = (al = 2 ^ n \<and> n < 31)"

lemma pow2_unat: "pow2 al n \<Longrightarrow> unat al = 2 ^ n"
proof -
  assume p: "pow2 al n"
  then have "(2 :: nat) ^ n < 2 ^ 32" by (intro power_strict_increasing) (auto simp: pow2_def)
  then have "unat (of_nat (2 ^ n) :: usize) = 2 ^ n" by (simp only: unat_of_nat mod_less len_of_numeral_defs) simp
  then show ?thesis using p by (simp add: pow2_def)
qed

lemma align_up_spec:
  assumes p: "pow2 al n" and r: "unat v + unat al \<le> 2 ^ 32"
  shows "unat v \<le> unat (arena_align_up v al)" "unat (arena_align_up v al) < unat v + unat al"
    "unat (arena_align_up v al) mod unat al = 0"
proof -
  have al: "unat al = 2 ^ n" by (rule pow2_unat [OF p])
  have m: "al - 1 = mask n" using p by (simp add: pow2_def mask_eq_exp_minus_1)
  have m': "unat (mask n :: usize) = 2 ^ n - 1"
    unfolding m [symmetric] using al by (subst unat_sub) (simp_all add: word_le_nat_alt)
  have s: "unat (v + mask n) = unat v + (2 ^ n - 1)"
    using r al m' by (subst unat_plus_small) auto
  have u: "unat (arena_align_up v al) = (unat v + (2 ^ n - 1)) - (unat v + (2 ^ n - 1)) mod 2 ^ n"
    unfolding arena_align_up_def Let_def m by (simp add: and_not_mask_unat s)
  have lt: "(unat v + (2 ^ n - 1)) mod 2 ^ n < 2 ^ n" by simp
  show "unat v \<le> unat (arena_align_up v al)" unfolding u using lt by linarith
  have "(0 :: nat) < 2 ^ n" by simp
  then show "unat (arena_align_up v al) < unat v + unat al" unfolding u al by linarith
  show "unat (arena_align_up v al) mod unat al = 0"
    unfolding u al by (simp add: minus_mod_eq_mult_div)
qed


section \<open>The invariant\<close>

abbreviation fin :: "block \<Rightarrow> ptr \<Rightarrow> nat" where
  "fin b h \<equiv> unat h + unat (blk_total b)"

abbreviation arena_end :: "arena \<Rightarrow> nat" where
  "arena_end a \<equiv> unat (ar_base a) + unat (ar_bump a)"

fun fchain :: "(ptr \<rightharpoonup> block) \<Rightarrow> ptr \<Rightarrow> ptr list \<Rightarrow> bool" where
  "fchain m p [] = (p = null_ptr)"
| "fchain m p (h # hs) = (p = h \<and> h \<noteq> null_ptr \<and> (\<exists>b. m h = Some b \<and> fchain m (blk_next b) hs))"

definition blocks_ok :: "arena \<Rightarrow> bool" where
  "blocks_ok a = ((\<forall>h b. hdrs a h = Some b \<longrightarrow>
      unat (ar_base a) \<le> unat h \<and> 16 \<le> unat (blk_total b) \<and> fin b h \<le> arena_end a) \<and>
    (\<forall>h b h' b'. hdrs a h = Some b \<longrightarrow> hdrs a h' = Some b' \<longrightarrow> h \<noteq> h' \<longrightarrow>
      fin b h \<le> unat h' \<or> fin b' h' \<le> unat h))"

definition slots_ok :: "arena \<Rightarrow> ptr list \<Rightarrow> bool" where
  "slots_ok a fs = ((\<forall>s h. slots a s = Some h \<longrightarrow> h \<noteq> 0 \<longrightarrow>
      h \<notin> set fs \<and> (\<exists>b. hdrs a h = Some b \<and> unat h + 12 \<le> unat s \<and>
        unat s + 4 + unat (blk_payload_size b) \<le> fin b h)) \<and>
    (\<forall>s s' h. slots a s = Some h \<longrightarrow> slots a s' = Some h \<longrightarrow> h \<noteq> 0 \<longrightarrow> s = s'))"

definition arena_ok :: "arena \<Rightarrow> ptr list \<Rightarrow> bool" where
  "arena_ok a fs = (ar_base a \<noteq> 0 \<and> unat (ar_base a) + unat (ar_len a) < 2 ^ 32 \<and>
     unat (ar_bump a) \<le> unat (ar_len a) \<and>
     blocks_ok a \<and> slots_ok a fs \<and> fchain (hdrs a) (ar_free a) fs \<and> distinct fs)"

text \<open>The live payloads and their sizes.\<close>

definition live_payload :: "arena \<Rightarrow> ptr \<Rightarrow> bool" where
  "live_payload a p = (\<exists>h. slots a (p - 4) = Some h \<and> h \<noteq> 0)"

definition size_at :: "arena \<Rightarrow> ptr \<Rightarrow> nat" where
  "size_at a p = unat (blk_payload_size (the (hdrs a (the (slots a (p - 4))))))"

definition room_for :: "arena \<Rightarrow> usize \<Rightarrow> usize \<Rightarrow> bool" where
  "room_for a sz al = (unat (ar_base a) + unat (ar_len a) + unat sz + unat al + 16 \<le> 2 ^ 32)"

definition disjoint_from_live :: "arena \<Rightarrow> ptr \<Rightarrow> nat \<Rightarrow> bool" where
  "disjoint_from_live a p n = (\<forall>q. live_payload a q \<longrightarrow>
     unat p + n + 4 \<le> unat q \<or> unat q + size_at a q + 4 \<le> unat p)"

lemma live_block:
  assumes "arena_ok a fs" and "live_payload a q"
  obtains h b where "slots a (q - 4) = Some h" "h \<noteq> 0" "h \<notin> set fs" "hdrs a h = Some b"
    "unat (q - 4) = unat q - 4" "4 \<le> unat q" "unat h + 16 \<le> unat q"
    "unat q + unat (blk_payload_size b) \<le> fin b h" "size_at a q = unat (blk_payload_size b)"
proof -
  from assms(2) obtain h where h: "slots a (q - 4) = Some h" "h \<noteq> 0" by (auto simp: live_payload_def)
  have "slots_ok a fs" using assms(1) by (simp add: arena_ok_def)
  with h have "h \<notin> set fs \<and> (\<exists>b. hdrs a h = Some b \<and> unat h + 12 \<le> unat (q - 4) \<and>
      unat (q - 4) + 4 + unat (blk_payload_size b) \<le> fin b h)"
    unfolding slots_ok_def by blast
  then obtain b where b: "h \<notin> set fs" "hdrs a h = Some b" "unat h + 12 \<le> unat (q - 4)"
      "unat (q - 4) + 4 + unat (blk_payload_size b) \<le> fin b h"
    by blast
  have "fin b h \<le> arena_end a" "arena_end a < 2 ^ 32"
    using assms(1) b(2) by (auto simp: arena_ok_def blocks_ok_def)
  then have "unat (q - 4) + unat (4 :: ptr) < 2 ^ LENGTH(32)" using b(4) by simp
  from unat_plus_small [OF this] have "unat q = unat (q - 4) + 4" by simp
  with h b show thesis by (intro that [of h b]) (simp_all add: size_at_def)
qed

section \<open>The scan of the free list\<close>

lemma fchain_None: "fchain m 0 hs \<Longrightarrow> hs = []"
  by (cases hs) auto

lemma fchain_cong: "fchain m p hs \<Longrightarrow> \<forall>h\<in>set hs. m' h = m h \<Longrightarrow> fchain m' p hs"
  by (induction hs arbitrary: p) auto

lemma fchain_append: "fchain m p (us @ h # vs) \<Longrightarrow> \<exists>b. m h = Some b \<and> h \<noteq> 0 \<and> fchain m (blk_next b) vs"
  by (induction us arbitrary: p) auto

text \<open>Unlinking a block from the middle of the chain, by its predecessor.\<close>

lemma fchain_remove:
  "fchain m p (us @ q # h # vs) \<Longrightarrow> distinct (us @ q # h # vs) \<Longrightarrow> m q = Some bq \<Longrightarrow> m h = Some bh \<Longrightarrow>
   m' q = Some bq' \<Longrightarrow> blk_next bq' = blk_next bh \<Longrightarrow> \<forall>x. x \<noteq> q \<longrightarrow> x \<noteq> h \<longrightarrow> m' x = m x \<Longrightarrow>
   fchain m' p (us @ q # vs)"
proof (induction us arbitrary: p)
  case Nil
  then have "fchain m (blk_next bh) vs" by auto
  then have "fchain m' (blk_next bh) vs"
    by (rule fchain_cong) (use Nil.prems in auto)
  with Nil show ?case by auto
next
  case (Cons u us)
  then show ?case by auto
qed

definition fits :: "arena \<Rightarrow> usize \<Rightarrow> usize \<Rightarrow> ptr \<Rightarrow> bool" where
  "fits a sz al h = (case hdrs a h of None \<Rightarrow> False
     | Some b \<Rightarrow> payload_of h al + sz \<le> h + blk_total b)"

text \<open>The state after the block \<open>h\<close> is taken for \<open>sz\<close> bytes.\<close>

definition recycle :: "usize \<Rightarrow> usize \<Rightarrow> ptr \<Rightarrow> ptr \<Rightarrow> arena \<Rightarrow> arena" where
  "recycle sz al prev h a =
     (let b = the (hdrs a h);
          a1 = (if prev = null_ptr then a\<lparr>ar_free := blk_next b\<rparr>
                else a\<lparr>hdrs := (hdrs a)(prev \<mapsto> (the (hdrs a prev))\<lparr>blk_next := blk_next b\<rparr>)\<rparr>)
      in account_alloc sz
           (a1\<lparr>hdrs := (hdrs a1)(h \<mapsto> b\<lparr>blk_next := null_ptr, blk_payload_size := sz\<rparr>),
               slots := (slots a1)(payload_of h al - PTR_SLOT \<mapsto> h)\<rparr>))"

lemma alloc_scan_spec:
  assumes "fchain (hdrs a) cur vs" and "prev = 0 \<or> hdrs a prev \<noteq> None"
  shows "alloc_scan sz al prev cur a = Some (case List.find (fits a sz al) vs of
      None \<Rightarrow> (None, a)
    | Some h \<Rightarrow> (Some (payload_of h al),
        recycle sz al (last (prev # takeWhile (\<lambda>x. \<not> fits a sz al x) vs)) h a))"
  using assms
proof (induction vs arbitrary: prev cur)
  case Nil
  then show ?case by (subst alloc_scan.simps) simp
next
  case (Cons h vs)
  then obtain b where b: "cur = h" "h \<noteq> 0" "hdrs a h = Some b" "fchain (hdrs a) (blk_next b) vs" by auto
  show ?case
  proof (cases "fits a sz al h")
    case True
    then show ?thesis
      using b Cons.prems(2)
      by (subst alloc_scan.simps) (auto simp: fits_def recycle_def Let_def)
  next
    case False
    have "alloc_scan sz al h (blk_next b) a = Some (case List.find (fits a sz al) vs of
      None \<Rightarrow> (None, a)
    | Some x \<Rightarrow> (Some (payload_of x al),
        recycle sz al (last (h # takeWhile (\<lambda>x. \<not> fits a sz al x) vs)) x a))"
      by (rule Cons.IH [OF b(4)]) (use b in simp)
    moreover have "last (prev # takeWhile (\<lambda>x. \<not> fits a sz al x) (h # vs))
        = last (h # takeWhile (\<lambda>x. \<not> fits a sz al x) vs)"
      using False by simp
    moreover have "\<not> payload_of h al + sz \<le> h + blk_total b"
      using False b by (simp add: fits_def)
    ultimately show ?thesis
      using b False
      by (subst alloc_scan.simps) (simp del: takeWhile.simps last.simps split: option.splits)
  qed
qed


section \<open>Allocation\<close>

lemma payload_of_spec:
  assumes "pow2 al n" and "unat h + 16 + unat al \<le> 2 ^ 32" and "unat al \<ge> 4"
  shows "unat h + 16 \<le> unat (payload_of h al)" "unat (payload_of h al) < unat h + 16 + unat al"
    "unat (payload_of h al) mod unat al = 0" "unat (payload_of h al - 4) = unat (payload_of h al) - 4"
proof -
  have e: "unat (h + (HDR_SIZE + PTR_SLOT)) = unat h + 16"
    using assms(2,3) by (subst unat_plus_small) simp_all
  have r: "unat (h + (HDR_SIZE + PTR_SLOT)) + unat al \<le> 2 ^ 32"
    using assms(2) e by simp
  from align_up_spec [OF assms(1) r] e
  show 1: "unat h + 16 \<le> unat (payload_of h al)" and "unat (payload_of h al) < unat h + 16 + unat al"
    and "unat (payload_of h al) mod unat al = 0"
    by (simp_all add: payload_of_def)
  show "unat (payload_of h al - 4) = unat (payload_of h al) - 4"
    using 1 by (subst unat_sub) (simp_all add: word_le_nat_alt)
qed

lemma account_alloc_simps [simp]:
  "hdrs (account_alloc sz a) = hdrs a" "slots (account_alloc sz a) = slots a"
  "ar_base (account_alloc sz a) = ar_base a" "ar_len (account_alloc sz a) = ar_len a"
  "ar_bump (account_alloc sz a) = ar_bump a" "ar_free (account_alloc sz a) = ar_free a"
  by (simp_all add: account_alloc_def Let_def)

text \<open>A block that is written anew, with its slot, for a payload of \<open>sz\<close> bytes.\<close>

lemma slots_ok_new:
  assumes ok: "slots_ok a fs" and h0: "h \<noteq> 0" and hfs: "h \<notin> set fs'" and sub: "set fs' \<subseteq> set fs"
    and nl: "\<forall>s. slots a s \<noteq> Some h"
    and b: "hdrs a' h = Some b" "unat h + 12 \<le> unat s" "unat s + 4 + unat (blk_payload_size b) \<le> fin b h"
    and sl: "slots a' = (slots a)(s \<mapsto> h)"
    and hd: "\<forall>x y. x \<noteq> h \<longrightarrow> hdrs a x = Some y \<longrightarrow> (\<exists>y'. hdrs a' x = Some y' \<and>
        blk_total y' = blk_total y \<and> blk_payload_size y' = blk_payload_size y)"
  shows "slots_ok a' fs'"
proof -
  have "g \<notin> set fs' \<and> (\<exists>b. hdrs a' g = Some b \<and> unat g + 12 \<le> unat t \<and>
        unat t + 4 + unat (blk_payload_size b) \<le> fin b g)" if g: "slots a' t = Some g" "g \<noteq> 0" for t g
  proof (cases "t = s")
    case True
    then show ?thesis using g sl hfs b by auto
  next
    case False
    then have t: "slots a t = Some g" using g(1) sl by simp
    then have "g \<noteq> h" using nl by auto
    from ok t g(2) obtain y where y: "g \<notin> set fs" "hdrs a g = Some y" "unat g + 12 \<le> unat t"
        "unat t + 4 + unat (blk_payload_size y) \<le> fin y g"
      unfolding slots_ok_def by blast
    with hd \<open>g \<noteq> h\<close> obtain y' where "hdrs a' g = Some y'" "blk_total y' = blk_total y"
        "blk_payload_size y' = blk_payload_size y" by blast
    with y sub show ?thesis by auto
  qed
  moreover have "t = t'" if "slots a' t = Some g" "slots a' t' = Some g" "g \<noteq> 0" for t t' g
    using that ok nl sl by (auto simp: slots_ok_def split: if_splits)
  ultimately show ?thesis unfolding slots_ok_def by blast
qed

text \<open>What one allocation guarantees, whichever way the block is found.\<close>

definition alloc_good :: "arena \<Rightarrow> usize \<Rightarrow> usize \<Rightarrow> ptr \<Rightarrow> arena \<Rightarrow> bool" where
  "alloc_good a sz al p a' =
     (\<not> live_payload a p \<and> unat p mod unat al = 0 \<and>
      unat (ar_base a) + 16 \<le> unat p \<and> unat p + unat sz \<le> unat (ar_base a) + unat (ar_len a) \<and>
      disjoint_from_live a p (unat sz) \<and> size_at a' p = unat sz \<and>
      (\<forall>q. live_payload a' q \<longleftrightarrow> q = p \<or> live_payload a q) \<and> (\<forall>q. live_payload a q \<longrightarrow> size_at a' q = size_at a q))"

lemma ptr_sub_inj: "(p :: ptr) - 4 = q - 4 \<longleftrightarrow> p = q"
  by simp

lemma alloc_goodI:
  assumes ok: "arena_ok a fs" and h0: "h \<noteq> 0" and nl: "\<forall>s. slots a s \<noteq> Some h"
    and p: "unat p mod unat al = 0" "unat h + 16 \<le> unat p" "unat p + unat sz \<le> e"
      "unat (ar_base a) \<le> unat h" "e \<le> unat (ar_base a) + unat (ar_len a)"
    and dis: "\<forall>g y. hdrs a g = Some y \<longrightarrow> g \<noteq> h \<longrightarrow> fin y g \<le> unat h \<or> e \<le> unat g"
    and a': "slots a' = (slots a)(p - 4 \<mapsto> h)" "\<exists>b. hdrs a' h = Some b \<and> blk_payload_size b = sz"
      "\<forall>x y. x \<noteq> h \<longrightarrow> hdrs a x = Some y \<longrightarrow> (\<exists>y'. hdrs a' x = Some y' \<and>
        blk_payload_size y' = blk_payload_size y)"
    and fresh: "\<forall>g. slots a (p - 4) = Some g \<longrightarrow> g = 0 \<or> (\<exists>y. hdrs a g = Some y \<and> g \<noteq> h)"
  shows "alloc_good a sz al p a'"
proof -
  have clear: "unat p + unat sz + 4 \<le> unat q \<or> unat q + size_at a q + 4 \<le> unat p" if q: "live_payload a q" for q
  proof -
    from live_block [OF ok q] obtain g y where g: "slots a (q - 4) = Some g" "g \<noteq> 0" "hdrs a g = Some y"
      "unat g + 16 \<le> unat q" "unat q + unat (blk_payload_size y) \<le> fin y g"
      "size_at a q = unat (blk_payload_size y)" by blast
    have "g \<noteq> h" using g(1) nl by auto
    with dis g(3) have "fin y g \<le> unat h \<or> e \<le> unat g" by blast
    with g p show ?thesis by auto
  qed
  have np: "\<not> live_payload a p"
  proof
    assume "live_payload a p"
    from clear [OF this] show False by simp
  qed
  have lv: "live_payload a' q \<longleftrightarrow> q = p \<or> live_payload a q" for q
    using h0 np by (auto simp: live_payload_def a'(1) ptr_sub_inj)
  have sz: "size_at a' q = size_at a q" if q: "live_payload a q" for q
  proof -
    from live_block [OF ok q] obtain g y where g: "slots a (q - 4) = Some g" "hdrs a g = Some y" by blast
    have "g \<noteq> h" using g(1) nl by auto
    with g a'(3) obtain y' where "hdrs a' g = Some y'" "blk_payload_size y' = blk_payload_size y" by blast
    moreover have "q \<noteq> p" using q np by auto
    ultimately show ?thesis using g by (simp add: size_at_def a'(1) ptr_sub_inj)
  qed
  have "size_at a' p = unat sz" using a'(1,2) by (auto simp: size_at_def)
  with p np lv sz clear show ?thesis by (auto simp: alloc_good_def disjoint_from_live_def)
qed


lemma arena_okD:
  assumes "arena_ok a fs"
  shows "blocks_ok a" "slots_ok a fs" "fchain (hdrs a) (ar_free a) fs" "distinct fs"
    "ar_base a \<noteq> 0" "unat (ar_bump a) \<le> unat (ar_len a)"
    "unat (ar_base a) + unat (ar_len a) < 2 ^ 32"
  using assms by (auto simp: arena_ok_def)

lemma recycle_hdrs:
  assumes "hdrs a h = Some b" and "prev = 0 \<or> prev \<noteq> h \<and> hdrs a prev = Some pb"
  shows "hdrs (recycle sz al prev h a) x =
     (if x = h then Some (b\<lparr>blk_next := null_ptr, blk_payload_size := sz\<rparr>)
      else if x = prev \<and> prev \<noteq> 0 then Some (pb\<lparr>blk_next := blk_next b\<rparr>) else hdrs a x)"
    and "slots (recycle sz al prev h a) = (slots a)(payload_of h al - 4 \<mapsto> h)"
    and "ar_free (recycle sz al prev h a) = (if prev = 0 then blk_next b else ar_free a)"
    and "ar_base (recycle sz al prev h a) = ar_base a" "ar_len (recycle sz al prev h a) = ar_len a"
    and "ar_bump (recycle sz al prev h a) = ar_bump a"
  using assms by (auto simp: recycle_def Let_def)

lemma recycle_ok:
  assumes ok: "arena_ok a fs" and al: "pow2 al n" "4 \<le> unat al" and room: "room_for a sz al"
    and f: "List.find (fits a sz al) fs = Some h"
  shows "\<exists>fs'. arena_ok (recycle sz al (last (0 # takeWhile (\<lambda>x. \<not> fits a sz al x) fs)) h a) fs'
    \<and> alloc_good a sz al (payload_of h al) (recycle sz al (last (0 # takeWhile (\<lambda>x. \<not> fits a sz al x) fs)) h a)"
proof -
  define us where "us = takeWhile (\<lambda>x. \<not> fits a sz al x) fs"
  define pv where "pv = last (0 # us)"
  let ?a = "recycle sz al pv h a"
  note A = arena_okD [OF ok]
  have fit: "fits a sz al h" and hfs: "h \<in> set fs" using find_SomeD [OF f] by auto
  obtain vs where vs: "fs = us @ h # vs"
  proof -
    have "\<exists>vs. fs = takeWhile (\<lambda>x. \<not> fits a sz al x) fs @ h # vs"
      using f by (induction fs) (auto split: if_splits)
    then show thesis using that us_def by blast
  qed
  have dist: "distinct (us @ h # vs)" using A(4) vs by simp
  have ch: "fchain (hdrs a) (ar_free a) (us @ h # vs)" using A(3) vs by simp
  from fchain_append [OF ch] obtain b where b: "hdrs a h = Some b" "h \<noteq> 0" "fchain (hdrs a) (blk_next b) vs"
    by blast
  have ext: "unat (ar_base a) \<le> unat h" "16 \<le> unat (blk_total b)" "fin b h \<le> arena_end a"
    using A(1) b(1) by (auto simp: blocks_ok_def)
  have dj: "fin b h \<le> unat g \<or> fin y g \<le> unat h" if "hdrs a g = Some y" "g \<noteq> h" for g y
    using A(1) b(1) that unfolding blocks_ok_def by blast
  have rm: "unat (ar_base a) + unat (ar_len a) + unat sz + unat al + 16 \<le> 2 ^ 32"
    using room by (simp add: room_for_def)
  have hr: "unat h + 16 + unat al \<le> 2 ^ 32" using ext A(6) rm by simp
  note P = payload_of_spec [OF al(1) hr al(2)]
  have e1: "unat (payload_of h al + sz) = unat (payload_of h al) + unat sz"
    using P(2) ext A(6) rm by (subst unat_plus_small) simp_all
  have e2: "unat (h + blk_total b) = fin b h"
    using ext A(6,7) by (subst unat_plus_small) simp_all
  have fitn: "unat (payload_of h al) + unat sz \<le> fin b h"
    using fit b(1) e1 e2 by (simp add: fits_def word_le_nat_alt)
  have prev: "pv = 0 \<or> pv \<noteq> h \<and> hdrs a pv = Some (the (hdrs a pv))"
  proof (cases "us = []")
    case False
    then have pin: "pv \<in> set us" by (simp add: pv_def)
    then obtain xs ys where "fs = xs @ pv # ys" using vs by (metis append.assoc append_Cons in_set_conv_decomp)
    with fchain_append [of "hdrs a" "ar_free a" xs pv ys] A(3) have "hdrs a pv \<noteq> None" by auto
    then show ?thesis using pin dist by auto
  qed (simp add: pv_def)
  note R = recycle_hdrs [OF b(1) prev, of sz al]
  have nlv: "\<forall>s. slots a s \<noteq> Some h"
    using A(2) hfs b(2) by (auto simp: slots_ok_def)
  have tot: "\<exists>y'. hdrs ?a x = Some y' \<and> blk_total y' = blk_total y \<and> (x \<noteq> h \<longrightarrow> blk_payload_size y' = blk_payload_size y)"
    if "hdrs a x = Some y" for x y
    using that b(1) prev by (auto simp: R(1))
  have tot': "\<exists>y. hdrs a x = Some y \<and> blk_total y = blk_total y'" if "hdrs ?a x = Some y'" for x y'
    using that b(1) prev by (auto simp: R(1) split: if_splits)
  have "blocks_ok ?a"
    unfolding blocks_ok_def
  proof (intro conjI allI impI)
    fix x y' assume "hdrs ?a x = Some y'"
    with tot' obtain y where y: "hdrs a x = Some y" "blk_total y = blk_total y'" by blast
    then have "unat (ar_base a) \<le> unat x \<and> 16 \<le> unat (blk_total y) \<and> fin y x \<le> arena_end a"
      using A(1) unfolding blocks_ok_def by blast
    then show "unat (ar_base ?a) \<le> unat x" "16 \<le> unat (blk_total y')" "fin y' x \<le> arena_end ?a"
      using y(2) R(4,6) by simp_all
  next
    fix x y' g z' assume "hdrs ?a x = Some y'" "hdrs ?a g = Some z'" "x \<noteq> g"
    with tot' obtain y z where "hdrs a x = Some y" "blk_total y = blk_total y'" "hdrs a g = Some z" "blk_total z = blk_total z'"
      by metis
    with A(1) \<open>x \<noteq> g\<close> show "fin y' x \<le> unat g \<or> fin z' g \<le> unat x"
      unfolding blocks_ok_def by metis
  qed
  moreover have "slots_ok ?a (us @ vs)"
  proof (rule slots_ok_new [OF A(2) b(2) _ _ nlv])
    show "h \<notin> set (us @ vs)" using dist by auto
    show "set (us @ vs) \<subseteq> set fs" using arg_cong [OF vs, of set] by auto
    show "hdrs ?a h = Some (b\<lparr>blk_next := null_ptr, blk_payload_size := sz\<rparr>)" using R(1) by simp
    show "unat h + 12 \<le> unat (payload_of h al - 4)" using P by simp
    show "unat (payload_of h al - 4) + 4 + unat (blk_payload_size (b\<lparr>blk_next := null_ptr, blk_payload_size := sz\<rparr>))
        \<le> fin (b\<lparr>blk_next := null_ptr, blk_payload_size := sz\<rparr>) h"
      using P fitn by simp
    show "slots ?a = (slots a)(payload_of h al - 4 \<mapsto> h)" by (rule R(2))
    show "\<forall>x y. x \<noteq> h \<longrightarrow> hdrs a x = Some y \<longrightarrow> (\<exists>y'. hdrs ?a x = Some y' \<and>
        blk_total y' = blk_total y \<and> blk_payload_size y' = blk_payload_size y)"
      using tot by blast
  qed
  moreover have "fchain (hdrs ?a) (ar_free ?a) (us @ vs)"
  proof (cases "us = []")
    case True
    then have "fchain (hdrs ?a) (blk_next b) vs"
      using b(3) dist R(1) by (intro fchain_cong [OF b(3)]) (auto simp: pv_def)
    then show ?thesis using True R(3) by (simp add: pv_def)
  next
    case False
    then obtain ws q where q: "us = ws @ [q]" by (cases us rule: rev_cases) auto
    then have pq: "pv = q" by (simp add: pv_def)
    have q0: "q \<noteq> 0" "q \<noteq> h" "hdrs a q = Some (the (hdrs a q))"
    proof -
      have "fchain (hdrs a) (ar_free a) (ws @ q # h # vs)" using ch q by simp
      from fchain_append [OF this] show "q \<noteq> 0" "hdrs a q = Some (the (hdrs a q))" by auto
      show "q \<noteq> h" using dist q by auto
    qed
    have "fchain (hdrs ?a) (ar_free a) (ws @ q # vs)"
    proof (rule fchain_remove [where m = "hdrs a" and bq = "the (hdrs a q)" and bh = b and h = h
          and bq' = "(the (hdrs a q))\<lparr>blk_next := blk_next b\<rparr>"])
      show "fchain (hdrs a) (ar_free a) (ws @ q # h # vs)" using ch q by simp
      show "distinct (ws @ q # h # vs)" using dist q by simp
      show "hdrs a q = Some (the (hdrs a q))" by (rule q0(3))
      show "hdrs ?a q = Some ((the (hdrs a q))\<lparr>blk_next := blk_next b\<rparr>)"
        using R(1) [of q] q0 pq by simp
      show "\<forall>x. x \<noteq> q \<longrightarrow> x \<noteq> h \<longrightarrow> hdrs ?a x = hdrs a x" using R(1) pq by simp
    qed (use b(1) in simp_all)
    then show ?thesis using q R(3) pq q0 by simp
  qed
  ultimately have "arena_ok ?a (us @ vs)"
    using A dist R(4-6) by (auto simp: arena_ok_def)
  moreover have "alloc_good a sz al (payload_of h al) ?a"
  proof (rule alloc_goodI [OF ok b(2) nlv, where e = "fin b h"])
    show "\<forall>g. slots a (payload_of h al - 4) = Some g \<longrightarrow> g = 0 \<or> (\<exists>y. hdrs a g = Some y \<and> g \<noteq> h)"
      using A(2) nlv unfolding slots_ok_def by metis
    show "\<forall>g y. hdrs a g = Some y \<longrightarrow> g \<noteq> h \<longrightarrow> fin y g \<le> unat h \<or> fin b h \<le> unat g"
      using dj by blast
    show "\<exists>b. hdrs ?a h = Some b \<and> blk_payload_size b = sz" using R(1) by simp
    show "\<forall>x y. x \<noteq> h \<longrightarrow> hdrs a x = Some y \<longrightarrow> (\<exists>y'. hdrs ?a x = Some y' \<and> blk_payload_size y' = blk_payload_size y)"
      using tot by blast
    show "slots ?a = (slots a)(payload_of h al - 4 \<mapsto> h)" by (rule R(2))
  qed (use P fitn ext A(6) in auto)
  ultimately show ?thesis unfolding pv_def us_def by blast
qed


lemma total_arith:
  fixes B :: nat
  assumes "e + 16 \<le> P" and "B \<le> e"
  shows "P + s - B - (P - 16 - B) = s + 16"
  using assms by simp

lemma alloc_fresh_ok:
  assumes ok: "arena_ok a fs" and al: "pow2 al n" "4 \<le> unat al" and room: "room_for a sz al"
    and r: "alloc_fresh sz al a = (Some p, a')"
  shows "arena_ok a' fs \<and> alloc_good a sz al p a'"
proof -
  note A = arena_okD [OF ok]
  let ?start = "ar_base a + ar_bump a"
  have s: "unat ?start = arena_end a" using A(6,7) by (subst unat_plus_small) simp_all
  have rm: "unat (ar_base a) + unat (ar_len a) + unat sz + unat al + 16 \<le> 2 ^ 32"
    using room by (simp add: room_for_def)
  have hr: "unat ?start + 16 + unat al \<le> 2 ^ 32" using s A(6) rm by simp
  note P = payload_of_spec [OF al(1) hr al(2)]
  let ?p = "payload_of ?start al"
  let ?used = "?p + sz - ar_base a"
  let ?h = "?p - 16"
  have ps: "unat (?p + sz) = unat ?p + unat sz"
    using P(2) s A(6) rm by (subst unat_plus_small) simp_all
  have us: "unat ?used = unat ?p + unat sz - unat (ar_base a)"
    using P(1) s ps by (subst unat_sub) (simp_all add: word_le_nat_alt)
  have hs: "unat ?h = unat ?p - 16"
    using P(1) by (subst unat_sub) (simp_all add: word_le_nat_alt)
  have hb: "arena_end a \<le> unat ?h" using hs P(1) s by simp
  have h0: "?h \<noteq> 0"
  proof
    assume "?h = 0"
    then have "unat ?h = 0" by simp
    with hb have "unat (ar_base a) = 0" by simp
    with A(5) show False by (simp add: unat_eq_0)
  qed
  let ?b = "\<lparr>blk_total = ?used - (?h - ar_base a), blk_payload_size = sz, blk_next = null_ptr\<rparr>"
  have pe: "arena_align_up (?start + (HDR_SIZE + PTR_SLOT)) al = ?p" by (simp add: payload_of_def)
  have hdr16: "?p - (PTR_SLOT + HDR_SIZE) = ?h" by simp
  have r1: "(if ?used > ar_len a then (None, a) else (Some ?p, account_alloc sz
      (a\<lparr>hdrs := (hdrs a)(?h \<mapsto> ?b), slots := (slots a)(?p - PTR_SLOT \<mapsto> ?h), ar_bump := ?used\<rparr>)))
      = (Some p, a')"
    using r unfolding alloc_fresh_def Let_def pe hdr16 .
  have nx: "\<not> ?used > ar_len a"
  proof
    assume "?used > ar_len a"
    with r1 show False by simp
  qed
  note r2 = r1 [unfolded if_not_P [OF nx] prod.inject option.inject]
  have p: "p = ?p" by (rule conjunct1 [OF r2, symmetric])
  have a': "a' = account_alloc sz (a\<lparr>hdrs := (hdrs a)(?h \<mapsto> ?b), slots := (slots a)(?p - PTR_SLOT \<mapsto> ?h),
        ar_bump := ?used\<rparr>)"
    by (rule conjunct2 [OF r2, symmetric])
  have ul: "unat ?used \<le> unat (ar_len a)" using nx by (simp add: word_less_nat_alt)
  have ht: "unat (?h - ar_base a) = unat ?h - unat (ar_base a)"
    using hb by (subst unat_sub) (simp_all add: word_le_nat_alt)
  have "unat (?used - (?h - ar_base a)) = unat ?used - unat (?h - ar_base a)"
    by (rule unat_sub) (use us ht hs P(1) s in \<open>unfold word_le_nat_alt us ht hs, simp\<close>)
  then have bt: "unat (blk_total ?b) = unat sz + 16"
    unfolding block.simps us ht hs by (elim trans) (rule total_arith [of "arena_end a"], use P(1) s in simp_all)
  have fb: "fin ?b ?h = unat ?p + unat sz" using bt hs P(1) by simp
  have end': "arena_end a' = unat ?p + unat sz" using a' us P(1) s by simp
  have F: "hdrs a' = (hdrs a)(?h \<mapsto> ?b)" "slots a' = (slots a)(?p - 4 \<mapsto> ?h)" "ar_base a' = ar_base a"
    "ar_len a' = ar_len a" "ar_bump a' = ?used" "ar_free a' = ar_free a"
    using a' by simp_all
  have new: "hdrs a ?h = None"
  proof (rule ccontr)
    assume "hdrs a ?h \<noteq> None"
    then obtain y where "hdrs a ?h = Some y" by auto
    then have "16 \<le> unat (blk_total y)" "fin y ?h \<le> arena_end a"
      using A(1) unfolding blocks_ok_def by blast+
    with hb show False by simp
  qed
  have nfs: "?h \<notin> set fs"
  proof
    assume "?h \<in> set fs"
    then obtain xs ys where "fs = xs @ ?h # ys" by (meson split_list)
    with fchain_append [of "hdrs a" "ar_free a" xs ?h ys] A(3) new show False by auto
  qed
  have nlv: "\<forall>s. slots a s \<noteq> Some ?h"
  proof (intro allI notI)
    fix s assume s: "slots a s = Some ?h"
    with A(2) h0 obtain y where "hdrs a ?h = Some y" unfolding slots_ok_def by blast
    with new show False by simp
  qed
  have old: "fin y g \<le> unat ?h" if "hdrs a g = Some y" for g y
  proof -
    have "fin y g \<le> arena_end a" using A(1) that unfolding blocks_ok_def by blast
    with hb show ?thesis by simp
  qed
  have oldb: "unat (ar_base a) \<le> unat g \<and> 16 \<le> unat (blk_total y) \<and> fin y g \<le> arena_end a"
    if "hdrs a g = Some y" for g y
    using A(1) that unfolding blocks_ok_def by blast
  have ge: "arena_end a \<le> arena_end a'" using end' hb hs P(1) by simp
  have "blocks_ok a'"
    unfolding blocks_ok_def
  proof (intro conjI allI impI)
    fix x y assume x: "hdrs a' x = Some y"
    show "unat (ar_base a') \<le> unat x" "16 \<le> unat (blk_total y)" "fin y x \<le> arena_end a'"
      using x oldb [of x y] ge hb bt fb end' F(1,3) by (auto split: if_splits)
  next
    fix x y g z assume x: "hdrs a' x = Some y" and g: "hdrs a' g = Some z" and ne: "x \<noteq> g"
    show "fin y x \<le> unat g \<or> fin z g \<le> unat x"
    proof (cases "x = ?h \<or> g = ?h")
      case True
      then show ?thesis using x g ne old [of x y] old [of g z] F(1) by auto
    next
      case False
      then show ?thesis using x g ne A(1) F(1) unfolding blocks_ok_def by (metis fun_upd_other)
    qed
  qed
  moreover have "slots_ok a' fs"
  proof (rule slots_ok_new [OF A(2) h0 nfs subset_refl nlv])
    show "hdrs a' ?h = Some ?b" using F(1) by simp
    show "slots a' = (slots a)(?p - 4 \<mapsto> ?h)" by (rule F(2))
    show "unat ?h + 12 \<le> unat (?p - 4)" using P(1,4) hs by simp
    show "unat (?p - 4) + 4 + unat (blk_payload_size ?b) \<le> fin ?b ?h"
      unfolding fb using P(1,4) by simp
    show "\<forall>x y. x \<noteq> ?h \<longrightarrow> hdrs a x = Some y \<longrightarrow> (\<exists>y'. hdrs a' x = Some y' \<and>
        blk_total y' = blk_total y \<and> blk_payload_size y' = blk_payload_size y)"
      using F(1) by simp
  qed
  moreover have "fchain (hdrs a') (ar_free a') fs"
    unfolding F(6) by (rule fchain_cong [OF A(3)]) (use nfs F(1) in auto)
  ultimately have "arena_ok a' fs" using A F ul by (simp add: arena_ok_def)
  moreover have "alloc_good a sz al ?p a'"
  proof (rule alloc_goodI [OF ok h0 nlv, where e = "unat ?p + unat sz"])
    show "unat ?p + unat sz \<le> unat (ar_base a) + unat (ar_len a)" using us ul P(1) s by simp
    show "\<forall>g y. hdrs a g = Some y \<longrightarrow> g \<noteq> ?h \<longrightarrow> fin y g \<le> unat ?h \<or> unat ?p + unat sz \<le> unat g"
      using old by blast
    show "\<forall>g. slots a (?p - 4) = Some g \<longrightarrow> g = 0 \<or> (\<exists>y. hdrs a g = Some y \<and> g \<noteq> ?h)"
      using A(2) nlv unfolding slots_ok_def by metis
  qed (use P hs hb F in auto)
  ultimately show ?thesis using p by simp
qed

lemma alloc_fresh_None: "alloc_fresh sz al a = (None, a') \<Longrightarrow> a' = a"
  by (auto simp: alloc_fresh_def Let_def split: if_splits)

theorem alloc_ok:
  assumes ok: "arena_ok a fs" and al: "pow2 al n" and room: "room_for a sz (max al 4)" and sz: "sz \<noteq> 0"
  shows "\<exists>r a'. alloc sz al a = Some (r, a') \<and> (case r of None \<Rightarrow> a' = a
     | Some p \<Rightarrow> (\<exists>fs'. arena_ok a' fs') \<and> alloc_good a sz (max al 4) p a')"
proof -
  note A = arena_okD [OF ok]
  obtain m where m: "pow2 (max al 4) m"
  proof (cases "al \<le> 4")
    case True
    then have "pow2 (max al 4) 2" by (simp add: pow2_def max_def)
    then show thesis by (rule that)
  next
    case False
    then have "max al 4 = al" by simp
    with al that show thesis by simp
  qed
  have m4: "4 \<le> unat (max al 4)" by (simp add: max_def word_le_nat_alt)
  have rdy: "is_ready a" using A(5) by (simp add: is_ready_def)
  have scan: "alloc_scan sz (max al 4) 0 (ar_free a) a = Some (case List.find (fits a sz (max al 4)) fs of
      None \<Rightarrow> (None, a)
    | Some h \<Rightarrow> (Some (payload_of h (max al 4)),
        recycle sz (max al 4) (last (0 # takeWhile (\<lambda>x. \<not> fits a sz (max al 4) x) fs)) h a))"
    by (rule alloc_scan_spec [OF A(3)]) simp
  show ?thesis
  proof (cases "List.find (fits a sz (max al 4)) fs")
    case None
    obtain r a' where fr: "alloc_fresh sz (max al 4) a = (r, a')" by (cases "alloc_fresh sz (max al 4) a")
    then have "alloc sz al a = Some (r, a')"
      using rdy sz scan None by (simp add: alloc_def Let_def)
    moreover have "case r of None \<Rightarrow> a' = a
       | Some p \<Rightarrow> (\<exists>fs'. arena_ok a' fs') \<and> alloc_good a sz (max al 4) p a'"
    proof (cases r)
      case None
      with fr show ?thesis using alloc_fresh_None by auto
    next
      case (Some p)
      with fr alloc_fresh_ok [OF ok m m4 room] show ?thesis by auto
    qed
    ultimately show ?thesis by blast
  next
    case (Some h)
    from recycle_ok [OF ok m m4 room Some] rdy sz scan Some show ?thesis
      by (simp add: alloc_def Let_def)
  qed
qed

section \<open>Freeing\<close>

theorem free_ok:
  assumes ok: "arena_ok a fs" and lv: "live_payload a p" and p0: "p \<noteq> 0"
  shows "\<exists>a' fs'. arena_free p a = Some a' \<and> arena_ok a' fs' \<and>
    (\<forall>q. live_payload a' q \<longleftrightarrow> live_payload a q \<and> q \<noteq> p) \<and> (\<forall>q. live_payload a' q \<longrightarrow> size_at a' q = size_at a q) \<and>
    unat (ar_live a') = unat (ar_live a) - size_at a p"
proof -
  note A = arena_okD [OF ok]
  from live_block [OF ok lv] obtain h b where h: "slots a (p - 4) = Some h" "h \<noteq> 0" "h \<notin> set fs"
    "hdrs a h = Some b" "size_at a p = unat (blk_payload_size b)" by blast
  let ?a = "a\<lparr>hdrs := (hdrs a)(h \<mapsto> b\<lparr>blk_next := ar_free a\<rparr>), ar_free := h,
      slots := (slots a)(p - 4 \<mapsto> null_ptr), ar_live := sat_sub (ar_live a) (blk_payload_size b),
      ar_frees := ar_frees a + 1\<rparr>"
  have run: "arena_free p a = Some ?a"
    using p0 A(5) h by (simp add: arena_free_def is_ready_def)
  have tot: "blk_total y' = blk_total y \<and> blk_payload_size y' = blk_payload_size y"
    if "hdrs ?a x = Some y'" "hdrs a x = Some y" for x y y'
    using that h(4) by (auto split: if_splits)
  have dom: "\<exists>y. hdrs a x = Some y" if "hdrs ?a x = Some y'" for x y'
    using that h(4) by (auto split: if_splits)
  have dom': "\<exists>y'. hdrs ?a x = Some y'" if "hdrs a x = Some y" for x y
    using that by auto
  have "blocks_ok ?a"
    unfolding blocks_ok_def
  proof (intro conjI allI impI)
    fix x y' assume x: "hdrs ?a x = Some y'"
    from dom [OF x] obtain y where y: "hdrs a x = Some y" by blast
    have "unat (ar_base a) \<le> unat x \<and> 16 \<le> unat (blk_total y) \<and> fin y x \<le> arena_end a"
      using A(1) y unfolding blocks_ok_def by blast
    then show "unat (ar_base ?a) \<le> unat x" "16 \<le> unat (blk_total y')" "fin y' x \<le> arena_end ?a"
      using tot [OF x y] by simp_all
  next
    fix x y' g z' assume x: "hdrs ?a x = Some y'" and g: "hdrs ?a g = Some z'" and "x \<noteq> g"
    from dom [OF x] dom [OF g] obtain y z where y: "hdrs a x = Some y" "hdrs a g = Some z" by blast
    have "fin y x \<le> unat g \<or> fin z g \<le> unat x"
      using A(1) y \<open>x \<noteq> g\<close> unfolding blocks_ok_def by blast
    then show "fin y' x \<le> unat g \<or> fin z' g \<le> unat x"
      using tot [OF x y(1)] tot [OF g y(2)] by simp
  qed
  moreover have "slots_ok ?a (h # fs)"
    unfolding slots_ok_def
  proof (intro conjI allI impI)
    fix s g assume s: "slots ?a s = Some g" "g \<noteq> 0"
    then have s': "slots a s = Some g" "s \<noteq> p - 4" by (auto split: if_splits)
    have "g \<noteq> h"
    proof
      assume "g = h"
      with s' h A(2) have "s = p - 4" unfolding slots_ok_def by blast
      with s'(2) show False by simp
    qed
    from A(2) s'(1) s(2) obtain y where y: "g \<notin> set fs" "hdrs a g = Some y" "unat g + 12 \<le> unat s"
        "unat s + 4 + unat (blk_payload_size y) \<le> fin y g" unfolding slots_ok_def by blast
    then show "g \<notin> set (h # fs)" and "\<exists>b. hdrs ?a g = Some b \<and> unat g + 12 \<le> unat s \<and>
        unat s + 4 + unat (blk_payload_size b) \<le> fin b g"
      using \<open>g \<noteq> h\<close> by auto
  next
    fix s s' g assume "slots ?a s = Some g" "slots ?a s' = Some g" "g \<noteq> 0"
    then have "slots a s = Some g" "slots a s' = Some g" by (auto split: if_splits)
    with A(2) \<open>g \<noteq> 0\<close> show "s = s'" unfolding slots_ok_def by blast
  qed
  moreover have "fchain (hdrs ?a) (ar_free ?a) (h # fs)"
  proof -
    have "fchain (hdrs ?a) (ar_free a) fs"
      by (rule fchain_cong [OF A(3)]) (use h(3) in auto)
    then show ?thesis using h(2) by simp
  qed
  ultimately have "arena_ok ?a (h # fs)" using A h(3) by (simp add: arena_ok_def)
  moreover have lv': "live_payload ?a q \<longleftrightarrow> live_payload a q \<and> q \<noteq> p" for q
    by (auto simp: live_payload_def)
  moreover have "size_at ?a q = size_at a q" if "live_payload ?a q" for q
  proof -
    from that lv' have q: "live_payload a q" "q \<noteq> p" by auto
    from live_block [OF ok q(1)] obtain g y where g: "slots a (q - 4) = Some g" "hdrs a g = Some y" by blast
    from dom' [OF g(2)] obtain y' where y': "hdrs ?a g = Some y'" by blast
    have "slots ?a (q - 4) = Some g" using g(1) q(2) by (simp add: ptr_sub_inj)
    then have "size_at ?a q = unat (blk_payload_size y')" using y' unfolding size_at_def by simp
    moreover have "size_at a q = unat (blk_payload_size y)" using g unfolding size_at_def by simp
    ultimately show ?thesis using tot [OF y' g(2)] by simp
  qed
  moreover have "unat (ar_live ?a) = unat (ar_live a) - size_at a p"
    using h(5) by (simp add: unat_sat_sub)
  ultimately show ?thesis
    using run by (intro exI [of _ ?a] exI [of _ "h # fs"]) (intro conjI allI impI, simp_all only:)
qed

text \<open>A second \<open>free\<close> of the same payload changes nothing (the slot is poisoned).\<close>

theorem double_free_ignored:
  assumes ok: "arena_ok a fs" and lv: "live_payload a p" and p0: "p \<noteq> 0" and f: "arena_free p a = Some a'"
  shows "arena_free p a' = Some a'"
proof -
  note A = arena_okD [OF ok]
  from live_block [OF ok lv] obtain h b where h: "slots a (p - 4) = Some h" "h \<noteq> 0" "hdrs a h = Some b"
    by blast
  have "slots a' (p - 4) = Some 0" "is_ready a'"
    using f p0 A(5) h by (auto simp: arena_free_def is_ready_def)
  then show ?thesis using p0 by (simp add: arena_free_def)
qed

theorem arena_init_ok:
  assumes "base \<noteq> 0" and "unat base + unat len < 2 ^ 32"
  shows "arena_ok (arena_init base len arena_empty) []" "\<not> live_payload (arena_init base len arena_empty) p"
  using assms by (auto simp: arena_init_def arena_empty_def arena_ok_def blocks_ok_def slots_ok_def live_payload_def)

end
