(* ===== verification/RkSpawn.thy ===== *)
theory RkSpawn
  imports RkSched
begin

text \<open>
  Start-up and the life of a task: \<^verbatim>\<open>init_with\<close>, \<^verbatim>\<open>set_slice\<close>, the spawn path of
  \<^verbatim>\<open>src/scheduler.rs\<close> and \<^verbatim>\<open>src/thread.rs\<close>, the exit path of
  \<^verbatim>\<open>src/trampoline.rs\<close>, deferred reclamation, and the layout of closure blocks
  (\<^verbatim>\<open>src/closure.rs\<close>).

  The functions of the port (\<^verbatim>\<open>src/arch/\<close>) are the fields of the record \<open>port\<close>; the
  kernel code is generic in them, as the Rust code is.  A Rust \<^verbatim>\<open>Result\<close> is a sum, \<open>Inl\<close>
  the error.  A freed TCB leaves the heap map, so a later access through a stale pointer is
  \<open>None\<close>.
\<close>

unbundle bit_operations_syntax

section \<open>The porting surface\<close>

datatype spawn_error = SpawnNotInitialized | ArenaExhausted | Backend config_error

record port =
  port_plan :: "scheduler_config \<Rightarrow> config_error + timer_plan"
  port_limits :: "kernel \<Rightarrow> platform_limits"
  port_ns :: "u32 \<Rightarrow> kernel \<Rightarrow> u64"
  port_adopt :: "ptr \<Rightarrow> kernel \<Rightarrow> ((config_error + unit) \<times> kernel) option"
  port_start :: "timer_plan \<Rightarrow> kernel \<Rightarrow> (config_error + unit) \<times> kernel"
  port_retune :: "timer_plan \<Rightarrow> kernel \<Rightarrow> (config_error + unit) \<times> kernel"
  port_create :: "ptr \<Rightarrow> usize \<Rightarrow> kernel \<Rightarrow> ((spawn_error + unit) \<times> kernel) option"
  port_pinned :: "ptr \<Rightarrow> bool"
  port_reclaimed :: "ptr \<Rightarrow> kernel \<Rightarrow> kernel option"
  port_default_arena :: ptr

section \<open>Memory and identifiers\<close>

definition alloc_tcb :: "kernel \<Rightarrow> (ptr option \<times> kernel) option" where
  "alloc_tcb k = do {
     (r, a) \<leftarrow> alloc tcb_size tcb_align (karena k);
     (case r of
        None \<Rightarrow> Some (None, k\<lparr>karena := a\<rparr>)
      | Some p \<Rightarrow> Some (Some p, k\<lparr>karena := a, heap := (heap k)(p \<mapsto> zero_tcb), nodes := nodes k + 1\<rparr>))
   }"

definition alloc_block :: "usize \<Rightarrow> usize \<Rightarrow> kernel \<Rightarrow> (ptr option \<times> kernel) option" where
  "alloc_block sz align k = do {
     (r, a) \<leftarrow> alloc sz align (karena k);
     Some (r, k\<lparr>karena := a\<rparr>)
   }"

definition free_block :: "ptr \<Rightarrow> kernel \<Rightarrow> kernel option" where
  "free_block p k = do { a \<leftarrow> arena_free p (karena k); Some (k\<lparr>karena := a\<rparr>) }"

definition free_tcb :: "ptr \<Rightarrow> kernel \<Rightarrow> kernel option" where
  "free_tcb p k = do { k \<leftarrow> free_block p k; Some (k\<lparr>heap := (heap k)(p := None)\<rparr>) }"

definition take_id :: "kernel \<Rightarrow> u32 \<times> kernel" where
  "take_id k = (next_id k, k\<lparr>next_id := next_id k + 1\<rparr>)"

section \<open>Closure blocks\<close>

text \<open>A closure type \<^verbatim>\<open>F\<close> is given by its size and its alignment.\<close>

definition HEADER_SIZE :: usize where
  "HEADER_SIZE = 8"

definition closure_align_up :: "usize \<Rightarrow> usize \<Rightarrow> usize" where
  "closure_align_up v align = (v + (align - 1)) AND NOT (align - 1)"

definition block_align_for :: "usize \<Rightarrow> usize" where
  "block_align_for f_align = (let base = 4 in if f_align > base then f_align else base)"

definition block_size_for :: "usize \<Rightarrow> usize \<Rightarrow> usize" where
  "block_size_for f_size f_align =
     closure_align_up (HEADER_SIZE + f_align) (block_align_for f_align) + f_size"

text \<open>Where \<^verbatim>\<open>place\<close> puts the closure value, relative to the block.\<close>

definition closure_data_off :: "usize \<Rightarrow> usize" where
  "closure_data_off f_align = closure_align_up HEADER_SIZE (block_align_for f_align)"

section \<open>Linking a node below its parent\<close>

definition set_heap :: "tcb_heap \<Rightarrow> kernel \<Rightarrow> kernel" where
  "set_heap h k = k\<lparr>heap := h\<rparr>"

definition insert_child :: "ptr \<Rightarrow> ptr \<Rightarrow> kernel \<Rightarrow> kernel option" where
  "insert_child par node k = do {
     g \<leftarrow> rd k par;
     let cur = current_child g;
     l \<leftarrow> is_linked k cur;
     anchor \<leftarrow> (if l then do { c \<leftarrow> rd k cur; Some (if parent c = par then cur else children_head g) }
                else Some (children_head g));
     l \<leftarrow> is_linked k anchor;
     h \<leftarrow> insert_after (if l then anchor else null_ptr) node (heap k);
     let k = set_heap h k;
     g \<leftarrow> rd k par;
     k \<leftarrow> (if children_head g = null_ptr then upd (\<lambda>t. t\<lparr>children_head := node\<rparr>) par k else Some k);
     g \<leftarrow> rd k par;
     k \<leftarrow> (if current_child g = null_ptr then upd (\<lambda>t. t\<lparr>current_child := node\<rparr>) par k else Some k);
     Some (if par = root k then k\<lparr>ring_head := node\<rparr> else k)
   }"

definition spawn_group_node :: "ptr \<Rightarrow> u32 \<Rightarrow> kernel \<Rightarrow> ((spawn_error + ptr) \<times> kernel) option" where
  "spawn_group_node par quantum_ticks k =
     (if \<not> is_ready (karena k) then Some (Inl SpawnNotInitialized, k)
      else if par = null_ptr then Some (Inl SpawnNotInitialized, k)
      else do {
        (r, k) \<leftarrow> alloc_tcb k;
        (case r of
           None \<Rightarrow> Some (Inl ArenaExhausted, k)
         | Some p \<Rightarrow> do {
             let (i, k) = take_id k;
             k \<leftarrow> upd (\<lambda>t. t\<lparr>tid := i, st := Ready, kind := Group, parent := par,
                    children_head := null_ptr, current_child := null_ptr,
                    slice_cycles := max quantum_ticks 1, remaining_cycles := max quantum_ticks 1\<rparr>) p k;
             k \<leftarrow> insert_child par p k;
             Some (Inr p, k)
           })
      })"

definition spawn_internal ::
  "port \<Rightarrow> ptr \<Rightarrow> u32 \<Rightarrow> usize \<times> usize \<Rightarrow> usize \<Rightarrow> kernel \<Rightarrow> ((spawn_error + ptr) \<times> kernel) option" where
  "spawn_internal P par quantum_ticks f stack_sz k =
     (if \<not> is_ready (karena k) then Some (Inl SpawnNotInitialized, k)
      else do {
        (r, k) \<leftarrow> alloc_tcb k;
        (case r of
           None \<Rightarrow> Some (Inl ArenaExhausted, k)
         | Some p \<Rightarrow> do {
             (b, k) \<leftarrow> alloc_block (block_size_for (fst f) (snd f)) (block_align_for (snd f)) k;
             (case b of
                None \<Rightarrow> do { k \<leftarrow> free_tcb p k; Some (Inl ArenaExhausted, k) }
              | Some blob \<Rightarrow> do {
                  k \<leftarrow> upd (\<lambda>t. t\<lparr>closure_block := blob\<rparr>) p k;
                  let (i, k) = take_id k;
                  k \<leftarrow> upd (\<lambda>t. t\<lparr>tid := i, st := Ready, slices_run := 0, tswitches := 0, kind := Leaf,
                         parent := par, slice_cycles := max quantum_ticks 1,
                         remaining_cycles := max quantum_ticks 1\<rparr>) p k;
                  (e, k) \<leftarrow> port_create P p stack_sz k;
                  (case e of
                     Inl err \<Rightarrow> do {
                       k \<leftarrow> free_block blob k;
                       k \<leftarrow> free_tcb p k;
                       Some (Inl err, k)
                     }
                   | Inr _ \<Rightarrow> do {
                       k \<leftarrow> insert_child par p k;
                       let k = k\<lparr>total_threads := total_threads k + 1,
                                 active_threads := active_threads k + 1\<rparr>;
                       Some (Inr p, if running k then request_switch k else k)
                     })
                })
           })
      })"

section \<open>Quanta\<close>

definition quantum_ticks_for :: "port \<Rightarrow> slice \<Rightarrow> kernel \<Rightarrow> spawn_error + u32" where
  "quantum_ticks_for P sl k =
     (if sl = SliceDefault then Inr 1
      else let tick_ns = port_ns P (kc_slice_cycles (config k)) k in
        if tick_ns = 0 then Inl SpawnNotInitialized
        else let requested_ns = as_nanos sl (kc_timer_hz (config k)) in
          if requested_ns = 0 \<or> requested_ns < tick_ns
          then Inl (Backend (QuantumBelowTick requested_ns tick_ns))
          else if requested_ns mod tick_ns \<noteq> 0
          then Inl (Backend (QuantumNotMultipleOfTick requested_ns tick_ns))
          else let n = requested_ns div tick_ns in
            if n > 0xFFFFFFFF then Inl (Backend (QuantumTooLarge n)) else Inr (ucast n))"

section \<open>The thread API\<close>

datatype parent_of = AtRoot | InGroup ptr

definition parent_node :: "parent_of \<Rightarrow> kernel \<Rightarrow> spawn_error + ptr" where
  "parent_node par k =
     (let node = (case par of AtRoot \<Rightarrow> root k | InGroup g \<Rightarrow> g)
      in if node = null_ptr then Inl SpawnNotInitialized else Inr node)"

definition try_spawn_with_stack ::
  "port \<Rightarrow> usize \<times> usize \<Rightarrow> usize \<Rightarrow> kernel \<Rightarrow> ((spawn_error + unit) \<times> kernel) option" where
  "try_spawn_with_stack P f stack_sz k = do {
     (r, k) \<leftarrow> spawn_internal P (root k) 1 f (if stack_sz = 0 then default_stack_size else stack_sz) k;
     Some (case r of Inl e \<Rightarrow> Inl e | Inr _ \<Rightarrow> Inr (), k)
   }"

definition try_spawn :: "port \<Rightarrow> usize \<times> usize \<Rightarrow> kernel \<Rightarrow> ((spawn_error + unit) \<times> kernel) option" where
  "try_spawn P f k = try_spawn_with_stack P f (kc_stack_size (config k)) k"

text \<open>\<open>spawn_with_stack\<close> panics on an error: \<open>None\<close> of the inner option.\<close>

definition spawn_with_stack :: "port \<Rightarrow> usize \<times> usize \<Rightarrow> usize \<Rightarrow> kernel \<Rightarrow> (unit option \<times> kernel) option" where
  "spawn_with_stack P f stack_sz k = do {
     (r, k) \<leftarrow> try_spawn_with_stack P f stack_sz k;
     Some (case r of Inl _ \<Rightarrow> None | Inr _ \<Rightarrow> Some (), k)
   }"

definition spawn :: "port \<Rightarrow> usize \<times> usize \<Rightarrow> kernel \<Rightarrow> (unit option \<times> kernel) option" where
  "spawn P f k = spawn_with_stack P f (kc_stack_size (config k)) k"

definition spawn_in ::
  "port \<Rightarrow> parent_of \<Rightarrow> slice \<Rightarrow> usize \<times> usize \<Rightarrow> kernel \<Rightarrow> ((spawn_error + ptr) \<times> kernel) option" where
  "spawn_in P par sl f k = (case quantum_ticks_for P sl k of
       Inl e \<Rightarrow> Some (Inl e, k)
     | Inr n \<Rightarrow> (case parent_node par k of
           Inl e \<Rightarrow> Some (Inl e, k)
         | Inr node \<Rightarrow> spawn_internal P node n f (kc_stack_size (config k)) k))"

definition spawn_group ::
  "port \<Rightarrow> parent_of \<Rightarrow> slice \<Rightarrow> kernel \<Rightarrow> ((spawn_error + ptr) \<times> kernel) option" where
  "spawn_group P par sl k = (case quantum_ticks_for P sl k of
       Inl e \<Rightarrow> Some (Inl e, k)
     | Inr n \<Rightarrow> (case parent_node par k of
           Inl e \<Rightarrow> Some (Inl e, k)
         | Inr node \<Rightarrow> spawn_group_node node n k))"

definition spawn_error_display :: "spawn_error \<Rightarrow> string" where
  "spawn_error_display e = (case e of
     SpawnNotInitialized \<Rightarrow> ''scheduler not initialized (call scheduler::init first)''
   | ArenaExhausted \<Rightarrow> ''kernel arena exhausted: increase the arena or reduce per-task stacks''
   | Backend c \<Rightarrow> ''backend could not create the task: '' @ config_error_display c)"

section \<open>The end of a task\<close>

definition push_pending_free :: "ptr \<Rightarrow> kernel \<Rightarrow> kernel option" where
  "push_pending_free p k = do {
     k \<leftarrow> upd (\<lambda>t. t\<lparr>prv := pending_free k\<rparr>) p k;
     Some (k\<lparr>pending_free := p\<rparr>)
   }"

text \<open>The parent's head and cursor step past a child that left the ring.\<close>

definition forget_child :: "ptr \<Rightarrow> ptr \<Rightarrow> ptr \<Rightarrow> kernel \<Rightarrow> kernel option" where
  "forget_child me par succ k =
     (if par \<noteq> null_ptr then do {
        g \<leftarrow> rd k par;
        k \<leftarrow> (if children_head g = me then upd (\<lambda>t. t\<lparr>children_head := succ\<rparr>) par k else Some k);
        g \<leftarrow> rd k par;
        (if current_child g = me then upd (\<lambda>t. t\<lparr>current_child := succ\<rparr>) par k else Some k)
      }
      else Some k)"

text \<open>\<open>exit_task\<close> up to the idle loop it ends in.\<close>

definition exit_task :: "ptr \<Rightarrow> kernel \<Rightarrow> kernel option" where
  "exit_task tcbp k =
     (let me = (if tcbp = null_ptr then k_current k else tcbp) in
      if me = null_ptr then Some k
      else do {
        k \<leftarrow> upd (\<lambda>t. t\<lparr>st := Dead\<rparr>) me k;
        (succ, h) \<leftarrow> unlink me (heap k);
        let k = set_heap h k;
        t \<leftarrow> rd k me;
        let par = parent t;
        k \<leftarrow> forget_child me par succ k;
        let k = (if root k = null_ptr \<or> par = root k then k\<lparr>ring_head := succ\<rparr> else k);
        let k = k_set_current null_ptr k;
        let k = k\<lparr>active_threads := sat_sub (active_threads k) 1\<rparr>;
        k \<leftarrow> push_pending_free me k;
        Some (request_switch k)
      })"

partial_function (option) reclaim_loop :: "port \<Rightarrow> ptr \<Rightarrow> kernel \<Rightarrow> kernel option" where
  "reclaim_loop P node k =
     (if node = null_ptr then Some k
      else do {
        t \<leftarrow> rd k node;
        let next = prv t;
        if port_pinned P node then do {
          k \<leftarrow> upd (\<lambda>t. t\<lparr>prv := pending_free k\<rparr>) node k;
          reclaim_loop P next (k\<lparr>pending_free := node\<rparr>)
        }
        else do {
          k \<leftarrow> port_reclaimed P node k;
          t \<leftarrow> rd k node;
          k \<leftarrow> free_block (closure_block t) k;
          k \<leftarrow> free_block (stack_base t) k;
          k \<leftarrow> free_tcb node k;
          reclaim_loop P next (k\<lparr>reclaimed := reclaimed k + 1\<rparr>)
        }
      })"

declare reclaim_loop.simps [code]

definition reclaim_finished_tasks :: "port \<Rightarrow> kernel \<Rightarrow> kernel option" where
  "reclaim_finished_tasks P k = reclaim_loop P (pending_free k) (k\<lparr>pending_free := null_ptr\<rparr>)"

section \<open>Start-up\<close>

definition min_arena :: usize where
  "min_arena = tcb_size * 4 + 512"

text \<open>The part of \<open>init_with\<close> inside its critical section: first the root, then
  (\<open>init_task0\<close>) the adoption of the calling context.\<close>

definition init_task0 ::
  "port \<Rightarrow> ptr \<times> usize \<Rightarrow> ptr \<Rightarrow> kernel \<Rightarrow> ((config_error + unit) \<times> kernel) option" where
  "init_task0 P region rt k = do {
     (r, k) \<leftarrow> alloc_tcb k;
     (case r of
        None \<Rightarrow> Some (Inl (ArenaTooSmall (snd region) min_arena), k)
      | Some p \<Rightarrow> do {
          let (i, k) = take_id k;
          k \<leftarrow> upd (\<lambda>t. t\<lparr>st := Running, tid := i, kind := Leaf, parent := rt,
                 slice_cycles := 1, remaining_cycles := 1\<rparr>) p k;
          (e, k) \<leftarrow> port_adopt P p k;
          (case e of
             Inl err \<Rightarrow> Some (Inl err, k)
           | Inr _ \<Rightarrow> do {
               h \<leftarrow> insert_after null_ptr p (heap k);
               let k = set_heap h k;
               k \<leftarrow> upd (\<lambda>t. t\<lparr>children_head := p, current_child := p\<rparr>) rt k;
               let k = k_set_current p k;
               Some (Inr (), k\<lparr>ring_head := p, total_threads := 1, active_threads := 1\<rparr>)
             })
        })
   }"

definition init_locked ::
  "port \<Rightarrow> scheduler_config \<Rightarrow> timer_plan \<Rightarrow> ptr \<times> usize \<Rightarrow> kernel \<Rightarrow> ((config_error + unit) \<times> kernel) option" where
  "init_locked P cfg plan region k =
     (if running k then Some (Inl AlreadyInitialized, k)
      else do {
        let k = k\<lparr>karena := arena_init (fst region) (snd region) (karena k)\<rparr>;
        let k = k\<lparr>config := \<lparr>kc_stack_size = cfg_stack_size cfg, kc_idle = cfg_idle cfg,
                   kc_measure = cfg_measure cfg, kc_slice_cycles = plan_slice_cycles plan,
                   kc_timer_hz = plan_timer_hz plan,
                   kc_active_cores = max (kc_active_cores (config k)) 1\<rparr>\<rparr>;
        (r, k) \<leftarrow> alloc_tcb k;
        (case r of
           None \<Rightarrow> Some (Inl (ArenaTooSmall (snd region) min_arena), k)
         | Some rt \<Rightarrow> do {
             k \<leftarrow> upd (\<lambda>t. t\<lparr>kind := Group, parent := null_ptr, children_head := null_ptr,
                    current_child := null_ptr, st := Ready, slice_cycles := 0xFFFFFFFF,
                    remaining_cycles := 0xFFFFFFFF\<rparr>) rt k;
             init_task0 P region rt (k\<lparr>root := rt\<rparr>)
           })
      })"

definition init_with :: "port \<Rightarrow> scheduler_config \<Rightarrow> kernel \<Rightarrow> ((config_error + unit) \<times> kernel) option" where
  "init_with P cfg k = (case port_plan P cfg of
     Inl e \<Rightarrow> Some (Inl e, k)
   | Inr plan \<Rightarrow>
       if plan_slice_ns plan = 0 \<or> plan_slice_cycles plan = 0 then Some (Inl ZeroSlice, k)
       else let region = (case cfg_arena cfg of Some r \<Rightarrow> r | None \<Rightarrow> (port_default_arena P, DEFAULT_ARENA_SIZE)) in
       if snd region < min_arena then Some (Inl (ArenaTooSmall (snd region) min_arena), k)
       else do {
         (r, k) \<leftarrow> init_locked P cfg plan region k;
         (case r of
            Inl e \<Rightarrow> Some (Inl e, k)
          | Inr _ \<Rightarrow> (case port_start P plan k of
                (Inl e, k) \<Rightarrow> Some (Inl e, k)
              | (Inr _, k) \<Rightarrow> Some (Inr (), k\<lparr>running := True\<rparr>)))
       })"

definition set_slice :: "port \<Rightarrow> slice \<Rightarrow> kernel \<Rightarrow> (config_error + unit) \<times> kernel" where
  "set_slice P sl k =
     (if \<not> running k then (Inl ConfigNotInitialized, k)
      else case port_plan P (scheduler_config_default\<lparr>cfg_slice := sl,
                  cfg_timer_hz := kc_timer_hz (config k)\<rparr>) of
          Inl e \<Rightarrow> (Inl e, k)
        | Inr plan \<Rightarrow> (case port_retune P plan k of
            (Inl e, k) \<Rightarrow> (Inl e, k)
          | (Inr _, k) \<Rightarrow> (Inr (), k\<lparr>config := (config k)\<lparr>kc_slice_cycles := plan_slice_cycles plan,
                kc_timer_hz := plan_timer_hz plan\<rparr>\<rparr>)))"

text \<open>\<open>main_body\<close>: the body \<open>f\<close> of task 0, then the exit path; it panics without a current task.\<close>

definition main_body :: "(kernel \<Rightarrow> kernel option) \<Rightarrow> kernel \<Rightarrow> (unit option \<times> kernel) option" where
  "main_body f k =
     (let me = k_current k in
      if me = null_ptr then Some (None, k)
      else do { k \<leftarrow> f k; k \<leftarrow> exit_task me k; Some (Some (), k) })"

text \<open>\<open>task_trampoline\<close>: run the task's closure, then the exit path.\<close>

definition task_trampoline :: "(ptr \<Rightarrow> kernel \<Rightarrow> kernel option) \<Rightarrow> ptr \<Rightarrow> kernel \<Rightarrow> kernel option" where
  "task_trampoline run_blob p k = do {
     t \<leftarrow> rd k p;
     k \<leftarrow> run_blob (closure_block t) k;
     exit_task p k
   }"

end
