(* ===== verification/RkGraft.thy ===== *)
theory RkGraft
  imports RkSpawn RkSwitch
begin

text \<open>
  Surgery on the scheduling tree: replacing the child list of one group.  \<open>insert_child\<close>
  puts a new node behind the group's cursor, the exit path cuts a leaf out; both keep the
  heap a tree (\<open>tree_ok\<close>), and every other node where it was.
\<close>

section \<open>Replacing the children of one group\<close>

fun regroup :: "ptr \<Rightarrow> (ntree list \<Rightarrow> ntree list) \<Rightarrow> ntree \<Rightarrow> ntree" where
  "regroup g f (LeafN a) = LeafN a"
| "regroup g f (GroupN a ts) = (if a = g then GroupN a (f ts) else GroupN a (map (regroup g f) ts))"

lemma addr_regroup [simp]: "addr (regroup g f T) = addr T"
  by (cases T) auto

lemma map_addr_regroup [simp]: "map addr (map (regroup g f) ts) = map addr ts"
  by simp

lemma regroup_id: "g \<notin> set (addrs T) \<Longrightarrow> regroup g f T = T"
proof (induction T)
  case (GroupN a ts)
  then have "map (regroup g f) ts = ts" by (intro map_idI) auto
  with GroupN.prems show ?case by auto
qed simp

lemma regroup_ids: "g \<notin> set (kid_addrs ts) \<Longrightarrow> map (regroup g f) ts = ts"
  by (intro map_idI regroup_id) auto

lemma addrs_regroup:
  "distinct (addrs T) \<Longrightarrow> GroupN g us \<in> set (subs T) \<Longrightarrow>
   \<exists>xs ys. addrs T = xs @ kid_addrs us @ ys \<and> g \<in> set xs \<and>
     (\<forall>f. addrs (regroup g f T) = xs @ kid_addrs (f us) @ ys)"
proof (induction T)
  case (GroupN a ts)
  show ?case
  proof (cases "a = g")
    case True
    then have "GroupN g us = GroupN a ts"
      using subs_unique [OF GroupN.prems(1) GroupN.prems(2) subs_self] by simp
    then show ?thesis by (intro exI [of _ "[a]"] exI [of _ "[]"]) simp
  next
    case False
    then obtain c where c: "c \<in> set ts" "GroupN g us \<in> set (subs c)" using GroupN.prems(2) by auto
    then obtain ls rs where ts: "ts = ls @ c # rs" by (meson split_list)
    have g: "g \<in> set (addrs c)" using subs_addr [OF c(2)] by simp
    have "g \<notin> set (kid_addrs ls)" "g \<notin> set (kid_addrs rs)" "distinct (addrs c)"
      using GroupN.prems(1) ts g by auto
    from GroupN.IH [OF c(1) this(3) c(2)] obtain xs ys
      where "addrs c = xs @ kid_addrs us @ ys" "g \<in> set xs"
        "\<forall>f. addrs (regroup g f c) = xs @ kid_addrs (f us) @ ys" by blast
    with ts False regroup_ids [of g ls] regroup_ids [of g rs]
      \<open>g \<notin> set (kid_addrs ls)\<close> \<open>g \<notin> set (kid_addrs rs)\<close> show ?thesis
      by (intro exI [of _ "a # kid_addrs ls @ xs"] exI [of _ "ys @ kid_addrs rs"]) simp
  qed
qed simp

lemma kids_disjoint:
  "distinct (kid_addrs ts) \<Longrightarrow> d \<in> set ts \<Longrightarrow> c \<in> set ts \<Longrightarrow> d \<noteq> c \<Longrightarrow> set (addrs c) \<inter> set (addrs d) = {}"
proof (induction ts)
  case (Cons e ts)
  have "set (addrs e) \<inter> set (addrs x) = {}" if "x \<in> set ts" for x
    using Cons.prems(1) that by auto
  with Cons show ?case by auto
qed simp

text \<open>The fields of a node that do not belong to its place in its parent's ring.\<close>

definition body :: "tcb \<Rightarrow> node_kind \<times> ptr \<times> ptr \<times> ptr" where
  "body t = (kind t, parent t, children_head t, current_child t)"

definition same_body :: "tcb_heap \<Rightarrow> tcb_heap \<Rightarrow> ptr \<Rightarrow> bool" where
  "same_body h h' a = (\<forall>t. rdh h a = Some t \<longrightarrow> (\<exists>t'. rdh h' a = Some t' \<and> body t' = body t))"

lemma tree_at_move:
  "tree_at h p T \<Longrightarrow> \<forall>a\<in>set (addrs T). same_body h h' a \<Longrightarrow>
   \<forall>a\<in>set (addrs T) - {addr T}. same_links h h' a \<Longrightarrow> distinct (addrs T) \<Longrightarrow> tree_at h' p T"
proof (induction T arbitrary: p)
  case (LeafN a)
  then show ?case by (auto simp: same_body_def body_def)
next
  case (GroupN a ts)
  from GroupN.prems(1) obtain t where t: "rdh h a = Some t" "kind t = Group" "parent t = p"
      "ring_at h t (map addr ts)" "current_child t = null_ptr \<or> current_child t \<in> addr ` set ts"
    by auto
  from GroupN.prems(2) t(1) obtain t' where t': "rdh h' a = Some t'" "body t' = body t"
    unfolding same_body_def by auto
  have kids: "\<forall>x\<in>set (map addr ts). same_links h h' x"
  proof
    fix x assume "x \<in> set (map addr ts)"
    then obtain c where c: "c \<in> set ts" "x = addr c" by auto
    then have "x \<in> set (kid_addrs ts)" by (auto intro!: bexI [of _ c])
    then show "same_links h h' x" using GroupN.prems(3,4) by auto
  qed
  have "ring_at h' t' (map addr ts)"
    using t(4) t'(2) ring_cong [OF _ kids] by (auto simp: ring_at_def body_def)
  moreover have "tree_at h' a c" if c: "c \<in> set ts" for c
  proof (rule GroupN.IH [OF c])
    show "tree_at h a c" using GroupN.prems(1) c by simp
    show "\<forall>x\<in>set (addrs c). same_body h h' x" using GroupN.prems(2) c by auto
    show "\<forall>x\<in>set (addrs c) - {addr c}. same_links h h' x" using GroupN.prems(3,4) c by auto
    show "distinct (addrs c)" using GroupN.prems(4) c by (auto simp: distinct_concat_iff)
  qed
  ultimately show ?case
    using t t' by (auto simp: body_def)
qed

lemma tree_at_regroup:
  assumes "GroupN g us \<in> set (subs T)" and "distinct (addrs T)" and "tree_at h p T"
    and frame: "\<forall>a\<in>set (addrs T). a \<noteq> g \<longrightarrow> same_body h h' a"
      "\<forall>a\<in>set (addrs T). a \<notin> addr ` set us \<longrightarrow> same_links h h' a"
    and grp: "\<forall>t. rdh h g = Some t \<longrightarrow> (\<exists>t'. rdh h' g = Some t' \<and> kind t' = Group \<and> parent t' = parent t \<and>
        ring_at h' t' (map addr (f us)) \<and> (current_child t' = 0 \<or> current_child t' \<in> addr ` set (f us)))"
    and new: "\<forall>c\<in>set (f us). c \<in> set us \<or> tree_at h' g c"
  shows "tree_at h' p (regroup g f T)"
  using assms(1-5)
proof (induction T arbitrary: p)
  case (GroupN a ts)
  from GroupN.prems(3) obtain t where t: "rdh h a = Some t" "kind t = Group" "parent t = p"
      "ring_at h t (map addr ts)" "current_child t = null_ptr \<or> current_child t \<in> addr ` set ts"
    by auto
  show ?case
  proof (cases "a = g")
    case True
    then have us: "us = ts"
      using subs_unique [OF GroupN.prems(2) GroupN.prems(1) subs_self] by simp
    have old: "tree_at h' g c" if c: "c \<in> set ts" for c
    proof (rule tree_at_move)
      show "tree_at h g c" using GroupN.prems(3) c True by simp
      have "g \<notin> set (addrs c)" using GroupN.prems(2) c True by auto
      then show "\<forall>x\<in>set (addrs c). same_body h h' x"
        using GroupN.prems(4) c by auto
      have "x \<notin> addr ` set ts" if x: "x \<in> set (addrs c) - {addr c}" for x
      proof
        assume "x \<in> addr ` set ts"
        then obtain d where d: "d \<in> set ts" "x = addr d" by auto
        then have "d \<noteq> c" using x by auto
        then have "set (addrs c) \<inter> set (addrs d) = {}"
          using kids_disjoint [of ts d c] GroupN.prems(2) c d(1) by auto
        with x d(2) show False by auto
      qed
      then show "\<forall>x\<in>set (addrs c) - {addr c}. same_links h h' x"
        using GroupN.prems(5) c us by auto
      show "distinct (addrs c)" using GroupN.prems(2) c by (auto simp: distinct_concat_iff)
    qed
    from grp True t obtain t' where t': "rdh h' g = Some t'" "kind t' = Group" "parent t' = p"
        "ring_at h' t' (map addr (f us))" "current_child t' = 0 \<or> current_child t' \<in> addr ` set (f us)"
      by auto
    have "\<forall>c\<in>set (f ts). tree_at h' g c" using new old us by blast
    with t' True us show ?thesis by simp
  next
    case False
    then obtain c where c: "c \<in> set ts" "GroupN g us \<in> set (subs c)" using GroupN.prems(1) by auto
    then obtain ls rs where ts: "ts = ls @ c # rs" by (meson split_list)
    have gc: "g \<in> set (addrs c)" using subs_addr [OF c(2)] by simp
    have usc: "addr ` set us \<subseteq> set (addrs c) - {addr c}"
    proof
      fix x assume "x \<in> addr ` set us"
      then obtain d where d: "d \<in> set us" "x = addr d" by auto
      have "set (addrs (GroupN g us)) \<subseteq> set (addrs c)" by (rule subs_addrs [OF c(2)])
      moreover have dd: "x \<in> set (kid_addrs us)" using d by (auto intro!: bexI [of _ d])
      moreover have "x \<noteq> addr c"
      proof
        assume "x = addr c"
        then have "addr c \<in> set (addrs (GroupN g us))" using dd by auto
        moreover have dc: "distinct (addrs c)" using GroupN.prems(2) c by (auto simp: distinct_concat_iff)
        ultimately have "GroupN g us = c"
        proof (cases c)
          case (GroupN b vs)
          show ?thesis
          proof (cases "b = g")
            case True
            then show ?thesis using subs_unique [OF dc c(2) subs_self] GroupN by simp
          next
            case False
            then have "set (addrs (GroupN g us)) \<subseteq> set (kid_addrs vs)"
              using c(2) GroupN subs_addrs by fastforce
            with dc GroupN \<open>addr c \<in> set (addrs (GroupN g us))\<close> show ?thesis by auto
          qed
        qed (use c(2) in simp)
        with \<open>x = addr c\<close> dd dc show False by auto
      qed
      ultimately show "x \<in> set (addrs c) - {addr c}" by auto
    qed
    have kids: "\<forall>x\<in>set (map addr ts). same_links h h' x"
    proof
      fix x assume "x \<in> set (map addr ts)"
      then obtain d where d: "d \<in> set ts" "x = addr d" by auto
      have "x \<notin> addr ` set us"
      proof
        assume "x \<in> addr ` set us"
        with usc have x: "x \<in> set (addrs c)" "x \<noteq> addr c" by auto
        with d have "d \<noteq> c" by auto
        then have "d \<in> set ls \<or> d \<in> set rs" using d(1) ts by auto
        then have "x \<in> set (kid_addrs (ls @ rs))" using d(2) by (auto intro: bexI [of _ d])
        with x(1) GroupN.prems(2) ts show False by auto
      qed
      moreover have "x \<in> set (kid_addrs ts)" using d by (auto intro!: bexI [of _ d])
      ultimately show "same_links h h' x" using GroupN.prems(5) by auto
    qed
    from GroupN.prems(4) False t(1) obtain t' where t': "rdh h' a = Some t'" "body t' = body t"
      unfolding same_body_def by auto
    have ring: "ring_at h' t' (map addr ts)"
      using t(4) t'(2) ring_cong [OF _ kids] by (auto simp: ring_at_def body_def)
    have other: "tree_at h' a d" if d: "d \<in> set ls \<or> d \<in> set rs" for d
    proof (rule tree_at_move)
      have dts: "d \<in> set ts" using d ts by auto
      show "tree_at h a d" using GroupN.prems(3) dts by simp
      have ng: "set (addrs d) \<inter> set (addrs c) = {}" using d GroupN.prems(2) ts by auto
      with gc GroupN.prems(4) dts show "\<forall>x\<in>set (addrs d). same_body h h' x" by fastforce
      from ng usc GroupN.prems(5) dts show "\<forall>x\<in>set (addrs d) - {addr d}. same_links h h' x" by fastforce
      show "distinct (addrs d)" using GroupN.prems(2) dts by (auto simp: distinct_concat_iff)
    qed
    have "tree_at h' a (regroup g f c)"
    proof (rule GroupN.IH [OF c])
      show "distinct (addrs c)" using GroupN.prems(2) c by (auto simp: distinct_concat_iff)
      show "tree_at h a c" using GroupN.prems(3) c by simp
    qed (use GroupN.prems(4,5) c in auto)
    moreover have "g \<notin> set (kid_addrs ls)" "g \<notin> set (kid_addrs rs)"
      using GroupN.prems(2) ts gc by auto
    ultimately have "\<forall>d\<in>set (map (regroup g f) ts). tree_at h' a d"
      using other by (auto simp: ts regroup_ids)
    moreover have "current_child t' = 0 \<or> current_child t' \<in> addr ` set (map (regroup g f) ts)"
      using t(5) t'(2) by (auto simp: body_def image_image)
    moreover have "ring_at h' t' (map addr (map (regroup g f) ts))" using ring by (simp only: map_addr_regroup)
    ultimately show ?thesis
      using False t t' by (simp add: body_def)
  qed
qed simp

section \<open>Inserting a node\<close>

text \<open>What stays of a node when it changes place: everything but links, head and cursor.\<close>

definition task_part :: "tcb \<Rightarrow> tcb" where
  "task_part t = t\<lparr>nxt := 0, prv := 0, children_head := 0, current_child := 0\<rparr>"

definition same_tasks :: "tcb_heap \<Rightarrow> tcb_heap \<Rightarrow> bool" where
  "same_tasks h h' = (\<forall>a. map_option task_part (rdh h' a) = map_option task_part (rdh h a))"

lemma same_tasks_refl [simp]: "same_tasks h h"
  by (simp add: same_tasks_def)

lemma same_tasks_trans: "same_tasks h h' \<Longrightarrow> same_tasks h' h'' \<Longrightarrow> same_tasks h h''"
  by (simp add: same_tasks_def)

lemma same_tasksD: "same_tasks h h' \<Longrightarrow> rdh h a = Some t \<Longrightarrow> \<exists>t'. rdh h' a = Some t' \<and> task_part t' = task_part t"
  unfolding same_tasks_def by (drule spec [of _ a]) auto

lemma same_tasksD': "same_tasks h h' \<Longrightarrow> rdh h' a = Some t \<Longrightarrow> \<exists>t'. rdh h a = Some t' \<and> task_part t' = task_part t"
  unfolding same_tasks_def by (drule spec [of _ a], cases "rdh h a") auto

lemma same_tasks_upd: "rdh h a = Some t \<Longrightarrow> task_part t' = task_part t \<Longrightarrow> same_tasks h (h(a \<mapsto> t'))"
  using rdh_SomeD [of h a t] by (auto simp: same_tasks_def rdh_upd)

lemma task_part_simps:
  assumes "task_part t' = task_part t"
  shows "st t' = st t" "kind t' = kind t" "parent t' = parent t" "tid t' = tid t"
    "remaining_cycles t' = remaining_cycles t" "slice_cycles t' = slice_cycles t"
    "blocked_on t' = blocked_on t" "block_deadline t' = block_deadline t" "flags t' = flags t"
    "closure_block t' = closure_block t" "stack_base t' = stack_base t"
    "held_locks t' = held_locks t" "held_count t' = held_count t"
proof -
  note f = arg_cong [OF assms]
  show "st t' = st t" using f [of st] by (simp add: task_part_def)
  show "kind t' = kind t" using f [of kind] by (simp add: task_part_def)
  show "parent t' = parent t" using f [of parent] by (simp add: task_part_def)
  show "tid t' = tid t" using f [of tid] by (simp add: task_part_def)
  show "remaining_cycles t' = remaining_cycles t" using f [of remaining_cycles] by (simp add: task_part_def)
  show "slice_cycles t' = slice_cycles t" using f [of slice_cycles] by (simp add: task_part_def)
  show "blocked_on t' = blocked_on t" using f [of blocked_on] by (simp add: task_part_def)
  show "block_deadline t' = block_deadline t" using f [of block_deadline] by (simp add: task_part_def)
  show "flags t' = flags t" using f [of flags] by (simp add: task_part_def)
  show "closure_block t' = closure_block t" using f [of closure_block] by (simp add: task_part_def)
  show "stack_base t' = stack_base t" using f [of stack_base] by (simp add: task_part_def)
  show "held_locks t' = held_locks t" using f [of held_locks] by (simp add: task_part_def)
  show "held_count t' = held_count t" using f [of held_count] by (simp add: task_part_def)
qed

lemma unlinked_parts:
  assumes "unlinked t' = unlinked t"
  shows "task_part t' = task_part t" "body t' = body t"
proof -
  have e: "task_part u = task_part (unlinked u)" "body u = body (unlinked u)" for u
    by (simp_all add: task_part_def body_def unlinked_def)
  show "task_part t' = task_part t" by (simp only: e(1) [of t'] e(1) [of t] assms)
  show "body t' = body t" by (simp only: e(2) [of t'] e(2) [of t] assms)
qed

lemma only_links_same:
  assumes "only_links h h'"
  shows "same_tasks h h'" "same_body h h' a"
proof -
  show "same_tasks h h'"
    unfolding same_tasks_def
  proof
    fix b
    show "map_option task_part (rdh h' b) = map_option task_part (rdh h b)"
    proof (cases "rdh h b")
      case None
      then have "map_option unlinked (rdh h' b) = None" using assms by (simp add: only_links_def)
      then show ?thesis using None by simp
    next
      case (Some t)
      from only_linksD [OF assms Some] obtain t' where t': "rdh h' b = Some t'" "unlinked t' = unlinked t"
        by blast
      from unlinked_parts(1) [OF t'(2)] show ?thesis unfolding t'(1) Some by simp
    qed
  qed
  show "same_body h h' a"
    unfolding same_body_def using only_linksD [OF assms] unlinked_parts(2) by blast
qed

fun put_after :: "ptr \<Rightarrow> ntree \<Rightarrow> ntree list \<Rightarrow> ntree list" where
  "put_after a n [] = [n]"
| "put_after a n (c # cs) = (if addr c = a then c # n # cs else c # put_after a n cs)"

definition anchor_of :: "tcb_heap \<Rightarrow> ptr \<Rightarrow> ptr" where
  "anchor_of h g = (case rdh h g of None \<Rightarrow> 0
     | Some t \<Rightarrow> if current_child t \<noteq> 0 then current_child t else children_head t)"

lemma put_after_split:
  "addr d = a \<Longrightarrow> a \<notin> addr ` set ls \<Longrightarrow> put_after a n (ls @ d # rs) = ls @ d # n # rs"
  by (induction ls) auto

lemma set_put_after: "set (put_after a n cs) = insert n (set cs)" if "cs = [] \<or> a \<in> addr ` set cs"
  using that by (induction cs) auto

lemma kid_linked:
  assumes "tree_at h p (GroupN g us)" and "c \<in> set us"
  shows "\<exists>t. rdh h (addr c) = Some t \<and> parent t = g \<and> nxt t \<noteq> 0"
proof -
  from assms(2) obtain ls rs where "us = ls @ c # rs" by (meson split_list)
  from kid_next [OF assms(1) this] show ?thesis by blast
qed

lemma insert_child_run:
  assumes tr: "tree_at (heap k) p (GroupN g us)" and D: "distinct (map addr us)"
    and n: "rd k n = Some tn" "n \<notin> insert g (addr ` set us)" and gt: "rd k g = Some t"
    and gu: "g \<notin> addr ` set us"
  shows "\<exists>h1 t1. insert_child g n k = Some (k\<lparr>heap := h1(g \<mapsto> t1),
        ring_head := (if g = root k then n else ring_head k)\<rparr>)
     \<and> only_links (heap k) h1 \<and> rdh h1 g = Some t
     \<and> t1 = t\<lparr>children_head := (if us = [] then n else children_head t),
              current_child := (if current_child t = 0 then n else current_child t)\<rparr>
     \<and> ring h1 (map addr (put_after (anchor_of (heap k) g) (LeafN n) us))
     \<and> (\<forall>a. a \<notin> insert n (addr ` set us) \<longrightarrow> h1 a = heap k a)"
proof (cases us)
  case Nil
  from tr gt Nil have t: "children_head t = 0" "current_child t = 0"
    by (auto simp: ring_at_def rd_def)
  have nz: "n \<noteq> 0" "g \<noteq> 0" using n(1) gt rd_nonnull by auto
  let ?h1 = "(heap k)(n \<mapsto> tn\<lparr>nxt := n, prv := n\<rparr>)"
  let ?t1 = "t\<lparr>children_head := n, current_child := n\<rparr>"
  have ia: "insert_after 0 n (heap k) = Some ?h1" "ring ?h1 [n]"
    using insert_after_null [of "heap k" n tn] n(1) by (auto simp: rd_def)
  have g1: "rdh ?h1 g = Some t" using n(2) gt nz by (auto simp: rd_def rdh_upd)
  have "insert_child g n k = Some (k\<lparr>heap := ?h1(g \<mapsto> ?t1), ring_head := (if g = root k then n else ring_head k)\<rparr>)"
    using t nz gt g1 ia(1) by (simp add: insert_child_def is_linked_def set_heap_def rd_def upd_def updh_def)
  moreover have "only_links (heap k) ?h1"
    using n(1) by (intro only_links_upd) (simp_all add: rd_def)
  ultimately show ?thesis
    using Nil t g1 ia(2) by (intro exI [of _ ?h1] exI [of _ ?t1]) auto
next
  case (Cons u us')
  have nz: "n \<noteq> 0" "g \<noteq> 0" using n(1) gt rd_nonnull by auto
  from tr gt Cons have ch: "children_head t = addr u" "ring (heap k) (map addr us)"
      "current_child t = 0 \<or> current_child t \<in> addr ` set us"
    by (auto simp: ring_at_def rd_def)
  define c where "c = anchor_of (heap k) g"
  have c: "c = (if current_child t \<noteq> 0 then current_child t else children_head t)"
    using gt by (simp add: c_def anchor_of_def rd_def)
  then have cin: "c \<in> addr ` set us" using ch(1,3) Cons by auto
  then obtain ls d rs where us: "us = ls @ d # rs" "addr d = c" "addr d \<notin> addr ` set ls" "addr d \<notin> addr ` set rs"
    using distinct_split [OF D] by metis
  obtain tc where tc: "rd k c = Some tc" "parent tc = g" "nxt tc \<noteq> 0"
    using kid_linked [OF tr, of d] us by (auto simp: rd_def)
  have c0: "c \<noteq> 0" using tc(1) rd_nonnull by blast
  have kl: "\<exists>x. rd k y = Some x \<and> parent x = g \<and> nxt x \<noteq> 0" if "y \<in> addr ` set us" for y
    using kid_linked [OF tr] that by (auto simp: rd_def)
  have anch: "insert_child g n k = do {
     h \<leftarrow> insert_after c n (heap k);
     let k = set_heap h k;
     g' \<leftarrow> rd k g;
     k \<leftarrow> (if children_head g' = null_ptr then upd (\<lambda>t. t\<lparr>children_head := n\<rparr>) g k else Some k);
     g' \<leftarrow> rd k g;
     k \<leftarrow> (if current_child g' = null_ptr then upd (\<lambda>t. t\<lparr>current_child := n\<rparr>) g k else Some k);
     Some (if g = root k then k\<lparr>ring_head := n\<rparr> else k) }"
  proof (cases "current_child t = 0")
    case True
    then show ?thesis
      unfolding insert_child_def using gt c tc c0 by (simp add: is_linked_def Let_def)
  next
    case False
    then show ?thesis
      unfolding insert_child_def using gt c tc c0 by (simp add: is_linked_def Let_def)
  qed
  have R: "ring (heap k) (c # map addr (rs @ ls))"
    using ring_rotate [of "heap k" "map addr ls" "c # map addr rs"] ch(2) us by simp
  have nin: "n \<notin> set (c # map addr (rs @ ls))" using n(2) us by auto
  from insert_after_ring [OF R _ nin] n(1) obtain h1 where h1: "insert_after c n (heap k) = Some h1"
      "ring h1 (c # n # map addr (rs @ ls))" "only_links (heap k) h1"
      "\<forall>a. a \<notin> set (n # c # map addr (rs @ ls)) \<longrightarrow> h1 a = heap k a"
    by (auto simp: rd_def)
  have "g \<notin> set (n # c # map addr (rs @ ls))" using n(2) gu us by auto
  then have "h1 g = heap k g" using h1(4) by blast
  then have g1: "rdh h1 g = Some t" using gt by (simp add: rdh_def rd_def split: if_splits)
  let ?t1 = "t\<lparr>current_child := (if current_child t = 0 then n else current_child t)\<rparr>"
  have fr: "\<forall>a. a \<notin> insert n (addr ` set us) \<longrightarrow> h1 a = heap k a"
    using h1(4) us(1,2) by auto
  have u0: "children_head t \<noteq> 0" using ch(1) kl [of "addr u"] Cons rd_nonnull by auto
  have "ring h1 (map addr ls @ c # n # map addr rs)"
    using ring_rotate [of h1 "c # n # map addr rs" "map addr ls"] h1(2) by simp
  then have ring1: "ring h1 (map addr (put_after c (LeafN n) us))"
    using put_after_split [OF us(2), of ls "LeafN n" rs] us by simp
  have hid: "h1(g \<mapsto> t) = h1" using g1 nz(2) by (auto simp: rdh_def)
  have run: "insert_child g n k = Some (k\<lparr>heap := h1(g \<mapsto> ?t1), ring_head := (if g = root k then n else ring_head k)\<rparr>)"
    unfolding anch using h1(1) g1 u0 hid
    by (cases "current_child t = 0") (simp_all add: set_heap_def rd_def upd_def updh_def)
  have "t\<lparr>children_head := children_head t, current_child := (if current_child t = 0 then n else current_child t)\<rparr> = ?t1"
    by simp
  then show ?thesis
    using Cons h1(3) fr g1 ring1 run unfolding c_def [symmetric]
    by (intro exI [of _ h1] exI [of _ ?t1] conjI) simp_all
qed

lemma map_addr_put_after: "addr m = addr n \<Longrightarrow> map addr (put_after a m us) = map addr (put_after a n us)"
  by (induction us) auto

lemma kid_addrs_put_after:
  "\<exists>xs ys. kid_addrs us = xs @ ys \<and> kid_addrs (put_after a n us) = xs @ addrs n @ ys"
proof (induction us)
  case (Cons c us)
  show ?case
  proof (cases "addr c = a")
    case True
    then show ?thesis by (intro exI [of _ "addrs c"] exI [of _ "kid_addrs us"]) simp
  next
    case False
    from Cons obtain xs ys where "kid_addrs us = xs @ ys" "kid_addrs (put_after a n us) = xs @ addrs n @ ys" by blast
    with False show ?thesis by (intro exI [of _ "addrs c @ xs"] exI [of _ ys]) simp
  qed
qed simp

lemma grown_addrs:
  assumes "distinct (addrs T)" and "GroupN g us \<in> set (subs T)" and "addrs N = [n]" and "n \<notin> set (addrs T)"
  shows "distinct (addrs (regroup g (put_after a N) T))"
    "set (addrs (regroup g (put_after a N) T)) = insert n (set (addrs T))"
    "length (addrs (regroup g (put_after a N) T)) = Suc (length (addrs T))"
proof -
  from addrs_regroup [OF assms(1,2)] obtain xs ys where
    x: "addrs T = xs @ kid_addrs us @ ys" "addrs (regroup g (put_after a N) T) = xs @ kid_addrs (put_after a N us) @ ys"
    by blast
  from kid_addrs_put_after [of us a N] obtain vs ws where
    v: "kid_addrs us = vs @ ws" "kid_addrs (put_after a N us) = vs @ addrs N @ ws" by blast
  show "distinct (addrs (regroup g (put_after a N) T))"
    "set (addrs (regroup g (put_after a N) T)) = insert n (set (addrs T))"
    "length (addrs (regroup g (put_after a N) T)) = Suc (length (addrs T))"
    using assms x v by auto
qed

text \<open>A node that is not in the tree and ready to be linked below \<open>g\<close>.\<close>

definition fresh_node :: "kernel \<Rightarrow> ptr \<Rightarrow> ntree \<Rightarrow> ntree \<Rightarrow> bool" where
  "fresh_node k g N T = (tree_at (heap k) g N \<and> addrs N = [addr N] \<and> addr N \<notin> set (addrs T))"

text \<open>The heap after a change of links: trees as given, every task as before.\<close>

definition grafted :: "kernel \<Rightarrow> kernel \<Rightarrow> bool" where
  "grafted k k' = (same_tasks (heap k) (heap k') \<and> (\<exists>h r. k' = k\<lparr>heap := h, ring_head := r\<rparr>))"

theorem insert_child_tree:
  assumes ok: "tree_ok k T" and G: "GroupN g us \<in> set (subs T)" and N: "fresh_node k g N T"
    and room: "length (addrs T) < unat (nodes k)"
  shows "\<exists>k'. insert_child g (addr N) k = Some k'
    \<and> tree_ok k' (regroup g (put_after (anchor_of (heap k) g) N) T) \<and> grafted k k'
    \<and> only_at (insert (addr N) (set (addrs T))) k k'"
proof -
  let ?n = "addr N" and ?a = "anchor_of (heap k) g"
  let ?f = "put_after ?a N"
  have T: "tree_at (heap k) 0 T" "distinct (addrs T)" "only_linked (heap k) T"
    using ok by (simp_all add: tree_ok_def)
  have N': "tree_at (heap k) g N" "addrs N = [?n]" "?n \<notin> set (addrs T)" using N by (simp_all add: fresh_node_def)
  from tree_at_sub [OF T(1) G] obtain q where q: "tree_at (heap k) q (GroupN g us)" by blast
  then obtain t where t: "rd k g = Some t" "current_child t = 0 \<or> current_child t \<in> addr ` set us"
      "kind t = Group" "ring_at (heap k) t (map addr us)"
    by (auto simp: rd_def)
  obtain tn where tn: "rd k ?n = Some tn" using tree_at_rd [OF N'(1)] by (auto simp: rd_def)
  have us: "set (addrs (GroupN g us)) \<subseteq> set (addrs T)" by (rule subs_addrs [OF G])
  have usT: "insert g (addr ` set us) \<subseteq> set (addrs T)"
    using us addr_in_addrs by fastforce
  have dg: "distinct (addrs (GroupN g us))" by (rule subs_distinct [OF T(2) G])
  have D: "distinct (map addr us)" using dg by (intro distinct_map_addr) simp
  have gu: "g \<notin> addr ` set us" using dg by (auto simp: image_iff)
  have nu: "?n \<notin> insert g (addr ` set us)" using usT N'(3) by blast
  from insert_child_run [OF q D tn nu t(1) gu] obtain h1 t1 where
    run: "insert_child g ?n k = Some (k\<lparr>heap := h1(g \<mapsto> t1), ring_head := (if g = root k then ?n else ring_head k)\<rparr>)"
    and ol: "only_links (heap k) h1" and g1: "rdh h1 g = Some t"
    and t1: "t1 = t\<lparr>children_head := (if us = [] then ?n else children_head t),
              current_child := (if current_child t = 0 then ?n else current_child t)\<rparr>"
    and R: "ring h1 (map addr (put_after ?a (LeafN ?n) us))"
    and fr: "\<forall>a. a \<notin> insert ?n (addr ` set us) \<longrightarrow> h1 a = heap k a" by blast
  let ?h' = "h1(g \<mapsto> t1)"
  let ?k' = "k\<lparr>heap := ?h', ring_head := (if g = root k then ?n else ring_head k)\<rparr>"
  have g0: "g \<noteq> 0" using t(1) rd_nonnull by blast
  have shp: "rdh ?h' a = (if a = g then Some t1 else rdh h1 a)" for a by (rule rdh_upd [OF g0])
  have lk: "same_links h1 ?h' a" for a
    unfolding same_links_def using shp g1 t1 by auto
  have frl: "same_links (heap k) ?h' a" if a: "a \<notin> insert ?n (addr ` set us)" for a
  proof (cases "a = g")
    case True
    then show ?thesis using shp t(1) t1 by (simp add: same_links_def rd_def)
  next
    case False
    then show ?thesis using fr a shp by (intro same_linksI) (simp add: rdh_def)
  qed
  have sb: "same_body (heap k) ?h' a" if "a \<noteq> g" for a
    using only_links_same(2) [OF ol, of a] that shp by (simp add: same_body_def)
  have R': "ring ?h' (map addr (?f us))"
    using ring_cong [OF R] lk map_addr_put_after [of N "LeafN ?n"] by simp
  have fne: "?f us \<noteq> []" by (cases us) auto
  have an: "us = [] \<or> ?a \<in> addr ` set us"
    using t(1,2,4) by (cases us) (auto simp: anchor_of_def rd_def ring_at_def)
  have sf: "set (?f us) = insert N (set us)" using an by (intro set_put_after) auto
  have hdf: "us \<noteq> [] \<Longrightarrow> addr (hd (?f us)) = addr (hd us)" by (cases us) auto
  have ra: "ring_at ?h' t1 (map addr (?f us))"
  proof -
    have "children_head t1 = addr (hd (?f us))"
      using hdf t(4) unfolding t1 by (cases "us = []") (simp_all add: ring_at_def hd_map)
    then show ?thesis using R' fne unfolding ring_at_def by (simp add: hd_map)
  qed
  have cc: "current_child t1 = 0 \<or> current_child t1 \<in> addr ` set (?f us)"
    using t(2) t1 sf by auto
  have Nt: "tree_at ?h' g N"
  proof (rule tree_at_move [OF N'(1)])
    show "\<forall>a\<in>set (addrs N). same_body (heap k) ?h' a" using N'(2) nu sb by auto
  qed (use N'(2) in auto)
  have tree: "tree_at ?h' 0 (regroup g ?f T)"
  proof (rule tree_at_regroup [OF G T(2,1)])
    show "\<forall>a\<in>set (addrs T). a \<noteq> g \<longrightarrow> same_body (heap k) ?h' a" by (intro ballI impI sb)
    show "\<forall>a\<in>set (addrs T). a \<notin> addr ` set us \<longrightarrow> same_links (heap k) ?h' a"
    proof (intro ballI impI)
      fix a assume "a \<in> set (addrs T)" "a \<notin> addr ` set us"
      with N'(3) have "a \<notin> insert ?n (addr ` set us)" by auto
      then show "same_links (heap k) ?h' a" by (rule frl)
    qed
    show "\<forall>t. rdh (heap k) g = Some t \<longrightarrow> (\<exists>t'. rdh ?h' g = Some t' \<and> kind t' = Group \<and> parent t' = parent t \<and>
        ring_at ?h' t' (map addr (?f us)) \<and> (current_child t' = 0 \<or> current_child t' \<in> addr ` set (?f us)))"
    proof (intro allI impI)
      fix u assume "rdh (heap k) g = Some u"
      then have u: "u = t" using t(1) by (simp add: rd_def)
      have "rdh ?h' g = Some t1" "kind t1 = Group" "parent t1 = parent t" using shp t(3) t1 by simp_all
      with ra cc u show "\<exists>t'. rdh ?h' g = Some t' \<and> kind t' = Group \<and> parent t' = parent u \<and>
        ring_at ?h' t' (map addr (?f us)) \<and> (current_child t' = 0 \<or> current_child t' \<in> addr ` set (?f us))"
        by blast
    qed
    show "\<forall>c\<in>set (?f us). c \<in> set us \<or> tree_at ?h' g c" using sf Nt by auto
  qed
  note gr = grown_addrs [OF T(2) G N'(2,3), of ?a]
  have onl: "only_linked ?h' (regroup g ?f T)"
    unfolding only_linked_def gr(2)
  proof (intro allI impI)
    fix a u assume u: "rdh ?h' a = Some u" and a: "a \<notin> insert ?n (set (addrs T))"
    then have ag: "a \<noteq> g" "a \<notin> insert ?n (addr ` set us)" using usT by auto
    have "rdh h1 a = Some u" using u shp [of a] ag(1) by simp
    moreover have "h1 a = heap k a" using fr ag(2) by blast
    ultimately have "rdh (heap k) a = Some u" by (simp add: rdh_def split: if_splits)
    then show "nxt u = null_ptr" using T(3) a unfolding only_linked_def by blast
  qed
  have top: "\<exists>ts. regroup g ?f T = GroupN (root k) ts" "addr (regroup g ?f T) = root k"
    using ok by (auto simp: tree_ok_def)
  have "tree_ok ?k' (regroup g ?f T)"
    using tree gr(1,3) room ok onl top by (simp add: tree_ok_def)
  moreover have "grafted k ?k'"
  proof -
    have "same_tasks (heap k) h1" by (rule only_links_same(1) [OF ol])
    moreover have "same_tasks h1 ?h'" using g1 t1 by (intro same_tasks_upd) (simp_all add: task_part_def)
    ultimately have "same_tasks (heap k) ?h'" by (rule same_tasks_trans)
    then show ?thesis
      unfolding grafted_def by (intro conjI exI [of _ ?h'] exI [of _ "if g = root k then ?n else ring_head k"]) simp_all
  qed
  moreover have "only_at (insert ?n (set (addrs T))) k ?k'"
    unfolding only_at_def
  proof (intro allI impI)
    fix a assume a: "a \<notin> insert ?n (set (addrs T))"
    then have "a \<noteq> g" "a \<notin> insert ?n (addr ` set us)" using usT by auto
    then have "rdh ?h' a = rdh (heap k) a" using shp [of a] fr by (simp add: rdh_def)
    then show "rd ?k' a = rd k a" by (simp add: rd_def)
  qed
  ultimately show ?thesis using run by blast
qed

end
