(* ===== verification/RkMemory.thy ===== *)
theory RkMemory
  imports RkAlloc RkGraft
begin

text \<open>
  The kernel's memory: every TCB is a live block of the arena of the size of a TCB, and owns
  its closure block and its stack; no two own the same block (\<open>mem_ok\<close>).  So TCBs never
  alias each other, a block or a stack, and the heap map of the model is what the memory
  holds.  \<open>alloc_tcb\<close>, \<open>alloc_block\<close>, \<open>free_block\<close> and \<open>free_tcb\<close> keep this.
\<close>

section \<open>The geometry of the arena\<close>

definition same_region :: "arena \<Rightarrow> arena \<Rightarrow> bool" where
  "same_region a a' = (ar_base a' = ar_base a \<and> ar_len a' = ar_len a)"

lemma alloc_region:
  assumes "arena_ok a fs" and "alloc sz al a = Some (r, a')"
  shows "same_region a a'"
proof (cases "\<not> is_ready a \<or> sz = 0")
  case True
  then show ?thesis using assms(2) by (simp add: alloc_def same_region_def)
next
  case False
  note A = arena_okD [OF assms(1)]
  have scan: "alloc_scan sz (max al 4) 0 (ar_free a) a = Some (case List.find (fits a sz (max al 4)) fs of
      None \<Rightarrow> (None, a)
    | Some h \<Rightarrow> (Some (payload_of h (max al 4)),
        recycle sz (max al 4) (last (0 # takeWhile (\<lambda>x. \<not> fits a sz (max al 4) x) fs)) h a))"
    by (rule alloc_scan_spec [OF A(3)]) simp
  show ?thesis
  proof (cases "List.find (fits a sz (max al 4)) fs")
    case None
    then show ?thesis using scan False assms(2)
      by (auto simp: alloc_def Let_def alloc_fresh_def same_region_def split: if_splits)
  next
    case (Some h)
    then show ?thesis using scan False assms(2)
      by (auto simp: alloc_def Let_def recycle_def same_region_def split: if_splits)
  qed
qed

lemma free_region: "arena_free p a = Some a' \<Longrightarrow> same_region a a'"
  by (auto simp: arena_free_def same_region_def split: if_splits bind_splits)

text \<open>Room for one more request anywhere in the address space.\<close>

definition space_for :: "kernel \<Rightarrow> usize \<Rightarrow> bool" where
  "space_for k sz = (unat (ar_base (karena k)) + unat (ar_len (karena k)) + unat sz + 64 \<le> 2 ^ 32)"

section \<open>The invariant\<close>

definition blocks_of :: "tcb \<Rightarrow> ptr list" where
  "blocks_of t = filter (\<lambda>b. b \<noteq> 0) [closure_block t, stack_base t]"

definition mem_ok :: "kernel \<Rightarrow> bool" where
  "mem_ok k =
     ((\<exists>fs. arena_ok (karena k) fs) \<and>
      (\<forall>p t. rd k p = Some t \<longrightarrow> live_payload (karena k) p \<and> size_at (karena k) p = unat tcb_size) \<and>
      (\<forall>p t. rd k p = Some t \<longrightarrow> distinct (blocks_of t) \<and>
         (\<forall>b\<in>set (blocks_of t). live_payload (karena k) b \<and> rd k b = None)) \<and>
      (\<forall>p t q u. rd k p = Some t \<longrightarrow> rd k q = Some u \<longrightarrow> p \<noteq> q \<longrightarrow>
         set (blocks_of t) \<inter> set (blocks_of u) = {}))"

text \<open>One block was allocated.\<close>

definition gained :: "arena \<Rightarrow> arena \<Rightarrow> ptr \<Rightarrow> usize \<Rightarrow> bool" where
  "gained a a' p sz =
     ((\<exists>fs. arena_ok a' fs) \<and> same_region a a' \<and> p \<noteq> 0 \<and> \<not> live_payload a p \<and> size_at a' p = unat sz \<and>
      (\<forall>q. live_payload a' q \<longleftrightarrow> q = p \<or> live_payload a q) \<and>
      (\<forall>q. live_payload a q \<longrightarrow> size_at a' q = size_at a q))"

text \<open>One block was freed.\<close>

definition lost :: "arena \<Rightarrow> arena \<Rightarrow> ptr \<Rightarrow> bool" where
  "lost a a' p =
     ((\<exists>fs. arena_ok a' fs) \<and> same_region a a' \<and>
      (\<forall>q. live_payload a' q \<longleftrightarrow> live_payload a q \<and> q \<noteq> p) \<and>
      (\<forall>q. live_payload a' q \<longrightarrow> size_at a' q = size_at a q))"

lemma alloc_gains:
  assumes "arena_ok a fs" and "pow2 al n" and "unat al \<le> 32" and "sz \<noteq> 0"
    and "unat (ar_base a) + unat (ar_len a) + unat sz + 64 \<le> 2 ^ 32"
  shows "alloc sz al a = Some (None, a) \<or> (\<exists>p a'. alloc sz al a = Some (Some p, a') \<and> gained a a' p sz)"
proof -
  have "unat (max al 4) \<le> 32" using assms(3) by (simp add: max_def)
  then have "room_for a sz (max al 4)" using assms(5) by (simp add: room_for_def)
  from alloc_ok [OF assms(1,2) this assms(4)] obtain r a' where r: "alloc sz al a = Some (r, a')"
    "case r of None \<Rightarrow> a' = a | Some p \<Rightarrow> (\<exists>fs'. arena_ok a' fs') \<and> alloc_good a sz (max al 4) p a'"
    by blast
  show ?thesis
  proof (cases r)
    case None
    with r show ?thesis by simp
  next
    case (Some p)
    with r(2) have g: "\<exists>fs'. arena_ok a' fs'" "alloc_good a sz (max al 4) p a'" by simp_all
    have "p \<noteq> 0"
    proof
      assume "p = 0"
      with g(2) show False by (simp add: alloc_good_def)
    qed
    with g alloc_region [OF assms(1) r(1)] have "gained a a' p sz"
      by (simp add: gained_def alloc_good_def)
    with r(1) Some show ?thesis by blast
  qed
qed

lemma free_loses:
  assumes "arena_ok a fs" and "live_payload a p" and "p \<noteq> 0"
  shows "\<exists>a'. arena_free p a = Some a' \<and> lost a a' p"
proof -
  from free_ok [OF assms] obtain a' fs' where a': "arena_free p a = Some a'" "arena_ok a' fs'"
    "\<forall>q. live_payload a' q \<longleftrightarrow> live_payload a q \<and> q \<noteq> p"
    "\<forall>q. live_payload a' q \<longrightarrow> size_at a' q = size_at a q" by blast
  then have "lost a a' p" using free_region by (auto simp: lost_def)
  with a'(1) show ?thesis by blast
qed

lemma mem_okD:
  assumes "mem_ok k"
  shows "\<exists>fs. arena_ok (karena k) fs"
    "rd k p = Some t \<Longrightarrow> live_payload (karena k) p" "rd k p = Some t \<Longrightarrow> size_at (karena k) p = unat tcb_size"
    "rd k p = Some t \<Longrightarrow> distinct (blocks_of t)"
    "rd k p = Some t \<Longrightarrow> b \<in> set (blocks_of t) \<Longrightarrow> live_payload (karena k) b \<and> rd k b = None"
    "rd k p = Some t \<Longrightarrow> rd k q = Some u \<Longrightarrow> p \<noteq> q \<Longrightarrow> set (blocks_of t) \<inter> set (blocks_of u) = {}"
  using assms unfolding mem_ok_def by blast+

lemma mem_okI:
  assumes "\<exists>fs. arena_ok (karena k) fs"
    "\<And>p t. rd k p = Some t \<Longrightarrow> live_payload (karena k) p \<and> size_at (karena k) p = unat tcb_size"
    "\<And>p t. rd k p = Some t \<Longrightarrow> distinct (blocks_of t)"
    "\<And>p t b. rd k p = Some t \<Longrightarrow> b \<in> set (blocks_of t) \<Longrightarrow> live_payload (karena k) b \<and> rd k b = None"
    "\<And>p t q u. rd k p = Some t \<Longrightarrow> rd k q = Some u \<Longrightarrow> p \<noteq> q \<Longrightarrow> set (blocks_of t) \<inter> set (blocks_of u) = {}"
  shows "mem_ok k"
  unfolding mem_ok_def using assms by blast

text \<open>The invariant only looks at the arena and at what each TCB owns.\<close>

definition same_owners :: "tcb_heap \<Rightarrow> tcb_heap \<Rightarrow> bool" where
  "same_owners h h' = (\<forall>a. map_option blocks_of (rdh h' a) = map_option blocks_of (rdh h a))"

lemma same_ownersD:
  "same_owners h h' \<Longrightarrow> rdh h' a = Some t \<Longrightarrow> \<exists>u. rdh h a = Some u \<and> blocks_of t = blocks_of u"
  unfolding same_owners_def by (drule spec [of _ a], cases "rdh h a") auto

lemma mem_ok_owners:
  assumes ok: "mem_ok k" and ow: "same_owners (heap k) (heap k')" and ar: "karena k' = karena k"
  shows "mem_ok k'"
proof (rule mem_okI)
  have D: "\<exists>u. rd k a = Some u \<and> blocks_of t = blocks_of u" if "rd k' a = Some t" for a t
    using same_ownersD [OF ow] that by (simp add: rd_def)
  have N: "rd k' a = None" if "rd k a = None" for a
    using ow that unfolding same_owners_def rd_def by (metis option.map_disc_iff)
  show "\<exists>fs. arena_ok (karena k') fs" using mem_okD(1) [OF ok] ar by simp
  fix p t assume p: "rd k' p = Some t"
  from D [OF p] obtain u where u: "rd k p = Some u" "blocks_of t = blocks_of u" by blast
  show "live_payload (karena k') p \<and> size_at (karena k') p = unat tcb_size"
    using mem_okD(2,3) [OF ok u(1)] ar by simp
  show "distinct (blocks_of t)" using mem_okD(4) [OF ok u(1)] u(2) by simp
  show "live_payload (karena k') b \<and> rd k' b = None" if "b \<in> set (blocks_of t)" for b
    using mem_okD(5) [OF ok u(1), of b] u(2) that N ar by simp
  show "set (blocks_of t) \<inter> set (blocks_of v) = {}" if q: "rd k' q = Some v" "p \<noteq> q" for q v
  proof -
    from D [OF q(1)] obtain w where w: "rd k q = Some w" "blocks_of v = blocks_of w" by blast
    from mem_okD(6) [OF ok u(1) w(1) q(2)] u(2) w(2) show ?thesis by simp
  qed
qed

lemma same_tasks_owners: "same_tasks h h' \<Longrightarrow> same_owners h h'"
  unfolding same_owners_def
proof
  fix a assume s: "same_tasks h h'"
  show "map_option blocks_of (rdh h' a) = map_option blocks_of (rdh h a)"
  proof (cases "rdh h' a")
    case None
    then have "map_option task_part (rdh h a) = None" using s unfolding same_tasks_def by (metis option.map(1))
    then show ?thesis using None by simp
  next
    case (Some t)
    from same_tasksD' [OF s Some] obtain u where u: "rdh h a = Some u" "task_part u = task_part t" by blast
    then have "blocks_of t = blocks_of u" using task_part_simps(10,11) [OF u(2)] by (simp add: blocks_of_def)
    with Some u show ?thesis by simp
  qed
qed

lemma same_owners_upd:
  "rdh h a = Some t \<Longrightarrow> blocks_of t' = blocks_of t \<Longrightarrow> same_owners h (h(a \<mapsto> t'))"
  using rdh_SomeD [of h a t] by (auto simp: same_owners_def rdh_upd)

section \<open>Allocating and freeing\<close>

text \<open>A new block changes no owner.\<close>

lemma mem_ok_gain:
  assumes ok: "mem_ok k" and g: "gained (karena k) a' p sz"
  shows "mem_ok (k\<lparr>karena := a'\<rparr>)"
proof (rule mem_okI)
  have s: "rd (k\<lparr>karena := a'\<rparr>) q = rd k q" for q by (simp add: rd_def)
  have L: "live_payload a' q \<and> size_at a' q = size_at (karena k) q" if "live_payload (karena k) q" for q
    using g that by (auto simp: gained_def)
  show "\<exists>fs. arena_ok (karena (k\<lparr>karena := a'\<rparr>)) fs" using g by (simp add: gained_def)
  fix q t assume q: "rd (k\<lparr>karena := a'\<rparr>) q = Some t"
  then have q': "rd k q = Some t" by (simp add: s)
  show "live_payload (karena (k\<lparr>karena := a'\<rparr>)) q \<and> size_at (karena (k\<lparr>karena := a'\<rparr>)) q = unat tcb_size"
    using mem_okD(2,3) [OF ok q'] L by simp
  show "distinct (blocks_of t)" by (rule mem_okD(4) [OF ok q'])
  show "live_payload (karena (k\<lparr>karena := a'\<rparr>)) b \<and> rd (k\<lparr>karena := a'\<rparr>) b = None" if "b \<in> set (blocks_of t)" for b
    using mem_okD(5) [OF ok q' that] L s by simp
  show "set (blocks_of t) \<inter> set (blocks_of u) = {}" if "rd (k\<lparr>karena := a'\<rparr>) r = Some u" "q \<noteq> r" for r u
    using mem_okD(6) [OF ok q' _ that(2)] that(1) s by simp
qed

text \<open>A new block becomes a TCB that owns nothing.\<close>

lemma mem_ok_new:
  assumes ok: "mem_ok k" and g: "gained (karena k) a' p tcb_size" and t: "blocks_of t = []"
  shows "rd k p = None" "mem_ok (k\<lparr>karena := a', heap := (heap k)(p \<mapsto> t), nodes := n\<rparr>)"
proof -
  let ?k = "k\<lparr>karena := a', heap := (heap k)(p \<mapsto> t), nodes := n\<rparr>"
  have p: "p \<noteq> 0" "\<not> live_payload (karena k) p" using g by (simp_all add: gained_def)
  show n: "rd k p = None"
  proof (cases "rd k p")
    case (Some u)
    with mem_okD(2) [OF ok Some] p(2) show ?thesis by simp
  qed
  have s: "rd ?k q = (if q = p then Some t else rd k q)" for q
    using p(1) by (simp add: rd_def rdh_upd)
  have L: "live_payload a' q \<and> size_at a' q = size_at (karena k) q \<and> q \<noteq> p" if "live_payload (karena k) q" for q
    using g that p(2) by (auto simp: gained_def)
  show "mem_ok ?k"
  proof (rule mem_okI)
    show "\<exists>fs. arena_ok (karena ?k) fs" using g by (simp add: gained_def)
    fix q u assume q: "rd ?k q = Some u"
    show "live_payload (karena ?k) q \<and> size_at (karena ?k) q = unat tcb_size"
    proof (cases "q = p")
      case True
      then show ?thesis using g by (simp add: gained_def)
    next
      case False
      with q s have "rd k q = Some u" by simp
      with mem_okD(2,3) [OF ok this] L show ?thesis by simp
    qed
    show "distinct (blocks_of u)"
      using q s t mem_okD(4) [OF ok] by (cases "q = p") auto
    show "live_payload (karena ?k) b \<and> rd ?k b = None" if b: "b \<in> set (blocks_of u)" for b
    proof (cases "q = p")
      case True
      then show ?thesis using b q s t by simp
    next
      case False
      with q s have "rd k q = Some u" by simp
      from mem_okD(5) [OF ok this b] L [of b] s show ?thesis by simp
    qed
    show "set (blocks_of u) \<inter> set (blocks_of v) = {}" if r: "rd ?k r = Some v" "q \<noteq> r" for r v
      using q r s t mem_okD(6) [OF ok _ _ r(2), of u v] by (cases "q = p"; cases "r = p") auto
  qed
qed

text \<open>A TCB takes possession of a fresh block.\<close>

lemma mem_ok_own:
  assumes ok: "mem_ok k" and t: "rd k p = Some t" and lv: "live_payload (karena k) b" and b0: "rd k b = None" "b \<noteq> 0"
    and un: "\<forall>q u. rd k q = Some u \<longrightarrow> b \<notin> set (blocks_of u)"
    and t': "set (blocks_of t') = insert b (set (blocks_of t))" "distinct (blocks_of t')"
  shows "mem_ok (put p t' k)"
proof (rule mem_okI)
  have p0: "p \<noteq> 0" using t rd_nonnull by blast
  have s: "rd (put p t' k) q = (if q = p then Some t' else rd k q)" for q
    by (rule rd_put [OF p0])
  have K: "karena (put p t' k) = karena k" by (simp add: put_def)
  show "\<exists>fs. arena_ok (karena (put p t' k)) fs" using mem_okD(1) [OF ok] K by simp
  fix q u assume q: "rd (put p t' k) q = Some u"
  obtain u' where u': "rd k q = Some u'" "q \<noteq> p \<Longrightarrow> u = u'" "q = p \<Longrightarrow> u = t'"
    using q s t by (cases "q = p") auto
  show "live_payload (karena (put p t' k)) q \<and> size_at (karena (put p t' k)) q = unat tcb_size"
    using mem_okD(2,3) [OF ok u'(1)] K by simp
  show "distinct (blocks_of u)" using mem_okD(4) [OF ok u'(1)] u'(2,3) t'(2) by (cases "q = p") auto
  show "live_payload (karena (put p t' k)) c \<and> rd (put p t' k) c = None" if c: "c \<in> set (blocks_of u)" for c
  proof -
    have cc: "c = b \<or> (\<exists>r v. rd k r = Some v \<and> c \<in> set (blocks_of v))"
      using c u' t t'(1) by (cases "q = p") auto
    then have "live_payload (karena k) c \<and> rd k c = None"
      using lv b0 mem_okD(5) [OF ok] by blast
    then show ?thesis using s K t by auto
  qed
  show "set (blocks_of u) \<inter> set (blocks_of v) = {}" if r: "rd (put p t' k) r = Some v" "q \<noteq> r" for r v
  proof -
    obtain v' where v': "rd k r = Some v'" "r \<noteq> p \<Longrightarrow> v = v'" "r = p \<Longrightarrow> v = t'"
      using r s t by (cases "r = p") auto
    have "set (blocks_of u') \<inter> set (blocks_of v') = {}" by (rule mem_okD(6) [OF ok u'(1) v'(1) r(2)])
    then show ?thesis
      using u' v' un t t'(1) r(2) by (cases "q = p"; cases "r = p") auto
  qed
qed

text \<open>A block that no TCB is or owns.\<close>

definition unowned :: "kernel \<Rightarrow> ptr \<Rightarrow> bool" where
  "unowned k b = (rd k b = None \<and> (\<forall>q u. rd k q = Some u \<longrightarrow> b \<notin> set (blocks_of u)))"

lemma mem_ok_forget:
  assumes "mem_ok k"
  shows "mem_ok (k\<lparr>heap := (heap k)(p := None)\<rparr>)"
proof (rule mem_okI)
  let ?k = "k\<lparr>heap := (heap k)(p := None)\<rparr>"
  have s: "rd ?k q = (if q = p then None else rd k q)" for q by (simp add: rd_def rdh_def)
  show "\<exists>fs. arena_ok (karena ?k) fs" using mem_okD(1) [OF assms] by simp
  fix q u assume q: "rd ?k q = Some u"
  then have q': "rd k q = Some u" using s by (auto split: if_splits)
  show "live_payload (karena ?k) q \<and> size_at (karena ?k) q = unat tcb_size"
    using mem_okD(2,3) [OF assms q'] by simp
  show "distinct (blocks_of u)" by (rule mem_okD(4) [OF assms q'])
  show "live_payload (karena ?k) b \<and> rd ?k b = None" if "b \<in> set (blocks_of u)" for b
    using mem_okD(5) [OF assms q' that] s by simp
  show "set (blocks_of u) \<inter> set (blocks_of v) = {}" if r: "rd ?k r = Some v" "q \<noteq> r" for r v
    using mem_okD(6) [OF assms q' _ r(2)] r(1) s by (auto split: if_splits)
qed

lemma free_unowned:
  assumes ok: "mem_ok k" and lv: "live_payload (karena k) b" and b0: "b \<noteq> 0" and un: "unowned k b"
  shows "\<exists>a'. free_block b k = Some (k\<lparr>karena := a'\<rparr>) \<and> lost (karena k) a' b \<and> mem_ok (k\<lparr>karena := a'\<rparr>)"
proof -
  from mem_okD(1) [OF ok] obtain fs where fs: "arena_ok (karena k) fs" by blast
  from free_loses [OF fs lv b0] obtain a' where a': "arena_free b (karena k) = Some a'" "lost (karena k) a' b"
    by blast
  have s: "rd (k\<lparr>karena := a'\<rparr>) q = rd k q" for q by (simp add: rd_def)
  have L: "live_payload a' q \<and> size_at a' q = size_at (karena k) q" if "live_payload (karena k) q" "q \<noteq> b" for q
    using a'(2) that by (auto simp: lost_def)
  have "mem_ok (k\<lparr>karena := a'\<rparr>)"
  proof (rule mem_okI)
    show "\<exists>fs. arena_ok (karena (k\<lparr>karena := a'\<rparr>)) fs" using a'(2) by (simp add: lost_def)
    fix q t assume "rd (k\<lparr>karena := a'\<rparr>) q = Some t"
    then have q': "rd k q = Some t" by (simp add: s)
    have qb: "q \<noteq> b" using un q' by (auto simp: unowned_def)
    show "live_payload (karena (k\<lparr>karena := a'\<rparr>)) q \<and> size_at (karena (k\<lparr>karena := a'\<rparr>)) q = unat tcb_size"
      using mem_okD(2,3) [OF ok q'] L qb by simp
    show "distinct (blocks_of t)" by (rule mem_okD(4) [OF ok q'])
    show "live_payload (karena (k\<lparr>karena := a'\<rparr>)) c \<and> rd (k\<lparr>karena := a'\<rparr>) c = None" if "c \<in> set (blocks_of t)" for c
    proof -
      have "c \<noteq> b" using un q' that by (auto simp: unowned_def)
      with mem_okD(5) [OF ok q' that] L s show ?thesis by simp
    qed
    show "set (blocks_of t) \<inter> set (blocks_of u) = {}" if "rd (k\<lparr>karena := a'\<rparr>) r = Some u" "q \<noteq> r" for r u
      using mem_okD(6) [OF ok q' _ that(2)] that(1) s by simp
  qed
  with a' show ?thesis by (auto simp: free_block_def)
qed

text \<open>Several blocks were freed.\<close>

definition lost_all :: "arena \<Rightarrow> arena \<Rightarrow> ptr set \<Rightarrow> bool" where
  "lost_all a a' B =
     (same_region a a' \<and> (\<forall>q. live_payload a' q \<longleftrightarrow> live_payload a q \<and> q \<notin> B) \<and>
      (\<forall>q. live_payload a' q \<longrightarrow> size_at a' q = size_at a q))"

lemma lost_all_refl [simp]: "lost_all a a {}"
  by (simp add: lost_all_def same_region_def)

lemma lost_all_step: "lost_all a a' B \<Longrightarrow> lost a' a'' b \<Longrightarrow> lost_all a a'' (insert b B)"
  by (auto simp: lost_all_def lost_def same_region_def)

lemma lost_all_trans: "lost_all a a' B \<Longrightarrow> lost_all a' a'' C \<Longrightarrow> lost_all a a'' (B \<union> C)"
  by (auto simp: lost_all_def same_region_def)

lemma free_unowned_list:
  assumes "mem_ok k" and "distinct bs" and "\<forall>b\<in>set bs. live_payload (karena k) b \<and> b \<noteq> 0 \<and> unowned k b"
  shows "\<exists>a'. foldl (\<lambda>r b. Option.bind r (free_block b)) (Some k) bs = Some (k\<lparr>karena := a'\<rparr>)
    \<and> lost_all (karena k) a' (set bs) \<and> mem_ok (k\<lparr>karena := a'\<rparr>)"
  using assms
proof (induction bs arbitrary: k)
  case Nil
  then show ?case by (intro exI [of _ "karena k"]) simp
next
  case (Cons b bs)
  from Cons.prems(3) have b: "live_payload (karena k) b" "b \<noteq> 0" "unowned k b" by simp_all
  from free_unowned [OF Cons.prems(1) b] obtain a1 where a1: "free_block b k = Some (k\<lparr>karena := a1\<rparr>)"
    "lost (karena k) a1 b" "mem_ok (k\<lparr>karena := a1\<rparr>)" by blast
  have "\<forall>c\<in>set bs. live_payload (karena (k\<lparr>karena := a1\<rparr>)) c \<and> c \<noteq> 0 \<and> unowned (k\<lparr>karena := a1\<rparr>) c"
    using Cons.prems(2,3) a1(2) by (auto simp: lost_def unowned_def rd_def)
  from Cons.IH [OF a1(3) _ this] Cons.prems(2) obtain a' where
    "foldl (\<lambda>r b. Option.bind r (free_block b)) (Some (k\<lparr>karena := a1\<rparr>)) bs = Some (k\<lparr>karena := a'\<rparr>)"
    "lost_all a1 a' (set bs)" "mem_ok (k\<lparr>karena := a'\<rparr>)" by auto
  moreover have "lost_all (karena k) a' (set (b # bs))"
    using lost_all_trans [OF lost_all_step [OF lost_all_refl a1(2)]] \<open>lost_all a1 a' (set bs)\<close> by fastforce
  ultimately show ?case using a1(1) by auto
qed

lemma free_block_null [simp]: "free_block 0 k = Some k"
  by (simp add: free_block_def arena_free_def)

text \<open>\<open>free_block\<close> works on the arena only.\<close>

lemma free_block_heap:
  "free_block b (k\<lparr>heap := h\<rparr>) = map_option (\<lambda>k'. k'\<lparr>heap := h\<rparr>) (free_block b k)"
  by (simp add: free_block_def split: bind_split)

text \<open>What the reclaimer frees of one dead task.\<close>

definition free_task :: "ptr \<Rightarrow> tcb \<Rightarrow> kernel \<Rightarrow> kernel option" where
  "free_task p t k = do {
     k \<leftarrow> free_block (closure_block t) k;
     k \<leftarrow> free_block (stack_base t) k;
     free_tcb p k
   }"

lemma free_task_ok:
  assumes ok: "mem_ok k" and t: "rd k p = Some t"
  shows "\<exists>a'. free_task p t k = Some (k\<lparr>karena := a', heap := (heap k)(p := None)\<rparr>)
    \<and> lost_all (karena k) a' (insert p (set (blocks_of t))) \<and> mem_ok (k\<lparr>karena := a', heap := (heap k)(p := None)\<rparr>)"
proof -
  let ?k0 = "k\<lparr>heap := (heap k)(p := None)\<rparr>"
  let ?bs = "blocks_of t @ [p]"
  have ok0: "mem_ok ?k0" by (rule mem_ok_forget [OF ok])
  have s: "rd ?k0 q = (if q = p then None else rd k q)" for q by (simp add: rd_def rdh_def)
  have p0: "p \<noteq> 0" using t rd_nonnull by blast
  have pb: "p \<notin> set (blocks_of t)" using mem_okD(5) [OF ok t, of p] t by auto
  have "distinct ?bs" using mem_okD(4) [OF ok t] pb by simp
  moreover have "\<forall>b\<in>set ?bs. live_payload (karena ?k0) b \<and> b \<noteq> 0 \<and> unowned ?k0 b"
  proof
    fix b assume b: "b \<in> set ?bs"
    show "live_payload (karena ?k0) b \<and> b \<noteq> 0 \<and> unowned ?k0 b"
    proof (cases "b = p")
      case True
      have "p \<notin> set (blocks_of u)" if "rd k q = Some u" for q u
        using mem_okD(5) [OF ok that, of p] t by auto
      with True mem_okD(2) [OF ok t] p0 s show ?thesis by (simp add: unowned_def)
    next
      case False
      with b have bt: "b \<in> set (blocks_of t)" by simp
      then have "b \<noteq> 0" by (auto simp: blocks_of_def split: if_splits)
      moreover have "b \<notin> set (blocks_of u)" if "rd k q = Some u" "q \<noteq> p" for q u
        using mem_okD(6) [OF ok t that(1)] that(2) bt by auto
      ultimately show ?thesis using mem_okD(5) [OF ok t bt] s False by (simp add: unowned_def)
    qed
  qed
  ultimately obtain a' where
    a': "foldl (\<lambda>r b. Option.bind r (free_block b)) (Some ?k0) ?bs = Some (?k0\<lparr>karena := a'\<rparr>)"
      "lost_all (karena ?k0) a' (set ?bs)" "mem_ok (?k0\<lparr>karena := a'\<rparr>)"
    using free_unowned_list [OF ok0] by blast
  have "foldl (\<lambda>r b. Option.bind r (free_block b)) (Some ?k0) ?bs
      = Option.bind (Option.bind (Option.bind (Some ?k0) (free_block (closure_block t))) (free_block (stack_base t))) (free_block p)"
    by (simp add: blocks_of_def)
  also have "\<dots> = free_task p t k"
    by (cases "arena_free (closure_block t) (karena k)")
      (auto simp: free_task_def free_tcb_def free_block_def split: bind_splits)
  finally have "free_task p t k = Some (?k0\<lparr>karena := a'\<rparr>)" using a'(1) by simp
  moreover have e: "?k0\<lparr>karena := a'\<rparr> = k\<lparr>karena := a', heap := (heap k)(p := None)\<rparr>" by simp
  moreover have "lost_all (karena k) a' (insert p (set (blocks_of t)))" using a'(2) by simp
  ultimately show ?thesis using a'(3) unfolding e by (intro exI [of _ a'] conjI)
qed

end
