(* ===== verification/RkExit.thy ===== *)
theory RkExit
  imports RkGraft
begin

text \<open>
  The exit path (\<^verbatim>\<open>exit_task\<close> of \<^verbatim>\<open>src/trampoline.rs\<close>): the dying leaf leaves its
  ring, its group's head and cursor move on if they pointed at it, the task joins the list
  of dead tasks, and the rest of the tree is as before.
\<close>

definition cut :: "ptr \<Rightarrow> ntree list \<Rightarrow> ntree list" where
  "cut me us = filter (\<lambda>c. addr c \<noteq> me) us"

lemma cut_split:
  "addr d = me \<Longrightarrow> me \<notin> addr ` set ls \<Longrightarrow> me \<notin> addr ` set rs \<Longrightarrow> cut me (ls @ d # rs) = ls @ rs"
proof -
  assume a: "addr d = me" "me \<notin> addr ` set ls" "me \<notin> addr ` set rs"
  then have "filter (\<lambda>c. addr c \<noteq> me) ls = ls" "filter (\<lambda>c. addr c \<noteq> me) rs = rs"
    by (auto intro!: filter_True) (metis image_eqI)+
  with a(1) show ?thesis by (simp add: cut_def)
qed

lemma cut_addrs:
  assumes "distinct (addrs T)" and "GroupN g us \<in> set (subs T)" and "LeafN me \<in> set us"
  shows "distinct (addrs (regroup g (cut me) T))"
    "set (addrs (regroup g (cut me) T)) = set (addrs T) - {me}"
    "length (addrs (regroup g (cut me) T)) \<le> length (addrs T)"
proof -
  from addrs_regroup [OF assms(1,2)] obtain xs ys where
    x: "addrs T = xs @ kid_addrs us @ ys" "addrs (regroup g (cut me) T) = xs @ kid_addrs (cut me us) @ ys"
    by blast
  from assms(3) obtain ls rs where us: "us = ls @ LeafN me # rs" by (meson split_list)
  have "me \<notin> set (kid_addrs ls)" "me \<notin> set (kid_addrs rs)" using assms(1) x(1) us by auto
  then have "me \<notin> addr ` set ls" "me \<notin> addr ` set rs" using addr_in_addrs by fastforce+
  then have c: "cut me us = ls @ rs" using cut_split [of "LeafN me"] us by simp
  show "distinct (addrs (regroup g (cut me) T))"
    "set (addrs (regroup g (cut me) T)) = set (addrs T) - {me}"
    "length (addrs (regroup g (cut me) T)) \<le> length (addrs T)"
    using assms(1) x c us by auto
qed

section \<open>What the exit path writes\<close>

text \<open>The group's pointers after its child \<open>me\<close> is gone.\<close>

definition past :: "ptr \<Rightarrow> ptr \<Rightarrow> tcb \<Rightarrow> tcb" where
  "past me succ t = t\<lparr>children_head := (if children_head t = me then succ else children_head t),
     current_child := (if current_child t = me then succ else current_child t)\<rparr>"

lemma exit_task_run:
  assumes tr: "tree_at (heap k) p (GroupN g us)" and D: "distinct (map addr us)" and me: "LeafN me \<in> set us"
    and gu: "g \<notin> addr ` set us" and gt: "rd k g = Some t" and mt: "rd k me = Some tm"
  shows "\<exists>succ h1. exit_task me k = Some (k\<lparr>heap := h1(g \<mapsto> past me succ t, me \<mapsto> tm\<lparr>st := Dead, nxt := 0,
        prv := pending_free k\<rparr>), ring_head := (if root k = 0 \<or> g = root k then succ else ring_head k),
        current_tcb := 0, active_threads := sat_sub (active_threads k) 1, pending_free := me,
        switch_pending := True\<rparr>)
     \<and> only_links ((heap k)(me \<mapsto> tm\<lparr>st := Dead\<rparr>)) h1 \<and> rdh h1 g = Some t
     \<and> (cut me us = [] \<and> succ = 0 \<or> cut me us \<noteq> [] \<and> succ \<in> addr ` set (cut me us) \<and>
         (children_head t = me \<longrightarrow> succ = addr (hd (cut me us))) \<and> ring h1 (map addr (cut me us)))
     \<and> (\<forall>a. a \<notin> addr ` set us \<longrightarrow> h1 a = heap k a)"
proof -
  have nz: "me \<noteq> 0" "g \<noteq> 0" using mt gt rd_nonnull by auto
  obtain ls d rs where us: "us = ls @ d # rs" "addr d = me" "addr d \<notin> addr ` set ls" "addr d \<notin> addr ` set rs"
    using distinct_split [OF D, of me] me by (metis addr.simps(1) image_eqI)
  have cu: "cut me us = ls @ rs" using cut_split us by simp
  have pm: "parent tm = g" "nxt tm \<noteq> 0" using kid_linked [OF tr me] mt by (auto simp: rd_def)
  let ?h0 = "(heap k)(me \<mapsto> tm\<lparr>st := Dead\<rparr>)"
  have une: "us \<noteq> []" using me by auto
  then have R: "ring (heap k) (map addr us)" and chd: "children_head t = addr (hd us)"
    using tr gt by (auto simp: ring_at_def rd_def hd_map)
  have "same_shape (heap k) ?h0" using mt by (intro same_shape_upd) (simp_all add: rd_def)
  then have "ring ?h0 (map addr us)" using ring_cong [OF R] same_shape_links by blast
  then have R0: "ring ?h0 (me # map addr (rs @ ls))"
    using ring_rotate [of ?h0 "map addr ls" "me # map addr rs"] us by simp
  have m0: "rdh ?h0 me = Some (tm\<lparr>st := Dead\<rparr>)" using nz by simp
  have hs: "(if map addr (rs @ ls) = [] then null_ptr else hd (map addr (rs @ ls)))
      = (if rs @ ls = [] then 0 else addr (hd (rs @ ls)))"
    by (cases "rs @ ls") auto
  have me0: "map addr (rs @ ls) \<noteq> [] \<longleftrightarrow> rs @ ls \<noteq> []" by simp
  from unlink_ring [OF R0 m0, unfolded hs me0] obtain h1 where
    un: "unlink me ?h0 = Some (if rs @ ls = [] then 0 else addr (hd (rs @ ls)), h1)"
    and R1: "rs @ ls \<noteq> [] \<longrightarrow> ring h1 (map addr (rs @ ls))" and ol: "only_links ?h0 h1"
    and m1: "rdh h1 me = Some (tm\<lparr>st := Dead, nxt := 0, prv := 0\<rparr>)"
    and fr: "\<forall>a. a \<notin> set (me # map addr (rs @ ls)) \<longrightarrow> h1 a = ?h0 a"
    by blast
  let ?succ = "if rs @ ls = [] then 0 else addr (hd (rs @ ls))"
  have gme: "g \<noteq> me" using gu me by force
  have "g \<notin> set (me # map addr (rs @ ls))" using gu us by auto
  then have "h1 g = ?h0 g" using fr by blast
  then have g1: "rdh h1 g = Some t" using gt gme by (simp add: rdh_def rd_def split: if_splits)
  have hid: "h1(g \<mapsto> t) = h1" using g1 nz(2) by (auto simp: rdh_def)
  have run: "exit_task me k = Some (k\<lparr>heap := h1(g \<mapsto> past me ?succ t, me \<mapsto> tm\<lparr>st := Dead, nxt := 0,
        prv := pending_free k\<rparr>), ring_head := (if root k = 0 \<or> g = root k then ?succ else ring_head k),
        current_tcb := 0, active_threads := sat_sub (active_threads k) 1, pending_free := me,
        switch_pending := True\<rparr>)"
  proof -
    let ?s = "?succ"
    have a: "upd (\<lambda>t. t\<lparr>st := Dead\<rparr>) me k = Some (k\<lparr>heap := ?h0\<rparr>)"
      using mt by (simp add: upd_Some)
    have b: "rd (k\<lparr>heap := h1\<rparr>) me = Some (tm\<lparr>st := Dead, nxt := 0, prv := 0\<rparr>)"
      using m1 by (simp add: rd_def)
    have c: "forget_child me g s (k\<lparr>heap := h1\<rparr>) = Some (k\<lparr>heap := h1(g \<mapsto> past me s t)\<rparr>)" for s
      using g1 nz gme hid
      by (cases "children_head t = me"; cases "current_child t = me")
        (simp_all add: forget_child_def upd_def updh_def rd_def past_def)
    have d: "push_pending_free me k' = Some (k'\<lparr>heap := h1(g \<mapsto> x, me \<mapsto>
          tm\<lparr>st := Dead, nxt := 0, prv := pending_free k'\<rparr>), pending_free := me\<rparr>)"
      if "heap k' = h1(g \<mapsto> x)" for x k'
      using m1 gme nz that by (simp add: push_pending_free_def upd_def updh_def rd_def)
    have e: "heap (k_set_current null_ptr k') = heap k'" for k' by (simp add: k_set_current_def)
    show ?thesis
      unfolding exit_task_def Let_def using nz pm un
      apply (cases "root k = 0 \<or> g = root k")
      apply (simp_all del: append_is_Nil_conv add: a b c d set_heap_def k_set_current_def request_switch_def)
      done
  qed
  have fr': "\<forall>a. a \<notin> addr ` set us \<longrightarrow> h1 a = heap k a"
    using fr us by auto
  have rg: "ring h1 (map addr (cut me us))" if "cut me us \<noteq> []"
    using R1 cu that ring_rotate [of h1 "map addr rs" "map addr ls"] by auto
  have hd: "children_head t = me \<longrightarrow> ?succ = addr (hd (cut me us))" if "cut me us \<noteq> []"
  proof
    assume "children_head t = me"
    then have "ls = []" using chd us by (cases ls) auto
    then show "?succ = addr (hd (cut me us))" using cu that by simp
  qed
  have si: "?succ \<in> addr ` set (cut me us)" if "cut me us \<noteq> []"
    using cu that by (cases rs) auto
  show ?thesis
    using run ol g1 fr' rg hd si cu
    by (intro exI [of _ ?succ] exI [of _ h1]) auto
qed

section \<open>The invariants after an exit\<close>

text \<open>Everything about the rest of the system that an exit leaves alone.\<close>

definition retired :: "ptr \<Rightarrow> kernel \<Rightarrow> kernel \<Rightarrow> bool" where
  "retired me k k' =
     (current_tcb k' = 0 \<and> active_threads k' = sat_sub (active_threads k) 1 \<and> switch_pending k' \<and>
      pending_free k' = me \<and> karena k' = karena k \<and> nodes k' = nodes k \<and> root k' = root k \<and>
      reclaimed k' = reclaimed k \<and> ticks k' = ticks k \<and> total_threads k' = total_threads k \<and>
      (\<forall>t. rd k me = Some t \<longrightarrow>
         (\<exists>t'. rd k' me = Some t' \<and> st t' = Dead \<and> nxt t' = 0 \<and> prv t' = pending_free k \<and>
            closure_block t' = closure_block t \<and> stack_base t' = stack_base t)) \<and>
      (\<forall>a. a \<noteq> me \<longrightarrow> map_option task_part (rd k' a) = map_option task_part (rd k a)))"

lemma leaf_group:
  assumes "tree_ok k T" and "LeafN me \<in> set (subs T)"
  obtains g us where "GroupN g us \<in> set (subs T)" "LeafN me \<in> set us"
proof -
  have ne: "LeafN me \<noteq> T" using assms(1) by (auto simp: tree_ok_def)
  from lineage_ex [OF assms(2)] obtain As where lin: "lineage T (LeafN me # As)" by blast
  then obtain B Bs where As: "As = B # Bs" using ne by (cases As) auto
  with lin have "LeafN me \<in> set (kids B)" "B \<in> set (subs T)" using lineage_sub [of T "LeafN me # As"] by auto
  then show thesis using that by (cases B) auto
qed

theorem exit_task_tree:
  assumes ok: "tree_ok k T" and G: "GroupN g us \<in> set (subs T)" and me: "LeafN me \<in> set us"
  shows "\<exists>k'. exit_task me k = Some k' \<and> tree_ok k' (regroup g (cut me) T) \<and> retired me k k'
    \<and> only_at (set (addrs T)) k k'"
proof -
  have T: "tree_at (heap k) 0 T" "distinct (addrs T)" "only_linked (heap k) T"
    using ok by (simp_all add: tree_ok_def)
  from tree_at_sub [OF T(1) G] obtain q where q: "tree_at (heap k) q (GroupN g us)" by blast
  then obtain t where t: "rd k g = Some t" "current_child t = 0 \<or> current_child t \<in> addr ` set us"
      "kind t = Group" "ring_at (heap k) t (map addr us)"
    by (auto simp: rd_def)
  have meS: "LeafN me \<in> set (subs T)" by (rule subs_kid [OF G me])
  from tree_at_sub [OF T(1) meS] obtain tm where tm: "rd k me = Some tm" "kind tm = Leaf"
    by (auto simp: rd_def)
  have us: "set (addrs (GroupN g us)) \<subseteq> set (addrs T)" by (rule subs_addrs [OF G])
  have dg: "distinct (addrs (GroupN g us))" by (rule subs_distinct [OF T(2) G])
  have D: "distinct (map addr us)" using dg by (intro distinct_map_addr) simp
  have gu: "g \<notin> addr ` set us" using dg by (auto simp: image_iff)
  have meu: "me \<in> addr ` set us" using me by force
  have gme: "g \<noteq> me" using gu meu by auto
  have nz: "me \<noteq> 0" "g \<noteq> 0" using tm t rd_nonnull by auto
  let ?h0 = "(heap k)(me \<mapsto> tm\<lparr>st := Dead\<rparr>)"
  from exit_task_run [OF q D me gu t(1) tm(1)] obtain succ h1 where
    run: "exit_task me k = Some (k\<lparr>heap := h1(g \<mapsto> past me succ t, me \<mapsto> tm\<lparr>st := Dead, nxt := 0,
        prv := pending_free k\<rparr>), ring_head := (if root k = 0 \<or> g = root k then succ else ring_head k),
        current_tcb := 0, active_threads := sat_sub (active_threads k) 1, pending_free := me,
        switch_pending := True\<rparr>)"
    and ol: "only_links ?h0 h1" and g1: "rdh h1 g = Some t"
    and R: "cut me us = [] \<and> succ = 0 \<or> cut me us \<noteq> [] \<and> succ \<in> addr ` set (cut me us) \<and>
         (children_head t = me \<longrightarrow> succ = addr (hd (cut me us))) \<and> ring h1 (map addr (cut me us))"
    and fr: "\<forall>a. a \<notin> addr ` set us \<longrightarrow> h1 a = heap k a" by blast
  let ?t1 = "past me succ t"
  let ?m1 = "tm\<lparr>st := Dead, nxt := 0, prv := pending_free k\<rparr>"
  let ?h' = "h1(g \<mapsto> ?t1, me \<mapsto> ?m1)"
  have rdh': "rdh ?h' a = (if a = me then Some ?m1 else if a = g then Some ?t1 else rdh h1 a)" for a
    using nz by (simp add: rdh_upd)
  have ring': "ring ?h' (map addr (cut me us))" if "cut me us \<noteq> []"
  proof (rule ring_cong)
    show "ring h1 (map addr (cut me us))" using R that by blast
    have "me \<notin> set (map addr (cut me us))" by (auto simp: cut_def)
    then show "\<forall>x\<in>set (map addr (cut me us)). same_links h1 ?h' x"
      unfolding same_links_def rdh' using g1 by (auto simp: past_def)
  qed
  have sc: "set (cut me us) = {c \<in> set us. addr c \<noteq> me}" by (auto simp: cut_def)
  have ch0: "us \<noteq> []" using me by auto
  then have chd: "children_head t = addr (hd us)" using t(4) by (simp add: ring_at_def hd_map)
  have ra: "ring_at ?h' ?t1 (map addr (cut me us))"
  proof (cases "cut me us = []")
    case True
    then have all: "\<forall>c\<in>set us. addr c = me" by (auto simp: cut_def filter_empty_conv)
    then have "addr (hd us) = me" using ch0 by simp
    then show ?thesis using True R chd by (simp add: ring_at_def past_def)
  next
    case False
    have "children_head ?t1 = addr (hd (cut me us))"
    proof (cases "children_head t = me")
      case True
      then show ?thesis using R False by (simp add: past_def)
    next
      case ne: False
      then have "cut me us = hd us # cut me (tl us)"
        using chd ch0 by (cases us) (simp_all add: cut_def)
      then show ?thesis using ne chd by (simp add: past_def)
    qed
    then show ?thesis using ring' [OF False] False by (simp add: ring_at_def hd_map)
  qed
  have cc: "current_child ?t1 = 0 \<or> current_child ?t1 \<in> addr ` set (cut me us)"
    using R t(2) sc by (auto simp: past_def)
  have sb: "same_body (heap k) ?h' a" if "a \<noteq> g" for a
  proof (cases "a = me")
    case True
    then show ?thesis using tm(1) by (simp add: same_body_def rdh' rd_def body_def)
  next
    case False
    have "rdh ?h0 a = rdh (heap k) a" using False by simp
    then show ?thesis
      using only_links_same(2) [OF ol, of a] that False unfolding same_body_def rdh' by simp
  qed
  have frl: "same_links (heap k) ?h' a" if a: "a \<notin> addr ` set us" for a
  proof (cases "a = g")
    case True
    have "rdh ?h' g = Some ?t1" unfolding rdh' using gme by simp
    moreover have "nxt ?t1 = nxt t" "prv ?t1 = prv t" by (simp_all add: past_def)
    ultimately show ?thesis using True t(1) unfolding same_links_def rd_def by auto
  next
    case False
    have "h1 a = heap k a" using fr a by blast
    moreover have "a \<noteq> me" using a meu by auto
    ultimately have "rdh ?h' a = rdh (heap k) a" using False rdh' [of a] by (simp add: rdh_def)
    then show ?thesis by (rule same_linksI)
  qed
  have tree: "tree_at ?h' 0 (regroup g (cut me) T)"
  proof (rule tree_at_regroup [OF G T(2,1)])
    show "\<forall>a\<in>set (addrs T). a \<noteq> g \<longrightarrow> same_body (heap k) ?h' a" by (intro ballI impI sb)
    show "\<forall>a\<in>set (addrs T). a \<notin> addr ` set us \<longrightarrow> same_links (heap k) ?h' a" by (intro ballI impI frl)
    show "\<forall>t. rdh (heap k) g = Some t \<longrightarrow> (\<exists>t'. rdh ?h' g = Some t' \<and> kind t' = Group \<and> parent t' = parent t \<and>
        ring_at ?h' t' (map addr (cut me us)) \<and> (current_child t' = 0 \<or> current_child t' \<in> addr ` set (cut me us)))"
    proof (intro allI impI)
      fix u assume "rdh (heap k) g = Some u"
      then have u: "u = t" using t(1) by (simp add: rd_def)
      have "rdh ?h' g = Some ?t1" unfolding rdh' using gme by simp
      moreover have "kind ?t1 = Group" "parent ?t1 = parent t" using t(3) by (simp_all add: past_def)
      ultimately show "\<exists>t'. rdh ?h' g = Some t' \<and> kind t' = Group \<and> parent t' = parent u \<and>
        ring_at ?h' t' (map addr (cut me us)) \<and> (current_child t' = 0 \<or> current_child t' \<in> addr ` set (cut me us))"
        using ra cc u by blast
    qed
    show "\<forall>c\<in>set (cut me us). c \<in> set us \<or> tree_at ?h' g c" using sc by blast
  qed
  note ca = cut_addrs [OF T(2) G me]
  have onl: "only_linked ?h' (regroup g (cut me) T)"
    unfolding only_linked_def ca(2)
  proof (intro allI impI)
    fix a u assume u: "rdh ?h' a = Some u" and a: "a \<notin> set (addrs T) - {me}"
    show "nxt u = null_ptr"
    proof (cases "a = me")
      case True
      then show ?thesis using u rdh' [of a] by auto
    next
      case False
      with a have aT: "a \<notin> set (addrs T)" by simp
      have "addr ` set us \<subseteq> set (addrs (GroupN g us))" using addr_in_addrs by fastforce
      with aT us have "a \<notin> addr ` set us" "a \<noteq> g" by auto
      then have "rdh (heap k) a = Some u" using fr u False rdh' [of a] by (simp add: rdh_def split: if_splits)
      then show ?thesis using T(3) aT unfolding only_linked_def by blast
    qed
  qed
  let ?k' = "k\<lparr>heap := ?h', ring_head := (if root k = 0 \<or> g = root k then succ else ring_head k),
        current_tcb := 0, active_threads := sat_sub (active_threads k) 1, pending_free := me,
        switch_pending := True\<rparr>"
  have top: "\<exists>ts. regroup g (cut me) T = GroupN (root k) ts" "addr (regroup g (cut me) T) = root k"
    using ok by (auto simp: tree_ok_def)
  have "tree_ok ?k' (regroup g (cut me) T)"
    using tree ca(1,3) ok onl top by (simp add: tree_ok_def)
  moreover have "map_option task_part (rd ?k' a) = map_option task_part (rd k a)" if "a \<noteq> me" for a
  proof -
    have "map_option task_part (rdh h1 a) = map_option task_part (rdh (heap k) a)"
      using only_links_same(1) [OF ol] that by (simp add: same_tasks_def)
    moreover have "task_part ?t1 = task_part t" by (simp add: task_part_def past_def)
    ultimately show ?thesis
      using that t(1) rdh' [of a] by (simp add: rd_def)
  qed
  then have "retired me k ?k'"
    using tm(1) rdh' [of me] unfolding retired_def by (simp add: rd_def)
  moreover have "only_at (set (addrs T)) k ?k'"
    unfolding only_at_def
  proof (intro allI impI)
    fix a assume a: "a \<notin> set (addrs T)"
    have "addr ` set us \<subseteq> set (addrs (GroupN g us))" using addr_in_addrs by fastforce
    with a us have o: "a \<notin> addr ` set us" "a \<noteq> g" by auto
    with meu have "a \<noteq> me" by auto
    then have "rdh ?h' a = rdh (heap k) a" using o fr rdh' [of a] by (simp add: rdh_def)
    then show "rd ?k' a = rd k a" by (simp add: rd_def)
  qed
  ultimately show ?thesis using run by blast
qed

theorem exit_task_ok:
  assumes ok: "kernel_ok k T" and cur: "LeafN (current_tcb k) \<in> set (subs T)"
  shows "\<exists>g us k'. GroupN g us \<in> set (subs T) \<and> LeafN (current_tcb k) \<in> set us
    \<and> exit_task (current_tcb k) k = Some k' \<and> kernel_ok k' (regroup g (cut (current_tcb k)) T)
    \<and> retired (current_tcb k) k k' \<and> only_at (set (addrs T)) k k'"
proof -
  have tok: "tree_ok k T" and one: "one_running k" using ok by (simp_all add: kernel_ok_def)
  from leaf_group [OF tok cur] obtain g us where
    G: "GroupN g us \<in> set (subs T)" "LeafN (current_tcb k) \<in> set us" .
  from exit_task_tree [OF tok G] obtain k' where k': "exit_task (current_tcb k) k = Some k'"
      "tree_ok k' (regroup g (cut (current_tcb k)) T)" "retired (current_tcb k) k k'"
      "only_at (set (addrs T)) k k'" by blast
  have "cur_ok k'" using k'(3) by (simp add: cur_ok_def retired_def)
  moreover have "one_running k'"
    unfolding one_running_def
  proof (intro allI impI)
    fix a t assume a: "rd k' a = Some t" "st t = Running"
    have "a \<noteq> current_tcb k"
    proof
      assume "a = current_tcb k"
      moreover obtain u where "rd k (current_tcb k) = Some u"
        using tree_at_sub [of "heap k" 0 T, OF _ cur] tok by (auto simp: tree_ok_def rd_def)
      ultimately show False using a k'(3) by (auto simp: retired_def)
    qed
    then have "map_option task_part (rd k' a) = map_option task_part (rd k a)"
      using k'(3) unfolding retired_def by blast
    then have "map_option task_part (rd k a) = Some (task_part t)" using a(1) by simp
    then obtain u where u: "rd k a = Some u" "task_part t = task_part u" by auto
    then have "st u = Running" using task_part_simps(1) [of t u] a(2) by simp
    with one u(1) \<open>a \<noteq> current_tcb k\<close> show "a = current_tcb k' \<and> nxt t \<noteq> 0"
      by (auto simp: one_running_def)
  qed
  ultimately show ?thesis using G k' by (auto simp: kernel_ok_def)
qed

end
