(* ===== verification/RkReclaim.thy ===== *)
theory RkReclaim
  imports RkMemory RkExit
begin

text \<open>
  Deferred reclamation: the list of dead tasks (linked through \<open>prv\<close>), what an exit adds
  to it, and \<open>reclaim_finished_tasks\<close>, which frees the TCB, the closure and the stack of
  every dead task the port does not pin, each exactly once, and re-queues the pinned ones.

  The locale \<open>reclaimer\<close> is what the kernel asks of the port's hook.
\<close>

fun dead_list :: "kernel \<Rightarrow> ptr \<Rightarrow> ptr list \<Rightarrow> bool" where
  "dead_list k p [] = (p = 0)"
| "dead_list k p (q # qs) =
     (p = q \<and> (\<exists>t. rd k q = Some t \<and> st t = Dead \<and> nxt t = 0 \<and> dead_list k (prv t) qs))"

definition dead_ok :: "kernel \<Rightarrow> ntree \<Rightarrow> ptr list \<Rightarrow> bool" where
  "dead_ok k T ns = (dead_list k (pending_free k) ns \<and> distinct ns \<and> set ns \<inter> set (addrs T) = {})"

lemma dead_list_rd: "dead_list k p ns \<Longrightarrow> q \<in> set ns \<Longrightarrow> \<exists>t. rd k q = Some t \<and> st t = Dead \<and> nxt t = 0"
  by (induction ns arbitrary: p) auto

lemma dead_list_cong:
  "dead_list k p ns \<Longrightarrow> \<forall>q\<in>set ns. rd k' q = rd k q \<Longrightarrow> dead_list k' p ns"
  by (induction ns arbitrary: p) auto

lemma dead_list_null: "dead_list k p ns \<Longrightarrow> p = 0 \<longleftrightarrow> ns = []"
  by (cases ns) (auto dest: rd_nonnull)

section \<open>An exit puts the task on the list\<close>

lemma exit_dead:
  assumes d: "dead_ok k T ns" and r: "retired me k k'" and o: "only_at (set (addrs T)) k k'"
    and me: "rd k me = Some t" "me \<in> set (addrs T)" and T': "set (addrs T') = set (addrs T) - {me}"
  shows "dead_ok k' T' (me # ns)"
proof -
  have "\<forall>q\<in>set ns. rd k' q = rd k q" using d o by (auto simp: dead_ok_def only_at_def)
  then have "dead_list k' (pending_free k) ns" using d dead_list_cong by (auto simp: dead_ok_def)
  moreover obtain t' where "rd k' me = Some t'" "st t' = Dead" "nxt t' = 0" "prv t' = pending_free k"
    using r me(1) unfolding retired_def by blast
  moreover have "pending_free k' = me" using r by (simp add: retired_def)
  ultimately show ?thesis using d me(2) T' by (auto simp: dead_ok_def)
qed

lemma exit_mem:
  assumes ok: "mem_ok k" and r: "retired me k k'" and me: "rd k me = Some t"
  shows "mem_ok k'"
proof (rule mem_ok_owners [OF ok])
  show "karena k' = karena k" using r by (simp add: retired_def)
  show "same_owners (heap k) (heap k')"
    unfolding same_owners_def
  proof
    fix a
    show "map_option blocks_of (rdh (heap k') a) = map_option blocks_of (rdh (heap k) a)"
    proof (cases "a = me")
      case True
      obtain t' where "rd k' me = Some t'" "closure_block t' = closure_block t" "stack_base t' = stack_base t"
        using r me unfolding retired_def by blast
      then show ?thesis using True me by (simp add: rd_def blocks_of_def)
    next
      case False
      then have m: "map_option task_part (rdh (heap k') a) = map_option task_part (rdh (heap k) a)"
        using r unfolding retired_def rd_def by blast
      show ?thesis
      proof (cases "rdh (heap k) a")
        case None
        with m show ?thesis by simp
      next
        case (Some u)
        with m obtain u' where u': "rdh (heap k') a = Some u'" "task_part u' = task_part u" by auto
        have "blocks_of u' = blocks_of u" using task_part_simps(10,11) [OF u'(2)] by (simp add: blocks_of_def)
        with Some u' show ?thesis by simp
      qed
    qed
  qed
qed

section \<open>Reclaiming\<close>

text \<open>The fields a reclamation pass does not write.\<close>

definition same_but_memory :: "kernel \<Rightarrow> kernel \<Rightarrow> bool" where
  "same_but_memory k k' =
     (k'\<lparr>heap := Map.empty, karena := arena_empty, words := Map.empty, pending_free := 0, reclaimed := 0\<rparr>
      = k\<lparr>heap := Map.empty, karena := arena_empty, words := Map.empty, pending_free := 0, reclaimed := 0\<rparr>)"

lemma same_but_memoryD:
  assumes "same_but_memory k k'"
  shows "root k' = root k" "nodes k' = nodes k" "current_tcb k' = current_tcb k" "ticks k' = ticks k"
    "active_threads k' = active_threads k" "total_threads k' = total_threads k" "config k' = config k"
    "running k' = running k" "next_id k' = next_id k"
proof -
  note e = arg_cong [OF assms [unfolded same_but_memory_def]]
  show "root k' = root k" using e [of root] by simp
  show "nodes k' = nodes k" using e [of nodes] by simp
  show "current_tcb k' = current_tcb k" using e [of current_tcb] by simp
  show "ticks k' = ticks k" using e [of ticks] by simp
  show "active_threads k' = active_threads k" using e [of active_threads] by simp
  show "total_threads k' = total_threads k" using e [of total_threads] by simp
  show "config k' = config k" using e [of config] by simp
  show "running k' = running k" using e [of running] by simp
  show "next_id k' = next_id k" using e [of next_id] by simp
qed

text \<open>The hook may write the control block that is about to be freed, but not what it owns.\<close>

locale reclaimer =
  fixes P :: port
  assumes hook: "rd k p = Some t \<Longrightarrow> \<exists>w t'. port_reclaimed P p k = Some ((put p t' k)\<lparr>words := w\<rparr>) \<and> blocks_of t' = blocks_of t"

lemma quiet_hook:
  assumes "rd k p = Some t"
  shows "\<exists>w t'. Some k = Some ((put p t' k)\<lparr>words := w\<rparr>) \<and> blocks_of t' = blocks_of t"
proof -
  have "heap k p = Some t" using assms by (auto simp: rd_def rdh_def split: if_splits)
  then have "put p t k = k" by (simp add: put_def fun_upd_idem)
  then show ?thesis by (intro exI [of _ "words k"] exI [of _ t]) simp
qed

context reclaimer
begin

lemma loop_step_free:
  assumes "rd k p = Some t" and "\<not> port_pinned P p" and "mem_ok k"
  obtains a' w where "reclaim_loop P p k = reclaim_loop P (prv t)
      (k\<lparr>words := w, karena := a', heap := (heap k)(p := None), reclaimed := reclaimed k + 1\<rparr>)"
    "lost_all (karena k) a' (insert p (set (blocks_of t)))"
    "mem_ok (k\<lparr>words := w, karena := a', heap := (heap k)(p := None), reclaimed := reclaimed k + 1\<rparr>)"
proof -
  have p0: "p \<noteq> 0" using assms(1) rd_nonnull by blast
  obtain w t' where w: "port_reclaimed P p k = Some ((put p t' k)\<lparr>words := w\<rparr>)" and bl: "blocks_of t' = blocks_of t"
    using hook [OF assms(1)] by blast
  let ?k = "(put p t' k)\<lparr>words := w\<rparr>"
  have r: "rd ?k p = Some t'" using rd_put [OF p0, of t' k p] by (simp add: rd_def)
  have "same_owners (heap k) (heap ?k)"
    using same_owners_upd [OF assms(1) [unfolded rd_def] bl] by (simp add: put_def)
  then have ok: "mem_ok ?k" by (rule mem_ok_owners [OF assms(3)]) (simp_all add: put_def)
  have h: "(heap ?k)(p := None) = (heap k)(p := None)" by (simp add: put_def)
  have u: "?k\<lparr>karena := a, heap := g\<rparr> = k\<lparr>words := w, karena := a, heap := g\<rparr>" for a g by (simp add: put_def)
  from free_task_ok [OF ok r] obtain a' where
    a': "free_task p t' ?k = Some (k\<lparr>words := w, karena := a', heap := (heap k)(p := None)\<rparr>)"
      "lost_all (karena k) a' (insert p (set (blocks_of t)))"
      "mem_ok (k\<lparr>words := w, karena := a', heap := (heap k)(p := None)\<rparr>)"
    unfolding h u bl by (auto simp: put_def)
  have step: "reclaim_loop P p k = do {
      k \<leftarrow> free_task p t' ?k; reclaim_loop P (prv t) (k\<lparr>reclaimed := reclaimed k + 1\<rparr>) }"
    using assms(1,2) p0 w r by (subst reclaim_loop.simps) (simp add: free_task_def)
  let ?k1 = "k\<lparr>words := w, karena := a', heap := (heap k)(p := None), reclaimed := reclaimed k + 1\<rparr>"
  have "mem_ok ?k1"
    by (rule mem_ok_owners [OF a'(3)]) (simp_all add: same_owners_def)
  moreover have "reclaim_loop P p k = reclaim_loop P (prv t) ?k1" using step a'(1) by simp
  moreover have "lost_all (karena k) a' (insert p (set (blocks_of t)))" using a'(2) by simp
  ultimately show thesis by (intro that)
qed

lemma reclaim_loop_ok:
  "dead_list k p ns \<Longrightarrow> dead_list k (pending_free k) qs \<Longrightarrow> distinct (ns @ qs) \<Longrightarrow> mem_ok k \<Longrightarrow>
   \<exists>k' B. reclaim_loop P p k = Some k' \<and> mem_ok k'
     \<and> dead_list k' (pending_free k') (rev (filter (port_pinned P) ns) @ qs)
     \<and> (\<forall>a. a \<in> set ns \<longrightarrow> \<not> port_pinned P a \<longrightarrow> rd k' a = None)
     \<and> (\<forall>a. a \<notin> set ns \<longrightarrow> rd k' a = rd k a)
     \<and> lost_all (karena k) (karena k') B
     \<and> B = (\<Union>a\<in>{a \<in> set ns. \<not> port_pinned P a}. insert a (set (blocks_of (the (rd k a)))))
     \<and> same_but_memory k k'
     \<and> reclaimed k' = reclaimed k + of_nat (length (filter (\<lambda>a. \<not> port_pinned P a) ns))"
proof (induction ns arbitrary: p k qs)
  case Nil
  then have "reclaim_loop P p k = Some k" by (subst reclaim_loop.simps) simp
  with Nil show ?case by (intro exI [of _ k] exI [of _ "{}"]) (simp add: same_but_memory_def)
next
  case (Cons n ns)
  from Cons.prems(1) obtain t where t: "p = n" "rd k n = Some t" "st t = Dead" "nxt t = 0" "dead_list k (prv t) ns"
    by auto
  have n0: "n \<noteq> 0" using t(2) rd_nonnull by blast
  show ?case
  proof (cases "port_pinned P n")
    case True
    let ?t = "t\<lparr>prv := pending_free k\<rparr>"
    let ?k = "(put n ?t k)\<lparr>pending_free := n\<rparr>"
    have s: "rd ?k a = (if a = n then Some ?t else rd k a)" for a
      using rd_put [OF n0] by (simp add: rd_def)
    have step: "reclaim_loop P p k = reclaim_loop P (prv t) ?k"
      using True t n0 by (subst reclaim_loop.simps) (simp add: upd_put)
    have d1: "dead_list ?k (prv t) ns" using Cons.prems(3) t(5) s by (auto intro: dead_list_cong)
    have "dead_list ?k (pending_free k) qs" using Cons.prems(2,3) s by (auto intro: dead_list_cong)
    then have d2: "dead_list ?k (pending_free ?k) (n # qs)" using s t(3,4) by simp
    have m: "mem_ok ?k"
    proof (rule mem_ok_owners [OF Cons.prems(4)])
      show "same_owners (heap k) (heap ?k)"
        using t(2) by (simp add: rd_def) (rule same_owners_upd, auto simp: blocks_of_def)
    qed (simp add: put_def)
    from Cons.IH [OF d1 d2 _ m] Cons.prems(3) obtain k' B where k': "reclaim_loop P (prv t) ?k = Some k'" "mem_ok k'"
      "dead_list k' (pending_free k') (rev (filter (port_pinned P) ns) @ n # qs)"
      "\<forall>a. a \<in> set ns \<longrightarrow> \<not> port_pinned P a \<longrightarrow> rd k' a = None" "\<forall>a. a \<notin> set ns \<longrightarrow> rd k' a = rd ?k a"
      "lost_all (karena ?k) (karena k') B"
      "B = (\<Union>a\<in>{a \<in> set ns. \<not> port_pinned P a}. insert a (set (blocks_of (the (rd ?k a)))))"
      "same_but_memory ?k k'"
      "reclaimed k' = reclaimed ?k + of_nat (length (filter (\<lambda>a. \<not> port_pinned P a) ns))" by auto
    have B: "B = (\<Union>a\<in>{a \<in> set (n # ns). \<not> port_pinned P a}. insert a (set (blocks_of (the (rd k a)))))"
    proof -
      have "{a \<in> set (n # ns). \<not> port_pinned P a} = {a \<in> set ns. \<not> port_pinned P a}" using True by auto
      then show ?thesis unfolding k'(7) using s Cons.prems(3) by (intro SUP_cong) auto
    qed
    show ?thesis
    proof (intro exI [of _ k'] exI [of _ B] conjI allI impI)
      show "reclaim_loop P p k = Some k'" using step k'(1) by simp
      show "dead_list k' (pending_free k') (rev (filter (port_pinned P) (n # ns)) @ qs)"
        using k'(3) True by simp
      show "rd k' a = None" if "a \<in> set (n # ns)" "\<not> port_pinned P a" for a
        using k'(4) that True by auto
      show "rd k' a = rd k a" if "a \<notin> set (n # ns)" for a
        using k'(5) that s by simp
      show "lost_all (karena k) (karena k') B" using k'(6) by (simp add: put_def)
      show "same_but_memory k k'" using k'(8) by (simp add: same_but_memory_def put_def)
      show "reclaimed k' = reclaimed k + of_nat (length (filter (\<lambda>a. \<not> port_pinned P a) (n # ns)))"
        using k'(9) True by (simp add: put_def)
    qed (rule k'(2), rule B)
  next
    case False
    from loop_step_free [OF t(2) False Cons.prems(4)] obtain a1 w where
      step: "reclaim_loop P n k = reclaim_loop P (prv t)
        (k\<lparr>words := w, karena := a1, heap := (heap k)(n := None), reclaimed := reclaimed k + 1\<rparr>)"
      and lost: "lost_all (karena k) a1 (insert n (set (blocks_of t)))"
      and m: "mem_ok (k\<lparr>words := w, karena := a1, heap := (heap k)(n := None), reclaimed := reclaimed k + 1\<rparr>)" .
    let ?k = "k\<lparr>words := w, karena := a1, heap := (heap k)(n := None), reclaimed := reclaimed k + 1\<rparr>"
    have s: "rd ?k a = (if a = n then None else rd k a)" for a by (simp add: rd_def rdh_def)
    have d1: "dead_list ?k (prv t) ns" using Cons.prems(3) t(5) s by (auto intro: dead_list_cong)
    have d2: "dead_list ?k (pending_free ?k) qs" using Cons.prems(2,3) s by (auto intro: dead_list_cong)
    from Cons.IH [OF d1 d2 _ m] Cons.prems(3) obtain k' B where k': "reclaim_loop P (prv t) ?k = Some k'" "mem_ok k'"
      "dead_list k' (pending_free k') (rev (filter (port_pinned P) ns) @ qs)"
      "\<forall>a. a \<in> set ns \<longrightarrow> \<not> port_pinned P a \<longrightarrow> rd k' a = None" "\<forall>a. a \<notin> set ns \<longrightarrow> rd k' a = rd ?k a"
      "lost_all (karena ?k) (karena k') B"
      "B = (\<Union>a\<in>{a \<in> set ns. \<not> port_pinned P a}. insert a (set (blocks_of (the (rd ?k a)))))"
      "same_but_memory ?k k'"
      "reclaimed k' = reclaimed ?k + of_nat (length (filter (\<lambda>a. \<not> port_pinned P a) ns))" by auto
    let ?B = "insert n (set (blocks_of t)) \<union> B"
    have n: "n \<notin> set ns" using Cons.prems(3) by auto
    have B: "?B = (\<Union>a\<in>{a \<in> set (n # ns). \<not> port_pinned P a}. insert a (set (blocks_of (the (rd k a)))))"
    proof -
      have "{a \<in> set (n # ns). \<not> port_pinned P a} = insert n {a \<in> set ns. \<not> port_pinned P a}"
        using False by auto
      moreover have "(\<Union>a\<in>{a \<in> set ns. \<not> port_pinned P a}. insert a (set (blocks_of (the (rd k a))))) = B"
        unfolding k'(7) by (rule SUP_cong) (use s n in auto)
      ultimately show ?thesis using t(2) by simp
    qed
    show ?thesis
    proof (intro exI [of _ k'] exI [of _ ?B] conjI allI impI)
      show "reclaim_loop P p k = Some k'" using step k'(1) t(1) by simp
      show "dead_list k' (pending_free k') (rev (filter (port_pinned P) (n # ns)) @ qs)"
        using k'(3) False by simp
      show "rd k' a = None" if "a \<in> set (n # ns)" "\<not> port_pinned P a" for a
      proof (cases "a \<in> set ns")
        case True
        then show ?thesis using k'(4) that by blast
      next
        case False
        with k'(5) have "rd k' a = rd ?k a" by blast
        then show ?thesis using that(1) False s by simp
      qed
      show "rd k' a = rd k a" if "a \<notin> set (n # ns)" for a
        using k'(5) that s by simp
      show "lost_all (karena k) (karena k') ?B"
        using lost_all_trans [OF lost] k'(6) by simp
      show "same_but_memory k k'" using k'(8) by (simp add: same_but_memory_def)
      show "reclaimed k' = reclaimed k + of_nat (length (filter (\<lambda>a. \<not> port_pinned P a) (n # ns)))"
        using k'(9) False by (simp add: ac_simps)
    qed (rule k'(2), rule B)
  qed
qed

text \<open>The whole pass.\<close>

theorem reclaim_ok:
  assumes ok: "mem_ok k" and tok: "tree_ok k T" and d: "dead_ok k T ns"
  shows "\<exists>k' B. reclaim_finished_tasks P k = Some k' \<and> mem_ok k' \<and> tree_ok k' T
     \<and> dead_ok k' T (rev (filter (port_pinned P) ns))
     \<and> (\<forall>a\<in>set ns. \<not> port_pinned P a \<longrightarrow> rd k' a = None) \<and> (\<forall>a. a \<notin> set ns \<longrightarrow> rd k' a = rd k a)
     \<and> lost_all (karena k) (karena k') B
     \<and> B = (\<Union>a\<in>{a \<in> set ns. \<not> port_pinned P a}. insert a (set (blocks_of (the (rd k a)))))
     \<and> current_tcb k' = current_tcb k \<and> active_threads k' = active_threads k
     \<and> reclaimed k' = reclaimed k + of_nat (length (filter (\<lambda>a. \<not> port_pinned P a) ns))"
proof -
  let ?k = "k\<lparr>pending_free := 0\<rparr>"
  have s: "rd ?k a = rd k a" for a by (simp add: rd_def)
  from d have d1: "dead_list ?k (pending_free k) ns" and dis: "distinct (ns @ [])"
      and out: "set ns \<inter> set (addrs T) = {}"
    using s by (auto simp: dead_ok_def intro: dead_list_cong)
  have m: "mem_ok ?k"
    by (rule mem_ok_owners [OF ok]) (simp_all add: same_owners_def)
  have d2: "dead_list ?k (pending_free ?k) []" by simp
  from reclaim_loop_ok [OF d1 d2 dis m] obtain k' B where k': "reclaim_loop P (pending_free k) ?k = Some k'" "mem_ok k'"
      "dead_list k' (pending_free k') (rev (filter (port_pinned P) ns) @ [])"
      "\<forall>a. a \<in> set ns \<longrightarrow> \<not> port_pinned P a \<longrightarrow> rd k' a = None" "\<forall>a. a \<notin> set ns \<longrightarrow> rd k' a = rd ?k a"
      "lost_all (karena ?k) (karena k') B"
      "B = (\<Union>a\<in>{a \<in> set ns. \<not> port_pinned P a}. insert a (set (blocks_of (the (rd ?k a)))))"
      "same_but_memory ?k k'"
      "reclaimed k' = reclaimed ?k + of_nat (length (filter (\<lambda>a. \<not> port_pinned P a) ns))" by blast
  have e: "root k' = root k" "nodes k' = nodes k" "current_tcb k' = current_tcb k"
    "active_threads k' = active_threads k"
    using same_but_memoryD [OF k'(8)] by simp_all
  have kept: "rd k' a = rd k a" if "a \<notin> set ns" for a using k'(5) that s by simp
  have "tree_ok k' T"
  proof -
    have tr: "tree_at (heap k) 0 T" "only_linked (heap k) T" using tok by (simp_all add: tree_ok_def)
    have "\<forall>a\<in>set (addrs T). rdh (heap k') a = rdh (heap k) a"
      using kept out by (auto simp: rd_def)
    then have "tree_at (heap k') 0 T" by (rule tree_at_frame [OF tr(1)])
    moreover have "only_linked (heap k') T"
      unfolding only_linked_def
    proof (intro allI impI)
      fix a t assume a: "rdh (heap k') a = Some t" "a \<notin> set (addrs T)"
      show "nxt t = 0"
      proof (cases "a \<in> set ns")
        case False
        then show ?thesis using kept [OF False] a tr(2) by (auto simp: rd_def only_linked_def)
      next
        case True
        show ?thesis
        proof (cases "port_pinned P a")
          case p: False
          then have "rd k' a = None" using k'(4) True by blast
          then show ?thesis using a(1) by (simp add: rd_def)
        next
          case p: True
          then have "a \<in> set (rev (filter (port_pinned P) ns) @ [])" using True by simp
          from dead_list_rd [OF k'(3) this] a(1) show ?thesis by (auto simp: rd_def)
        qed
      qed
    qed
    ultimately show ?thesis using tok e by (simp add: tree_ok_def)
  qed
  moreover have "dead_ok k' T (rev (filter (port_pinned P) ns))"
    using k'(3) dis out by (auto simp: dead_ok_def)
  moreover have "reclaim_finished_tasks P k = Some k'" using k'(1) by (simp add: reclaim_finished_tasks_def)
  ultimately show ?thesis
    using k' kept s e by (intro exI [of _ k'] exI [of _ B]) simp
qed

end

end
