(* ===== verification/RkLife.thy ===== *)
theory RkLife
  imports RkReclaim
begin

text \<open>
  Spawning.  \<open>port_contract\<close> is what the kernel asks of a port: \<open>create_task\<close> gives the new
  TCB a stack (or fails and leaves none behind) and touches no other task.  Under it a spawn
  either fails and leaks nothing, or adds one leaf right behind the cursor of its parent.
\<close>

section \<open>Changes outside the tree\<close>

lemma tree_ok_outside:
  assumes ok: "tree_ok k T" and p: "p \<notin> set (addrs T)" and fr: "\<And>a. a \<noteq> p \<Longrightarrow> rd k' a = rd k a"
    and n: "\<And>t. rd k' p = Some t \<Longrightarrow> nxt t = 0" and k': "root k' = root k" "unat (nodes k) \<le> unat (nodes k')"
      "unat (nodes k') < 2 ^ 31"
  shows "tree_ok k' T"
proof -
  have tr: "tree_at (heap k) 0 T" "only_linked (heap k) T" using ok by (simp_all add: tree_ok_def)
  have "\<forall>a\<in>set (addrs T). rdh (heap k') a = rdh (heap k) a"
    using fr p unfolding rd_def by metis
  then have "tree_at (heap k') 0 T" by (rule tree_at_frame [OF tr(1)])
  moreover have "only_linked (heap k') T"
    unfolding only_linked_def
  proof (intro allI impI)
    fix a t assume a: "rdh (heap k') a = Some t" "a \<notin> set (addrs T)"
    show "nxt t = 0"
    proof (cases "a = p")
      case True
      then show ?thesis using n a(1) by (simp add: rd_def)
    next
      case False
      then show ?thesis using fr [OF False] a tr(2) by (auto simp: rd_def only_linked_def)
    qed
  qed
  ultimately show ?thesis using ok k' by (auto simp: tree_ok_def)
qed

lemma tree_rd: "tree_ok k T \<Longrightarrow> a \<in> set (addrs T) \<Longrightarrow> rd k a \<noteq> None"
  using tree_at_alloc [of "heap k" 0 T a] by (auto simp: tree_ok_def rd_def)

lemma kernel_ok_outside:
  assumes ok: "kernel_ok k T" and p: "rd k p = None" and fr: "\<And>a. a \<noteq> p \<Longrightarrow> rd k' a = rd k a"
    and n: "\<And>t. rd k' p = Some t \<Longrightarrow> nxt t = 0 \<and> st t \<noteq> Running"
    and k': "root k' = root k" "unat (nodes k) \<le> unat (nodes k')"
      "unat (nodes k') < 2 ^ 31" "current_tcb k' = current_tcb k"
  shows "kernel_ok k' T"
proof -
  have pT: "p \<notin> set (addrs T)" using tree_rd [of k T p] ok p by (auto simp: kernel_ok_def)
  have "tree_ok k' T"
    by (rule tree_ok_outside [OF _ pT fr]) (use ok n k' in \<open>auto simp: kernel_ok_def\<close>)
  moreover have "cur_ok k'"
    unfolding cur_ok_def k'(4)
  proof (cases "current_tcb k = 0")
    case False
    with ok obtain t where t: "rd k (current_tcb k) = Some t" "kind t = Leaf"
      by (auto simp: kernel_ok_def cur_ok_def)
    with p have "current_tcb k \<noteq> p" by auto
    with fr t show "current_tcb k = 0 \<or> (\<exists>t. rd k' (current_tcb k) = Some t \<and> kind t = Leaf)" by auto
  qed simp
  moreover have "one_running k'"
    unfolding one_running_def k'(4)
  proof (intro allI impI)
    fix a t assume a: "rd k' a = Some t" "st t = Running"
    show "a = current_tcb k \<and> nxt t \<noteq> 0"
    proof (cases "a = p")
      case True
      then show ?thesis using n a by auto
    next
      case False
      with fr a ok show ?thesis by (auto simp: kernel_ok_def one_running_def)
    qed
  qed
  ultimately show ?thesis by (simp add: kernel_ok_def)
qed

text \<open>Linking a node that is not running keeps the rest.\<close>

lemma kernel_ok_insert:
  assumes ok: "kernel_ok k T" and t: "tree_ok k' T'" and gr: "grafted k k'"
    and lk: "\<And>a t. rd k a = Some t \<Longrightarrow> nxt t \<noteq> 0 \<Longrightarrow> a \<in> set (addrs T)" and T': "set (addrs T) \<subseteq> set (addrs T')"
    and nr: "nxt_root k = 0"
  shows True
  by simp

lemma kernel_ok_eq:
  "kernel_ok k T \<Longrightarrow> heap k' = heap k \<Longrightarrow> root k' = root k \<Longrightarrow> nodes k' = nodes k \<Longrightarrow>
   current_tcb k' = current_tcb k \<Longrightarrow> kernel_ok k' T"
  by (simp add: kernel_ok_def tree_ok_def cur_ok_def one_running_def rd_def)

lemma kernel_ok_graft:
  assumes ok: "kernel_ok k T" and t': "tree_ok k' T'" and gr: "grafted k k'"
    and sub: "set (addrs T) \<subseteq> set (addrs T')"
  shows "kernel_ok k' T'"
proof -
  have sm: "same_tasks (heap k) (heap k')" and cur: "current_tcb k' = current_tcb k"
    using gr by (auto simp: grafted_def)
  have co: "cur_ok k" "one_running k" "tree_ok k T" using ok by (simp_all add: kernel_ok_def)
  have "cur_ok k'"
  proof (cases "current_tcb k = 0")
    case False
    with co(1) obtain t where t: "rdh (heap k) (current_tcb k) = Some t" "kind t = Leaf"
      by (auto simp: cur_ok_def rd_def)
    from same_tasksD [OF sm t(1)] obtain u where u: "rdh (heap k') (current_tcb k) = Some u" "task_part u = task_part t"
      by blast
    with t(2) task_part_simps(2) [OF u(2)] cur show ?thesis by (simp add: cur_ok_def rd_def)
  qed (simp add: cur_ok_def cur)
  moreover have "one_running k'"
    unfolding one_running_def cur
  proof (intro allI impI)
    fix a t assume a: "rd k' a = Some t" "st t = Running"
    from same_tasksD' [OF sm] a(1) obtain u where u: "rd k a = Some u" "task_part u = task_part t"
      by (auto simp: rd_def)
    have "st u = Running" using a(2) task_part_simps(1) [OF u(2)] by simp
    with co(2) u(1) have ac: "a = current_tcb k" "nxt u \<noteq> 0" by (auto simp: one_running_def)
    have "a \<in> set (addrs T)" using co(3) u(1) ac(2) by (auto simp: tree_ok_def only_linked_def rd_def)
    with sub have aT: "a \<in> set (addrs T')" by blast
    have "a \<noteq> 0" using u(1) rd_nonnull by blast
    with co(1) ac(1) u(1) have "kind u = Leaf" by (auto simp: cur_ok_def)
    then have kl: "kind t = Leaf" using task_part_simps(2) [OF u(2)] by simp
    have tr: "tree_at (heap k') 0 T'" "LeafN a \<noteq> T'" using t' by (auto simp: tree_ok_def)
    have "LeafN a \<in> set (subs T')" by (rule subs_kinds [OF tr(1) aT _ kl]) (use a(1) in \<open>simp add: rd_def\<close>)
    from leaf_linked [OF tr(1) this tr(2)] a(1) ac(1) show "a = current_tcb k \<and> nxt t \<noteq> 0"
      by (simp add: rd_def)
  qed
  ultimately show ?thesis using t' by (simp add: kernel_ok_def)
qed

section \<open>Allocating a TCB\<close>

definition with_tcb :: "ptr \<Rightarrow> arena \<Rightarrow> kernel \<Rightarrow> kernel" where
  "with_tcb p a k = k\<lparr>karena := a, heap := (heap k)(p \<mapsto> zero_tcb), nodes := nodes k + 1\<rparr>"

lemma tcb_size_val: "tcb_size = 104" "tcb_align = 8"
  by (rule tcb_layout(4), simp add: tcb_align_def)

lemma alloc_tcb_ok:
  assumes ok: "mem_ok k" and sp: "space_for k tcb_size"
  shows "alloc_tcb k = Some (None, k) \<or> (\<exists>p a. alloc_tcb k = Some (Some p, with_tcb p a k)
    \<and> gained (karena k) a p tcb_size \<and> rd k p = None \<and> mem_ok (with_tcb p a k))"
proof -
  from mem_okD(1) [OF ok] obtain fs where fs: "arena_ok (karena k) fs" by blast
  have al: "pow2 tcb_align 3" "unat tcb_align \<le> 32" "tcb_size \<noteq> 0"
    by (simp_all add: tcb_size_val pow2_def)
  from alloc_gains [OF fs al sp [unfolded space_for_def]] show ?thesis
  proof (elim disjE exE conjE)
    fix p a assume a: "alloc tcb_size tcb_align (karena k) = Some (Some p, a)" "gained (karena k) a p tcb_size"
    have "blocks_of zero_tcb = []" by (simp add: blocks_of_def zero_tcb_def)
    note m = mem_ok_new(1) [OF ok a(2) this] mem_ok_new(2) [OF ok a(2) this, of "nodes k + 1"]
    have "alloc_tcb k = Some (Some p, with_tcb p a k)" using a(1) by (simp add: alloc_tcb_def with_tcb_def)
    then show ?thesis using a(2) m unfolding with_tcb_def [symmetric] by blast
  qed (auto simp: alloc_tcb_def space_for_def)
qed

lemma alloc_block_ok:
  assumes ok: "mem_ok k" and sp: "space_for k sz" and al: "pow2 al n" "unat al \<le> 32" "sz \<noteq> 0"
  shows "alloc_block sz al k = Some (None, k) \<or> (\<exists>b a. alloc_block sz al k = Some (Some b, k\<lparr>karena := a\<rparr>)
    \<and> gained (karena k) a b sz \<and> mem_ok (k\<lparr>karena := a\<rparr>) \<and> unowned k b)"
proof -
  from mem_okD(1) [OF ok] obtain fs where fs: "arena_ok (karena k) fs" by blast
  from alloc_gains [OF fs al sp [unfolded space_for_def]] show ?thesis
  proof (elim disjE exE conjE)
    fix p a assume a: "alloc sz al (karena k) = Some (Some p, a)" "gained (karena k) a p sz"
    have "unowned k p"
      using a(2) mem_okD(2,5) [OF ok] unfolding unowned_def gained_def by (metis not_None_eq)
    moreover have "alloc_block sz al k = Some (Some p, k\<lparr>karena := a\<rparr>)" using a(1) by (simp add: alloc_block_def)
    ultimately show ?thesis using a(2) mem_ok_gain [OF ok a(2)] by blast
  qed (auto simp: alloc_block_def space_for_def)
qed

lemma free_tcb_ok:
  assumes "mem_ok k" and "rd k p = Some t" and "blocks_of t = []"
  shows "\<exists>a. free_tcb p k = Some (k\<lparr>karena := a, heap := (heap k)(p := None)\<rparr>)
    \<and> lost_all (karena k) a {p} \<and> mem_ok (k\<lparr>karena := a, heap := (heap k)(p := None)\<rparr>)"
proof -
  have "closure_block t = 0" "stack_base t = 0" using assms(3) by (auto simp: blocks_of_def split: if_splits)
  then have "free_task p t k = free_tcb p k" by (simp add: free_task_def)
  with free_task_ok [OF assms(1,2)] assms(3) show ?thesis by simp
qed

section \<open>The layout of a closure block\<close>

definition closure_ok :: "usize \<times> usize \<Rightarrow> bool" where
  "closure_ok f = ((\<exists>n. pow2 (snd f) n) \<and> unat (snd f) \<le> 32 \<and> unat (fst f) + 128 < 2 ^ 32)"

lemma closure_align: "closure_align_up v al = arena_align_up v al"
  by (simp add: closure_align_up_def arena_align_up_def Let_def)

lemma multiples_le:
  fixes x y A :: nat
  assumes "x mod A = 0" "y mod A = 0" "x < y + A"
  shows "x \<le> y"
proof -
  from assms obtain m n where "x = A * m" "y = A * n" by (metis mod_0_imp_dvd dvd_def)
  with assms(3) have "A * m < A * (n + 1)" by simp
  then have "m < n + 1" by (metis nat_mult_less_cancel1 mult_less_cancel1)
  with \<open>x = A * m\<close> \<open>y = A * n\<close> show ?thesis by simp
qed

theorem closure_layout:
  assumes "closure_ok f"
  shows "unat (closure_data_off (snd f)) mod unat (snd f) = 0"
    and "unat HEADER_SIZE \<le> unat (closure_data_off (snd f))"
    and "unat (closure_data_off (snd f)) + unat (fst f) \<le> unat (block_size_for (fst f) (snd f))"
    and "unat (block_size_for (fst f) (snd f)) \<le> unat (fst f) + 71"
proof -
  let ?al = "snd f" and ?A = "block_align_for (snd f)"
  from assms obtain n where n: "pow2 ?al n" "unat ?al \<le> 32" "unat (fst f) + 128 < 2 ^ 32"
    by (auto simp: closure_ok_def)
  have A: "?A = max ?al 4" by (auto simp: block_align_for_def Let_def max_def)
  have uA: "unat ?A = max (unat ?al) 4" unfolding A by (simp add: max_def word_le_nat_alt)
  have div: "unat ?A mod unat ?al = 0"
  proof (cases "unat ?al \<le> 4")
    case True
    then have "unat ?al \<in> {0, 1, 2, 3, 4}" by auto
    moreover have "unat ?al \<noteq> 0" "unat ?al \<noteq> 3"
    proof -
      have e: "unat ?al = 2 ^ n" by (rule pow2_unat [OF n(1)])
      show "unat ?al \<noteq> 0" using e by simp
      show "unat ?al \<noteq> 3"
      proof
        assume "unat ?al = 3"
        with e have "(2::nat) ^ n = 3" by simp
        moreover have "even ((2::nat) ^ n) \<or> (2::nat) ^ n = 1" by (cases n) auto
        ultimately show False by auto
      qed
    qed
    ultimately show ?thesis using uA by auto
  next
    case False
    then show ?thesis using uA by (simp add: max_def)
  qed
  obtain m where m: "pow2 ?A m"
  proof (cases "unat ?al \<le> 4")
    case True
    then have "?A = 2 ^ 2" unfolding A by (simp add: max_def word_le_nat_alt)
    then show ?thesis using that [of 2] by (simp add: pow2_def)
  next
    case False
    then have "?A = ?al" unfolding A by (simp add: max_def word_le_nat_alt)
    then show ?thesis using n(1) that by simp
  qed
  have uA32: "unat ?A \<le> 32" "4 \<le> unat ?A" using uA n(2) by simp_all
  have s1: "unat (HEADER_SIZE + ?al) = 8 + unat ?al"
    using n(2) by (subst unat_plus_small) (simp_all add: HEADER_SIZE_def)
  have h8: "unat HEADER_SIZE = 8" by (simp add: HEADER_SIZE_def)
  note d = align_up_spec [OF m, of HEADER_SIZE] and e = align_up_spec [OF m, of "HEADER_SIZE + ?al"]
  have d': "8 \<le> unat (arena_align_up HEADER_SIZE ?A)" "unat (arena_align_up HEADER_SIZE ?A) < 8 + unat ?A"
    "unat (arena_align_up HEADER_SIZE ?A) mod unat ?A = 0"
    using d h8 uA32 by simp_all
  have e': "8 + unat ?al \<le> unat (arena_align_up (HEADER_SIZE + ?al) ?A)"
    "unat (arena_align_up (HEADER_SIZE + ?al) ?A) < 8 + unat ?al + unat ?A"
    "unat (arena_align_up (HEADER_SIZE + ?al) ?A) mod unat ?A = 0"
    using e s1 n(2) uA32 by simp_all
  have off: "closure_data_off ?al = arena_align_up HEADER_SIZE ?A"
    by (simp add: closure_data_off_def closure_align)
  have bs: "unat (block_size_for (fst f) ?al) = unat (arena_align_up (HEADER_SIZE + ?al) ?A) + unat (fst f)"
    unfolding block_size_for_def closure_align
    using e'(2) n(2,3) uA32 by (subst unat_plus_small) simp_all
  have le: "unat (arena_align_up HEADER_SIZE ?A) \<le> unat (arena_align_up (HEADER_SIZE + ?al) ?A)"
    by (rule multiples_le [OF d'(3) e'(3)]) (use d'(2) e'(1) in simp)
  show "unat (closure_data_off ?al) mod unat ?al = 0"
    unfolding off using d'(3) div by (meson dvd_eq_mod_eq_0 dvd_trans)
  show "unat HEADER_SIZE \<le> unat (closure_data_off ?al)" unfolding off using d'(1) h8 by simp
  show "unat (closure_data_off ?al) + unat (fst f) \<le> unat (block_size_for (fst f) ?al)"
    unfolding off bs using le by simp
  show "unat (block_size_for (fst f) ?al) \<le> unat (fst f) + 71"
    unfolding bs using e'(2) n(2) uA32 by simp
qed

lemma block_align_ok:
  assumes "closure_ok f"
  shows "\<exists>n. pow2 (block_align_for (snd f)) n" "unat (block_align_for (snd f)) \<le> 32"
proof -
  from assms obtain n where n: "pow2 (snd f) n" "unat (snd f) \<le> 32" by (auto simp: closure_ok_def)
  have "pow2 (4 :: usize) 2" by (simp add: pow2_def)
  with n(1) show "\<exists>n. pow2 (block_align_for (snd f)) n" by (auto simp: block_align_for_def Let_def)
  show "unat (block_align_for (snd f)) \<le> 32" using n(2) by (simp add: block_align_for_def Let_def)
qed

section \<open>Quanta\<close>

theorem quantum_exact:
  assumes "sl \<noteq> SliceDefault" and "port_ns P (kc_slice_cycles (config k)) k \<noteq> 0"
  shows "quantum_ticks_for P sl k = Inr n \<longleftrightarrow>
    n \<noteq> 0 \<and> unat (as_nanos sl (kc_timer_hz (config k))) = unat n * unat (port_ns P (kc_slice_cycles (config k)) k)"
proof -
  let ?t = "port_ns P (kc_slice_cycles (config k)) k" and ?r = "as_nanos sl (kc_timer_hz (config k))"
  have t0: "0 < unat ?t" using assms(2) by (simp add: unat_gt_0)
  have q: "quantum_ticks_for P sl k = (if ?r = 0 \<or> ?r < ?t then Inl (Backend (QuantumBelowTick ?r ?t))
      else if ?r mod ?t \<noteq> 0 then Inl (Backend (QuantumNotMultipleOfTick ?r ?t))
      else if ?r div ?t > 0xFFFFFFFF then Inl (Backend (QuantumTooLarge (?r div ?t))) else Inr (ucast (?r div ?t)))"
    using assms by (simp add: quantum_ticks_for_def Let_def)
  have m: "?r mod ?t = 0 \<longleftrightarrow> unat ?r mod unat ?t = 0"
    by (simp add: unat_mod [symmetric] unat_eq_0)
  have dv: "unat (?r div ?t) = unat ?r div unat ?t" by (rule unat_div)
  have big: "?r div ?t > 0xFFFFFFFF \<longleftrightarrow> 2 ^ 32 \<le> unat ?r div unat ?t"
    unfolding word_less_nat_alt dv by (simp, arith)
  show ?thesis
  proof
    assume a: "quantum_ticks_for P sl k = Inr n"
    then have c: "\<not> ?r < ?t" "?r \<noteq> 0" "unat ?r mod unat ?t = 0" "unat ?r div unat ?t < 2 ^ 32" "n = ucast (?r div ?t)"
      using q m big by (auto split: if_splits)
    have un: "unat n = unat ?r div unat ?t"
      unfolding c(5) unat_ucast_mod using c(4) dv by simp
    have "unat ?t \<le> unat ?r" using c(1) by (simp add: word_le_nat_alt not_less)
    then have "0 < unat n" using un t0 by (simp add: div_greater_zero_iff)
    then show "n \<noteq> 0 \<and> unat ?r = unat n * unat ?t"
      using un c(3) by (auto simp: unat_gt_0 mult_div_mod_eq dest: dvd_div_mult_self [OF mod_0_imp_dvd])
  next
    assume a: "n \<noteq> 0 \<and> unat ?r = unat n * unat ?t"
    then have n0: "0 < unat n" by (simp add: unat_gt_0)
    then have le: "unat ?t \<le> unat ?r" using a by simp
    have "?r \<noteq> 0" using le t0 by (auto simp: unat_eq_0)
    moreover have "\<not> ?r < ?t" using le by (simp add: word_less_nat_alt)
    moreover have "unat ?r mod unat ?t = 0" using a by simp
    moreover have d: "unat ?r div unat ?t = unat n" using a t0 by simp
    moreover have "\<not> 2 ^ 32 \<le> unat n" using unsigned_less [of n] by (simp only: not_le) simp
    moreover have "ucast (?r div ?t) = n"
    proof -
      have "unat (ucast (?r div ?t) :: u32) = unat n" unfolding unat_ucast_mod dv d by simp
      then show ?thesis by (simp add: word_unat_eq_iff)
    qed
    ultimately show "quantum_ticks_for P sl k = Inr n" using q m big by simp
  qed
qed

section \<open>The contract of a port, and spawning under it\<close>

text \<open>The fields of a TCB that belong to the port.\<close>

definition stackless :: "tcb \<Rightarrow> tcb" where
  "stackless t = t\<lparr>sp := 0, stack_base := 0, stack_size := 0, flags := 0, backend := 0\<rparr>"

definition roomy :: "kernel \<Rightarrow> usize \<Rightarrow> bool" where
  "roomy k sz = (unat (ar_base (karena k)) + unat (ar_len (karena k)) + unat sz + 16384 \<le> 2 ^ 32)"

definition created :: "ptr \<Rightarrow> kernel \<Rightarrow> kernel \<Rightarrow> bool" where
  "created p k k' =
     (same_but_memory k k' \<and> pending_free k' = pending_free k \<and> reclaimed k' = reclaimed k \<and>
      same_region (karena k) (karena k') \<and>
      (\<forall>a. a \<noteq> p \<longrightarrow> rd k' a = rd k a) \<and>
      (\<forall>q. live_payload (karena k) q \<longrightarrow> live_payload (karena k') q) \<and>
      (\<forall>t. rd k p = Some t \<longrightarrow> (\<exists>t'. rd k' p = Some t' \<and> stackless t' = stackless t)))"

definition no_stack :: "ptr \<Rightarrow> kernel \<Rightarrow> kernel \<Rightarrow> bool" where
  "no_stack p k k' =
     ((\<forall>t'. rd k' p = Some t' \<longrightarrow> stack_base t' = 0) \<and>
      (\<forall>q. live_payload (karena k') q \<longleftrightarrow> live_payload (karena k) q))"

locale port_contract = reclaimer P for P :: port +
  assumes create: "mem_ok k \<Longrightarrow> rd k p = Some t \<Longrightarrow> stack_base t = 0 \<Longrightarrow> roomy k sz \<Longrightarrow>
    \<exists>r k'. port_create P p sz k = Some (r, k') \<and> mem_ok k' \<and> created p k k' \<and> (\<forall>e. r = Inl e \<longrightarrow> no_stack p k k')"
  and adopt: "mem_ok k \<Longrightarrow> rd k p = Some t \<Longrightarrow> stack_base t = 0 \<Longrightarrow>
    \<exists>r k'. port_adopt P p k = Some (r, k') \<and> mem_ok k' \<and> created p k k'"

text \<open>The results of a spawn.\<close>

definition no_effect :: "kernel \<Rightarrow> kernel \<Rightarrow> bool" where
  "no_effect k k' =
     ((\<forall>a. rd k' a = rd k a) \<and> (\<forall>q. live_payload (karena k') q \<longleftrightarrow> live_payload (karena k) q) \<and>
      total_threads k' = total_threads k \<and> active_threads k' = active_threads k \<and>
      current_tcb k' = current_tcb k \<and> root k' = root k \<and> pending_free k' = pending_free k)"

definition spawned :: "ptr \<Rightarrow> ptr \<Rightarrow> u32 \<Rightarrow> kernel \<Rightarrow> kernel \<Rightarrow> bool" where
  "spawned p g q k k' =
     (rd k p = None \<and>
      (\<forall>a. a \<noteq> p \<longrightarrow> map_option task_part (rd k' a) = map_option task_part (rd k a)) \<and>
      (\<exists>t. rd k' p = Some t \<and> tid t = next_id k \<and> st t = Ready \<and> kind t = Leaf \<and> parent t = g \<and>
         slice_cycles t = max q 1 \<and> remaining_cycles t = max q 1 \<and>
         held_locks t = replicate MAX_HELD_LOCKS 0 \<and> held_count t = 0) \<and>
      next_id k' = next_id k + 1 \<and> total_threads k' = total_threads k + 1 \<and>
      active_threads k' = active_threads k + 1 \<and> current_tcb k' = current_tcb k \<and>
      (running k \<longrightarrow> switch_pending k') \<and> pending_free k' = pending_free k)"

text \<open>A new TCB being filled in: the heap is that of \<open>k\<close> and the node \<open>p\<close>.\<close>

definition staged :: "ptr \<Rightarrow> tcb \<Rightarrow> kernel \<Rightarrow> kernel \<Rightarrow> bool" where
  "staged p t k k' =
     ((\<forall>a. rd k' a = (if a = p then Some t else rd k a)) \<and> mem_ok k' \<and>
      same_region (karena k) (karena k') \<and> root k' = root k \<and> current_tcb k' = current_tcb k \<and>
      nodes k' = nodes k + 1 \<and> total_threads k' = total_threads k \<and>
      active_threads k' = active_threads k \<and> running k' = running k \<and> pending_free k' = pending_free k)"

lemma staged_alloc:
  assumes "gained (karena k) a p tcb_size" "mem_ok (with_tcb p a k)"
  shows "staged p zero_tcb k (with_tcb p a k)"
  using assms by (auto simp: staged_def with_tcb_def gained_def rd_def rdh_upd)

lemma staged_put:
  assumes s: "staged p t k k'" and p: "p \<noteq> 0" and m: "mem_ok (put p t' k')"
  shows "staged p t' k (put p t' k')"
  using s m rd_put [OF p, of t' k'] by (simp add: staged_def) (simp add: put_def)

lemma staged_arena:
  assumes s: "staged p t k k'" and "same_region (karena k') a" and m: "mem_ok (k'\<lparr>karena := a\<rparr>)"
  shows "staged p t k (k'\<lparr>karena := a\<rparr>)"
  using assms by (simp add: staged_def same_region_def rd_def)

lemma staged_id: "staged p t k k' \<Longrightarrow> staged p t k (k'\<lparr>next_id := i\<rparr>)"
  using mem_ok_owners [of k' "k'\<lparr>next_id := i\<rparr>"]
  by (simp add: staged_def rd_def same_owners_def)

text \<open>Taking the node back: the kernel as it was, a node more counted.\<close>

lemma staged_free:
  assumes s: "staged p t k k'" and n: "rd k p = None" and ok: "kernel_ok k T" and lim: "unat (nodes k) + 1 < 2 ^ 31"
    and lv: "\<And>q. live_payload (karena k') q \<longleftrightarrow> live_payload (karena k) q \<or> q \<in> insert p (set (blocks_of t))"
    and nl: "\<And>q. live_payload (karena k) q \<Longrightarrow> q \<notin> insert p (set (blocks_of t))"
  shows "\<exists>k''. free_task p t k' = Some k'' \<and> mem_ok k'' \<and> kernel_ok k'' T \<and> no_effect k k''"
proof -
  have m: "mem_ok k'" and r: "rd k' p = Some t" using s by (simp_all add: staged_def)
  from free_task_ok [OF m r] obtain a where
    a: "free_task p t k' = Some (k'\<lparr>karena := a, heap := (heap k')(p := None)\<rparr>)"
      "lost_all (karena k') a (insert p (set (blocks_of t)))" "mem_ok (k'\<lparr>karena := a, heap := (heap k')(p := None)\<rparr>)"
    by blast
  let ?k = "k'\<lparr>karena := a, heap := (heap k')(p := None)\<rparr>"
  have rk: "rd ?k x = rd k x" for x
  proof -
    have "rd ?k x = (if x = p then None else rd k' x)" by (simp add: rd_def rdh_def)
    then show ?thesis using s n by (simp add: staged_def)
  qed
  have un: "unat (nodes k + 1) = unat (nodes k) + 1" using lim by (simp add: unat_Suc_small)
  have "no_effect k ?k"
    using rk s a(2) lv nl by (auto simp: no_effect_def staged_def lost_all_def)
  moreover have "kernel_ok ?k T"
    by (rule kernel_ok_outside [OF ok n]) (use rk n s lim un in \<open>auto simp: staged_def\<close>)
  ultimately show ?thesis using a(1,3) by blast
qed

lemma free_block_free_tcb:
  "stack_base t = 0 \<Longrightarrow> free_task p t k = do { k \<leftarrow> free_block (closure_block t) k; free_tcb p k }"
  by (simp add: free_task_def)

context port_contract
begin

theorem spawn_ok:
  assumes ok: "kernel_ok k T" and mem: "mem_ok k" and G: "GroupN g us \<in> set (subs T)" and f: "closure_ok f"
    and rm: "roomy k tcb_size" "roomy k (block_size_for (fst f) (snd f))" "roomy k sz"
    and lim: "unat (nodes k) + 1 < 2 ^ 31"
  shows "\<exists>r k'. spawn_internal P g q f sz k = Some (r, k') \<and> mem_ok k' \<and> (case r of
      Inl e \<Rightarrow> kernel_ok k' T \<and> no_effect k k'
    | Inr p \<Rightarrow> spawned p g q k k' \<and> only_at (insert p (set (addrs T))) k k'
        \<and> kernel_ok k' (regroup g (put_after (anchor_of (heap k) g) (LeafN p)) T))"
proof -
  from mem_okD(1) [OF mem] obtain fs where fs: "arena_ok (karena k) fs" by blast
  then have rdy: "is_ready (karena k)" using arena_okD [OF fs] by (simp add: is_ready_def)
  have sp: "space_for k tcb_size" using rm(1) by (simp add: roomy_def space_for_def)
  let ?bs = "block_size_for (fst f) (snd f)" and ?ba = "block_align_for (snd f)"
  have un: "unat (nodes k + 1) = unat (nodes k) + 1" using lim by (simp add: unat_Suc_small)
  from alloc_tcb_ok [OF mem sp] show ?thesis
  proof (elim disjE exE conjE)
    assume "alloc_tcb k = Some (None, k)"
    then have "spawn_internal P g q f sz k = Some (Inl ArenaExhausted, k)"
      using rdy by (simp add: spawn_internal_def)
    then show ?thesis using mem ok by (simp add: no_effect_def)
  next
    fix p a1 assume t1: "alloc_tcb k = Some (Some p, with_tcb p a1 k)" and g1: "gained (karena k) a1 p tcb_size"
      and np: "rd k p = None" and m1: "mem_ok (with_tcb p a1 k)"
    let ?k1 = "with_tcb p a1 k"
    have p0: "p \<noteq> 0" using g1 by (simp add: gained_def)
    have s1: "staged p zero_tcb k ?k1" by (rule staged_alloc [OF g1 m1])
    have b0: "blocks_of zero_tcb = []" by (simp add: blocks_of_def zero_tcb_def)
    have sr1: "same_region (karena k) (karena ?k1)" using s1 by (simp add: staged_def)
    have sp1: "space_for ?k1 ?bs" using rm(2) sr1 by (simp add: roomy_def space_for_def same_region_def)
    have bs0: "?bs \<noteq> 0"
    proof
      assume "?bs = 0"
      with closure_layout(2,3) [OF f] show False by (simp add: HEADER_SIZE_def)
    qed
    from block_align_ok [OF f] obtain n where n: "pow2 ?ba n" "unat ?ba \<le> 32" by blast
    from alloc_block_ok [OF m1 sp1 n bs0] show ?thesis
    proof (elim disjE exE conjE)
      assume nb: "alloc_block ?bs ?ba ?k1 = Some (None, ?k1)"
      have "\<exists>k''. free_task p zero_tcb ?k1 = Some k'' \<and> mem_ok k'' \<and> kernel_ok k'' T \<and> no_effect k k''"
        by (rule staged_free [OF s1 np ok lim]) (use g1 b0 in \<open>auto simp: gained_def with_tcb_def\<close>)
      then obtain k'' where k'': "free_task p zero_tcb ?k1 = Some k''" "mem_ok k''" "kernel_ok k'' T" "no_effect k k''"
        by blast
      have "free_tcb p ?k1 = Some k''" using k''(1) by (simp add: free_task_def zero_tcb_def)
      then have "spawn_internal P g q f sz k = Some (Inl ArenaExhausted, k'')"
        using rdy t1 nb by (simp add: spawn_internal_def)
      then show ?thesis using k'' by simp
    next
      fix b a2 assume tb: "alloc_block ?bs ?ba ?k1 = Some (Some b, ?k1\<lparr>karena := a2\<rparr>)"
        and g2: "gained (karena ?k1) a2 b ?bs" and m2: "mem_ok (?k1\<lparr>karena := a2\<rparr>)" and ub: "unowned ?k1 b"
      let ?k2 = "?k1\<lparr>karena := a2\<rparr>"
      have b: "b \<noteq> 0" using g2 by (simp add: gained_def)
      have s2: "staged p zero_tcb k ?k2" by (rule staged_arena [OF s1 _ m2]) (use g2 in \<open>simp add: gained_def\<close>)
      have r2: "rd ?k2 p = Some zero_tcb" using s2 by (simp add: staged_def)
      let ?t3 = "zero_tcb\<lparr>closure_block := b\<rparr>"
      let ?k3 = "put p ?t3 ?k2"
      have u3: "upd (\<lambda>t. t\<lparr>closure_block := b\<rparr>) p ?k2 = Some ?k3" by (rule upd_put [OF r2])
      have b3: "blocks_of ?t3 = [b]" using b by (simp add: blocks_of_def zero_tcb_def)
      have m3: "mem_ok ?k3"
      proof (rule mem_ok_own [OF m2 r2])
        show "live_payload (karena ?k2) b" using g2 by (simp add: gained_def)
        show "rd ?k2 b = None" using ub by (simp add: unowned_def rd_def)
        show "\<forall>q u. rd ?k2 q = Some u \<longrightarrow> b \<notin> set (blocks_of u)" using ub by (simp add: unowned_def rd_def)
      qed (use b b3 b0 in simp_all)
      have s3: "staged p ?t3 k ?k3" by (rule staged_put [OF s2 p0 m3])
      let ?k3' = "?k3\<lparr>next_id := next_id k + 1\<rparr>"
      have s3': "staged p ?t3 k ?k3'" by (rule staged_id [OF s3])
      have id: "take_id ?k3 = (next_id k, ?k3')" by (simp add: take_id_def put_def with_tcb_def)
      let ?t4 = "?t3\<lparr>tid := next_id k, st := Ready, slices_run := 0, tswitches := 0, kind := Leaf,
                   parent := g, slice_cycles := max q 1, remaining_cycles := max q 1\<rparr>"
      let ?k4 = "put p ?t4 ?k3'"
      have r3: "rd ?k3' p = Some ?t3" using s3' by (simp add: staged_def)
      have u4: "upd (\<lambda>t. t\<lparr>tid := next_id k, st := Ready, slices_run := 0, tswitches := 0, kind := Leaf,
                   parent := g, slice_cycles := max q 1, remaining_cycles := max q 1\<rparr>) p ?k3' = Some ?k4"
        by (rule upd_put [OF r3])
      have b4: "blocks_of ?t4 = [b]" using b3 by (simp add: blocks_of_def)
      have m4: "mem_ok ?k4"
      proof (rule mem_ok_owners)
        show "mem_ok ?k3'" using s3' by (simp add: staged_def)
        show "same_owners (heap ?k3') (heap ?k4)"
          unfolding heap_put by (rule same_owners_upd [OF r3 [unfolded rd_def]]) (simp only: b3 b4)
      qed (simp add: put_def)
      have s4: "staged p ?t4 k ?k4" by (rule staged_put [OF s3' p0 m4])
      have r4: "rd ?k4 p = Some ?t4" using s4 by (simp add: staged_def)
      have id4: "next_id ?k4 = next_id k + 1" by (simp add: put_def)
      have K4: "karena ?k4 = a2" by (simp add: put_def)
      have lv4: "live_payload (karena ?k4) x \<longleftrightarrow> live_payload (karena k) x \<or> x \<in> insert p (set [b])" for x
        unfolding K4 using g1 g2 by (auto simp: gained_def with_tcb_def)
      have nl4: "x \<notin> insert p (set [b])" if "live_payload (karena k) x" for x
        using that g1 g2 by (auto simp: gained_def with_tcb_def)
      have sb4: "stack_base ?t4 = 0" by (simp add: zero_tcb_def)
      have rm4: "roomy ?k4 sz" using rm(3) s4 by (simp add: roomy_def staged_def same_region_def)
      from create [OF m4 r4 sb4 rm4] obtain r k5 where c5: "port_create P p sz ?k4 = Some (r, k5)" "mem_ok k5"
        "created p ?k4 k5" "\<forall>e. r = Inl e \<longrightarrow> no_stack p ?k4 k5" by blast
      from c5(3) r4 obtain t5 where t5: "rd k5 p = Some t5" "stackless t5 = stackless ?t4"
        unfolding created_def by blast
      have keep: "tid t5 = next_id k" "st t5 = Ready" "kind t5 = Leaf" "parent t5 = g" "slice_cycles t5 = max q 1"
        "remaining_cycles t5 = max q 1" "nxt t5 = 0" "children_head t5 = 0" "current_child t5 = 0" "closure_block t5 = b"
        "held_locks t5 = replicate MAX_HELD_LOCKS 0" "held_count t5 = 0"
        using arg_cong [OF t5(2), of tid] arg_cong [OF t5(2), of st] arg_cong [OF t5(2), of kind]
          arg_cong [OF t5(2), of parent] arg_cong [OF t5(2), of slice_cycles]
          arg_cong [OF t5(2), of remaining_cycles] arg_cong [OF t5(2), of nxt] arg_cong [OF t5(2), of children_head]
          arg_cong [OF t5(2), of current_child] arg_cong [OF t5(2), of closure_block]
          arg_cong [OF t5(2), of held_locks] arg_cong [OF t5(2), of held_count]
        by (simp_all add: stackless_def zero_tcb_def)
      have D5: "root k5 = root ?k4" "nodes k5 = nodes ?k4" "current_tcb k5 = current_tcb ?k4"
        "active_threads k5 = active_threads ?k4" "total_threads k5 = total_threads ?k4" "running k5 = running ?k4"
        "next_id k5 = next_id ?k4"
        using same_but_memoryD [of ?k4 k5] c5(3) by (simp_all add: created_def)
      have s5: "staged p t5 k k5"
        using s4 c5(2,3) t5(1) D5 by (auto simp: staged_def created_def same_region_def)
      have head: "spawn_internal P g q f sz k = (case r of
             Inl err \<Rightarrow> do { k \<leftarrow> free_block b k5; k \<leftarrow> free_tcb p k; Some (Inl err, k) }
           | Inr _ \<Rightarrow> do {
               k \<leftarrow> insert_child g p k5;
               let k = k\<lparr>total_threads := total_threads k + 1, active_threads := active_threads k + 1\<rparr>;
               Some (Inr p, if running k then request_switch k else k) })"
        unfolding spawn_internal_def using rdy t1 tb u3 id u4 c5(1) by simp
      have ok5: "kernel_ok k5 T"
        by (rule kernel_ok_outside [OF ok np]) (use s5 keep lim un in \<open>auto simp: staged_def\<close>)
      show ?thesis
      proof (cases r)
        case (Inl e)
        then have ns: "no_stack p ?k4 k5" using c5(4) by blast
        then have st0: "stack_base t5 = 0" using t5(1) by (simp add: no_stack_def)
        then have b5: "blocks_of t5 = [b]" using keep(10) b by (simp add: blocks_of_def)
        have lv5: "live_payload (karena k5) x \<longleftrightarrow> live_payload (karena k) x \<or> x \<in> insert p (set (blocks_of t5))" for x
          using lv4 ns unfolding b5 by (simp add: no_stack_def)
        have nl5: "x \<notin> insert p (set (blocks_of t5))" if "live_payload (karena k) x" for x
          unfolding b5 by (rule nl4 [OF that])
        from staged_free [OF s5 np ok lim lv5 nl5] obtain k'' where
          k'': "free_task p t5 k5 = Some k''" "mem_ok k''" "kernel_ok k'' T" "no_effect k k''" by blast
        then have "do { k \<leftarrow> free_block b k5; free_tcb p k } = Some k''"
          using free_block_free_tcb [OF st0] keep(10) by simp
        then have "spawn_internal P g q f sz k = Some (Inl e, k'')"
          unfolding head Inl by (cases "free_block b k5") auto
        then show ?thesis using k'' by simp
      next
        case (Inr v)
        have pT: "p \<notin> set (addrs T)" using tree_rd [of k T p] ok np by (auto simp: kernel_ok_def)
        have fresh: "fresh_node k5 g (LeafN p) T"
          using t5(1) keep pT by (simp add: fresh_node_def rd_def)
        have tok5: "tree_ok k5 T" using ok5 by (simp add: kernel_ok_def)
        have room5: "length (addrs T) < unat (nodes k5)"
          using ok s5 un by (simp add: kernel_ok_def tree_ok_def staged_def)
        from insert_child_tree [OF tok5 G fresh room5] obtain k6 where k6: "insert_child g p k5 = Some k6"
          "tree_ok k6 (regroup g (put_after (anchor_of (heap k5) g) (LeafN p)) T)" "grafted k5 k6"
          "only_at (insert p (set (addrs T))) k5 k6" by auto
        have gT: "g \<in> set (addrs T)" using subs_addr [OF G] by simp
        then have "g \<noteq> p" using pT by auto
        then have "rdh (heap k5) g = rdh (heap k) g" using s5 by (simp add: staged_def rd_def)
        then have an: "anchor_of (heap k5) g = anchor_of (heap k) g" by (simp add: anchor_of_def)
        let ?T' = "regroup g (put_after (anchor_of (heap k) g) (LeafN p)) T"
        have sub: "set (addrs T) \<subseteq> set (addrs ?T')"
          using grown_addrs(2) [of T g us "LeafN p" p] ok G pT by (auto simp: kernel_ok_def tree_ok_def)
        have ok6: "kernel_ok k6 ?T'" by (rule kernel_ok_graft [OF ok5 _ k6(3) sub]) (use k6(2) an in simp)
        let ?k7 = "k6\<lparr>total_threads := total_threads k6 + 1, active_threads := active_threads k6 + 1\<rparr>"
        let ?k8 = "if running ?k7 then request_switch ?k7 else ?k7"
        have run: "spawn_internal P g q f sz k = Some (Inr p, ?k8)"
          unfolding head Inr using k6(1) by (simp add: Let_def)
        from k6(3) obtain h6 r6 where e6: "k6 = k5\<lparr>heap := h6, ring_head := r6\<rparr>" "same_tasks (heap k5) h6"
          by (auto simp: grafted_def)
        have h8: "heap ?k8 = h6" "karena ?k8 = karena k5" "root ?k8 = root k5" "nodes ?k8 = nodes k5"
          "current_tcb ?k8 = current_tcb k5" "next_id ?k8 = next_id k5" "pending_free ?k8 = pending_free k5"
          "total_threads ?k8 = total_threads k5 + 1" "active_threads ?k8 = active_threads k5 + 1"
          "running k5 \<longrightarrow> switch_pending ?k8"
          using e6(1) by (simp_all add: request_switch_def)
        have tk: "map_option task_part (rd ?k8 a) = map_option task_part (rd k5 a)" for a
          using e6(2) unfolding same_tasks_def rd_def h8(1) by simp
        have m8: "mem_ok ?k8"
          by (rule mem_ok_owners [OF c5(2)]) (use same_tasks_owners [OF e6(2)] h8(1,2) in simp_all)
        have ok8: "kernel_ok ?k8 ?T'"
        proof (rule kernel_ok_eq [OF ok6])
          show "heap ?k8 = heap k6" using h8(1) e6(1) by simp
        qed (use h8(3-5) e6(1) in simp_all)
        have "spawned p g q k ?k8"
        proof -
          from tk [of p] t5(1) obtain t8 where t8: "rd ?k8 p = Some t8" "task_part t8 = task_part t5" by auto
          have "map_option task_part (rd ?k8 a) = map_option task_part (rd k a)" if "a \<noteq> p" for a
            using tk [of a] s5 that by (simp add: staged_def)
          moreover have "tid t8 = next_id k" "st t8 = Ready" "kind t8 = Leaf" "parent t8 = g"
            "slice_cycles t8 = max q 1" "remaining_cycles t8 = max q 1"
            "held_locks t8 = replicate MAX_HELD_LOCKS 0" "held_count t8 = 0"
            using task_part_simps [OF t8(2)] keep by simp_all
          moreover have "next_id k5 = next_id k + 1" "total_threads k5 = total_threads k"
            "active_threads k5 = active_threads k" "current_tcb k5 = current_tcb k" "running k5 = running k"
            "pending_free k5 = pending_free k"
            using D5(7) id4 s5 by (simp_all add: staged_def)
          ultimately show ?thesis
            using np t8(1) h8 unfolding spawned_def by auto
        qed
        moreover have "only_at (insert p (set (addrs T))) k ?k8"
          unfolding only_at_def
        proof (intro allI impI)
          fix a assume a: "a \<notin> insert p (set (addrs T))"
          have "rd ?k8 a = rd k6 a" using h8(1) e6(1) by (simp add: rd_def)
          also have "\<dots> = rd k5 a" using k6(4) a unfolding only_at_def by blast
          also have "\<dots> = rd k a" using s5 a by (simp add: staged_def)
          finally show "rd ?k8 a = rd k a" .
        qed
        ultimately show ?thesis using run m8 ok8 by (intro exI [of _ "Inr p"] exI [of _ ?k8]) simp
      qed
    qed
  qed
qed

end

end
