(* ===== verification/RkStart.thy ===== *)
theory RkStart
  imports RkLife
begin

text \<open>
  Start-up and groups: \<open>init_with\<close> sets up a root with the calling context as its only
  task, and \<open>spawn_group_node\<close> adds an empty group; both give the kernel's invariants.
  \<open>exit_lifecycle\<close> and the locale \<open>port_contract\<close> then carry them through a task's life.
\<close>

section \<open>Groups\<close>

lemma spawn_group_ok:
  assumes ok: "kernel_ok k T" and mem: "mem_ok k" and G: "GroupN g us \<in> set (subs T)"
    and rm: "roomy k tcb_size" and lim: "unat (nodes k) + 1 < 2 ^ 31"
  shows "\<exists>r k'. spawn_group_node g q k = Some (r, k') \<and> mem_ok k' \<and> (case r of
      Inl e \<Rightarrow> k' = k
    | Inr p \<Rightarrow> rd k p = None \<and> total_threads k' = total_threads k \<and> active_threads k' = active_threads k
        \<and> current_tcb k' = current_tcb k \<and> pending_free k' = pending_free k \<and> only_at (insert p (set (addrs T))) k k'
        \<and> (\<forall>a. a \<noteq> p \<longrightarrow> map_option task_part (rd k' a) = map_option task_part (rd k a))
        \<and> (\<exists>t. rd k' p = Some t \<and> kind t = Group \<and> slice_cycles t = max q 1 \<and> remaining_cycles t = max q 1)
        \<and> kernel_ok k' (regroup g (put_after (anchor_of (heap k) g) (GroupN p [])) T))"
proof -
  from mem_okD(1) [OF mem] obtain fs where fs: "arena_ok (karena k) fs" by blast
  then have rdy: "is_ready (karena k)" using arena_okD [OF fs] by (simp add: is_ready_def)
  have g0: "g \<noteq> 0"
  proof -
    from tree_at_sub [of "heap k" 0 T, OF _ G] ok obtain q where "tree_at (heap k) q (GroupN g us)"
      by (auto simp: kernel_ok_def tree_ok_def)
    then show ?thesis by (auto dest: rdh_SomeD)
  qed
  have sp: "space_for k tcb_size" using rm by (simp add: roomy_def space_for_def)
  have un: "unat (nodes k + 1) = unat (nodes k) + 1" using lim by (simp add: unat_Suc_small)
  from alloc_tcb_ok [OF mem sp] show ?thesis
  proof (elim disjE exE conjE)
    assume "alloc_tcb k = Some (None, k)"
    then have "spawn_group_node g q k = Some (Inl ArenaExhausted, k)"
      using rdy g0 by (simp add: spawn_group_node_def)
    then show ?thesis using mem by simp
  next
    fix p a1 assume t1: "alloc_tcb k = Some (Some p, with_tcb p a1 k)" and g1: "gained (karena k) a1 p tcb_size"
      and np: "rd k p = None" and m1: "mem_ok (with_tcb p a1 k)"
    let ?k1 = "with_tcb p a1 k"
    have p0: "p \<noteq> 0" using g1 by (simp add: gained_def)
    have s1: "staged p zero_tcb k ?k1" by (rule staged_alloc [OF g1 m1])
    let ?k1' = "?k1\<lparr>next_id := next_id k + 1\<rparr>"
    have s1': "staged p zero_tcb k ?k1'" by (rule staged_id [OF s1])
    have id: "take_id ?k1 = (next_id k, ?k1')" by (simp add: take_id_def with_tcb_def)
    let ?f = "\<lambda>t. t\<lparr>tid := next_id k, st := Ready, kind := Group, parent := g,
                    children_head := null_ptr, current_child := null_ptr,
                    slice_cycles := max q 1, remaining_cycles := max q 1\<rparr>"
    let ?t = "?f zero_tcb"
    let ?k2 = "put p ?t ?k1'"
    have r1: "rd ?k1' p = Some zero_tcb" using s1' by (simp add: staged_def)
    have u2: "upd ?f p ?k1' = Some ?k2" by (rule upd_put [OF r1])
    have bt: "blocks_of ?t = blocks_of zero_tcb" by (simp add: blocks_of_def)
    have m2: "mem_ok ?k2"
    proof (rule mem_ok_owners)
      show "mem_ok ?k1'" using s1' by (simp add: staged_def)
      show "same_owners (heap ?k1') (heap ?k2)"
        unfolding heap_put by (rule same_owners_upd [OF r1 [unfolded rd_def] bt])
    qed (simp add: put_def)
    have s2: "staged p ?t k ?k2" by (rule staged_put [OF s1' p0 m2])
    have r2: "rd ?k2 p = Some ?t" using s2 by (simp add: staged_def)
    have tf: "nxt ?t = 0" "st ?t \<noteq> Running" by (simp_all add: zero_tcb_def)
    have ok2: "kernel_ok ?k2 T"
      by (rule kernel_ok_outside [OF ok np]) (use s2 tf lim un in \<open>auto simp: staged_def simp del: tcb.simps\<close>)
    have pT: "p \<notin> set (addrs T)" using tree_rd [of k T p] ok np by (auto simp: kernel_ok_def)
    have fresh: "fresh_node ?k2 g (GroupN p []) T"
      using r2 pT by (simp add: fresh_node_def rd_def ring_at_def)
    have tok2: "tree_ok ?k2 T" using ok2 by (simp add: kernel_ok_def)
    have room2: "length (addrs T) < unat (nodes ?k2)"
      using ok s2 un by (simp add: kernel_ok_def tree_ok_def staged_def)
    from insert_child_tree [OF tok2 G fresh room2] obtain k3 where k3: "insert_child g p ?k2 = Some k3"
      "tree_ok k3 (regroup g (put_after (anchor_of (heap ?k2) g) (GroupN p [])) T)" "grafted ?k2 k3"
      "only_at (insert p (set (addrs T))) ?k2 k3" by auto
    have gT: "g \<in> set (addrs T)" using subs_addr [OF G] by simp
    then have "g \<noteq> p" using pT by auto
    then have "rdh (heap ?k2) g = rdh (heap k) g" using s2 by (simp add: staged_def rd_def)
    then have an: "anchor_of (heap ?k2) g = anchor_of (heap k) g" by (simp add: anchor_of_def)
    let ?T' = "regroup g (put_after (anchor_of (heap k) g) (GroupN p [])) T"
    have sub: "set (addrs T) \<subseteq> set (addrs ?T')"
      using grown_addrs(2) [of T g us "GroupN p []" p] ok G pT by (auto simp: kernel_ok_def tree_ok_def)
    have ok3: "kernel_ok k3 ?T'" by (rule kernel_ok_graft [OF ok2 _ k3(3) sub]) (use k3(2) an in simp)
    from k3(3) obtain h3 r3 where e3: "k3 = ?k2\<lparr>heap := h3, ring_head := r3\<rparr>" "same_tasks (heap ?k2) h3"
      by (auto simp: grafted_def)
    have m3: "mem_ok k3"
      by (rule mem_ok_owners [OF m2]) (use same_tasks_owners [OF e3(2)] e3(1) in simp_all)
    from same_tasksD [OF e3(2) r2 [unfolded rd_def]] obtain t3 where
      t3: "rdh h3 p = Some t3" "task_part t3 = task_part ?t" by blast
    have "rd k3 p = Some t3" "kind t3 = Group" "slice_cycles t3 = max q 1" "remaining_cycles t3 = max q 1"
      using t3(1) e3(1) task_part_simps(2,5,6) [OF t3(2)] by (simp_all add: rd_def)
    moreover have "spawn_group_node g q k = Some (Inr p, k3)"
      unfolding spawn_group_node_def using rdy g0 t1 id u2 k3(1) by simp
    moreover have "total_threads k3 = total_threads k" "active_threads k3 = active_threads k"
      using e3(1) s2 by (simp_all add: staged_def)
    moreover have "current_tcb k3 = current_tcb k" "pending_free k3 = pending_free k"
      using e3(1) s2 by (simp_all add: staged_def)
    moreover have "only_at (insert p (set (addrs T))) k k3"
      using k3(4) s2 unfolding only_at_def staged_def by auto
    moreover have "map_option task_part (rd k3 a) = map_option task_part (rd k a)" if "a \<noteq> p" for a
    proof -
      have "map_option task_part (rd k3 a) = map_option task_part (rd ?k2 a)"
        using e3 by (simp add: same_tasks_def rd_def)
      then show ?thesis using s2 that by (simp add: staged_def)
    qed
    ultimately show ?thesis using np m3 ok3 by (intro exI [of _ "Inr p"] exI [of _ k3]) simp
  qed
qed

section \<open>The end of a task\<close>

lemma exit_lifecycle:
  assumes ok: "kernel_ok k T" and mem: "mem_ok k" and d: "dead_ok k T ns"
    and cur: "LeafN (current_tcb k) \<in> set (subs T)"
  shows "\<exists>g us k' T'. exit_task (current_tcb k) k = Some k' \<and> GroupN g us \<in> set (subs T) \<and> LeafN (current_tcb k) \<in> set us
    \<and> T' = regroup g (cut (current_tcb k)) T \<and> kernel_ok k' T' \<and> mem_ok k' \<and> dead_ok k' T' (current_tcb k # ns)
    \<and> retired (current_tcb k) k k' \<and> set (addrs T') = set (addrs T) - {current_tcb k}"
proof -
  let ?me = "current_tcb k"
  from exit_task_ok [OF ok cur] obtain g us k' where
    e: "GroupN g us \<in> set (subs T)" "LeafN ?me \<in> set us" "exit_task ?me k = Some k'"
      "kernel_ok k' (regroup g (cut ?me) T)" "retired ?me k k'" "only_at (set (addrs T)) k k'" by blast
  have tok: "tree_ok k T" using ok by (simp add: kernel_ok_def)
  have meT: "?me \<in> set (addrs T)" using subs_addr [OF cur] by simp
  then obtain t where t: "rd k ?me = Some t" using tree_rd [OF tok] by blast
  have dT: "distinct (addrs T)" using tok by (simp add: tree_ok_def)
  note ca = cut_addrs(2) [OF dT e(1,2)]
  show ?thesis
    using e exit_mem [OF mem e(5) t] exit_dead [OF d e(5,6) t meT ca] ca by blast
qed

section \<open>Start-up\<close>

text \<open>A kernel before its first \<open>init\<close>.\<close>

definition pristine :: "kernel \<Rightarrow> bool" where
  "pristine k = (heap k = Map.empty \<and> karena k = arena_empty \<and> \<not> running k \<and> nodes k = 0 \<and> pending_free k = 0)"

text \<open>A region that a program may hand to the kernel.\<close>

definition region_ok :: "ptr \<times> usize \<Rightarrow> bool" where
  "region_ok r = (fst r \<noteq> 0 \<and> unat (fst r) + unat (snd r) + 1024 \<le> 2 ^ 32)"

text \<open>A root group whose only child is the running task 0.\<close>

definition started :: "timer_plan \<Rightarrow> kernel \<Rightarrow> bool" where
  "started plan k =
     (\<exists>rt t0. kernel_ok k (GroupN rt [LeafN t0]) \<and> mem_ok k \<and> dead_ok k (GroupN rt [LeafN t0]) []
        \<and> current_tcb k = t0 \<and> ring_head k = t0 \<and> total_threads k = 1 \<and> active_threads k = 1
        \<and> (\<exists>t. rd k t0 = Some t \<and> held_locks t = replicate MAX_HELD_LOCKS 0 \<and> held_count t = 0)
        \<and> kc_slice_cycles (config k) = plan_slice_cycles plan)"

context port_contract
begin

lemma init_task0_ok:
  assumes m: "mem_ok k" and r: "\<And>a. rd k a = (if a = rt then Some tr else None)" and rt: "rt \<noteq> 0" "root k = rt"
    and tr: "kind tr = Group" "parent tr = 0" "nxt tr = 0" "st tr = Ready"
    and sp: "space_for k tcb_size" and nk: "unat (nodes k) = 1" "pending_free k = 0"
    and cf: "kc_slice_cycles (config k) = plan_slice_cycles plan"
  shows "\<exists>r k'. init_task0 P region rt k = Some (r, k') \<and> (\<forall>u. r = Inr u \<longrightarrow> started plan k')"
proof -
  from alloc_tcb_ok [OF m sp] show ?thesis
  proof (elim disjE exE conjE)
    assume "alloc_tcb k = Some (None, k)"
    then show ?thesis by (simp add: init_task0_def)
  next
    fix p a1 assume t1: "alloc_tcb k = Some (Some p, with_tcb p a1 k)" and g1: "gained (karena k) a1 p tcb_size"
      and np: "rd k p = None" and m1: "mem_ok (with_tcb p a1 k)"
    let ?k1 = "with_tcb p a1 k"
    have p0: "p \<noteq> 0" using g1 by (simp add: gained_def)
    have prt: "p \<noteq> rt" using np r [of p] by (auto split: if_splits)
    have s1: "staged p zero_tcb k ?k1" by (rule staged_alloc [OF g1 m1])
    let ?k1' = "?k1\<lparr>next_id := next_id k + 1\<rparr>"
    have s1': "staged p zero_tcb k ?k1'" by (rule staged_id [OF s1])
    have id: "take_id ?k1 = (next_id k, ?k1')" by (simp add: take_id_def with_tcb_def)
    let ?f = "\<lambda>t. t\<lparr>st := Running, tid := next_id k, kind := Leaf, parent := rt, slice_cycles := 1, remaining_cycles := 1\<rparr>"
    let ?t = "?f zero_tcb"
    let ?k2 = "put p ?t ?k1'"
    have r1: "rd ?k1' p = Some zero_tcb" using s1' by (simp add: staged_def)
    have u2: "upd ?f p ?k1' = Some ?k2" by (rule upd_put [OF r1])
    have bt: "blocks_of ?t = blocks_of zero_tcb" by (simp add: blocks_of_def)
    have m2: "mem_ok ?k2"
    proof (rule mem_ok_owners)
      show "mem_ok ?k1'" using s1' by (simp add: staged_def)
      show "same_owners (heap ?k1') (heap ?k2)"
        unfolding heap_put by (rule same_owners_upd [OF r1 [unfolded rd_def] bt])
    qed (simp add: put_def)
    have s2: "staged p ?t k ?k2" by (rule staged_put [OF s1' p0 m2])
    have r2: "rd ?k2 p = Some ?t" using s2 by (simp add: staged_def)
    have "stack_base ?t = 0" by (simp add: zero_tcb_def)
    from adopt [OF m2 r2 this] obtain e k3 where a3: "port_adopt P p ?k2 = Some (e, k3)" "mem_ok k3" "created p ?k2 k3"
      by blast
    from a3(3) r2 obtain t3 where t3: "rd k3 p = Some t3" "stackless t3 = stackless ?t"
      unfolding created_def by blast
    have keep: "st t3 = Running" "kind t3 = Leaf" "parent t3 = rt" "children_head t3 = 0" "current_child t3 = 0"
      "held_locks t3 = replicate MAX_HELD_LOCKS 0" "held_count t3 = 0"
      using arg_cong [OF t3(2), of st] arg_cong [OF t3(2), of kind] arg_cong [OF t3(2), of parent]
        arg_cong [OF t3(2), of children_head] arg_cong [OF t3(2), of current_child]
        arg_cong [OF t3(2), of held_locks] arg_cong [OF t3(2), of held_count]
      by (simp_all add: stackless_def zero_tcb_def)
    have D3: "root k3 = root ?k2" "nodes k3 = nodes ?k2" "config k3 = config ?k2" "pending_free k3 = pending_free ?k2"
      using same_but_memoryD [of ?k2 k3] a3(3) by (simp_all add: created_def)
    have c2: "config ?k2 = config k" by (simp add: put_def with_tcb_def)
    have r3: "rd k3 a = (if a = p then Some t3 else if a = rt then Some tr else None)" for a
      using a3(3) t3(1) s2 r [of a] by (auto simp: created_def staged_def)
    show ?thesis
    proof (cases e)
      case (Inl err)
      then show ?thesis unfolding init_task0_def using t1 id u2 a3(1) by simp
    next
      case (Inr v)
      let ?t4 = "t3\<lparr>nxt := p, prv := p\<rparr>"
      let ?h4 = "(heap k3)(p \<mapsto> ?t4)"
      have i4: "insert_after null_ptr p (heap k3) = Some ?h4"
        by (rule insert_after_null(1)) (use t3(1) in \<open>simp add: rd_def\<close>)
      let ?k4 = "set_heap ?h4 k3"
      have k4: "?k4 = put p ?t4 k3" by (simp add: set_heap_def put_def)
      have r4: "rd ?k4 a = (if a = p then Some ?t4 else if a = rt then Some tr else None)" for a
        unfolding k4 using rd_put [OF p0, of ?t4 k3 a] r3 [of a] by simp
      have r4': "rd ?k4 rt = Some tr" using r4 prt by simp
      let ?tr = "tr\<lparr>children_head := p, current_child := p\<rparr>"
      let ?k5 = "put rt ?tr ?k4"
      have u5: "upd (\<lambda>t. t\<lparr>children_head := p, current_child := p\<rparr>) rt ?k4 = Some ?k5" by (rule upd_put [OF r4'])
      have r5: "rd ?k5 a = (if a = p then Some ?t4 else if a = rt then Some ?tr else None)" for a
        unfolding rd_put [OF rt(1), of ?tr ?k4 a] r4 [of a] using prt by auto
      let ?k6 = "(k_set_current p ?k5)\<lparr>ring_head := p, total_threads := 1, active_threads := 1\<rparr>"
      have run: "init_task0 P region rt k = Some (Inr (), ?k6)"
        unfolding init_task0_def using t1 id u2 a3(1) Inr i4 u5 by (simp add: Let_def)
      have r6: "rd ?k6 a = (if a = p then Some ?t4 else if a = rt then Some ?tr else None)" for a
        using r5 [of a] by (simp add: rd_def k_set_current_def)
      have F: "root ?k6 = rt" "nodes ?k6 = nodes k + 1" "current_tcb ?k6 = p" "pending_free ?k6 = 0"
        "karena ?k6 = karena k3" "config ?k6 = config k"
        using D3 s2 rt(2) nk(2) c2 by (simp_all add: k_set_current_def put_def set_heap_def staged_def)
      let ?T = "GroupN rt [LeafN p]"
      have hr: "rdh (heap ?k6) a = (if a = p then Some ?t4 else if a = rt then Some ?tr else None)" for a
        using r6 [of a] by (simp only: rd_def)
      have "tree_at (heap ?k6) 0 ?T"
        using hr keep tr prt by (simp add: ring_at_def link_def)
      moreover have "only_linked (heap ?k6) ?T" unfolding only_linked_def hr by auto
      moreover have "unat (nodes k + 1) = 2" using nk(1) by (subst unat_Suc_small) simp_all
      ultimately have tok: "tree_ok ?k6 ?T" using F prt by (simp add: tree_ok_def)
      have "cur_ok ?k6" unfolding cur_ok_def F(3) r6 using keep by simp
      moreover have "one_running ?k6"
        unfolding one_running_def F(3) r6 using tr(4) p0 by (auto split: if_splits)
      ultimately have "kernel_ok ?k6 ?T" using tok by (simp add: kernel_ok_def)
      moreover have "mem_ok ?k6"
      proof (rule mem_ok_owners [OF a3(2)])
        show "same_owners (heap k3) (heap ?k6)"
          unfolding same_owners_def hr using r3 by (auto simp: rd_def blocks_of_def)
      qed (rule F(5))
      moreover have "dead_ok ?k6 ?T []" using F(4) by (simp add: dead_ok_def)
      moreover have "kc_slice_cycles (config ?k6) = plan_slice_cycles plan" using F(6) cf by simp
      moreover have "ring_head ?k6 = p" "total_threads ?k6 = 1" "active_threads ?k6 = 1" by simp_all
      moreover have "\<exists>t. rd ?k6 p = Some t \<and> held_locks t = replicate MAX_HELD_LOCKS 0 \<and> held_count t = 0"
        using r6 [of p] keep by simp
      ultimately have "started plan ?k6"
        using F(3) unfolding started_def by (intro exI [of _ rt] exI [of _ p] conjI)
      then show ?thesis using run by blast
    qed
  qed
qed

lemma init_locked_ok:
  assumes pr: "pristine k" and rg: "region_ok region"
  shows "\<exists>r k'. init_locked P cfg plan region k = Some (r, k') \<and> (\<forall>u. r = Inr u \<longrightarrow> started plan k')"
proof -
  let ?k1 = "k\<lparr>karena := arena_init (fst region) (snd region) (karena k)\<rparr>"
  let ?c = "\<lparr>kc_stack_size = cfg_stack_size cfg, kc_idle = cfg_idle cfg, kc_measure = cfg_measure cfg,
      kc_slice_cycles = plan_slice_cycles plan, kc_timer_hz = plan_timer_hz plan,
      kc_active_cores = max (kc_active_cores (config ?k1)) 1\<rparr>"
  let ?k2 = "?k1\<lparr>config := ?c\<rparr>"
  have ar: "\<exists>fs. arena_ok (karena ?k2) fs"
    using arena_init_ok(1) [of "fst region" "snd region"] pr rg by (auto simp: pristine_def region_ok_def)
  have no: "rd ?k2 a = None" for a using pr by (simp add: pristine_def rd_def rdh_def)
  have m2: "mem_ok ?k2" using ar no by (intro mem_okI) simp_all
  have base: "ar_base (karena ?k2) = fst region" "ar_len (karena ?k2) = snd region"
    by (simp_all add: arena_init_def)
  have sp2: "space_for ?k2 tcb_size" unfolding space_for_def base using rg by (simp add: region_ok_def tcb_size_val)
  have head: "init_locked P cfg plan region k = do {
        (r, k) \<leftarrow> alloc_tcb ?k2;
        (case r of
           None \<Rightarrow> Some (Inl (ArenaTooSmall (snd region) min_arena), k)
         | Some rt \<Rightarrow> do {
             k \<leftarrow> upd (\<lambda>t. t\<lparr>kind := Group, parent := null_ptr, children_head := null_ptr,
                    current_child := null_ptr, st := Ready, slice_cycles := 0xFFFFFFFF,
                    remaining_cycles := 0xFFFFFFFF\<rparr>) rt k;
             init_task0 P region rt (k\<lparr>root := rt\<rparr>)
           })
      }"
    using pr by (simp add: init_locked_def pristine_def)
  from alloc_tcb_ok [OF m2 sp2] show ?thesis
  proof (elim disjE exE conjE)
    assume "alloc_tcb ?k2 = Some (None, ?k2)"
    then show ?thesis unfolding head by simp
  next
    fix rt a3 assume t3: "alloc_tcb ?k2 = Some (Some rt, with_tcb rt a3 ?k2)"
      and g3: "gained (karena ?k2) a3 rt tcb_size" and m3: "mem_ok (with_tcb rt a3 ?k2)"
    let ?k3 = "with_tcb rt a3 ?k2"
    let ?f = "\<lambda>t. t\<lparr>kind := Group, parent := null_ptr, children_head := null_ptr,
                    current_child := null_ptr, st := Ready, slice_cycles := 0xFFFFFFFF,
                    remaining_cycles := 0xFFFFFFFF\<rparr>"
    let ?tr = "?f zero_tcb"
    have rt0: "rt \<noteq> 0" using g3 by (simp add: gained_def)
    have r3: "rd ?k3 a = (if a = rt then Some zero_tcb else None)" for a
      using no [of a] rt0 by (simp add: with_tcb_def rd_def rdh_upd)
    have r3': "rd ?k3 rt = Some zero_tcb" using r3 by simp
    let ?k4 = "put rt ?tr ?k3"
    have u4: "upd ?f rt ?k3 = Some ?k4" by (rule upd_put [OF r3'])
    have r4: "rd ?k4 a = (if a = rt then Some ?tr else None)" for a
      using rd_put [OF rt0, of ?tr ?k3 a] r3 by simp
    let ?k5 = "?k4\<lparr>root := rt\<rparr>"
    have m5: "mem_ok ?k5"
    proof (rule mem_ok_owners [OF m3])
      have "blocks_of ?tr = blocks_of zero_tcb" by (simp add: blocks_of_def)
      from same_owners_upd [OF r3' [unfolded rd_def] this] show "same_owners (heap ?k3) (heap ?k5)" by simp
    qed (simp add: put_def)
    have "unat (nodes ?k5) = 1" using pr by (simp add: put_def with_tcb_def pristine_def)
    moreover have "pending_free ?k5 = 0" using pr by (simp add: put_def with_tcb_def pristine_def)
    moreover have "kc_slice_cycles (config ?k5) = plan_slice_cycles plan" by (simp add: put_def with_tcb_def)
    moreover have "space_for ?k5 tcb_size"
      using sp2 g3 by (simp add: space_for_def put_def with_tcb_def gained_def same_region_def)
    moreover have "rd ?k5 a = (if a = rt then Some ?tr else None)" for a using r4 [of a] by (simp add: rd_def)
    ultimately show ?thesis
      unfolding head t3 using u4 init_task0_ok [OF m5, of rt ?tr plan region] rt0
      by (simp add: zero_tcb_def)
  qed
qed

end

end
