(* ===== verification/RkQuery.thy ===== *)
theory RkQuery
  imports RkStart
begin

text \<open>
  The observers of \<^verbatim>\<open>src/scheduler.rs\<close>: \<^verbatim>\<open>for_each_task\<close>, \<^verbatim>\<open>blocked_threads\<close>,
  \<^verbatim>\<open>stats\<close>, the counters, the shutdown flag, task identities and the number of active
  cores.  The two observers that walk a ring are shown to see exactly one ring of the
  scheduling tree.
\<close>

section \<open>Walks over one ring\<close>

record task_info =
  ti_id :: u32
  ti_state :: task_state
  ti_slices_run :: u32
  ti_switches :: u32
  ti_stack_size :: usize
  ti_is_current :: bool

definition info_of :: "ptr \<Rightarrow> ptr \<Rightarrow> tcb \<Rightarrow> task_info" where
  "info_of cur p t =
     \<lparr>ti_id = tid t, ti_state = st t, ti_slices_run = slices_run t, ti_switches = tswitches t,
      ti_stack_size = stack_size t, ti_is_current = (p = cur)\<rparr>"

text \<open>The loop both walks share: visit \<open>p\<close>, then go on along \<^verbatim>\<open>next\<close> until back at \<open>start\<close>.\<close>

partial_function (option) each_loop ::
  "tcb_heap \<Rightarrow> (ptr \<Rightarrow> tcb \<Rightarrow> 's \<Rightarrow> 's) \<Rightarrow> ptr \<Rightarrow> ptr \<Rightarrow> 's \<Rightarrow> 's option" where
  "each_loop h f start p s = do {
     t \<leftarrow> rdh h p;
     let s = f p t s;
     if nxt t = start \<or> nxt t = null_ptr then Some s else each_loop h f start (nxt t) s
   }"

declare each_loop.simps [code]

definition for_each_task :: "(task_info \<Rightarrow> 's \<Rightarrow> 's) \<Rightarrow> kernel \<Rightarrow> 's \<Rightarrow> 's option" where
  "for_each_task f k s = do {
     let cur = k_current k;
     l \<leftarrow> (if cur = null_ptr then Some False else do { t \<leftarrow> rd k cur; Some (tcb_is_linked t) });
     let start = (if l then cur else ring_head k);
     if start = null_ptr then Some s
     else do {
       t \<leftarrow> rd k start;
       if \<not> tcb_is_linked t then Some s
       else each_loop (heap k) (\<lambda>p t. f (info_of cur p t)) start start s
     }
   }"

definition blocked_threads :: "kernel \<Rightarrow> usize option" where
  "blocked_threads k =
     (let head = ring_head k in
      if head = null_ptr then Some 0
      else each_loop (heap k) (\<lambda>p t n. if st t = Blocked then n + 1 else n) head head 0)"

section \<open>Counters, flags and the configuration\<close>

definition get_config :: "kernel \<Rightarrow> kernel_config" where
  "get_config k = config k"

definition slice_ns :: "port \<Rightarrow> kernel \<Rightarrow> u64" where
  "slice_ns P k = port_ns P (kc_slice_cycles (get_config k)) k"

definition get_active_threads :: "kernel \<Rightarrow> usize" where
  "get_active_threads k = active_threads k"

definition get_total_threads :: "kernel \<Rightarrow> usize" where
  "get_total_threads k = total_threads k"

definition current_task_id :: "kernel \<Rightarrow> u32 option" where
  "current_task_id k =
     (let c = k_current k in
      if c = null_ptr then Some 0 else do { t \<leftarrow> rd k c; Some (tid t) })"

definition current_slices_run :: "kernel \<Rightarrow> u32 option" where
  "current_slices_run k =
     (let c = k_current k in
      if c = null_ptr then Some 0 else do { t \<leftarrow> rd k c; Some (slices_run t) })"

definition switch_count :: "kernel \<Rightarrow> u64" where
  "switch_count k = switches k"

definition tick_count :: "kernel \<Rightarrow> u64" where
  "tick_count k = ticks k"

definition get_blocks_without_current :: "kernel \<Rightarrow> u64" where
  "get_blocks_without_current k = blocks_without_current k"

text \<open>\<open>shutdown\<close> sets the flag and then never returns: the port stops the machine.\<close>

definition shutdown :: "kernel \<Rightarrow> kernel" where
  "shutdown k = k\<lparr>shutdown_flag := True\<rparr>"

definition request_shutdown :: "kernel \<Rightarrow> kernel" where
  "request_shutdown k = request_switch (k\<lparr>shutdown_flag := True\<rparr>)"

definition shutdown_requested :: "kernel \<Rightarrow> bool" where
  "shutdown_requested k = shutdown_flag k"

record scheduler_stats =
  ss_total_threads :: usize
  ss_active_threads :: usize
  ss_ticks :: u64
  ss_switches :: u64
  ss_ticks_deferred :: u64
  ss_worst_latency :: u32
  ss_last_latency :: u32
  ss_worst_period_error_ns :: u32
  ss_last_period_error_ns :: u32
  ss_slice_ns :: u64
  ss_slice_cycles :: u32
  ss_timer_hz :: u32
  ss_reclaimed :: u64
  ss_blocks_without_current :: u64
  ss_arena :: arena_stats
  ss_running :: bool

definition stats :: "port \<Rightarrow> kernel \<Rightarrow> scheduler_stats option" where
  "stats P k = do {
     let cfg = config k;
     a \<leftarrow> arena_statistics (karena k);
     Some \<lparr>ss_total_threads = total_threads k, ss_active_threads = active_threads k,
           ss_ticks = ticks k, ss_switches = switches k, ss_ticks_deferred = ticks_deferred k,
           ss_worst_latency = worst_latency k, ss_last_latency = last_latency k,
           ss_worst_period_error_ns = worst_period_error_ns k,
           ss_last_period_error_ns = last_period_error_ns k,
           ss_slice_ns = port_ns P (kc_slice_cycles cfg) k,
           ss_slice_cycles = kc_slice_cycles cfg, ss_timer_hz = kc_timer_hz cfg,
           ss_reclaimed = reclaimed k, ss_blocks_without_current = blocks_without_current k,
           ss_arena = a, ss_running = running k\<rparr>
   }"

text \<open>The target's \<^verbatim>\<open>smp::max_cores\<close> and \<^verbatim>\<open>smp::supports_smp\<close> are parameters.\<close>

definition set_active_cores :: "usize \<Rightarrow> bool \<Rightarrow> usize \<Rightarrow> kernel \<Rightarrow> (config_error + unit) \<times> kernel" where
  "set_active_cores max_cores supports_smp n k =
     (let mx = max max_cores 1 in
      if n = 0 \<or> n > mx
      then (Inl (PlatformError ''active_cores outside 1..=smp::max_cores() for this target''), k)
      else if n > 1 \<and> \<not> supports_smp
      then (Inl (PlatformError ''this target has no cross-core interlock, so it cannot run more than one core''), k)
      else (Inr (), k\<lparr>config := (config k)\<lparr>kc_active_cores := n\<rparr>\<rparr>))"

definition active_cores :: "kernel \<Rightarrow> usize" where
  "active_cores k = kc_active_cores (config k)"

datatype task_id = TaskId u32

definition from_raw :: "u32 \<Rightarrow> task_id" where
  "from_raw r = TaskId r"

fun raw :: "task_id \<Rightarrow> u32" where
  "raw (TaskId i) = i"

definition is_none :: "task_id \<Rightarrow> bool" where
  "is_none i = (raw i = 0)"

definition current_id :: "kernel \<Rightarrow> task_id option" where
  "current_id k = map_option TaskId (current_task_id k)"

section \<open>What the walks see\<close>

text \<open>Folding a function over the control blocks at the addresses \<open>ps\<close>.\<close>

definition fold_at :: "tcb_heap \<Rightarrow> (ptr \<Rightarrow> tcb \<Rightarrow> 's \<Rightarrow> 's) \<Rightarrow> ptr list \<Rightarrow> 's \<Rightarrow> 's" where
  "fold_at h f ps s = fold (\<lambda>p. f p (the (rdh h p))) ps s"

lemma each_loop_chain:
  assumes "chain h p (qs @ [start])" and "start \<notin> set qs" and "rdh h p \<noteq> None"
  shows "each_loop h f start p s = Some (fold_at h f (p # qs) s)"
  using assms
proof (induction qs arbitrary: p s)
  case Nil
  then obtain t where "rdh h p = Some t" "nxt t = start" by (auto simp: link_def)
  then show ?case by (simp add: each_loop.simps [of h f start p] fold_at_def)
next
  case (Cons q qs)
  then obtain t u where t: "rdh h p = Some t" "nxt t = q" "rdh h q = Some u" by (auto simp: link_def)
  then have "q \<noteq> start" "q \<noteq> null_ptr" using Cons.prems by auto
  moreover have "each_loop h f start q (f p t s) = Some (fold_at h f (q # qs) (f p t s))"
    using Cons.prems t by (intro Cons.IH) auto
  ultimately show ?case
    using t by (subst each_loop.simps) (simp add: fold_at_def)
qed

lemma each_loop_ring:
  assumes "ring h (start # qs)"
  shows "each_loop h f start start s = Some (fold_at h f (start # qs) s)"
proof (rule each_loop_chain)
  show "rdh h start \<noteq> None" using ring_succ [OF assms] by auto
qed (use assms in auto)

text \<open>The ring a child of a group belongs to, from that child on.\<close>

lemma kid_ring:
  assumes "tree_at h p T" and "GroupN g (us @ C # vs) \<in> set (subs T)"
  shows "ring h (map addr (C # vs @ us))"
proof -
  from tree_at_sub [OF assms] obtain q where "tree_at h q (GroupN g (us @ C # vs))" by blast
  then have "ring h (map addr us @ map addr (C # vs))" by (auto simp: ring_at_def)
  from ring_rotate [OF this] show ?thesis by simp
qed

lemma ring_hd_rd:
  assumes "ring (heap k) (a # qs)"
  shows "\<exists>t. rd k a = Some t \<and> nxt t \<noteq> 0 \<and> a \<noteq> 0"
proof -
  obtain t where t: "rdh (heap k) a = Some t" using ring_succ [OF assms] by blast
  then have "nxt t \<noteq> 0" by (intro ring_nxt_nonnull [OF assms, of a]) simp_all
  moreover have "a \<noteq> 0" using rdh_SomeD [OF t] by simp
  ultimately show ?thesis using t by (simp add: rd_def)
qed

lemma for_each_from_current:
  assumes T: "tree_ok k T" and G: "GroupN g (us @ C # vs) \<in> set (subs T)"
    and cur: "current_tcb k = addr C"
  shows "for_each_task f k s =
    Some (fold_at (heap k) (\<lambda>p t. f (info_of (addr C) p t)) (map addr (C # vs @ us)) s)"
proof -
  have "tree_at (heap k) null_ptr T" using T by (simp add: tree_ok_def)
  from kid_ring [OF this G] have R: "ring (heap k) (addr C # map addr (vs @ us))" by (simp only: list.map append_Cons)
  from ring_hd_rd [OF R] obtain t where t: "rd k (addr C) = Some t" "nxt t \<noteq> 0" "addr C \<noteq> 0" by blast
  show ?thesis
    using t cur by (simp only: for_each_task_def k_current_def tcb_is_linked_def Let_def if_False if_True
        bind.bind_lunit not_False_eq_True not_True_eq_False each_loop_ring [OF R] list.map simp_thms)
qed

lemma fold_count:
  fixes n :: u32
  assumes "\<forall>p\<in>set ps. rd k p \<noteq> None"
  shows "fold_at (heap k) (\<lambda>p t n. if st t = Blocked then n + 1 else n) ps n =
      n + of_nat (length (filter (\<lambda>p. \<exists>t. rd k p = Some t \<and> st t = Blocked) ps))"
  using assms
  by (induction ps arbitrary: n) (auto simp: fold_at_def rd_def)

lemma blocked_threads_root:
  assumes T: "tree_ok k T" and kids: "kids T = us @ C # vs" and h: "ring_head k = addr C"
  shows "blocked_threads k =
    Some (of_nat (length (filter (\<lambda>D. \<exists>t. rd k (addr D) = Some t \<and> st t = Blocked) (kids T))))"
proof -
  define P where "P = (\<lambda>p. \<exists>t. rd k p = Some t \<and> st t = Blocked)"
  obtain ts where ts: "T = GroupN (root k) ts" and at: "tree_at (heap k) null_ptr T"
    using T by (auto simp: tree_ok_def)
  then have G: "GroupN (root k) (us @ C # vs) \<in> set (subs T)" using kids by simp
  from kid_ring [OF at G] have R: "ring (heap k) (addr C # map addr (vs @ us))" by (simp only: list.map append_Cons)
  have "addr C \<noteq> 0" using ring_hd_rd [OF R] by blast
  moreover have "\<forall>p\<in>set (addr C # map addr (vs @ us)). rd k p \<noteq> None"
    using ring_member [OF R] unfolding rd_def by blast
  ultimately have "blocked_threads k =
      Some (0 + of_nat (length (filter P (addr C # map addr (vs @ us)))))"
    unfolding blocked_threads_def h Let_def P_def by (simp only: each_loop_ring [OF R] fold_count if_False)
  moreover have "length (filter P (addr C # map addr (vs @ us))) = length (filter (\<lambda>D. P (addr D)) (kids T))"
    unfolding kids by (simp add: filter_map o_def)
  ultimately show ?thesis by (simp add: P_def)
qed

lemma one_less_word: "(1::u32) < n \<longleftrightarrow> n \<noteq> 0 \<and> n \<noteq> 1"
proof -
  have "n \<noteq> 1 \<longleftrightarrow> unat n \<noteq> 1" "n \<noteq> 0 \<longleftrightarrow> unat n \<noteq> 0" by (simp_all add: word_unat_eq_iff)
  then show ?thesis unfolding word_less_nat_alt by (simp del: unsigned_eq_0_iff) arith
qed

lemma set_active_cores_ok:
  assumes "set_active_cores m smp n k = (r, k')"
  shows "r = Inr () \<longleftrightarrow> n \<noteq> 0 \<and> n \<le> max m 1 \<and> (n = 1 \<or> smp)"
    and "r = Inr () \<Longrightarrow> active_cores k' = n" and "r \<noteq> Inr () \<Longrightarrow> k' = k"
  using assms unfolding set_active_cores_def active_cores_def Let_def not_less [symmetric] one_less_word
  by (simp_all split: if_splits) auto

text \<open>The statistics are always available: the walk over the free list ends.\<close>

lemma stats_walk_ok:
  assumes "fchain (hdrs a) p hs" and "unat n < 1000000"
  shows "\<exists>m. stats_walk a n p = Some m \<and> unat m = min (unat n + length hs) 1000001"
  using assms
proof (induction hs arbitrary: p n)
  case Nil
  then have "stats_walk a n p = Some n" by (subst stats_walk.simps) simp
  then show ?case using Nil.prems by simp
next
  case (Cons h hs)
  then obtain b where b: "p \<noteq> 0" "hdrs a p = Some b" "fchain (hdrs a) (blk_next b) hs" by auto
  have n1: "unat (n + 1) = unat n + 1" using Cons.prems by (intro unat_Suc_small) simp
  show ?case
  proof (cases "unat n + 1 < 1000000")
    case True
    then have "\<not> n + 1 > 1000000" using n1 by (simp add: word_less_nat_alt)
    moreover from Cons.IH [OF b(3), of "n + 1"] n1 True
    obtain m where "stats_walk a (n + 1) (blk_next b) = Some m" "unat m = min (unat n + 1 + length hs) 1000001"
      by auto
    ultimately show ?thesis using b by (intro exI [of _ m]) (simp add: stats_walk.simps [of a n p])
  next
    case False
    then have n2: "unat (n + 1) = 1000000" using n1 Cons.prems by simp
    then have "\<not> n + 1 > 1000000" by (simp add: word_less_nat_alt)
    then have e: "stats_walk a n p = stats_walk a (n + 1) (blk_next b)"
      using b by (simp add: stats_walk.simps [of a n p])
    show ?thesis
    proof (cases hs)
      case Nil
      then show ?thesis using b e n2 False Cons.prems by (simp add: stats_walk.simps [of a "n + 1"])
    next
      case (Cons g gs)
      then obtain c where c: "blk_next b \<noteq> 0" "hdrs a (blk_next b) = Some c" using b(3) by auto
      have n3: "unat (n + 1 + 1) = 1000001" using n2 unat_Suc_small [of "n + 1"] by simp
      then have "n + 1 + 1 > 1000000" by (simp add: word_less_nat_alt)
      then have "stats_walk a n p = Some (n + 1 + 1)"
        using e c by (simp add: stats_walk.simps [of a "n + 1"])
      moreover have "min (unat n + length (h # hs)) 1000001 = 1000001"
        using False \<open>unat n < 1000000\<close> Cons by simp
      ultimately show ?thesis using n3 by simp
    qed
  qed
qed

lemma stats_ok:
  assumes "arena_ok (karena k) fs"
  shows "\<exists>s. stats P k = Some s \<and> ss_slice_ns s = slice_ns P k \<and> ss_ticks s = tick_count k
    \<and> unat (free_blocks (ss_arena s)) = min (length fs) 1000001"
proof -
  have "fchain (hdrs (karena k)) (ar_free (karena k)) fs" using assms by (simp add: arena_ok_def)
  from stats_walk_ok [OF this, of 0] obtain m where
    "stats_walk (karena k) 0 (ar_free (karena k)) = Some m" "unat m = min (length fs) 1000001" by auto
  then show ?thesis
    by (simp add: stats_def arena_statistics_def slice_ns_def get_config_def tick_count_def Let_def)
qed

end
