(* ===== verification/RkSync.thy ===== *)
theory RkSync
  imports RkQuery
begin

text \<open>
  \<^verbatim>\<open>src/sync.rs\<close>: sleeping mutexes, the lock-order rule, timeouts and the back-off
  recovery.  A lock is its header: its id and its owner word.  The two stores to the owner
  word of the source stand inside line comments (lines 191 and 337), so no operation here
  writes it: it keeps the 0 of \<^verbatim>\<open>Mutex::new\<close>.  The lemmas show the order discipline, which is
  what the code does enforce, and that a lock shuts nobody out.

  A loop that blocks is given by one turn of its body: \<open>Again\<close> when the task has blocked and
  will run the body again when it is next on the CPU, \<open>Done r\<close> when the function returns \<open>r\<close>.
\<close>

datatype 'r progress = Again | Done 'r

section \<open>Locks\<close>

definition lock_id_new :: "u32 \<Rightarrow> u32" where
  "lock_id_new r = r"

datatype lock_error =
    Timeout
  | OrderViolation u32 u32
  | AlreadyOwnedBySelf
  | NotRunning
  | TooManyHeldLocks

definition lock_error_display :: "lock_error \<Rightarrow> string" where
  "lock_error_display e = (case e of
     Timeout \<Rightarrow> ''lock acquisition timed out''
   | OrderViolation held requested \<Rightarrow> ''lock order violation: holding '' @ fmt_dec (unat held) @
       '' while acquiring '' @ fmt_dec (unat requested) @ '' (acquire in increasing LockId order)''
   | AlreadyOwnedBySelf \<Rightarrow> ''lock already held by this task''
   | NotRunning \<Rightarrow> ''scheduler not running''
   | TooManyHeldLocks \<Rightarrow> ''cannot acquire: already holding the maximum of '' @
       fmt_dec MAX_HELD_LOCKS @ '' locks'')"

record mutex_header =
  mh_id :: u32
  mh_owner :: u32

text \<open>The statics: the id counter, and the eight registry slots.\<close>

record sync_statics =
  next_lock_id :: u32
  registry :: "mutex_header option list"

definition sync_init :: sync_statics where
  "sync_init = \<lparr>next_lock_id = 1, registry = replicate 8 None\<rparr>"

definition alloc_lock_id :: "sync_statics \<Rightarrow> u32 \<times> sync_statics" where
  "alloc_lock_id s = (next_lock_id s, s\<lparr>next_lock_id := next_lock_id s + 1\<rparr>)"

definition mutex_with_id :: "u32 \<Rightarrow> mutex_header" where
  "mutex_with_id i = \<lparr>mh_id = i, mh_owner = 0\<rparr>"

definition mutex_new :: "sync_statics \<Rightarrow> mutex_header \<times> sync_statics" where
  "mutex_new s = (let (i, s) = alloc_lock_id s in (mutex_with_id i, s))"

definition is_free :: "mutex_header \<Rightarrow> bool" where
  "is_free m = (mh_owner m = 0)"

section \<open>The held-lock list\<close>

definition held_check_order :: "u32 \<Rightarrow> kernel \<Rightarrow> (lock_error + unit) option" where
  "held_check_order i k =
     (let me = k_current k in
      if me = null_ptr then Some (Inr ())
      else do {
        t \<leftarrow> rd k me;
        let n = unat (held_count t);
        if n = 0 then Some (Inr ())
        else if n \<ge> MAX_HELD_LOCKS then Some (Inl TooManyHeldLocks)
        else let l = held_locks t ! (n - 1) in
          if i \<le> l then Some (Inl (OrderViolation l i)) else Some (Inr ())
      })"

definition held_push :: "u32 \<Rightarrow> kernel \<Rightarrow> kernel option" where
  "held_push i k =
     (let me = k_current k in
      if me = null_ptr then Some k
      else do {
        t \<leftarrow> rd k me;
        let n = unat (held_count t);
        if n < MAX_HELD_LOCKS
        then upd (\<lambda>t. t\<lparr>held_locks := (held_locks t)[n := i], held_count := of_nat (n + 1)\<rparr>) me k
        else Some k
      })"

text \<open>The two loops of \<open>held_remove\<close>: find the entry, shift the rest down by one.\<close>

function shift_down :: "u32 list \<Rightarrow> nat \<Rightarrow> nat \<Rightarrow> u32 list" where
  "shift_down ls j n = (if j + 1 < n then shift_down (ls[j := ls ! (j + 1)]) (j + 1) n else ls)"
  by pat_completeness auto
termination by (relation "measure (\<lambda>(ls, j, n). n - j)") auto

function find_held :: "u32 list \<Rightarrow> u32 \<Rightarrow> nat \<Rightarrow> nat \<Rightarrow> nat option" where
  "find_held ls i j n =
     (if j < n then (if ls ! j = i then Some j else find_held ls i (j + 1) n) else None)"
  by pat_completeness auto
termination by (relation "measure (\<lambda>(ls, i, j, n). n - j)") auto

declare shift_down.simps [simp del] find_held.simps [simp del]

definition held_remove :: "u32 \<Rightarrow> kernel \<Rightarrow> kernel option" where
  "held_remove i k =
     (let me = k_current k in
      if me = null_ptr then Some k
      else do {
        t \<leftarrow> rd k me;
        let n = min (unat (held_count t)) MAX_HELD_LOCKS;
        (case find_held (held_locks t) i 0 n of
           None \<Rightarrow> Some k
         | Some j \<Rightarrow> upd (\<lambda>t. t\<lparr>held_locks := shift_down (held_locks t) j n,
                               held_count := held_count t - 1\<rparr>) me k)
      })"

definition held_clear :: "kernel \<Rightarrow> kernel option" where
  "held_clear k =
     (if k_current k = null_ptr then Some k else upd (\<lambda>t. t\<lparr>held_count := 0\<rparr>) (k_current k) k)"

definition get_held_count :: "kernel \<Rightarrow> nat option" where
  "get_held_count k =
     (if k_current k = null_ptr then Some 0
      else do { t \<leftarrow> rd k (k_current k); Some (unat (held_count t)) })"

section \<open>Acquiring and releasing\<close>

definition try_acquire :: "mutex_header \<Rightarrow> kernel \<Rightarrow> ((lock_error + bool) \<times> kernel) option" where
  "try_acquire m k = do {
     me \<leftarrow> current_task_id k;
     if me = 0 then Some (Inl NotRunning, k)
     else if mh_owner m = me then Some (Inl AlreadyOwnedBySelf, k)
     else if mh_owner m \<noteq> 0 then Some (Inr False, k)
     else do {
       r \<leftarrow> held_check_order (mh_id m) k;
       (case r of
          Inl e \<Rightarrow> Some (Inl e, k)
        | Inr _ \<Rightarrow> do { k \<leftarrow> held_push (mh_id m) k; Some (Inr True, k) })
     }
   }"

definition try_lock :: "mutex_header \<Rightarrow> kernel \<Rightarrow> ((lock_error + unit) \<times> kernel) option" where
  "try_lock m k = do {
     (r, k) \<leftarrow> try_acquire m k;
     Some ((case r of Inl e \<Rightarrow> Inl e | Inr True \<Rightarrow> Inr () | Inr False \<Rightarrow> Inl Timeout), k)
   }"

definition lock_turn :: "mutex_header \<Rightarrow> kernel \<Rightarrow> ((lock_error + unit) progress \<times> kernel) option" where
  "lock_turn m k = do {
     (r, k) \<leftarrow> try_acquire m k;
     (case r of
        Inl e \<Rightarrow> Some (Done (Inl e), k)
      | Inr True \<Rightarrow> Some (Done (Inr ()), k)
      | Inr False \<Rightarrow> do {
          (out, k) \<leftarrow> mark_blocked_locked (mh_id m) 0 k;
          Some (if out = OutNoCurrentTask then Done (Inl NotRunning) else Again, k)
        })
   }"

text \<open>Milliseconds to slice ticks.\<close>

definition ms_to_ticks :: "port \<Rightarrow> u64 \<Rightarrow> kernel \<Rightarrow> u64" where
  "ms_to_ticks P ms k =
     (let ns = slice_ns P k in if ns = 0 then ms else div_ceil (sat_mul ms 1000000) ns)"

definition lock_deadline :: "port \<Rightarrow> u64 \<Rightarrow> kernel \<Rightarrow> u64" where
  "lock_deadline P timeout_ms k = deadline_after_ticks (ms_to_ticks P timeout_ms k) k"

definition try_lock_for_turn ::
  "u64 \<Rightarrow> mutex_header \<Rightarrow> kernel \<Rightarrow> ((lock_error + unit) progress \<times> kernel) option" where
  "try_lock_for_turn deadline m k = do {
     (r, k) \<leftarrow> try_acquire m k;
     (case r of
        Inl e \<Rightarrow> Some (Done (Inl e), k)
      | Inr True \<Rightarrow> Some (Done (Inr ()), k)
      | Inr False \<Rightarrow>
          if tick_count k \<ge> deadline then Some (Done (Inl Timeout), k)
          else do {
            (out, k) \<leftarrow> mark_blocked_locked (mh_id m) deadline k;
            Some (if out = OutNoCurrentTask then Done (Inl NotRunning) else Again, k)
          })
   }"

definition release_shim :: "mutex_header \<Rightarrow> kernel \<Rightarrow> kernel option" where
  "release_shim m k = do {
     k \<leftarrow> held_remove (mh_id m) k;
     wake_blocked_on (mh_id m) k
   }"

definition unlock :: "mutex_header \<Rightarrow> kernel \<Rightarrow> kernel option" where
  "unlock m k = release_shim m k"

section \<open>Recovery\<close>

text \<open>\<open>register\<close> fills the first empty slot; a ninth lock is dropped silently.\<close>

fun fill_slot :: "mutex_header \<Rightarrow> mutex_header option list \<Rightarrow> mutex_header option list" where
  "fill_slot m [] = []"
| "fill_slot m (None # ss) = Some m # ss"
| "fill_slot m (Some h # ss) = Some h # fill_slot m ss"

definition register :: "mutex_header \<Rightarrow> sync_statics \<Rightarrow> sync_statics" where
  "register m s = s\<lparr>registry := fill_slot m (registry s)\<rparr>"

fun find_slot :: "u32 \<Rightarrow> mutex_header option list \<Rightarrow> mutex_header option" where
  "find_slot i [] = None"
| "find_slot i (None # ss) = find_slot i ss"
| "find_slot i (Some h # ss) = (if mh_id h = i then Some h else find_slot i ss)"

definition registered :: "u32 \<Rightarrow> sync_statics \<Rightarrow> mutex_header option" where
  "registered i s = find_slot i (registry s)"

fun release_each :: "sync_statics \<Rightarrow> u32 list \<Rightarrow> nat \<Rightarrow> kernel \<Rightarrow> (nat \<times> kernel) option" where
  "release_each s [] n k = Some (n, k)"
| "release_each s (i # is) n k = (case registered i s of
     None \<Rightarrow> release_each s is n k
   | Some h \<Rightarrow> do { k \<leftarrow> release_shim h k; release_each s is (n + 1) k })"

definition release_all_held_locks :: "sync_statics \<Rightarrow> kernel \<Rightarrow> (nat \<times> kernel) option" where
  "release_all_held_locks s k =
     (if k_current k = null_ptr then release_each s [] 0 k
      else do {
        t \<leftarrow> rd k (k_current k);
        let n = min (unat (held_count t)) MAX_HELD_LOCKS;
        k \<leftarrow> held_clear k;
        release_each s (take n (held_locks t)) 0 k
      })"

definition backoff :: "u32 \<Rightarrow> nat \<Rightarrow> kernel \<Rightarrow> kernel option" where
  "backoff attempt jitter k =
     sleep_ticks (push_bit (unat (min attempt 6)) 1 + of_nat (jitter mod 3)) k"

text \<open>One turn of \<open>lock_with_backoff\<close>: the caller's sequence \<open>attempt\<close>, and on a timeout the
  recovery, which sleeps.  The number of tries so far is returned for the next turn.\<close>

definition lock_with_backoff_turn ::
  "sync_statics \<Rightarrow> u64 \<Rightarrow> u32 \<Rightarrow> (kernel \<Rightarrow> ((lock_error + 'r) \<times> kernel) option) \<Rightarrow> u32 \<Rightarrow> kernel
     \<Rightarrow> ((lock_error + 'r) progress \<times> u32 \<times> kernel) option" where
  "lock_with_backoff_turn s timeout_ms attempts attempt tries k = do {
     (r, k) \<leftarrow> attempt k;
     (case r of
        Inr ok \<Rightarrow> Some (Done (Inr ok), tries, k)
      | Inl e \<Rightarrow>
          if e = Timeout \<and> tries + 1 < attempts then do {
            (released, k) \<leftarrow> release_all_held_locks s k;
            k \<leftarrow> backoff tries (released + unat (ucast timeout_ms :: usize) mod 3) k;
            Some (Again, tries + 1, k)
          }
          else Some (Done (Inl e), tries, k))
   }"

section \<open>The list as a list\<close>

definition held :: "tcb \<Rightarrow> u32 list" where
  "held t = take (unat (held_count t)) (held_locks t)"

definition held_ok :: "tcb \<Rightarrow> bool" where
  "held_ok t = (length (held_locks t) = MAX_HELD_LOCKS \<and> unat (held_count t) \<le> MAX_HELD_LOCKS \<and>
     sorted_wrt (<) (held t))"


text \<open>Everything of a control block but its held-lock list.\<close>

definition no_held :: "tcb \<Rightarrow> tcb" where
  "no_held t = t\<lparr>held_locks := [], held_count := 0\<rparr>"

lemma length_shift_down [simp]: "length (shift_down ls j n) = length ls"
  by (induction ls j n rule: shift_down.induct) (subst shift_down.simps, simp)

lemma shift_down_nth:
  "n \<le> length ls \<Longrightarrow> i < length ls \<Longrightarrow>
   shift_down ls j n ! i = (if j \<le> i \<and> i + 1 < n then ls ! (i + 1) else ls ! i)"
proof (induction ls j n rule: shift_down.induct)
  case (1 ls j n)
  show ?case
  proof (cases "j + 1 < n")
    case True
    then have "shift_down ls j n = shift_down (ls[j := ls ! (j + 1)]) (j + 1) n"
      by (subst shift_down.simps) simp
    then show ?thesis using 1 True by (auto simp: nth_list_update)
  next
    case False
    then show ?thesis by (subst shift_down.simps) auto
  qed
qed

lemma take_shift_down:
  assumes "j < n" and "n \<le> length ls"
  shows "take (n - 1) (shift_down ls j n) = take j ls @ drop (Suc j) (take n ls)"
proof (rule nth_equalityI)
  show "length (take (n - 1) (shift_down ls j n)) = length (take j ls @ drop (Suc j) (take n ls))"
    using assms by simp
next
  fix i
  assume "i < length (take (n - 1) (shift_down ls j n))"
  then have i: "i + 1 < n" using assms by simp
  show "take (n - 1) (shift_down ls j n) ! i = (take j ls @ drop (Suc j) (take n ls)) ! i"
  proof (cases "i < j")
    case True
    then show ?thesis using assms i by (simp add: shift_down_nth nth_append)
  next
    case False
    then have "(take j ls @ drop (Suc j) (take n ls)) ! i = ls ! (i + 1)"
      using assms i by (simp add: nth_append)
    then show ?thesis using assms i False by (simp add: shift_down_nth)
  qed
qed

lemma find_held_Some:
  "find_held ls i j n = Some p \<Longrightarrow> j \<le> p \<and> p < n \<and> ls ! p = i \<and> (\<forall>q. j \<le> q \<longrightarrow> q < p \<longrightarrow> ls ! q \<noteq> i)"
proof (induction "n - j" arbitrary: j)
  case 0
  then show ?case by (simp add: find_held.simps [of ls i j n])
next
  case (Suc d)
  have jn: "j < n" using Suc.hyps(2) by simp
  show ?case
  proof (cases "ls ! j = i")
    case True
    then show ?thesis using Suc.prems jn by (auto simp: find_held.simps [of ls i j n])
  next
    case False
    then have "find_held ls i (j + 1) n = Some p"
      using Suc.prems jn by (simp add: find_held.simps [of ls i j n])
    from Suc.hyps(1) [OF _ this] Suc.hyps(2)
    have *: "j + 1 \<le> p" "p < n" "ls ! p = i" "\<forall>q. j + 1 \<le> q \<longrightarrow> q < p \<longrightarrow> ls ! q \<noteq> i" by auto
    have "ls ! q \<noteq> i" if "j \<le> q" "q < p" for q
      using *(4) False that by (cases "q = j") auto
    with * show ?thesis by auto
  qed
qed

lemma find_held_None: "find_held ls i j n = None \<Longrightarrow> j \<le> q \<Longrightarrow> q < n \<Longrightarrow> ls ! q \<noteq> i"
proof (induction "n - j" arbitrary: j)
  case (Suc d)
  then have jn: "ls ! j \<noteq> i" "find_held ls i (j + 1) n = None"
    by (simp_all add: find_held.simps [of ls i j n] split: if_splits)
  from Suc.hyps(1) [OF _ this(2)] Suc.hyps(2) Suc.prems jn(1) show ?case
    by (cases "q = j") auto
qed simp

lemma remove1_first:
  "p < length xs \<Longrightarrow> xs ! p = x \<Longrightarrow> \<forall>q<p. xs ! q \<noteq> x \<Longrightarrow> remove1 x xs = take p xs @ drop (Suc p) xs"
proof (induction xs arbitrary: p)
  case (Cons y ys)
  show ?case
  proof (cases p)
    case 0
    then show ?thesis using Cons.prems by simp
  next
    case (Suc q)
    then have "y \<noteq> x" "\<forall>r<q. ys ! r \<noteq> x" using Cons.prems(3) by (force, fastforce)
    then show ?thesis using Suc Cons by simp
  qed
qed simp

text \<open>What \<open>held_remove\<close> does to the list.\<close>

lemma find_held_list:
  assumes "n \<le> length ls"
  shows "case find_held ls i 0 n of
      None \<Rightarrow> i \<notin> set (take n ls)
    | Some j \<Rightarrow> j < n \<and> take (n - 1) (shift_down ls j n) = remove1 i (take n ls)"
proof (cases "find_held ls i 0 n")
  case None
  then show ?thesis using assms find_held_None [OF None] by (auto simp: in_set_conv_nth)
next
  case (Some j)
  then have j: "j < n" "ls ! j = i" "\<forall>q<j. ls ! q \<noteq> i" using find_held_Some [OF Some] by auto
  then have "remove1 i (take n ls) = take j (take n ls) @ drop (Suc j) (take n ls)"
    using assms by (intro remove1_first) auto
  then show ?thesis using Some j assms take_shift_down [of j n ls] by (simp add: min_def)
qed

section \<open>The order discipline\<close>

lemma held_ok_length: "held_ok t \<Longrightarrow> length (held t) = unat (held_count t)"
  by (simp add: held_ok_def held_def)

lemma held_last: "held_ok t \<Longrightarrow> held t \<noteq> [] \<Longrightarrow> last (held t) = held_locks t ! (unat (held_count t) - 1)"
  by (auto simp: held_ok_def held_def last_conv_nth min_def)

lemma sorted_wrt_last: "sorted_wrt (<) xs \<Longrightarrow> x \<in> set xs \<Longrightarrow> x \<le> last xs" for xs :: "'a::linorder list"
  by (induction xs) (auto simp: less_imp_le)

lemma sorted_wrt_snoc:
  "sorted_wrt (<) xs \<Longrightarrow> xs = [] \<or> last xs < x \<Longrightarrow> sorted_wrt (<) (xs @ [x])" for xs :: "'a::linorder list"
  by (auto simp: sorted_wrt_append dest: sorted_wrt_last)

lemma sorted_wrt_remove1: "sorted_wrt (<) xs \<Longrightarrow> sorted_wrt (<) (remove1 x xs)" for xs :: "'a::linorder list"
  by (induction xs) (auto dest: notin_set_remove1 in_set_remove1 [THEN iffD1] set_remove1_subset [THEN subsetD])

text \<open>\<open>held_push\<close> below the capacity.\<close>

definition pushed :: "u32 \<Rightarrow> tcb \<Rightarrow> tcb" where
  "pushed i t = t\<lparr>held_locks := (held_locks t)[unat (held_count t) := i],
     held_count := of_nat (unat (held_count t) + 1)\<rparr>"

lemma pushed_ok:
  assumes "held_ok t" and "length (held t) < MAX_HELD_LOCKS" and "held t = [] \<or> last (held t) < i"
  shows "held (pushed i t) = held t @ [i]" and "held_ok (pushed i t)"
    and "no_held (pushed i t) = no_held t"
proof -
  have n: "unat (held_count t) < 4" "length (held_locks t) = 4"
    using assms held_ok_length [of t] by (simp_all add: held_ok_def MAX_HELD_LOCKS_def)
  then have c: "unat (held_count (pushed i t)) = unat (held_count t) + 1"
    using unat_Suc_small [of "held_count t"] by (simp add: pushed_def add.commute)
  show h: "held (pushed i t) = held t @ [i]"
    unfolding held_def c using n by (simp add: pushed_def take_Suc_conv_app_nth)
  show "held_ok (pushed i t)"
    unfolding held_ok_def h c using assms n sorted_wrt_snoc [of "held t" i]
    by (simp add: held_ok_def MAX_HELD_LOCKS_def pushed_def)
  show "no_held (pushed i t) = no_held t"
    by (simp add: no_held_def pushed_def)
qed

lemma held_push_run:
  "current_tcb k = me \<Longrightarrow> rd k me = Some t \<Longrightarrow> unat (held_count t) < MAX_HELD_LOCKS \<Longrightarrow>
   held_push i k = Some (put me (pushed i t) k)"
  using rd_null [of k] by (auto simp: held_push_def k_current_def pushed_def upd_put)

text \<open>\<open>held_remove\<close>.\<close>

lemma held_remove_run:
  assumes "current_tcb k = me" and t: "rd k me = Some t" and ok: "held_ok t"
  shows "\<exists>u. held_remove i k = Some (put me u k) \<and> held u = remove1 i (held t) \<and> held_ok u
    \<and> no_held u = no_held t"
proof -
  let ?n = "unat (held_count t)"
  have n: "min ?n MAX_HELD_LOCKS = ?n" "?n \<le> length (held_locks t)"
    using ok by (simp_all add: held_ok_def)
  have me: "me \<noteq> 0" using t by auto
  show ?thesis
  proof (cases "find_held (held_locks t) i 0 ?n")
    case None
    then have "i \<notin> set (held t)" using find_held_list [OF n(2), of i] by (simp add: held_def)
    moreover have "held_remove i k = Some (put me t k)"
      using None assms n me upd_trivial [OF t] by (simp add: held_remove_def k_current_def put_def)
    ultimately show ?thesis using ok by (intro exI [of _ t]) (simp add: remove1_idem)
  next
    case (Some j)
    let ?u = "t\<lparr>held_locks := shift_down (held_locks t) j ?n, held_count := held_count t - 1\<rparr>"
    have j: "j < ?n" "take (?n - 1) (held_locks ?u) = remove1 i (held t)"
      using find_held_list [OF n(2), of i] Some by (simp_all add: held_def)
    have c: "unat (held_count ?u) = ?n - 1"
      using j(1) by (simp add: unat_sub word_le_nat_alt)
    have "held ?u = take (unat (held_count ?u)) (held_locks ?u)" by (rule held_def)
    then have h: "held ?u = remove1 i (held t)" unfolding c j(2) .
    have "held_ok ?u"
      unfolding held_ok_def h c using ok sorted_wrt_remove1 [of "held t" i] by (auto simp: held_ok_def)
    moreover have "held_remove i k = Some (put me ?u k)"
      using Some assms n me by (simp add: held_remove_def k_current_def upd_put)
    ultimately show ?thesis using h by (intro exI [of _ ?u]) (simp add: no_held_def)
  qed
qed

text \<open>Whether the order rule lets a task holding \<open>is\<close> take lock \<open>i\<close>, and its verdict.\<close>

definition order_verdict :: "u32 list \<Rightarrow> u32 \<Rightarrow> lock_error + unit" where
  "order_verdict is i =
     (if is = [] then Inr ()
      else if length is = MAX_HELD_LOCKS then Inl TooManyHeldLocks
      else if i \<le> last is then Inl (OrderViolation (last is) i) else Inr ())"

lemma held_check_order_run:
  assumes "current_tcb k = me" and t: "rd k me = Some t" and ok: "held_ok t"
  shows "held_check_order i k = Some (order_verdict (held t) i)"
proof -
  have me: "me \<noteq> 0" using t by auto
  have l: "length (held t) = unat (held_count t)" "unat (held_count t) \<le> MAX_HELD_LOCKS"
    using ok held_ok_length by (simp_all add: held_ok_def)
  show ?thesis
  proof (cases "held t = []")
    case True
    then show ?thesis using assms me l by (simp add: held_check_order_def k_current_def order_verdict_def)
  next
    case False
    then have "0 < length (held t)" by simp
    then have "unat (held_count t) \<noteq> 0" using l by linarith
    then show ?thesis
      using assms me l False held_last [OF ok False]
      by (simp add: held_check_order_def k_current_def order_verdict_def Let_def)
  qed
qed

lemma current_task_id_run: "rd k (current_tcb k) = Some t \<Longrightarrow> current_task_id k = Some (tid t)"
  by (cases "current_tcb k = 0") (simp_all add: current_task_id_def k_current_def)

text \<open>A running task's attempt on a lock whose owner word is 0, in every case.\<close>

lemma try_acquire_run:
  assumes me: "current_tcb k = me" and t: "rd k me = Some t" and ok: "held_ok t" and i: "tid t \<noteq> 0"
    and fresh: "mh_owner m = 0"
  shows "try_acquire m k = Some (case order_verdict (held t) (mh_id m) of
      Inl e \<Rightarrow> (Inl e, k)
    | Inr _ \<Rightarrow> (Inr True, put me (pushed (mh_id m) t) k))"
proof -
  have c: "current_task_id k = Some (tid t)" by (rule current_task_id_run) (simp add: me t)
  have l: "length (held t) = unat (held_count t)" "unat (held_count t) \<le> MAX_HELD_LOCKS"
    using ok held_ok_length by (simp_all add: held_ok_def)
  show ?thesis
  proof (cases "order_verdict (held t) (mh_id m)")
    case (Inl e)
    then show ?thesis
      using c i fresh held_check_order_run [OF me t ok] by (simp add: try_acquire_def)
  next
    case (Inr x)
    then have "unat (held_count t) < MAX_HELD_LOCKS"
      using l by (auto simp: order_verdict_def MAX_HELD_LOCKS_def split: if_splits)
    then show ?thesis
      using c i fresh Inr held_check_order_run [OF me t ok] held_push_run [OF me t]
      by (simp add: try_acquire_def)
  qed
qed

lemma verdict_ok:
  assumes "held_ok t" and "order_verdict (held t) i = Inr ()"
  shows "length (held t) < MAX_HELD_LOCKS" and "held t = [] \<or> last (held t) < i"
  using assms held_ok_length [of t]
  by (auto simp: order_verdict_def held_ok_def MAX_HELD_LOCKS_def split: if_splits)

text \<open>A lock never makes anyone wait: one turn of \<open>lock\<close> always returns.\<close>

lemma lock_turn_run:
  assumes "current_tcb k = me" and "rd k me = Some t" and "held_ok t" and "tid t \<noteq> 0" and "mh_owner m = 0"
  shows "lock_turn m k = Some (case order_verdict (held t) (mh_id m) of
      Inl e \<Rightarrow> (Done (Inl e), k)
    | Inr _ \<Rightarrow> (Done (Inr ()), put me (pushed (mh_id m) t) k))"
  using try_acquire_run [OF assms] by (simp add: lock_turn_def split: sum.splits)

text \<open>Releasing: the entry is dropped, and the visited waiters of the lock are made ready.\<close>

lemma shape_no_held: "no_held u = no_held t \<Longrightarrow> shape u = shape t"
  by (cases t; cases u) (simp add: no_held_def shape_def)

lemma release_shim_run:
  assumes T: "tree_ok k T" and me: "current_tcb k = me" and t: "rd k me = Some t" and ok: "held_ok t"
  shows "\<exists>u k1. k1 = put me u k \<and> held u = remove1 (mh_id m) (held t) \<and> held_ok u
    \<and> no_held u = no_held t \<and> tree_ok k1 T
    \<and> release_shim m k = Some (k1\<lparr>heap := map_at (\<lambda>t. if waits_on (mh_id m) t then make_ready t else t)
         (set (visited k1 T)) (heap k1)\<rparr>)"
proof -
  from held_remove_run [OF me t ok, of "mh_id m"] obtain u
    where u: "held_remove (mh_id m) k = Some (put me u k)" "held u = remove1 (mh_id m) (held t)"
      "held_ok u" "no_held u = no_held t" by blast
  have "same_shape (heap k) (heap (put me u k))"
    unfolding heap_put using t by (intro same_shape_upd [of _ _ t] shape_no_held u(4)) (simp add: rd_def)
  then have T1: "tree_ok (put me u k) T" by (rule tree_ok_shape [OF T]) (simp_all add: put_def)
  show ?thesis
    using u T1 wake_blocked_on_effect [OF T1, of "mh_id m"]
    by (intro exI [of _ u] exI [of _ "put me u k"]) (simp add: release_shim_def)
qed

text \<open>The rule's purpose: among tasks whose lists obey it, waiting cannot be circular.\<close>

definition may_wait_for :: "kernel \<Rightarrow> ptr \<Rightarrow> ptr \<Rightarrow> bool" where
  "may_wait_for k p q = (\<exists>t u i. rd k p = Some t \<and> rd k q = Some u \<and> i \<in> set (held u) \<and>
     order_verdict (held t) i = Inr ())"

definition rank :: "kernel \<Rightarrow> ptr \<Rightarrow> nat" where
  "rank k p = (case rd k p of None \<Rightarrow> 0
     | Some t \<Rightarrow> if held t = [] then 0 else Suc (unat (last (held t))))"

lemma may_wait_for_rank:
  assumes "\<forall>p t. rd k p = Some t \<longrightarrow> held_ok t" and "may_wait_for k p q"
  shows "rank k p < rank k q"
proof -
  from assms obtain t u i where t: "rd k p = Some t" "rd k q = Some u" "i \<in> set (held u)"
      "order_verdict (held t) i = Inr ()" "held_ok t" "held_ok u"
    unfolding may_wait_for_def by blast
  from t have "i \<le> last (held u)" "held u \<noteq> []" by (auto simp: held_ok_def dest: sorted_wrt_last)
  moreover have "held t = [] \<or> last (held t) < i" using verdict_ok t by blast
  ultimately show ?thesis
    using t by (auto simp: rank_def word_le_nat_alt word_less_nat_alt)
qed

lemma no_circular_wait:
  assumes "\<forall>p t. rd k p = Some t \<longrightarrow> held_ok t"
  shows "acyclic {(p, q). may_wait_for k p q}"
proof -
  have "{(p, q). may_wait_for k p q} \<subseteq> measure (rank k)"
    using may_wait_for_rank [OF assms] by auto
  then show ?thesis by (rule acyclic_subset [OF wf_acyclic [OF wf_measure]])
qed

text \<open>
  The owner word is tested and never set (its \<^verbatim>\<open>store\<close> stands inside a comment), so a
  lock held by one task is granted to the next one that asks.
\<close>

lemma second_owner:
  assumes p: "rd k p = Some t" "held_ok t" "tid t \<noteq> 0" "order_verdict (held t) (mh_id m) = Inr ()"
    and q: "rd k q = Some u" "held_ok u" "tid u \<noteq> 0" "order_verdict (held u) (mh_id m) = Inr ()"
    and ne: "p \<noteq> q" and ow: "mh_owner m = 0"
  shows "\<exists>k1 k2 t' u'. lock_turn m (k\<lparr>current_tcb := p\<rparr>) = Some (Done (Inr ()), k1)
    \<and> lock_turn m (k1\<lparr>current_tcb := q\<rparr>) = Some (Done (Inr ()), k2)
    \<and> rd k2 p = Some t' \<and> mh_id m \<in> set (held t') \<and> rd k2 q = Some u' \<and> mh_id m \<in> set (held u')"
proof -
  have h: "mh_id m \<in> set (held (pushed (mh_id m) x))" if "held_ok x" "order_verdict (held x) (mh_id m) = Inr ()" for x
    using pushed_ok(1) [OF that(1) verdict_ok [OF that]] by simp
  have r0: "rd (k\<lparr>current_tcb := p\<rparr>) p = Some t" using p(1) by (simp add: rd_def)
  let ?k1 = "put p (pushed (mh_id m) t) (k\<lparr>current_tcb := p\<rparr>)"
  have l1: "lock_turn m (k\<lparr>current_tcb := p\<rparr>) = Some (Done (Inr ()), ?k1)"
    using lock_turn_run [OF _ r0 p(2,3) ow] p(4) by simp
  have p0: "p \<noteq> 0" "q \<noteq> 0" using p(1) q(1) by auto
  have r1: "rd (?k1\<lparr>current_tcb := q\<rparr>) a = (if a = p then Some (pushed (mh_id m) t) else rd k a)" for a
    using p0 by (simp add: rd_def put_def rdh_upd)
  then have "rd (?k1\<lparr>current_tcb := q\<rparr>) q = Some u" using q(1) ne by simp
  then have l2: "lock_turn m (?k1\<lparr>current_tcb := q\<rparr>) = Some (Done (Inr ()),
      put q (pushed (mh_id m) u) (?k1\<lparr>current_tcb := q\<rparr>))"
    using lock_turn_run [OF _ _ q(2,3) ow] q(4) by simp
  have r2: "rd (put q (pushed (mh_id m) u) (?k1\<lparr>current_tcb := q\<rparr>)) a =
      (if a = q then Some (pushed (mh_id m) u) else if a = p then Some (pushed (mh_id m) t) else rd k a)" for a
    using rd_put [OF p0(2)] r1 by simp
  show ?thesis
    by (rule exI [of _ ?k1], rule exI [of _ "put q (pushed (mh_id m) u) (?k1\<lparr>current_tcb := q\<rparr>)"],
        rule exI [of _ "pushed (mh_id m) t"], rule exI [of _ "pushed (mh_id m) u"])
      (use l1 l2 r2 ne h p(2,4) q(2,4) in auto)
qed

end
