(* ===== verification/RkTime.thy ===== *)
theory RkTime
  imports RkSync
begin

text \<open>
  \<^verbatim>\<open>src/time.rs\<close>: durations turned into slice ticks, rounded up, and the sleeps built on
  them.  \<^verbatim>\<open>core::time::Duration\<close> is a number of seconds and of nanoseconds.
\<close>

section \<open>Durations\<close>

datatype duration = Duration (dur_secs: u64) (dur_nanos: u32)

definition as_nanos_u128 :: "duration \<Rightarrow> u128" where
  "as_nanos_u128 d = ucast (dur_secs d) * 1000000000 + ucast (dur_nanos d)"

definition dur_from_secs :: "u64 \<Rightarrow> duration" where
  "dur_from_secs s = Duration s 0"

definition dur_from_millis :: "u64 \<Rightarrow> duration" where
  "dur_from_millis ms = Duration (ms div 1000) (ucast (ms mod 1000) * 1000000)"

definition dur_from_micros :: "u64 \<Rightarrow> duration" where
  "dur_from_micros us = Duration (us div 1000000) (ucast (us mod 1000000) * 1000)"

definition dur_from_nanos :: "u64 \<Rightarrow> duration" where
  "dur_from_nanos ns = Duration (ns div 1000000000) (ucast (ns mod 1000000000))"

section \<open>Ticks\<close>

definition tick_ns :: "port \<Rightarrow> kernel \<Rightarrow> u64 option" where
  "tick_ns P k = map_option ss_slice_ns (stats P k)"

definition ticks_covering :: "u64 \<Rightarrow> duration \<Rightarrow> u64" where
  "ticks_covering ns d =
     (if ns = 0 then 1
      else let want = as_nanos_u128 d; slice = ucast ns :: u128; n = div_ceil want slice in
        if n = 0 then 1
        else if n > ucast (- 1 :: u64) then - 1
        else ucast n)"

definition ticks_for :: "port \<Rightarrow> duration \<Rightarrow> kernel \<Rightarrow> u64 option" where
  "ticks_for P d k = do { ns \<leftarrow> tick_ns P k; Some (ticks_covering ns d) }"

definition now :: "kernel \<Rightarrow> u64" where
  "now k = tick_count k"

definition sleep :: "port \<Rightarrow> duration \<Rightarrow> kernel \<Rightarrow> kernel option" where
  "sleep P d k = do { n \<leftarrow> ticks_for P d k; sleep_ticks n k }"

definition deadline_after :: "port \<Rightarrow> duration \<Rightarrow> kernel \<Rightarrow> u64 option" where
  "deadline_after P d k = do { n \<leftarrow> ticks_for P d k; Some (now k + n) }"

definition deadline_add :: "port \<Rightarrow> u64 \<Rightarrow> duration \<Rightarrow> kernel \<Rightarrow> u64 option" where
  "deadline_add P deadline d k = do { n \<leftarrow> ticks_for P d k; Some (deadline + n) }"

definition sleep_until_turn :: "u64 \<Rightarrow> kernel \<Rightarrow> (bool \<times> kernel) option" where
  "sleep_until_turn deadline k = sleep_until_tick_turn deadline k"

definition sleep_ns :: "port \<Rightarrow> u64 \<Rightarrow> kernel \<Rightarrow> kernel option" where
  "sleep_ns P ns k = sleep P (dur_from_nanos ns) k"

definition sleep_us :: "port \<Rightarrow> u64 \<Rightarrow> kernel \<Rightarrow> kernel option" where
  "sleep_us P us k = sleep P (dur_from_micros us) k"

definition sleep_ms :: "port \<Rightarrow> u64 \<Rightarrow> kernel \<Rightarrow> kernel option" where
  "sleep_ms P ms k = sleep P (dur_from_millis ms) k"

definition sleep_secs :: "port \<Rightarrow> u64 \<Rightarrow> kernel \<Rightarrow> kernel option" where
  "sleep_secs P secs k = sleep P (dur_from_secs secs) k"

definition sleep_minutes :: "port \<Rightarrow> u64 \<Rightarrow> kernel \<Rightarrow> kernel option" where
  "sleep_minutes P mins k = sleep P (dur_from_secs (mins * 60)) k"

definition sleep_hours :: "port \<Rightarrow> u64 \<Rightarrow> kernel \<Rightarrow> kernel option" where
  "sleep_hours P hours k = sleep P (dur_from_secs (hours * 3600)) k"

section \<open>Rounding up\<close>

lemma ceil_nat:
  fixes a b :: nat assumes "b \<noteq> 0"
  shows "(a + b - 1) div b = (if a mod b = 0 then a div b else a div b + 1)"
proof (cases "a mod b = 0")
  case True
  then obtain q where q: "a = b * q" by (auto elim: dvdE simp: dvd_eq_mod_eq_0)
  then have "a + b - 1 = (b - 1) + b * q" using assms by simp
  then have "(a + b - 1) div b = q + (b - 1) div b" using div_mult_self2 [OF assms, of "b - 1" q] by argo
  moreover have "(b - 1) div b = 0" using assms by simp
  ultimately have "(a + b - 1) div b = q" by simp
  then show ?thesis using q assms by simp
next
  case False
  have r: "a mod b - 1 < b" using assms mod_less_divisor [of b a] by linarith
  have "a + b - 1 = (a mod b - 1) + b * (a div b + 1)"
  proof -
    have "a mod b + b * (a div b) = a" "1 \<le> a mod b" using False by simp_all
    then show ?thesis unfolding distrib_left by linarith
  qed
  then have "(a + b - 1) div b = (a div b + 1) + (a mod b - 1) div b"
    using div_mult_self2 [OF assms, of "a mod b - 1" "a div b + 1"] by argo
  then show ?thesis using r False by simp
qed

lemma unat_div_ceil:
  fixes a b :: "'a::len word"
  assumes "b \<noteq> 0"
  shows "unat (div_ceil a b) = (unat a + unat b - 1) div unat b"
proof -
  have b: "unat b \<noteq> 0" using assms by (simp add: unat_eq_0)
  have z: "a mod b = 0 \<longleftrightarrow> unat a mod unat b = 0"
    by (simp only: unat_eq_0 [symmetric] unat_mod)
  show ?thesis
  proof (cases "unat a mod unat b = 0")
    case True
    then show ?thesis using z ceil_nat [OF b, of "unat a"] by (simp add: div_ceil_def unat_div)
  next
    case False
    then have "2 \<le> unat b" using b by (cases "unat b = 1") auto
    then have "unat a div unat b \<le> unat a div 2" by (rule div_le_mono2 [rotated]) simp
    moreover have "unat a \<noteq> 0" using False by (auto intro: ccontr)
    ultimately have "unat a div unat b + 1 \<le> unat a \<or> unat a = 1" by linarith
    moreover have "unat a div unat b = 0" if "unat a = 1" using that \<open>2 \<le> unat b\<close> by simp
    ultimately have "unat a div unat b + 1 \<le> unat a" using \<open>unat a \<noteq> 0\<close> by (cases "unat a = 1") auto
    then have "unat (a div b) + 1 < 2 ^ LENGTH('a)"
      unfolding unat_div using unsigned_less [of a] by (rule le_less_trans)
    then have "unat (a div b + 1) = unat a div unat b + 1"
      using unat_Suc_small [of "a div b"] by (simp add: unat_div)
    then show ?thesis using False z ceil_nat [OF b, of "unat a"] by (simp add: div_ceil_def)
  qed
qed

lemma ceil_covers: "b \<noteq> 0 \<Longrightarrow> a \<le> (a + b - 1) div b * b" for a b :: nat
proof -
  assume b: "b \<noteq> 0"
  have "(a + b - 1) mod b < b" using b by simp
  moreover have "(a + b - 1) div b * b + (a + b - 1) mod b = a + b - 1" by simp
  ultimately show ?thesis by linarith
qed

lemma nano_arith:
  "(s::nat) < 18446744073709551616 \<Longrightarrow> n < 4294967296 \<Longrightarrow> s * 1000000000 + n < 2 ^ 128"
  by simp

lemma unat_as_nanos:
  "unat (as_nanos_u128 d) = unat (dur_secs d) * 1000000000 + unat (dur_nanos d)"
proof -
  have s: "unat (dur_secs d) * 1000000000 + unat (dur_nanos d) < 2 ^ 128"
    using unat_lt2p64 [of "dur_secs d"] unat_lt2p32 [of "dur_nanos d"] by (simp only: nano_arith)
  then have "unat ((ucast (dur_secs d) :: u128) * 1000000000) = unat (dur_secs d) * 1000000000"
    by (simp add: unat_word_ariths unat_ucast_up)
  then show ?thesis
    using s by (simp add: as_nanos_u128_def unat_word_ariths unat_ucast_up)
qed

text \<open>The number of ticks is the ceiling, at least 1, saturated.\<close>

lemma ticks_ceil:
  assumes ns: "ns \<noteq> 0"
  shows "unat (ticks_covering ns d) = min (2 ^ 64 - 1)
    (max 1 ((unat (as_nanos_u128 d) + unat ns - 1) div unat ns))"
proof -
  let ?n = "div_ceil (as_nanos_u128 d) (ucast ns)"
  have u: "unat (ucast ns :: u128) = unat ns" by (simp add: unat_ucast_up)
  then have "(ucast ns :: u128) \<noteq> 0" using ns by (metis unat_0 unat_eq_0)
  from unat_div_ceil [OF this, of "as_nanos_u128 d"]
  have n: "unat ?n = (unat (as_nanos_u128 d) + unat ns - 1) div unat ns" by (simp only: u)
  have m: "unat (ucast (- 1 :: u64) :: u128) = 2 ^ 64 - 1" by (simp add: unat_ucast_up unat_max_word)
  have z: "?n = 0 \<longleftrightarrow> unat ?n = 0" by (simp add: unat_eq_0)
  have c: "unat (ucast ?n :: u64) = unat ?n" if "unat ?n \<le> 2 ^ 64 - 1"
    using that by (simp add: unat_ucast_mod)
  consider "unat ?n = 0" | "unat ?n \<noteq> 0" "unat ?n \<le> 2 ^ 64 - 1" | "unat ?n > 2 ^ 64 - 1" by linarith
  then show ?thesis
  proof cases
    case 1
    then have "ticks_covering ns d = 1" using ns z unfolding ticks_covering_def Let_def by simp
    then show ?thesis unfolding n [symmetric] using 1 by simp
  next
    case 2
    then have "\<not> ?n > ucast (- 1 :: u64)" using m by (simp add: word_less_nat_alt)
    then have "ticks_covering ns d = ucast ?n" using 2(1) ns z unfolding ticks_covering_def Let_def by simp
    then show ?thesis unfolding n [symmetric] using 2 c by simp
  next
    case 3
    then have "?n > ucast (- 1 :: u64)" using m by (simp only: word_less_nat_alt)
    then have "ticks_covering ns d = - 1" using 3 ns z unfolding ticks_covering_def Let_def by auto
    then show ?thesis unfolding n [symmetric] using 3 unat_max_word [where ?'a = 64] by simp
  qed
qed

text \<open>A sleep never ends early: the ticks cover the duration, unless the count saturates.\<close>

lemma ticks_cover:
  assumes "ns \<noteq> 0" and "ticks_covering ns d \<noteq> - 1"
  shows "unat (as_nanos_u128 d) \<le> unat (ticks_covering ns d) * unat ns" and "ticks_covering ns d \<noteq> 0"
proof -
  let ?c = "(unat (as_nanos_u128 d) + unat ns - 1) div unat ns"
  have b: "unat ns \<noteq> 0" using assms by (simp add: unat_eq_0)
  have "unat (ticks_covering ns d) \<noteq> 2 ^ 64 - 1"
    using assms(2) unat_max_word [where ?'a = 64] by (auto simp: word_unat_eq_iff)
  then have t: "unat (ticks_covering ns d) = max 1 ?c"
    unfolding ticks_ceil [OF assms(1)] by linarith
  have "unat (as_nanos_u128 d) \<le> ?c * unat ns" by (rule ceil_covers [OF b])
  also have "\<dots> \<le> unat (ticks_covering ns d) * unat ns" unfolding t by (rule mult_le_mono1) simp
  finally show "unat (as_nanos_u128 d) \<le> unat (ticks_covering ns d) * unat ns" .
  show "ticks_covering ns d \<noteq> 0" using t by auto
qed

text \<open>The same for the timeout of a lock, as long as the product fits.\<close>

lemma ms_to_ticks_covers:
  assumes ns: "slice_ns P k \<noteq> 0" and fit: "unat ms * 1000000 < 2 ^ 64"
  shows "unat ms * 1000000 \<le> unat (ms_to_ticks P ms k) * unat (slice_ns P k)"
proof -
  have b: "unat (slice_ns P k) \<noteq> 0" using ns by (simp add: unat_eq_0)
  have "unat (sat_mul ms 1000000) = unat ms * 1000000"
    using fit by (simp add: unat_sat_mul)
  then have "unat (ms_to_ticks P ms k)
      = (unat ms * 1000000 + unat (slice_ns P k) - 1) div unat (slice_ns P k)"
    using ns unat_div_ceil [OF ns, of "sat_mul ms 1000000"] by (simp add: ms_to_ticks_def Let_def)
  then show ?thesis using ceil_covers [OF b] by metis
qed

lemma tick_ns_run: "arena_ok (karena k) fs \<Longrightarrow> tick_ns P k = Some (slice_ns P k)"
  using stats_ok [of k fs P] by (auto simp: tick_ns_def)

lemma ticks_for_run: "arena_ok (karena k) fs \<Longrightarrow> ticks_for P d k = Some (ticks_covering (slice_ns P k) d)"
  by (simp add: ticks_for_def tick_ns_run)

end
