(* ===== verification/RkEvent.thy ===== *)
theory RkEvent
  imports RkTime
begin

text \<open>
  \<^verbatim>\<open>src/event.rs\<close>: \<^verbatim>\<open>park\<close> and \<^verbatim>\<open>wake\<close>, the polling wait, one-shot signals and wait
  queues.  A waiting loop is given by one turn of its body, as in \<^verbatim>\<open>RkSync\<close>.
\<close>

datatype event_timeout = EventTimeout

definition event_timeout_display :: "event_timeout \<Rightarrow> string" where
  "event_timeout_display e = ''wait timed out''"

datatype wake_reason = Woken | WakeTimeout

text \<open>An optional absolute deadline, as the scheduler encodes it.\<close>

definition or_zero :: "u64 option \<Rightarrow> u64" where
  "or_zero d = (case d of None \<Rightarrow> 0 | Some t \<Rightarrow> t)"

section \<open>Park and wake\<close>

text \<open>The condition both \<open>park\<close> and \<open>WaitQueue::wait\<close> block on.\<close>

definition flag_ready :: "unit \<times> kernel \<Rightarrow> (bool \<times> unit \<times> kernel) option" where
  "flag_ready s = do { (b, k) \<leftarrow> take_wake_flag_locked (snd s); Some (b, (), k) }"

definition park_turn :: "u32 \<Rightarrow> u64 \<Rightarrow> kernel \<Rightarrow> (wake_reason progress \<times> kernel) option" where
  "park_turn me d k = do {
     (out, _, k) \<leftarrow> block_until_tick_if me d flag_ready ((), k);
     Some (case out of
         OutReady \<Rightarrow> Done Woken
       | OutBlocked \<Rightarrow> Again
       | OutAlreadyPast \<Rightarrow> Done WakeTimeout
       | OutNoCurrentTask \<Rightarrow> Done WakeTimeout, k)
   }"

text \<open>The first turn of \<open>park deadline\<close>.\<close>

definition park :: "u64 option \<Rightarrow> kernel \<Rightarrow> (wake_reason progress \<times> kernel) option" where
  "park deadline k = do { me \<leftarrow> current_task_id k; park_turn me (or_zero deadline) k }"

definition wake :: "task_id \<Rightarrow> kernel \<Rightarrow> kernel option" where
  "wake i k = wake_task (raw i) k"

definition wait_until_turn ::
  "('s \<times> kernel \<Rightarrow> (bool \<times> 's \<times> kernel) option) \<Rightarrow> u64 \<Rightarrow> 's \<times> kernel
     \<Rightarrow> ((event_timeout + unit) progress \<times> 's \<times> kernel) option" where
  "wait_until_turn ready deadline_tick s = do {
     (b, s, k) \<leftarrow> ready s;
     if b then Some (Done (Inr ()), s, k)
     else if tick_count k \<ge> deadline_tick then Some (Done (Inl EventTimeout), s, k)
     else Some (Again, s, yield_now k)
   }"

section \<open>Signals\<close>

record signal =
  sig_set :: bool
  sig_waiter :: u32

definition signal_new :: signal where
  "signal_new = \<lparr>sig_set = False, sig_waiter = 0\<rparr>"

definition signal_set :: "signal \<times> kernel \<Rightarrow> (signal \<times> kernel) option" where
  "signal_set s =
     (let i = sig_waiter (fst s); g = (fst s)\<lparr>sig_set := True, sig_waiter := 0\<rparr> in
      if i \<noteq> 0 then do { k \<leftarrow> wake_task i (snd s); Some (g, k) } else Some (g, snd s))"

definition signal_try_take :: "signal \<Rightarrow> bool \<times> signal" where
  "signal_try_take g = (sig_set g, g\<lparr>sig_set := False\<rparr>)"

definition signal_is_set :: "signal \<Rightarrow> bool" where
  "signal_is_set g = sig_set g"

text \<open>The condition \<open>Signal::wait\<close> blocks on: take the signal, or register as the waiter.\<close>

definition signal_ready :: "u32 \<Rightarrow> signal \<times> kernel \<Rightarrow> (bool \<times> signal \<times> kernel) option" where
  "signal_ready me s =
     (if sig_set (fst s) then Some (True, (fst s)\<lparr>sig_set := False\<rparr>, snd s)
      else Some (False, (fst s)\<lparr>sig_waiter := me\<rparr>, snd s))"

definition signal_wait_turn ::
  "u32 \<Rightarrow> u64 \<Rightarrow> signal \<times> kernel \<Rightarrow> ((event_timeout + unit) progress \<times> signal \<times> kernel) option" where
  "signal_wait_turn me d s = do {
     (out, g, k) \<leftarrow> block_until_tick_if me d (signal_ready me) s;
     Some (case out of
         OutReady \<Rightarrow> Done (Inr ())
       | OutBlocked \<Rightarrow> Again
       | OutAlreadyPast \<Rightarrow> Done (Inl EventTimeout)
       | OutNoCurrentTask \<Rightarrow> Done (Inl EventTimeout), g, k)
   }"

text \<open>The first turn of \<open>wait deadline\<close>.\<close>

definition signal_wait ::
  "u64 option \<Rightarrow> signal \<times> kernel \<Rightarrow> ((event_timeout + unit) progress \<times> signal \<times> kernel) option" where
  "signal_wait deadline s = do {
     me \<leftarrow> current_task_id (snd s);
     signal_wait_turn me (or_zero deadline) s
   }"

section \<open>Wait queues\<close>

record wait_queue =
  wq_id :: u32

definition wq_new :: "kernel \<Rightarrow> wait_queue \<times> kernel" where
  "wq_new k = (let (i, k) = alloc_resource_id k in (\<lparr>wq_id = i\<rparr>, k))"

definition wq_with_id :: "u32 \<Rightarrow> wait_queue" where
  "wq_with_id i = \<lparr>wq_id = i\<rparr>"

definition wq_wait_turn ::
  "u64 \<Rightarrow> wait_queue \<Rightarrow> kernel \<Rightarrow> ((event_timeout + unit) progress \<times> kernel) option" where
  "wq_wait_turn d q k = do {
     (out, _, k) \<leftarrow> block_until_tick_if (wq_id q) d flag_ready ((), k);
     Some (case out of
         OutReady \<Rightarrow> Done (Inr ())
       | OutBlocked \<Rightarrow> Again
       | OutAlreadyPast \<Rightarrow> Done (Inl EventTimeout)
       | OutNoCurrentTask \<Rightarrow> Done (Inl EventTimeout), k)
   }"

definition wake_one :: "wait_queue \<Rightarrow> kernel \<Rightarrow> (bool \<times> kernel) option" where
  "wake_one q k = wake_first_blocked_on (wq_id q) k"

definition waiters :: "wait_queue \<Rightarrow> kernel \<Rightarrow> usize option" where
  "waiters q k = blocked_on_count (wq_id q) k"

definition wake_all :: "wait_queue \<Rightarrow> kernel \<Rightarrow> (usize \<times> kernel) option" where
  "wake_all q k = do {
     n \<leftarrow> waiters q k;
     k \<leftarrow> wake_blocked_on (wq_id q) k;
     Some (n, k)
   }"

section \<open>Signals under the invariant\<close>

definition woken_up :: "u32 \<Rightarrow> tcb \<Rightarrow> tcb" where
  "woken_up i t = (if tid t = i then (if st t = Blocked then make_ready (set_woken t) else set_woken t) else t)"

lemma shape_woken_up [simp]: "shape (woken_up i t) = shape t"
  by (simp add: woken_up_def)

lemma wake_task_run:
  assumes "tree_ok k T" and "i \<noteq> 0"
  shows "wake_task i k = Some (k\<lparr>heap := map_at (woken_up i) (set (visited k T)) (heap k)\<rparr>)"
  unfolding wake_task_effect [OF assms] woken_up_def ..

lemma signal_set_run:
  assumes "tree_ok k T"
  shows "signal_set (g, k) = Some (g\<lparr>sig_set := True, sig_waiter := 0\<rparr>,
    if sig_waiter g = 0 then k else k\<lparr>heap := map_at (woken_up (sig_waiter g)) (set (visited k T)) (heap k)\<rparr>)"
  using wake_task_run [OF assms] by (simp add: signal_set_def Let_def)

lemma signal_set_ok:
  assumes "tree_ok k T"
  shows "\<exists>g' k'. signal_set (g, k) = Some (g', k') \<and> sig_set g' \<and> tree_ok k' T"
  using assms tree_ok_map_at [OF assms shape_woken_up] by (simp add: signal_set_run [OF assms])

section \<open>One turn of a wait\<close>

definition woken :: "tcb \<Rightarrow> bool" where
  "woken t = (flags t AND TCB_FLAG_WOKEN \<noteq> 0)"

definition unflag :: "tcb \<Rightarrow> tcb" where
  "unflag t = t\<lparr>flags := flags t AND NOT TCB_FLAG_WOKEN\<rparr>"

definition blocked :: "u32 \<Rightarrow> u64 \<Rightarrow> tcb \<Rightarrow> tcb" where
  "blocked r d t = t\<lparr>blocked_on := r, block_deadline := d, st := Blocked\<rparr>"

lemma woken_set_woken [simp]: "woken (set_woken t)"
proof -
  have "(x OR TCB_FLAG_WOKEN) AND TCB_FLAG_WOKEN = TCB_FLAG_WOKEN" for x :: u8
    by (simp add: bit_eq_iff bit_simps)
  moreover have "TCB_FLAG_WOKEN \<noteq> 0" by (simp add: TCB_FLAG_WOKEN_def)
  ultimately show ?thesis by (simp add: woken_def set_woken_def)
qed

lemma not_woken_unflag [simp]: "\<not> woken (unflag t)"
proof -
  have "(x AND NOT TCB_FLAG_WOKEN) AND TCB_FLAG_WOKEN = 0" for x :: u8
    by (simp add: and.assoc)
  then show ?thesis by (simp add: woken_def unflag_def)
qed

lemma make_ready_fields [simp]:
  "flags (make_ready t) = flags t" "tid (make_ready t) = tid t" "st (make_ready t) = Ready"
  "woken (make_ready t) = woken t"
  by (simp_all add: make_ready_def woken_def)

lemma blocked_fields [simp]:
  "flags (blocked r d t) = flags t" "tid (blocked r d t) = tid t" "st (blocked r d t) = Blocked"
  "blocked_on (blocked r d t) = r" "block_deadline (blocked r d t) = d" "woken (blocked r d t) = woken t"
  by (simp_all add: blocked_def woken_def)

lemma flag_fields [simp]:
  "tid (unflag t) = tid t" "st (unflag t) = st t" "tid (set_woken t) = tid t" "st (set_woken t) = st t"
  by (simp_all add: unflag_def set_woken_def)

text \<open>A step of the running task \<open>p\<close>, whose control block is \<open>t\<close>.\<close>

definition on_cpu :: "kernel \<Rightarrow> ptr \<Rightarrow> tcb \<Rightarrow> bool" where
  "on_cpu k p t = (current_tcb k = p \<and> rd k p = Some t)"

lemma on_cpu_nonnull: "on_cpu k p t \<Longrightarrow> p \<noteq> 0"
  by (auto simp: on_cpu_def)

lemma take_flag_run: "on_cpu k p t \<Longrightarrow> take_wake_flag_locked k = Some (woken t, put p (unflag t) k)"
  using on_cpu_nonnull [of k p t]
  by (auto simp: on_cpu_def take_wake_flag_locked_def k_current_def woken_def unflag_def upd_put)

lemma mark_blocked_run:
  assumes "on_cpu k p t"
  shows "mark_blocked_locked r d k = Some (if d \<noteq> 0 \<and> d \<le> ticks k then (OutAlreadyPast, k)
    else (OutBlocked, request_switch (put p (blocked r d t) k)))"
proof -
  have p: "p \<noteq> 0" "current_tcb k = p" "rd k p = Some t" using assms on_cpu_nonnull by (auto simp: on_cpu_def)
  have "upd (\<lambda>t. t\<lparr>st := Blocked\<rparr>) p (put p (t\<lparr>blocked_on := r, block_deadline := d\<rparr>) k)
      = Some (put p (blocked r d t) k)"
    using p by (simp add: upd_put [of _ _ "t\<lparr>blocked_on := r, block_deadline := d\<rparr>"] rd_put)
      (simp add: put_def blocked_def)
  moreover have "upd (\<lambda>t. t\<lparr>block_deadline := d\<rparr>) p (put p (t\<lparr>blocked_on := r\<rparr>) k)
      = Some (put p (t\<lparr>blocked_on := r, block_deadline := d\<rparr>) k)"
    using p by (simp add: upd_put [of _ _ "t\<lparr>blocked_on := r\<rparr>"] rd_put) (simp add: put_def)
  moreover have "upd (\<lambda>t. t\<lparr>blocked_on := r\<rparr>) p k = Some (put p (t\<lparr>blocked_on := r\<rparr>) k)"
    using p by (simp add: upd_put)
  ultimately show ?thesis
    using p by (simp add: mark_blocked_locked_def k_current_def)
qed

lemma on_cpu_put: "on_cpu k p t \<Longrightarrow> on_cpu (put p u k) p u"
  using on_cpu_nonnull [of k p t] by (simp add: on_cpu_def rd_put) (simp add: put_def)

lemma put_put: "put p u (put p t k) = put p u k"
  by (simp add: put_def)

lemma ticks_put [simp]: "ticks (put p t k) = ticks k"
  by (simp add: put_def)

text \<open>The common turn of \<open>park\<close> and of a queue's \<open>wait\<close>.\<close>

lemma flag_turn_run:
  assumes "on_cpu k p t"
  shows "block_until_tick_if r d flag_ready ((), k) = Some (
    if woken t then (OutReady, (), put p (unflag t) k)
    else if d \<noteq> 0 \<and> d \<le> ticks k then (OutAlreadyPast, (), put p (unflag t) k)
    else (OutBlocked, (), request_switch (put p (blocked r d (unflag t)) k)))"
  using take_flag_run [OF assms] mark_blocked_run [OF on_cpu_put [OF assms], of r d "unflag t"]
  by (simp add: block_until_tick_if_def flag_ready_def put_put)

lemma park_turn_run:
  assumes "on_cpu k p t"
  shows "park_turn i d k = Some (
    if woken t then (Done Woken, put p (unflag t) k)
    else if d \<noteq> 0 \<and> d \<le> ticks k then (Done WakeTimeout, put p (unflag t) k)
    else (Again, request_switch (put p (blocked i d (unflag t)) k)))"
  by (simp add: park_turn_def flag_turn_run [OF assms])

lemma wq_wait_turn_run:
  assumes "on_cpu k p t"
  shows "wq_wait_turn d q k = Some (
    if woken t then (Done (Inr ()), put p (unflag t) k)
    else if d \<noteq> 0 \<and> d \<le> ticks k then (Done (Inl EventTimeout), put p (unflag t) k)
    else (Again, request_switch (put p (blocked (wq_id q) d (unflag t)) k)))"
  by (simp add: wq_wait_turn_def flag_turn_run [OF assms])

lemma signal_wait_turn_run:
  assumes "on_cpu k p t"
  shows "signal_wait_turn i d (g, k) = Some (
    if sig_set g then (Done (Inr ()), g\<lparr>sig_set := False\<rparr>, k)
    else if d \<noteq> 0 \<and> d \<le> ticks k then (Done (Inl EventTimeout), g\<lparr>sig_waiter := i\<rparr>, k)
    else (Again, g\<lparr>sig_waiter := i\<rparr>, request_switch (put p (blocked i d t) k)))"
  by (simp add: signal_wait_turn_def block_until_tick_if_def signal_ready_def mark_blocked_run [OF assms])

section \<open>Wake-ups reach their task\<close>

lemma rd_map_at: "rd (k\<lparr>heap := map_at f A (heap k)\<rparr>) p = (if p \<in> A then map_option f (rd k p) else rd k p)"
  by (simp add: rd_def rdh_map_at)

text \<open>Whether the wake comes before or after the task has blocked, its next turn is \<open>Woken\<close>.\<close>

lemma wake_reaches:
  assumes T: "tree_ok k T" and p: "p \<in> set (visited k T)" and t: "rd k p = Some t" and i: "tid t \<noteq> 0"
  shows "\<exists>k' u. wake_task (tid t) k = Some k' \<and> rd k' p = Some u \<and> st u = (if st t = Blocked then Ready else st t)
    \<and> woken u \<and> tree_ok k' T"
  using wake_task_run [OF T i] tree_ok_map_at [OF T shape_woken_up] p t
  by (simp add: rd_map_at) (simp add: woken_up_def)

lemma wake_then_park:
  assumes "tree_ok k T" and "p \<in> set (visited k T)" and "rd k p = Some t" and "tid t \<noteq> 0"
  shows "\<exists>k' u. wake_task (tid t) k = Some k' \<and> rd k' p = Some u \<and> st u \<noteq> Blocked \<and>
    (\<forall>d. \<exists>k''. park_turn (tid t) d (k'\<lparr>current_tcb := p\<rparr>) = Some (Done Woken, k''))"
proof -
  from wake_reaches [OF assms] obtain k' u where u: "wake_task (tid t) k = Some k'" "rd k' p = Some u"
    "st u = (if st t = Blocked then Ready else st t)" "woken u" by blast
  have "on_cpu (k'\<lparr>current_tcb := p\<rparr>) p u" using u(2) by (simp add: on_cpu_def rd_def)
  from park_turn_run [OF this, of "tid t"] u show ?thesis
    by (intro exI [of _ k'] exI [of _ u]) auto
qed

text \<open>A signal set while its waiter is blocked: the waiter becomes ready and takes it.\<close>

lemma signal_handoff:
  assumes T: "tree_ok k T" and p: "p \<in> set (visited k T)" and c: "on_cpu k p t" and i: "tid t \<noteq> 0"
    and w: "\<not> sig_set g" and d: "d = 0 \<or> ticks k < d"
  shows "\<exists>g1 k1 g2 k2 u. signal_wait_turn (tid t) d (g, k) = Some (Again, g1, k1)
    \<and> rd k1 p = Some (blocked (tid t) d t)
    \<and> signal_set (g1, k1) = Some (g2, k2) \<and> rd k2 p = Some u \<and> st u = Ready \<and> woken u
    \<and> signal_wait_turn (tid t) d (g2, k2\<lparr>current_tcb := p\<rparr>)
        = Some (Done (Inr ()), g2\<lparr>sig_set := False\<rparr>, k2\<lparr>current_tcb := p\<rparr>)"
proof -
  let ?k1 = "request_switch (put p (blocked (tid t) d t) k)"
  have p0: "p \<noteq> 0" and t: "rd k p = Some t" using c on_cpu_nonnull by (auto simp: on_cpu_def)
  have 1: "signal_wait_turn (tid t) d (g, k) = Some (Again, g\<lparr>sig_waiter := tid t\<rparr>, ?k1)"
    using signal_wait_turn_run [OF c] w d by auto
  have r1: "rd ?k1 p = Some (blocked (tid t) d t)"
    using p0 by (simp add: request_switch_def put_def rd_def)
  have "same_shape (heap k) (heap ?k1)"
    using t by (simp add: request_switch_def)
      (rule same_shape_upd [of _ _ t], simp_all add: rd_def blocked_def)
  then have T1: "tree_ok ?k1 T"
    by (rule tree_ok_shape [OF T]) (simp_all add: request_switch_def put_def)
  have v: "visited ?k1 T = visited k T" by (simp add: visited_def request_switch_def put_def)
  let ?g2 = "g\<lparr>sig_set := True, sig_waiter := 0\<rparr>"
  let ?k2 = "?k1\<lparr>heap := map_at (woken_up (tid t)) (set (visited ?k1 T)) (heap ?k1)\<rparr>"
  let ?u = "make_ready (set_woken (blocked (tid t) d t))"
  have 2: "signal_set (g\<lparr>sig_waiter := tid t\<rparr>, ?k1) = Some (?g2, ?k2)"
    using i by (simp add: signal_set_run [OF T1])
  have r2: "rd ?k2 p = Some ?u"
    using p r1 by (simp only: rd_map_at v if_True option.map) (simp add: woken_up_def)
  then have c2: "on_cpu (?k2\<lparr>current_tcb := p\<rparr>) p ?u" by (simp add: on_cpu_def rd_def)
  show ?thesis
    using 1 r1 2 r2 signal_wait_turn_run [OF c2, of "tid t" d ?g2]
    by (intro exI [of _ "g\<lparr>sig_waiter := tid t\<rparr>"] exI [of _ ?k1] exI [of _ ?g2] exI [of _ ?k2] exI [of _ ?u] conjI)
      simp_all
qed

text \<open>\<open>wake_one\<close> ends the wait of the first waiter visited.\<close>

lemma wake_one_delivers:
  assumes T: "tree_ok k T" and f: "List.find (h_waits k (wq_id q)) (visited k T) = Some p"
  shows "\<exists>k' u. wake_one q k = Some (True, k') \<and> rd k' p = Some u \<and> st u = Ready \<and>
    (\<forall>d. \<exists>k''. wq_wait_turn d q (k'\<lparr>current_tcb := p\<rparr>) = Some (Done (Inr ()), k''))"
proof -
  obtain t where t: "rd k p = Some t" using find_SomeD [OF f] by (auto simp: h_waits_def split: option.splits)
  let ?k = "k\<lparr>heap := map_at (make_ready \<circ> set_woken) {p} (heap k)\<rparr>"
  have r: "rd ?k p = Some (make_ready (set_woken t))" using t by (simp add: rd_map_at)
  then have c: "on_cpu (?k\<lparr>current_tcb := p\<rparr>) p (make_ready (set_woken t))" by (simp add: on_cpu_def rd_def)
  show ?thesis
    using wake_first_effect [OF T, of "wq_id q"] f r wq_wait_turn_run [OF c]
    by (intro exI [of _ ?k] exI [of _ "make_ready (set_woken t)"]) (simp add: wake_one_def)
qed

text \<open>\<open>wake_all\<close> makes a waiter ready without its wake flag, so its wait blocks again.\<close>

lemma wake_all_reblocks:
  assumes T: "tree_ok k T" and p: "p \<in> set (visited k T)" and t: "rd k p = Some t"
    and w: "waits_on (wq_id q) t" and f: "\<not> woken t" and d: "d = 0 \<or> ticks k < d"
  shows "\<exists>n k1 u k2 v. wake_all q k = Some (n, k1) \<and> n \<noteq> 0 \<and> rd k1 p = Some u \<and> st u = Ready
    \<and> wq_wait_turn d q (k1\<lparr>current_tcb := p\<rparr>) = Some (Again, k2) \<and> rd k2 p = Some v \<and> waits_on (wq_id q) v"
proof -
  let ?n = "length (filter (h_waits k (wq_id q)) (visited k T))"
  let ?k1 = "k\<lparr>heap := map_at (\<lambda>t. if waits_on (wq_id q) t then make_ready t else t) (set (visited k T)) (heap k)\<rparr>"
  have p0: "p \<noteq> 0" using t by auto
  have "length (visited k T) \<le> length (addrs T)"
    using visited_subset [of k T] visited_distinct [OF T] by (metis card_length card_mono distinct_card finite_set le_trans)
  also have "\<dots> < 4294967296" using T by (simp add: tree_ok_def)
  finally have "?n < 4294967296" by (rule le_less_trans [OF length_filter_le])
  moreover have "0 < ?n" using p t w by (auto simp: filter_empty_conv h_waits_def intro!: bexI [of _ p])
  ultimately have "unat (of_nat ?n :: u32) \<noteq> 0" by (subst unat_of_nat) simp
  then have n: "(of_nat ?n :: u32) \<noteq> 0" by (metis unat_0)
  have r1: "rd ?k1 p = Some (make_ready t)" using p t w by (simp add: rd_map_at)
  then have c: "on_cpu (?k1\<lparr>current_tcb := p\<rparr>) p (make_ready t)" by (simp add: on_cpu_def rd_def)
  let ?v = "blocked (wq_id q) d (unflag (make_ready t))"
  let ?k2 = "request_switch (put p ?v (?k1\<lparr>current_tcb := p\<rparr>))"
  have "wq_wait_turn d q (?k1\<lparr>current_tcb := p\<rparr>) = Some (Again, ?k2)"
    using wq_wait_turn_run [OF c, of d q] f d by auto
  moreover have "rd ?k2 p = Some ?v" using p0 by (simp add: rd_def request_switch_def)
  moreover have "wake_all q k = Some (of_nat ?n, ?k1)"
    by (simp add: wake_all_def waiters_def blocked_on_count_effect [OF T] wake_blocked_on_effect [OF T])
  ultimately show ?thesis using n r1
    by (intro exI [of _ "of_nat ?n"] exI [of _ ?k1] exI [of _ "make_ready t"] exI [of _ ?k2] exI [of _ ?v] conjI)
      (simp_all add: waits_on_def)
qed

text \<open>The flag a signal's wake leaves behind ends the next wait on any queue.\<close>

lemma stale_wake_flag:
  assumes "on_cpu k p t" and "woken t" and "sig_set g"
  shows "\<exists>g' k' k''. signal_wait_turn i d (g, k) = Some (Done (Inr ()), g', k')
    \<and> wq_wait_turn d' q k' = Some (Done (Inr ()), k'')"
  using signal_wait_turn_run [OF assms(1), of i d g] wq_wait_turn_run [OF assms(1), of d' q] assms(2,3) by simp

end
