(* ===== verification/RkExec.thy ===== *)
theory RkExec
  imports RkEvent
begin

text \<open>
  \<^verbatim>\<open>src/exec.rs\<close>: wakers, the executor \<^verbatim>\<open>block_on\<close>, and the futures \<^verbatim>\<open>Sleep\<close> and
  \<^verbatim>\<open>SignalWait\<close>.  A future is a state together with its \<^verbatim>\<open>poll\<close>; \<^verbatim>\<open>poll\<close> returns the output
  (\<open>None\<close> for \<^verbatim>\<open>Pending\<close>), the next state and the kernel.
\<close>

section \<open>Wakers\<close>

text \<open>A waker is the data pointer of its \<^verbatim>\<open>RawWaker\<close>: the task id.\<close>

definition task_waker :: "task_id \<Rightarrow> ptr" where
  "task_waker i = raw i"

definition clone_fn :: "ptr \<Rightarrow> ptr" where
  "clone_fn p = p"

definition wake_fn :: "ptr \<Rightarrow> kernel \<Rightarrow> kernel option" where
  "wake_fn p k = wake_task p k"

definition wake_by_ref_fn :: "ptr \<Rightarrow> kernel \<Rightarrow> kernel option" where
  "wake_by_ref_fn p k = wake_task p k"

definition current_waker :: "kernel \<Rightarrow> ptr option" where
  "current_waker k = map_option task_waker (current_id k)"

section \<open>The executor\<close>

text \<open>\<open>poll\<close> gets the waker of its context, which is the running task's.
  Where \<open>block_on\<close> is when it is next on the CPU: about to poll, or in the loop of \<open>park\<close>.\<close>

datatype exec_point = Polling | Parked u32 u64

definition park_in ::
  "u32 \<Rightarrow> u64 \<Rightarrow> 'f \<times> kernel \<Rightarrow> ('o progress \<times> exec_point \<times> 'f \<times> kernel) option" where
  "park_in me d s = do {
     (r, k) \<leftarrow> park_turn me d (snd s);
     Some (Again, (case r of Again \<Rightarrow> Parked me d | Done _ \<Rightarrow> Polling), fst s, k)
   }"

definition block_on_turn ::
  "(ptr \<Rightarrow> 'f \<times> kernel \<Rightarrow> ('o option \<times> 'f \<times> kernel) option) \<Rightarrow> ptr \<Rightarrow> exec_point \<Rightarrow> 'f \<times> kernel
     \<Rightarrow> ('o progress \<times> exec_point \<times> 'f \<times> kernel) option" where
  "block_on_turn poll waker at s = (case at of
     Parked me d \<Rightarrow> park_in me d s
   | Polling \<Rightarrow> do {
       k \<leftarrow> clear_wake_flag (snd s);
       k \<leftarrow> clear_timer_deadline k;
       (r, f, k) \<leftarrow> poll waker (fst s, k);
       (case r of
          Some v \<Rightarrow> Some (Done v, Polling, f, k)
        | None \<Rightarrow> do {
            d \<leftarrow> task_timer_deadline k;
            me \<leftarrow> current_task_id k;
            park_in me (or_zero (if d = 0 then None else Some d)) (f, k)
          })
     })"

text \<open>\<open>spawn_async\<close>: the task's closure is \<open>block_on\<close> over the future, of the future's size.\<close>

definition spawn_async :: "port \<Rightarrow> usize \<times> usize \<Rightarrow> kernel \<Rightarrow> ((spawn_error + unit) \<times> kernel) option" where
  "spawn_async P f k = try_spawn P f k"

section \<open>Timers\<close>

record sleep_future =
  sl_deadline :: u64

definition sleep_until_future :: "u64 \<Rightarrow> sleep_future" where
  "sleep_until_future t = \<lparr>sl_deadline = t\<rparr>"

definition sleep_poll :: "ptr \<Rightarrow> sleep_future \<times> kernel \<Rightarrow> (unit option \<times> sleep_future \<times> kernel) option" where
  "sleep_poll cx s =
     (if tick_count (snd s) \<ge> sl_deadline (fst s) then Some (Some (), s)
      else do {
        k \<leftarrow> set_timer_deadline (sl_deadline (fst s)) (snd s);
        Some (None, fst s, k)
      })"

definition exec_sleep :: "port \<Rightarrow> duration \<Rightarrow> kernel \<Rightarrow> sleep_future option" where
  "exec_sleep P d k = do {
     n \<leftarrow> ticks_for P d k;
     Some (sleep_until_future (deadline_after_ticks n k))
   }"

text \<open>\<open>SignalWait\<close>: its state is its deadline and the signal it borrows.\<close>

definition signal_poll ::
  "ptr \<Rightarrow> (u64 \<times> signal) \<times> kernel \<Rightarrow> ((event_timeout + unit) option \<times> (u64 \<times> signal) \<times> kernel) option" where
  "signal_poll cx s =
     (let ((d, g), k) = s; (taken, g) = signal_try_take g in
      if taken then Some (Some (Inr ()), (d, g), k)
      else if d \<noteq> 0 \<and> tick_count k \<ge> d then Some (Some (Inl EventTimeout), (d, g), k)
      else do {
        k \<leftarrow> set_timer_deadline (if d = 0 then tick_count k + 1 else d) k;
        Some (None, (d, g), k)
      })"

section \<open>Turns of the executor\<close>

definition undated :: "tcb \<Rightarrow> tcb" where
  "undated t = (unflag t)\<lparr>block_deadline := 0\<rparr>"

lemma undated_fields [simp]: "tid (undated t) = tid t" "block_deadline (undated t) = 0" "\<not> woken (undated t)"
proof -
  show "tid (undated t) = tid t" "block_deadline (undated t) = 0" by (simp_all add: undated_def)
  have "woken (undated t) = woken (unflag t)" by (simp add: undated_def woken_def)
  then show "\<not> woken (undated t)" by simp
qed

text \<open>Before each poll the wake flag and the timer of the running task are cleared.\<close>

lemma clear_run:
  assumes "on_cpu k p t"
  shows "Option.bind (clear_wake_flag k) clear_timer_deadline = Some (put p (undated t) k)"
proof -
  have p: "p \<noteq> 0" "current_tcb k = p" "rd k p = Some t" using assms on_cpu_nonnull by (auto simp: on_cpu_def)
  have "clear_wake_flag k = Some (put p (unflag t) k)"
    using p by (simp add: clear_wake_flag_def k_current_def unflag_def upd_put)
  moreover have "clear_timer_deadline (put p (unflag t) k) = Some (put p (undated t) k)"
    using p on_cpu_put [OF assms, of "unflag t"]
    by (simp add: clear_timer_deadline_def k_current_def on_cpu_def upd_put undated_def put_put)
  ultimately show ?thesis by simp
qed

lemma set_timer_run:
  assumes "on_cpu k p t" and "block_deadline t = 0" and "d \<noteq> 0"
  shows "set_timer_deadline d k = Some (put p (t\<lparr>block_deadline := d\<rparr>) k)"
  using assms on_cpu_nonnull [OF assms(1)]
  by (auto simp: set_timer_deadline_def k_current_def on_cpu_def upd_put)

lemma park_in_run:
  assumes "on_cpu k p t"
  shows "park_in i d (f, k) = Some (
    if woken t \<or> d \<noteq> 0 \<and> d \<le> ticks k then (Again, Polling, f, put p (unflag t) k)
    else (Again, Parked i d, f, request_switch (put p (blocked i d (unflag t)) k)))"
  using park_turn_run [OF assms, of i d] by (simp add: park_in_def)

text \<open>A poll that arms the deadline \<open>d\<close> and is pending: the task blocks until \<open>d\<close>.\<close>

lemma pending_blocks:
  assumes c: "on_cpu k p t" and d: "d \<noteq> 0" "ticks k < d"
    and poll: "poll w (f, put p (undated t) k) = Some (None, f', put p ((undated t)\<lparr>block_deadline := d\<rparr>) k)"
  shows "\<exists>u k'. block_on_turn poll w Polling (f, k) = Some (Again, Parked (tid t) d, f', k')
    \<and> rd k' p = Some u \<and> st u = Blocked \<and> blocked_on u = tid t \<and> block_deadline u = d \<and> \<not> woken u
    \<and> ticks k' = ticks k \<and> switch_pending k'"
proof -
  let ?u = "(undated t)\<lparr>block_deadline := d\<rparr>" and ?k = "put p ((undated t)\<lparr>block_deadline := d\<rparr>) k"
  have c2: "on_cpu ?k p ?u" by (rule on_cpu_put [OF c])
  have i: "current_task_id ?k = Some (tid t)"
    using current_task_id_run [of ?k ?u] c2 by (simp add: on_cpu_def)
  have td: "task_timer_deadline ?k = Some d"
    using c2 on_cpu_nonnull [OF c2] by (simp add: task_timer_deadline_def k_current_def on_cpu_def)
  have w: "\<not> woken ?u"
  proof -
    have "woken ?u = woken (undated t)" by (simp add: woken_def)
    then show ?thesis by simp
  qed
  let ?k' = "request_switch (put p (blocked (tid t) d (unflag ?u)) ?k)"
  have nd: "\<not> d \<le> ticks k" using d(2) by simp
  have "park_in (tid t) d (f', ?k) = Some (Again, Parked (tid t) d, f', ?k')"
    using park_in_run [OF c2, of "tid t" d f'] w nd by simp
  then have "block_on_turn poll w Polling (f, k) = Some (Again, Parked (tid t) d, f', ?k')"
    using clear_run [OF c] poll i td d(1)
    by (cases "clear_wake_flag k") (simp_all add: block_on_turn_def or_zero_def)
  moreover have "rd ?k' p = Some (blocked (tid t) d (unflag ?u))"
    using on_cpu_nonnull [OF c] by (simp add: request_switch_def rd_def)
  moreover have "\<not> woken (blocked (tid t) d (unflag ?u))" by (simp only: blocked_fields not_woken_unflag simp_thms)
  ultimately show ?thesis
    by (intro exI [of _ "blocked (tid t) d (unflag ?u)"] exI [of _ ?k']) (simp add: request_switch_def)
qed

text \<open>An asynchronous sleep: asleep until its deadline, then done.\<close>

lemma async_sleep_blocks:
  assumes c: "on_cpu k p t" and d: "ticks k < sl_deadline f"
  shows "\<exists>u k'. block_on_turn sleep_poll w Polling (f, k) = Some (Again, Parked (tid t) (sl_deadline f), f, k')
    \<and> rd k' p = Some u \<and> st u = Blocked \<and> blocked_on u = tid t \<and> block_deadline u = sl_deadline f \<and> \<not> woken u
    \<and> ticks k' = ticks k \<and> switch_pending k'"
proof (rule pending_blocks [OF c])
  show d0: "sl_deadline f \<noteq> 0" using d by auto
  show "ticks k < sl_deadline f" by (rule d)
  have "on_cpu (put p (undated t) k) p (undated t)" by (rule on_cpu_put [OF c])
  from set_timer_run [OF this _ d0] d
  show "sleep_poll w (f, put p (undated t) k) = Some (None, f, put p ((undated t)\<lparr>block_deadline := sl_deadline f\<rparr>) k)"
    by (simp add: sleep_poll_def tick_count_def put_put not_le)
qed

lemma async_sleep_done:
  assumes c: "on_cpu k p t" and d: "sl_deadline f \<le> ticks k"
  shows "block_on_turn sleep_poll w Polling (f, k) = Some (Done (), Polling, f, put p (undated t) k)"
  using clear_run [OF c] d
  by (cases "clear_wake_flag k") (simp_all add: block_on_turn_def sleep_poll_def tick_count_def)

lemma parked_resumes:
  assumes c: "on_cpu k p t" and d: "woken t \<or> d \<noteq> 0 \<and> d \<le> ticks k"
  shows "block_on_turn poll w (Parked i d) (f, k) = Some (Again, Polling, f, put p (unflag t) k)"
  using park_in_run [OF c, of i d f] d by (simp add: block_on_turn_def)

text \<open>A pending \<open>SignalWait\<close> with a deadline does not register with the signal: setting the
  signal leaves the task blocked until the deadline.\<close>

lemma async_signal_sleeps_on:
  assumes c: "on_cpu k p t" and g: "\<not> sig_set g" "sig_waiter g = 0" and d: "d \<noteq> 0" "ticks k < d"
  shows "\<exists>u k'. block_on_turn signal_poll w Polling ((d, g), k) = Some (Again, Parked (tid t) d, (d, g), k')
    \<and> rd k' p = Some u \<and> st u = Blocked \<and> blocked_on u = tid t \<and> block_deadline u = d \<and> \<not> woken u
    \<and> ticks k' = ticks k \<and> switch_pending k' \<and> signal_set (g, k') = Some (g\<lparr>sig_set := True\<rparr>, k')"
proof -
  have e: "g\<lparr>sig_set := False\<rparr> = g" "g\<lparr>sig_set := True, sig_waiter := 0\<rparr> = g\<lparr>sig_set := True\<rparr>"
    using g by (cases g; simp)+
  have c1: "on_cpu (put p (undated t) k) p (undated t)" by (rule on_cpu_put [OF c])
  have "signal_poll w ((d, g), put p (undated t) k)
      = Some (None, (d, g), put p ((undated t)\<lparr>block_deadline := d\<rparr>) k)"
    using set_timer_run [OF c1 _ d(1)] d g e
    by (simp add: signal_poll_def signal_try_take_def tick_count_def put_put not_le)
  from pending_blocks [OF c d, of signal_poll w, OF this] show ?thesis
    using g e by (simp add: signal_set_def Let_def)
qed

end
