(* ===== verification/RkIo.thy ===== *)
theory RkIo
  imports RkExec
begin

text \<open>
  \<^verbatim>\<open>src/io.rs\<close>: the byte pipe an interrupt handler writes and a task reads.  The ring
  buffer is shown to refine a list: \<open>contents\<close> is what is still to be read, in order, and no
  accepted byte is lost, duplicated or reordered, also across the wrap of the 32-bit indices.
\<close>

unbundle bit_operations_syntax

definition PIPE_CAPACITY :: usize where
  "PIPE_CAPACITY = 256"

datatype pipe_error = PipeTimeout | PipeClosed

definition pipe_error_from :: "event_timeout \<Rightarrow> pipe_error" where
  "pipe_error_from e = PipeTimeout"

definition pipe_error_display :: "pipe_error \<Rightarrow> string" where
  "pipe_error_display e = (case e of
     PipeTimeout \<Rightarrow> ''stream timed out''
   | PipeClosed \<Rightarrow> ''stream closed'')"

record pipe =
  p_buf :: "u8 list"
  p_head :: usize
  p_tail :: usize
  p_data :: signal
  p_space :: signal

definition pipe_new :: pipe where
  "pipe_new = \<lparr>p_buf = replicate 256 0, p_head = 0, p_tail = 0,
     p_data = signal_new, p_space = signal_new\<rparr>"

definition pipe_len :: "pipe \<Rightarrow> usize" where
  "pipe_len p = p_head p - p_tail p"

definition pipe_is_empty :: "pipe \<Rightarrow> bool" where
  "pipe_is_empty p = (pipe_len p = 0)"

definition room :: "pipe \<Rightarrow> usize" where
  "room p = PIPE_CAPACITY - pipe_len p"

text \<open>The slot of a free-running index.\<close>

definition slot_of :: "usize \<Rightarrow> nat" where
  "slot_of i = unat (i AND (PIPE_CAPACITY - 1))"

definition set_data :: "pipe \<times> kernel \<Rightarrow> (pipe \<times> kernel) option" where
  "set_data s = do { (g, k) \<leftarrow> signal_set (p_data (fst s), snd s); Some ((fst s)\<lparr>p_data := g\<rparr>, k) }"

definition set_space :: "pipe \<times> kernel \<Rightarrow> (pipe \<times> kernel) option" where
  "set_space s = do { (g, k) \<leftarrow> signal_set (p_space (fst s), snd s); Some ((fst s)\<lparr>p_space := g\<rparr>, k) }"

definition push_byte :: "u8 \<Rightarrow> pipe \<Rightarrow> bool \<times> pipe" where
  "push_byte b p =
     (let h = p_head p; t = p_tail p in
      if h - t \<ge> PIPE_CAPACITY then (False, p)
      else (True, p\<lparr>p_buf := (p_buf p)[slot_of h := b], p_head := h + 1\<rparr>))"

definition push_from_isr :: "u8 \<Rightarrow> pipe \<times> kernel \<Rightarrow> (bool \<times> pipe \<times> kernel) option" where
  "push_from_isr b s =
     (let (ok, p) = push_byte b (fst s) in
      if ok then do { s \<leftarrow> set_data (p, snd s); Some (True, s) } else Some (False, p, snd s))"

text \<open>The critical section of \<open>pop_into\<close>: the bytes taken are returned in the prefix of \<open>out\<close>.\<close>

definition pop_bytes :: "u8 list \<Rightarrow> pipe \<Rightarrow> usize \<times> u8 list \<times> pipe" where
  "pop_bytes out p =
     (let h = p_head p; t = p_tail p; avail = min (h - t) (of_nat (length out));
          out = fold (\<lambda>i out. out[i := p_buf p ! slot_of (t + of_nat i)]) [0..<unat avail] out
      in (avail, out, p\<lparr>p_tail := t + avail\<rparr>))"

definition pop_into :: "u8 list \<Rightarrow> pipe \<times> kernel \<Rightarrow> (usize \<times> u8 list \<times> pipe \<times> kernel) option" where
  "pop_into out s =
     (let (n, out, p) = pop_bytes out (fst s) in
      if n > 0 then do { s \<leftarrow> set_space (p, snd s); Some (n, out, s) } else Some (n, out, p, snd s))"

definition write_bytes :: "u8 list \<Rightarrow> pipe \<Rightarrow> usize \<times> pipe" where
  "write_bytes data p =
     (let h = p_head p; t = p_tail p; rm = PIPE_CAPACITY - (h - t); n = min rm (of_nat (length data));
          buf = fold (\<lambda>i buf. buf[slot_of (h + of_nat i) := data ! i]) [0..<unat n] (p_buf p)
      in (n, p\<lparr>p_buf := buf, p_head := h + n\<rparr>))"

definition write_from_isr :: "u8 list \<Rightarrow> pipe \<times> kernel \<Rightarrow> (usize \<times> pipe \<times> kernel) option" where
  "write_from_isr data s =
     (let (n, p) = write_bytes data (fst s) in
      if n > 0 then do { s \<leftarrow> set_data (p, snd s); Some (n, s) } else Some (n, p, snd s))"

section \<open>Blocking transfers\<close>

text \<open>Where a blocking transfer is when it is next on the CPU: at the head of its loop, or in
  the loop of \<open>Signal::wait\<close>, which was entered by task \<open>me\<close>.\<close>

datatype io_point = AtLoop | InWait u32

text \<open>One turn of \<open>wait\<close> on a signal inside a transfer: the error that ends the transfer, or
  where it goes on.\<close>

definition wait_in ::
  "u32 \<Rightarrow> u64 option \<Rightarrow> signal \<times> kernel \<Rightarrow> ((pipe_error option \<times> io_point) \<times> signal \<times> kernel) option" where
  "wait_in me deadline s = do {
     (r, s) \<leftarrow> signal_wait_turn me (or_zero deadline) s;
     Some ((case r of
         Again \<Rightarrow> (None, InWait me)
       | Done (Inl e) \<Rightarrow> (Some (pipe_error_from e), AtLoop)
       | Done (Inr _) \<Rightarrow> (None, AtLoop)), s)
   }"

definition read_wait ::
  "u32 \<Rightarrow> u64 option \<Rightarrow> u8 list \<Rightarrow> pipe \<times> kernel
     \<Rightarrow> ((pipe_error + usize) progress \<times> io_point \<times> u8 list \<times> pipe \<times> kernel) option" where
  "read_wait me deadline out s = do {
     ((r, at), g, k) \<leftarrow> wait_in me deadline (p_data (fst s), snd s);
     Some (case r of Some e \<Rightarrow> Done (Inl e) | None \<Rightarrow> Again, at, out, (fst s)\<lparr>p_data := g\<rparr>, k)
   }"

definition read_blocking_turn ::
  "u64 option \<Rightarrow> io_point \<Rightarrow> u8 list \<Rightarrow> pipe \<times> kernel
     \<Rightarrow> ((pipe_error + usize) progress \<times> io_point \<times> u8 list \<times> pipe \<times> kernel) option" where
  "read_blocking_turn deadline at out s = (case at of
     InWait me \<Rightarrow> read_wait me deadline out s
   | AtLoop \<Rightarrow> do {
       (n, out, s) \<leftarrow> pop_into out s;
       if n > 0 then Some (Done (Inr n), AtLoop, out, s)
       else do { me \<leftarrow> current_task_id (snd s); read_wait me deadline out s }
     })"

definition write_wait ::
  "u32 \<Rightarrow> u64 option \<Rightarrow> usize \<Rightarrow> pipe \<times> kernel
     \<Rightarrow> ((pipe_error + usize) progress \<times> io_point \<times> usize \<times> pipe \<times> kernel) option" where
  "write_wait me deadline written s = do {
     ((r, at), g, k) \<leftarrow> wait_in me deadline (p_space (fst s), snd s);
     Some (case r of Some e \<Rightarrow> Done (Inl e) | None \<Rightarrow> Again, at, written, (fst s)\<lparr>p_space := g\<rparr>, k)
   }"

definition write_blocking_turn ::
  "u64 option \<Rightarrow> u8 list \<Rightarrow> io_point \<Rightarrow> usize \<Rightarrow> pipe \<times> kernel
     \<Rightarrow> ((pipe_error + usize) progress \<times> io_point \<times> usize \<times> pipe \<times> kernel) option" where
  "write_blocking_turn deadline data at written s = (case at of
     InWait me \<Rightarrow> write_wait me deadline written s
   | AtLoop \<Rightarrow>
       if \<not> written < of_nat (length data) then Some (Done (Inr written), AtLoop, written, s)
       else do {
         (n, s) \<leftarrow> write_from_isr (drop (unat written) data) s;
         let written = written + n;
         if written = of_nat (length data) then Some (Done (Inr written), AtLoop, written, s)
         else do { me \<leftarrow> current_task_id (snd s); write_wait me deadline written s }
       })"

definition DEFAULT_IO_TIMEOUT_MS :: u64 where
  "DEFAULT_IO_TIMEOUT_MS = 1000"

definition default_deadline :: "port \<Rightarrow> kernel \<Rightarrow> u64 option" where
  "default_deadline P k = do {
     n \<leftarrow> ticks_for P (dur_from_millis DEFAULT_IO_TIMEOUT_MS) k;
     Some (deadline_after_ticks n k)
   }"

text \<open>The trait implementations: the first turn of a blocking transfer with the default deadline.\<close>

definition pipe_read ::
  "port \<Rightarrow> u8 list \<Rightarrow> pipe \<times> kernel
     \<Rightarrow> ((pipe_error + usize) progress \<times> io_point \<times> u8 list \<times> pipe \<times> kernel) option" where
  "pipe_read P out s = do {
     d \<leftarrow> default_deadline P (snd s);
     read_blocking_turn (Some d) AtLoop out s
   }"

definition pipe_write ::
  "port \<Rightarrow> u8 list \<Rightarrow> pipe \<times> kernel
     \<Rightarrow> ((pipe_error + usize) progress \<times> io_point \<times> usize \<times> pipe \<times> kernel) option" where
  "pipe_write P data s = do {
     d \<leftarrow> default_deadline P (snd s);
     write_blocking_turn (Some d) data AtLoop 0 s
   }"

text \<open>The asynchronous reader and writer as futures: the state is the deadline of the
  \<open>SignalWait\<close> being awaited, if any.\<close>

partial_function (option) async_read_poll ::
  "port \<Rightarrow> u64 option \<Rightarrow> u8 list \<Rightarrow> pipe \<times> kernel
     \<Rightarrow> ((pipe_error + usize) option \<times> u64 option \<times> u8 list \<times> pipe \<times> kernel) option" where
  "async_read_poll P w out s = do {
     (n, out, s) \<leftarrow> (if w = None then pop_into out s else Some (0, out, s));
     if n > 0 then Some (Some (Inr n), None, out, s)
     else do {
       d \<leftarrow> (case w of Some d \<Rightarrow> Some d | None \<Rightarrow> default_deadline P (snd s));
       (r, (d, g), k) \<leftarrow> signal_poll 0 ((d, p_data (fst s)), snd s);
       let s = ((fst s)\<lparr>p_data := g\<rparr>, k);
       (case r of
          None \<Rightarrow> Some (None, Some d, out, s)
        | Some (Inl e) \<Rightarrow> Some (Some (Inl (pipe_error_from e)), None, out, s)
        | Some (Inr _) \<Rightarrow> async_read_poll P None out s)
     }
   }"

partial_function (option) async_write_poll ::
  "port \<Rightarrow> u64 option \<Rightarrow> u8 list \<Rightarrow> pipe \<times> kernel
     \<Rightarrow> ((pipe_error + usize) option \<times> u64 option \<times> pipe \<times> kernel) option" where
  "async_write_poll P w data s = do {
     (n, s) \<leftarrow> (if w = None then write_from_isr data s else Some (0, s));
     if n > 0 then Some (Some (Inr n), None, s)
     else do {
       d \<leftarrow> (case w of Some d \<Rightarrow> Some d | None \<Rightarrow> default_deadline P (snd s));
       (r, (d, g), k) \<leftarrow> signal_poll 0 ((d, p_space (fst s)), snd s);
       let s = ((fst s)\<lparr>p_space := g\<rparr>, k);
       (case r of
          None \<Rightarrow> Some (None, Some d, s)
        | Some (Inl e) \<Rightarrow> Some (Some (Inl (pipe_error_from e)), None, s)
        | Some (Inr _) \<Rightarrow> async_write_poll P None data s)
     }
   }"

section \<open>The ring buffer holds a list\<close>

definition pipe_ok :: "pipe \<Rightarrow> bool" where
  "pipe_ok p = (length (p_buf p) = 256 \<and> unat (pipe_len p) \<le> 256)"

definition contents :: "pipe \<Rightarrow> u8 list" where
  "contents p = map (\<lambda>i. p_buf p ! slot_of (p_tail p + of_nat i)) [0..<unat (pipe_len p)]"

lemma slot_of_mod: "slot_of (t + of_nat i) = (unat t + i) mod 256"
proof -
  have "slot_of x = unat x mod 256" for x
  proof -
    have "x AND (PIPE_CAPACITY - 1) = take_bit 8 x"
      by (simp add: PIPE_CAPACITY_def take_bit_eq_mask mask_eq_exp_minus_1)
    then have "slot_of x = unat (x mod 256)" by (simp add: slot_of_def take_bit_eq_mod)
    then show ?thesis by (simp add: unat_mod)
  qed
  moreover have "unat (t + of_nat i) mod 256 = (unat t + i) mod 256"
    by (simp add: unat_word_ariths unat_of_nat mod_mod_cancel mod_add_right_eq)
  ultimately show ?thesis by simp
qed

lemma slot_inj_le:
  assumes "i \<le> j" "j < 256" "(u + i) mod 256 = (u + j) mod (256::nat)" shows "i = j"
proof -
  have "256 dvd (u + j) - (u + i)"
    using assms by (intro mod_eq_dvd_iff_nat [THEN iffD1]) simp_all
  then have "256 dvd j - i" by simp
  then show ?thesis using assms by (auto dest: dvd_imp_le)
qed

lemma slot_inj:
  assumes "i < 256" "j < 256" "(u + i) mod 256 = (u + j) mod (256::nat)" shows "i = j"
  using slot_inj_le [of i j u] slot_inj_le [of j i u] assms by (cases "i \<le> j") auto

text \<open>Slots in terms of the tail.\<close>

lemma head_slot: "slot_of (p_head p + of_nat i) = (unat (p_tail p) + (unat (pipe_len p) + i)) mod 256"
proof -
  have "p_head p + of_nat i = p_tail p + of_nat (unat (pipe_len p) + i)"
    by (simp add: pipe_len_def)
  then show ?thesis by (simp only: slot_of_mod)
qed

lemma contents_nth: "contents p = map (\<lambda>i. p_buf p ! ((unat (p_tail p) + i) mod 256)) [0..<unat (pipe_len p)]"
  by (simp add: contents_def slot_of_mod)

lemma length_contents: "length (contents p) = unat (pipe_len p)"
  by (simp add: contents_def)

lemma fill_slots:
  fixes u :: nat and data :: "u8 list"
  assumes "l + n \<le> 256" and "length buf = 256"
  defines "B \<equiv> fold (\<lambda>i buf. buf[(u + (l + i)) mod 256 := data ! i]) [0..<n] buf"
  shows "length B = 256 \<and> (\<forall>j<256. B ! ((u + j) mod 256) =
    (if l \<le> j \<and> j < l + n then data ! (j - l) else buf ! ((u + j) mod 256)))"
  using assms(1) unfolding B_def
proof (induction n)
  case 0
  then show ?case using assms(2) by auto
next
  case (Suc n)
  let ?B = "fold (\<lambda>i buf. buf[(u + (l + i)) mod 256 := data ! i]) [0..<n] buf"
  have IH: "length ?B = 256" "\<forall>j<256. ?B ! ((u + j) mod 256) =
    (if l \<le> j \<and> j < l + n then data ! (j - l) else buf ! ((u + j) mod 256))"
    using Suc.IH Suc.prems by simp_all
  have ln: "l + n < 256" using Suc.prems by simp
  have "?B[(u + (l + n)) mod 256 := data ! n] ! ((u + j) mod 256) =
    (if l \<le> j \<and> j < l + Suc n then data ! (j - l) else buf ! ((u + j) mod 256))" if j: "j < 256" for j
  proof (cases "j = l + n")
    case True
    then show ?thesis using IH(1) by simp
  next
    case False
    then have "(u + (l + n)) mod 256 \<noteq> (u + j) mod 256" using slot_inj [OF ln j] by auto
    then show ?thesis using IH j False by auto
  qed
  then show ?case using IH(1) by simp
qed

text \<open>Reading a prefix into the caller's buffer.\<close>

lemma fold_copy:
  "n \<le> length out \<Longrightarrow> fold (\<lambda>i out. out[i := f i]) [0..<n] out = map f [0..<n] @ drop n out"
proof (induction n)
  case (Suc n)
  then show ?case
    by (simp add: list_update_append Cons_nth_drop_Suc [symmetric])
qed simp

section \<open>The operations on the list\<close>

lemma pipe_new_ok: "pipe_ok pipe_new" and contents_new: "contents pipe_new = []"
  by (simp_all add: pipe_new_def pipe_ok_def pipe_len_def contents_def)

lemma room_unat: "pipe_ok p \<Longrightarrow> unat (room p) = 256 - unat (pipe_len p)"
  by (simp add: room_def pipe_ok_def PIPE_CAPACITY_def unat_sub word_le_nat_alt)

lemma grown_len:
  assumes "pipe_ok p" and "unat (pipe_len p) + unat n \<le> 256"
  shows "unat (pipe_len (p\<lparr>p_buf := b, p_head := p_head p + n\<rparr>)) = unat (pipe_len p) + unat n"
proof -
  have "pipe_len (p\<lparr>p_buf := b, p_head := p_head p + n\<rparr>) = pipe_len p + n"
    by (simp add: pipe_len_def)
  then show ?thesis using assms unat_plus_small [of "pipe_len p" n] by simp
qed

lemma grown_contents:
  assumes ok: "pipe_ok p" and n: "unat (pipe_len p) + unat n \<le> 256"
    and b: "b = fold (\<lambda>i buf. buf[slot_of (p_head p + of_nat i) := data ! i]) [0..<unat n] (p_buf p)"
    and d: "unat n \<le> length data"
  shows "pipe_ok (p\<lparr>p_buf := b, p_head := p_head p + n\<rparr>)"
    and "contents (p\<lparr>p_buf := b, p_head := p_head p + n\<rparr>) = contents p @ take (unat n) data"
proof -
  let ?l = "unat (pipe_len p)" and ?u = "unat (p_tail p)"
  have len: "length (p_buf p) = 256" using ok by (simp add: pipe_ok_def)
  have B: "length b = 256" "\<forall>j<256. b ! ((?u + j) mod 256) =
     (if ?l \<le> j \<and> j < ?l + unat n then data ! (j - ?l) else p_buf p ! ((?u + j) mod 256))"
    using fill_slots [OF n len, of ?u data] unfolding b head_slot by blast+
  show "pipe_ok (p\<lparr>p_buf := b, p_head := p_head p + n\<rparr>)"
    unfolding pipe_ok_def grown_len [OF ok n] using B(1) n by simp
  have "map (\<lambda>i. b ! ((?u + i) mod 256)) [0..<?l + unat n] = contents p @ take (unat n) data"
  proof (rule nth_equalityI)
    show "length (map (\<lambda>i. b ! ((?u + i) mod 256)) [0..<?l + unat n]) = length (contents p @ take (unat n) data)"
      using d by (simp add: length_contents)
  next
    fix i
    assume "i < length (map (\<lambda>i. b ! ((?u + i) mod 256)) [0..<?l + unat n])"
    then have i: "i < ?l + unat n" by simp
    then show "map (\<lambda>i. b ! ((?u + i) mod 256)) [0..<?l + unat n] ! i = (contents p @ take (unat n) data) ! i"
      using B(2) n by (auto simp: nth_append length_contents) (simp add: contents_nth)
  qed
  then show "contents (p\<lparr>p_buf := b, p_head := p_head p + n\<rparr>) = contents p @ take (unat n) data"
    unfolding contents_nth [of "p\<lparr>p_buf := b, p_head := p_head p + n\<rparr>"] grown_len [OF ok n] by simp
qed

lemma push_byte_ok:
  assumes ok: "pipe_ok p"
  shows "case push_byte b p of (sent, p') \<Rightarrow>
    pipe_ok p' \<and> sent = (length (contents p) < 256) \<and>
    contents p' = contents p @ (if sent then [b] else [])"
proof (cases "unat (pipe_len p) < 256")
  case True
  have n: "unat (pipe_len p) + unat (1::u32) \<le> 256" using True by simp
  have e: "(p_buf p)[slot_of (p_head p) := b]
      = fold (\<lambda>i buf. buf[slot_of (p_head p + of_nat i) := [b] ! i]) [0..<unat (1::u32)] (p_buf p)"
    by simp
  have "push_byte b p = (True, p\<lparr>p_buf := (p_buf p)[slot_of (p_head p) := b], p_head := p_head p + 1\<rparr>)"
    using True by (simp add: push_byte_def PIPE_CAPACITY_def pipe_len_def word_le_nat_alt Let_def)
  then show ?thesis
    using grown_contents [OF ok n e] True by (simp add: length_contents)
next
  case False
  then have "push_byte b p = (False, p)"
    by (simp add: push_byte_def PIPE_CAPACITY_def pipe_len_def word_le_nat_alt Let_def)
  then show ?thesis using ok False by (simp add: length_contents)
qed

lemma write_bytes_ok:
  assumes ok: "pipe_ok p" and small: "length data < 2 ^ 32"
  shows "case write_bytes data p of (n, p') \<Rightarrow>
    pipe_ok p' \<and> unat n = min (256 - length (contents p)) (length data) \<and>
    contents p' = contents p @ take (unat n) data"
proof -
  let ?n = "min (room p) (of_nat (length data))"
  let ?b = "fold (\<lambda>i buf. buf[slot_of (p_head p + of_nat i) := data ! i]) [0..<unat ?n] (p_buf p)"
  have ld: "unat (of_nat (length data) :: u32) = length data"
    using small by (simp add: unat_of_nat)
  have un: "unat ?n = min (256 - unat (pipe_len p)) (length data)"
    using room_unat [OF ok] ld by (auto simp: min_def word_le_nat_alt)
  have n: "unat (pipe_len p) + unat ?n \<le> 256" "unat ?n \<le> length data"
    using un ok by (auto simp: pipe_ok_def)
  have "write_bytes data p = (?n, p\<lparr>p_buf := ?b, p_head := p_head p + ?n\<rparr>)"
    by (simp add: write_bytes_def room_def pipe_len_def Let_def)
  then show ?thesis
    using grown_contents [OF ok n(1) refl n(2)] un by (simp add: length_contents)
qed

lemma pop_bytes_ok:
  assumes ok: "pipe_ok p" and small: "length out < 2 ^ 32"
  shows "case pop_bytes out p of (n, out', p') \<Rightarrow>
    pipe_ok p' \<and> unat n = min (length (contents p)) (length out) \<and>
    out' = take (unat n) (contents p) @ drop (unat n) out \<and> contents p' = drop (unat n) (contents p)"
proof -
  let ?n = "min (pipe_len p) (of_nat (length out))"
  let ?p = "p\<lparr>p_tail := p_tail p + ?n\<rparr>"
  have ld: "unat (of_nat (length out) :: u32) = length out"
    using small by (simp add: unat_of_nat)
  have un: "unat ?n = min (unat (pipe_len p)) (length out)"
    using ld by (auto simp: min_def word_le_nat_alt)
  have run: "pop_bytes out p = (?n, take (unat ?n) (contents p) @ drop (unat ?n) out, ?p)"
  proof -
    have "fold (\<lambda>i out. out[i := p_buf p ! slot_of (p_tail p + of_nat i)]) [0..<unat ?n] out
        = take (unat ?n) (contents p) @ drop (unat ?n) out"
      using un by (subst fold_copy) (simp_all add: contents_def take_map min_def)
    then show ?thesis by (simp add: pop_bytes_def pipe_len_def Let_def)
  qed
  have l: "pipe_len ?p = pipe_len p - ?n" by (simp add: pipe_len_def)
  have ul: "unat (pipe_len ?p) = unat (pipe_len p) - unat ?n"
    unfolding l using un by (simp add: unat_sub word_le_nat_alt)
  have t: "slot_of (p_tail p + ?n + of_nat i) = slot_of (p_tail p + of_nat (unat ?n + i))" for i
    by (simp add: add.assoc)
  have "contents ?p = drop (unat ?n) (contents p)"
  proof (rule nth_equalityI)
    show "length (contents ?p) = length (drop (unat ?n) (contents p))"
      using ul by (simp add: length_contents)
  next
    fix i
    assume "i < length (contents ?p)"
    then have i: "i < unat (pipe_len p) - unat ?n" by (simp only: length_contents ul)
    have "contents ?p ! i = p_buf p ! slot_of (p_tail p + ?n + of_nat i)"
      unfolding contents_def using i by (simp add: ul del: l)
    also have "\<dots> = contents p ! (unat ?n + i)"
    proof -
      have "unat ?n + i < unat (pipe_len p)" using i by simp
      then show ?thesis unfolding t contents_def by (simp only: nth_map length_upt diff_zero nth_upt add_0)
    qed
    finally show "contents ?p ! i = drop (unat ?n) (contents p) ! i"
      using i by (simp add: length_contents)
  qed
  moreover have "pipe_ok ?p" unfolding pipe_ok_def ul using ok by (auto simp: pipe_ok_def)
  ultimately show ?thesis using run un by (simp add: length_contents)
qed

section \<open>A run of the pipe\<close>

text \<open>Bytes accepted and delivered so far, the pipe and the kernel, after one operation.\<close>

datatype pipe_op = PushOp u8 | WriteOp "u8 list" | PopOp "u8 list"

fun pipe_do :: "pipe_op \<Rightarrow> u8 list \<times> u8 list \<times> pipe \<times> kernel \<Rightarrow> (u8 list \<times> u8 list \<times> pipe \<times> kernel) option" where
  "pipe_do (PushOp b) (sent, got, s) = do {
     (ok, s) \<leftarrow> push_from_isr b s; Some (if ok then sent @ [b] else sent, got, s) }"
| "pipe_do (WriteOp bs) (sent, got, s) = do {
     (n, s) \<leftarrow> write_from_isr bs s; Some (sent @ take (unat n) bs, got, s) }"
| "pipe_do (PopOp out) (sent, got, s) = do {
     (n, out, s) \<leftarrow> pop_into out s; Some (sent, got @ take (unat n) out, s) }"

fun pipe_run :: "pipe_op list \<Rightarrow> u8 list \<times> u8 list \<times> pipe \<times> kernel \<Rightarrow> (u8 list \<times> u8 list \<times> pipe \<times> kernel) option" where
  "pipe_run [] s = Some s"
| "pipe_run (a # as) s = do { s \<leftarrow> pipe_do a s; pipe_run as s }"

fun op_small :: "pipe_op \<Rightarrow> bool" where
  "op_small (PushOp b) = True"
| "op_small (WriteOp bs) = (length bs < 2 ^ 32)"
| "op_small (PopOp out) = (length out < 2 ^ 32)"

text \<open>The signals do not touch the bytes.\<close>

definition same_bytes :: "pipe \<Rightarrow> pipe \<Rightarrow> bool" where
  "same_bytes p q = (p_buf q = p_buf p \<and> p_head q = p_head p \<and> p_tail q = p_tail p)"

lemma same_bytesD: "same_bytes p q \<Longrightarrow> contents q = contents p \<and> (pipe_ok q \<longleftrightarrow> pipe_ok p)"
  by (simp add: same_bytes_def contents_def pipe_ok_def pipe_len_def)

lemma set_data_ok:
  assumes "tree_ok k T"
  shows "\<exists>q k'. set_data (p, k) = Some (q, k') \<and> same_bytes p q \<and> tree_ok k' T"
proof -
  from signal_set_ok [OF assms, of "p_data p"] obtain g k' where
    "signal_set (p_data p, k) = Some (g, k')" "tree_ok k' T" by blast
  then show ?thesis
    by (intro exI [of _ "p\<lparr>p_data := g\<rparr>"] exI [of _ k']) (simp add: set_data_def same_bytes_def)
qed

lemma set_space_ok:
  assumes "tree_ok k T"
  shows "\<exists>q k'. set_space (p, k) = Some (q, k') \<and> same_bytes p q \<and> tree_ok k' T"
proof -
  from signal_set_ok [OF assms, of "p_space p"] obtain g k' where
    "signal_set (p_space p, k) = Some (g, k')" "tree_ok k' T" by blast
  then show ?thesis
    by (intro exI [of _ "p\<lparr>p_space := g\<rparr>"] exI [of _ k']) (simp add: set_space_def same_bytes_def)
qed

lemma push_from_isr_ok:
  assumes "pipe_ok p" and "tree_ok k T"
  shows "\<exists>p' k'. push_from_isr b (p, k) = Some (length (contents p) < 256, p', k') \<and> pipe_ok p' \<and> tree_ok k' T
    \<and> contents p' = contents p @ (if length (contents p) < 256 then [b] else [])"
proof -
  obtain sent q where q: "push_byte b p = (sent, q)" by (cases "push_byte b p")
  with push_byte_ok [OF assms(1), of b] have *: "pipe_ok q" "sent = (length (contents p) < 256)"
    "contents q = contents p @ (if sent then [b] else [])" by simp_all
  from set_data_ok [OF assms(2), of q] obtain r k' where r: "set_data (q, k) = Some (r, k')"
    "same_bytes q r" "tree_ok k' T" by blast
  show ?thesis
  proof (cases sent)
    case True
    then show ?thesis using q * r same_bytesD [OF r(2)] by (simp add: push_from_isr_def)
  next
    case False
    then show ?thesis using q * assms(2) by (simp add: push_from_isr_def)
  qed
qed

lemma write_from_isr_ok:
  assumes "pipe_ok p" and "tree_ok k T" and "length bs < 2 ^ 32"
  shows "\<exists>n p' k'. write_from_isr bs (p, k) = Some (n, p', k') \<and> pipe_ok p' \<and> tree_ok k' T
    \<and> unat n = min (256 - length (contents p)) (length bs) \<and> contents p' = contents p @ take (unat n) bs"
proof -
  obtain n q where q: "write_bytes bs p = (n, q)" by (cases "write_bytes bs p")
  with write_bytes_ok [OF assms(1,3)] have *: "pipe_ok q" "unat n = min (256 - length (contents p)) (length bs)"
    "contents q = contents p @ take (unat n) bs" by simp_all
  from set_data_ok [OF assms(2), of q] obtain r k' where r: "set_data (q, k) = Some (r, k')"
    "same_bytes q r" "tree_ok k' T" by blast
  show ?thesis
  proof (cases "n > 0")
    case True
    then show ?thesis using q * r same_bytesD [OF r(2)]
      by (intro exI [of _ n] exI [of _ r] exI [of _ k']) (simp add: write_from_isr_def)
  next
    case False
    then show ?thesis using q * assms(2)
      by (intro exI [of _ n] exI [of _ q] exI [of _ k]) (simp add: write_from_isr_def)
  qed
qed

lemma pop_into_ok:
  assumes "pipe_ok p" and "tree_ok k T" and "length out < 2 ^ 32"
  shows "\<exists>n p' k'. pop_into out (p, k) = Some (n, take (unat n) (contents p) @ drop (unat n) out, p', k')
    \<and> pipe_ok p' \<and> tree_ok k' T \<and> unat n = min (length (contents p)) (length out)
    \<and> contents p' = drop (unat n) (contents p)"
proof -
  obtain n out' q where q: "pop_bytes out p = (n, out', q)" by (cases "pop_bytes out p")
  with pop_bytes_ok [OF assms(1,3)] have *: "pipe_ok q" "unat n = min (length (contents p)) (length out)"
    "out' = take (unat n) (contents p) @ drop (unat n) out" "contents q = drop (unat n) (contents p)"
    by simp_all
  from set_space_ok [OF assms(2), of q] obtain r k' where r: "set_space (q, k) = Some (r, k')"
    "same_bytes q r" "tree_ok k' T" by blast
  show ?thesis
  proof (cases "n > 0")
    case True
    then show ?thesis using q * r same_bytesD [OF r(2)]
      by (intro exI [of _ n] exI [of _ r] exI [of _ k']) (simp add: pop_into_def)
  next
    case False
    then show ?thesis using q * assms(2)
      by (intro exI [of _ n] exI [of _ q] exI [of _ k]) (simp add: pop_into_def)
  qed
qed

lemma pipe_do_ok:
  assumes "pipe_ok p" and "tree_ok k T" and "op_small a" and "c @ sent = got @ contents p"
  shows "\<exists>sent' got' p' k'. pipe_do a (sent, got, p, k) = Some (sent', got', p', k') \<and> pipe_ok p' \<and> tree_ok k' T
    \<and> c @ sent' = got' @ contents p'"
proof (cases a)
  case (PushOp b)
  from push_from_isr_ok [OF assms(1,2), of b] obtain p' k' where
    *: "push_from_isr b (p, k) = Some (length (contents p) < 256, p', k')" "pipe_ok p'" "tree_ok k' T"
    "contents p' = contents p @ (if length (contents p) < 256 then [b] else [])" by blast
  then show ?thesis using PushOp assms(4)
    by (simp flip: append_assoc)
next
  case (WriteOp bs)
  from write_from_isr_ok [OF assms(1,2), of bs] assms(3) WriteOp obtain n p' k' where
    *: "write_from_isr bs (p, k) = Some (n, p', k')" "pipe_ok p'" "tree_ok k' T"
    "contents p' = contents p @ take (unat n) bs" by auto
  then show ?thesis using WriteOp assms(4)
    by (simp flip: append_assoc)
next
  case (PopOp out)
  from pop_into_ok [OF assms(1,2), of out] assms(3) PopOp obtain n p' k' where
    *: "pop_into out (p, k) = Some (n, take (unat n) (contents p) @ drop (unat n) out, p', k')" "pipe_ok p'"
    "tree_ok k' T" "unat n = min (length (contents p)) (length out)" "contents p' = drop (unat n) (contents p)"
    by auto
  then show ?thesis using PopOp assms(4) by simp
qed

lemma pipe_run_ok:
  assumes "pipe_ok p" and "tree_ok k T" and "list_all op_small as" and "c @ sent = got @ contents p"
  shows "\<exists>sent' got' p' k'. pipe_run as (sent, got, p, k) = Some (sent', got', p', k') \<and> pipe_ok p' \<and> tree_ok k' T
    \<and> c @ sent' = got' @ contents p'"
  using assms
proof (induction as arbitrary: sent got p k)
  case (Cons a as)
  from pipe_do_ok [OF Cons.prems(1,2) _ Cons.prems(4), of a] Cons.prems(3) obtain sent' got' p' k' where
    *: "pipe_do a (sent, got, p, k) = Some (sent', got', p', k')" "pipe_ok p'" "tree_ok k' T"
    "c @ sent' = got' @ contents p'" by auto
  from Cons.IH [OF *(2,3) _ *(4)] Cons.prems(3) *(1) show ?case by auto
qed auto

end
