(* ===== verification/RkPort.thy ===== *)
theory RkPort
  imports RkStart
begin

text \<open>
  What the bare-metal ports share: words stored and loaded in groups, and the two parts of
  \<open>port_contract\<close> that every port proves the same way.  A port's \<open>create_task\<close> allocates one
  block for the stack, writes a first frame into it and fills in the TCB; its
  \<open>adopt_current_task\<close> clears the stack fields of task 0.
\<close>

unbundle bit_operations_syntax

section \<open>Groups of words\<close>

definition store_words :: "u32 \<Rightarrow> u32 list \<Rightarrow> (ptr \<rightharpoonup> u32) \<Rightarrow> (ptr \<rightharpoonup> u32)" where
  "store_words a vs w = fold (\<lambda>(i, v) w. w(a + of_nat (4 * i) \<mapsto> v)) (enumerate 0 vs) w"

definition load_words :: "u32 \<Rightarrow> nat \<Rightarrow> (ptr \<rightharpoonup> u32) \<Rightarrow> u32 list option" where
  "load_words a n w = those (map (\<lambda>i. w (a + of_nat (4 * i))) [0..<n])"

lemma store_words_snoc: "store_words a (vs @ [v]) w = (store_words a vs w)(a + of_nat (4 * length vs) \<mapsto> v)"
  by (simp add: store_words_def enumerate_append_eq)

lemma word_offset_eq:
  assumes "4 * m < 2 ^ 32" and "4 * n < 2 ^ 32"
  shows "a + (of_nat (4 * m) :: u32) = a + of_nat (4 * n) \<longleftrightarrow> m = n"
proof
  assume "a + (of_nat (4 * m) :: u32) = a + of_nat (4 * n)"
  then have "(of_nat (4 * m) :: u32) = of_nat (4 * n)" by simp
  then have "unat (of_nat (4 * m) :: u32) = unat (of_nat (4 * n) :: u32)" by (rule arg_cong)
  then show "m = n" using assms by (simp only: unat_of_nat) simp
qed simp

lemma store_words_at:
  "4 * length vs < 2 ^ 32 \<Longrightarrow> i < length vs \<Longrightarrow> store_words a vs w (a + of_nat (4 * i)) = Some (vs ! i)"
proof (induction vs rule: rev_induct)
  case (snoc v vs)
  have ne: "a + (of_nat (4 * i) :: u32) = a + of_nat (4 * length vs) \<longleftrightarrow> i = length vs"
    using snoc.prems by (intro word_offset_eq) simp_all
  show ?case
  proof (cases "i = length vs")
    case True
    then show ?thesis by (simp add: store_words_snoc)
  next
    case False
    then have "store_words a vs w (a + of_nat (4 * i)) = Some (vs ! i)" using snoc by simp
    then show ?thesis unfolding store_words_snoc fun_upd_apply ne using False snoc.prems(2) by (simp add: nth_append)
  qed
qed simp

lemma store_words_other:
  "\<forall>i<length vs. b \<noteq> a + of_nat (4 * i) \<Longrightarrow> store_words a vs w b = w b"
proof (induction vs rule: rev_induct)
  case Nil
  show ?case by (simp add: store_words_def)
next
  case (snoc v vs)
  then show ?case by (simp add: store_words_snoc)
qed

lemma those_map_Some: "(\<And>i. i \<in> set xs \<Longrightarrow> f i = Some (g i)) \<Longrightarrow> those (map f xs) = Some (map g xs)"
  by (induction xs) auto

lemma load_all:
  assumes "\<And>i. i < length vs \<Longrightarrow> w (a + of_nat (4 * i)) = Some (vs ! i)"
  shows "load_words a (length vs) w = Some vs"
proof -
  have "load_words a (length vs) w = Some (map (\<lambda>i. vs ! i) [0..<length vs])"
    unfolding load_words_def using assms by (intro those_map_Some) simp
  then show ?thesis by (simp only: map_nth)
qed

lemma load_store: "4 * length vs < 2 ^ 32 \<Longrightarrow> load_words a (length vs) (store_words a vs w) = Some vs"
  by (rule load_all) (rule store_words_at)

text \<open>Part of a stored group, and a group with one word changed.\<close>

lemma load_slice:
  assumes "4 * length vs < 2 ^ 32" and "j + m \<le> length vs"
  shows "load_words (a + of_nat (4 * j)) m (store_words a vs w) = Some (take m (drop j vs))"
proof -
  have l: "length (take m (drop j vs)) = m" using assms(2) by simp
  have "load_words (a + of_nat (4 * j)) (length (take m (drop j vs))) (store_words a vs w) = Some (take m (drop j vs))"
  proof (rule load_all)
    fix i assume i: "i < length (take m (drop j vs))"
    have e: "a + of_nat (4 * j) + of_nat (4 * i) = a + of_nat (4 * (j + i))" by (simp add: algebra_simps)
    have "store_words a vs w (a + of_nat (4 * (j + i))) = Some (vs ! (j + i))"
      using i assms(2) by (intro store_words_at [OF assms(1)]) simp
    then show "store_words a vs w (a + of_nat (4 * j) + of_nat (4 * i)) = Some (take m (drop j vs) ! i)"
      unfolding e using i assms(2) by (simp del: of_nat_mult)
  qed
  then show ?thesis by (simp only: l)
qed

lemma store_words_upd:
  assumes n: "4 * length vs < 2 ^ 32" and i: "i < length vs"
  shows "(store_words a vs w)(a + of_nat (4 * i) \<mapsto> v) = store_words a (vs[i := v]) w"
proof
  fix b
  have n': "4 * length (vs[i := v]) < 2 ^ 32" using n by simp
  show "((store_words a vs w)(a + of_nat (4 * i) \<mapsto> v)) b = store_words a (vs[i := v]) w b"
  proof (cases "\<exists>j<length vs. b = a + of_nat (4 * j)")
    case True
    then obtain j where j: "j < length vs" "b = a + of_nat (4 * j)" by blast
    have "(b = a + of_nat (4 * i)) = (j = i)" unfolding j(2) using n i j(1) by (intro word_offset_eq) simp_all
    moreover have "store_words a vs w b = Some (vs ! j)" unfolding j(2) by (rule store_words_at [OF n j(1)])
    moreover have "store_words a (vs[i := v]) w b = Some (vs[i := v] ! j)"
      unfolding j(2) using j(1) by (intro store_words_at [OF n']) simp
    ultimately show ?thesis using j(1) by (simp add: fun_upd_apply nth_list_update)
  next
    case False
    then have "store_words a vs w b = w b" "store_words a (vs[i := v]) w b = w b"
      by (auto intro!: store_words_other simp del: of_nat_mult)
    moreover have "b \<noteq> a + of_nat (4 * i)" using False i by blast
    ultimately show ?thesis by simp
  qed
qed

lemma load_cong: "\<forall>i<n. w (a + of_nat (4 * i)) = w' (a + of_nat (4 * i)) \<Longrightarrow> load_words a n w = load_words a n w'"
  unfolding load_words_def by (intro arg_cong [of _ _ those] map_cong) auto

text \<open>The two words of a 64-bit value.\<close>

definition hi_word :: "u64 \<Rightarrow> u32" where
  "hi_word v = ucast (drop_bit 32 v)"

definition lo_word :: "u64 \<Rightarrow> u32" where
  "lo_word v = ucast v"

lemma word_halves: "push_bit 32 (ucast (hi_word v)) OR ucast (lo_word v) = v"
  unfolding hi_word_def lo_word_def
  by (rule bit_word_eqI) (auto simp: bit_simps)

section \<open>The top of a stack\<close>

text \<open>A port asks for \<open>2^n\<close> bytes more than the stack and aligns the end of the block down.\<close>

lemma top_bounds:
  fixes b m pad :: u32
  assumes pad: "pad = 2 ^ n" "n < 32" and room: "unat b + unat m + unat pad < 2 ^ 32"
  defines "tp \<equiv> (b + (m + pad)) AND NOT (pad - 1)"
  shows "unat b + unat m < unat tp + 1" "unat tp \<le> unat b + unat m + unat pad" "unat tp mod unat pad = 0"
proof -
  have "(2 :: nat) ^ n < 2 ^ 32" using pad(2) by (intro power_strict_increasing) simp_all
  then have "unat (of_nat (2 ^ n) :: u32) = 2 ^ n" unfolding unat_of_nat by simp
  then have p: "unat pad = 2 ^ n" using pad(1) by simp
  have mp: "unat (m + pad) = unat m + unat pad" using room by (intro unat_plus_small) simp
  have a: "unat (b + (m + pad)) = unat b + unat m + unat pad"
    using room mp by (subst unat_plus_small) simp_all
  have "pad - 1 = mask n" using pad(1) by (simp add: mask_eq_exp_minus_1)
  then have t: "unat tp = unat b + unat m + unat pad - (unat b + unat m + unat pad) mod 2 ^ n"
    unfolding tp_def using and_not_mask_unat [of "b + (m + pad)" n] a by simp
  have r: "(unat b + unat m + unat pad) mod 2 ^ n < 2 ^ n" by simp
  show "unat b + unat m < unat tp + 1" using r unfolding t p by linarith
  show "unat tp \<le> unat b + unat m + unat pad" unfolding t by arith
  show "unat tp mod unat pad = 0" unfolding t p by (simp only: minus_mod_eq_mult_div) simp
qed

section \<open>Critical sections\<close>

lemma bit_pow: "bit ((2 :: u32) ^ i) n \<longleftrightarrow> n = i \<and> i < 32"
  by (auto simp: bit_exp_iff)

lemma single_bit:
  fixes m :: u32
  assumes "i < 32"
  shows "m AND 2 ^ i = (if bit m i then 2 ^ i else 0)"
    "bit m i \<Longrightarrow> m AND NOT (2 ^ i) OR 2 ^ i = m" "\<not> bit m i \<Longrightarrow> m AND NOT (2 ^ i) = m"
  using assms by (auto intro!: bit_word_eqI simp: bit_and_iff bit_or_iff bit_not_iff bit_pow)

text \<open>Every port masks interrupts in some state and hands back a token that restores it.\<close>

locale critical =
  fixes enter :: "'m \<Rightarrow> 't \<times> 'm" and leave :: "'t \<Rightarrow> 'm \<Rightarrow> 'm"
    and masked :: "'m \<Rightarrow> bool" and valid :: "'m \<Rightarrow> bool"
  assumes enter_masks: "valid m \<Longrightarrow> masked (snd (enter m)) \<and> valid (snd (enter m))"
    and leave_restores: "valid m \<Longrightarrow> leave (fst (enter m)) (snd (enter m)) = m"

fun nested :: "('m \<Rightarrow> 't \<times> 'm) \<Rightarrow> nat \<Rightarrow> 'm \<Rightarrow> 't list \<times> 'm" where
  "nested f 0 m = ([], m)"
| "nested f (Suc n) m = (let (tok, m') = f m; (ts, m'') = nested f n m' in (tok # ts, m''))"

context critical
begin

text \<open>Leaving in the reverse order restores the mask, and inside it stays set.\<close>

lemma nest:
  "valid m \<Longrightarrow> foldl (\<lambda>m t. leave t m) (snd (nested enter n m)) (rev (fst (nested enter n m))) = m
    \<and> (n \<noteq> 0 \<longrightarrow> masked (snd (nested enter n m)))"
proof (induction n arbitrary: m)
  case (Suc n)
  obtain tok m' where e: "enter m = (tok, m')" by (cases "enter m")
  obtain ts m'' where n: "nested enter n m' = (ts, m'')" by (cases "nested enter n m'")
  have m': "masked m'" "valid m'" "leave tok m' = m"
    using enter_masks [OF Suc.prems] leave_restores [OF Suc.prems] e by simp_all
  have IH: "foldl (\<lambda>m t. leave t m) m'' (rev ts) = m'" "n \<noteq> 0 \<longrightarrow> masked m''"
    using Suc.IH [OF m'(2)] n by simp_all
  moreover have "masked m''" using IH(2) n m'(1) by (cases n) auto
  ultimately show ?case using e n m'(3) by simp
qed simp

end

section \<open>The contract\<close>

lemma same_but_memory_refl [simp]: "same_but_memory k k"
  by (simp add: same_but_memory_def)

lemma create_contract:
  assumes ok: "mem_ok k" and t: "rd k p = Some t" and st: "stack_base t = 0"
    and sp: "space_for k bytes" and al: "pow2 al n" "unat al \<le> 32" "bytes \<noteq> 0"
    and none: "alloc_block bytes al k = Some (None, k) \<Longrightarrow> C = Some (Inl ArenaExhausted, k)"
    and some: "\<And>b a. alloc_block bytes al k = Some (Some b, k\<lparr>karena := a\<rparr>) \<Longrightarrow>
      \<exists>t' w. C = Some (Inr (), put p t' (k\<lparr>karena := a, words := w\<rparr>)) \<and> stack_base t' = b \<and> stackless t' = stackless t"
  shows "\<exists>r k'. C = Some (r, k') \<and> mem_ok k' \<and> created p k k' \<and> (\<forall>e. r = Inl e \<longrightarrow> no_stack p k k')"
proof -
  have p0: "p \<noteq> 0" using t rd_nonnull by blast
  from alloc_block_ok [OF ok sp al] show ?thesis
  proof (elim disjE exE conjE)
    assume "alloc_block bytes al k = Some (None, k)"
    from none [OF this] show ?thesis using ok t st by (simp add: created_def no_stack_def same_region_def)
  next
    fix b a assume al: "alloc_block bytes al k = Some (Some b, k\<lparr>karena := a\<rparr>)"
      and g: "gained (karena k) a b bytes" and m: "mem_ok (k\<lparr>karena := a\<rparr>)" and un: "unowned k b"
    from some [OF al] obtain t' w where run: "C = Some (Inr (), put p t' (k\<lparr>karena := a, words := w\<rparr>))"
      and t': "stack_base t' = b" "stackless t' = stackless t" by blast
    let ?k1 = "k\<lparr>karena := a\<rparr>"
    let ?k2 = "put p t' (k\<lparr>karena := a, words := w\<rparr>)"
    have r1: "rd ?k1 q = rd k q" for q by (simp add: rd_def)
    have b0: "b \<noteq> 0" using g by (simp add: gained_def)
    have cb: "closure_block t' = closure_block t" using arg_cong [OF t'(2), of closure_block] by (simp add: stackless_def)
    have bl: "blocks_of t = (if closure_block t = 0 then [] else [closure_block t])" using st by (simp add: blocks_of_def)
    have ncb: "b \<notin> set (blocks_of t)" using un t unfolding unowned_def by blast
    have bl': "blocks_of t' = blocks_of t @ [b]" using st b0 t'(1) cb by (simp add: blocks_of_def)
    have m': "mem_ok (put p t' ?k1)"
    proof (rule mem_ok_own [OF m])
      show "rd ?k1 p = Some t" using t r1 by simp
      show "live_payload (karena ?k1) b" using g by (simp add: gained_def)
      show "rd ?k1 b = None" using un r1 by (simp add: unowned_def)
      show "\<forall>q u. rd ?k1 q = Some u \<longrightarrow> b \<notin> set (blocks_of u)" using un r1 by (simp add: unowned_def)
      show "set (blocks_of t') = insert b (set (blocks_of t))" unfolding bl' by auto
      show "distinct (blocks_of t')" unfolding bl' using ncb bl by auto
    qed (rule b0)
    have m2: "mem_ok ?k2"
      by (rule mem_ok_owners [OF m']) (simp_all add: same_owners_def put_def)
    have r2: "rd ?k2 q = (if q = p then Some t' else rd k q)" for q
      using rd_put [OF p0, of t' "k\<lparr>karena := a, words := w\<rparr>" q] by (simp add: rd_def)
    have "same_but_memory k ?k2" by (simp add: same_but_memory_def put_def)
    moreover have "karena ?k2 = a" "pending_free ?k2 = pending_free k" "reclaimed ?k2 = reclaimed k"
      by (simp_all add: put_def)
    ultimately have "created p k ?k2"
      unfolding created_def r2 using g t t'(2) by (simp add: gained_def)
    then show ?thesis using run m2 by blast
  qed
qed

lemma outside_contract:
  assumes ok: "mem_ok k" and t: "rd k p = Some t" and st: "stack_base t = 0"
    and run: "A = Some (r, put p t' (k\<lparr>words := w\<rparr>))" and t': "stack_base t' = 0" "stackless t' = stackless t"
  shows "\<exists>k'. A = Some (r, k') \<and> mem_ok k' \<and> created p k k' \<and> no_stack p k k'"
proof -
  let ?k = "put p t' (k\<lparr>words := w\<rparr>)"
  have p0: "p \<noteq> 0" using t rd_nonnull by blast
  have "closure_block t' = closure_block t" using arg_cong [OF t'(2), of closure_block] by (simp add: stackless_def)
  then have "blocks_of t' = blocks_of t" using st t'(1) by (simp add: blocks_of_def)
  then have "same_owners (heap k) (heap (put p t' k))"
    unfolding heap_put by (rule same_owners_upd [OF t [unfolded rd_def]])
  then have m: "mem_ok ?k" by (intro mem_ok_owners [OF ok]) (simp_all add: put_def)
  have r: "rd ?k q = (if q = p then Some t' else rd k q)" for q
    using rd_put [OF p0, of t' "k\<lparr>words := w\<rparr>" q] by (simp add: rd_def)
  have "same_but_memory k ?k" by (simp add: same_but_memory_def put_def)
  moreover have same: "karena ?k = karena k" "pending_free ?k = pending_free k"
    "reclaimed ?k = reclaimed k" by (simp_all add: put_def)
  ultimately have "created p k ?k"
    unfolding created_def r using t t'(2) by (simp add: same_region_def)
  moreover have "no_stack p k ?k" unfolding no_stack_def r same using t'(1) by simp
  ultimately show ?thesis using run m by blast
qed

lemma adopt_contract:
  assumes ok: "mem_ok k" and t: "rd k p = Some t" and st: "stack_base t = 0"
    and run: "A = Some (Inr (), put p t' k)" and t': "stack_base t' = 0" "stackless t' = stackless t"
  shows "\<exists>r k'. A = Some (r, k') \<and> mem_ok k' \<and> created p k k'"
  using outside_contract [OF ok t st, of A "Inr ()" t' "words k"] run t' by auto

text \<open>The bytes of a stack with \<open>pad\<close> bytes beyond it does not wrap.\<close>

lemma stack_space:
  fixes low pad :: usize
  assumes "roomy k sz" and "unat low + unat pad \<le> 16000" and "unat pad \<noteq> 0"
  shows "unat (max sz low + pad) = unat (max sz low) + unat pad" "space_for k (max sz low + pad)" "max sz low + pad \<noteq> 0"
proof -
  have r: "unat (ar_base (karena k)) + unat (ar_len (karena k)) + unat sz + 16384 \<le> 2 ^ 32"
    using assms(1) by (simp add: roomy_def)
  have m: "unat (max sz low) \<le> max (unat sz) (unat low)" by (simp add: max_def)
  then have m': "unat (max sz low) \<le> unat sz + unat low" by simp
  show u: "unat (max sz low + pad) = unat (max sz low) + unat pad"
    using r m' assms(2) by (intro unat_plus_small) simp
  show "space_for k (max sz low + pad)" unfolding space_for_def u using r m' assms(2) by linarith
  show "max sz low + pad \<noteq> 0" using u assms(3) by (metis add_is_0 unat_0)
qed

section \<open>Ports that are not told of a reclaimed task\<close>

locale quiet_port = port_contract +
  assumes quiet: "port_reclaimed P p k = Some k"

definition same_outside :: "kernel \<Rightarrow> kernel \<Rightarrow> bool" where
  "same_outside k k' = (words k' = words k \<and> config k' = config k \<and> ticks k' = ticks k)"

lemma same_outside_trans: "same_outside k k1 \<Longrightarrow> same_outside k1 k2 \<Longrightarrow> same_outside k k2"
  by (simp add: same_outside_def)

lemma same_outside_run:
  "upd f p k = Some k' \<Longrightarrow> same_outside k k'"
  "free_block p k = Some k' \<Longrightarrow> same_outside k k'"
  "free_tcb p k = Some k' \<Longrightarrow> same_outside k k'"
  by (auto simp: same_outside_def upd_def put_def free_block_def free_tcb_def split: option.splits bind_splits)

lemma reclaim_loop_outside:
  assumes v: "reclaim_loop P node k = Some k'" and q: "\<And>p k. port_reclaimed P p k = Some k"
  shows "same_outside k k'"
proof -
  have "case ((P, node), k) of ((P, node), k) \<Rightarrow> (\<forall>p k. port_reclaimed P p k = Some k) \<longrightarrow> same_outside k k'"
  proof (rule reclaim_loop.raw_induct [where Pa =
      "\<lambda>x k'. case x of ((P, node), k) \<Rightarrow> (\<forall>p k. port_reclaimed P p k = Some k) \<longrightarrow> same_outside k k'", OF _ v])
    fix rec P node k k'
    assume ih: "\<And>P node k k'. rec P node k = Some k' \<Longrightarrow>
        case ((P, node), k) of ((P, node), k) \<Rightarrow> (\<forall>p k. port_reclaimed P p k = Some k) \<longrightarrow> same_outside k k'"
      and run: "(if node = null_ptr then Some k
      else do {
        t \<leftarrow> rd k node;
        let next = prv t;
        if port_pinned P node then do {
          k \<leftarrow> upd (\<lambda>t. t\<lparr>prv := pending_free k\<rparr>) node k;
          rec P next (k\<lparr>pending_free := node\<rparr>)
        }
        else do {
          k \<leftarrow> port_reclaimed P node k;
          t \<leftarrow> rd k node;
          k \<leftarrow> free_block (closure_block t) k;
          k \<leftarrow> free_block (stack_base t) k;
          k \<leftarrow> free_tcb node k;
          rec P next (k\<lparr>reclaimed := reclaimed k + 1\<rparr>)
        }
      }) = Some k'"
    show "case ((P, node), k) of ((P, node), k) \<Rightarrow> (\<forall>p k. port_reclaimed P p k = Some k) \<longrightarrow> same_outside k k'"
      unfolding split_conv
    proof
      assume q: "\<forall>p k. port_reclaimed P p k = Some k"
      have IH: "rec P n k1 = Some k2 \<Longrightarrow> same_outside k1 k2" for n k1 k2 using ih q by auto
      have set: "same_outside k1 (k1\<lparr>pending_free := x\<rparr>)" "same_outside k1 (k1\<lparr>reclaimed := y\<rparr>)" for k1 x y
        by (simp_all add: same_outside_def)
      show "same_outside k k'"
      proof (cases "node = null_ptr")
        case True
        then show ?thesis using run by (simp add: same_outside_def)
      next
        case False
        with run q obtain t where t: "rd k node = Some t" by (auto split: bind_splits)
        show ?thesis
        proof (cases "port_pinned P node")
          case True
          with run t False obtain k1 where r: "upd (\<lambda>t. t\<lparr>prv := pending_free k\<rparr>) node k = Some k1"
            "rec P (prv t) (k1\<lparr>pending_free := node\<rparr>) = Some k'" by (auto split: bind_splits)
          show ?thesis
            by (rule same_outside_trans [OF same_outside_run(1) [OF r(1)] same_outside_trans [OF set(1) IH [OF r(2)]]])
        next
          case pin: False
          with run t False q obtain k1 k2 k3 where r: "free_block (closure_block t) k = Some k1"
            "free_block (stack_base t) k1 = Some k2" "free_tcb node k2 = Some k3"
            "rec P (prv t) (k3\<lparr>reclaimed := reclaimed k3 + 1\<rparr>) = Some k'" by (auto split: bind_splits)
          note s = same_outside_run(2) [OF r(1)] same_outside_run(2) [OF r(2)] same_outside_run(3) [OF r(3)]
          show ?thesis
            by (rule same_outside_trans [OF s(1) same_outside_trans [OF s(2) same_outside_trans [OF s(3)
                same_outside_trans [OF set(2) IH [OF r(4)]]]]])
        qed
      qed
    qed
  qed
  with q show ?thesis by simp
qed

context quiet_port
begin

lemma reclaim_outside: "reclaim_finished_tasks P k = Some k' \<Longrightarrow> same_outside k k'"
  using reclaim_loop_outside [of P "pending_free k" "k\<lparr>pending_free := null_ptr\<rparr>" k'] quiet
  by (simp add: reclaim_finished_tasks_def same_outside_def)

end

section \<open>Nothing to run\<close>

definition none_runnable :: "kernel \<Rightarrow> ntree \<Rightarrow> bool" where
  "none_runnable k T = (\<forall>a. LeafN a \<in> set (subs T) \<longrightarrow> \<not> h_runnable (heap k) a)"

text \<open>The switch then hands out null, again and again, and the clock stands still.\<close>

lemma idle_schedule:
  assumes ok: "kernel_ok k T" and none: "none_runnable k T"
  shows "\<exists>k'. schedule_next k = Some (0, k') \<and> kernel_ok k' T \<and> none_runnable k' T \<and> ticks k' = ticks k
    \<and> words k' = words k \<and> karena k' = karena k \<and> pending_free k' = pending_free k \<and> config k' = config k
    \<and> (\<forall>a. map_option st (rd k' a) = map_option st (rd k a))"
proof -
  from ok have t: "tree_ok k T" "cur_ok k" by (simp_all add: kernel_ok_def)
  from schedule_next_spec [OF t] obtain leaf k0 k1 k' where
    k0: "k0 = k\<lparr>current_tcb := (if eff_cur k = 0 then 0 else current_tcb k)\<rparr>"
    and p: "picked T k0 leaf k1" and s: "schedule_next k = Some (leaf, k')"
    and e: "if leaf = 0 then k' = k1 else switched (eff_cur k) leaf k1 k'" by blast
  have h0: "heap k0 = heap k" using k0 by simp
  have l0: "leaf = 0" using p none h0 by (auto simp: picked_def none_runnable_def)
  then have k1: "k' = k1" using e by simp
  have m: "moved T k0 k'" using p k1 by (simp add: picked_def)
  then have ao: "arm_only (heap k) (heap k')" using h0 by (simp add: moved_def)
  have sb: "same_but_heap k0 k'" using m by (simp add: moved_def)
  note f = arg_cong [OF sb [unfolded same_but_heap_def]]
  have "ticks k' = ticks k" "words k' = words k" "karena k' = karena k" "pending_free k' = pending_free k"
    "config k' = config k"
    using f [of ticks] f [of words] f [of karena] f [of pending_free] f [of config] k0 by simp_all
  moreover have "none_runnable k' T" using none arm_only_runnable [OF ao] by (simp add: none_runnable_def)
  moreover have "kernel_ok k' T" using schedule_next_ok [OF ok] s by auto
  moreover have "map_option st (rd k' a) = map_option st (rd k a)" for a
  proof (cases "rd k a")
    case None
    then have "rdh (heap k) a = None" by (simp add: rd_def)
    then have "rdh (heap k') a = None" using ao unfolding arm_only_def by (metis option.map_disc_iff)
    with None show ?thesis by (simp add: rd_def)
  next
    case (Some t)
    then have "rdh (heap k) a = Some t" by (simp add: rd_def)
    from arm_onlyD [OF ao this] obtain t' where t': "rdh (heap k') a = Some t'" "plain t' = plain t" by blast
    from Some t'(1) plain_eqD(1) [OF t'(2)] show ?thesis by (simp add: rd_def)
  qed
  ultimately show ?thesis using s l0 by blast
qed

end
