(* ===== verification/RkCortex.thy ===== *)
theory RkCortex
  imports RkPort
begin

text \<open>
  The Cortex-M port (\<^verbatim>\<open>src/arch/cortex_m.rs\<close>): timer planning on the 24-bit
  \<open>SysTick\<close>, critical sections on \<open>PRIMASK\<close>, the tick handler, the kernel half of the
  switch, the register frame of a new task, and \<open>PendSV_Handler\<close> itself, whose assembly is
  translated instruction group by instruction group.

  Memory words and the timer registers are the map \<open>words\<close> of the kernel record.  The value
  of the cycle counter is an argument of the functions that read it, and so is the address
  of \<open>task_trampoline\<close> that the linker chooses.
\<close>

unbundle bit_operations_syntax

section \<open>Registers and constants\<close>

definition SYST_CSR :: u32 where "SYST_CSR = 0xE000E010"
definition SYST_RVR :: u32 where "SYST_RVR = 0xE000E014"
definition SYST_CVR :: u32 where "SYST_CVR = 0xE000E018"
definition SHPR3 :: u32 where "SHPR3 = 0xE000ED20"
definition FPCCR :: u32 where "FPCCR = 0xE000EF34"
definition DEMCR :: u32 where "DEMCR = 0xE000EDFC"
definition DWT_CTRL :: u32 where "DWT_CTRL = 0xE0001000"
definition SYST_CSR_ENABLE :: u32 where "SYST_CSR_ENABLE = push_bit 0 1"
definition SYST_CSR_TICKINT :: u32 where "SYST_CSR_TICKINT = push_bit 1 1"
definition SYST_CSR_CLKSOURCE :: u32 where "SYST_CSR_CLKSOURCE = push_bit 2 1"
definition MAX_SLICE_CYCLES :: u64 where "MAX_SLICE_CYCLES = 0x00FFFFFF"
definition MIN_SLICE_CYCLES :: u64 where "MIN_SLICE_CYCLES = 100"
definition NOMINAL_HZ :: u32 where "NOMINAL_HZ = 16000000"

definition reg_rd :: "u32 \<Rightarrow> kernel \<Rightarrow> u32" where
  "reg_rd a k = (case words k a of None \<Rightarrow> 0 | Some v \<Rightarrow> v)"

definition reg_wr :: "u32 \<Rightarrow> u32 \<Rightarrow> kernel \<Rightarrow> kernel" where
  "reg_wr a v k = k\<lparr>words := (words k)(a \<mapsto> v)\<rparr>"

section \<open>Time\<close>

definition configured_hz :: "kernel \<Rightarrow> u32" where
  "configured_hz k = kc_timer_hz (config k)"

definition cycles_to_ns_with :: "u32 \<Rightarrow> u32 \<Rightarrow> u64" where
  "cycles_to_ns_with hz cycles =
     (if hz = 0 then 0 else ucast ((ucast cycles :: u128) * 1000000000 div (ucast hz :: u128)))"

definition cycles_to_ns :: "u32 \<Rightarrow> kernel \<Rightarrow> u64" where
  "cycles_to_ns cycles k =
     (let hz = configured_hz k in cycles_to_ns_with (if hz = 0 then NOMINAL_HZ else hz) cycles)"

definition cm_platform_limits :: "kernel \<Rightarrow> platform_limits" where
  "cm_platform_limits k =
     (let hz = configured_hz k; hz = (if hz = 0 then NOMINAL_HZ else hz)
      in \<lparr>min_slice_ns = cycles_to_ns_with hz (ucast MIN_SLICE_CYCLES),
          max_slice_ns = Some (cycles_to_ns_with hz (ucast MAX_SLICE_CYCLES)),
          limits_timer_hz = hz,
          timer_note = ''SysTick, processor clock, 24-bit reload (cycle-exact slice)''\<rparr>)"

definition plan_cycles :: "scheduler_config \<Rightarrow> u64" where
  "plan_cycles cfg = (case cfg_slice cfg of Cycles c \<Rightarrow> ucast c | other \<Rightarrow> to_cycles other (cfg_timer_hz cfg))"

definition cm_plan_timer :: "scheduler_config \<Rightarrow> config_error + timer_plan" where
  "cm_plan_timer cfg =
     (let hz = cfg_timer_hz cfg in
      if hz = 0 then Inl TimerClockRequired
      else let cycles = plan_cycles cfg in
        if cycles = 0 then Inl ZeroSlice
        else if cycles < MIN_SLICE_CYCLES
        then Inl (SliceBelowPlatformMinimum (cycles_to_ns_with hz (ucast cycles))
               (cycles_to_ns_with hz (ucast MIN_SLICE_CYCLES)))
        else if cycles > MAX_SLICE_CYCLES
        then Inl (SliceAboveTimerRange (cycles_to_ns_with hz (ucast (min cycles 0xFFFFFFFF)))
               (cycles_to_ns_with hz (ucast MAX_SLICE_CYCLES)))
        else Inr \<lparr>plan_slice_ns = cycles_to_ns_with hz (ucast cycles),
                  plan_slice_cycles = ucast cycles, plan_timer_hz = hz\<rparr>)"

definition run_bits :: u32 where
  "run_bits = SYST_CSR_CLKSOURCE OR SYST_CSR_TICKINT OR SYST_CSR_ENABLE"

text \<open>Whether the core has a cycle counter is what it answers when it is switched on.\<close>

definition dwt_enable :: "bool \<Rightarrow> kernel \<Rightarrow> bool \<times> kernel" where
  "dwt_enable has_dwt k =
     (let k = reg_wr DEMCR (reg_rd DEMCR k OR push_bit 24 1) k;
          k = (if has_dwt then reg_wr DWT_CTRL (reg_rd DWT_CTRL k OR 1) k else k)
      in (reg_rd DWT_CTRL k AND 1 \<noteq> 0, k))"

definition cm_start_timer :: "bool \<Rightarrow> timer_plan \<Rightarrow> kernel \<Rightarrow> (config_error + unit) \<times> kernel" where
  "cm_start_timer has_dwt plan k =
     (let k = reg_wr FPCCR (reg_rd FPCCR k AND NOT (push_bit 31 1 OR push_bit 30 1)) k;
          k = reg_wr SYST_CSR 0 k;
          k = reg_wr SYST_RVR (plan_slice_cycles plan - 1) k;
          k = reg_wr SYST_CVR 0 k;
          shpr3 = reg_rd SHPR3 k OR 0x00FF0000;
          shpr3 = shpr3 AND NOT 0x00C00000;
          shpr3 = shpr3 OR 0x00400000;
          k = reg_wr SHPR3 shpr3 k;
          k = reg_wr SYST_CSR run_bits k;
          (ok, k) = dwt_enable has_dwt k
      in (Inr (), k))"

definition cm_retune_timer :: "timer_plan \<Rightarrow> kernel \<Rightarrow> (config_error + unit) \<times> kernel" where
  "cm_retune_timer plan k =
     (let was_enabled = (reg_rd SYST_CSR k AND SYST_CSR_ENABLE \<noteq> 0);
          k = reg_wr SYST_CSR 0 k;
          k = reg_wr SYST_RVR (plan_slice_cycles plan - 1) k;
          k = reg_wr SYST_CVR 0 k
      in (Inr (), if was_enabled then reg_wr SYST_CSR run_bits k else k))"

section \<open>Critical sections\<close>

definition critical_enter :: "u32 \<Rightarrow> u32 \<times> u32" where
  "critical_enter primask = (primask, 1)"

definition critical_exit :: "u32 \<Rightarrow> u32 \<Rightarrow> u32" where
  "critical_exit token primask = (if token AND 1 = 0 then 0 else primask)"

section \<open>Construction of a task\<close>

definition cm_adopt :: "ptr \<Rightarrow> kernel \<Rightarrow> ((config_error + unit) \<times> kernel) option" where
  "cm_adopt p k = do {
     k \<leftarrow> upd (\<lambda>t. t\<lparr>flags := TCB_FLAG_USE_MSP, stack_base := null_ptr, stack_size := 0, sp := null_ptr\<rparr>) p k;
     Some (Inr (), k)
   }"

definition push :: "u32 \<times> (ptr \<rightharpoonup> u32) \<Rightarrow> u32 \<Rightarrow> u32 \<times> (ptr \<rightharpoonup> u32)" where
  "push s value = (let sp' = fst s - 4 in (sp', (snd s)(sp' \<mapsto> value)))"

text \<open>The values pushed for a new task, first pushed first: xPSR, PC, LR, R12, R3, R2, R1, R0,
  then R11 to R4.\<close>

definition frame_values :: "u32 \<Rightarrow> ptr \<Rightarrow> u32 list" where
  "frame_values entry p =
     [0x01000000, entry OR 1, 0xFFFFFFF9, 0, 0, 0, 0, p] @ replicate 8 0"

definition cm_create :: "u32 \<Rightarrow> ptr \<Rightarrow> usize \<Rightarrow> kernel \<Rightarrow> ((spawn_error + unit) \<times> kernel) option" where
  "cm_create entry p stack_sz k = do {
     let sz = max stack_sz 256 + 8;
     (r, k) \<leftarrow> alloc_block sz 8 k;
     (case r of
        None \<Rightarrow> Some (Inl ArenaExhausted, k)
      | Some block \<Rightarrow> do {
          k \<leftarrow> upd (\<lambda>t. t\<lparr>stack_base := block, stack_size := sz - 8, flags := 0\<rparr>) p k;
          let top = (block + sz) AND NOT 7;
          let (sp', w) = foldl push (top, words k) (frame_values entry p);
          k \<leftarrow> upd (\<lambda>t. t\<lparr>sp := sp'\<rparr>) p (k\<lparr>words := w\<rparr>);
          Some (Inr (), k)
        })
   }"

definition cm_is_pinned :: "ptr \<Rightarrow> bool" where
  "cm_is_pinned p = False"

definition cm_on_task_reclaimed :: "ptr \<Rightarrow> kernel \<Rightarrow> kernel option" where
  "cm_on_task_reclaimed p k = Some k"

definition cortex_port :: "u32 \<Rightarrow> ptr \<Rightarrow> bool \<Rightarrow> port" where
  "cortex_port entry default_arena has_dwt =
     \<lparr>port_plan = cm_plan_timer, port_limits = cm_platform_limits, port_ns = cycles_to_ns,
      port_adopt = cm_adopt, port_start = cm_start_timer has_dwt, port_retune = cm_retune_timer,
      port_create = cm_create entry, port_pinned = cm_is_pinned,
      port_reclaimed = cm_on_task_reclaimed, port_default_arena = default_arena\<rparr>"

section \<open>The handlers\<close>

text \<open>The port's statics, beside the kernel.\<close>

record cortex =
  dwt_ok :: u32
  last_tick_cycles :: u32
  cm_kernel :: kernel

text \<open>\<open>start_timer\<close> with its static: 1 when the core has a cycle counter, else 2.\<close>

definition cortex_start :: "bool \<Rightarrow> timer_plan \<Rightarrow> cortex \<Rightarrow> (config_error + unit) \<times> cortex" where
  "cortex_start has_dwt plan c =
     (let (r, k) = cm_start_timer has_dwt plan (cm_kernel c)
      in (r, c\<lparr>cm_kernel := k, dwt_ok := (if reg_rd DWT_CTRL k AND 1 \<noteq> 0 then 1 else 2)\<rparr>))"

definition abs_diff :: "u32 \<Rightarrow> u32 \<Rightarrow> u32" where
  "abs_diff a b = (if a < b then b - a else a - b)"

text \<open>\<open>SysTick_Handler\<close>; \<open>now\<close> is the cycle counter.  (Its trace line is compiled out: \<open>TRACE_EVERY\<close> is 0.)\<close>

definition SysTick_Handler :: "u32 \<Rightarrow> cortex \<Rightarrow> cortex option" where
  "SysTick_Handler now c = do {
     let c = (if dwt_ok c = 1 \<and> kc_measure (config (cm_kernel c)) = MeasureCycles then
                (let last = last_tick_cycles c;
                     c = (if last \<noteq> 0 then
                            c\<lparr>cm_kernel := record_period_error
                                (abs_diff (now - last) (kc_slice_cycles (config (cm_kernel c)))) (cm_kernel c)\<rparr>
                          else c)
                 in c\<lparr>last_tick_cycles := now\<rparr>)
              else c);
     k \<leftarrow> on_tick (cm_kernel c);
     Some (c\<lparr>cm_kernel := request_switch k\<rparr>)
   }"

text \<open>\<open>rrkernel_schedule_next\<close>; \<open>t0\<close> and \<open>t1\<close> are the cycle counter before and after.\<close>

definition rrkernel_schedule_next :: "port \<Rightarrow> u32 \<Rightarrow> u32 \<Rightarrow> cortex \<Rightarrow> (ptr \<times> cortex) option" where
  "rrkernel_schedule_next P t0 t1 c = do {
     k \<leftarrow> reclaim_finished_tasks P (cm_kernel c);
     let t0 = (if dwt_ok c = 1 then t0 else 0);
     (next, k) \<leftarrow> schedule_next k;
     let k = (if t0 \<noteq> 0 \<and> kc_measure (config k) = MeasureCycles then record_latency (t1 - t0) k else k);
     Some (next, c\<lparr>cm_kernel := k\<rparr>)
   }"

definition rrkernel_idle_wait :: "kernel \<Rightarrow> kernel" where
  "rrkernel_idle_wait k = k\<lparr>idle_waits := idle_waits k + 1, switch_pending := False\<rparr>"

definition get_idle_waits :: "kernel \<Rightarrow> u64" where
  "get_idle_waits k = idle_waits k"

definition cycle_counter :: "u32 \<Rightarrow> cortex \<Rightarrow> u32 option" where
  "cycle_counter now c = (if dwt_ok c = 1 then Some now else None)"

definition cycle_counter_hz :: "kernel \<Rightarrow> u32" where
  "cycle_counter_hz k = (let hz = configured_hz k in if hz = 0 then NOMINAL_HZ else hz)"

text \<open>\<open>PendSV_Handler\<close>: the registers it works on.\<close>

record cpu =
  r4_r11 :: "u32 list"
  psp :: u32
  msp :: u32
  exc_return :: u32

definition uses_msp :: "tcb \<Rightarrow> bool" where
  "uses_msp t = (flags t AND 1 \<noteq> 0)"

text \<open>The first half: save R4 to R11 below the interrupted task's stack pointer and publish it.\<close>

definition pendsv_save :: "cpu \<Rightarrow> kernel \<Rightarrow> (cpu \<times> kernel) option" where
  "pendsv_save cp k =
     (let r1 = k_current k in
      if r1 = null_ptr then Some (cp, k)
      else do {
        t \<leftarrow> rd k r1;
        let r0 = (if uses_msp t then msp cp else psp cp) - 32;
        let k = k\<lparr>words := store_words r0 (r4_r11 cp) (words k)\<rparr>;
        k \<leftarrow> upd (\<lambda>t. t\<lparr>sp := r0\<rparr>) r1 k;
        Some (if uses_msp t then cp\<lparr>msp := r0\<rparr> else cp, k)
      })"

text \<open>The second half: restore the next task and restart the slice counter.\<close>

definition pendsv_restore :: "ptr \<Rightarrow> cpu \<Rightarrow> kernel \<Rightarrow> (cpu \<times> kernel) option" where
  "pendsv_restore r0 cp k = do {
     t \<leftarrow> rd k r0;
     vs \<leftarrow> load_words (sp t) 8 (words k);
     let r1 = sp t + 32;
     let k = reg_wr SYST_CVR 0 k;
     Some (if uses_msp t then cp\<lparr>r4_r11 := vs, msp := r1, exc_return := 0xFFFFFFF9\<rparr>
           else cp\<lparr>r4_r11 := vs, psp := r1, exc_return := 0xFFFFFFFD\<rparr>, k)
   }"

text \<open>One pass through the handler; \<open>False\<close> when nothing is runnable: it then waits for an
  interrupt and starts again at the choice of the next task.\<close>

definition PendSV_pick :: "port \<Rightarrow> u32 \<Rightarrow> u32 \<Rightarrow> cpu \<times> cortex \<Rightarrow> (bool \<times> cpu \<times> cortex) option" where
  "PendSV_pick P t0 t1 s = do {
     (next, c) \<leftarrow> rrkernel_schedule_next P t0 t1 (snd s);
     if next = null_ptr then Some (False, fst s, c\<lparr>cm_kernel := rrkernel_idle_wait (cm_kernel c)\<rparr>)
     else do {
       (cp, k) \<leftarrow> pendsv_restore next (fst s) (cm_kernel c);
       Some (True, cp, c\<lparr>cm_kernel := k\<rparr>)
     }
   }"

definition PendSV_Handler :: "port \<Rightarrow> u32 \<Rightarrow> u32 \<Rightarrow> cpu \<times> cortex \<Rightarrow> (bool \<times> cpu \<times> cortex) option" where
  "PendSV_Handler P t0 t1 s = do {
     (cp, k) \<leftarrow> pendsv_save (fst s) (cm_kernel (snd s));
     PendSV_pick P t0 t1 (cp, (snd s)\<lparr>cm_kernel := k\<rparr>)
   }"

section \<open>The initial frame\<close>

lemma push_all:
  "4 * length vs < 2 ^ 32 \<Longrightarrow>
   fst (foldl push (tp, w) vs) = tp - of_nat (4 * length vs) \<and>
   (\<forall>i<length vs. snd (foldl push (tp, w) vs) (tp - of_nat (4 * (i + 1))) = Some (vs ! i)) \<and>
   (\<forall>a. a \<notin> (\<lambda>i. tp - of_nat (4 * (i + 1))) ` {..<length vs} \<longrightarrow> snd (foldl push (tp, w) vs) a = w a)"
proof (induction vs rule: rev_induct)
  case (snoc v vs)
  let ?s = "foldl push (tp, w) vs"
  let ?n = "length vs"
  have IH: "fst ?s = tp - of_nat (4 * ?n)" "\<forall>i<?n. snd ?s (tp - of_nat (4 * (i + 1))) = Some (vs ! i)"
    "\<forall>a. a \<notin> (\<lambda>i. tp - of_nat (4 * (i + 1))) ` {..<?n} \<longrightarrow> snd ?s a = w a"
    using snoc by simp_all
  have last: "fst ?s - 4 = tp - of_nat (4 * (?n + 1))"
    using IH(1) by simp
  have ne: "tp - of_nat (4 * (i + 1)) \<noteq> tp - (of_nat (4 * (?n + 1)) :: u32)" if "i < ?n" for i
  proof
    assume "tp - of_nat (4 * (i + 1)) = tp - (of_nat (4 * (?n + 1)) :: u32)"
    then have "(of_nat (4 * (i + 1)) :: u32) = of_nat (4 * (?n + 1))" by simp
    then have "unat (of_nat (4 * (i + 1)) :: u32) = unat (of_nat (4 * (?n + 1)) :: u32)" by (rule arg_cong)
    then show False using that snoc.prems by (simp only: unat_of_nat) simp
  qed
  show ?case
  proof (intro conjI allI impI)
    show "fst (foldl push (tp, w) (vs @ [v])) = tp - of_nat (4 * length (vs @ [v]))"
      using last by (simp add: push_def Let_def)
    show "snd (foldl push (tp, w) (vs @ [v])) (tp - of_nat (4 * (i + 1))) = Some ((vs @ [v]) ! i)"
      if "i < length (vs @ [v])" for i
    proof (cases "i = ?n")
      case True
      then show ?thesis using last by (simp add: push_def Let_def)
    next
      case False
      then have "i < ?n" using that by simp
      then show ?thesis using IH(2) ne [of i] last by (simp add: push_def Let_def nth_append)
    qed
    show "snd (foldl push (tp, w) (vs @ [v])) a = w a"
      if "a \<notin> (\<lambda>i. tp - of_nat (4 * (i + 1))) ` {..<length (vs @ [v])}" for a
    proof -
      have "{..<length (vs @ [v])} = insert ?n {..<?n}" by auto
      then have "a \<noteq> tp - of_nat (4 * (?n + 1))" "a \<notin> (\<lambda>i. tp - of_nat (4 * (i + 1))) ` {..<?n}"
        using that by auto
      then have "snd ?s a = w a" "a \<noteq> fst ?s - 4" using IH(3) by (blast, simp only: last not_False_eq_True)
      then show ?thesis by (simp add: push_def Let_def)
    qed
  qed
qed simp

lemma frame_len: "length (frame_values e p) = 16"
  by (simp add: frame_values_def)

definition new_stack :: "ptr \<Rightarrow> usize \<Rightarrow> usize" where
  "new_stack block stack_sz = (block + (max stack_sz 256 + 8)) AND NOT 7"

text \<open>What a successful \<open>create_task\<close> returns.\<close>

lemma cm_create_run:
  assumes t: "rd k p = Some t" and a: "alloc_block (max sz 256 + 8) 8 k = Some (Some b, k\<lparr>karena := a\<rparr>)"
  shows "cm_create e p sz k = Some (Inr (), put p (t\<lparr>stack_base := b, stack_size := max sz 256, flags := 0,
      sp := new_stack b sz - 64\<rparr>) (k\<lparr>karena := a, words := snd (foldl push (new_stack b sz, words k) (frame_values e p))\<rparr>))"
proof -
  have p0: "p \<noteq> 0" using t rd_nonnull by blast
  let ?k = "k\<lparr>karena := a\<rparr>"
  let ?t = "t\<lparr>stack_base := b, stack_size := max sz 256, flags := 0\<rparr>"
  have t': "rd ?k p = Some t" using t by (simp add: rd_def)
  have u: "upd (\<lambda>t. t\<lparr>stack_base := b, stack_size := max sz 256, flags := 0\<rparr>) p ?k = Some (put p ?t ?k)"
    by (rule upd_put [OF t'])
  let ?s = "foldl push (new_stack b sz, words k) (frame_values e p)"
  have "fst ?s = new_stack b sz - of_nat (4 * length (frame_values e p))"
    using push_all [of "frame_values e p" "new_stack b sz"] unfolding frame_len by simp
  then have "fst ?s = new_stack b sz - 64" unfolding frame_len by simp
  then have s: "?s = (new_stack b sz - 64, snd ?s)" by (simp only: prod_eq_iff fst_conv snd_conv simp_thms)
  let ?k2 = "(put p ?t ?k)\<lparr>words := snd ?s\<rparr>"
  have t2: "rd ?k2 p = Some ?t" using p0 by (simp add: put_def rd_def)
  have w: "words (put p ?t ?k) = words k" by (simp add: put_def)
  have u2: "upd (\<lambda>t. t\<lparr>sp := new_stack b sz - 64\<rparr>) p ?k2 = Some (put p (?t\<lparr>sp := new_stack b sz - 64\<rparr>) ?k2)"
    by (rule upd_put [OF t2])
  have "cm_create e p sz k = do {
      let (sp', w) = ?s;
      k \<leftarrow> upd (\<lambda>t. t\<lparr>sp := sp'\<rparr>) p ((put p ?t ?k)\<lparr>words := w\<rparr>);
      Some (Inr (), k) }"
    unfolding cm_create_def Let_def a by (simp add: u w new_stack_def del: of_nat_numeral)
  also have "\<dots> = Some (Inr (), put p (?t\<lparr>sp := new_stack b sz - 64\<rparr>) ?k2)"
    by (subst s) (simp add: u2 del: upd_SomeD)
  finally show ?thesis by (simp add: put_def)
qed

section \<open>The port keeps its contract\<close>

lemma cm_create_ok:
  assumes ok: "mem_ok k" and t: "rd k p = Some t" and st: "stack_base t = 0" and rm: "roomy k sz"
  shows "\<exists>r k'. cm_create e p sz k = Some (r, k') \<and> mem_ok k' \<and> created p k k' \<and> (\<forall>e. r = Inl e \<longrightarrow> no_stack p k k')"
proof (rule create_contract [OF ok t st])
  have "unat (256 :: usize) + unat (8 :: usize) \<le> 16000" "unat (8 :: usize) \<noteq> 0" by simp_all
  note s = stack_space [OF rm this]
  show "space_for k (max sz 256 + 8)" "max sz 256 + 8 \<noteq> 0" by (rule s(2), rule s(3))
  show "pow2 8 3" "unat (8 :: usize) \<le> 32" by (simp_all add: pow2_def)
  show "cm_create e p sz k = Some (Inl ArenaExhausted, k)" if "alloc_block (max sz 256 + 8) 8 k = Some (None, k)"
    using that by (simp add: cm_create_def Let_def)
  show "\<exists>t' w. cm_create e p sz k = Some (Inr (), put p t' (k\<lparr>karena := a, words := w\<rparr>)) \<and> stack_base t' = b
      \<and> stackless t' = stackless t"
    if "alloc_block (max sz 256 + 8) 8 k = Some (Some b, k\<lparr>karena := a\<rparr>)" for b a
    unfolding cm_create_run [OF t that] by (intro exI conjI, rule refl) (simp_all add: stackless_def)
qed

lemma cm_adopt_ok:
  assumes ok: "mem_ok k" and t: "rd k p = Some t" and st: "stack_base t = 0"
  shows "\<exists>r k'. cm_adopt p k = Some (r, k') \<and> mem_ok k' \<and> created p k k'"
proof (rule adopt_contract [OF ok t st])
  show "cm_adopt p k = Some (Inr (), put p (t\<lparr>flags := TCB_FLAG_USE_MSP, stack_base := null_ptr, stack_size := 0,
      sp := null_ptr\<rparr>) k)"
    using t by (simp add: cm_adopt_def upd_put)
qed (simp_all add: stackless_def)

interpretation cm: quiet_port "cortex_port entry default_arena has_dwt"
proof
  show "port_reclaimed (cortex_port entry default_arena has_dwt) p k = Some k" for p k
    by (simp add: cortex_port_def cm_on_task_reclaimed_def)
  show "\<exists>w t'. port_reclaimed (cortex_port entry default_arena has_dwt) p k = Some ((put p t' k)\<lparr>words := w\<rparr>) \<and> blocks_of t' = blocks_of t"
    if "rd k p = Some t" for p k t
    using quiet_hook [OF that] by (simp add: cortex_port_def cm_on_task_reclaimed_def)
  show "\<exists>r k'. port_create (cortex_port entry default_arena has_dwt) p sz k = Some (r, k') \<and> mem_ok k'
      \<and> created p k k' \<and> (\<forall>e. r = Inl e \<longrightarrow> no_stack p k k')"
    if "mem_ok k" "rd k p = Some t" "stack_base t = 0" "roomy k sz" for k p t sz
    using cm_create_ok [OF that] by (simp add: cortex_port_def)
  show "\<exists>r k'. port_adopt (cortex_port entry default_arena has_dwt) p k = Some (r, k') \<and> mem_ok k' \<and> created p k k'"
    if "mem_ok k" "rd k p = Some t" "stack_base t = 0" for k p t
    using cm_adopt_ok [OF that] by (simp add: cortex_port_def)
qed

section \<open>Timer planning\<close>

lemma plan_timer_ok:
  assumes "cm_plan_timer cfg = Inr plan"
  shows "100 \<le> unat (plan_slice_cycles plan)" "unat (plan_slice_cycles plan) < 2 ^ 24"
    "unat (plan_slice_cycles plan - 1) = unat (plan_slice_cycles plan) - 1"
    "plan_timer_hz plan = cfg_timer_hz cfg" "cfg_timer_hz cfg \<noteq> 0"
    "unat (plan_slice_cycles plan) = unat (plan_cycles cfg)"
proof -
  let ?c = "plan_cycles cfg"
  have c: "?c \<noteq> 0" "\<not> ?c < 100" "\<not> ?c > 0x00FFFFFF" "cfg_timer_hz cfg \<noteq> 0"
    "plan = \<lparr>plan_slice_ns = cycles_to_ns_with (cfg_timer_hz cfg) (ucast ?c),
                  plan_slice_cycles = ucast ?c, plan_timer_hz = cfg_timer_hz cfg\<rparr>"
    using assms unfolding cm_plan_timer_def Let_def MIN_SLICE_CYCLES_def MAX_SLICE_CYCLES_def
    by (auto split: if_splits)
  have b: "100 \<le> unat ?c" "unat ?c \<le> 0x00FFFFFF"
    using c(2,3) by (simp_all add: not_less word_le_nat_alt)
  have p: "plan_slice_cycles plan = ucast ?c" "plan_timer_hz plan = cfg_timer_hz cfg"
    by (subst c(5), simp)+
  have u: "unat (plan_slice_cycles plan) = unat ?c" unfolding p(1) unat_ucast_mod using b(2) by simp
  show "100 \<le> unat (plan_slice_cycles plan)" "unat (plan_slice_cycles plan) < 2 ^ 24"
    "unat (plan_slice_cycles plan) = unat ?c"
    using b u by simp_all
  then show "unat (plan_slice_cycles plan - 1) = unat (plan_slice_cycles plan) - 1"
    by (subst unat_sub) (simp_all add: word_le_nat_alt)
  show "plan_timer_hz plan = cfg_timer_hz cfg" by (rule p(2))
  show "cfg_timer_hz cfg \<noteq> 0" by (rule c(4))
qed

text \<open>After \<open>start_timer\<close> and after \<open>retune_timer\<close>: the reload value is the slice less one.\<close>

lemma timer_programmed:
  "words (snd (cm_start_timer d plan k)) SYST_RVR = Some (plan_slice_cycles plan - 1)"
  "words (snd (cm_start_timer d plan k)) SYST_CSR = Some run_bits"
  "words (snd (cm_retune_timer plan k)) SYST_RVR = Some (plan_slice_cycles plan - 1)"
  by (simp_all add: cm_start_timer_def cm_retune_timer_def dwt_enable_def reg_wr_def Let_def SYST_RVR_def
      SYST_CSR_def SYST_CVR_def SHPR3_def FPCCR_def DEMCR_def DWT_CTRL_def split: prod.splits)

section \<open>The context switch\<close>

lemma pendsv_save_run:
  assumes "k_current k = p" and t: "rd k p = Some t"
  shows "pendsv_save cp k = Some (if uses_msp t then cp\<lparr>msp := msp cp - 32\<rparr> else cp,
    put p (t\<lparr>sp := (if uses_msp t then msp cp else psp cp) - 32\<rparr>)
      (k\<lparr>words := store_words ((if uses_msp t then msp cp else psp cp) - 32) (r4_r11 cp) (words k)\<rparr>))"
proof -
  have p0: "p \<noteq> 0" using t rd_nonnull by blast
  have "rd (k\<lparr>words := w\<rparr>) p = Some t" for w using t by (simp add: rd_def)
  then have u: "upd f p (k\<lparr>words := w\<rparr>) = Some (put p (f t) (k\<lparr>words := w\<rparr>))" for f w by (rule upd_put)
  show ?thesis using assms(1) t p0 by (simp add: pendsv_save_def Let_def u)
qed

lemma switch_back:
  assumes cur: "k_current k = p" and t: "rd k p = Some t" and len: "length (r4_r11 cp) = 8"
    and save: "pendsv_save cp k = Some (cp1, k1)" and t1: "rd k1 p = Some t1"
    and later: "rd k2 p = Some t2" "sp t2 = sp t1" "uses_msp t2 = uses_msp t"
      "\<forall>i<8. words k2 (sp t1 + of_nat (4 * i)) = words k1 (sp t1 + of_nat (4 * i))"
  shows "\<exists>cp3 k3. pendsv_restore p cp2 k2 = Some (cp3, k3) \<and> r4_r11 cp3 = r4_r11 cp \<and>
    (if uses_msp t then msp cp3 = msp cp \<and> exc_return cp3 = 0xFFFFFFF9
     else psp cp3 = psp cp \<and> exc_return cp3 = 0xFFFFFFFD) \<and> words k3 SYST_CVR = Some 0"
proof -
  have p0: "p \<noteq> 0" using t rd_nonnull by blast
  let ?s = "(if uses_msp t then msp cp else psp cp) - 32"
  from save pendsv_save_run [OF cur t] have
    k1: "k1 = put p (t\<lparr>sp := ?s\<rparr>) (k\<lparr>words := store_words ?s (r4_r11 cp) (words k)\<rparr>)" by simp
  have s1: "sp t1 = ?s" using t1 rd_put [OF p0] unfolding k1 by auto
  have w1: "words k1 = store_words ?s (r4_r11 cp) (words k)" unfolding k1 by (simp add: put_def)
  have "load_words (sp t2) 8 (words k2) = load_words ?s 8 (words k1)"
    unfolding later(2) s1 [symmetric] by (rule load_cong [OF later(4)])
  also have "\<dots> = Some (r4_r11 cp)" unfolding w1 using load_store [of "r4_r11 cp" ?s "words k"] len by simp
  finally have "load_words (sp t2) 8 (words k2) = Some (r4_r11 cp)" .
  then show ?thesis
    using later(1,2,3) s1 by (simp add: pendsv_restore_def Let_def reg_wr_def)
qed

lemma new_stack_bounds:
  assumes "unat b + unat sz + 512 \<le> 2 ^ 32"
  shows "unat b + unat (max sz 256) < unat (new_stack b sz) + 1"
    "unat (new_stack b sz) \<le> unat b + unat (max sz 256 + 8)" "unat (new_stack b sz) mod 8 = 0"
proof -
  have m: "unat (max sz 256) \<le> unat sz + 256" by (simp add: max_def)
  have r: "unat b + unat (max sz 256) + unat (8 :: u32) < 2 ^ 32" using assms m by simp
  have s: "unat (max sz 256 + 8) = unat (max sz 256) + 8"
    using r by (subst unat_plus_small) simp_all
  note t = top_bounds [of 8 3, OF _ _ r]
  have n: "new_stack b sz = (b + (max sz 256 + 8)) AND NOT (8 - 1)" by (simp add: new_stack_def)
  show "unat b + unat (max sz 256) < unat (new_stack b sz) + 1"
    "unat (new_stack b sz) \<le> unat b + unat (max sz 256 + 8)" "unat (new_stack b sz) mod 8 = 0"
    using t unfolding n s by simp_all
qed

lemma frame_word:
  assumes "w' = snd (foldl push (tp, w) (frame_values e p))" and "i < 16"
  shows "w' (tp - 64 + of_nat (4 * i)) = Some (frame_values e p ! (15 - i))"
proof -
  have "15 - i < 16" by simp
  with push_all [of "frame_values e p" tp w] have
    "w' (tp - of_nat (4 * (15 - i + 1))) = Some (frame_values e p ! (15 - i))"
    unfolding assms(1) frame_len by simp
  moreover have "tp - of_nat (4 * (15 - i + 1)) = tp - 64 + of_nat (4 * i)"
  proof -
    have "4 * (15 - i + 1) + 4 * i = 64" using assms(2) by simp
    then have "of_nat (4 * (15 - i + 1)) + of_nat (4 * i) = (64 :: u32)" by (metis of_nat_add of_nat_numeral)
    then show ?thesis by (simp only: algebra_simps)
  qed
  ultimately show ?thesis by (simp only:)
qed

text \<open>The first dispatch of a new task: its stack pointer, and the exception frame the
  hardware pops from there.\<close>

lemma first_dispatch:
  assumes t: "rd k p = Some t" and a: "alloc_block (max sz 256 + 8) 8 k = Some (Some b, k\<lparr>karena := a\<rparr>)"
    and c: "cm_create e p sz k = Some (Inr (), k1)" and rm: "unat b + unat sz + 512 \<le> 2 ^ 32"
    and t1: "rd k1 p = Some t1"
  shows "\<exists>cp' k2. pendsv_restore p cp k1 = Some (cp', k2) \<and> exc_return cp' = 0xFFFFFFFD \<and>
    r4_r11 cp' = replicate 8 0 \<and>
    load_words (psp cp') 8 (words k1) = Some [p, 0, 0, 0, 0, 0xFFFFFFF9, e OR 1, 0x01000000] \<and>
    unat (psp cp') mod 8 = 0 \<and> unat b \<le> unat (sp t1) \<and>
    unat (psp cp') + 32 \<le> unat b + unat (max sz 256 + 8)"
proof -
  let ?tp = "new_stack b sz"
  have p0: "p \<noteq> 0" using t rd_nonnull by blast
  let ?t = "t\<lparr>stack_base := b, stack_size := max sz 256, flags := 0, sp := ?tp - 64\<rparr>"
  let ?w = "snd (foldl push (?tp, words k) (frame_values e p))"
  from c cm_create_run [OF t a, of e] have k1: "k1 = put p ?t (k\<lparr>karena := a, words := ?w\<rparr>)" by simp
  have t1e: "t1 = ?t" using t1 rd_put [OF p0] unfolding k1 by simp
  have w: "words k1 = ?w" unfolding k1 by (simp add: put_def)
  have f: "frame_values e p = [0x01000000, e OR 1, 0xFFFFFFF9, 0, 0, 0, 0, p, 0, 0, 0, 0, 0, 0, 0, 0]"
    by (simp add: frame_values_def numeral_eq_Suc)
  note W = frame_word [OF w, unfolded f]
  have lo: "load_words (?tp - 64) 8 (words k1) = Some (replicate 8 0)"
    using W [of 0] W [of 1] W [of 2] W [of 3] W [of 4] W [of 5] W [of 6] W [of 7]
    by (simp add: load_words_def upt_rec numeral_eq_Suc)
  have hi: "load_words (?tp - 32) 8 (words k1) = Some [p, 0, 0, 0, 0, 0xFFFFFFF9, e OR 1, 0x01000000]"
    using W [of 8] W [of 9] W [of 10] W [of 11] W [of 12] W [of 13] W [of 14] W [of 15]
    by (simp add: load_words_def upt_rec)
  have nm: "\<not> uses_msp t1" unfolding t1e uses_msp_def by simp
  have sp1: "sp t1 = ?tp - 64" unfolding t1e by simp
  let ?cp = "cp\<lparr>r4_r11 := replicate 8 0, psp := ?tp - 64 + 32, exc_return := 0xFFFFFFFD\<rparr>"
  have run: "pendsv_restore p cp k1 = Some (?cp, reg_wr SYST_CVR 0 k1)"
    using t1 lo nm sp1 by (simp add: pendsv_restore_def Let_def)
  have ps: "psp ?cp = ?tp - 32" by simp
  note B = new_stack_bounds [OF rm]
  have m: "256 \<le> unat (max sz 256)" by (simp add: max_def word_le_nat_alt)
  have u: "unat (?tp - 32) = unat ?tp - 32" "unat (?tp - 64) = unat ?tp - 64"
    using B(1) m by (subst unat_sub; simp add: word_le_nat_alt)+
  have "unat (?tp - 32) mod 8 = 0" using B(1,3) m unfolding u by presburger
  then show ?thesis
    using run hi B(1,2) m u ps sp1 by (intro exI [of _ ?cp] exI [of _ "reg_wr SYST_CVR 0 k1"] conjI) simp_all
qed

section \<open>Critical sections\<close>

interpretation cm_critical: critical critical_enter critical_exit "\<lambda>m. m = 1" "\<lambda>m. m \<le> 1"
proof
  show "snd (critical_enter m) = 1 \<and> snd (critical_enter m) \<le> 1" if "m \<le> 1" for m
    by (simp add: critical_enter_def)
  show "critical_exit (fst (critical_enter m)) (snd (critical_enter m)) = m" if "m \<le> 1" for m
  proof -
    have "unat m = 0 \<or> unat m = 1" using that by (auto simp: word_le_nat_alt)
    then have "m = 0 \<or> m = 1" by (metis unat_0 unat_1 word_unat_eq_iff)
    then show ?thesis by (auto simp: critical_enter_def critical_exit_def)
  qed
qed

end
