(* ===== verification/RkSystem.thy ===== *)
theory RkSystem
  imports RkIo RkCortex RkExamples RkAlloc
begin

text \<open>
  The kernel as a transition system: start-up, then any sequence of the operations that
  ticks, interrupt handlers and tasks perform.  \<open>sys_inv\<close> collects the invariants of the
  components; every operation is total under it and keeps it, so it holds in every
  reachable state, for every port that meets \<open>port_contract\<close>.
\<close>

section \<open>The invariant\<close>

definition leaf_at :: "kernel \<Rightarrow> ptr \<Rightarrow> bool" where
  "leaf_at k a = (\<exists>t. rd k a = Some t \<and> kind t = Leaf)"

definition cur_in :: "kernel \<Rightarrow> ntree \<Rightarrow> bool" where
  "cur_in k T = (current_tcb k = 0 \<or> LeafN (current_tcb k) \<in> set (subs T))"

definition locks_ok :: "kernel \<Rightarrow> ntree \<Rightarrow> bool" where
  "locks_ok k T = (\<forall>a\<in>set (addrs T). \<forall>t. rd k a = Some t \<longrightarrow> kind t = Leaf \<longrightarrow> held_ok t)"

text \<open>\<open>active_threads\<close> counts the tasks of the tree.\<close>

definition count_ok :: "kernel \<Rightarrow> ntree \<Rightarrow> bool" where
  "count_ok k T = (unat (active_threads k) = card {a \<in> set (addrs T). leaf_at k a})"

definition sys_inv :: "kernel \<Rightarrow> ntree \<Rightarrow> ptr list \<Rightarrow> bool" where
  "sys_inv k T ns = (kernel_ok k T \<and> mem_ok k \<and> dead_ok k T ns \<and> cur_in k T \<and> locks_ok k T \<and> count_ok k T)"

lemma sys_invD:
  assumes "sys_inv k T ns"
  shows "kernel_ok k T" "tree_ok k T" "mem_ok k" "dead_ok k T ns" "cur_in k T" "locks_ok k T" "count_ok k T"
    "cur_ok k" "one_running k"
  using assms by (simp_all add: sys_inv_def kernel_ok_def)

lemma dead_ok_links:
  assumes "dead_ok k T ns" and "pending_free k' = pending_free k" and "set (addrs T') \<inter> set ns = {}"
    and "\<And>q t. q \<in> set ns \<Longrightarrow> rd k q = Some t \<Longrightarrow>
      \<exists>t'. rd k' q = Some t' \<and> st t' = st t \<and> nxt t' = nxt t \<and> prv t' = prv t"
  shows "dead_ok k' T' ns"
proof -
  have "dead_list k' p ms" if "dead_list k p ms" "set ms \<subseteq> set ns" for p ms
    using that assms(4) by (induction ms arbitrary: p) fastforce+
  then show ?thesis using assms(1-3) by (auto simp: dead_ok_def)
qed

section \<open>Steps that rewrite control blocks in place\<close>

definition mild :: "tcb \<Rightarrow> tcb \<Rightarrow> bool" where
  "mild t t' = (shape t' = shape t \<and> blocks_of t' = blocks_of t \<and> (st t' = Running \<longrightarrow> st t = Running) \<and>
     (held_ok t \<longrightarrow> held_ok t'))"

definition task_step :: "ntree \<Rightarrow> kernel \<Rightarrow> kernel \<Rightarrow> bool" where
  "task_step T k k' =
     (root k' = root k \<and> nodes k' = nodes k \<and> current_tcb k' = current_tcb k \<and> karena k' = karena k \<and>
      pending_free k' = pending_free k \<and> active_threads k' = active_threads k \<and>
      only_at (set (addrs T)) k k' \<and> (\<forall>a. rel_option mild (rd k a) (rd k' a)))"

lemma mild_refl [simp]: "mild t t"
  by (simp add: mild_def)

lemma mild_trans: "mild t u \<Longrightarrow> mild u v \<Longrightarrow> mild t v"
  by (simp add: mild_def)

lemma task_stepD:
  assumes "task_step T k k'" and "rd k a = Some t"
  obtains t' where "rd k' a = Some t'" "mild t t'"
proof -
  have "rel_option mild (rd k a) (rd k' a)" using assms(1) by (simp add: task_step_def)
  then show thesis using assms(2) that by (cases "rd k' a") auto
qed

lemma task_stepD':
  assumes "task_step T k k'" and "rd k' a = Some t'"
  obtains t where "rd k a = Some t" "mild t t'"
proof -
  have "rel_option mild (rd k a) (rd k' a)" using assms(1) by (simp add: task_step_def)
  then show thesis using assms(2) that by (cases "rd k a") auto
qed

lemma task_step_map:
  assumes s: "task_step T k k'" and f: "\<And>t t'. mild t t' \<Longrightarrow> f t' = f t"
  shows "map_option f (rd k' a) = map_option f (rd k a)"
proof -
  have "rel_option mild (rd k a) (rd k' a)" using s by (simp add: task_step_def)
  then show ?thesis using f by (cases rule: option.rel_cases) auto
qed

lemma task_step_leaf: "task_step T k k' \<Longrightarrow> leaf_at k' a = leaf_at k a"
proof -
  assume "task_step T k k'"
  then have "map_option kind (rd k' a) = map_option kind (rd k a)"
    by (rule task_step_map) (simp add: mild_def shape_def)
  then show ?thesis by (cases "rd k a"; cases "rd k' a") (auto simp: leaf_at_def)
qed

lemma task_step_inv:
  assumes inv: "sys_inv k T ns" and s: "task_step T k k'"
  shows "sys_inv k' T ns"
proof -
  have f: "root k' = root k" "nodes k' = nodes k" "current_tcb k' = current_tcb k" "karena k' = karena k"
    "pending_free k' = pending_free k" "active_threads k' = active_threads k" "only_at (set (addrs T)) k k'"
    using s by (simp_all add: task_step_def)
  note i = sys_invD [OF inv]
  have "same_shape (heap k) (heap k')"
    using task_step_map [OF s, of shape] by (simp add: same_shape_def rd_def mild_def)
  then have "tree_ok k' T" by (rule tree_ok_shape [OF i(2)]) (use f in simp_all)
  moreover have "cur_ok k'"
    using i(8) f(3) by (auto simp: cur_ok_def elim!: task_stepD [OF s] simp: mild_def shape_def)
  moreover have "one_running k'"
    unfolding one_running_def f(3)
  proof (intro allI impI)
    fix a t' assume a: "rd k' a = Some t'" "st t' = Running"
    from task_stepD' [OF s a(1)] obtain t where t: "rd k a = Some t" "mild t t'" .
    with a(2) have "st t = Running" "nxt t' = nxt t" by (auto simp: mild_def shape_def)
    with i(9) t(1) show "a = current_tcb k \<and> nxt t' \<noteq> 0" by (auto simp: one_running_def)
  qed
  moreover have "mem_ok k'"
    by (rule mem_ok_owners [OF i(3) _ f(4)])
      (use task_step_map [OF s, of blocks_of] in \<open>simp add: same_owners_def rd_def mild_def\<close>)
  moreover have "dead_ok k' T ns"
  proof (rule dead_ok_links [OF i(4) f(5)])
    show d: "set (addrs T) \<inter> set ns = {}" using i(4) by (auto simp: dead_ok_def)
    show "\<exists>t'. rd k' q = Some t' \<and> st t' = st t \<and> nxt t' = nxt t \<and> prv t' = prv t"
      if "q \<in> set ns" "rd k q = Some t" for q t
      using that f(7) d by (auto simp: only_at_def)
  qed
  moreover have "cur_in k' T" using i(5) f(3) by (simp add: cur_in_def)
  moreover have "locks_ok k' T"
    unfolding locks_ok_def
  proof (intro ballI allI impI)
    fix a t' assume a: "a \<in> set (addrs T)" "rd k' a = Some t'" "kind t' = Leaf"
    from task_stepD' [OF s a(2)] obtain t where t: "rd k a = Some t" "mild t t'" .
    then have "kind t = Leaf" using a(3) by (simp add: mild_def shape_def)
    then show "held_ok t'" using i(6) a(1) t by (auto simp: locks_ok_def mild_def)
  qed
  moreover have "count_ok k' T"
    using i(7) f(6) task_step_leaf [OF s] by (simp add: count_ok_def)
  ultimately show ?thesis by (simp add: sys_inv_def kernel_ok_def)
qed

lemma task_step_trans: "task_step T k k' \<Longrightarrow> task_step T k' k'' \<Longrightarrow> task_step T k k''"
proof -
  assume s: "task_step T k k'" "task_step T k' k''"
  have "rel_option mild (rd k a) (rd k'' a)" for a
  proof -
    have "rel_option mild (rd k a) (rd k' a)" "rel_option mild (rd k' a) (rd k'' a)"
      using s by (simp_all add: task_step_def)
    then show ?thesis by (cases "rd k a"; cases "rd k' a"; cases "rd k'' a") (auto intro: mild_trans)
  qed
  then show ?thesis using s only_at_trans unfolding task_step_def by metis
qed

text \<open>The kernel's plain counters and flags.\<close>

lemma task_step_same:
  assumes "heap k' = heap k" "root k' = root k" "nodes k' = nodes k" "current_tcb k' = current_tcb k"
    "karena k' = karena k" "pending_free k' = pending_free k" "active_threads k' = active_threads k"
  shows "task_step T k k'"
  using assms by (simp add: task_step_def only_at_def rd_def option.rel_refl)

lemma task_step_refl [simp]: "task_step T k k"
  by (rule task_step_same) simp_all

lemma task_step_map_at:
  assumes A: "A \<subseteq> set (addrs T)" and g: "\<And>t. mild t (g t)"
  shows "task_step T k (k\<lparr>heap := map_at g A (heap k)\<rparr>)"
proof -
  have "rel_option mild (rd k a) (rd (k\<lparr>heap := map_at g A (heap k)\<rparr>) a)" for a
    using g by (cases "rd k a") (auto simp: rd_map_at)
  moreover have "only_at (set (addrs T)) k (k\<lparr>heap := map_at g A (heap k)\<rparr>)"
    using A by (auto simp: only_at_def rd_map_at)
  ultimately show ?thesis by (simp add: task_step_def)
qed

lemma task_step_put:
  assumes t: "rd k p = Some t" and p: "p \<in> set (addrs T)" and m: "mild t t'"
  shows "task_step T k (put p t' k)"
proof -
  have p0: "p \<noteq> 0" using rd_nonnull [OF t] .
  have "rel_option mild (rd k a) (rd (put p t' k) a)" for a
    using t m by (cases "rd k a") (auto simp: rd_put [OF p0])
  moreover have "only_at (set (addrs T)) k (put p t' k)" by (rule only_at_put [OF p0 p])
  ultimately show ?thesis by (simp add: task_step_def put_def)
qed

lemma mild_ready: "mild t (make_ready t)"
  by (simp add: mild_def make_ready_def shape_def blocks_of_def held_ok_def held_def)

lemma mild_woken: "mild t (set_woken t)"
  by (simp add: mild_def set_woken_def shape_def blocks_of_def held_ok_def held_def)

lemma mild_unflag: "mild t (unflag t)"
  by (simp add: mild_def unflag_def shape_def blocks_of_def held_ok_def held_def)

lemma mild_blocked: "mild t (blocked r d t)"
  by (simp add: mild_def blocked_def shape_def blocks_of_def held_ok_def held_def)

lemma mild_drain: "mild t (drain_one t)"
  by (simp add: mild_def drain_one_def shape_def blocks_of_def held_ok_def held_def)

lemma mild_held: "no_held u = no_held t \<Longrightarrow> held_ok u \<Longrightarrow> mild t u"
  by (cases t; cases u) (simp add: mild_def no_held_def shape_def blocks_of_def)

lemma mild_woken_up: "mild t (woken_up i t)"
  unfolding woken_up_def by (auto intro: mild_trans [OF mild_woken mild_ready] mild_woken)

section \<open>The operations that only take such steps\<close>

text \<open>The running task.\<close>

lemma cur_on_cpu:
  assumes "sys_inv k T ns" and "current_tcb k \<noteq> 0"
  obtains t where "on_cpu k (current_tcb k) t" "current_tcb k \<in> set (addrs T)" "kind t = Leaf" "held_ok t"
    "LeafN (current_tcb k) \<in> set (subs T)"
proof -
  note i = sys_invD [OF assms(1)]
  have l: "LeafN (current_tcb k) \<in> set (subs T)" using i(5) assms(2) by (simp add: cur_in_def)
  then have a: "current_tcb k \<in> set (addrs T)" using subs_addr by fastforce
  from i(8) assms(2) obtain t where t: "rd k (current_tcb k) = Some t" "kind t = Leaf" by (auto simp: cur_ok_def)
  moreover have "held_ok t" using i(6) a t by (auto simp: locks_ok_def)
  ultimately show thesis using that l a by (simp add: on_cpu_def)
qed

text \<open>A tick: the clock, the quanta on the current path, and the sleepers that are due.\<close>

lemma tick_form:
  assumes inv: "sys_inv k T ns"
  shows "\<exists>A B. A \<subseteq> set (addrs T) \<and> B \<subseteq> set (addrs T) \<and> on_tick k = Some (k\<lparr>ticks := ticks k + 1, heap :=
    map_at (\<lambda>t. if due (ticks k + 1) t then make_ready t else t) A (map_at drain_one B (heap k))\<rparr>)"
proof -
  note i = sys_invD [OF inv]
  show ?thesis
  proof (cases "current_tcb k = 0")
    case True
    let ?k = "k\<lparr>ticks := ticks k + 1\<rparr>"
    have ok: "tree_ok ?k T" using tree_ok_shape [OF i(2), of ?k] by simp
    have "drain_current_path ?k = Some ?k"
      using True by (simp add: drain_current_path_def k_current_def drain_loop.simps)
    then have "on_tick k = Some (?k\<lparr>heap := map_at (\<lambda>t. if due (ticks k + 1) t then make_ready t else t)
        (set (visited ?k T)) (heap ?k)\<rparr>)"
      using wake_expired_effect [OF ok] by (simp add: on_tick_def)
    then show ?thesis
      using visited_subset [of ?k T] by (intro exI [of _ "set (visited ?k T)"] exI [of _ "{}"]) (simp add: map_at_empty)
  next
    case False
    then have "LeafN (current_tcb k) \<in> set (subs T)" using i(5) by (simp add: cur_in_def)
    from lineage_ex [OF this] obtain As where lin: "lineage T (LeafN (current_tcb k) # As)" by blast
    let ?P = "set (map addr (LeafN (current_tcb k) # As))"
    have P: "?P \<subseteq> set (addrs T)" using lineage_sub [OF lin] subs_addr by fastforce
    show ?thesis
      by (intro exI [of _ "set (visited k T)"] exI [of _ ?P] conjI)
        (rule visited_subset, rule P, rule on_tick_effect [OF i(2) lin])
  qed
qed

lemma tick_step:
  assumes inv: "sys_inv k T ns"
  shows "\<exists>k'. on_tick k = Some k' \<and> task_step T k k'"
proof -
  let ?g = "\<lambda>t. if due (ticks k + 1) t then make_ready t else t"
  from tick_form [OF inv] obtain A B where A: "A \<subseteq> set (addrs T)" "B \<subseteq> set (addrs T)"
    and r: "on_tick k = Some (k\<lparr>ticks := ticks k + 1, heap := map_at ?g A (map_at drain_one B (heap k))\<rparr>)" by blast
  have g: "mild t (?g t)" for t by (simp add: mild_ready)
  let ?k1 = "k\<lparr>heap := map_at drain_one B (heap k)\<rparr>"
  let ?k2 = "?k1\<lparr>heap := map_at ?g A (heap ?k1)\<rparr>"
  have "task_step T k ?k1" by (rule task_step_map_at [OF A(2) mild_drain])
  moreover have "task_step T ?k1 ?k2" by (rule task_step_map_at [OF A(1) g])
  moreover have "task_step T ?k2 (?k2\<lparr>ticks := ticks k + 1\<rparr>)" by (rule task_step_same) simp_all
  ultimately have "task_step T k (?k2\<lparr>ticks := ticks k + 1\<rparr>)" using task_step_trans by blast
  moreover have "on_tick k = Some (?k2\<lparr>ticks := ticks k + 1\<rparr>)" unfolding r by simp
  ultimately show ?thesis by blast
qed

lemma block_step:
  assumes inv: "sys_inv k T ns"
  shows "\<exists>r k'. mark_blocked_locked res d k = Some (r, k') \<and> task_step T k k'"
proof (cases "current_tcb k = 0")
  case True
  then show ?thesis
    by (simp add: mark_blocked_locked_def k_current_def) (rule task_step_same; simp)
next
  case False
  from cur_on_cpu [OF inv this] obtain t where t: "on_cpu k (current_tcb k) t" "current_tcb k \<in> set (addrs T)" .
  then have "task_step T k (put (current_tcb k) (blocked res d t) k)"
    by (intro task_step_put [OF _ _ mild_blocked]) (auto simp: on_cpu_def)
  moreover have "task_step T (put (current_tcb k) (blocked res d t) k) (request_switch (put (current_tcb k) (blocked res d t) k))"
    by (rule task_step_same) (simp_all add: request_switch_def)
  ultimately have "task_step T k (request_switch (put (current_tcb k) (blocked res d t) k))"
    by (rule task_step_trans)
  moreover have "task_step T k k" by (rule task_step_same) simp_all
  ultimately show ?thesis using mark_blocked_run [OF t(1), of res d] by auto
qed

lemma wake_task_step:
  assumes inv: "sys_inv k T ns"
  shows "\<exists>k'. wake_task i k = Some k' \<and> task_step T k k'"
proof (cases "i = 0")
  case True
  then show ?thesis by (simp add: wake_task_def)
next
  case False
  have "task_step T k (k\<lparr>heap := map_at (woken_up i) (set (visited k T)) (heap k)\<rparr>)"
    by (rule task_step_map_at [OF visited_subset mild_woken_up])
  then show ?thesis using wake_task_run [OF sys_invD(2) [OF inv] False] by blast
qed

lemma wake_blocked_step:
  assumes inv: "sys_inv k T ns"
  shows "\<exists>k'. wake_blocked_on r k = Some k' \<and> task_step T k k'"
proof -
  have "task_step T k (k\<lparr>heap := map_at (\<lambda>t. if waits_on r t then make_ready t else t) (set (visited k T)) (heap k)\<rparr>)"
    by (rule task_step_map_at [OF visited_subset]) (simp add: mild_ready)
  then show ?thesis using wake_blocked_on_effect [OF sys_invD(2) [OF inv], of r] by blast
qed

lemma wake_first_step:
  assumes inv: "sys_inv k T ns"
  shows "\<exists>b k'. wake_first_blocked_on r k = Some (b, k') \<and> task_step T k k'"
proof (cases "List.find (h_waits k r) (visited k T)")
  case None
  then show ?thesis
    using wake_first_effect [OF sys_invD(2) [OF inv], of r] by auto
next
  case (Some p)
  then have "{p} \<subseteq> set (addrs T)" using find_SomeD [OF Some] visited_subset by fastforce
  moreover have "mild t ((make_ready \<circ> set_woken) t)" for t
    by (simp add: mild_trans [OF mild_woken mild_ready])
  ultimately have "task_step T k (k\<lparr>heap := map_at (make_ready \<circ> set_woken) {p} (heap k)\<rparr>)"
    by (rule task_step_map_at)
  then show ?thesis using wake_first_effect [OF sys_invD(2) [OF inv], of r] Some by auto
qed

lemma flag_step:
  assumes inv: "sys_inv k T ns"
  shows "\<exists>b k'. take_wake_flag_locked k = Some (b, k') \<and> task_step T k k'"
proof (cases "current_tcb k = 0")
  case True
  then show ?thesis
    by (auto simp: take_wake_flag_locked_def k_current_def)
next
  case False
  from cur_on_cpu [OF inv this] obtain t where t: "on_cpu k (current_tcb k) t" "current_tcb k \<in> set (addrs T)" .
  then have "task_step T k (put (current_tcb k) (unflag t) k)"
    by (intro task_step_put [OF _ _ mild_unflag]) (auto simp: on_cpu_def)
  then show ?thesis using take_flag_run [OF t(1)] by blast
qed

lemma lock_step:
  assumes inv: "sys_inv k T ns"
  shows "\<exists>r k'. try_acquire m k = Some (r, k') \<and> task_step T k k'"
proof -
  have s: "task_step T k k" by (rule task_step_same) simp_all
  show ?thesis
  proof (cases "current_tcb k = 0")
    case True
    then show ?thesis using s by (simp add: try_acquire_def current_task_id_def k_current_def)
  next
    case False
    from cur_on_cpu [OF inv this] obtain t where
      t: "on_cpu k (current_tcb k) t" "current_tcb k \<in> set (addrs T)" "kind t = Leaf" "held_ok t" .
    then have r: "rd k (current_tcb k) = Some t" by (simp add: on_cpu_def)
    have c: "current_task_id k = Some (tid t)" by (rule current_task_id_run [OF r])
    show ?thesis
    proof (cases "tid t = 0 \<or> mh_owner m \<noteq> 0")
      case True
      then show ?thesis using c s by (auto simp: try_acquire_def)
    next
      case False
      then have run: "try_acquire m k = Some (case order_verdict (held t) (mh_id m) of
          Inl e \<Rightarrow> (Inl e, k) | Inr _ \<Rightarrow> (Inr True, put (current_tcb k) (pushed (mh_id m) t) k))"
        using try_acquire_run [OF refl r t(4)] by simp
      show ?thesis
      proof (cases "order_verdict (held t) (mh_id m)")
        case (Inl e)
        then show ?thesis using run s by simp
      next
        case (Inr x)
        then have v: "order_verdict (held t) (mh_id m) = Inr ()" by simp
        note p = pushed_ok [OF t(4) verdict_ok [OF t(4) v]]
        have "task_step T k (put (current_tcb k) (pushed (mh_id m) t) k)"
          by (rule task_step_put [OF r t(2) mild_held [OF p(3,2)]])
        then show ?thesis using run v by simp
      qed
    qed
  qed
qed

lemma unlock_step:
  assumes inv: "sys_inv k T ns"
  shows "\<exists>k'. release_shim m k = Some k' \<and> task_step T k k'"
proof -
  have "\<exists>k1. held_remove (mh_id m) k = Some k1 \<and> task_step T k k1"
  proof (cases "current_tcb k = 0")
    case True
    then show ?thesis by (simp add: held_remove_def k_current_def)
  next
    case False
    from cur_on_cpu [OF inv this] obtain t where
      t: "on_cpu k (current_tcb k) t" "current_tcb k \<in> set (addrs T)" "kind t = Leaf" "held_ok t" .
    then have r: "rd k (current_tcb k) = Some t" by (simp add: on_cpu_def)
    from held_remove_run [OF refl r t(4), of "mh_id m"] obtain u where
      u: "held_remove (mh_id m) k = Some (put (current_tcb k) u k)" "held_ok u" "no_held u = no_held t" by blast
    then show ?thesis using task_step_put [OF r t(2) mild_held [OF u(3,2)]] by blast
  qed
  then obtain k1 where k1: "held_remove (mh_id m) k = Some k1" "task_step T k k1" by blast
  from wake_blocked_step [OF task_step_inv [OF inv k1(2)], of "mh_id m"] obtain k2 where
    "wake_blocked_on (mh_id m) k1 = Some k2" "task_step T k1 k2" by blast
  then show ?thesis using k1 task_step_trans by (auto simp: release_shim_def)
qed

section \<open>The switch\<close>

text \<open>What a switch leaves alone in every TCB.\<close>

definition steady :: "tcb \<Rightarrow> tcb" where
  "steady t = t\<lparr>st := Ready, tswitches := 0, slices_run := 0, remaining_cycles := 0, current_child := 0\<rparr>"

lemma steady_cong: "frozen t' = frozen t \<Longrightarrow> steady t' = steady t" "plain t' = plain t \<Longrightarrow> st t' = st t \<and> steady t' = steady t"
proof -
  assume a: "frozen t' = frozen t"
  have e: "steady u = (frozen u)\<lparr>remaining_cycles := 0, current_child := 0\<rparr>" for u
    by (simp add: steady_def frozen_def)
  show "steady t' = steady t" by (simp only: e a)
next
  assume a: "plain t' = plain t"
  have e: "steady u = (plain u)\<lparr>st := Ready, tswitches := 0, slices_run := 0\<rparr>" for u
    by (simp add: steady_def plain_def)
  have "steady t' = steady t" by (simp only: e a)
  then show "st t' = st t \<and> steady t' = steady t" using plain_eqD(1) [OF a] by simp
qed

lemma steady_simps:
  assumes "steady t' = steady t"
  shows "kind t' = kind t" "blocks_of t' = blocks_of t" "held_ok t' = held_ok t" "nxt t' = nxt t" "prv t' = prv t"
proof -
  note f = arg_cong [OF assms]
  show "kind t' = kind t" using f [of kind] by (simp add: steady_def)
  show "blocks_of t' = blocks_of t" using f [of blocks_of] by (simp add: steady_def blocks_of_def)
  show "held_ok t' = held_ok t" using f [of held_ok] by (simp add: steady_def held_ok_def held_def)
  show "nxt t' = nxt t" using f [of nxt] by (simp add: steady_def)
  show "prv t' = prv t" using f [of prv] by (simp add: steady_def)
qed

text \<open>A switch writes only states, counters, quanta and cursors, and wakes no dead task.\<close>

definition steady_step :: "ptr set \<Rightarrow> kernel \<Rightarrow> kernel \<Rightarrow> bool" where
  "steady_step A k k' =
     (karena k' = karena k \<and> pending_free k' = pending_free k \<and> active_threads k' = active_threads k \<and>
      words k' = words k \<and> config k' = config k \<and> ticks k' = ticks k \<and>
      (\<forall>a. map_option steady (rd k' a) = map_option steady (rd k a)) \<and>
      (\<forall>a\<in>A. map_option (\<lambda>t. st t = Dead) (rd k a) = Some True \<longrightarrow> map_option (\<lambda>t. st t = Dead) (rd k' a) = Some True))"

lemma steady_stepD:
  assumes "steady_step A k k'"
  shows "karena k' = karena k" "pending_free k' = pending_free k" "active_threads k' = active_threads k"
    "map_option steady (rd k' a) = map_option steady (rd k a)"
    "a \<in> A \<Longrightarrow> rd k a = Some t \<Longrightarrow> st t = Dead \<Longrightarrow> \<exists>t'. rd k' a = Some t' \<and> st t' = Dead"
    "words k' = words k" "config k' = config k" "ticks k' = ticks k"
  using assms by (simp_all add: steady_step_def)

lemma steady_stepI:
  assumes "karena k' = karena k" "pending_free k' = pending_free k" "active_threads k' = active_threads k"
    and "words k' = words k" "config k' = config k" "ticks k' = ticks k"
    and "\<And>a. map_option steady (rd k' a) = map_option steady (rd k a)"
    and "\<And>a t. a \<in> A \<Longrightarrow> rd k a = Some t \<Longrightarrow> st t = Dead \<Longrightarrow> \<exists>t'. rd k' a = Some t' \<and> st t' = Dead"
  shows "steady_step A k k'"
  unfolding steady_step_def using assms by blast

lemma moved_steady:
  assumes "moved T k k'"
  shows "steady_step A k k'"
proof (rule steady_stepI)
  from assms have sb: "same_but_heap k k'" and ao: "arm_only (heap k) (heap k')" by (simp_all add: moved_def)
  note e = arg_cong [OF sb [unfolded same_but_heap_def]]
  show "karena k' = karena k" "pending_free k' = pending_free k" "active_threads k' = active_threads k"
    "words k' = words k" "config k' = config k" "ticks k' = ticks k"
    using e [of karena] e [of pending_free] e [of active_threads] e [of words] e [of config] e [of ticks]
    by simp_all
  have r: "rd k a = rdh (heap k) a" "rd k' a = rdh (heap k') a" for a by (simp_all add: rd_def)
  show "map_option steady (rd k' a) = map_option steady (rd k a)" for a
  proof (cases "rd k a")
    case None
    then have "rd k' a = None" using ao unfolding arm_only_def r by (metis option.map_disc_iff)
    with None show ?thesis by simp
  next
    case (Some t)
    then obtain t' where t': "rd k' a = Some t'" "plain t' = plain t" using arm_onlyD [OF ao] unfolding r by blast
    with Some steady_cong(2) [OF t'(2)] show ?thesis by simp
  qed
  show "\<exists>t'. rd k' a = Some t' \<and> st t' = Dead" if "rd k a = Some t" "st t = Dead" for a t
  proof -
    from that(1) obtain t' where t': "rd k' a = Some t'" "plain t' = plain t" using arm_onlyD [OF ao] unfolding r by blast
    with that(2) plain_eqD(1) [OF t'(2)] show ?thesis by (intro exI [of _ t']) simp
  qed
qed

lemma switched_steady:
  assumes sw: "switched cur leaf k k'" and leaf: "leaf \<notin> A"
  shows "steady_step A k k'"
proof (rule steady_stepI)
  have same: "\<And>a t. rd k a = Some t \<Longrightarrow> \<exists>t'. rd k' a = Some t' \<and> frozen t' = frozen t"
    and shp: "\<And>a. map_option shape (rdh (heap k') a) = map_option shape (rdh (heap k) a)"
    using sw unfolding switched_def same_shape_def by blast+
  show "karena k' = karena k" "pending_free k' = pending_free k" "active_threads k' = active_threads k"
    "words k' = words k" "config k' = config k" "ticks k' = ticks k"
    using sw by (simp_all add: switched_def)
  show "map_option steady (rd k' a) = map_option steady (rd k a)" for a
  proof (cases "rd k a")
    case None
    with shp [of a] have "rd k' a = None" by (simp add: rd_def)
    with None show ?thesis by simp
  next
    case (Some t)
    with same obtain t' where t': "rd k' a = Some t'" "frozen t' = frozen t" by blast
    with Some steady_cong(1) [OF t'(2)] show ?thesis by simp
  qed
  show "\<exists>t'. rd k' a = Some t' \<and> st t' = Dead" if t: "a \<in> A" "rd k a = Some t" "st t = Dead" for a t
  proof -
    from same [OF t(2)] obtain t' where t': "rd k' a = Some t'" by blast
    from switched_rd [OF sw t'] obtain u where "rd k a = Some u"
      "st t' = (if leaf \<noteq> cur \<and> a = leaf then Running
                  else if leaf \<noteq> cur \<and> a = cur \<and> st u = Running then Ready else st u)" by blast
    then show ?thesis using t t' leaf by auto
  qed
qed

lemma steady_trans:
  assumes a: "steady_step A k k1" and b: "steady_step A k1 k'"
  shows "steady_step A k k'"
proof (rule steady_stepI)
  show "karena k' = karena k" "pending_free k' = pending_free k" "active_threads k' = active_threads k"
    "words k' = words k" "config k' = config k" "ticks k' = ticks k"
    using steady_stepD(1-3,6-8) [OF a] steady_stepD(1-3,6-8) [OF b] by simp_all
  show "map_option steady (rd k' a) = map_option steady (rd k a)" for a
    using steady_stepD(4) [OF a] steady_stepD(4) [OF b] by metis
  show "\<exists>t'. rd k' q = Some t' \<and> st t' = Dead" if "q \<in> A" "rd k q = Some t" "st t = Dead" for q t
    using steady_stepD(5) [OF a that] steady_stepD(5) [OF b that(1)] by blast
qed

lemma steady_rd:
  assumes "steady_step A k k'" and "rd k a = Some t"
  obtains t' where "rd k' a = Some t'" "steady t' = steady t"
  using steady_stepD(4) [OF assms(1), of a] assms(2) that by auto

lemma steady_rd':
  assumes "steady_step A k k'" and "rd k' a = Some t'"
  obtains t where "rd k a = Some t" "steady t' = steady t"
  using steady_stepD(4) [OF assms(1), of a] assms(2) that by (cases "rd k a") auto

lemma switch_step:
  assumes inv: "sys_inv k T ns"
  shows "\<exists>leaf k'. schedule_next k = Some (leaf, k') \<and> sys_inv k' T ns \<and> steady_step (set ns) k k'
    \<and> (leaf \<noteq> 0 \<longrightarrow> LeafN leaf \<in> set (subs T) \<and> current_tcb k' = leaf)"
proof -
  note i = sys_invD [OF inv]
  from schedule_next_ok [of k T] inv obtain leaf k' where
    s: "schedule_next k = Some (leaf, k')" and ok': "kernel_ok k' T"
    and lf: "leaf \<noteq> 0 \<longrightarrow> LeafN leaf \<in> set (subs T) \<and> current_tcb k' = leaf"
    by (auto simp: sys_inv_def)
  from schedule_next_spec [OF i(2,8)] obtain leaf2 k0 k1 k2 where
    k0: "k0 = k\<lparr>current_tcb := (if eff_cur k = 0 then 0 else current_tcb k)\<rparr>"
    and p: "picked T k0 leaf2 k1" and s2: "schedule_next k = Some (leaf2, k2)"
    and e2: "if leaf2 = 0 then k2 = k1 else switched (eff_cur k) leaf2 k1 k2" by blast
  have eq: "leaf2 = leaf" "k2 = k'" using s s2 by simp_all
  note e = e2 [unfolded eq]
  have m: "moved T k0 k1" using p by (simp add: picked_def)
  have d: "set (addrs T) \<inter> set ns = {}" using i(4) by (auto simp: dead_ok_def)
  have S0: "steady_step (set ns) k k0" using k0 by (intro steady_stepI) (simp_all add: rd_def)
  have S1: "steady_step (set ns) k0 k1" by (rule moved_steady [OF m])
  have S2: "steady_step (set ns) k1 k'"
  proof (cases "leaf = 0")
    case True
    then have "k' = k1" using e by simp
    then show ?thesis by (intro steady_stepI) simp_all
  next
    case False
    then have "leaf \<in> set (addrs T)" using lf subs_addr [of "LeafN leaf" T] by simp
    then have "leaf \<notin> set ns" using d by blast
    then show ?thesis using switched_steady e False by simp
  qed
  have S: "steady_step (set ns) k k'" using steady_trans [OF steady_trans [OF S0 S1] S2] .
  note f = steady_stepD(1-3) [OF S]
  have "mem_ok k'"
  proof (rule mem_ok_owners [OF i(3) _ f(1)])
    have "map_option blocks_of (rd k' a) = map_option blocks_of (rd k a)" for a
    proof (cases "rd k a")
      case None
      then show ?thesis using steady_stepD(4) [OF S, of a] by simp
    next
      case (Some t)
      from steady_rd [OF S this] obtain t' where t': "rd k' a = Some t'" "steady t' = steady t" .
      from Some t'(1) steady_simps(2) [OF t'(2)] show ?thesis by simp
    qed
    then show "same_owners (heap k) (heap k')" by (simp add: same_owners_def rd_def)
  qed
  moreover have "dead_ok k' T ns"
  proof (rule dead_ok_links [OF i(4) f(2) d])
    fix q t assume q: "q \<in> set ns" "rd k q = Some t"
    then have "st t = Dead" using i(4) dead_list_rd by (fastforce simp: dead_ok_def)
    from steady_stepD(5) [OF S q this] obtain t' where t': "rd k' q = Some t'" "st t' = Dead" by blast
    from steady_stepD(4) [OF S, of q] q(2) t'(1) have "steady t' = steady t" by simp
    from steady_simps(4,5) [OF this] show "\<exists>t'. rd k' q = Some t' \<and> st t' = st t \<and> nxt t' = nxt t \<and> prv t' = prv t"
      using t' \<open>st t = Dead\<close> by simp
  qed
  moreover have "cur_in k' T"
  proof (cases "leaf = 0")
    case True
    then have "k' = k1" using e by simp
    then have "current_tcb k' = 0 \<or> current_tcb k' = current_tcb k" using moved_kernel(5) [OF m] k0 by simp
    then show ?thesis using i(5) by (auto simp: cur_in_def)
  next
    case False
    then show ?thesis using lf by (simp add: cur_in_def)
  qed
  moreover have "locks_ok k' T"
    unfolding locks_ok_def
  proof (intro ballI allI impI)
    fix a t' assume a: "a \<in> set (addrs T)" "rd k' a = Some t'" "kind t' = Leaf"
    from steady_rd' [OF S a(2)] obtain t where t: "rd k a = Some t" "steady t' = steady t" .
    then show "held_ok t'" using i(6) a(1,3) steady_simps(1,3) [OF t(2)] by (simp add: locks_ok_def)
  qed
  moreover have "count_ok k' T"
  proof -
    have "leaf_at k' a = leaf_at k a" for a
    proof (cases "rd k a")
      case None
      then have "rd k' a = None" using steady_stepD(4) [OF S, of a] by simp
      with None show ?thesis by (simp add: leaf_at_def)
    next
      case (Some t)
      from steady_rd [OF S this] obtain t' where t': "rd k' a = Some t'" "steady t' = steady t" .
      from Some t'(1) steady_simps(1) [OF t'(2)] show ?thesis by (simp add: leaf_at_def)
    qed
    then show ?thesis using i(7) f(3) by (simp add: count_ok_def)
  qed
  ultimately show ?thesis using s ok' S lf by (simp add: sys_inv_def)
qed

section \<open>Tasks come and go\<close>

text \<open>A TCB of which only links and cursor changed.\<close>

lemma same_part:
  assumes "map_option task_part (rd k' a) = map_option task_part (rd k a)"
  shows "leaf_at k' a = leaf_at k a"
    "rd k' a = Some t' \<Longrightarrow> \<exists>t. rd k a = Some t \<and> kind t' = kind t \<and> held_ok t' = held_ok t"
proof -
  have eq: "kind u = kind t \<and> held_ok u = held_ok t" if "task_part u = task_part t" for t u
    using task_part_simps(2,12,13) [OF that] by (simp add: held_ok_def held_def)
  show "leaf_at k' a = leaf_at k a"
  proof (cases "rd k a")
    case None
    with assms show ?thesis by (simp add: leaf_at_def)
  next
    case (Some t)
    with assms obtain u where u: "rd k' a = Some u" "task_part u = task_part t" by auto
    from Some u(1) eq [OF u(2)] show ?thesis by (simp add: leaf_at_def)
  qed
  show "\<exists>t. rd k a = Some t \<and> kind t' = kind t \<and> held_ok t' = held_ok t" if "rd k' a = Some t'"
  proof -
    from assms that obtain t where t: "rd k a = Some t" "task_part t' = task_part t" by (cases "rd k a") auto
    with eq [OF t(2)] show ?thesis by simp
  qed
qed

lemma locks_same_part:
  assumes "locks_ok k T"
    and "\<And>a. a \<in> set (addrs T') \<Longrightarrow>
      a \<in> set (addrs T) \<and> map_option task_part (rd k' a) = map_option task_part (rd k a) \<or>
      (\<forall>t. rd k' a = Some t \<longrightarrow> kind t = Leaf \<longrightarrow> held_ok t)"
  shows "locks_ok k' T'"
  unfolding locks_ok_def
proof (intro ballI allI impI)
  fix a t' assume a: "a \<in> set (addrs T')" "rd k' a = Some t'" "kind t' = Leaf"
  from assms(2) [OF a(1)] show "held_ok t'"
  proof (elim disjE conjE)
    assume "a \<in> set (addrs T)" and p: "map_option task_part (rd k' a) = map_option task_part (rd k a)"
    with same_part(2) [OF p a(2)] assms(1) a(3) show ?thesis by (auto simp: locks_ok_def)
  qed (use a in blast)
qed

lemma exit_step:
  assumes inv: "sys_inv k T ns" and c: "current_tcb k \<noteq> 0"
  shows "\<exists>k' T' g us. exit_task (current_tcb k) k = Some k' \<and> sys_inv k' T' (current_tcb k # ns)
    \<and> T' = regroup g (cut (current_tcb k)) T \<and> GroupN g us \<in> set (subs T) \<and> current_tcb k' = 0"
proof -
  let ?me = "current_tcb k"
  note i = sys_invD [OF inv]
  have l: "LeafN ?me \<in> set (subs T)" using i(5) c by (simp add: cur_in_def)
  from exit_lifecycle [OF i(1,3,4) l] obtain g us k' T' where
    e: "exit_task ?me k = Some k'" "kernel_ok k' T'" "mem_ok k'" "dead_ok k' T' (?me # ns)" "retired ?me k k'"
      "set (addrs T') = set (addrs T) - {?me}" and g: "T' = regroup g (cut ?me) T" "GroupN g us \<in> set (subs T)" by blast
  have meT: "?me \<in> set (addrs T)" using subs_addr [OF l] by simp
  have tk: "map_option task_part (rd k' a) = map_option task_part (rd k a)" if "a \<noteq> ?me" for a
    using e(5) that by (simp add: retired_def)
  have "cur_in k' T'" using e(5) by (simp add: cur_in_def retired_def)
  moreover have "locks_ok k' T'" by (rule locks_same_part [OF i(6)]) (use tk e(6) in blast)
  moreover have "count_ok k' T'"
  proof -
    let ?A = "{a \<in> set (addrs T). leaf_at k a}"
    have "{a \<in> set (addrs T'). leaf_at k' a} = ?A - {?me}" using e(6) same_part(1) [OF tk] by auto
    moreover have me: "?me \<in> ?A" using meT i(8) c by (auto simp: cur_ok_def leaf_at_def)
    moreover have "unat (active_threads k) = card ?A" using i(7) by (simp add: count_ok_def)
    moreover have "active_threads k' = sat_sub (active_threads k) 1" using e(5) by (simp add: retired_def)
    ultimately show ?thesis by (simp add: count_ok_def unat_sat_sub)
  qed
  ultimately have "sys_inv k' T' (?me # ns)" using e(2-4) by (simp add: sys_inv_def)
  moreover have "current_tcb k' = 0" using e(5) by (simp add: retired_def)
  ultimately show ?thesis using e(1) g by blast
qed

text \<open>A handle a caller may pass as the parent of a new node: a group linked in the tree, or the root.\<close>

definition group_handle :: "kernel \<Rightarrow> ptr \<Rightarrow> bool" where
  "group_handle k g = (case rd k g of None \<Rightarrow> False | Some t \<Rightarrow> kind t = Group \<and> (nxt t \<noteq> 0 \<or> g = root k))"

lemma subs_group: "tree_at h p T \<Longrightarrow> a \<in> set (addrs T) \<Longrightarrow> rdh h a = Some t \<Longrightarrow> kind t = Group
    \<Longrightarrow> \<exists>us. GroupN a us \<in> set (subs T)"
proof (induction T arbitrary: p)
  case (GroupN g ts)
  show ?case
  proof (cases "a = g")
    case False
    then obtain c where c: "c \<in> set ts" "a \<in> set (addrs c)" using GroupN.prems(2) by auto
    moreover have "tree_at h g c" using GroupN.prems(1) c(1) by simp
    ultimately obtain us where "GroupN a us \<in> set (subs c)" using GroupN.IH GroupN.prems(3,4) by blast
    then show ?thesis using c(1) by auto
  qed auto
qed auto

lemma group_handle_sub:
  assumes "tree_ok k T" and "group_handle k g"
  obtains us where "GroupN g us \<in> set (subs T)"
proof -
  from assms(2) obtain t where t: "rd k g = Some t" "kind t = Group" "nxt t \<noteq> 0 \<or> g = root k"
    by (auto simp: group_handle_def split: option.splits)
  have "g \<in> set (addrs T)"
  proof (cases "g = root k")
    case True
    then show ?thesis using assms(1) addr_in_addrs [of T] by (auto simp: tree_ok_def)
  next
    case False
    then show ?thesis using assms(1) t by (auto simp: tree_ok_def only_linked_def rd_def)
  qed
  moreover have "tree_at (heap k) 0 T" using assms(1) by (simp add: tree_ok_def)
  ultimately show thesis using subs_group t(1,2) that unfolding rd_def by blast
qed

lemma cur_in_tree:
  assumes "kernel_ok k T" and "current_tcb k = 0 \<or> current_tcb k \<in> set (addrs T)"
  shows "cur_in k T"
  using assms subs_kinds [of "heap k" 0 T "current_tcb k"]
  by (auto simp: cur_in_def kernel_ok_def tree_ok_def cur_ok_def rd_def)

lemma cur_in_addrs: "cur_in k T \<Longrightarrow> current_tcb k = 0 \<or> current_tcb k \<in> set (addrs T)"
  using subs_addr [of "LeafN (current_tcb k)" T] by (auto simp: cur_in_def)

text \<open>One node more in the tree.\<close>

lemma dead_grow:
  assumes d: "dead_ok k T ns" and np: "rd k p = None" and T': "set (addrs T') = insert p (set (addrs T))"
    and o: "only_at (insert p (set (addrs T))) k k'" and pf: "pending_free k' = pending_free k"
  shows "dead_ok k' T' ns"
proof (rule dead_ok_links [OF d pf])
  have pn: "p \<notin> set ns" using d np dead_list_rd by (fastforce simp: dead_ok_def)
  then show "set (addrs T') \<inter> set ns = {}" using d T' by (auto simp: dead_ok_def)
  show "\<exists>t'. rd k' q = Some t' \<and> st t' = st t \<and> nxt t' = nxt t \<and> prv t' = prv t"
    if "q \<in> set ns" "rd k q = Some t" for q t
  proof -
    have "q \<notin> insert p (set (addrs T))" using that(1) pn d by (auto simp: dead_ok_def)
    then have "rd k' q = rd k q" using o by (simp add: only_at_def)
    with that(2) show ?thesis by simp
  qed
qed

lemma grow_inv:
  assumes inv: "sys_inv k T ns" and ok': "kernel_ok k' T'" "mem_ok k'" and np: "rd k p = None"
    and T': "set (addrs T') = insert p (set (addrs T))"
    and o: "only_at (insert p (set (addrs T))) k k'" and pf: "pending_free k' = pending_free k"
    and ct: "current_tcb k' = current_tcb k"
    and tk: "\<And>a. a \<noteq> p \<Longrightarrow> map_option task_part (rd k' a) = map_option task_part (rd k a)"
    and new: "\<forall>t. rd k' p = Some t \<longrightarrow> kind t = Leaf \<longrightarrow> held_ok t"
    and act: "active_threads k' = (if leaf_at k' p then active_threads k + 1 else active_threads k)"
  shows "sys_inv k' T' ns"
proof -
  note i = sys_invD [OF inv]
  have pT: "p \<notin> set (addrs T)" using tree_rd [OF i(2), of p] np by auto
  have "cur_in k' T'" by (rule cur_in_tree [OF ok'(1)]) (use cur_in_addrs [OF i(5)] ct T' in auto)
  moreover have "locks_ok k' T'"
  proof (rule locks_same_part [OF i(6)])
    fix a assume a: "a \<in> set (addrs T')"
    show "a \<in> set (addrs T) \<and> map_option task_part (rd k' a) = map_option task_part (rd k a) \<or>
      (\<forall>t. rd k' a = Some t \<longrightarrow> kind t = Leaf \<longrightarrow> held_ok t)"
      using tk [of a] new T' a by (cases "a = p") auto
  qed
  moreover have "dead_ok k' T' ns" by (rule dead_grow [OF i(4) np T' o pf])
  moreover have "count_ok k' T'"
  proof -
    let ?A = "{a \<in> set (addrs T). leaf_at k a}"
    have lf: "leaf_at k' a = leaf_at k a" if "a \<in> set (addrs T)" for a
      using same_part(1) [OF tk, of a] pT that by metis
    have A': "{a \<in> set (addrs T'). leaf_at k' a} = (if leaf_at k' p then insert p ?A else ?A)"
      unfolding T' using lf by auto
    have c: "unat (active_threads k) = card ?A" using i(7) by (simp add: count_ok_def)
    have "card ?A \<le> card (set (addrs T))" by (rule card_mono) auto
    also have "\<dots> \<le> length (addrs T)" by (rule card_length)
    also have "\<dots> < 2 ^ 31" using i(2) by (simp add: tree_ok_def)
    finally have "unat (active_threads k) < 2 ^ 31" using c by simp
    then have "unat (active_threads k + 1) = unat (active_threads k) + 1" by (simp add: unat_Suc_small)
    then show ?thesis using A' c act pT by (simp add: count_ok_def)
  qed
  ultimately show ?thesis using ok' by (simp add: sys_inv_def)
qed

lemma held_ok_empty: "held_locks t = replicate MAX_HELD_LOCKS 0 \<Longrightarrow> held_count t = 0 \<Longrightarrow> held_ok t"
  by (simp add: held_ok_def held_def)

lemma spawn_group_step:
  assumes inv: "sys_inv k T ns" and h: "group_handle k g" and rm: "roomy k tcb_size" and lim: "unat (nodes k) + 1 < 2 ^ 31"
  shows "\<exists>r k' T' ns'. spawn_group_node g q k = Some (r, k') \<and> sys_inv k' T' ns'"
proof -
  note i = sys_invD [OF inv]
  from group_handle_sub [OF i(2) h] obtain us where G: "GroupN g us \<in> set (subs T)" .
  from spawn_group_ok [OF i(1,3) G rm lim, of q] obtain r k' where
    s: "spawn_group_node g q k = Some (r, k')" "mem_ok k'"
    and c: "case r of Inl e \<Rightarrow> k' = k
      | Inr p \<Rightarrow> rd k p = None \<and> total_threads k' = total_threads k \<and> active_threads k' = active_threads k
        \<and> current_tcb k' = current_tcb k \<and> pending_free k' = pending_free k \<and> only_at (insert p (set (addrs T))) k k'
        \<and> (\<forall>a. a \<noteq> p \<longrightarrow> map_option task_part (rd k' a) = map_option task_part (rd k a))
        \<and> (\<exists>t. rd k' p = Some t \<and> kind t = Group \<and> slice_cycles t = max q 1 \<and> remaining_cycles t = max q 1)
        \<and> kernel_ok k' (regroup g (put_after (anchor_of (heap k) g) (GroupN p [])) T)" by blast
  show ?thesis
  proof (cases r)
    case (Inl e)
    then show ?thesis using s c inv by auto
  next
    case (Inr p)
    let ?T' = "regroup g (put_after (anchor_of (heap k) g) (GroupN p [])) T"
    note c' = c [unfolded Inr, simplified]
    from c' obtain t where t: "rd k' p = Some t" "kind t = Group" by blast
    have pT: "p \<notin> set (addrs T)" using tree_rd [OF i(2), of p] c' by auto
    have D: "distinct (addrs T)" using i(2) by (simp add: tree_ok_def)
    have T': "set (addrs ?T') = insert p (set (addrs T))" by (rule grown_addrs(2) [OF D G _ pT]) simp
    have "sys_inv k' ?T' ns"
      by (rule grow_inv [OF inv _ s(2) _ T']) (use c' t in \<open>auto simp: leaf_at_def\<close>)
    then show ?thesis using s by blast
  qed
qed

section \<open>The transition system\<close>

text \<open>A tick of the timer, an interrupt that asks for a switch, and what tasks and handlers call.\<close>

datatype sys_op =
    TickOp
  | SwitchOp
  | BlockOp u32 u64
  | WakeTaskOp u32
  | WakeAllOp u32
  | WakeFirstOp u32
  | TakeFlagOp
  | LockOp mutex_header
  | UnlockOp mutex_header
  | SpawnOp ptr u32 "usize \<times> usize" usize
  | SpawnGroupOp ptr u32
  | ExitOp
  | ReclaimOp

fun do_op :: "port \<Rightarrow> sys_op \<Rightarrow> kernel \<Rightarrow> kernel option" where
  "do_op P TickOp k = on_tick k"
| "do_op P SwitchOp k = map_option snd (schedule_next k)"
| "do_op P (BlockOp r d) k = map_option snd (mark_blocked_locked r d k)"
| "do_op P (WakeTaskOp i) k = wake_task i k"
| "do_op P (WakeAllOp r) k = wake_blocked_on r k"
| "do_op P (WakeFirstOp r) k = map_option snd (wake_first_blocked_on r k)"
| "do_op P TakeFlagOp k = map_option snd (take_wake_flag_locked k)"
| "do_op P (LockOp m) k = map_option snd (try_acquire m k)"
| "do_op P (UnlockOp m) k = release_shim m k"
| "do_op P (SpawnOp g q f sz) k = map_option snd (spawn_internal P g q f sz k)"
| "do_op P (SpawnGroupOp g q) k = map_option snd (spawn_group_node g q k)"
| "do_op P ExitOp k = exit_task (current_tcb k) k"
| "do_op P ReclaimOp k = reclaim_finished_tasks P k"

text \<open>
  What the caller owes: a parent handle of a live group, sizes that do not wrap the address
  space, a running task to exit, fewer than \<open>2 ^ 31\<close> nodes ever created.
\<close>

fun allowed :: "sys_op \<Rightarrow> kernel \<Rightarrow> bool" where
  "allowed (SpawnOp g q f sz) k = (group_handle k g \<and> closure_ok f \<and> roomy k tcb_size \<and>
     roomy k (block_size_for (fst f) (snd f)) \<and> roomy k sz \<and> unat (nodes k) + 1 < 2 ^ 31)"
| "allowed (SpawnGroupOp g q) k = (group_handle k g \<and> roomy k tcb_size \<and> unat (nodes k) + 1 < 2 ^ 31)"
| "allowed ExitOp k = (current_tcb k \<noteq> 0)"
| "allowed _ k = True"

inductive reachable :: "port \<Rightarrow> scheduler_config \<Rightarrow> timer_plan \<Rightarrow> ptr \<times> usize \<Rightarrow> kernel \<Rightarrow> bool"
  for P cfg plan region where
  boot: "pristine k0 \<Longrightarrow> region_ok region \<Longrightarrow> init_locked P cfg plan region k0 = Some (Inr u, k)
    \<Longrightarrow> reachable P cfg plan region k"
| move: "reachable P cfg plan region k \<Longrightarrow> allowed oper k \<Longrightarrow> do_op P oper k = Some k'
    \<Longrightarrow> reachable P cfg plan region k'"

lemma started_inv:
  assumes "started plan k"
  shows "\<exists>rt. sys_inv k (GroupN rt [LeafN (current_tcb k)]) []"
proof -
  from assms obtain rt t0 t where s: "kernel_ok k (GroupN rt [LeafN t0])" "mem_ok k" "dead_ok k (GroupN rt [LeafN t0]) []"
    "current_tcb k = t0" "active_threads k = 1" "rd k t0 = Some t" "held_locks t = replicate MAX_HELD_LOCKS 0" "held_count t = 0"
    by (auto simp: started_def)
  let ?T = "GroupN rt [LeafN t0]"
  from s(1) obtain g where g: "rd k rt = Some g" "kind g = Group" by (auto simp: kernel_ok_def tree_ok_def rd_def)
  from s(1) s(6) have t: "kind t = Leaf" by (auto simp: kernel_ok_def tree_ok_def rd_def)
  have ne: "rt \<noteq> t0" using g s(6) t by auto
  have "{a \<in> set (addrs ?T). leaf_at k a} = {t0}" using g s(6) t by (auto simp: leaf_at_def)
  then have "count_ok k ?T" using s(5) by (simp add: count_ok_def)
  moreover have "locks_ok k ?T" using g s(6-8) held_ok_empty by (auto simp: locks_ok_def)
  moreover have "cur_in k ?T" using s(4) by (simp add: cur_in_def)
  ultimately show ?thesis using s(1-4) by (intro exI [of _ rt]) (simp add: sys_inv_def)
qed

context port_contract
begin

lemma spawn_step:
  assumes inv: "sys_inv k T ns" and a: "allowed (SpawnOp g q f sz) k"
  shows "\<exists>r k' T' ns'. spawn_internal P g q f sz k = Some (r, k') \<and> sys_inv k' T' ns'"
proof -
  note i = sys_invD [OF inv]
  from a have h: "group_handle k g" "closure_ok f" "roomy k tcb_size"
     "roomy k (block_size_for (fst f) (snd f))" "roomy k sz" "unat (nodes k) + 1 < 2 ^ 31" by simp_all
  from group_handle_sub [OF i(2) h(1)] obtain us where G: "GroupN g us \<in> set (subs T)" .
  from spawn_ok [OF i(1,3) G h(2-6), of q] obtain r k' where
    s: "spawn_internal P g q f sz k = Some (r, k')" "mem_ok k'"
    and c: "case r of Inl e \<Rightarrow> kernel_ok k' T \<and> no_effect k k'
      | Inr p \<Rightarrow> spawned p g q k k' \<and> only_at (insert p (set (addrs T))) k k'
        \<and> kernel_ok k' (regroup g (put_after (anchor_of (heap k) g) (LeafN p)) T)" by blast
  show ?thesis
  proof (cases r)
    case (Inl e)
    note c' = c [unfolded Inl, simplified]
    have e: "rd k' a = rd k a" "active_threads k' = active_threads k" "current_tcb k' = current_tcb k"
      "pending_free k' = pending_free k" for a
      using c' by (simp_all add: no_effect_def)
    have "dead_ok k' T ns"
      by (rule dead_ok_links [OF i(4) e(4)]) (use i(4) e(1) in \<open>auto simp: dead_ok_def\<close>)
    moreover have "cur_in k' T" "locks_ok k' T" "count_ok k' T"
      using i(5-7) e by (simp_all add: cur_in_def locks_ok_def count_ok_def leaf_at_def)
    ultimately have "sys_inv k' T ns" using c' s(2) by (simp add: sys_inv_def)
    then show ?thesis using s(1) by blast
  next
    case (Inr p)
    let ?T' = "regroup g (put_after (anchor_of (heap k) g) (LeafN p)) T"
    note c' = c [unfolded Inr, simplified]
    from c' have sp: "rd k p = None" "active_threads k' = active_threads k + 1" "current_tcb k' = current_tcb k"
      "pending_free k' = pending_free k" by (simp_all add: spawned_def)
    from c' have tk: "\<And>a. a \<noteq> p \<Longrightarrow> map_option task_part (rd k' a) = map_option task_part (rd k a)"
      by (simp add: spawned_def)
    from c' obtain t where t: "rd k' p = Some t" "kind t = Leaf" "held_locks t = replicate MAX_HELD_LOCKS 0" "held_count t = 0"
      by (auto simp: spawned_def)
    have pT: "p \<notin> set (addrs T)" using tree_rd [OF i(2), of p] sp(1) by auto
    have D: "distinct (addrs T)" using i(2) by (simp add: tree_ok_def)
    have T': "set (addrs ?T') = insert p (set (addrs T))" by (rule grown_addrs(2) [OF D G _ pT]) simp
    have o: "only_at (insert p (set (addrs T))) k k'" and ok: "kernel_ok k' ?T'" using c' by simp_all
    have new: "\<forall>t. rd k' p = Some t \<longrightarrow> kind t = Leaf \<longrightarrow> held_ok t" using t held_ok_empty by simp
    have act: "active_threads k' = (if leaf_at k' p then active_threads k + 1 else active_threads k)"
      using sp(2) t by (simp add: leaf_at_def)
    have "sys_inv k' ?T' ns" by (rule grow_inv [OF inv ok s(2) sp(1) T' o sp(4,3) tk new act])
    then show ?thesis using s(1) by blast
  qed
qed

lemma reclaim_step_exact:
  assumes inv: "sys_inv k T ns"
  shows "\<exists>k'. reclaim_finished_tasks P k = Some k' \<and> sys_inv k' T (rev (filter (port_pinned P) ns))
    \<and> (\<forall>a. a \<notin> set ns \<longrightarrow> rd k' a = rd k a) \<and> (\<forall>a\<in>set ns. \<not> port_pinned P a \<longrightarrow> rd k' a = None)
    \<and> current_tcb k' = current_tcb k"
proof -
  note i = sys_invD [OF inv]
  let ?ns = "rev (filter (port_pinned P) ns)"
  from reclaim_ok [OF i(3,2,4)] obtain k' where
    r: "reclaim_finished_tasks P k = Some k'" "mem_ok k'" "tree_ok k' T" "dead_ok k' T ?ns"
      "\<forall>a\<in>set ns. \<not> port_pinned P a \<longrightarrow> rd k' a = None" "\<forall>a. a \<notin> set ns \<longrightarrow> rd k' a = rd k a"
      "current_tcb k' = current_tcb k" "active_threads k' = active_threads k" by blast
  have out: "a \<notin> set ns" if "a \<in> set (addrs T)" for a using i(4) that by (auto simp: dead_ok_def)
  have e: "rd k' a = rd k a" if "a \<in> set (addrs T)" for a using r(6) out [OF that] by blast
  have cur: "current_tcb k = 0 \<or> current_tcb k \<in> set (addrs T)" by (rule cur_in_addrs [OF i(5)])
  have "cur_ok k'" using i(8) cur e r(7) by (auto simp: cur_ok_def)
  moreover have "one_running k'"
    unfolding one_running_def r(7)
  proof (intro allI impI)
    fix a t assume a: "rd k' a = Some t" "st t = Running"
    have "a \<notin> set ns"
    proof
      assume n: "a \<in> set ns"
      with r(5) a(1) have "port_pinned P a" by force
      with n have "a \<in> set ?ns" by simp
      with r(4) dead_list_rd a show False by (fastforce simp: dead_ok_def)
    qed
    then have "rd k a = Some t" using r(6) a(1) by simp
    with i(9) a(2) show "a = current_tcb k \<and> nxt t \<noteq> 0" by (simp add: one_running_def)
  qed
  moreover have "cur_in k' T" using i(5) r(7) by (simp add: cur_in_def)
  moreover have "locks_ok k' T" using i(6) e by (simp add: locks_ok_def)
  moreover have "count_ok k' T"
  proof -
    have "{a \<in> set (addrs T). leaf_at k' a} = {a \<in> set (addrs T). leaf_at k a}" using e by (auto simp: leaf_at_def)
    then show ?thesis using i(7) r(8) by (simp add: count_ok_def)
  qed
  ultimately have "sys_inv k' T ?ns" using r by (simp add: sys_inv_def kernel_ok_def)
  then show ?thesis using r(1,5,6,7) by blast
qed

lemma reclaim_step:
  "sys_inv k T ns \<Longrightarrow> \<exists>k' ns'. reclaim_finished_tasks P k = Some k' \<and> sys_inv k' T ns'"
  using reclaim_step_exact by blast

lemma do_op_ok:
  assumes inv: "sys_inv k T ns" and a: "allowed oper k"
  shows "\<exists>k' T' ns'. do_op P oper k = Some k' \<and> sys_inv k' T' ns'"
proof -
  have quiet: "\<exists>T' ns'. sys_inv k' T' ns'" if "task_step T k k'" for k' using task_step_inv [OF inv that] by blast
  show ?thesis
  proof (cases oper)
    case TickOp
    with tick_step [OF inv] quiet show ?thesis by auto
  next
    case SwitchOp
    with switch_step [OF inv] show ?thesis by auto
  next
    case (BlockOp r d)
    with block_step [OF inv, of r d] quiet show ?thesis by auto
  next
    case (WakeTaskOp j)
    with wake_task_step [OF inv, of j] quiet show ?thesis by auto
  next
    case (WakeAllOp r)
    with wake_blocked_step [OF inv, of r] quiet show ?thesis by auto
  next
    case (WakeFirstOp r)
    with wake_first_step [OF inv, of r] quiet show ?thesis by auto
  next
    case TakeFlagOp
    with flag_step [OF inv] quiet show ?thesis by auto
  next
    case (LockOp m)
    with lock_step [OF inv, of m] quiet show ?thesis by auto
  next
    case (UnlockOp m)
    with unlock_step [OF inv, of m] quiet show ?thesis by auto
  next
    case (SpawnOp g q f sz)
    with spawn_step [OF inv, of g q f sz] a show ?thesis by auto
  next
    case (SpawnGroupOp g q)
    with spawn_group_step [OF inv, of g q] a show ?thesis by auto
  next
    case ExitOp
    with exit_step [OF inv] a show ?thesis by auto
  next
    case ReclaimOp
    with reclaim_step [OF inv] show ?thesis by auto
  qed
qed

lemma reachable_inv: "reachable P cfg plan region k \<Longrightarrow> \<exists>T ns. sys_inv k T ns"
proof (induction rule: reachable.induct)
  case (boot k0 u k)
  from init_locked_ok [OF boot(1,2), of cfg plan] boot(3) have "started plan k" by auto
  from started_inv [OF this] show ?case by blast
next
  case (move k oper k')
  from move.IH obtain T ns where "sys_inv k T ns" by blast
  from do_op_ok [OF this move.hyps(2)] move.hyps(3) show ?case by auto
qed

lemma reachable_live:
  assumes "reachable P cfg plan region k" and "allowed oper k"
  shows "\<exists>k'. do_op P oper k = Some k' \<and> reachable P cfg plan region k'"
proof -
  from reachable_inv [OF assms(1)] obtain T ns where "sys_inv k T ns" by blast
  from do_op_ok [OF this assms(2)] obtain k' where "do_op P oper k = Some k'" by blast
  then show ?thesis using reachable.move [OF assms] by blast
qed

end

end
