(* ===== verification/RkIrq.thy ===== *)
theory RkIrq
  imports RkSystem RkPort
begin

text \<open>
  What the interrupt handlers of the bare-metal ports share.  Each handler saves the frame of the
  interrupted task, counts a tick or not, asks for the next task, frees what the dead tasks left
  and restores a frame.  Here are the kernel's steps as a handler sees them: they keep the
  system invariant, every saved stack pointer and every word of memory.
\<close>

section \<open>Saved frames\<close>

text \<open>Every task but \<open>c\<close> has \<open>n\<close> words in memory, \<open>d\<close> bytes above its saved stack pointer.\<close>

definition framed_but :: "ptr \<Rightarrow> u32 \<Rightarrow> nat \<Rightarrow> ntree \<Rightarrow> kernel \<Rightarrow> bool" where
  "framed_but c d n T k = (\<forall>a. LeafN a \<in> set (subs T) \<longrightarrow> a \<noteq> c \<longrightarrow>
     (\<exists>t. rd k a = Some t \<and> load_words (sp t + d) n (words k) \<noteq> None))"

definition kept :: "ntree \<Rightarrow> kernel \<Rightarrow> kernel \<Rightarrow> bool" where
  "kept T k k' = (words k' = words k \<and> config k' = config k \<and>
     (\<forall>a\<in>set (addrs T). map_option sp (rd k' a) = map_option sp (rd k a)))"

lemma kept_refl [simp]: "kept T k k"
  by (simp add: kept_def)

lemma kept_trans: "kept T k k1 \<Longrightarrow> kept T k1 k2 \<Longrightarrow> kept T k k2"
  by (simp add: kept_def)

lemma framed_kept:
  assumes f: "framed_but c d n T k" and s: "kept T k k'"
  shows "framed_but c d n T k'"
  unfolding framed_but_def
proof (intro allI impI)
  fix a assume a: "LeafN a \<in> set (subs T)" "a \<noteq> c"
  with f obtain t where t: "rd k a = Some t" "load_words (sp t + d) n (words k) \<noteq> None" by (auto simp: framed_but_def)
  have "a \<in> set (addrs T)" using subs_addr [OF a(1)] by simp
  then have "map_option sp (rd k' a) = Some (sp t)" using s t(1) by (simp add: kept_def)
  then show "\<exists>t. rd k' a = Some t \<and> load_words (sp t + d) n (words k') \<noteq> None" using t(2) s by (auto simp: kept_def)
qed

text \<open>More words in memory take no frame away.\<close>

lemma those_None: "those xs = None \<longleftrightarrow> None \<in> set xs"
  by (induction xs) (auto split: option.splits)

lemma load_length: "load_words a n w = Some vs \<Longrightarrow> length vs = n"
proof -
  have "those xs = Some ys \<Longrightarrow> length ys = length xs" for xs :: "u32 option list" and ys
    by (induction xs arbitrary: ys) (auto split: option.splits)
  moreover assume "load_words a n w = Some vs"
  ultimately show ?thesis unfolding load_words_def by fastforce
qed

lemma load_at:
  assumes "load_words a n w = Some vs" and "i < n"
  shows "w (a + of_nat (4 * i)) = Some (vs ! i)"
proof -
  have "those xs = Some ys \<Longrightarrow> j < length xs \<Longrightarrow> xs ! j = Some (ys ! j)" for xs :: "u32 option list" and ys j
    by (induction xs arbitrary: ys j) (auto split: option.splits simp: nth_Cons')
  from this [of "map (\<lambda>i. w (a + of_nat (4 * i))) [0..<n]" vs i] show ?thesis
    using assms by (simp add: load_words_def del: of_nat_mult)
qed

lemma load_more:
  assumes "\<And>a. w a \<noteq> None \<Longrightarrow> w' a \<noteq> None" and "load_words a n w \<noteq> None"
  shows "load_words a n w' \<noteq> None"
proof -
  have "w (a + of_nat (4 * i)) \<noteq> None" if "i < n" for i
    using assms(2) that unfolding load_words_def those_None set_map by (metis imageI atLeastLessThan_iff le0 set_upt)
  then have "None \<noteq> w' (a + of_nat (4 * i))" if "i < n" for i using assms(1) that by metis
  then show ?thesis unfolding load_words_def those_None set_map set_upt by (auto simp del: of_nat_mult)
qed

lemma store_more: "w a \<noteq> None \<Longrightarrow> store_words b vs w a \<noteq> None"
proof (induction vs rule: rev_induct)
  case Nil
  then show ?case by (simp add: store_words_def)
next
  case (snoc v vs)
  then show ?case by (simp add: store_words_snoc)
qed

lemma framed_more:
  assumes f: "framed_but c d n T k" and w: "\<And>a. words k a \<noteq> None \<Longrightarrow> w a \<noteq> None"
  shows "framed_but c d n T (k\<lparr>words := w\<rparr>)"
  unfolding framed_but_def
proof (intro allI impI)
  fix a assume a: "LeafN a \<in> set (subs T)" "a \<noteq> c"
  with f obtain t where t: "rd k a = Some t" "load_words (sp t + d) n (words k) \<noteq> None" by (auto simp: framed_but_def)
  from load_more [OF w t(2)] t(1) show "\<exists>t. rd (k\<lparr>words := w\<rparr>) a = Some t \<and> load_words (sp t + d) n (words (k\<lparr>words := w\<rparr>)) \<noteq> None"
    by (simp add: rd_def)
qed

lemma reg_wr_more: "words k a \<noteq> None \<Longrightarrow> words (reg_wr p v k) a \<noteq> None"
  by (simp add: reg_wr_def)

section \<open>The kernel's steps\<close>

text \<open>A step that writes no control block: registers, statistics.\<close>

lemma quiet_step:
  assumes inv: "sys_inv k T ns"
    and e: "heap k' = heap k" "root k' = root k" "nodes k' = nodes k" "current_tcb k' = current_tcb k"
    "karena k' = karena k" "pending_free k' = pending_free k" "active_threads k' = active_threads k"
  shows "sys_inv k' T ns"
  by (rule task_step_inv [OF inv task_step_same]) (rule e)+

lemma reg_wr_step: "sys_inv k T ns \<Longrightarrow> sys_inv (reg_wr a v k) T ns"
  by (erule quiet_step) (simp_all add: reg_wr_def)

lemma record_step:
  assumes "sys_inv k T ns"
  shows "sys_inv (record_latency v k) T ns" "kept T k (record_latency v k)"
    "sys_inv (record_period_error v k) T ns" "kept T k (record_period_error v k)"
proof -
  show "sys_inv (record_latency v k) T ns" "sys_inv (record_period_error v k) T ns"
    by (rule quiet_step [OF assms]; simp add: record_latency_def record_period_error_def Let_def)+
  show "kept T k (record_latency v k)" "kept T k (record_period_error v k)"
    by (simp_all add: kept_def record_latency_def record_period_error_def Let_def rd_def)
qed

lemma tick_run:
  assumes inv: "sys_inv k T ns"
  shows "\<exists>k'. on_tick k = Some k' \<and> sys_inv k' T ns \<and> kept T k k' \<and> ticks k' = ticks k + 1
    \<and> current_tcb k' = current_tcb k"
proof -
  let ?g = "\<lambda>t. if due (ticks k + 1) t then make_ready t else t"
  from tick_form [OF inv] obtain A B where
    r: "on_tick k = Some (k\<lparr>ticks := ticks k + 1, heap := map_at ?g A (map_at drain_one B (heap k))\<rparr>)" by blast
  let ?k' = "k\<lparr>ticks := ticks k + 1, heap := map_at ?g A (map_at drain_one B (heap k))\<rparr>"
  have "sys_inv ?k' T ns" using tick_step [OF inv] task_step_inv [OF inv] r by auto
  moreover have "map_option sp (rd ?k' a) = map_option sp (rd k a)" for a
    by (cases "rdh (heap k) a") (simp_all add: rd_def rdh_map_at drain_one_def make_ready_def)
  ultimately show ?thesis using r by (simp add: kept_def)
qed

lemma switch_run:
  assumes inv: "sys_inv k T ns"
  shows "\<exists>leaf k'. schedule_next k = Some (leaf, k') \<and> sys_inv k' T ns \<and> kept T k k' \<and> ticks k' = ticks k
    \<and> (leaf \<noteq> 0 \<longrightarrow> LeafN leaf \<in> set (subs T) \<and> current_tcb k' = leaf)"
proof -
  from switch_step [OF inv] obtain leaf k' where
    s: "schedule_next k = Some (leaf, k')" "sys_inv k' T ns" "steady_step (set ns) k k'"
      "leaf \<noteq> 0 \<longrightarrow> LeafN leaf \<in> set (subs T) \<and> current_tcb k' = leaf" by blast
  have "map_option sp (rd k' a) = map_option sp (rd k a)" for a
  proof -
    have "map_option (sp \<circ> steady) (rd k' a) = map_option (sp \<circ> steady) (rd k a)"
      using arg_cong [OF steady_stepD(4) [OF s(3), of a], of "map_option sp"] by (simp add: option.map_comp)
    moreover have "sp \<circ> steady = sp" by (simp add: fun_eq_iff steady_def)
    ultimately show ?thesis by simp
  qed
  then have "kept T k k'" using steady_stepD(6,7) [OF s(3)] by (simp add: kept_def)
  then show ?thesis using s steady_stepD(8) [OF s(3)] by blast
qed

context quiet_port
begin

lemma reclaim_run:
  assumes inv: "sys_inv k T ns"
  shows "\<exists>k' ns'. reclaim_finished_tasks P k = Some k' \<and> sys_inv k' T ns' \<and> kept T k k' \<and> ticks k' = ticks k
    \<and> current_tcb k' = current_tcb k"
proof -
  note i = sys_invD [OF inv]
  from reclaim_step [OF inv] obtain k' ns' where r: "reclaim_finished_tasks P k = Some k'" "sys_inv k' T ns'" by blast
  from reclaim_ok [OF i(3,2,4)] r(1) have same: "\<forall>a. a \<notin> set ns \<longrightarrow> rd k' a = rd k a" "current_tcb k' = current_tcb k"
    by auto
  have "rd k' a = rd k a" if "a \<in> set (addrs T)" for a using same(1) i(4) that by (auto simp: dead_ok_def)
  moreover have "same_outside k k'" using reclaim_outside [OF r(1)] .
  ultimately have "kept T k k'" "ticks k' = ticks k" by (simp_all add: kept_def same_outside_def)
  then show ?thesis using r same(2) by blast
qed

end

section \<open>Publishing a frame\<close>

text \<open>The saved stack pointer of the interrupted task.\<close>

lemma publish_at:
  assumes inv: "sys_inv k T ns" and c: "c = 0 \<or> c \<in> set (addrs T)"
  shows "\<exists>k'. (if c = 0 then Some k else upd (\<lambda>t. t\<lparr>sp := v\<rparr>) c k) = Some k'
    \<and> sys_inv k' T ns \<and> words k' = words k \<and> config k' = config k \<and> ticks k' = ticks k \<and> current_tcb k' = current_tcb k
    \<and> (\<forall>a. rd k' a = (if a = c then map_option (\<lambda>t. t\<lparr>sp := v\<rparr>) (rd k a) else rd k a))"
proof (cases "c = 0")
  case True
  then show ?thesis using inv by simp
next
  case False
  then have cT: "c \<in> set (addrs T)" using c by simp
  from tree_rd [OF sys_invD(2) [OF inv] this] obtain t where r: "rd k c = Some t" by blast
  let ?k = "put c (t\<lparr>sp := v\<rparr>) k"
  have "mild t (t\<lparr>sp := v\<rparr>)" by (simp add: mild_def shape_def blocks_of_def held_ok_def held_def)
  then have "task_step T k ?k" by (rule task_step_put [OF r cT])
  then have "sys_inv ?k T ns" by (rule task_step_inv [OF inv])
  then show ?thesis
    using False r by (intro exI [of _ ?k]) (simp add: upd_put rd_put, simp add: put_def)
qed

lemma publish_step:
  assumes inv: "sys_inv k T ns"
  shows "\<exists>k'. (if current_tcb k = 0 then Some k else upd (\<lambda>t. t\<lparr>sp := v\<rparr>) (current_tcb k) k) = Some k'
    \<and> sys_inv k' T ns \<and> words k' = words k \<and> config k' = config k \<and> ticks k' = ticks k \<and> current_tcb k' = current_tcb k
    \<and> (\<forall>a. rd k' a = (if a = current_tcb k then map_option (\<lambda>t. t\<lparr>sp := v\<rparr>) (rd k a) else rd k a))"
  by (rule publish_at [OF inv]) (use sys_invD(5) [OF inv] subs_addr in \<open>fastforce simp: cur_in_def\<close>)

text \<open>Once it is in memory, no task is without a frame.\<close>

lemma framed_publish:
  assumes f: "framed_but c d n T k" and l: "load_words (v + d) n (words k) \<noteq> None"
    and r: "\<forall>a. rd k' a = (if a = c then map_option (\<lambda>t. t\<lparr>sp := v\<rparr>) (rd k a) else rd k a)"
    and w: "words k' = words k" and t: "tree_ok k T"
  shows "framed_but 0 d n T k'"
  unfolding framed_but_def w
proof (intro allI impI)
  fix a assume a: "LeafN a \<in> set (subs T)" "a \<noteq> 0"
  show "\<exists>t. rd k' a = Some t \<and> load_words (sp t + d) n (words k) \<noteq> None"
  proof (cases "a = c")
    case True
    have "a \<in> set (addrs T)" using subs_addr [OF a(1)] by simp
    from tree_rd [OF t this] obtain u where "rd k a = Some u" by blast
    then show ?thesis using True r l by simp
  next
    case False
    then show ?thesis using f a(1) r by (auto simp: framed_but_def)
  qed
qed

end
