(* ===== verification/RkRiscv.thy ===== *)
theory RkRiscv
  imports RkIrq RkQuery
begin

text \<open>
  The RISC-V port (\<^verbatim>\<open>src/arch/riscv.rs\<close>): the machine timer, critical sections on
  \<open>mstatus.MIE\<close>, the trap entry with its 30-word frame, planning and task construction.

  Memory-mapped registers and stacks are \<open>words\<close>; the control registers and the port's statics
  are the record \<open>riscv\<close>.  What the free-running counter shows is an argument of the functions
  that read it; so is the address of \<open>task_trampoline\<close>.
\<close>

unbundle bit_operations_syntax

section \<open>Layout and constants\<close>

definition RV_FRAME_SIZE :: u32 where "RV_FRAME_SIZE = 128"

text \<open>The offsets of the 28 general registers, \<open>mepc\<close> and \<open>mstatus\<close> in the frame.\<close>

definition RV_FRAME_OFFSETS :: "u32 list" where
  "RV_FRAME_OFFSETS = [0, 4, 8, 12, 16, 20, 24, 28, 32, 36, 40, 44, 48, 52, 56, 60, 64, 68, 72, 76,
     80, 84, 88, 92, 96, 100, 104, 108, 112, 116]"

definition OFF_A0 :: u32 where "OFF_A0 = 52"
definition OFF_MEPC :: u32 where "OFF_MEPC = 112"
definition OFF_MSTATUS :: u32 where "OFF_MSTATUS = 116"
definition MSTATUS_TASK_ENTRY :: u32 where "MSTATUS_TASK_ENTRY = push_bit 11 3 OR push_bit 7 1"
definition MSTATUS_MIE :: u32 where "MSTATUS_MIE = push_bit 3 1"
definition MIE_MTIE :: u32 where "MIE_MTIE = push_bit 7 1"
definition MIE_MSIE :: u32 where "MIE_MSIE = push_bit 3 1"
definition MCAUSE_TIMER :: u32 where "MCAUSE_TIMER = 0x80000007"
definition MCAUSE_SOFT :: u32 where "MCAUSE_SOFT = 0x80000003"
definition DEFAULT_CLINT_BASE :: u32 where "DEFAULT_CLINT_BASE = 0x02000000"
definition RV_MIN_SLICE_CYCLES :: u64 where "RV_MIN_SLICE_CYCLES = 100"
definition NOMINAL_MTIME_HZ :: u32 where "NOMINAL_MTIME_HZ = 10000000"

section \<open>The timer registers\<close>

record timer_regs =
  r_mtime :: ptr
  r_mtimecmp :: ptr
  r_msip :: ptr

definition timer_regs_default :: timer_regs where
  "timer_regs_default = \<lparr>r_mtime = DEFAULT_CLINT_BASE + 0xBFF8, r_mtimecmp = DEFAULT_CLINT_BASE + 0x4000,
     r_msip = DEFAULT_CLINT_BASE\<rparr>"

text \<open>
  \<open>mtime_now\<close>: \<open>c i\<close> is the counter at the \<open>i\<close>-th bus read.  High half, low half, high half
  again, until both high halves agree.
\<close>

partial_function (option) mtime_now :: "(nat \<Rightarrow> u64) \<Rightarrow> nat \<Rightarrow> u64 option" where
  "mtime_now c i =
     (let hi1 = hi_word (c i); lo = lo_word (c (i + 1)); hi2 = hi_word (c (i + 2)) in
      if hi1 = hi2 then Some (push_bit 32 (ucast hi2) OR ucast lo) else mtime_now c (i + 3))"

text \<open>
  \<open>mtimecmp_write\<close>: the two words, high half parked at all ones first.  The timer interrupt is
  disabled around it, which \<open>rv_mtimecmp_write\<close> below adds.
\<close>

definition mtimecmp_words :: "timer_regs \<Rightarrow> u64 \<Rightarrow> kernel \<Rightarrow> kernel" where
  "mtimecmp_words r v k =
     (let p = r_mtimecmp r;
          k = reg_wr (p + 4) 0xFFFFFFFF k;
          k = reg_wr p (lo_word v) k
      in reg_wr (p + 4) (hi_word v) k)"

definition rearm_words :: "timer_regs \<Rightarrow> u64 \<Rightarrow> kernel \<Rightarrow> kernel" where
  "rearm_words r tm k = mtimecmp_words r (tm + ucast (kc_slice_cycles (config k))) k"

definition rv_request_switch :: "timer_regs \<Rightarrow> kernel \<Rightarrow> kernel" where
  "rv_request_switch r k = reg_wr (r_msip r) 1 k"

section \<open>The machine state and the port's statics\<close>

record trap_event =
  ev_cause :: u32
  ev_epc :: u32
  ev_current :: ptr
  ev_next :: ptr
  ev_after :: bool

text \<open>\<open>rv_gprs\<close> are the 28 saved general registers in frame order.  A hook is code of the
  application: the events handed to it are recorded.\<close>

record riscv =
  rv_gprs :: "u32 list"
  rv_sp :: u32
  mstatus :: u32
  mie :: u32
  mtvec :: u32
  mepc :: u32
  mcause :: u32
  rv_regs :: timer_regs
  last_tick_low :: u32
  trap_hook :: u32
  rv_events :: "trap_event list"
  rv_kernel :: kernel

definition configure_timer :: "timer_regs \<Rightarrow> riscv \<Rightarrow> riscv" where
  "configure_timer r s = s\<lparr>rv_regs := r\<rparr>"

definition rv_mtimecmp_write :: "u64 \<Rightarrow> riscv \<Rightarrow> riscv" where
  "rv_mtimecmp_write v s =
     (let s = s\<lparr>mie := mie s AND NOT MIE_MTIE\<rparr>;
          s = s\<lparr>rv_kernel := mtimecmp_words (rv_regs s) v (rv_kernel s)\<rparr>
      in s\<lparr>mie := mie s OR MIE_MTIE\<rparr>)"

definition rv_rearm :: "u64 \<Rightarrow> riscv \<Rightarrow> riscv" where
  "rv_rearm tm s = rv_mtimecmp_write (tm + ucast (kc_slice_cycles (config (rv_kernel s)))) s"

definition rv_critical_enter :: "u32 \<Rightarrow> u32 \<times> u32" where
  "rv_critical_enter mst = (mst AND MSTATUS_MIE, mst AND NOT 8)"

definition rv_critical_exit :: "u32 \<Rightarrow> u32 \<Rightarrow> u32" where
  "rv_critical_exit token mst = (if token \<noteq> 0 then mst OR 8 else mst)"

definition rv_set_trap_hook :: "u32 \<Rightarrow> riscv \<Rightarrow> riscv" where
  "rv_set_trap_hook hook s = s\<lparr>trap_hook := hook\<rparr>"

definition rv_clear_trap_hook :: "riscv \<Rightarrow> riscv" where
  "rv_clear_trap_hook s = s\<lparr>trap_hook := 0\<rparr>"

definition rv_report_trap :: "trap_event \<Rightarrow> riscv \<Rightarrow> riscv" where
  "rv_report_trap ev s = (if trap_hook s \<noteq> 0 then s\<lparr>rv_events := rv_events s @ [ev]\<rparr> else s)"

section \<open>The trap\<close>

definition abs_diff64 :: "u64 \<Rightarrow> u64 \<Rightarrow> u64" where
  "abs_diff64 a b = (if a < b then b - a else a - b)"

text \<open>\<open>tm\<close> is what \<open>mtime_now\<close> returns.\<close>

definition rv_measure_period :: "u64 \<Rightarrow> riscv \<Rightarrow> riscv" where
  "rv_measure_period tm s =
     (if kc_measure (config (rv_kernel s)) \<noteq> MeasureOff then
        let lo = lo_word tm; last = last_tick_low s; s = s\<lparr>last_tick_low := lo\<rparr> in
        if last \<noteq> 0 then
          let err = abs_diff64 (ucast (lo - last)) (ucast (kc_slice_cycles (config (rv_kernel s)))) in
          s\<lparr>rv_kernel := record_period_error (ucast (min err 0xFFFFFFFF)) (rv_kernel s)\<rparr>
        else s
      else s)"

definition rv_trap_switch :: "u64 \<Rightarrow> riscv \<Rightarrow> (ptr \<times> riscv) option" where
  "rv_trap_switch tm s = do {
     s \<leftarrow> (if mcause s = MCAUSE_SOFT then Some (s\<lparr>rv_kernel := reg_wr (r_msip (rv_regs s)) 0 (rv_kernel s)\<rparr>)
          else if mcause s = MCAUSE_TIMER then do {
            k \<leftarrow> on_tick (rv_kernel s);
            Some (rv_measure_period tm (s\<lparr>rv_kernel := k\<rparr>))
          }
          else Some s);
     (next, k) \<leftarrow> schedule_next (rv_kernel s);
     let s = s\<lparr>rv_kernel := k\<rparr>;
     Some (next, rv_report_trap \<lparr>ev_cause = mcause s, ev_epc = mepc s, ev_current = k_current k,
                   ev_next = next, ev_after = False\<rparr> s)
   }"

text \<open>The three arguments: the counter at the start, at the re-arming and at the end.\<close>

definition rv_after_switch :: "port \<Rightarrow> u64 \<Rightarrow> u64 \<Rightarrow> u64 \<Rightarrow> riscv \<Rightarrow> riscv option" where
  "rv_after_switch P t0 tm t1 s = do {
     let measuring = (kc_measure (config (rv_kernel s)) \<noteq> MeasureOff);
     let t0 = (if measuring then t0 else 0);
     let cur = k_current (rv_kernel s);
     let s = rv_report_trap \<lparr>ev_cause = 0, ev_epc = 0, ev_current = cur, ev_next = cur, ev_after = True\<rparr> s;
     k \<leftarrow> reclaim_finished_tasks P (rv_kernel s);
     let s = rv_rearm tm (s\<lparr>rv_kernel := k\<rparr>);
     Some (if measuring
           then s\<lparr>rv_kernel := record_latency (ucast (min (sat_sub t1 t0) 0xFFFFFFFF)) (rv_kernel s)\<rparr>
           else s)
   }"

text \<open>\<open>trap_entry\<close>: save and publish; then pick, until there is a task to restore.\<close>

definition rv_save :: "riscv \<Rightarrow> riscv option" where
  "rv_save s = do {
     let sp0 = rv_sp s - RV_FRAME_SIZE;
     let k = rv_kernel s;
     let k = k\<lparr>words := store_words sp0 (rv_gprs s @ [mepc s, mstatus s]) (words k)\<rparr>;
     k \<leftarrow> (if k_current k = null_ptr then Some k else upd (\<lambda>t. t\<lparr>sp := sp0\<rparr>) (k_current k) k);
     Some (s\<lparr>rv_sp := sp0, rv_kernel := k\<rparr>)
   }"

definition rv_restore :: "riscv \<Rightarrow> riscv option" where
  "rv_restore s = do {
     vs \<leftarrow> load_words (rv_sp s) 30 (words (rv_kernel s));
     Some (s\<lparr>rv_gprs := take 28 vs, mepc := vs ! 28, mstatus := vs ! 29, rv_sp := rv_sp s + RV_FRAME_SIZE\<rparr>)
   }"

definition rv_pick :: "port \<Rightarrow> u64 \<Rightarrow> u64 \<Rightarrow> u64 \<Rightarrow> u64 \<Rightarrow> riscv \<Rightarrow> (bool \<times> riscv) option" where
  "rv_pick P tm t0 tr t1 s = do {
     (next, s) \<leftarrow> rv_trap_switch tm s;
     if next = null_ptr then Some (False, s)
     else do {
       t \<leftarrow> rd (rv_kernel s) next;
       s \<leftarrow> rv_after_switch P t0 tr t1 (s\<lparr>rv_sp := sp t\<rparr>);
       s \<leftarrow> rv_restore s;
       Some (True, s)
     }
   }"

text \<open>Nothing runnable: wait for an interrupt and pick again.  Interrupts are masked, so no trap is
  taken and \<open>mcause\<close> still says why the handler was entered.  One list element per pass: the
  counter at its four reads.\<close>

fun rv_wait :: "port \<Rightarrow> (u64 \<times> u64 \<times> u64 \<times> u64) list \<Rightarrow> riscv \<Rightarrow> (bool \<times> riscv) option" where
  "rv_wait P [] s = Some (False, s)"
| "rv_wait P ((tm, t0, tr, t1) # cs) s = do {
     (found, s) \<leftarrow> rv_pick P tm t0 tr t1 s;
     if found then Some (True, s) else rv_wait P cs s
   }"

definition rv_trap_entry :: "port \<Rightarrow> (u64 \<times> u64 \<times> u64 \<times> u64) list \<Rightarrow> riscv \<Rightarrow> (bool \<times> riscv) option" where
  "rv_trap_entry P cs s = do { s \<leftarrow> rv_save s; rv_wait P cs s }"

section \<open>Planning\<close>

definition rv_cycles_to_ns_with :: "u32 \<Rightarrow> u32 \<Rightarrow> u64" where
  "rv_cycles_to_ns_with hz cycles =
     (if hz = 0 then 0 else ucast ((ucast cycles :: u128) * 1000000000 div (ucast hz :: u128)))"

definition rv_cycles_to_ns :: "u32 \<Rightarrow> kernel \<Rightarrow> u64" where
  "rv_cycles_to_ns cycles k =
     (let hz = kc_timer_hz (config k) in rv_cycles_to_ns_with (if hz = 0 then NOMINAL_MTIME_HZ else hz) cycles)"

definition rv_platform_limits :: "kernel \<Rightarrow> platform_limits" where
  "rv_platform_limits k =
     (let hz = kc_timer_hz (config k); hz = (if hz = 0 then NOMINAL_MTIME_HZ else hz)
      in \<lparr>min_slice_ns = rv_cycles_to_ns_with hz (ucast RV_MIN_SLICE_CYCLES),
          max_slice_ns = Some (rv_cycles_to_ns_with hz 0xFFFFFFFF),
          limits_timer_hz = hz,
          timer_note = ''RISC-V machine timer (CLINT mtime/mtimecmp), trap-based switch''\<rparr>)"

definition rv_plan_timer :: "scheduler_config \<Rightarrow> config_error + timer_plan" where
  "rv_plan_timer cfg =
     (let hz = cfg_timer_hz cfg in
      if hz = 0 then Inl TimerClockRequired
      else let cycles = (case cfg_slice cfg of Cycles c \<Rightarrow> ucast c | other \<Rightarrow> to_cycles other hz) in
        if cycles = 0 then Inl ZeroSlice
        else if cycles < RV_MIN_SLICE_CYCLES
        then Inl (SliceBelowPlatformMinimum (rv_cycles_to_ns_with hz (ucast cycles))
               (rv_cycles_to_ns_with hz (ucast RV_MIN_SLICE_CYCLES)))
        else if cycles > 0xFFFFFFFF
        then Inl (SliceAboveTimerRange (rv_cycles_to_ns_with hz 0xFFFFFFFF) (rv_cycles_to_ns_with hz 0xFFFFFFFF))
        else Inr \<lparr>plan_slice_ns = rv_cycles_to_ns_with hz (ucast cycles),
                  plan_slice_cycles = ucast cycles, plan_timer_hz = hz\<rparr>)"

text \<open>\<open>start_timer\<close> and \<open>retune_timer\<close>, in memory and with the control registers.\<close>

definition rv_start_words :: "timer_regs \<Rightarrow> u64 \<Rightarrow> timer_plan \<Rightarrow> kernel \<Rightarrow> (config_error + unit) \<times> kernel" where
  "rv_start_words r tm plan k = (Inr (), rearm_words r tm (reg_wr (r_msip r) 0 k))"

definition rv_start_timer :: "u32 \<Rightarrow> u64 \<Rightarrow> timer_plan \<Rightarrow> riscv \<Rightarrow> (config_error + unit) \<times> riscv" where
  "rv_start_timer entry tm plan s =
     (let s = s\<lparr>mtvec := entry\<rparr>;
          s = s\<lparr>rv_kernel := reg_wr (r_msip (rv_regs s)) 0 (rv_kernel s)\<rparr>;
          s = s\<lparr>mie := mie s OR (MIE_MTIE OR MIE_MSIE)\<rparr>;
          s = rv_rearm tm s
      in (Inr (), s\<lparr>mstatus := mstatus s OR 8\<rparr>))"

definition rv_retune_words :: "timer_regs \<Rightarrow> u64 \<Rightarrow> timer_plan \<Rightarrow> kernel \<Rightarrow> (config_error + unit) \<times> kernel" where
  "rv_retune_words r tm plan k = (Inr (), rearm_words r tm k)"

section \<open>Construction of a task\<close>

definition rv_adopt :: "ptr \<Rightarrow> kernel \<Rightarrow> ((config_error + unit) \<times> kernel) option" where
  "rv_adopt p k = do {
     k \<leftarrow> upd (\<lambda>t. t\<lparr>sp := null_ptr, stack_base := null_ptr, stack_size := 0, flags := 0\<rparr>) p k;
     Some (Inr (), k)
   }"

definition rv_frame_words :: "u32 \<Rightarrow> ptr \<Rightarrow> ptr \<Rightarrow> (ptr \<rightharpoonup> u32) \<Rightarrow> (ptr \<rightharpoonup> u32)" where
  "rv_frame_words entry p frame w =
     (store_words frame (replicate 32 0) w)
       (frame + OFF_A0 \<mapsto> p, frame + OFF_MEPC \<mapsto> entry, frame + OFF_MSTATUS \<mapsto> MSTATUS_TASK_ENTRY)"

definition rv_create :: "u32 \<Rightarrow> ptr \<Rightarrow> usize \<Rightarrow> kernel \<Rightarrow> ((spawn_error + unit) \<times> kernel) option" where
  "rv_create entry p stack_sz k = do {
     let sz = max stack_sz 256 + 16;
     (r, k) \<leftarrow> alloc_block sz 16 k;
     (case r of
        None \<Rightarrow> Some (Inl ArenaExhausted, k)
      | Some block \<Rightarrow> do {
          k \<leftarrow> upd (\<lambda>t. t\<lparr>stack_base := block, stack_size := sz - 16\<rparr>) p k;
          let top = (block + sz) AND NOT 15;
          let frame = top - RV_FRAME_SIZE;
          let k = k\<lparr>words := rv_frame_words entry p frame (words k)\<rparr>;
          k \<leftarrow> upd (\<lambda>t. t\<lparr>sp := frame, flags := 0\<rparr>) p k;
          Some (Inr (), k)
        })
   }"

definition rv_is_pinned :: "ptr \<Rightarrow> bool" where
  "rv_is_pinned p = False"

definition rv_on_task_reclaimed :: "ptr \<Rightarrow> kernel \<Rightarrow> kernel option" where
  "rv_on_task_reclaimed p k = Some k"

definition rv_cycle_counter :: "u32 \<Rightarrow> u32 option" where
  "rv_cycle_counter cycles = Some cycles"

definition rv_cycle_counter_hz :: "kernel \<Rightarrow> u32" where
  "rv_cycle_counter_hz k = (let hz = kc_timer_hz (get_config k) in if hz = 0 then 1 else hz)"

text \<open>\<open>tm\<close>: the counter when the timer is started or retuned.\<close>

definition riscv_port :: "u32 \<Rightarrow> ptr \<Rightarrow> timer_regs \<Rightarrow> u64 \<Rightarrow> port" where
  "riscv_port entry default_arena r tm =
     \<lparr>port_plan = rv_plan_timer, port_limits = rv_platform_limits, port_ns = rv_cycles_to_ns,
      port_adopt = rv_adopt, port_start = rv_start_words r tm, port_retune = rv_retune_words r tm,
      port_create = rv_create entry, port_pinned = rv_is_pinned,
      port_reclaimed = rv_on_task_reclaimed, port_default_arena = default_arena\<rparr>"

section \<open>The counter and the comparator\<close>

lemma hi_word_div: "unat (hi_word v) = unat v div 2 ^ 32"
proof -
  have "unat (drop_bit 32 v) = unat v div 2 ^ 32" using unat_drop_bit_eq [of 32 v] by (simp only: drop_bit_eq_div)
  moreover have "unat v div 2 ^ 32 < 2 ^ 32" using unat_lt2p64 [of v] by (intro less_mult_imp_div_less) simp
  ultimately show ?thesis unfolding hi_word_def unat_ucast_mod by simp
qed

lemma hi_word_mono: "u \<le> v \<Longrightarrow> hi_word u \<le> hi_word v"
  by (simp only: word_le_nat_alt hi_word_div) (rule div_le_mono)

text \<open>On a counter that does not go back during the read, the value is one the counter had.\<close>

lemma mtime_now_run:
  assumes "c i \<le> c (i + 1)" and "c (i + 1) \<le> c (i + 2)"
  shows "mtime_now c i = (if hi_word (c i) = hi_word (c (i + 2)) then Some (c (i + 1)) else mtime_now c (i + 3))"
proof (cases "hi_word (c i) = hi_word (c (i + 2))")
  case True
  have "hi_word (c i) \<le> hi_word (c (i + 1))" "hi_word (c (i + 1)) \<le> hi_word (c (i + 2))"
    using assms by (simp_all add: hi_word_mono)
  then have "hi_word (c (i + 2)) = hi_word (c (i + 1))" using True by simp
  then show ?thesis using True word_halves [of "c (i + 1)"] by (subst mtime_now.simps) (simp add: Let_def)
next
  case False
  then show ?thesis by (subst mtime_now.simps) (simp add: Let_def)
qed

lemma mtime_now_exact:
  assumes m: "\<And>i. c i \<le> c (Suc i)" and v: "mtime_now c i = Some v"
  shows "\<exists>j\<ge>i. v = c j"
proof -
  have "(\<forall>i. c i \<le> c (Suc i)) \<longrightarrow> (\<exists>j\<ge>i. v = c j)"
  proof (rule mtime_now.raw_induct [where P = "\<lambda>c i v. (\<forall>i. c i \<le> c (Suc i)) \<longrightarrow> (\<exists>j\<ge>i. v = c j)", OF _ v])
    fix rec c i v
    assume 1: "\<And>c i v. rec c i = Some v \<Longrightarrow> (\<forall>i. c i \<le> c (Suc i)) \<longrightarrow> (\<exists>j\<ge>i. v = c j)"
      "(let hi1 = hi_word (c i); lo = lo_word (c (i + 1)); hi2 = hi_word (c (i + 2)) in
        if hi1 = hi2 then Some (push_bit 32 (ucast hi2) OR ucast lo) else rec c (i + 3)) = Some v"
    show "(\<forall>i. c i \<le> c (Suc i)) \<longrightarrow> (\<exists>j\<ge>i. v = c j)"
    proof (intro impI)
      assume m: "\<forall>i. c i \<le> c (Suc i)"
      have s: "c i \<le> c (i + 1)" "c (i + 1) \<le> c (i + 2)" using m by (simp_all add: add_2_eq_Suc')
      have h: "hi_word (c i) \<le> hi_word (c (i + 1))" "hi_word (c (i + 1)) \<le> hi_word (c (i + 2))"
        using s by (simp_all add: hi_word_mono)
      show "\<exists>j\<ge>i. v = c j"
      proof (cases "hi_word (c i) = hi_word (c (i + 2))")
        case True
        then have "hi_word (c (i + 2)) = hi_word (c (i + 1))" using h by simp
        then have "v = c (i + 1)" using 1(2) True word_halves [of "c (i + 1)"] by (simp add: Let_def)
        then show ?thesis by (intro exI [of _ "i + 1"]) simp
      next
        case False
        then have "rec c (i + 3) = Some v" using 1(2) by (simp add: Let_def)
        from 1(1) [OF this] m obtain j where "j \<ge> i + 3" "v = c j" by auto
        then show ?thesis by (intro exI [of _ j]) simp
      qed
    qed
  qed
  with m show ?thesis by blast
qed

text \<open>The loop ends in its first or second pass, when the counter gains less than \<open>2 ^ 29\<close> between two
  bus reads: it does not carry into its high half twice.\<close>

lemma mtime_now_total:
  assumes m: "\<And>j. unat (c j) \<le> unat (c (Suc j)) \<and> unat (c (Suc j)) \<le> unat (c j) + 2 ^ 29"
  shows "mtime_now c i = Some (c (i + 1)) \<or> mtime_now c i = Some (c (i + 4))"
proof -
  have le: "c j \<le> c (Suc j)" for j using m [of j] by (simp add: word_le_nat_alt)
  have run: "mtime_now c j = (if hi_word (c j) = hi_word (c (j + 2)) then Some (c (j + 1)) else mtime_now c (j + 3))" for j
    using mtime_now_run [of c j] le [of j] le [of "j + 1"] by simp
  show ?thesis
  proof (cases "hi_word (c i) = hi_word (c (i + 2))")
    case True
    then show ?thesis using run [of i] by simp
  next
    case False
    define a where "a = unat (c i)"
    define b where "b = unat (c (i + 2))"
    define q where "q = b div 2 ^ 32"
    have u: "a \<le> b" "b \<le> unat (c (i + 3))" "unat (c (i + 3)) \<le> unat (c (i + 5))" "unat (c (i + 5)) \<le> a + 5 * 2 ^ 29"
    proof -
      have s: "k = Suc j \<Longrightarrow> unat (c j) \<le> unat (c k) \<and> unat (c k) \<le> unat (c j) + 2 ^ 29" for j k
        using m by blast
      have f: "unat (c i) \<le> unat (c (i + 1)) \<and> unat (c (i + 1)) \<le> unat (c i) + 2 ^ 29"
        "unat (c (i + 1)) \<le> unat (c (i + 2)) \<and> unat (c (i + 2)) \<le> unat (c (i + 1)) + 2 ^ 29"
        "unat (c (i + 2)) \<le> unat (c (i + 3)) \<and> unat (c (i + 3)) \<le> unat (c (i + 2)) + 2 ^ 29"
        "unat (c (i + 3)) \<le> unat (c (i + 4)) \<and> unat (c (i + 4)) \<le> unat (c (i + 3)) + 2 ^ 29"
        "unat (c (i + 4)) \<le> unat (c (i + 5)) \<and> unat (c (i + 5)) \<le> unat (c (i + 4)) + 2 ^ 29"
        by (rule s; simp)+
      show "a \<le> b" "b \<le> unat (c (i + 3))" "unat (c (i + 3)) \<le> unat (c (i + 5))" "unat (c (i + 5)) \<le> a + 5 * 2 ^ 29"
        unfolding a_def b_def using f by linarith+
    qed
    have "a div 2 ^ 32 \<noteq> q" using False unfolding q_def a_def b_def hi_word_div [symmetric] word_unat_eq_iff by simp
    moreover have "a div 2 ^ 32 \<le> q" unfolding q_def using u(1) by (rule div_le_mono)
    ultimately have "a div 2 ^ 32 < q" by simp
    then have lo: "a < q * 2 ^ 32" by (subst (asm) div_less_iff_less_mult) simp_all
    have hi: "q * 2 ^ 32 \<le> b" by (simp add: q_def)
    have "unat (c (i + 3)) div 2 ^ 32 = q" by (rule div_nat_eqI) (use lo hi u in simp_all)
    moreover have "unat (c (i + 5)) div 2 ^ 32 = q" by (rule div_nat_eqI) (use lo hi u in simp_all)
    ultimately have "hi_word (c (i + 3)) = hi_word (c (i + 5))" by (simp only: word_unat_eq_iff hi_word_div)
    moreover have "i + 3 + 2 = i + 5" "i + 3 + 1 = i + 4" by simp_all
    note r = run [of "i + 3", unfolded this]
    ultimately show ?thesis using False run [of i] unfolding r by (simp only: if_True if_False simp_thms)
  qed
qed

text \<open>The comparator as the hardware sees it, and its values during a write.\<close>

definition comparator :: "timer_regs \<Rightarrow> kernel \<Rightarrow> u64" where
  "comparator r k = push_bit 32 (ucast (reg_rd (r_mtimecmp r + 4) k)) OR ucast (reg_rd (r_mtimecmp r) k)"

lemma ptr_plus4 [simp]: "(p :: ptr) + 4 \<noteq> p" "p \<noteq> p + 4"
  by simp_all

lemma comparator_written: "comparator r (mtimecmp_words r v k) = v"
  using word_halves [of v] by (simp add: comparator_def mtimecmp_words_def reg_wr_def reg_rd_def Let_def)

lemma high_parked: "0xFFFFFFFF00000000 \<le> (push_bit 32 (ucast (0xFFFFFFFF :: u32)) OR ucast (x :: u32) :: u64)"
proof -
  have "push_bit 32 (ucast (0xFFFFFFFF :: u32)) = (0xFFFFFFFF00000000 :: u64)" by (simp add: push_bit_eq_mult)
  then show ?thesis using le_word_or2 [of "0xFFFFFFFF00000000" "ucast x :: u64"] by (simp add: word_bw_comms)
qed

lemma comparator_never_early:
  "comparator r (reg_wr (r_mtimecmp r + 4) 0xFFFFFFFF k) \<ge> 0xFFFFFFFF00000000"
  "comparator r (reg_wr (r_mtimecmp r) (lo_word v) (reg_wr (r_mtimecmp r + 4) 0xFFFFFFFF k)) \<ge> 0xFFFFFFFF00000000"
  "comparator r (mtimecmp_words r v k) = v"
  using high_parked comparator_written by (simp_all add: comparator_def reg_wr_def reg_rd_def)

section \<open>The port keeps its contract\<close>

definition rv_top :: "ptr \<Rightarrow> usize \<Rightarrow> ptr" where
  "rv_top block stack_sz = (block + (max stack_sz 256 + 16)) AND NOT 15"

text \<open>What a successful \<open>create_task\<close> returns.\<close>

lemma rv_create_run:
  assumes t: "rd k p = Some t" and a: "alloc_block (max sz 256 + 16) 16 k = Some (Some b, k\<lparr>karena := a\<rparr>)"
  shows "rv_create e p sz k = Some (Inr (), put p (t\<lparr>stack_base := b, stack_size := max sz 256,
      sp := rv_top b sz - 128, flags := 0\<rparr>) (k\<lparr>karena := a, words := rv_frame_words e p (rv_top b sz - 128) (words k)\<rparr>))"
proof -
  have p0: "p \<noteq> 0" using t rd_nonnull by blast
  let ?k = "k\<lparr>karena := a\<rparr>"
  let ?t = "t\<lparr>stack_base := b, stack_size := max sz 256\<rparr>"
  have t': "rd ?k p = Some t" using t by (simp add: rd_def)
  have u: "upd (\<lambda>t. t\<lparr>stack_base := b, stack_size := max sz 256\<rparr>) p ?k = Some (put p ?t ?k)"
    by (rule upd_put [OF t'])
  let ?w = "rv_frame_words e p (rv_top b sz - 128) (words k)"
  have t2: "rd ((put p ?t ?k)\<lparr>words := w\<rparr>) p = Some ?t" for w using p0 by (simp add: put_def rd_def)
  have w: "words (put p ?t ?k) = words k" by (simp add: put_def)
  have u2: "upd (\<lambda>t. t\<lparr>sp := v, flags := 0\<rparr>) p ((put p ?t ?k)\<lparr>words := w\<rparr>)
      = Some (put p (?t\<lparr>sp := v, flags := 0\<rparr>) ((put p ?t ?k)\<lparr>words := w\<rparr>))" for v w
    by (rule upd_put [OF t2])
  have "rv_create e p sz k
      = Some (Inr (), put p (?t\<lparr>sp := rv_top b sz - 128, flags := 0\<rparr>) ((put p ?t ?k)\<lparr>words := ?w\<rparr>))"
    unfolding rv_create_def Let_def a by (simp add: u u2 w rv_top_def RV_FRAME_SIZE_def del: upd_SomeD)
  then show ?thesis by (simp add: put_def)
qed

lemma rv_create_ok:
  assumes ok: "mem_ok k" and t: "rd k p = Some t" and st: "stack_base t = 0" and rm: "roomy k sz"
  shows "\<exists>r k'. rv_create e p sz k = Some (r, k') \<and> mem_ok k' \<and> created p k k' \<and> (\<forall>e. r = Inl e \<longrightarrow> no_stack p k k')"
proof (rule create_contract [OF ok t st])
  have "unat (256 :: usize) + unat (16 :: usize) \<le> 16000" "unat (16 :: usize) \<noteq> 0" by simp_all
  note s = stack_space [OF rm this]
  show "space_for k (max sz 256 + 16)" "max sz 256 + 16 \<noteq> 0" by (rule s(2), rule s(3))
  show "pow2 16 4" "unat (16 :: usize) \<le> 32" by (simp_all add: pow2_def)
  show "rv_create e p sz k = Some (Inl ArenaExhausted, k)" if "alloc_block (max sz 256 + 16) 16 k = Some (None, k)"
    using that by (simp add: rv_create_def Let_def)
  show "\<exists>t' w. rv_create e p sz k = Some (Inr (), put p t' (k\<lparr>karena := a, words := w\<rparr>)) \<and> stack_base t' = b
      \<and> stackless t' = stackless t"
    if "alloc_block (max sz 256 + 16) 16 k = Some (Some b, k\<lparr>karena := a\<rparr>)" for b a
    unfolding rv_create_run [OF t that] by (intro exI conjI, rule refl) (simp_all add: stackless_def)
qed

lemma rv_adopt_ok:
  assumes ok: "mem_ok k" and t: "rd k p = Some t" and st: "stack_base t = 0"
  shows "\<exists>r k'. rv_adopt p k = Some (r, k') \<and> mem_ok k' \<and> created p k k'"
proof (rule adopt_contract [OF ok t st])
  show "rv_adopt p k = Some (Inr (), put p (t\<lparr>sp := null_ptr, stack_base := null_ptr, stack_size := 0, flags := 0\<rparr>) k)"
    using t by (simp add: rv_adopt_def upd_put)
qed (simp_all add: stackless_def)

interpretation rv: quiet_port "riscv_port entry default_arena r tm"
proof
  show "port_reclaimed (riscv_port entry default_arena r tm) p k = Some k" for p k
    by (simp add: riscv_port_def rv_on_task_reclaimed_def)
  show "\<exists>w t'. port_reclaimed (riscv_port entry default_arena r tm) p k = Some ((put p t' k)\<lparr>words := w\<rparr>) \<and> blocks_of t' = blocks_of t"
    if "rd k p = Some t" for p k t
    using quiet_hook [OF that] by (simp add: riscv_port_def rv_on_task_reclaimed_def)
  show "\<exists>e k'. port_create (riscv_port entry default_arena r tm) p sz k = Some (e, k') \<and> mem_ok k'
      \<and> created p k k' \<and> (\<forall>x. e = Inl x \<longrightarrow> no_stack p k k')"
    if "mem_ok k" "rd k p = Some t" "stack_base t = 0" "roomy k sz" for k p t sz
    using rv_create_ok [OF that] by (simp add: riscv_port_def)
  show "\<exists>e k'. port_adopt (riscv_port entry default_arena r tm) p k = Some (e, k') \<and> mem_ok k' \<and> created p k k'"
    if "mem_ok k" "rd k p = Some t" "stack_base t = 0" for k p t
    using rv_adopt_ok [OF that] by (simp add: riscv_port_def)
qed

interpretation rv_critical: critical rv_critical_enter rv_critical_exit "\<lambda>m. m AND 8 = 0" "\<lambda>m. True"
proof
  show "snd (rv_critical_enter m) AND 8 = 0 \<and> True" for m
    by (simp add: rv_critical_enter_def word_bw_assocs)
  show "rv_critical_exit (fst (rv_critical_enter m)) (snd (rv_critical_enter m)) = m" for m
  proof -
    have "m AND 8 = (if bit m 3 then 8 else 0)" "bit m 3 \<Longrightarrow> m AND NOT 8 OR 8 = m" "\<not> bit m 3 \<Longrightarrow> m AND NOT 8 = m"
      using single_bit [of 3 m] by simp_all
    then show ?thesis by (auto simp: rv_critical_enter_def rv_critical_exit_def MSTATUS_MIE_def)
  qed
qed

section \<open>Planning and start\<close>

lemma rv_plan_ok:
  assumes "rv_plan_timer cfg = Inr plan"
  shows "100 \<le> unat (plan_slice_cycles plan)" "plan_timer_hz plan = cfg_timer_hz cfg" "cfg_timer_hz cfg \<noteq> 0"
    "unat (plan_slice_cycles plan) =
      unat (case cfg_slice cfg of Cycles c \<Rightarrow> ucast c | other \<Rightarrow> to_cycles other (cfg_timer_hz cfg))"
proof -
  let ?c = "case cfg_slice cfg of Cycles c \<Rightarrow> ucast c | other \<Rightarrow> to_cycles other (cfg_timer_hz cfg)"
  have c: "\<not> ?c < 100" "\<not> ?c > 0xFFFFFFFF" "cfg_timer_hz cfg \<noteq> 0"
    "plan = \<lparr>plan_slice_ns = rv_cycles_to_ns_with (cfg_timer_hz cfg) (ucast ?c),
                  plan_slice_cycles = ucast ?c, plan_timer_hz = cfg_timer_hz cfg\<rparr>"
    using assms unfolding rv_plan_timer_def Let_def RV_MIN_SLICE_CYCLES_def
    by (simp_all only: split: if_splits) simp_all
  have b: "100 \<le> unat ?c" "unat ?c < 2 ^ 32"
    using c(1,2) by (simp_all add: not_less word_le_nat_alt)
  have p: "plan_slice_cycles plan = ucast ?c" "plan_timer_hz plan = cfg_timer_hz cfg"
    by (subst c(4), simp)+
  show u: "unat (plan_slice_cycles plan) = unat ?c" unfolding p(1) unat_ucast_mod using b(2) by simp
  show "100 \<le> unat (plan_slice_cycles plan)" unfolding u by (rule b(1))
  show "plan_timer_hz plan = cfg_timer_hz cfg" by (rule p(2))
  show "cfg_timer_hz cfg \<noteq> 0" by (rule c(3))
qed

text \<open>The step on memory that the kernel calls is what the whole \<open>start_timer\<close> does to memory.\<close>

lemma rearm_same:
  "rv_kernel (rv_rearm tm s) = rearm_words (rv_regs s) tm (rv_kernel s)" "rv_regs (rv_rearm tm s) = rv_regs s"
  "mie (rv_rearm tm s) = mie s AND NOT MIE_MTIE OR MIE_MTIE" "mstatus (rv_rearm tm s) = mstatus s"
  "mcause (rv_rearm tm s) = mcause s" "rv_sp (rv_rearm tm s) = rv_sp s" "trap_hook (rv_rearm tm s) = trap_hook s"
  by (simp_all add: rv_rearm_def rv_mtimecmp_write_def rearm_words_def Let_def)

lemma mtie_last: "m AND NOT MIE_MTIE OR MIE_MTIE = m OR MIE_MTIE"
  by (rule bit_word_eqI) (auto simp: bit_simps)

lemma start_timer_same:
  "fst (rv_start_timer entry tm plan s) = fst (rv_start_words (rv_regs s) tm plan (rv_kernel s))"
  "rv_kernel (snd (rv_start_timer entry tm plan s)) = snd (rv_start_words (rv_regs s) tm plan (rv_kernel s))"
  "mie (snd (rv_start_timer entry tm plan s)) = mie s OR (MIE_MTIE OR MIE_MSIE)"
  "mtvec (snd (rv_start_timer entry tm plan s)) = entry" "mstatus (snd (rv_start_timer entry tm plan s)) = mstatus s OR 8"
proof -
  have "(m OR (MIE_MTIE OR MIE_MSIE)) OR MIE_MTIE = m OR (MIE_MTIE OR MIE_MSIE)" for m
    by (rule bit_word_eqI) (auto simp: bit_simps)
  then show "mie (snd (rv_start_timer entry tm plan s)) = mie s OR (MIE_MTIE OR MIE_MSIE)"
    by (simp add: rv_start_timer_def rearm_same mtie_last Let_def)
qed (simp_all add: rv_start_timer_def rv_start_words_def rv_rearm_def rv_mtimecmp_write_def rearm_words_def reg_wr_def Let_def)

lemma rearmed: "comparator r (rearm_words r tm k) = tm + ucast (kc_slice_cycles (config k))"
  by (simp add: rearm_words_def comparator_written)

section \<open>The trap\<close>

definition rv_ok :: "ptr \<Rightarrow> ntree \<Rightarrow> riscv \<Rightarrow> bool" where
  "rv_ok c T s = ((\<exists>ns. sys_inv (rv_kernel s) T ns) \<and> framed_but c 0 30 T (rv_kernel s) \<and> length (rv_gprs s) = 28)"

lemma rv_ok_wr: "rv_ok c T s \<Longrightarrow> rv_ok c T (s\<lparr>rv_kernel := reg_wr a v (rv_kernel s)\<rparr>)"
proof -
  assume ok: "rv_ok c T s"
  have "framed_but c 0 30 T (reg_wr a v (rv_kernel s))"
    using framed_more [of c 0 30 T "rv_kernel s" "words (reg_wr a v (rv_kernel s))"] ok reg_wr_more
    by (simp add: rv_ok_def reg_wr_def)
  moreover from ok obtain ns where "sys_inv (rv_kernel s) T ns" by (auto simp: rv_ok_def)
  then have "sys_inv (reg_wr a v (rv_kernel s)) T ns" by (rule reg_wr_step)
  ultimately show ?thesis using ok by (auto simp: rv_ok_def)
qed

lemma rv_ok_kept:
  assumes "rv_ok c T s" and "sys_inv k T ns" and "kept T (rv_kernel s) k"
  shows "rv_ok c T (s\<lparr>rv_kernel := k\<rparr>)"
  using assms framed_kept by (auto simp: rv_ok_def)

text \<open>What no step of the handler writes.\<close>

definition rv_fixed :: "riscv \<Rightarrow> riscv \<Rightarrow> bool" where
  "rv_fixed s s' = (rv_regs s' = rv_regs s \<and> mcause s' = mcause s \<and> mtvec s' = mtvec s \<and> trap_hook s' = trap_hook s
     \<and> config (rv_kernel s') = config (rv_kernel s))"

lemma rv_fixed_trans: "rv_fixed s s1 \<Longrightarrow> rv_fixed s1 s2 \<Longrightarrow> rv_fixed s s2"
  by (simp add: rv_fixed_def)

lemma rv_report_same [simp]:
  "rv_kernel (rv_report_trap e s) = rv_kernel s" "rv_sp (rv_report_trap e s) = rv_sp s"
  "rv_gprs (rv_report_trap e s) = rv_gprs s" "rv_regs (rv_report_trap e s) = rv_regs s"
  "mcause (rv_report_trap e s) = mcause s" "mtvec (rv_report_trap e s) = mtvec s" "trap_hook (rv_report_trap e s) = trap_hook s"
  by (simp_all add: rv_report_trap_def)

lemma rv_measure_run:
  assumes "rv_ok c T s"
  shows "rv_ok c T (rv_measure_period tm s)" "rv_fixed s (rv_measure_period tm s)"
    "ticks (rv_kernel (rv_measure_period tm s)) = ticks (rv_kernel s)"
    "words (rv_kernel (rv_measure_period tm s)) = words (rv_kernel s)"
    "current_tcb (rv_kernel (rv_measure_period tm s)) = current_tcb (rv_kernel s)"
proof -
  from assms obtain ns where inv: "sys_inv (rv_kernel s) T ns" by (auto simp: rv_ok_def)
  have k: "\<exists>v. rv_kernel (rv_measure_period tm s) = rv_kernel s \<or> rv_kernel (rv_measure_period tm s) = record_period_error v (rv_kernel s)"
    by (auto simp: rv_measure_period_def Let_def)
  then obtain v where v: "rv_kernel (rv_measure_period tm s) = rv_kernel s
      \<or> rv_kernel (rv_measure_period tm s) = record_period_error v (rv_kernel s)" by blast
  have g: "rv_gprs (rv_measure_period tm s) = rv_gprs s" by (simp add: rv_measure_period_def Let_def)
  show "rv_ok c T (rv_measure_period tm s)"
    using v assms g rv_ok_kept [OF assms record_step(3,4) [OF inv]] by (auto simp: rv_ok_def)
  have r: "ticks (record_period_error v k) = ticks k" "words (record_period_error v k) = words k"
    "current_tcb (record_period_error v k) = current_tcb k" "config (record_period_error v k) = config k" for k
    by (simp_all add: record_period_error_def Let_def)
  show "ticks (rv_kernel (rv_measure_period tm s)) = ticks (rv_kernel s)"
    "words (rv_kernel (rv_measure_period tm s)) = words (rv_kernel s)"
    "current_tcb (rv_kernel (rv_measure_period tm s)) = current_tcb (rv_kernel s)"
    using v r by auto
  have "config (rv_kernel (rv_measure_period tm s)) = config (rv_kernel s)" using v r by auto
  then show "rv_fixed s (rv_measure_period tm s)"
    by (simp add: rv_fixed_def rv_measure_period_def Let_def)
qed

text \<open>The first half: the timer counts one tick, the software interrupt is acknowledged, and the
  clock stands still on everything else.\<close>

lemma rv_trap_switch_run:
  assumes ok: "rv_ok c T s"
  shows "\<exists>next s'. rv_trap_switch tm s = Some (next, s') \<and> rv_ok c T s' \<and> rv_fixed s s'
    \<and> ticks (rv_kernel s') = (if mcause s = MCAUSE_TIMER then ticks (rv_kernel s) + 1 else ticks (rv_kernel s))
    \<and> words (rv_kernel s') = (if mcause s = MCAUSE_SOFT then (words (rv_kernel s))(r_msip (rv_regs s) \<mapsto> 0)
        else words (rv_kernel s))
    \<and> (next \<noteq> 0 \<longrightarrow> LeafN next \<in> set (subs T) \<and> current_tcb (rv_kernel s') = next)"
proof -
  define F where "F = (if mcause s = MCAUSE_SOFT then Some (s\<lparr>rv_kernel := reg_wr (r_msip (rv_regs s)) 0 (rv_kernel s)\<rparr>)
          else if mcause s = MCAUSE_TIMER then do {
            k \<leftarrow> on_tick (rv_kernel s);
            Some (rv_measure_period tm (s\<lparr>rv_kernel := k\<rparr>))
          }
          else Some s)"
  have ne: "MCAUSE_SOFT \<noteq> MCAUSE_TIMER" by (simp add: MCAUSE_SOFT_def MCAUSE_TIMER_def)
  from ok obtain ns where inv: "sys_inv (rv_kernel s) T ns" by (auto simp: rv_ok_def)
  have "\<exists>s1. F = Some s1 \<and> rv_ok c T s1 \<and> rv_fixed s s1
    \<and> ticks (rv_kernel s1) = (if mcause s = MCAUSE_TIMER then ticks (rv_kernel s) + 1 else ticks (rv_kernel s))
    \<and> words (rv_kernel s1) = (if mcause s = MCAUSE_SOFT then (words (rv_kernel s))(r_msip (rv_regs s) \<mapsto> 0)
        else words (rv_kernel s))"
  proof (cases "mcause s = MCAUSE_TIMER")
    case True
    from tick_run [OF inv] obtain k where k: "on_tick (rv_kernel s) = Some k" "sys_inv k T ns" "kept T (rv_kernel s) k"
      "ticks k = ticks (rv_kernel s) + 1" by blast
    have ok1: "rv_ok c T (s\<lparr>rv_kernel := k\<rparr>)" by (rule rv_ok_kept [OF ok k(2,3)])
    have "rv_fixed s (s\<lparr>rv_kernel := k\<rparr>)" using k(3) by (simp add: rv_fixed_def kept_def)
    from rv_fixed_trans [OF this rv_measure_run(2) [OF ok1]] show ?thesis
      using True ne k rv_measure_run [OF ok1] by (simp add: F_def kept_def)
  next
    case False
    then show ?thesis using ok rv_ok_wr [OF ok] by (simp add: F_def rv_fixed_def reg_wr_def)
  qed
  then obtain s1 where s1: "F = Some s1" "rv_ok c T s1" "rv_fixed s s1"
    "ticks (rv_kernel s1) = (if mcause s = MCAUSE_TIMER then ticks (rv_kernel s) + 1 else ticks (rv_kernel s))"
    "words (rv_kernel s1) = (if mcause s = MCAUSE_SOFT then (words (rv_kernel s))(r_msip (rv_regs s) \<mapsto> 0)
        else words (rv_kernel s))" by blast
  from s1(2) obtain ms where "sys_inv (rv_kernel s1) T ms" by (auto simp: rv_ok_def)
  from switch_run [OF this] obtain leaf k where k: "schedule_next (rv_kernel s1) = Some (leaf, k)" "sys_inv k T ms"
    "kept T (rv_kernel s1) k" "ticks k = ticks (rv_kernel s1)"
    "leaf \<noteq> 0 \<longrightarrow> LeafN leaf \<in> set (subs T) \<and> current_tcb k = leaf" by blast
  let ?s2 = "s1\<lparr>rv_kernel := k\<rparr>"
  let ?s' = "rv_report_trap \<lparr>ev_cause = mcause ?s2, ev_epc = mepc ?s2, ev_current = k_current k, ev_next = leaf, ev_after = False\<rparr> ?s2"
  have "rv_trap_switch tm s = Some (leaf, ?s')"
    using s1(1) k(1) unfolding rv_trap_switch_def F_def [symmetric] by (simp add: Let_def)
  moreover have "rv_ok c T ?s'" using rv_ok_kept [OF s1(2) k(2,3)] by (simp add: rv_ok_def)
  moreover have "rv_fixed s ?s'" using s1(3) k(3) by (simp add: rv_fixed_def kept_def)
  moreover have "words k = words (rv_kernel s1)" using k(3) by (simp add: kept_def)
  ultimately show ?thesis using s1(4,5) k(4,5) by (intro exI [of _ leaf] exI [of _ ?s']) simp
qed

text \<open>The second half: the dead are reclaimed and the comparator stands a slice away.\<close>

lemma rv_rearm_ok:
  assumes "rv_ok c T s"
  shows "rv_ok c T (rv_rearm tm s)" "rv_fixed s (rv_rearm tm s)" "ticks (rv_kernel (rv_rearm tm s)) = ticks (rv_kernel s)"
    "current_tcb (rv_kernel (rv_rearm tm s)) = current_tcb (rv_kernel s)" "rd (rv_kernel (rv_rearm tm s)) a = rd (rv_kernel s) a"
    "comparator (rv_regs s) (rv_kernel (rv_rearm tm s)) = tm + ucast (kc_slice_cycles (config (rv_kernel s)))"
proof -
  let ?r = "rv_regs s" and ?v = "tm + ucast (kc_slice_cycles (config (rv_kernel s)))"
  let ?w = "\<lambda>a v s. s\<lparr>rv_kernel := reg_wr a v (rv_kernel s)\<rparr>"
  let ?s' = "?w (r_mtimecmp ?r + 4) (hi_word ?v) (?w (r_mtimecmp ?r) (lo_word ?v) (?w (r_mtimecmp ?r + 4) 0xFFFFFFFF s))"
  have "rv_ok c T ?s'" by (intro rv_ok_wr assms)
  moreover have "rv_kernel ?s' = rv_kernel (rv_rearm tm s)" "rv_gprs (rv_rearm tm s) = rv_gprs s"
    by (simp_all add: rv_rearm_def rv_mtimecmp_write_def mtimecmp_words_def Let_def)
  ultimately show "rv_ok c T (rv_rearm tm s)" by (simp add: rv_ok_def)
  show "rv_fixed s (rv_rearm tm s)" "ticks (rv_kernel (rv_rearm tm s)) = ticks (rv_kernel s)"
    "current_tcb (rv_kernel (rv_rearm tm s)) = current_tcb (rv_kernel s)" "rd (rv_kernel (rv_rearm tm s)) a = rd (rv_kernel s) a"
    by (simp_all add: rv_fixed_def rv_rearm_def rv_mtimecmp_write_def mtimecmp_words_def reg_wr_def rd_def Let_def)
  show "comparator (rv_regs s) (rv_kernel (rv_rearm tm s)) = ?v" by (simp add: rearm_same rearmed)
qed

context quiet_port
begin

lemma rv_after_switch_run:
  assumes ok: "rv_ok c T s"
  shows "\<exists>s'. rv_after_switch P t0 tm t1 s = Some s' \<and> rv_ok c T s' \<and> rv_fixed s s' \<and> rv_sp s' = rv_sp s
    \<and> ticks (rv_kernel s') = ticks (rv_kernel s) \<and> current_tcb (rv_kernel s') = current_tcb (rv_kernel s)
    \<and> (\<forall>a\<in>set (addrs T). map_option sp (rd (rv_kernel s') a) = map_option sp (rd (rv_kernel s) a))
    \<and> comparator (rv_regs s') (rv_kernel s') = tm + ucast (kc_slice_cycles (config (rv_kernel s)))"
proof -
  define e where "e = \<lparr>ev_cause = 0, ev_epc = 0, ev_current = k_current (rv_kernel s), ev_next = k_current (rv_kernel s), ev_after = True\<rparr>"
  let ?s0 = "rv_report_trap e s"
  have ok0: "rv_ok c T ?s0" using ok by (simp add: rv_ok_def)
  from ok obtain ns where "sys_inv (rv_kernel s) T ns" by (auto simp: rv_ok_def)
  from reclaim_run [OF this] obtain k ns' where k: "reclaim_finished_tasks P (rv_kernel s) = Some k" "sys_inv k T ns'"
    "kept T (rv_kernel s) k" "ticks k = ticks (rv_kernel s)" "current_tcb k = current_tcb (rv_kernel s)" by blast
  let ?s1 = "?s0\<lparr>rv_kernel := k\<rparr>"
  have ok1: "rv_ok c T ?s1" by (rule rv_ok_kept [OF ok0 k(2)]) (use k(3) in simp)
  let ?s2 = "rv_rearm tm ?s1"
  note r = rv_rearm_ok [OF ok1, of tm]
  have c1: "config k = config (rv_kernel s)" using k(3) by (simp add: kept_def)
  have f2: "rv_fixed s ?s2"
    by (rule rv_fixed_trans [OF _ r(2)]) (simp add: rv_fixed_def c1)
  let ?m = "kc_measure (config (rv_kernel s)) \<noteq> MeasureOff"
  let ?v = "ucast (min (sat_sub t1 (if ?m then t0 else 0)) 0xFFFFFFFF)"
  let ?s' = "if ?m then ?s2\<lparr>rv_kernel := record_latency ?v (rv_kernel ?s2)\<rparr> else ?s2"
  have run: "rv_after_switch P t0 tm t1 s = Some ?s'"
    unfolding rv_after_switch_def e_def Let_def using k(1) by simp
  from r(1) obtain ms where m: "sys_inv (rv_kernel ?s2) T ms" by (auto simp: rv_ok_def)
  have ok': "rv_ok c T ?s'" using r(1) rv_ok_kept [OF r(1) record_step(1,2) [OF m]] by simp
  have l: "words (record_latency v q) = words q" "config (record_latency v q) = config q" "ticks (record_latency v q) = ticks q"
    "current_tcb (record_latency v q) = current_tcb q" "rd (record_latency v q) a = rd q a" for v q a
    by (simp_all add: record_latency_def Let_def rd_def)
  have cw: "comparator g q' = comparator g q" if "words q' = words q" for g q q'
    using that by (simp add: comparator_def reg_rd_def)
  have "rv_fixed s ?s'" using f2 l(2) by (simp add: rv_fixed_def)
  moreover have "rv_sp ?s' = rv_sp s" by (simp add: rearm_same)
  moreover have "ticks (rv_kernel ?s') = ticks (rv_kernel s)" "current_tcb (rv_kernel ?s') = current_tcb (rv_kernel s)"
    using r(3,4) l(3,4) k(4,5) by simp_all
  moreover have "\<forall>a\<in>set (addrs T). map_option sp (rd (rv_kernel ?s') a) = map_option sp (rd (rv_kernel s) a)"
    using r(5) l(5) k(3) by (simp add: kept_def)
  moreover have "comparator (rv_regs ?s') (rv_kernel ?s') = tm + ucast (kc_slice_cycles (config (rv_kernel s)))"
    using r(6) cw [OF l(1)] c1 by (simp add: rearm_same)
  ultimately show ?thesis using run ok' by blast
qed

lemma rv_restore_run:
  assumes ok: "rv_ok c T s" and l: "load_words (rv_sp s) 30 (words (rv_kernel s)) = Some vs"
  shows "rv_restore s = Some (s\<lparr>rv_gprs := take 28 vs, mepc := vs ! 28, mstatus := vs ! 29, rv_sp := rv_sp s + RV_FRAME_SIZE\<rparr>)"
    "rv_ok c T (s\<lparr>rv_gprs := take 28 vs, mepc := vs ! 28, mstatus := vs ! 29, rv_sp := rv_sp s + RV_FRAME_SIZE\<rparr>)"
    "vs = take 28 vs @ [vs ! 28, vs ! 29]"
proof -
  have n: "length vs = 30" using l by (rule load_length)
  show "rv_restore s = Some (s\<lparr>rv_gprs := take 28 vs, mepc := vs ! 28, mstatus := vs ! 29, rv_sp := rv_sp s + RV_FRAME_SIZE\<rparr>)"
    using l by (simp add: rv_restore_def)
  show "rv_ok c T (s\<lparr>rv_gprs := take 28 vs, mepc := vs ! 28, mstatus := vs ! 29, rv_sp := rv_sp s + RV_FRAME_SIZE\<rparr>)"
    using ok n by (simp add: rv_ok_def)
  show "vs = take 28 vs @ [vs ! 28, vs ! 29]"
    using n by (intro nth_equalityI) (auto simp: nth_append less_Suc_eq numeral_eq_Suc)
qed

text \<open>One pass: either a task runs again from its own frame, with a full slice, or nothing is runnable.\<close>

lemma rv_pick_run:
  assumes ok: "rv_ok 0 T s"
  shows "\<exists>b s'. rv_pick P tm t0 tr t1 s = Some (b, s') \<and> rv_ok 0 T s' \<and> rv_fixed s s'
    \<and> ticks (rv_kernel s') = (if mcause s = MCAUSE_TIMER then ticks (rv_kernel s) + 1 else ticks (rv_kernel s))
    \<and> (if b then (\<exists>t. LeafN (current_tcb (rv_kernel s')) \<in> set (subs T) \<and> rd (rv_kernel s') (current_tcb (rv_kernel s')) = Some t
         \<and> load_words (sp t) 30 (words (rv_kernel s')) = Some (rv_gprs s' @ [mepc s', mstatus s'])
         \<and> rv_sp s' = sp t + RV_FRAME_SIZE
         \<and> comparator (rv_regs s') (rv_kernel s') = tr + ucast (kc_slice_cycles (config (rv_kernel s'))))
       else words (rv_kernel s') = (if mcause s = MCAUSE_SOFT then (words (rv_kernel s))(r_msip (rv_regs s) \<mapsto> 0)
         else words (rv_kernel s)))"
proof -
  from rv_trap_switch_run [OF ok] obtain nx s1 where s1: "rv_trap_switch tm s = Some (nx, s1)" "rv_ok 0 T s1" "rv_fixed s s1"
    "ticks (rv_kernel s1) = (if mcause s = MCAUSE_TIMER then ticks (rv_kernel s) + 1 else ticks (rv_kernel s))"
    "words (rv_kernel s1) = (if mcause s = MCAUSE_SOFT then (words (rv_kernel s))(r_msip (rv_regs s) \<mapsto> 0)
        else words (rv_kernel s))"
    "nx \<noteq> 0 \<longrightarrow> LeafN nx \<in> set (subs T) \<and> current_tcb (rv_kernel s1) = nx" by blast
  show ?thesis
  proof (cases "nx = 0")
    case True
    then have "rv_pick P tm t0 tr t1 s = Some (False, s1)" using s1(1) by (simp add: rv_pick_def)
    with s1 show ?thesis by (intro exI [of _ False] exI [of _ s1]) simp
  next
    case False
    with s1(6) have n: "LeafN nx \<in> set (subs T)" "current_tcb (rv_kernel s1) = nx" by simp_all
    with s1(2) False obtain t where t: "rd (rv_kernel s1) nx = Some t" by (auto simp: rv_ok_def framed_but_def)
    let ?s2 = "s1\<lparr>rv_sp := sp t\<rparr>"
    have ok2: "rv_ok 0 T ?s2" using s1(2) by (simp add: rv_ok_def)
    from rv_after_switch_run [OF ok2, of t0 tr t1] obtain s3 where s3: "rv_after_switch P t0 tr t1 ?s2 = Some s3" "rv_ok 0 T s3"
      "rv_fixed ?s2 s3" "rv_sp s3 = sp t" "ticks (rv_kernel s3) = ticks (rv_kernel s1)" "current_tcb (rv_kernel s3) = nx"
      "\<forall>a\<in>set (addrs T). map_option sp (rd (rv_kernel s3) a) = map_option sp (rd (rv_kernel s1) a)"
      "comparator (rv_regs s3) (rv_kernel s3) = tr + ucast (kc_slice_cycles (config (rv_kernel s1)))"
      using n(2) by auto
    have "nx \<in> set (addrs T)" using subs_addr [OF n(1)] by simp
    with s3(7) t have "map_option sp (rd (rv_kernel s3) nx) = Some (sp t)" by simp
    then obtain u where u: "rd (rv_kernel s3) nx = Some u" "sp u = sp t" by auto
    from s3(2) n(1) False u obtain vs where vs: "load_words (sp t) 30 (words (rv_kernel s3)) = Some vs"
      by (auto simp: rv_ok_def framed_but_def)
    note r = rv_restore_run [OF s3(2), unfolded s3(4), OF vs]
    let ?s' = "s3\<lparr>rv_gprs := take 28 vs, mepc := vs ! 28, mstatus := vs ! 29, rv_sp := sp t + RV_FRAME_SIZE\<rparr>"
    have run: "rv_pick P tm t0 tr t1 s = Some (True, ?s')"
      using s1(1) False t s3(1) r(1) by (simp add: rv_pick_def)
    have f: "rv_fixed s ?s'" using s1(3) s3(3) by (simp add: rv_fixed_def)
    have g: "load_words (sp u) 30 (words (rv_kernel ?s')) = Some (rv_gprs ?s' @ [mepc ?s', mstatus ?s'])"
      using vs r(3) u(2) by simp
    have "comparator (rv_regs ?s') (rv_kernel ?s') = tr + ucast (kc_slice_cycles (config (rv_kernel ?s')))"
      using s3(3,8) by (simp add: rv_fixed_def)
    with run r(2) f s3(5,6) s1(4) n(1) u g show ?thesis
      by (intro exI [of _ True] exI [of _ ?s']) simp
  qed
qed

lemma rv_wait_run:
  "rv_ok 0 T s \<Longrightarrow> \<exists>b s'. rv_wait P cs s = Some (b, s') \<and> rv_ok 0 T s' \<and> rv_fixed s s'
    \<and> (b \<longrightarrow> (\<exists>t tr. LeafN (current_tcb (rv_kernel s')) \<in> set (subs T) \<and> rd (rv_kernel s') (current_tcb (rv_kernel s')) = Some t
         \<and> load_words (sp t) 30 (words (rv_kernel s')) = Some (rv_gprs s' @ [mepc s', mstatus s'])
         \<and> rv_sp s' = sp t + RV_FRAME_SIZE \<and> tr \<in> set (map (fst \<circ> snd \<circ> snd) cs)
         \<and> comparator (rv_regs s') (rv_kernel s') = tr + ucast (kc_slice_cycles (config (rv_kernel s')))))"
proof (induction cs arbitrary: s)
  case Nil
  then show ?case by (intro exI [of _ False] exI [of _ s]) (simp add: rv_fixed_def)
next
  case (Cons c cs)
  obtain tm t0 tr t1 where c: "c = (tm, t0, tr, t1)" by (metis prod_cases4)
  from rv_pick_run [OF Cons.prems, of tm t0 tr t1] obtain b s1 where
    s1: "rv_pick P tm t0 tr t1 s = Some (b, s1)" "rv_ok 0 T s1" "rv_fixed s s1"
    and r: "b \<longrightarrow> (\<exists>t. LeafN (current_tcb (rv_kernel s1)) \<in> set (subs T) \<and> rd (rv_kernel s1) (current_tcb (rv_kernel s1)) = Some t
         \<and> load_words (sp t) 30 (words (rv_kernel s1)) = Some (rv_gprs s1 @ [mepc s1, mstatus s1])
         \<and> rv_sp s1 = sp t + RV_FRAME_SIZE
         \<and> comparator (rv_regs s1) (rv_kernel s1) = tr + ucast (kc_slice_cycles (config (rv_kernel s1))))" by metis
  show ?case
  proof (cases b)
    case True
    have "tr \<in> set (map (fst \<circ> snd \<circ> snd) (c # cs))" using c by simp
    moreover have "rv_wait P (c # cs) s = Some (True, s1)" using s1(1) c True by simp
    ultimately show ?thesis using s1(2,3) r True by (intro exI [of _ True] exI [of _ s1]) blast
  next
    case False
    from Cons.IH [OF s1(2)] obtain b' s' where s': "rv_wait P cs s1 = Some (b', s')" "rv_ok 0 T s'" "rv_fixed s1 s'"
      and r': "b' \<longrightarrow> (\<exists>t tr. LeafN (current_tcb (rv_kernel s')) \<in> set (subs T) \<and> rd (rv_kernel s') (current_tcb (rv_kernel s')) = Some t
         \<and> load_words (sp t) 30 (words (rv_kernel s')) = Some (rv_gprs s' @ [mepc s', mstatus s'])
         \<and> rv_sp s' = sp t + RV_FRAME_SIZE \<and> tr \<in> set (map (fst \<circ> snd \<circ> snd) cs)
         \<and> comparator (rv_regs s') (rv_kernel s') = tr + ucast (kc_slice_cycles (config (rv_kernel s'))))" by blast
    have "rv_wait P (c # cs) s = Some (b', s')" using s1(1) c False s'(1) by simp
    moreover have "rv_fixed s s'" by (rule rv_fixed_trans [OF s1(3) s'(3)])
    ultimately show ?thesis using s'(2) r' by (intro exI [of _ b'] exI [of _ s']) auto
  qed
qed

end

text \<open>Saving: the frame of the interrupted task is in memory and published.\<close>

lemma rv_save_run:
  assumes ok: "rv_ok (current_tcb (rv_kernel s)) T s"
  shows "\<exists>s'. rv_save s = Some s' \<and> rv_ok 0 T s' \<and> rv_fixed s s' \<and> current_tcb (rv_kernel s') = current_tcb (rv_kernel s)
    \<and> ticks (rv_kernel s') = ticks (rv_kernel s)
    \<and> load_words (rv_sp s - RV_FRAME_SIZE) 30 (words (rv_kernel s')) = Some (rv_gprs s @ [mepc s, mstatus s])
    \<and> (\<forall>t. rd (rv_kernel s') (current_tcb (rv_kernel s)) = Some t \<longrightarrow> sp t = rv_sp s - RV_FRAME_SIZE)"
proof -
  let ?c = "current_tcb (rv_kernel s)" and ?sp = "rv_sp s - RV_FRAME_SIZE" and ?vs = "rv_gprs s @ [mepc s, mstatus s]"
  let ?w = "store_words ?sp ?vs (words (rv_kernel s))"
  let ?k = "(rv_kernel s)\<lparr>words := ?w\<rparr>"
  from ok obtain ns where inv: "sys_inv (rv_kernel s) T ns" and f: "framed_but ?c 0 30 T (rv_kernel s)" and n: "length (rv_gprs s) = 28"
    by (auto simp: rv_ok_def)
  have i1: "sys_inv ?k T ns" by (rule quiet_step [OF inv]) simp_all
  have l: "load_words ?sp 30 ?w = Some ?vs" using load_store [of ?vs ?sp "words (rv_kernel s)"] n by simp
  have f1: "framed_but (current_tcb ?k) 0 30 T ?k" using framed_more [OF f, of ?w] store_more by simp
  from publish_step [OF i1, of ?sp] obtain k' where
    k: "(if current_tcb ?k = 0 then Some ?k else upd (\<lambda>t. t\<lparr>sp := ?sp\<rparr>) (current_tcb ?k) ?k) = Some k'"
      "sys_inv k' T ns" "words k' = words ?k" "config k' = config ?k" "ticks k' = ticks ?k" "current_tcb k' = current_tcb ?k"
      "\<forall>a. rd k' a = (if a = current_tcb ?k then map_option (\<lambda>t. t\<lparr>sp := ?sp\<rparr>) (rd ?k a) else rd ?k a)" by blast
  have "load_words (?sp + 0) 30 (words ?k) \<noteq> None" using l by simp
  from framed_publish [OF f1 this k(7,3)] sys_invD(2) [OF i1] have f': "framed_but 0 0 30 T k'" by blast
  let ?s' = "s\<lparr>rv_sp := ?sp, rv_kernel := k'\<rparr>"
  have "(if k_current ?k = null_ptr then Some ?k else upd (\<lambda>t. t\<lparr>sp := ?sp\<rparr>) (k_current ?k) ?k) = Some k'"
    using k(1) by (simp only: k_current_def)
  then have "rv_save s = Some ?s'" unfolding rv_save_def Let_def by (simp only: bind.bind_lunit)
  moreover have "rv_ok 0 T ?s'" using k(2) f' n by (auto simp: rv_ok_def)
  moreover have "rv_fixed s ?s'" using k(4) by (simp add: rv_fixed_def)
  moreover have "\<forall>t. rd k' ?c = Some t \<longrightarrow> sp t = ?sp" using k(7) by auto
  ultimately show ?thesis using k(3,5,6) l by (intro exI [of _ ?s']) simp
qed

text \<open>A task that is switched out and, with its frame untouched, in again has the registers it had.\<close>

lemma rv_switch_back:
  assumes n: "length (rv_gprs s) = 28" and s1: "rv_save s = Some s1"
    and later: "rv_sp s2 = rv_sp s1" "\<forall>i<30. words (rv_kernel s2) (rv_sp s1 + of_nat (4 * i)) = words (rv_kernel s1) (rv_sp s1 + of_nat (4 * i))"
  shows "\<exists>s3. rv_restore s2 = Some s3 \<and> rv_gprs s3 = rv_gprs s \<and> mepc s3 = mepc s \<and> mstatus s3 = mstatus s \<and> rv_sp s3 = rv_sp s
    \<and> rv_kernel s3 = rv_kernel s2"
proof -
  let ?vs = "rv_gprs s @ [mepc s, mstatus s]"
  have w: "rv_sp s1 = rv_sp s - RV_FRAME_SIZE" "words (rv_kernel s1) = store_words (rv_sp s - RV_FRAME_SIZE) ?vs (words (rv_kernel s))"
    using s1 by (auto simp: rv_save_def Let_def upd_def split: bind_splits if_splits)
  have "load_words (rv_sp s2) 30 (words (rv_kernel s2)) = load_words (rv_sp s1) 30 (words (rv_kernel s1))"
    unfolding later(1) by (rule load_cong [OF later(2)])
  also have "\<dots> = Some ?vs" unfolding w using load_store [of ?vs] n by simp
  finally show ?thesis using n later(1) w(1) by (simp add: rv_restore_def nth_append)
qed

section \<open>Waiting with nothing to run\<close>

text \<open>Entered by a kick, the wait never counts a tick: a sleeper stays asleep for ever.\<close>

lemma soft_wait_stuck:
  assumes "rv_ok c T s" and "none_runnable (rv_kernel s) T" and m: "mcause s = MCAUSE_SOFT"
  shows "\<exists>s'. rv_wait P cs s = Some (False, s') \<and> ticks (rv_kernel s') = ticks (rv_kernel s)
    \<and> none_runnable (rv_kernel s') T \<and> (\<forall>a. map_option st (rd (rv_kernel s') a) = map_option st (rd (rv_kernel s) a))"
  using assms
proof (induction cs arbitrary: s)
  case Nil
  then show ?case by simp
next
  case (Cons x cs)
  obtain tm t0 tr t1 where x: "x = (tm, t0, tr, t1)" by (metis prod_cases4)
  let ?k = "reg_wr (r_msip (rv_regs s)) 0 (rv_kernel s)"
  have ok1: "rv_ok c T (s\<lparr>rv_kernel := ?k\<rparr>)" by (rule rv_ok_wr [OF Cons.prems(1)])
  then obtain ns where inv: "sys_inv ?k T ns" by (auto simp: rv_ok_def)
  have no: "none_runnable ?k T" using Cons.prems(2) by (simp add: none_runnable_def reg_wr_def)
  from idle_schedule [OF sys_invD(1) [OF inv] no] obtain k' where k': "schedule_next ?k = Some (0, k')"
    "none_runnable k' T" "ticks k' = ticks ?k" "\<forall>a. map_option st (rd k' a) = map_option st (rd ?k a)" by blast
  let ?s2 = "s\<lparr>rv_kernel := k'\<rparr>"
  let ?s' = "rv_report_trap \<lparr>ev_cause = mcause ?s2, ev_epc = mepc ?s2, ev_current = k_current k', ev_next = 0, ev_after = False\<rparr> ?s2"
  from rv_trap_switch_run [OF Cons.prems(1), of tm] obtain nx s1 where r: "rv_trap_switch tm s = Some (nx, s1)" "rv_ok c T s1" by blast
  have run: "rv_trap_switch tm s = Some (0, ?s')"
    using k'(1) Cons.prems(3) by (simp add: rv_trap_switch_def Let_def)
  with r have ok': "rv_ok c T ?s'" by simp
  have "rd ?k a = rd (rv_kernel s) a" for a by (simp add: reg_wr_def rd_def)
  then have e: "\<forall>a. map_option st (rd (rv_kernel ?s') a) = map_option st (rd (rv_kernel s) a)" using k'(4) by simp
  have m': "mcause ?s' = MCAUSE_SOFT" "ticks (rv_kernel ?s') = ticks (rv_kernel s)" "none_runnable (rv_kernel ?s') T"
    using Cons.prems(3) k'(2,3) by (simp_all add: reg_wr_def)
  from Cons.IH [OF ok' m'(3,1)] obtain s'' where "rv_wait P cs ?s' = Some (False, s'')" "ticks (rv_kernel s'') = ticks (rv_kernel ?s')"
    "none_runnable (rv_kernel s'') T" "\<forall>a. map_option st (rd (rv_kernel s'') a) = map_option st (rd (rv_kernel ?s') a)" by blast
  then show ?case using run x e m'(2) by (intro exI [of _ s'']) (simp add: rv_pick_def)
qed

text \<open>Entered by the timer, every pass counts a tick and leaves the comparator where it is, so the
  interrupt that ends the next wait is already pending.\<close>

lemma timer_wait_races:
  assumes "rv_ok 0 T s" and "mcause s = MCAUSE_TIMER" and "quiet_port P"
    and "rv_pick P tm t0 tr t1 s = Some (False, s')"
  shows "ticks (rv_kernel s') = ticks (rv_kernel s) + 1" "comparator (rv_regs s') (rv_kernel s') = comparator (rv_regs s) (rv_kernel s)"
proof -
  have ne: "MCAUSE_TIMER \<noteq> MCAUSE_SOFT" by (simp add: MCAUSE_SOFT_def MCAUSE_TIMER_def)
  from quiet_port.rv_pick_run [OF assms(3,1), of tm t0 tr t1] assms(2,4) ne
  have r: "ticks (rv_kernel s') = ticks (rv_kernel s) + 1" "words (rv_kernel s') = words (rv_kernel s)" "rv_fixed s s'" by auto
  show "ticks (rv_kernel s') = ticks (rv_kernel s) + 1" by (rule r(1))
  show "comparator (rv_regs s') (rv_kernel s') = comparator (rv_regs s) (rv_kernel s)"
    using r(2,3) by (simp add: comparator_def reg_rd_def rv_fixed_def)
qed

section \<open>The first dispatch of a task\<close>

lemma rv_frame_list:
  "rv_frame_words entry p frame w =
     store_words frame ((replicate 32 0)[13 := p, 28 := entry, 29 := MSTATUS_TASK_ENTRY]) w"
proof -
  let ?z = "replicate 32 (0 :: u32)"
  have o: "OFF_A0 = of_nat (4 * 13)" "OFF_MEPC = of_nat (4 * 28)" "OFF_MSTATUS = of_nat (4 * 29)"
    by (simp_all add: OFF_A0_def OFF_MEPC_def OFF_MSTATUS_def)
  have "(store_words frame ?z w)(frame + of_nat (4 * 13) \<mapsto> p) = store_words frame (?z[13 := p]) w"
    by (rule store_words_upd) simp_all
  moreover have "(store_words frame (?z[13 := p]) w)(frame + of_nat (4 * 28) \<mapsto> entry)
      = store_words frame (?z[13 := p, 28 := entry]) w"
    by (rule store_words_upd) simp_all
  moreover have "(store_words frame (?z[13 := p, 28 := entry]) w)(frame + of_nat (4 * 29) \<mapsto> MSTATUS_TASK_ENTRY)
      = store_words frame (?z[13 := p, 28 := entry, 29 := MSTATUS_TASK_ENTRY]) w"
    by (rule store_words_upd) simp_all
  ultimately show ?thesis unfolding rv_frame_words_def o by (simp only: fun_upd_def)
qed

text \<open>A new task starts at the trampoline with its TCB in \<open>a0\<close>, interrupts on after \<open>mret\<close>, and the
  stack pointer at the aligned end of its own block.\<close>

lemma rv_first_dispatch:
  assumes t: "rd k p = Some t" and a: "alloc_block (max sz 256 + 16) 16 k = Some (Some b, k\<lparr>karena := a\<rparr>)"
    and c: "rv_create e p sz k = Some (Inr (), k1)" and rm: "unat b + unat sz + 512 \<le> 2 ^ 32"
    and s: "rv_kernel s = k1" "rd k1 p = Some t1" "rv_sp s = sp t1"
  shows "\<exists>s'. rv_restore s = Some s' \<and> rv_gprs s' = (replicate 28 0)[13 := p] \<and> mepc s' = e \<and> mstatus s' = MSTATUS_TASK_ENTRY
    \<and> unat (rv_sp s') mod 16 = 0 \<and> unat b + 128 \<le> unat (sp t1) \<and> unat (rv_sp s') = unat (sp t1) + 128
    \<and> unat (rv_sp s') \<le> unat b + unat (max sz 256 + 16)"
proof -
  let ?tp = "rv_top b sz" and ?vs = "(replicate 32 0)[13 := p, 28 := e, 29 := MSTATUS_TASK_ENTRY]"
  have p0: "p \<noteq> 0" using t rd_nonnull by blast
  from c rv_create_run [OF t a, of e] have k1: "k1 = put p (t\<lparr>stack_base := b, stack_size := max sz 256, sp := ?tp - 128, flags := 0\<rparr>)
      (k\<lparr>karena := a, words := rv_frame_words e p (?tp - 128) (words k)\<rparr>)" by simp
  have sp1: "sp t1 = ?tp - 128" using s(2) rd_put [OF p0] unfolding k1 by auto
  have w: "words k1 = store_words (?tp - 128) ?vs (words k)" unfolding k1 by (simp add: put_def rv_frame_list)
  have l: "load_words (rv_sp s) 30 (words (rv_kernel s)) = Some (take 30 ?vs)"
    unfolding s(1,3) sp1 w using load_slice [of ?vs 0 30 "?tp - 128" "words k"] by simp
  let ?s' = "s\<lparr>rv_gprs := take 28 (take 30 ?vs), mepc := take 30 ?vs ! 28, mstatus := take 30 ?vs ! 29, rv_sp := ?tp\<rparr>"
  have run: "rv_restore s = Some ?s'" using l s(3) sp1 by (simp add: rv_restore_def RV_FRAME_SIZE_def)
  have m: "unat (max sz 256) \<le> unat sz + 256" "256 \<le> unat (max sz 256)" by (simp_all add: max_def word_le_nat_alt)
  have r: "unat b + unat (max sz 256) + unat (16 :: u32) < 2 ^ 32" using rm m(1) by simp
  have z: "unat (max sz 256 + 16) = unat (max sz 256) + 16" using r by (subst unat_plus_small) simp_all
  have tp: "?tp = (b + (max sz 256 + 16)) AND NOT (16 - 1)" by (simp add: rv_top_def)
  note B = top_bounds [of 16 4, OF _ _ r, folded tp]
  have u: "unat (?tp - 128) = unat ?tp - 128" using B(1) m(2) by (subst unat_sub; simp add: word_le_nat_alt)
  have "rv_gprs ?s' = (replicate 28 0)[13 := p]" by (simp add: numeral_eq_Suc)
  moreover have "mepc ?s' = e" "mstatus ?s' = MSTATUS_TASK_ENTRY" by simp_all
  ultimately show ?thesis
    using run B m(2) u z sp1 by (intro exI [of _ ?s']) simp
qed

end
