(* ===== verification/RkArm.thy ===== *)
theory RkArm
  imports RkIrq RkQuery
begin

text \<open>
  The Arm A/R port (\<^verbatim>\<open>src/arch/arm_ar.rs\<close>): the GIC and the generic timer, critical sections on
  \<open>CPSR.I\<close> and \<open>CPSR.F\<close>, the interrupt entry with its 18-word frame, planning and task
  construction.

  Memory-mapped registers and stacks are \<open>words\<close>; the core's registers, the timer's system
  registers and the port's statics are the record \<open>arm\<close>.  What a hardware register answers is an
  argument of the functions that read it; so are the addresses of \<open>task_trampoline\<close> and of the
  vector table.
\<close>

unbundle bit_operations_syntax

section \<open>Layout and constants\<close>

definition ARM_FRAME_SIZE :: u32 where "ARM_FRAME_SIZE = 72"
definition OFF_PAD :: u32 where "OFF_PAD = 0"
definition OFF_R0 :: u32 where "OFF_R0 = 8"
definition OFF_LR :: u32 where "OFF_LR = 60"
definition OFF_PC :: u32 where "OFF_PC = 64"
definition OFF_CPSR :: u32 where "OFF_CPSR = 68"
definition CPSR_TASK_ENTRY :: u32 where "CPSR_TASK_ENTRY = 0x13"
definition CPSR_I :: u32 where "CPSR_I = push_bit 7 1"
definition CPSR_F :: u32 where "CPSR_F = push_bit 6 1"
definition GICD_CTLR :: u32 where "GICD_CTLR = 0x000"
definition GICD_IGROUPR0 :: u32 where "GICD_IGROUPR0 = 0x080"
definition GICD_ISENABLER0 :: u32 where "GICD_ISENABLER0 = 0x100"
definition GICD_IPRIORITYR :: u32 where "GICD_IPRIORITYR = 0x400"
definition GICC_CTLR :: u32 where "GICC_CTLR = 0x000"
definition GICC_PMR :: u32 where "GICC_PMR = 0x004"
definition GICC_IAR :: u32 where "GICC_IAR = 0x00C"
definition GICC_EOIR :: u32 where "GICC_EOIR = 0x010"
definition GIC_NO_ELIGIBLE :: u32 where "GIC_NO_ELIGIBLE = 0x3FE"
definition ARM_MIN_SLICE_CYCLES :: u64 where "ARM_MIN_SLICE_CYCLES = 100"
definition ARM_NOMINAL_HZ :: u32 where "ARM_NOMINAL_HZ = 62500000"

section \<open>The interrupt controller\<close>

record arm_config =
  gic_dist :: usize
  gic_cpu :: usize
  timer_irq :: u32
  physical_timer :: bool
  secure_fiq :: bool

definition qemu_virt :: arm_config where
  "qemu_virt = \<lparr>gic_dist = 0x08000000, gic_cpu = 0x08010000, timer_irq = 30, physical_timer = True, secure_fiq = False\<rparr>"

definition secure :: arm_config where
  "secure = qemu_virt\<lparr>secure_fiq := True\<rparr>"

definition gicd :: "arm_config \<Rightarrow> usize \<Rightarrow> ptr" where
  "gicd c offset = gic_dist c + offset"

definition gicc :: "arm_config \<Rightarrow> usize \<Rightarrow> ptr" where
  "gicc c offset = (let bank = if secure_fiq c then 0x1000 else 0x0000 in gic_cpu c + bank + offset)"

text \<open>A byte store, on a little-endian word.\<close>

definition byte_wr :: "u32 \<Rightarrow> u32 \<Rightarrow> kernel \<Rightarrow> kernel" where
  "byte_wr a v k =
     (let w = a AND NOT 3; n = 8 * unat (a AND 3)
      in reg_wr w (reg_rd w k AND NOT (push_bit n 0xFF) OR push_bit n (v AND 0xFF)) k)"

definition gic_enable_timer_irq :: "arm_config \<Rightarrow> u32 \<Rightarrow> kernel \<Rightarrow> kernel" where
  "gic_enable_timer_irq c irq k =
     (let wd = irq div 32; bt = push_bit (unat (irq mod 32)) 1; sec = secure_fiq c;
          group_bits = (if sec then 0 else bt OR 1);
          g = reg_rd (gicd c (GICD_IGROUPR0 + wd * 4)) k;
          k = reg_wr (gicd c (GICD_IGROUPR0 + wd * 4)) (g AND NOT (bt OR 1) OR group_bits) k;
          k = byte_wr (gicd c (GICD_IPRIORITYR + irq)) 0xA0 k;
          k = reg_wr (gicd c (GICD_ISENABLER0 + wd * 4)) (bt OR 1) k;
          k = reg_wr (gicc c GICC_PMR) 0xFF k;
          k = reg_wr (gicc c GICC_CTLR) 3 k
      in reg_wr (gicd c GICD_CTLR) 3 k)"

definition gic_eoi :: "arm_config \<Rightarrow> u32 \<Rightarrow> kernel \<Rightarrow> kernel" where
  "gic_eoi c irq k = reg_wr (gicc c GICC_EOIR) irq k"

definition arm_request_switch :: "arm_config \<Rightarrow> kernel \<Rightarrow> kernel" where
  "arm_request_switch c k = (let sgir = push_bit 24 1 in reg_wr (gicd c 0xF00) sgir k)"

section \<open>The machine state and the port's statics\<close>

text \<open>\<open>a_gprs\<close> is r0 to r12 and \<open>lr\<close>; \<open>lr_irq\<close> and \<open>spsr\<close> are what the exception banked.  The trace
  hook is code of the application: the calls are recorded.\<close>

record arm =
  a_gprs :: "u32 list"
  a_sp :: u32
  lr_irq :: u32
  spsr :: u32
  pc :: u32
  cpsr :: u32
  vbar :: u32
  cntp_tval :: u32
  cntp_ctl :: u32
  cntv_tval :: u32
  cntv_ctl :: u32
  a_config :: arm_config
  trace_hook :: u32
  a_trace :: "(u32 \<times> u32) list"
  a_kernel :: kernel

definition arm_configure :: "arm_config \<Rightarrow> arm \<Rightarrow> arm" where
  "arm_configure c s = s\<lparr>a_config := c\<rparr>"

definition set_trace_hook :: "u32 \<Rightarrow> arm \<Rightarrow> arm" where
  "set_trace_hook hook s = s\<lparr>trace_hook := hook\<rparr>"

definition trace :: "u32 \<Rightarrow> u32 \<Rightarrow> arm \<Rightarrow> arm" where
  "trace tag v s = (if trace_hook s \<noteq> 0 then s\<lparr>a_trace := a_trace s @ [(tag, v)]\<rparr> else s)"

definition ticks_since_expiry :: "u32 \<Rightarrow> u32" where
  "ticks_since_expiry tval = 0 - tval"

definition arm_rearm :: "arm \<Rightarrow> arm" where
  "arm_rearm s =
     (let slice = kc_slice_cycles (config (a_kernel s)) in
      if physical_timer (a_config s) then s\<lparr>cntp_tval := slice, cntp_ctl := 1\<rparr>
      else s\<lparr>cntv_tval := slice, cntv_ctl := 1\<rparr>)"

definition mask_irqs :: "u32 \<Rightarrow> u32 \<times> u32" where
  "mask_irqs c = (NOT c AND (CPSR_I OR CPSR_F), c OR (CPSR_I OR CPSR_F))"

definition unmask_irqs :: "u32 \<Rightarrow> u32 \<Rightarrow> u32" where
  "unmask_irqs token c =
     (let c = (if token AND CPSR_I \<noteq> 0 then c AND NOT CPSR_I else c)
      in if token AND CPSR_F \<noteq> 0 then c AND NOT CPSR_F else c)"

definition arm_critical_enter :: "arm \<Rightarrow> u32 \<times> arm" where
  "arm_critical_enter s =
     (let s = trace 1 (cpsr s) s; (token, c) = mask_irqs (cpsr s); s = s\<lparr>cpsr := c\<rparr>
      in (token, trace 2 token s))"

definition arm_critical_exit :: "u32 \<Rightarrow> arm \<Rightarrow> arm" where
  "arm_critical_exit token s =
     (let s = trace 3 token s; s = s\<lparr>cpsr := unmask_irqs token (cpsr s)\<rparr> in trace 4 (cpsr s) s)"

section \<open>The interrupt\<close>

text \<open>\<open>irq\<close> is what \<open>GICC_IAR\<close> answers and \<open>tval\<close> what \<open>CNTP_TVAL\<close> does.\<close>

definition rrkernel_irq_switch :: "u32 \<Rightarrow> u32 \<Rightarrow> arm \<Rightarrow> (ptr \<times> arm) option" where
  "rrkernel_irq_switch irq tval s = do {
     let s = trace 6 irq s;
     k \<leftarrow> on_tick (a_kernel s);
     let k = (if kc_measure (config k) \<noteq> MeasureOff then record_period_error (ticks_since_expiry tval) k else k);
     (next, k) \<leftarrow> schedule_next k;
     let k = (if irq < GIC_NO_ELIGIBLE then gic_eoi (a_config s) irq k else k);
     Some (next, s\<lparr>a_kernel := k\<rparr>)
   }"

definition arm_after_switch :: "port \<Rightarrow> u32 \<Rightarrow> arm \<Rightarrow> arm option" where
  "arm_after_switch P tval s = do {
     let measuring = (kc_measure (config (a_kernel s)) \<noteq> MeasureOff);
     let overshoot = (if measuring then ticks_since_expiry tval else 0);
     k \<leftarrow> reclaim_finished_tasks P (a_kernel s);
     let s = arm_rearm (s\<lparr>a_kernel := k\<rparr>);
     Some (if measuring then s\<lparr>a_kernel := record_latency overshoot (a_kernel s)\<rparr> else s)
   }"

text \<open>\<open>rrkernel_irq_entry\<close>: the return address and the mode word, the general registers, two words of
  padding; publish; then pick until there is a task to restore.\<close>

definition arm_save :: "arm \<Rightarrow> arm option" where
  "arm_save s = do {
     let ret = lr_irq s - 4;
     let sp0 = a_sp s - 64;
     let k = a_kernel s;
     let k = k\<lparr>words := store_words sp0 (a_gprs s @ [ret, spsr s]) (words k)\<rparr>;
     let sp0 = sp0 - 8;
     k \<leftarrow> (if k_current k = null_ptr then Some k else upd (\<lambda>t. t\<lparr>sp := sp0\<rparr>) (k_current k) k);
     Some (s\<lparr>a_sp := sp0, a_kernel := k\<rparr>)
   }"

definition arm_restore :: "arm \<Rightarrow> arm option" where
  "arm_restore s = do {
     let sp0 = a_sp s + 8;
     vs \<leftarrow> load_words sp0 16 (words (a_kernel s));
     Some (s\<lparr>a_gprs := take 14 vs, pc := vs ! 14, cpsr := vs ! 15, a_sp := sp0 + 64\<rparr>)
   }"

definition arm_pick :: "port \<Rightarrow> u32 \<Rightarrow> u32 \<Rightarrow> u32 \<Rightarrow> arm \<Rightarrow> (bool \<times> arm) option" where
  "arm_pick P irq tval1 tval2 s = do {
     (next, s) \<leftarrow> rrkernel_irq_switch irq tval1 s;
     if next = null_ptr then Some (False, s)
     else do {
       t \<leftarrow> rd (a_kernel s) next;
       s \<leftarrow> arm_after_switch P tval2 (s\<lparr>a_sp := sp t\<rparr>);
       s \<leftarrow> arm_restore s;
       Some (True, s)
     }
   }"

text \<open>Nothing runnable: wait for an interrupt and pick again.  One list element per pass: what the
  acknowledge register and the timer answer.\<close>

fun arm_wait :: "port \<Rightarrow> (u32 \<times> u32 \<times> u32) list \<Rightarrow> arm \<Rightarrow> (bool \<times> arm) option" where
  "arm_wait P [] s = Some (False, s)"
| "arm_wait P ((irq, v1, v2) # cs) s = do {
     (found, s) \<leftarrow> arm_pick P irq v1 v2 s;
     if found then Some (True, s) else arm_wait P cs s
   }"

definition rrkernel_irq_entry :: "port \<Rightarrow> (u32 \<times> u32 \<times> u32) list \<Rightarrow> arm \<Rightarrow> (bool \<times> arm) option" where
  "rrkernel_irq_entry P cs s = do { s \<leftarrow> arm_save s; arm_wait P cs s }"

section \<open>Planning\<close>

definition arm_cycles_to_ns_with :: "u32 \<Rightarrow> u32 \<Rightarrow> u64" where
  "arm_cycles_to_ns_with hz cycles =
     (if hz = 0 then 0 else ucast ((ucast cycles :: u128) * 1000000000 div (ucast hz :: u128)))"

definition arm_cycles_to_ns :: "u32 \<Rightarrow> kernel \<Rightarrow> u64" where
  "arm_cycles_to_ns cycles k =
     (let hz = kc_timer_hz (config k) in arm_cycles_to_ns_with (if hz = 0 then ARM_NOMINAL_HZ else hz) cycles)"

definition arm_platform_limits :: "kernel \<Rightarrow> platform_limits" where
  "arm_platform_limits k =
     (let hz = kc_timer_hz (config k); hz = (if hz = 0 then ARM_NOMINAL_HZ else hz)
      in \<lparr>min_slice_ns = arm_cycles_to_ns_with hz (ucast ARM_MIN_SLICE_CYCLES),
          max_slice_ns = Some (arm_cycles_to_ns_with hz 0xFFFFFFFF),
          limits_timer_hz = hz,
          timer_note = ''ARM generic timer (CNTP/CNTV) + GICv2, SRSDB/RFEIA switch''\<rparr>)"

text \<open>\<open>cntfrq\<close> is what the frequency register answers.\<close>

definition arm_plan_timer :: "u32 \<Rightarrow> scheduler_config \<Rightarrow> config_error + timer_plan" where
  "arm_plan_timer cntfrq cfg =
     (let hz = (if cfg_timer_hz cfg \<noteq> 0 then cfg_timer_hz cfg else cntfrq) in
      if hz = 0 then Inl TimerClockRequired
      else let cycles = (case cfg_slice cfg of Cycles c \<Rightarrow> ucast c | other \<Rightarrow> to_cycles other hz) in
        if cycles = 0 then Inl ZeroSlice
        else if cycles < ARM_MIN_SLICE_CYCLES
        then Inl (SliceBelowPlatformMinimum (arm_cycles_to_ns_with hz (ucast cycles))
               (arm_cycles_to_ns_with hz (ucast ARM_MIN_SLICE_CYCLES)))
        else if cycles > 0xFFFFFFFF
        then Inl (SliceAboveTimerRange (arm_cycles_to_ns_with hz 0xFFFFFFFF) (arm_cycles_to_ns_with hz 0xFFFFFFFF))
        else Inr \<lparr>plan_slice_ns = arm_cycles_to_ns_with hz (ucast cycles),
                  plan_slice_cycles = ucast cycles, plan_timer_hz = hz\<rparr>)"

text \<open>\<open>start_timer\<close> and \<open>retune_timer\<close>, in memory and with the system registers.\<close>

definition arm_start_words :: "arm_config \<Rightarrow> timer_plan \<Rightarrow> kernel \<Rightarrow> (config_error + unit) \<times> kernel" where
  "arm_start_words c plan k = (Inr (), gic_enable_timer_irq c (timer_irq c) k)"

definition arm_start_timer :: "u32 \<Rightarrow> timer_plan \<Rightarrow> arm \<Rightarrow> (config_error + unit) \<times> arm" where
  "arm_start_timer vectors plan s =
     (let s = s\<lparr>vbar := vectors\<rparr>;
          c = a_config s;
          s = s\<lparr>a_kernel := gic_enable_timer_irq c (timer_irq c) (a_kernel s)\<rparr>;
          s = arm_rearm s;
          s = s\<lparr>cpsr := cpsr s AND NOT CPSR_I\<rparr>
      in (Inr (), trace 5 (cpsr s) s))"

definition arm_retune_words :: "timer_plan \<Rightarrow> kernel \<Rightarrow> (config_error + unit) \<times> kernel" where
  "arm_retune_words plan k = (Inr (), k)"

definition arm_retune_timer :: "timer_plan \<Rightarrow> arm \<Rightarrow> (config_error + unit) \<times> arm" where
  "arm_retune_timer plan s = (Inr (), arm_rearm s)"

section \<open>Construction of a task\<close>

definition arm_adopt :: "ptr \<Rightarrow> kernel \<Rightarrow> ((config_error + unit) \<times> kernel) option" where
  "arm_adopt p k = do {
     k \<leftarrow> upd (\<lambda>t. t\<lparr>sp := null_ptr, stack_base := null_ptr, stack_size := 0, flags := 0\<rparr>) p k;
     Some (Inr (), k)
   }"

definition arm_frame_words :: "u32 \<Rightarrow> ptr \<Rightarrow> ptr \<Rightarrow> (ptr \<rightharpoonup> u32) \<Rightarrow> (ptr \<rightharpoonup> u32)" where
  "arm_frame_words entry p frame w =
     (store_words frame (replicate 18 0) w)
       (frame + OFF_R0 \<mapsto> p, frame + OFF_PC \<mapsto> entry, frame + OFF_CPSR \<mapsto> CPSR_TASK_ENTRY OR push_bit 5 (entry AND 1))"

definition arm_create :: "u32 \<Rightarrow> ptr \<Rightarrow> usize \<Rightarrow> kernel \<Rightarrow> ((spawn_error + unit) \<times> kernel) option" where
  "arm_create entry p stack_sz k = do {
     let sz = max stack_sz 256 + 8;
     (r, k) \<leftarrow> alloc_block sz 8 k;
     (case r of
        None \<Rightarrow> Some (Inl ArenaExhausted, k)
      | Some block \<Rightarrow> do {
          k \<leftarrow> upd (\<lambda>t. t\<lparr>stack_base := block, stack_size := sz - 8\<rparr>) p k;
          let top = (block + sz) AND NOT 7;
          let frame = top - ARM_FRAME_SIZE;
          let k = k\<lparr>words := arm_frame_words entry p frame (words k)\<rparr>;
          k \<leftarrow> upd (\<lambda>t. t\<lparr>sp := frame, flags := 0\<rparr>) p k;
          Some (Inr (), k)
        })
   }"

definition arm_is_pinned :: "ptr \<Rightarrow> bool" where
  "arm_is_pinned p = False"

definition arm_on_task_reclaimed :: "ptr \<Rightarrow> kernel \<Rightarrow> kernel option" where
  "arm_on_task_reclaimed p k = Some k"

definition arm_port :: "u32 \<Rightarrow> ptr \<Rightarrow> arm_config \<Rightarrow> u32 \<Rightarrow> port" where
  "arm_port entry default_arena c cntfrq =
     \<lparr>port_plan = arm_plan_timer cntfrq, port_limits = arm_platform_limits, port_ns = arm_cycles_to_ns,
      port_adopt = arm_adopt, port_start = arm_start_words c, port_retune = arm_retune_words,
      port_create = arm_create entry, port_pinned = arm_is_pinned,
      port_reclaimed = arm_on_task_reclaimed, port_default_arena = default_arena\<rparr>"

section \<open>The port keeps its contract\<close>

definition arm_top :: "ptr \<Rightarrow> usize \<Rightarrow> ptr" where
  "arm_top block stack_sz = (block + (max stack_sz 256 + 8)) AND NOT 7"

lemma arm_create_run:
  assumes t: "rd k p = Some t" and a: "alloc_block (max sz 256 + 8) 8 k = Some (Some b, k\<lparr>karena := a\<rparr>)"
  shows "arm_create e p sz k = Some (Inr (), put p (t\<lparr>stack_base := b, stack_size := max sz 256,
      sp := arm_top b sz - 72, flags := 0\<rparr>) (k\<lparr>karena := a, words := arm_frame_words e p (arm_top b sz - 72) (words k)\<rparr>))"
proof -
  have p0: "p \<noteq> 0" using t rd_nonnull by blast
  let ?k = "k\<lparr>karena := a\<rparr>"
  let ?t = "t\<lparr>stack_base := b, stack_size := max sz 256\<rparr>"
  have t': "rd ?k p = Some t" using t by (simp add: rd_def)
  have u: "upd (\<lambda>t. t\<lparr>stack_base := b, stack_size := max sz 256\<rparr>) p ?k = Some (put p ?t ?k)"
    by (rule upd_put [OF t'])
  let ?w = "arm_frame_words e p (arm_top b sz - 72) (words k)"
  have t2: "rd ((put p ?t ?k)\<lparr>words := w\<rparr>) p = Some ?t" for w using p0 by (simp add: put_def rd_def)
  have w: "words (put p ?t ?k) = words k" by (simp add: put_def)
  have u2: "upd (\<lambda>t. t\<lparr>sp := v, flags := 0\<rparr>) p ((put p ?t ?k)\<lparr>words := w\<rparr>)
      = Some (put p (?t\<lparr>sp := v, flags := 0\<rparr>) ((put p ?t ?k)\<lparr>words := w\<rparr>))" for v w
    by (rule upd_put [OF t2])
  have "arm_create e p sz k
      = Some (Inr (), put p (?t\<lparr>sp := arm_top b sz - 72, flags := 0\<rparr>) ((put p ?t ?k)\<lparr>words := ?w\<rparr>))"
    unfolding arm_create_def Let_def a by (simp add: u u2 w arm_top_def ARM_FRAME_SIZE_def del: upd_SomeD)
  then show ?thesis by (simp add: put_def)
qed

lemma arm_create_ok:
  assumes ok: "mem_ok k" and t: "rd k p = Some t" and st: "stack_base t = 0" and rm: "roomy k sz"
  shows "\<exists>r k'. arm_create e p sz k = Some (r, k') \<and> mem_ok k' \<and> created p k k' \<and> (\<forall>e. r = Inl e \<longrightarrow> no_stack p k k')"
proof (rule create_contract [OF ok t st])
  have "unat (256 :: usize) + unat (8 :: usize) \<le> 16000" "unat (8 :: usize) \<noteq> 0" by simp_all
  note s = stack_space [OF rm this]
  show "space_for k (max sz 256 + 8)" "max sz 256 + 8 \<noteq> 0" by (rule s(2), rule s(3))
  show "pow2 8 3" "unat (8 :: usize) \<le> 32" by (simp_all add: pow2_def)
  show "arm_create e p sz k = Some (Inl ArenaExhausted, k)" if "alloc_block (max sz 256 + 8) 8 k = Some (None, k)"
    using that by (simp add: arm_create_def Let_def)
  show "\<exists>t' w. arm_create e p sz k = Some (Inr (), put p t' (k\<lparr>karena := a, words := w\<rparr>)) \<and> stack_base t' = b
      \<and> stackless t' = stackless t"
    if "alloc_block (max sz 256 + 8) 8 k = Some (Some b, k\<lparr>karena := a\<rparr>)" for b a
    unfolding arm_create_run [OF t that] by (intro exI conjI, rule refl) (simp_all add: stackless_def)
qed

lemma arm_adopt_ok:
  assumes ok: "mem_ok k" and t: "rd k p = Some t" and st: "stack_base t = 0"
  shows "\<exists>r k'. arm_adopt p k = Some (r, k') \<and> mem_ok k' \<and> created p k k'"
proof (rule adopt_contract [OF ok t st])
  show "arm_adopt p k = Some (Inr (), put p (t\<lparr>sp := null_ptr, stack_base := null_ptr, stack_size := 0, flags := 0\<rparr>) k)"
    using t by (simp add: arm_adopt_def upd_put)
qed (simp_all add: stackless_def)

interpretation arm: quiet_port "arm_port entry default_arena c cntfrq"
proof
  show "port_reclaimed (arm_port entry default_arena c cntfrq) p k = Some k" for p k
    by (simp add: arm_port_def arm_on_task_reclaimed_def)
  show "\<exists>w t'. port_reclaimed (arm_port entry default_arena c cntfrq) p k = Some ((put p t' k)\<lparr>words := w\<rparr>) \<and> blocks_of t' = blocks_of t"
    if "rd k p = Some t" for p k t
    using quiet_hook [OF that] by (simp add: arm_port_def arm_on_task_reclaimed_def)
  show "\<exists>e k'. port_create (arm_port entry default_arena c cntfrq) p sz k = Some (e, k') \<and> mem_ok k'
      \<and> created p k k' \<and> (\<forall>x. e = Inl x \<longrightarrow> no_stack p k k')"
    if "mem_ok k" "rd k p = Some t" "stack_base t = 0" "roomy k sz" for k p t sz
    using arm_create_ok [OF that] by (simp add: arm_port_def)
  show "\<exists>e k'. port_adopt (arm_port entry default_arena c cntfrq) p k = Some (e, k') \<and> mem_ok k' \<and> created p k k'"
    if "mem_ok k" "rd k p = Some t" "stack_base t = 0" for k p t
    using arm_adopt_ok [OF that] by (simp add: arm_port_def)
qed

lemma irq_bits: "CPSR_I = 2 ^ 7" "CPSR_F = 2 ^ 6"
  by (simp_all add: CPSR_I_def CPSR_F_def)

text \<open>Two bits set, and cleared again where they were clear.\<close>

lemma two_bits:
  fixes c A B :: u32
  assumes A: "\<And>n. bit A n \<longleftrightarrow> n = i" and B: "\<And>n. bit B n \<longleftrightarrow> n = j" and ij: "i < 32" "j < 32"
  defines "t \<equiv> NOT c AND (A OR B)" and "c1 \<equiv> c OR (A OR B)"
  shows "(let c2 = (if t AND A \<noteq> 0 then c1 AND NOT A else c1) in if t AND B \<noteq> 0 then c2 AND NOT B else c2) = c"
proof -
  have z: "x = 0 \<longleftrightarrow> (\<forall>n<32. \<not> bit x n)" for x :: u32
    by (auto intro!: bit_word_eqI)
  have tA: "t AND A \<noteq> 0 \<longleftrightarrow> \<not> bit c i" "t AND B \<noteq> 0 \<longleftrightarrow> \<not> bit c j"
    unfolding z t_def using A B ij by (auto simp: bit_and_iff bit_or_iff bit_not_iff)
  show ?thesis
    unfolding tA c1_def Let_def
    by (rule bit_word_eqI) (auto simp: A B bit_and_iff bit_or_iff bit_not_iff)
qed

interpretation arm_critical: critical mask_irqs "\<lambda>t c. unmask_irqs t c" "\<lambda>c. bit c 7 \<and> bit c 6" "\<lambda>c. True"
proof
  have b: "bit CPSR_I n \<longleftrightarrow> n = 7" "bit CPSR_F n \<longleftrightarrow> n = 6" for n
    unfolding irq_bits bit_pow by auto
  show "(bit (snd (mask_irqs c)) 7 \<and> bit (snd (mask_irqs c)) 6) \<and> True" for c
    by (simp add: mask_irqs_def bit_or_iff b)
  show "unmask_irqs (fst (mask_irqs c)) (snd (mask_irqs c)) = c" for c
    using two_bits [OF b, of c] by (simp add: mask_irqs_def unmask_irqs_def)
qed

text \<open>The masking of the code is \<open>mask_irqs\<close> on the mode word, traced before and after.\<close>

lemma arm_critical_same:
  "fst (arm_critical_enter s) = fst (mask_irqs (cpsr s))" "cpsr (snd (arm_critical_enter s)) = snd (mask_irqs (cpsr s))"
  "cpsr (arm_critical_exit token s) = unmask_irqs token (cpsr s)" "a_kernel (snd (arm_critical_enter s)) = a_kernel s"
  "a_kernel (arm_critical_exit token s) = a_kernel s"
  by (simp_all add: arm_critical_enter_def arm_critical_exit_def trace_def Let_def split: prod.splits)

section \<open>Planning and start\<close>

lemma arm_plan_ok:
  assumes "arm_plan_timer cntfrq cfg = Inr plan"
  defines "hz \<equiv> if cfg_timer_hz cfg \<noteq> 0 then cfg_timer_hz cfg else cntfrq"
  shows "100 \<le> unat (plan_slice_cycles plan)" "plan_timer_hz plan = hz" "hz \<noteq> 0"
    "unat (plan_slice_cycles plan) = unat (case cfg_slice cfg of Cycles c \<Rightarrow> ucast c | other \<Rightarrow> to_cycles other hz)"
proof -
  let ?c = "case cfg_slice cfg of Cycles c \<Rightarrow> ucast c | other \<Rightarrow> to_cycles other hz"
  have c: "\<not> ?c < 100" "\<not> ?c > 0xFFFFFFFF" "hz \<noteq> 0"
    "plan = \<lparr>plan_slice_ns = arm_cycles_to_ns_with hz (ucast ?c), plan_slice_cycles = ucast ?c, plan_timer_hz = hz\<rparr>"
    using assms(1) unfolding arm_plan_timer_def Let_def ARM_MIN_SLICE_CYCLES_def hz_def [symmetric]
    by (simp_all only: split: if_splits) simp_all
  have b: "100 \<le> unat ?c" "unat ?c < 2 ^ 32"
    using c(1,2) by (simp_all add: not_less word_le_nat_alt)
  have p: "plan_slice_cycles plan = ucast ?c" "plan_timer_hz plan = hz"
    by (subst c(4), simp)+
  show u: "unat (plan_slice_cycles plan) = unat ?c" unfolding p(1) unat_ucast_mod using b(2) by simp
  show "100 \<le> unat (plan_slice_cycles plan)" unfolding u by (rule b(1))
  show "plan_timer_hz plan = hz" by (rule p(2))
  show "hz \<noteq> 0" by (rule c(3))
qed

lemma trace_same [simp]:
  "a_kernel (trace i v s) = a_kernel s" "a_config (trace i v s) = a_config s" "a_gprs (trace i v s) = a_gprs s"
  "a_sp (trace i v s) = a_sp s" "cpsr (trace i v s) = cpsr s" "cntp_tval (trace i v s) = cntp_tval s"
  "cntp_ctl (trace i v s) = cntp_ctl s" "cntv_tval (trace i v s) = cntv_tval s" "cntv_ctl (trace i v s) = cntv_ctl s"
  "trace_hook (trace i v s) = trace_hook s"
  by (simp_all add: trace_def)

lemma arm_start_same:
  "a_kernel (snd (arm_start_timer v plan s)) = snd (arm_start_words (a_config s) plan (a_kernel s))"
  "fst (arm_start_timer v plan s) = fst (arm_start_words (a_config s) plan (a_kernel s))"
  "a_kernel (snd (arm_retune_timer plan s)) = snd (arm_retune_words plan (a_kernel s))"
  by (simp_all add: arm_start_timer_def arm_start_words_def arm_retune_timer_def arm_retune_words_def arm_rearm_def Let_def)

text \<open>Both the timer's interrupt and software interrupt 0 are enabled.\<close>

lemma sources_enabled:
  assumes "timer_irq c = 30" and "unat (gic_dist c) + 0x10000 \<le> unat (gic_cpu c)" and "unat (gic_cpu c) + 0x2000 < 2 ^ 32"
  shows "words (snd (arm_start_words c plan k)) (gicd c GICD_ISENABLER0) = Some (push_bit 30 1 OR 1)"
proof -
  have d: "gicd c GICD_ISENABLER0 = gic_dist c + 0x100" by (simp add: gicd_def GICD_ISENABLER0_def)
  have u: "unat (gic_dist c + 0x100) = unat (gic_dist c) + 0x100"
    using assms(2,3) by (subst unat_plus_small) simp_all
  have g: "unat (gic_cpu c + x) = unat (gic_cpu c) + unat x" if "unat x < 0x2000" for x
    using assms(3) that by (subst unat_plus_small) simp_all
  have ne: "gic_cpu c + x \<noteq> gic_dist c + 0x100" if "unat x < 0x2000" for x
  proof
    assume "gic_cpu c + x = gic_dist c + 0x100"
    then have "unat (gic_cpu c + x) = unat (gic_dist c + 0x100)" by simp
    then show False using g [OF that] u assms(2) by linarith
  qed
  have z: "gic_dist c \<noteq> gic_dist c + 0x100" by simp
  have b: "(if secure_fiq c then 0x1000 else 0) = (0x1000 :: u32) \<or> (if secure_fiq c then 0x1000 else 0) = (0 :: u32)" by simp
  have f: "gicc c GICC_PMR \<noteq> gic_dist c + 0x100" "gicc c GICC_CTLR \<noteq> gic_dist c + 0x100"
    using b ne [of "0x1004"] ne [of "0x1000"] ne [of "4"] ne [of "0"]
    by (auto simp: gicc_def GICC_PMR_def GICC_CTLR_def Let_def add.assoc split: if_splits)
  have "(30 :: u32) div 32 = 0" "(30 :: u32) mod 32 = 30" by (simp_all add: word_div_def word_mod_def)
  then show ?thesis
    using f z unfolding d arm_start_words_def gic_enable_timer_irq_def assms(1)
    by (simp add: reg_wr_def gicd_def GICD_CTLR_def GICD_ISENABLER0_def Let_def)
qed

section \<open>The interrupt\<close>

definition arm_ok :: "ptr \<Rightarrow> ntree \<Rightarrow> arm \<Rightarrow> bool" where
  "arm_ok c T s = ((\<exists>ns. sys_inv (a_kernel s) T ns) \<and> framed_but c 8 16 T (a_kernel s) \<and> length (a_gprs s) = 14)"

lemma arm_ok_kept:
  assumes "arm_ok c T s" and "sys_inv k T ns" and "kept T (a_kernel s) k"
  shows "arm_ok c T (s\<lparr>a_kernel := k\<rparr>)"
  using assms framed_kept by (auto simp: arm_ok_def)

lemma arm_ok_wr:
  assumes ok: "arm_ok c T s"
  shows "arm_ok c T (s\<lparr>a_kernel := reg_wr a v (a_kernel s)\<rparr>)"
proof -
  have "framed_but c 8 16 T (reg_wr a v (a_kernel s))"
    using framed_more [of c 8 16 T "a_kernel s" "words (reg_wr a v (a_kernel s))"] ok reg_wr_more
    by (simp add: arm_ok_def reg_wr_def)
  moreover from ok obtain ns where "sys_inv (a_kernel s) T ns" by (auto simp: arm_ok_def)
  then have "sys_inv (reg_wr a v (a_kernel s)) T ns" by (rule reg_wr_step)
  ultimately show ?thesis using ok by (auto simp: arm_ok_def)
qed

text \<open>The timer's registers and the configuration.\<close>

definition timers :: "arm \<Rightarrow> u32 \<times> u32 \<times> u32 \<times> u32 \<times> arm_config" where
  "timers s = (cntp_tval s, cntp_ctl s, cntv_tval s, cntv_ctl s, a_config s)"

text \<open>Every interrupt counts a tick, whatever the acknowledge register answers.\<close>

lemma irq_switch_run:
  assumes ok: "arm_ok c T s"
  shows "\<exists>nx s'. rrkernel_irq_switch irq v s = Some (nx, s') \<and> arm_ok c T s' \<and> timers s' = timers s
    \<and> ticks (a_kernel s') = ticks (a_kernel s) + 1 \<and> config (a_kernel s') = config (a_kernel s)
    \<and> (nx \<noteq> 0 \<longrightarrow> LeafN nx \<in> set (subs T) \<and> current_tcb (a_kernel s') = nx)"
proof -
  let ?s0 = "trace 6 irq s"
  have ok0: "arm_ok c T ?s0" using ok by (simp add: arm_ok_def)
  from ok obtain ns where inv: "sys_inv (a_kernel s) T ns" by (auto simp: arm_ok_def)
  from tick_run [OF inv] obtain k where k: "on_tick (a_kernel s) = Some k" "sys_inv k T ns" "kept T (a_kernel s) k"
    "ticks k = ticks (a_kernel s) + 1" by blast
  let ?k1 = "if kc_measure (config k) \<noteq> MeasureOff then record_period_error (ticks_since_expiry v) k else k"
  have k1: "sys_inv ?k1 T ns" "kept T k ?k1" using k(2) record_step(3,4) [OF k(2)] by auto
  have t1: "ticks ?k1 = ticks k" "config ?k1 = config k" by (simp_all add: record_period_error_def Let_def)
  from switch_run [OF k1(1)] obtain nx k2 where k2: "schedule_next ?k1 = Some (nx, k2)" "sys_inv k2 T ns" "kept T ?k1 k2"
    "ticks k2 = ticks ?k1" "nx \<noteq> 0 \<longrightarrow> LeafN nx \<in> set (subs T) \<and> current_tcb k2 = nx" by blast
  let ?s2 = "?s0\<lparr>a_kernel := k2\<rparr>"
  have ok2: "arm_ok c T ?s2"
    by (rule arm_ok_kept [OF ok0 k2(2)]) (use kept_trans [OF k(3) kept_trans [OF k1(2) k2(3)]] in simp)
  let ?k3 = "if irq < GIC_NO_ELIGIBLE then gic_eoi (a_config s) irq k2 else k2"
  have "rrkernel_irq_switch irq v s = Some (nx, ?s0\<lparr>a_kernel := ?k3\<rparr>)"
    using k(1) k2(1) by (simp add: rrkernel_irq_switch_def Let_def)
  moreover have "arm_ok c T (?s0\<lparr>a_kernel := ?k3\<rparr>)"
    using ok2 arm_ok_wr [OF ok2, of "gicc (a_config s) GICC_EOIR" irq] by (simp add: gic_eoi_def)
  moreover have "config k2 = config (a_kernel s)" using k(3) k2(3) t1 by (simp add: kept_def)
  ultimately show ?thesis
    using k(4) k2(4,5) t1
    by (intro exI [of _ nx] exI [of _ "?s0\<lparr>a_kernel := ?k3\<rparr>"]) (simp add: timers_def gic_eoi_def reg_wr_def)
qed

text \<open>The countdown of whichever timer is in use.\<close>

definition countdown :: "arm \<Rightarrow> u32 \<times> u32" where
  "countdown s = (if physical_timer (a_config s) then (cntp_tval s, cntp_ctl s) else (cntv_tval s, cntv_ctl s))"

text \<open>The task the kernel calls current runs from its own frame, with a full slice on the countdown.\<close>

definition arm_resumed :: "ntree \<Rightarrow> arm \<Rightarrow> bool" where
  "arm_resumed T s = (\<exists>t. LeafN (current_tcb (a_kernel s)) \<in> set (subs T) \<and> rd (a_kernel s) (current_tcb (a_kernel s)) = Some t
     \<and> load_words (sp t + 8) 16 (words (a_kernel s)) = Some (a_gprs s @ [pc s, cpsr s])
     \<and> a_sp s = sp t + ARM_FRAME_SIZE \<and> countdown s = (kc_slice_cycles (config (a_kernel s)), 1))"

context quiet_port
begin

lemma arm_after_run:
  assumes ok: "arm_ok c T s"
  shows "\<exists>s'. arm_after_switch P v s = Some s' \<and> arm_ok c T s' \<and> a_sp s' = a_sp s
    \<and> ticks (a_kernel s') = ticks (a_kernel s) \<and> current_tcb (a_kernel s') = current_tcb (a_kernel s)
    \<and> config (a_kernel s') = config (a_kernel s)
    \<and> (\<forall>a\<in>set (addrs T). map_option sp (rd (a_kernel s') a) = map_option sp (rd (a_kernel s) a))
    \<and> countdown s' = (kc_slice_cycles (config (a_kernel s)), 1)"
proof -
  from ok obtain ns where "sys_inv (a_kernel s) T ns" by (auto simp: arm_ok_def)
  from reclaim_run [OF this] obtain k ns' where k: "reclaim_finished_tasks P (a_kernel s) = Some k" "sys_inv k T ns'"
    "kept T (a_kernel s) k" "ticks k = ticks (a_kernel s)" "current_tcb k = current_tcb (a_kernel s)" by blast
  let ?s1 = "s\<lparr>a_kernel := k\<rparr>"
  have ok1: "arm_ok c T ?s1" by (rule arm_ok_kept [OF ok k(2,3)])
  let ?s2 = "arm_rearm ?s1"
  have same: "a_kernel ?s2 = k" "a_sp ?s2 = a_sp s" "a_gprs ?s2 = a_gprs s" by (simp_all add: arm_rearm_def Let_def)
  have c1: "config k = config (a_kernel s)" using k(3) by (simp add: kept_def)
  have cd: "countdown ?s2 = (kc_slice_cycles (config (a_kernel s)), 1)" by (simp add: countdown_def arm_rearm_def c1 Let_def)
  have ok2: "arm_ok c T ?s2" using ok1 same by (simp add: arm_ok_def)
  let ?m = "kc_measure (config (a_kernel s)) \<noteq> MeasureOff"
  let ?v = "if ?m then ticks_since_expiry v else 0"
  let ?s' = "if ?m then ?s2\<lparr>a_kernel := record_latency ?v (a_kernel ?s2)\<rparr> else ?s2"
  have run: "arm_after_switch P v s = Some ?s'"
    unfolding arm_after_switch_def Let_def using k(1) by simp
  have m: "sys_inv (a_kernel ?s2) T ns'" using k(2) same by simp
  have "arm_ok c T ?s'" using ok2 arm_ok_kept [OF ok2 record_step(1,2) [OF m]] by simp
  moreover have l: "ticks (record_latency v q) = ticks q" "config (record_latency v q) = config q"
    "current_tcb (record_latency v q) = current_tcb q" "rd (record_latency v q) a = rd q a" for v q a
    by (simp_all add: record_latency_def Let_def rd_def)
  moreover have "countdown ?s' = countdown ?s2" by (simp add: countdown_def)
  moreover have "\<forall>a\<in>set (addrs T). map_option sp (rd (a_kernel ?s') a) = map_option sp (rd (a_kernel s) a)"
    using l(4) k(3) same by (simp add: kept_def)
  ultimately show ?thesis using run k(4,5) c1 cd same by (intro exI [of _ ?s']) simp
qed

lemma arm_restore_run:
  assumes ok: "arm_ok c T s" and l: "load_words (a_sp s + 8) 16 (words (a_kernel s)) = Some vs"
  shows "arm_restore s = Some (s\<lparr>a_gprs := take 14 vs, pc := vs ! 14, cpsr := vs ! 15, a_sp := a_sp s + 8 + 64\<rparr>)"
    "arm_ok c T (s\<lparr>a_gprs := take 14 vs, pc := vs ! 14, cpsr := vs ! 15, a_sp := a_sp s + 8 + 64\<rparr>)"
    "vs = take 14 vs @ [vs ! 14, vs ! 15]"
proof -
  have n: "length vs = 16" using l by (rule load_length)
  show "arm_restore s = Some (s\<lparr>a_gprs := take 14 vs, pc := vs ! 14, cpsr := vs ! 15, a_sp := a_sp s + 8 + 64\<rparr>)"
    using l by (simp add: arm_restore_def)
  show "arm_ok c T (s\<lparr>a_gprs := take 14 vs, pc := vs ! 14, cpsr := vs ! 15, a_sp := a_sp s + 8 + 64\<rparr>)"
    using ok n by (simp add: arm_ok_def)
  show "vs = take 14 vs @ [vs ! 14, vs ! 15]"
    using n by (intro nth_equalityI) (auto simp: nth_append less_Suc_eq numeral_eq_Suc)
qed

lemma arm_pick_run:
  assumes ok: "arm_ok 0 T s"
  shows "\<exists>b s'. arm_pick P irq v1 v2 s = Some (b, s') \<and> arm_ok 0 T s' \<and> ticks (a_kernel s') = ticks (a_kernel s) + 1
    \<and> (if b then arm_resumed T s' else timers s' = timers s)"
proof -
  from irq_switch_run [OF ok, of irq v1] obtain nx s1 where s1: "rrkernel_irq_switch irq v1 s = Some (nx, s1)" "arm_ok 0 T s1"
    "timers s1 = timers s" "ticks (a_kernel s1) = ticks (a_kernel s) + 1"
    "nx \<noteq> 0 \<longrightarrow> LeafN nx \<in> set (subs T) \<and> current_tcb (a_kernel s1) = nx" by blast
  show ?thesis
  proof (cases "nx = 0")
    case True
    then have "arm_pick P irq v1 v2 s = Some (False, s1)" using s1(1) by (simp add: arm_pick_def)
    with s1 show ?thesis by (intro exI [of _ False] exI [of _ s1]) simp
  next
    case False
    with s1(5) have n: "LeafN nx \<in> set (subs T)" "current_tcb (a_kernel s1) = nx" by simp_all
    with s1(2) False obtain t where t: "rd (a_kernel s1) nx = Some t" by (auto simp: arm_ok_def framed_but_def)
    let ?s2 = "s1\<lparr>a_sp := sp t\<rparr>"
    have ok2: "arm_ok 0 T ?s2" using s1(2) by (simp add: arm_ok_def)
    from arm_after_run [OF ok2, of v2] obtain s3 where s3: "arm_after_switch P v2 ?s2 = Some s3" "arm_ok 0 T s3"
      "a_sp s3 = sp t" "ticks (a_kernel s3) = ticks (a_kernel s1)" "current_tcb (a_kernel s3) = nx"
      "config (a_kernel s3) = config (a_kernel s1)"
      "\<forall>a\<in>set (addrs T). map_option sp (rd (a_kernel s3) a) = map_option sp (rd (a_kernel s1) a)"
      "countdown s3 = (kc_slice_cycles (config (a_kernel s1)), 1)"
      using n(2) by auto
    have "nx \<in> set (addrs T)" using subs_addr [OF n(1)] by simp
    with s3(7) t have "map_option sp (rd (a_kernel s3) nx) = Some (sp t)" by simp
    then obtain u where u: "rd (a_kernel s3) nx = Some u" "sp u = sp t" by auto
    from s3(2) n(1) False u obtain vs where vs: "load_words (sp t + 8) 16 (words (a_kernel s3)) = Some vs"
      by (auto simp: arm_ok_def framed_but_def)
    note r = arm_restore_run [OF s3(2), unfolded s3(3), OF vs]
    let ?s' = "s3\<lparr>a_gprs := take 14 vs, pc := vs ! 14, cpsr := vs ! 15, a_sp := sp t + 8 + 64\<rparr>"
    have run: "arm_pick P irq v1 v2 s = Some (True, ?s')"
      using s1(1) False t s3(1) r(1) by (simp add: arm_pick_def)
    have g: "load_words (sp u + 8) 16 (words (a_kernel ?s')) = Some (a_gprs ?s' @ [pc ?s', cpsr ?s'])"
      using vs r(3) u(2) by simp
    have "countdown ?s' = countdown s3" by (simp add: countdown_def)
    then have "arm_resumed T ?s'"
      unfolding arm_resumed_def using n(1) s3(5,6,8) u g by (intro exI [of _ u]) (simp add: ARM_FRAME_SIZE_def)
    with run r(2) s3(4) s1(4) show ?thesis
      by (intro exI [of _ True] exI [of _ ?s']) simp
  qed
qed

lemma arm_wait_run:
  "arm_ok 0 T s \<Longrightarrow> \<exists>b s'. arm_wait P cs s = Some (b, s') \<and> arm_ok 0 T s' \<and> (b \<longrightarrow> arm_resumed T s')"
proof (induction cs arbitrary: s)
  case Nil
  then show ?case by (intro exI [of _ False] exI [of _ s]) simp
next
  case (Cons x cs)
  obtain irq v1 v2 where x: "x = (irq, v1, v2)" by (metis prod_cases3)
  from arm_pick_run [OF Cons.prems, of irq v1 v2] obtain b s1 where
    s1: "arm_pick P irq v1 v2 s = Some (b, s1)" "arm_ok 0 T s1" "b \<longrightarrow> arm_resumed T s1" by metis
  show ?case
  proof (cases b)
    case True
    with s1 x show ?thesis by (intro exI [of _ True] exI [of _ s1]) simp
  next
    case False
    from Cons.IH [OF s1(2)] show ?thesis using s1(1) x False by simp
  qed
qed

end

lemma arm_save_run:
  assumes ok: "arm_ok (current_tcb (a_kernel s)) T s"
  shows "\<exists>s'. arm_save s = Some s' \<and> arm_ok 0 T s' \<and> timers s' = timers s \<and> ticks (a_kernel s') = ticks (a_kernel s)
    \<and> current_tcb (a_kernel s') = current_tcb (a_kernel s) \<and> a_sp s' = a_sp s - ARM_FRAME_SIZE
    \<and> load_words (a_sp s' + 8) 16 (words (a_kernel s')) = Some (a_gprs s @ [lr_irq s - 4, spsr s])
    \<and> (\<forall>t. rd (a_kernel s') (current_tcb (a_kernel s)) = Some t \<longrightarrow> sp t = a_sp s')"
proof -
  let ?c = "current_tcb (a_kernel s)" and ?sp = "a_sp s - 64 - 8" and ?vs = "a_gprs s @ [lr_irq s - 4, spsr s]"
  let ?w = "store_words (a_sp s - 64) ?vs (words (a_kernel s))"
  let ?k = "(a_kernel s)\<lparr>words := ?w\<rparr>"
  from ok obtain ns where inv: "sys_inv (a_kernel s) T ns" and f: "framed_but ?c 8 16 T (a_kernel s)" and n: "length (a_gprs s) = 14"
    by (auto simp: arm_ok_def)
  have i1: "sys_inv ?k T ns" by (rule quiet_step [OF inv]) simp_all
  have l: "load_words (?sp + 8) 16 ?w = Some ?vs" using load_store [of ?vs "a_sp s - 64" "words (a_kernel s)"] n by simp
  have f1: "framed_but (current_tcb ?k) 8 16 T ?k" using framed_more [OF f, of ?w] store_more by simp
  from publish_step [OF i1, of ?sp] obtain k' where
    k: "(if current_tcb ?k = 0 then Some ?k else upd (\<lambda>t. t\<lparr>sp := ?sp\<rparr>) (current_tcb ?k) ?k) = Some k'"
      "sys_inv k' T ns" "words k' = words ?k" "config k' = config ?k" "ticks k' = ticks ?k" "current_tcb k' = current_tcb ?k"
      "\<forall>a. rd k' a = (if a = current_tcb ?k then map_option (\<lambda>t. t\<lparr>sp := ?sp\<rparr>) (rd ?k a) else rd ?k a)" by blast
  have "load_words (?sp + 8) 16 (words ?k) \<noteq> None" using l by simp
  from framed_publish [OF f1 this k(7,3)] sys_invD(2) [OF i1] have f': "framed_but 0 8 16 T k'" by blast
  let ?s' = "s\<lparr>a_sp := ?sp, a_kernel := k'\<rparr>"
  have "(if k_current ?k = null_ptr then Some ?k else upd (\<lambda>t. t\<lparr>sp := ?sp\<rparr>) (k_current ?k) ?k) = Some k'"
    using k(1) by (simp only: k_current_def)
  then have "arm_save s = Some ?s'" unfolding arm_save_def Let_def by (simp only: bind.bind_lunit)
  moreover have "arm_ok 0 T ?s'" using k(2) f' n by (auto simp: arm_ok_def)
  moreover have "\<forall>t. rd k' ?c = Some t \<longrightarrow> sp t = ?sp" using k(7) by auto
  ultimately show ?thesis using k(3,5,6) l by (intro exI [of _ ?s']) (simp add: timers_def ARM_FRAME_SIZE_def)
qed

lemma arm_switch_back:
  assumes n: "length (a_gprs s) = 14" and s1: "arm_save s = Some s1"
    and later: "a_sp s2 = a_sp s1"
      "\<forall>i<16. words (a_kernel s2) (a_sp s1 + 8 + of_nat (4 * i)) = words (a_kernel s1) (a_sp s1 + 8 + of_nat (4 * i))"
  shows "\<exists>s3. arm_restore s2 = Some s3 \<and> a_gprs s3 = a_gprs s \<and> pc s3 = lr_irq s - 4 \<and> cpsr s3 = spsr s \<and> a_sp s3 = a_sp s
    \<and> a_kernel s3 = a_kernel s2"
proof -
  let ?vs = "a_gprs s @ [lr_irq s - 4, spsr s]"
  have w: "a_sp s1 + 8 = a_sp s - 64" "words (a_kernel s1) = store_words (a_sp s - 64) ?vs (words (a_kernel s))"
    using s1 by (auto simp: arm_save_def Let_def upd_def split: bind_splits if_splits)
  have "load_words (a_sp s2 + 8) 16 (words (a_kernel s2)) = load_words (a_sp s1 + 8) 16 (words (a_kernel s1))"
    unfolding later(1) by (rule load_cong [OF later(2)])
  also have "\<dots> = Some ?vs" unfolding w using load_store [of ?vs] n by simp
  finally have l: "load_words (a_sp s2 + 8) 16 (words (a_kernel s2)) = Some ?vs" .
  have "a_sp s2 + 8 + 64 = a_sp s" unfolding later(1) w(1) by simp
  then show ?thesis using n l by (simp add: arm_restore_def nth_append del: add.assoc)
qed

section \<open>The first dispatch of a task\<close>

lemma arm_frame_list:
  "arm_frame_words entry p frame w = store_words frame
     ((replicate 18 0)[2 := p, 16 := entry, 17 := CPSR_TASK_ENTRY OR push_bit 5 (entry AND 1)]) w"
proof -
  let ?z = "replicate 18 (0 :: u32)" and ?m = "CPSR_TASK_ENTRY OR push_bit 5 (entry AND 1)"
  have o: "OFF_R0 = of_nat (4 * 2)" "OFF_PC = of_nat (4 * 16)" "OFF_CPSR = of_nat (4 * 17)"
    by (simp_all add: OFF_R0_def OFF_PC_def OFF_CPSR_def)
  have "(store_words frame ?z w)(frame + of_nat (4 * 2) \<mapsto> p) = store_words frame (?z[2 := p]) w"
    by (rule store_words_upd) simp_all
  moreover have "(store_words frame (?z[2 := p]) w)(frame + of_nat (4 * 16) \<mapsto> entry)
      = store_words frame (?z[2 := p, 16 := entry]) w"
    by (rule store_words_upd) simp_all
  moreover have "(store_words frame (?z[2 := p, 16 := entry]) w)(frame + of_nat (4 * 17) \<mapsto> ?m)
      = store_words frame (?z[2 := p, 16 := entry, 17 := ?m]) w"
    by (rule store_words_upd) simp_all
  ultimately show ?thesis unfolding arm_frame_words_def o by (simp only: fun_upd_def)
qed

lemma arm_first_dispatch:
  assumes t: "rd k p = Some t" and a: "alloc_block (max sz 256 + 8) 8 k = Some (Some b, k\<lparr>karena := a\<rparr>)"
    and c: "arm_create e p sz k = Some (Inr (), k1)" and rm: "unat b + unat sz + 512 \<le> 2 ^ 32"
    and s: "a_kernel s = k1" "rd k1 p = Some t1" "a_sp s = sp t1"
  shows "\<exists>s'. arm_restore s = Some s' \<and> a_gprs s' = p # replicate 13 0 \<and> pc s' = e
    \<and> cpsr s' = CPSR_TASK_ENTRY OR push_bit 5 (e AND 1)
    \<and> unat (a_sp s') mod 8 = 0 \<and> unat b + 128 \<le> unat (sp t1) \<and> unat (a_sp s') = unat (sp t1) + 72
    \<and> unat (a_sp s') \<le> unat b + unat (max sz 256 + 8)"
proof -
  let ?tp = "arm_top b sz" and ?m = "CPSR_TASK_ENTRY OR push_bit 5 (e AND 1)"
  let ?vs = "(replicate 18 0)[2 := p, 16 := e, 17 := ?m]"
  have p0: "p \<noteq> 0" using t rd_nonnull by blast
  from c arm_create_run [OF t a, of e] have k1: "k1 = put p (t\<lparr>stack_base := b, stack_size := max sz 256, sp := ?tp - 72, flags := 0\<rparr>)
      (k\<lparr>karena := a, words := arm_frame_words e p (?tp - 72) (words k)\<rparr>)" by simp
  have sp1: "sp t1 = ?tp - 72" using s(2) rd_put [OF p0] unfolding k1 by auto
  have w: "words k1 = store_words (?tp - 72) ?vs (words k)" unfolding k1 by (simp add: put_def arm_frame_list)
  have l: "load_words (a_sp s + 8) 16 (words (a_kernel s)) = Some (take 16 (drop 2 ?vs))"
    unfolding s(1,3) sp1 w using load_slice [of ?vs 2 16 "?tp - 72" "words k"] by simp
  let ?s' = "s\<lparr>a_gprs := take 14 (take 16 (drop 2 ?vs)), pc := take 16 (drop 2 ?vs) ! 14, cpsr := take 16 (drop 2 ?vs) ! 15, a_sp := ?tp\<rparr>"
  have run: "arm_restore s = Some ?s'" using l s(3) sp1 by (simp add: arm_restore_def)
  have m: "unat (max sz 256) \<le> unat sz + 256" "256 \<le> unat (max sz 256)" by (simp_all add: max_def word_le_nat_alt)
  have r: "unat b + unat (max sz 256) + unat (8 :: u32) < 2 ^ 32" using rm m(1) by simp
  have z: "unat (max sz 256 + 8) = unat (max sz 256) + 8" using r by (subst unat_plus_small) simp_all
  have tp: "?tp = (b + (max sz 256 + 8)) AND NOT (8 - 1)" by (simp add: arm_top_def)
  note B = top_bounds [of 8 3, OF _ _ r, folded tp]
  have u: "unat (?tp - 72) = unat ?tp - 72" using B(1) m(2) by (subst unat_sub; simp add: word_le_nat_alt)
  have "a_gprs ?s' = p # replicate 13 0" by (simp add: numeral_eq_Suc)
  moreover have "pc ?s' = e" "cpsr ?s' = ?m" by simp_all
  ultimately show ?thesis
    using run B m(2) u z sp1 by (intro exI [of _ ?s']) simp
qed

section \<open>Kicks and waits\<close>

text \<open>The filter field of the register that a kick writes, and the mask that a start leaves.\<close>

lemma kick_filter: "words (arm_request_switch c k) (gicd c 0xF00) = Some 0x01000000"
  "drop_bit 24 (0x01000000 :: u32) AND 3 = 1"
  by (simp_all add: arm_request_switch_def reg_wr_def)

lemma start_keeps_fiq: "bit (cpsr (snd (arm_start_timer v plan s))) 6 = bit (cpsr s) 6"
  "\<not> bit (cpsr (snd (arm_start_timer v plan s))) 7"
proof -
  have b: "bit CPSR_I n \<longleftrightarrow> n = 7" for n unfolding irq_bits bit_pow by auto
  have c: "cpsr (arm_rearm s) = cpsr s" for s by (simp add: arm_rearm_def Let_def)
  show "bit (cpsr (snd (arm_start_timer v plan s))) 6 = bit (cpsr s) 6" "\<not> bit (cpsr (snd (arm_start_timer v plan s))) 7"
    by (simp_all add: arm_start_timer_def c b bit_and_iff bit_not_iff Let_def)
qed

text \<open>While nothing is runnable every pass counts a tick and the countdown is not restarted.\<close>

lemma arm_wait_races:
  assumes "arm_ok 0 T s" and "quiet_port P" and "arm_pick P irq v1 v2 s = Some (False, s')"
  shows "ticks (a_kernel s') = ticks (a_kernel s) + 1" "timers s' = timers s"
  using quiet_port.arm_pick_run [OF assms(2,1), of irq v1 v2] assms(3) by auto

end
