(* ===== verification/RkXtensa.thy ===== *)
theory RkXtensa
  imports RkIrq RkQuery
begin

text \<open>
  The Xtensa port (\<^verbatim>\<open>src/arch/xtensa.rs\<close>), but for the register windows (RkWindow): the
  \<open>CCOMPARE0\<close> timer, critical sections on \<open>PS.INTLEVEL\<close>, the diagnostic writer, the exception
  handler with its 26-word frame, planning and task construction.

  Stacks and memory-mapped registers are \<open>words\<close>; the address registers, the special registers
  and the port's statics are the record \<open>xtensa\<close>.  What \<open>CCOUNT\<close>, \<open>INTERRUPT\<close> and \<open>VECBASE\<close>
  answer are arguments of the functions that read them; so is the address of \<open>task_trampoline\<close>.
\<close>

unbundle bit_operations_syntax

section \<open>Layout and constants\<close>

definition XT_FRAME_SIZE :: u32 where "XT_FRAME_SIZE = 128"

text \<open>The offsets of \<open>PC\<close>, \<open>PS\<close>, \<open>a0\<close> to \<open>a15\<close>, \<open>SAR\<close>, \<open>EXCCAUSE\<close>, \<open>EXCVADDR\<close>, \<open>LBEG\<close>, \<open>LEND\<close>,
  \<open>LCOUNT\<close>, \<open>THREADPTR\<close> and \<open>SCOMPARE1\<close> in the frame.\<close>

definition FRAME_OFFSETS :: "u32 list" where
  "FRAME_OFFSETS = [0, 4, 8, 12, 16, 20, 24, 28, 32, 36, 40, 44, 48, 52, 56, 60, 64, 68, 72, 76, 80, 84, 88, 92, 96, 100]"

definition XT_OFF_PC :: u32 where "XT_OFF_PC = 0"
definition XT_OFF_PS :: u32 where "XT_OFF_PS = 4"
definition XT_OFF_A1 :: u32 where "XT_OFF_A1 = 12"
definition XT_OFF_A2 :: u32 where "XT_OFF_A2 = 16"
definition OFF_EXCCAUSE :: u32 where "OFF_EXCCAUSE = 76"
definition VECBASE :: u32 where "VECBASE = 0x40080000"
definition PS_INTLEVEL_MASK :: u32 where "PS_INTLEVEL_MASK = 0x0000000F"
definition PS_EXCM :: u32 where "PS_EXCM = 0x00000010"
definition PS_WOE :: u32 where "PS_WOE = 0x00040000"
definition PS_TASK_ENTRY :: u32 where "PS_TASK_ENTRY = PS_WOE"
definition EXCCAUSE_LEVEL1_INTERRUPT :: u32 where "EXCCAUSE_LEVEL1_INTERRUPT = 4"
definition INT_TIMER0 :: nat where "INT_TIMER0 = 6"
definition INT_SW0 :: nat where "INT_SW0 = 0"
definition USE_SOFTWARE_KICK :: bool where "USE_SOFTWARE_KICK = True"
definition EXCCAUSE_ALLOCA :: u32 where "EXCCAUSE_ALLOCA = 5"
definition NOMINAL_CCOUNT_HZ :: u32 where "NOMINAL_CCOUNT_HZ = 240000000"
definition XT_MIN_SLICE_CYCLES :: u64 where "XT_MIN_SLICE_CYCLES = 300"
definition DPORT_CPU_INTR_FROM_CPU_0 :: u32 where "DPORT_CPU_INTR_FROM_CPU_0 = 0x3FF00000"
definition TRACE_SWITCH :: bool where "TRACE_SWITCH = False"

section \<open>The machine state and the port's statics\<close>

record xt_event =
  xe_cause :: u32
  xe_epc :: u32
  xe_current :: ptr
  xe_next :: ptr
  xe_after :: bool

text \<open>\<open>ar\<close> is \<open>a0\<close> to \<open>a15\<close>; \<open>uart\<close> holds the bytes written to the transmit FIFO.  A hook is code of
  the application: the events handed to it are recorded.\<close>

record xtensa =
  ar :: "u32 list"
  epc1 :: u32
  ps :: u32
  sar :: u32
  exccause :: u32
  excvaddr :: u32
  lbeg :: u32
  lend :: u32
  lcount :: u32
  threadptr :: u32
  scompare1 :: u32
  excsave1 :: u32
  intenable :: u32
  intclear :: u32
  vecbase :: u32
  ccompare0 :: u32
  last_tick_cc :: u32
  xt_hook :: u32
  xt_events :: "xt_event list"
  uart :: "u8 list"
  reported :: u32
  xt_kernel :: kernel

section \<open>Timer and interrupts\<close>

definition ccompare0_write :: "u32 \<Rightarrow> xtensa \<Rightarrow> xtensa" where
  "ccompare0_write v s = s\<lparr>ccompare0 := v\<rparr>"

definition enable_kernel_interrupts :: "xtensa \<Rightarrow> xtensa" where
  "enable_kernel_interrupts s =
     (let m = push_bit INT_TIMER0 1; m = (if USE_SOFTWARE_KICK then m OR push_bit INT_SW0 1 else m)
      in s\<lparr>intenable := m\<rparr>)"

definition xt_rearm :: "u32 \<Rightarrow> xtensa \<Rightarrow> xtensa" where
  "xt_rearm ccount s = (let slice = kc_slice_cycles (config (xt_kernel s)) in ccompare0_write (ccount + slice) s)"

definition xt_request_switch :: "kernel \<Rightarrow> kernel" where
  "xt_request_switch k = (if \<not> USE_SOFTWARE_KICK then k else reg_wr DPORT_CPU_INTR_FROM_CPU_0 1 k)"

definition clear_software_interrupt :: "xtensa \<Rightarrow> xtensa" where
  "clear_software_interrupt s = s\<lparr>intclear := push_bit INT_SW0 1\<rparr>"

section \<open>Critical sections\<close>

definition xt_critical_enter :: "u32 \<Rightarrow> u32 \<times> u32" where
  "xt_critical_enter p =
     (let old_level = p AND PS_INTLEVEL_MASK
      in (old_level, if old_level < 1 then p AND NOT PS_INTLEVEL_MASK OR 1 else p))"

definition xt_critical_exit :: "u32 \<Rightarrow> u32 \<Rightarrow> u32" where
  "xt_critical_exit token cur =
     (let new = (cur AND NOT PS_INTLEVEL_MASK) OR (token AND PS_INTLEVEL_MASK)
      in if new \<noteq> cur then new else cur)"

section \<open>Observation and diagnostics\<close>

definition xt_set_trap_hook :: "u32 \<Rightarrow> xtensa \<Rightarrow> xtensa" where
  "xt_set_trap_hook hook s = s\<lparr>xt_hook := hook\<rparr>"

definition xt_clear_trap_hook :: "xtensa \<Rightarrow> xtensa" where
  "xt_clear_trap_hook s = s\<lparr>xt_hook := 0\<rparr>"

definition xt_report_trap :: "xt_event \<Rightarrow> xtensa \<Rightarrow> xtensa" where
  "xt_report_trap ev s = (if xt_hook s \<noteq> 0 then s\<lparr>xt_events := xt_events s @ [ev]\<rparr> else s)"

definition diag_putc :: "u8 \<Rightarrow> xtensa \<Rightarrow> xtensa" where
  "diag_putc c s = s\<lparr>uart := uart s @ [c]\<rparr>"

text \<open>The bytes that \<open>diag_hex\<close> and \<open>diag_num\<close> put, and their loops.\<close>

definition hex_digit :: "u8 \<Rightarrow> u8" where
  "hex_digit nib = (if nib < 10 then 48 + nib else 97 + nib - 10)"

fun hex_loop :: "u32 \<Rightarrow> nat \<Rightarrow> u8 list" where
  "hex_loop v 0 = [hex_digit (ucast (v AND 0xF))]"
| "hex_loop v (Suc n) = hex_digit (ucast (drop_bit (4 * Suc n) v AND 0xF)) # hex_loop v n"

definition diag_hex_bytes :: "u32 \<Rightarrow> u8 list" where
  "diag_hex_bytes v = [48, 120] @ hex_loop v 7"

definition diag_hex :: "u32 \<Rightarrow> xtensa \<Rightarrow> xtensa" where
  "diag_hex v s = fold diag_putc (diag_hex_bytes v) s"

definition diag_str :: "u8 list \<Rightarrow> xtensa \<Rightarrow> xtensa" where
  "diag_str bs s = fold diag_putc bs s"

definition diag_field :: "u8 list \<Rightarrow> u32 \<Rightarrow> xtensa \<Rightarrow> xtensa" where
  "diag_field label v s =
     (let s = fold diag_putc label s; s = diag_hex v s; s = diag_putc 13 s in diag_putc 10 s)"

text \<open>The digits are written from the end of a buffer of ten bytes; \<open>None\<close> when it is full.\<close>

function num_loop :: "u32 \<Rightarrow> nat \<Rightarrow> u8 list \<Rightarrow> (nat \<times> u8 list) option" where
  "num_loop n i buf =
     (if n > 0 then
        if i = 0 then None
        else num_loop (n div 10) (i - 1) (buf[i - 1 := 48 + ucast (n mod 10)])
      else Some (i, buf))"
  by auto

termination num_loop
proof (relation "measure (\<lambda>(n, i, buf). unat n)", simp, goal_cases)
  case (1 n i buf)
  then have "unat n div 10 < unat n" by (simp add: word_less_nat_alt)
  then show ?case by (simp add: unat_div)
qed

declare num_loop.simps [simp del]

definition diag_num_bytes :: "u32 \<Rightarrow> u8 list option" where
  "diag_num_bytes v =
     (if v = 0 then Some [48]
      else do { (i, buf) \<leftarrow> num_loop v 10 (replicate 10 0); Some (drop i buf) })"

definition diag_num :: "u32 \<Rightarrow> xtensa \<Rightarrow> xtensa option" where
  "diag_num v s = do { bs \<leftarrow> diag_num_bytes v; Some (fold diag_putc bs s) }"

definition diag_marker :: "u8 \<Rightarrow> xtensa \<Rightarrow> xtensa" where
  "diag_marker marker s = (if TRACE_SWITCH then diag_putc marker s else s)"

definition rrkernel_trace :: "u32 \<Rightarrow> xtensa \<Rightarrow> xtensa" where
  "rrkernel_trace marker s = diag_putc (ucast marker) s"

text \<open>The report of a trap in a slot that is not used otherwise; the core then spins.  \<open>wbase\<close>,
  \<open>wstart\<close> and \<open>pending\<close> are what \<open>WINDOWBASE\<close>, \<open>WINDOWSTART\<close> and \<open>INTERRUPT\<close> answer.\<close>

definition bytes_of :: "string \<Rightarrow> u8 list" where
  "bytes_of cs = map of_char cs"

definition slot_name :: "u32 \<Rightarrow> string" where
  "slot_name slot =
     (if slot = 0 then ''window-overflow4'' else if slot = 1 then ''window-underflow4''
      else if slot = 2 then ''window-overflow8'' else if slot = 3 then ''window-underflow8''
      else if slot = 4 then ''window-overflow12'' else if slot = 5 then ''window-underflow12''
      else if slot = 6 then ''level2'' else if slot = 7 then ''level3''
      else if slot = 8 then ''level4'' else if slot = 9 then ''level5''
      else if slot = 10 then ''level6/debug'' else if slot = 11 then ''level7/nmi''
      else if slot = 12 then ''kernel'' else if slot = 13 then ''user-exception''
      else if slot = 14 then ''double-exception'' else ''unknown'')"

definition rrkernel_slot_trap :: "u32 \<Rightarrow> u32 \<Rightarrow> u32 \<Rightarrow> u32 \<Rightarrow> xtensa \<Rightarrow> xtensa" where
  "rrkernel_slot_trap wbase wstart pending slot s =
     (let old = reported s; s = s\<lparr>reported := 1\<rparr> in
      if old = 0 then
        let s = diag_putc 10 (diag_putc 13 s);
            s = diag_field (bytes_of ''[trap] slot='') slot s;
            s = fold diag_putc (bytes_of (slot_name slot)) s;
            s = diag_putc 10 (diag_putc 13 s);
            s = diag_field (bytes_of ''[trap] cause='') (exccause s) s;
            s = diag_field (bytes_of ''[trap] vaddr='') (excvaddr s) s;
            s = diag_field (bytes_of ''[trap] epc1 ='') (epc1 s) s;
            s = diag_field (bytes_of ''[trap] ps   ='') (ps s) s;
            s = diag_field (bytes_of ''[trap] a0   ='') (excsave1 s) s;
            s = diag_field (bytes_of ''[trap] wbase='') wbase s;
            s = diag_field (bytes_of ''[trap] wstart='') wstart s;
            s = diag_field (bytes_of ''[trap] inten='') (intenable s) s
        in diag_field (bytes_of ''[trap] intset='') pending s
      else s)"

text \<open>A vector stub: \<open>a0\<close> is parked and the slot number handed over.\<close>

definition trap_slot :: "u32 \<Rightarrow> u32 \<Rightarrow> u32 \<Rightarrow> u32 \<Rightarrow> xtensa \<Rightarrow> xtensa" where
  "trap_slot wbase wstart pending slot s =
     rrkernel_slot_trap wbase wstart pending slot (s\<lparr>excsave1 := ar s ! 0, ar := (ar s)[2 := slot]\<rparr>)"

section \<open>The Rust half of the trap\<close>

definition xt_abs_diff :: "u32 \<Rightarrow> u32 \<Rightarrow> u32" where
  "xt_abs_diff a b = (if a < b then b - a else a - b)"

text \<open>\<open>pending\<close> is what \<open>INTERRUPT\<close> answers, \<open>cc\<close> what \<open>CCOUNT\<close> does.\<close>

definition xt_measure_period :: "u32 \<Rightarrow> xtensa \<Rightarrow> xtensa" where
  "xt_measure_period cc s =
     (if kc_measure (config (xt_kernel s)) \<noteq> MeasureOff then
        let last = last_tick_cc s; s = s\<lparr>last_tick_cc := cc\<rparr> in
        if last \<noteq> 0 then
          s\<lparr>xt_kernel := record_period_error
               (xt_abs_diff (cc - last) (kc_slice_cycles (config (xt_kernel s)))) (xt_kernel s)\<rparr>
        else s
      else s)"

definition xt_trap_switch :: "u32 \<Rightarrow> u32 \<Rightarrow> ptr \<Rightarrow> xtensa \<Rightarrow> (ptr \<times> xtensa) option" where
  "xt_trap_switch pending cc frame s = do {
     let cur = k_current (xt_kernel s);
     k \<leftarrow> (if cur = null_ptr then Some (xt_kernel s) else upd (\<lambda>t. t\<lparr>sp := frame\<rparr>) cur (xt_kernel s));
     cause \<leftarrow> words k (frame + OFF_EXCCAUSE);
     epc \<leftarrow> words k (frame + XT_OFF_PC);
     let s = diag_marker 84 (s\<lparr>xt_kernel := k\<rparr>);
     let ticked = bit pending INT_TIMER0;
     s \<leftarrow> (if ticked then do {
            k \<leftarrow> on_tick (xt_kernel s);
            Some (xt_measure_period cc (diag_marker 75 (s\<lparr>xt_kernel := k\<rparr>)))
          }
          else Some s);
     let s = (if bit pending INT_SW0
              then clear_software_interrupt (s\<lparr>xt_kernel := reg_wr DPORT_CPU_INTR_FROM_CPU_0 0 (xt_kernel s)\<rparr>)
              else s);
     (next, k) \<leftarrow> schedule_next (xt_kernel s);
     let s = diag_marker 78 (s\<lparr>xt_kernel := k\<rparr>);
     let s = (if next = null_ptr \<and> ticked then xt_rearm cc s else s);
     Some (next, xt_report_trap \<lparr>xe_cause = cause, xe_epc = epc, xe_current = cur, xe_next = next, xe_after = False\<rparr> s)
   }"

definition xt_after_switch :: "port \<Rightarrow> u32 \<Rightarrow> u32 \<Rightarrow> u32 \<Rightarrow> xtensa \<Rightarrow> xtensa option" where
  "xt_after_switch P t0 cc t1 s = do {
     let measuring = (kc_measure (config (xt_kernel s)) \<noteq> MeasureOff);
     let t0 = (if measuring then t0 else 0);
     let cur = k_current (xt_kernel s);
     let s = xt_report_trap \<lparr>xe_cause = 0, xe_epc = 0, xe_current = cur, xe_next = cur, xe_after = True\<rparr> s;
     k \<leftarrow> reclaim_finished_tasks P (xt_kernel s);
     let s = xt_rearm cc (s\<lparr>xt_kernel := k\<rparr>);
     Some (if measuring then s\<lparr>xt_kernel := record_latency (t1 - t0) (xt_kernel s)\<rparr> else s)
   }"

definition rrkernel_unexpected_trap :: "u32 \<Rightarrow> u32 \<Rightarrow> xtensa \<Rightarrow> xtensa" where
  "rrkernel_unexpected_trap cause epc s =
     xt_report_trap \<lparr>xe_cause = cause, xe_epc = epc, xe_current = k_current (xt_kernel s), xe_next = null_ptr,
       xe_after = False\<rparr> s"

section \<open>The exception handler\<close>

definition xtensa_kernel_vector :: "xtensa \<Rightarrow> xtensa" where
  "xtensa_kernel_vector s = s\<lparr>excsave1 := ar s ! 0\<rparr>"

text \<open>The test for an Alloca exception, which uses \<open>a2\<close> and \<open>a3\<close>.\<close>

definition xt_dispatch :: "xtensa \<Rightarrow> xtensa" where
  "xt_dispatch s = s\<lparr>ar := (ar s)[2 := exccause s, 3 := EXCCAUSE_ALLOCA]\<rparr>"

text \<open>The frame, on the interrupted stack: \<open>PS\<close> without \<open>EXCM\<close>, \<open>a0\<close> out of \<open>EXCSAVE1\<close>, the rest as
  it stands.\<close>

definition frame_of :: "xtensa \<Rightarrow> u32 list" where
  "frame_of s = [epc1 s, ps s AND NOT PS_EXCM, excsave1 s] @ drop 1 (ar s) @
     [sar s, exccause s, excvaddr s, lbeg s, lend s, lcount s, threadptr s, scompare1 s]"

definition xt_save :: "xtensa \<Rightarrow> xtensa" where
  "xt_save s =
     (let base = ar s ! 1 - XT_FRAME_SIZE
      in s\<lparr>ar := (ar s)[0 := scompare1 s, 1 := base, 2 := NOT PS_EXCM], xt_kernel := (xt_kernel s)\<lparr>words := store_words base (frame_of s) (words (xt_kernel s))\<rparr>\<rparr>)"

definition xt_restore :: "xtensa \<Rightarrow> xtensa option" where
  "xt_restore s = do {
     vs \<leftarrow> load_words (ar s ! 1) 26 (words (xt_kernel s));
     Some (s\<lparr>sar := vs ! 18, lbeg := vs ! 21, lend := vs ! 22, lcount := vs ! 23, threadptr := vs ! 24,
             scompare1 := vs ! 25, ps := vs ! 1, epc1 := vs ! 0, ar := take 16 (drop 2 vs)\<rparr>)
   }"

text \<open>\<open>XtParked\<close>: the core spins; \<open>XtRefilling\<close>: the Alloca handler has been entered.\<close>

datatype xt_outcome = XtRefilling | XtParked | XtResumed

definition xt_level1 :: "port \<Rightarrow> u32 \<Rightarrow> u32 \<times> u32 \<times> u32 \<times> u32 \<Rightarrow> xtensa \<Rightarrow> xtensa option" where
  "xt_level1 P pending c s = do {
     let (c0, t0, c1, t1) = c;
     let s = rrkernel_trace 69 (s\<lparr>ps := 3 OR PS_WOE\<rparr>);
     (next, s) \<leftarrow> xt_trap_switch pending c0 (ar s ! 1) s;
     s \<leftarrow> (if next = null_ptr then Some s
          else do { t \<leftarrow> rd (xt_kernel s) next; Some (rrkernel_trace 83 (s\<lparr>ar := (ar s)[1 := sp t]\<rparr>)) });
     s \<leftarrow> xt_after_switch P t0 c1 t1 s;
     xt_restore (rrkernel_trace 82 s)
   }"

definition xtensa_exception_handler ::
  "port \<Rightarrow> u32 \<Rightarrow> u32 \<times> u32 \<times> u32 \<times> u32 \<Rightarrow> xtensa \<Rightarrow> (xt_outcome \<times> xtensa) option" where
  "xtensa_exception_handler P pending c s =
     (let s = xt_dispatch s in
      if exccause s = EXCCAUSE_ALLOCA then Some (XtRefilling, s)
      else
        let s = xt_save s in
        if exccause s = EXCCAUSE_LEVEL1_INTERRUPT
        then do { s \<leftarrow> xt_level1 P pending c s; Some (XtResumed, s) }
        else Some (XtParked, rrkernel_unexpected_trap (exccause s) (epc1 s) (s\<lparr>ps := 3 OR PS_WOE\<rparr>)))"

section \<open>Planning\<close>

definition xt_cycles_to_ns_with :: "u32 \<Rightarrow> u32 \<Rightarrow> u64" where
  "xt_cycles_to_ns_with hz cycles =
     (if hz = 0 then 0 else ucast ((ucast cycles :: u128) * 1000000000 div (ucast hz :: u128)))"

definition xt_cycles_to_ns :: "u32 \<Rightarrow> kernel \<Rightarrow> u64" where
  "xt_cycles_to_ns cycles k =
     (let hz = kc_timer_hz (config k) in xt_cycles_to_ns_with (if hz = 0 then NOMINAL_CCOUNT_HZ else hz) cycles)"

definition xt_platform_limits :: "kernel \<Rightarrow> platform_limits" where
  "xt_platform_limits k =
     (let hz = kc_timer_hz (config k); hz = (if hz = 0 then NOMINAL_CCOUNT_HZ else hz)
      in \<lparr>min_slice_ns = xt_cycles_to_ns_with hz (ucast XT_MIN_SLICE_CYCLES),
          max_slice_ns = Some (xt_cycles_to_ns_with hz 0xFFFFFFFF),
          limits_timer_hz = hz,
          timer_note = ''Xtensa CCOUNT/CCOMPARE0 (ESP32 LX6), windowed register file''\<rparr>)"

definition xt_plan_timer :: "scheduler_config \<Rightarrow> config_error + timer_plan" where
  "xt_plan_timer cfg =
     (let hz = cfg_timer_hz cfg in
      if hz = 0 then Inl TimerClockRequired
      else let cycles = (case cfg_slice cfg of Cycles c \<Rightarrow> ucast c | other \<Rightarrow> to_cycles other hz) in
        if cycles = 0 then Inl ZeroSlice
        else if cycles < XT_MIN_SLICE_CYCLES
        then Inl (SliceBelowPlatformMinimum (xt_cycles_to_ns_with hz (ucast cycles))
               (xt_cycles_to_ns_with hz (ucast XT_MIN_SLICE_CYCLES)))
        else if cycles > 0xFFFFFFFF
        then Inl (SliceAboveTimerRange (xt_cycles_to_ns_with hz 0xFFFFFFFF) (xt_cycles_to_ns_with hz 0xFFFFFFFF))
        else Inr \<lparr>plan_slice_ns = xt_cycles_to_ns_with hz (ucast cycles),
                  plan_slice_cycles = ucast cycles, plan_timer_hz = hz\<rparr>)"

text \<open>\<open>start_timer\<close> and \<open>retune_timer\<close>, in memory and with the special registers; \<open>vb\<close> is what
  \<open>VECBASE\<close> answers when it is read back.\<close>

definition vecbase_refused :: string where
  "vecbase_refused = ''the core did not accept VECBASE = 0x4008_0000; the ESP32 port links '' @
     ''its vector table at the bottom of IRAM''"

definition xt_start_words :: "u32 \<Rightarrow> timer_plan \<Rightarrow> kernel \<Rightarrow> (config_error + unit) \<times> kernel" where
  "xt_start_words vb plan k =
     (if vb \<noteq> VECBASE then (Inl (PlatformError vecbase_refused), k) else (Inr (), reg_wr DPORT_CPU_INTR_FROM_CPU_0 0 k))"

definition xt_start_timer :: "u32 \<Rightarrow> u32 \<Rightarrow> timer_plan \<Rightarrow> xtensa \<Rightarrow> (config_error + unit) \<times> xtensa" where
  "xt_start_timer vb cc plan s =
     (let s = s\<lparr>vecbase := VECBASE\<rparr> in
      if vb \<noteq> VECBASE then (Inl (PlatformError vecbase_refused), s)
      else let s = s\<lparr>ps := PS_TASK_ENTRY\<rparr>;
               s = s\<lparr>xt_kernel := reg_wr DPORT_CPU_INTR_FROM_CPU_0 0 (xt_kernel s)\<rparr>;
               s = clear_software_interrupt s;
               s = enable_kernel_interrupts s
           in (Inr (), xt_rearm cc s))"

definition xt_retune_words :: "timer_plan \<Rightarrow> kernel \<Rightarrow> (config_error + unit) \<times> kernel" where
  "xt_retune_words plan k = (Inr (), k)"

definition xt_retune_timer :: "u32 \<Rightarrow> timer_plan \<Rightarrow> xtensa \<Rightarrow> (config_error + unit) \<times> xtensa" where
  "xt_retune_timer cc plan s = (Inr (), xt_rearm cc s)"

definition xt_shutdown :: "xtensa \<Rightarrow> xtensa" where
  "xt_shutdown s = s\<lparr>intenable := 0\<rparr>"

section \<open>Construction of a task\<close>

definition xt_adopt :: "ptr \<Rightarrow> kernel \<Rightarrow> ((config_error + unit) \<times> kernel) option" where
  "xt_adopt p k = do {
     k \<leftarrow> upd (\<lambda>t. t\<lparr>sp := null_ptr, stack_base := null_ptr, stack_size := 0, flags := 0\<rparr>) p k;
     Some (Inr (), k)
   }"

definition xt_frame_words :: "u32 \<Rightarrow> ptr \<Rightarrow> ptr \<Rightarrow> (ptr \<rightharpoonup> u32) \<Rightarrow> (ptr \<rightharpoonup> u32)" where
  "xt_frame_words entry p frame w =
     (store_words frame (replicate 32 0) w)
       (frame + XT_OFF_PC \<mapsto> entry, frame + XT_OFF_PS \<mapsto> PS_TASK_ENTRY, frame + XT_OFF_A1 \<mapsto> frame,
        frame + XT_OFF_A2 \<mapsto> p)"

definition xt_create :: "u32 \<Rightarrow> ptr \<Rightarrow> usize \<Rightarrow> kernel \<Rightarrow> ((spawn_error + unit) \<times> kernel) option" where
  "xt_create entry p stack_sz k = do {
     let sz = max stack_sz 512 + XT_FRAME_SIZE + 16;
     (r, k) \<leftarrow> alloc_block sz 16 k;
     (case r of
        None \<Rightarrow> Some (Inl ArenaExhausted, k)
      | Some block \<Rightarrow> do {
          k \<leftarrow> upd (\<lambda>t. t\<lparr>stack_base := block, stack_size := sz - XT_FRAME_SIZE - 16\<rparr>) p k;
          let top = (block + sz) AND NOT 15;
          let frame = top - XT_FRAME_SIZE;
          let k = k\<lparr>words := xt_frame_words entry p frame (words k)\<rparr>;
          k \<leftarrow> upd (\<lambda>t. t\<lparr>sp := frame, flags := 0\<rparr>) p k;
          Some (Inr (), k)
        })
   }"

definition xt_is_pinned :: "ptr \<Rightarrow> bool" where
  "xt_is_pinned p = False"

definition xt_on_task_reclaimed :: "ptr \<Rightarrow> kernel \<Rightarrow> kernel option" where
  "xt_on_task_reclaimed p k = Some k"

definition xtensa_port :: "u32 \<Rightarrow> ptr \<Rightarrow> u32 \<Rightarrow> port" where
  "xtensa_port entry default_arena vb =
     \<lparr>port_plan = xt_plan_timer, port_limits = xt_platform_limits, port_ns = xt_cycles_to_ns,
      port_adopt = xt_adopt, port_start = xt_start_words vb, port_retune = xt_retune_words,
      port_create = xt_create entry, port_pinned = xt_is_pinned,
      port_reclaimed = xt_on_task_reclaimed, port_default_arena = default_arena\<rparr>"

section \<open>The port keeps its contract\<close>

definition xt_top :: "ptr \<Rightarrow> usize \<Rightarrow> ptr" where
  "xt_top block stack_sz = (block + (max stack_sz 512 + 144)) AND NOT 15"

lemma xt_size: "m + XT_FRAME_SIZE + 16 = m + 144"
  by (simp add: XT_FRAME_SIZE_def)

lemma xt_create_run:
  assumes t: "rd k p = Some t" and a: "alloc_block (max sz 512 + 144) 16 k = Some (Some b, k\<lparr>karena := a\<rparr>)"
  shows "xt_create e p sz k = Some (Inr (), put p (t\<lparr>stack_base := b, stack_size := max sz 512,
      sp := xt_top b sz - 128, flags := 0\<rparr>) (k\<lparr>karena := a, words := xt_frame_words e p (xt_top b sz - 128) (words k)\<rparr>))"
proof -
  have p0: "p \<noteq> 0" using t rd_nonnull by blast
  let ?k = "k\<lparr>karena := a\<rparr>"
  let ?t = "t\<lparr>stack_base := b, stack_size := max sz 512\<rparr>"
  have t': "rd ?k p = Some t" using t by (simp add: rd_def)
  have u: "upd (\<lambda>t. t\<lparr>stack_base := b, stack_size := max sz 512\<rparr>) p ?k = Some (put p ?t ?k)"
    by (rule upd_put [OF t'])
  let ?w = "xt_frame_words e p (xt_top b sz - 128) (words k)"
  have t2: "rd ((put p ?t ?k)\<lparr>words := w\<rparr>) p = Some ?t" for w using p0 by (simp add: put_def rd_def)
  have w: "words (put p ?t ?k) = words k" by (simp add: put_def)
  have u2: "upd (\<lambda>t. t\<lparr>sp := v, flags := 0\<rparr>) p ((put p ?t ?k)\<lparr>words := w\<rparr>)
      = Some (put p (?t\<lparr>sp := v, flags := 0\<rparr>) ((put p ?t ?k)\<lparr>words := w\<rparr>))" for v w
    by (rule upd_put [OF t2])
  have "xt_create e p sz k
      = Some (Inr (), put p (?t\<lparr>sp := xt_top b sz - 128, flags := 0\<rparr>) ((put p ?t ?k)\<lparr>words := ?w\<rparr>))"
    unfolding xt_create_def Let_def xt_size a by (simp add: u u2 w xt_top_def XT_FRAME_SIZE_def del: upd_SomeD)
  then show ?thesis by (simp add: put_def)
qed

lemma xt_create_ok:
  assumes ok: "mem_ok k" and t: "rd k p = Some t" and st: "stack_base t = 0" and rm: "roomy k sz"
  shows "\<exists>r k'. xt_create e p sz k = Some (r, k') \<and> mem_ok k' \<and> created p k k' \<and> (\<forall>e. r = Inl e \<longrightarrow> no_stack p k k')"
proof (rule create_contract [OF ok t st])
  have "unat (512 :: usize) + unat (144 :: usize) \<le> 16000" "unat (144 :: usize) \<noteq> 0" by simp_all
  note s = stack_space [OF rm this]
  show "space_for k (max sz 512 + 144)" "max sz 512 + 144 \<noteq> 0" by (rule s(2), rule s(3))
  show "pow2 16 4" "unat (16 :: usize) \<le> 32" by (simp_all add: pow2_def)
  show "xt_create e p sz k = Some (Inl ArenaExhausted, k)" if "alloc_block (max sz 512 + 144) 16 k = Some (None, k)"
    unfolding xt_create_def Let_def xt_size that by simp
  show "\<exists>t' w. xt_create e p sz k = Some (Inr (), put p t' (k\<lparr>karena := a, words := w\<rparr>)) \<and> stack_base t' = b
      \<and> stackless t' = stackless t"
    if "alloc_block (max sz 512 + 144) 16 k = Some (Some b, k\<lparr>karena := a\<rparr>)" for b a
    unfolding xt_create_run [OF t that] by (intro exI conjI, rule refl) (simp_all add: stackless_def)
qed

lemma xt_adopt_ok:
  assumes ok: "mem_ok k" and t: "rd k p = Some t" and st: "stack_base t = 0"
  shows "\<exists>r k'. xt_adopt p k = Some (r, k') \<and> mem_ok k' \<and> created p k k'"
proof (rule adopt_contract [OF ok t st])
  show "xt_adopt p k = Some (Inr (), put p (t\<lparr>sp := null_ptr, stack_base := null_ptr, stack_size := 0, flags := 0\<rparr>) k)"
    using t by (simp add: xt_adopt_def upd_put)
qed (simp_all add: stackless_def)

interpretation xt: quiet_port "xtensa_port entry default_arena vb"
proof
  show "port_reclaimed (xtensa_port entry default_arena vb) p k = Some k" for p k
    by (simp add: xtensa_port_def xt_on_task_reclaimed_def)
  show "\<exists>w t'. port_reclaimed (xtensa_port entry default_arena vb) p k = Some ((put p t' k)\<lparr>words := w\<rparr>) \<and> blocks_of t' = blocks_of t"
    if "rd k p = Some t" for p k t
    using quiet_hook [OF that] by (simp add: xtensa_port_def xt_on_task_reclaimed_def)
  show "\<exists>e k'. port_create (xtensa_port entry default_arena vb) p sz k = Some (e, k') \<and> mem_ok k'
      \<and> created p k k' \<and> (\<forall>x. e = Inl x \<longrightarrow> no_stack p k k')"
    if "mem_ok k" "rd k p = Some t" "stack_base t = 0" "roomy k sz" for k p t sz
    using xt_create_ok [OF that] by (simp add: xtensa_port_def)
  show "\<exists>e k'. port_adopt (xtensa_port entry default_arena vb) p k = Some (e, k') \<and> mem_ok k' \<and> created p k k'"
    if "mem_ok k" "rd k p = Some t" "stack_base t = 0" for k p t
    using xt_adopt_ok [OF that] by (simp add: xtensa_port_def)
qed

interpretation xt_critical: critical xt_critical_enter xt_critical_exit "\<lambda>p. p AND PS_INTLEVEL_MASK \<noteq> 0" "\<lambda>p. True"
proof
  have e: "p AND 15 < 1 \<longleftrightarrow> p AND 15 = 0" for p :: u32 by (simp add: word_less_nat_alt unat_eq_0)
  have "(p AND NOT m) OR (p AND m) = p" for p m :: u32 by (rule bit_word_eqI) (auto simp: bit_simps)
  from this [of _ 15] have
    a: "(p AND NOT 15 OR 1) AND 15 = (1 :: u32)" "(p AND NOT 15 OR 1) AND NOT 15 = (p AND NOT 15 :: u32)"
    "(p AND NOT 15) OR (p AND 15) = (p :: u32)" "(p AND 15) AND 15 = (p AND 15 :: u32)" for p :: u32
    by (simp_all add: word_bw_assocs word_ao_dist word_ao_dist2)
  show "snd (xt_critical_enter p) AND PS_INTLEVEL_MASK \<noteq> 0 \<and> True" for p
    using a e by (auto simp: xt_critical_enter_def PS_INTLEVEL_MASK_def Let_def)
  show "xt_critical_exit (fst (xt_critical_enter p)) (snd (xt_critical_enter p)) = p" for p
  proof (cases "p AND 15 = 0")
    case True
    then have "p AND NOT 15 = p" using a(3) [of p] by simp
    then show ?thesis using True a [of p] by (simp add: xt_critical_enter_def xt_critical_exit_def PS_INTLEVEL_MASK_def Let_def)
  next
    case False
    then show ?thesis using a [of p] e [of p]
      by (simp add: xt_critical_enter_def xt_critical_exit_def PS_INTLEVEL_MASK_def Let_def)
  qed
qed

section \<open>Planning and start\<close>

lemma xt_plan_ok:
  assumes "xt_plan_timer cfg = Inr plan"
  shows "300 \<le> unat (plan_slice_cycles plan)" "plan_timer_hz plan = cfg_timer_hz cfg" "cfg_timer_hz cfg \<noteq> 0"
    "unat (plan_slice_cycles plan) =
      unat (case cfg_slice cfg of Cycles c \<Rightarrow> ucast c | other \<Rightarrow> to_cycles other (cfg_timer_hz cfg))"
proof -
  let ?c = "case cfg_slice cfg of Cycles c \<Rightarrow> ucast c | other \<Rightarrow> to_cycles other (cfg_timer_hz cfg)"
  have c: "\<not> ?c < 300" "\<not> ?c > 0xFFFFFFFF" "cfg_timer_hz cfg \<noteq> 0"
    "plan = \<lparr>plan_slice_ns = xt_cycles_to_ns_with (cfg_timer_hz cfg) (ucast ?c),
                  plan_slice_cycles = ucast ?c, plan_timer_hz = cfg_timer_hz cfg\<rparr>"
    using assms unfolding xt_plan_timer_def Let_def XT_MIN_SLICE_CYCLES_def
    by (simp_all only: split: if_splits) simp_all
  have b: "300 \<le> unat ?c" "unat ?c < 2 ^ 32"
    using c(1,2) by (simp_all add: not_less word_le_nat_alt)
  have p: "plan_slice_cycles plan = ucast ?c" "plan_timer_hz plan = cfg_timer_hz cfg"
    by (subst c(4), simp)+
  show u: "unat (plan_slice_cycles plan) = unat ?c" unfolding p(1) unat_ucast_mod using b(2) by simp
  show "300 \<le> unat (plan_slice_cycles plan)" unfolding u by (rule b(1))
  show "plan_timer_hz plan = cfg_timer_hz cfg" by (rule p(2))
  show "cfg_timer_hz cfg \<noteq> 0" by (rule c(3))
qed

lemma xt_start_same:
  "fst (xt_start_timer vb cc plan s) = fst (xt_start_words vb plan (xt_kernel s))"
  "xt_kernel (snd (xt_start_timer vb cc plan s)) = snd (xt_start_words vb plan (xt_kernel s))"
  by (simp_all add: xt_start_timer_def xt_start_words_def xt_rearm_def ccompare0_write_def enable_kernel_interrupts_def
      clear_software_interrupt_def Let_def)

text \<open>A start that succeeds: windows on, no interrupt level, both sources enabled, a slice ahead.\<close>

lemma xt_start_effect:
  "ps (snd (xt_start_timer VECBASE cc plan s)) = PS_WOE" "intenable (snd (xt_start_timer VECBASE cc plan s)) = 0x41"
  "ccompare0 (snd (xt_start_timer VECBASE cc plan s)) = cc + kc_slice_cycles (config (xt_kernel s))"
  by (simp_all add: xt_start_timer_def xt_rearm_def ccompare0_write_def enable_kernel_interrupts_def reg_wr_def
      clear_software_interrupt_def PS_TASK_ENTRY_def INT_TIMER0_def INT_SW0_def USE_SOFTWARE_KICK_def Let_def)

section \<open>The diagnostic writer\<close>

text \<open>Reading numbers back.\<close>

definition dec_value :: "u8 list \<Rightarrow> nat" where
  "dec_value bs = foldl (\<lambda>n b. 10 * n + (unat b - 48)) 0 bs"

definition unhex :: "u8 \<Rightarrow> nat" where
  "unhex b = (if b < 97 then unat b - 48 else unat b - 87)"

definition hex_value :: "u8 list \<Rightarrow> nat" where
  "hex_value bs = foldl (\<lambda>n b. 16 * n + unhex b) 0 bs"

lemma num_loop_run:
  assumes "unat n < 10 ^ i" and "i \<le> length buf"
  shows "\<exists>j ds buf'. num_loop n i buf = Some (j, buf') \<and> j \<le> i \<and> length buf' = length buf \<and> drop j buf' = ds @ drop i buf
    \<and> length ds = i - j \<and> dec_value ds = unat n \<and> (\<forall>d\<in>set ds. 48 \<le> unat d \<and> unat d \<le> 57) \<and> (n \<noteq> 0 \<longrightarrow> ds \<noteq> [] \<and> hd ds \<noteq> 48)
    \<and> (n = 0 \<longrightarrow> ds = [])"
  using assms
proof (induction n i buf rule: num_loop.induct)
  case (1 n i buf)
  show ?case
  proof (cases "n = 0")
    case True
    then have "num_loop n i buf = Some (i, buf)" by (subst num_loop.simps) simp
    then show ?thesis using True 1(3)
      by (intro exI [of _ i] exI [of _ "[]"] exI [of _ buf]) (simp add: dec_value_def)
  next
    case False
    then have n: "n > 0" "unat n > 0" by (simp_all add: word_gt_0 unat_gt_0)
    have i: "i \<noteq> 0" using 1(2) n(2) by (cases i) auto
    let ?d = "48 + ucast (n mod 10) :: u8"
    let ?b = "buf[i - 1 := ?d]"
    have q: "unat (n div 10) = unat n div 10" "unat (n mod 10) = unat n mod 10" by (simp_all add: unat_div unat_mod)
    have p10: "(10 :: nat) ^ i = 10 * 10 ^ (i - 1)" using i by (cases i) simp_all
    have lt: "unat (n div 10) < 10 ^ (i - 1)" unfolding q using 1(2) p10 by (simp add: less_mult_imp_div_less mult.commute)
    have ud: "unat ?d = 48 + unat n mod 10"
    proof -
      have "unat (ucast (n mod 10) :: u8) = unat n mod 10" unfolding unat_ucast_mod q by simp
      then show ?thesis by (subst unat_plus_small) simp_all
    qed
    have run: "num_loop n i buf = num_loop (n div 10) (i - 1) ?b"
      using n(1) i by (subst num_loop.simps) simp
    have "i - 1 \<le> length ?b" using 1(3) by simp
    from 1(1) [OF n(1) i lt this] obtain j ds buf' where
      r: "num_loop (n div 10) (i - 1) ?b = Some (j, buf')" "j \<le> i - 1" "length buf' = length ?b"
        "drop j buf' = ds @ drop (i - 1) ?b" "length ds = i - 1 - j" "dec_value ds = unat (n div 10)"
        "\<forall>d\<in>set ds. 48 \<le> unat d \<and> unat d \<le> 57" "n div 10 \<noteq> 0 \<longrightarrow> ds \<noteq> [] \<and> hd ds \<noteq> 48"
        "n div 10 = 0 \<longrightarrow> ds = []" by blast
    have dr: "drop (i - 1) ?b = ?d # drop i buf"
    proof -
      have "i - 1 < length ?b" using i 1(3) by simp
      then have "drop (i - 1) ?b = ?b ! (i - 1) # drop (Suc (i - 1)) ?b" by (rule Cons_nth_drop_Suc [symmetric])
      then show ?thesis using i 1(3) by simp
    qed
    have v: "dec_value (ds @ [?d]) = unat n"
      using r(6) ud by (simp add: dec_value_def q)
    have h: "hd (ds @ [?d]) \<noteq> 48"
    proof (cases "n div 10 = 0")
      case True
      then have "unat n div 10 = 0" using q(1) by simp
      then have m: "unat n mod 10 = unat n" by simp
      have "unat ?d \<noteq> 48" unfolding ud m using n(2) by simp
      then have "?d \<noteq> 48" by auto
      then show ?thesis using True r(9) by simp
    next
      case False
      then show ?thesis using r(8) by simp
    qed
    have dig: "\<forall>d\<in>set (ds @ [?d]). 48 \<le> unat d \<and> unat d \<le> 57" using r(7) ud by auto
    have dd: "drop j buf' = (ds @ [?d]) @ drop i buf" using r(4) dr by simp
    have len: "length (ds @ [?d]) = i - j" "j \<le> i" "length buf' = length buf" using r(2,3,5) i by simp_all
    show ?thesis
      using False by (intro exI [of _ j] exI [of _ "ds @ [?d]"] exI [of _ buf'] conjI)
        (simp only: run r(1), rule len, rule len, rule dd, rule len, rule v, rule dig, use h in simp, simp)
  qed
qed

lemma diag_num_ok:
  "\<exists>bs. diag_num_bytes v = Some bs \<and> dec_value bs = unat v \<and> bs \<noteq> [] \<and> length bs \<le> 10
    \<and> (\<forall>d\<in>set bs. 48 \<le> unat d \<and> unat d \<le> 57) \<and> (v \<noteq> 0 \<longrightarrow> hd bs \<noteq> 48)"
proof (cases "v = 0")
  case True
  then show ?thesis by (simp add: diag_num_bytes_def dec_value_def)
next
  case False
  have "unat v < 2 ^ 32" using unsigned_less [of v] by simp
  then have v: "unat v < 10 ^ 10" by (rule less_trans) simp
  have "10 \<le> length (replicate 10 (0 :: u8))" by simp
  from num_loop_run [OF v this] obtain j ds buf' where
    r: "num_loop v 10 (replicate 10 0) = Some (j, buf')" "drop j buf' = ds @ drop 10 (replicate 10 0)" "length ds = 10 - j"
      "dec_value ds = unat v" "\<forall>d\<in>set ds. 48 \<le> unat d \<and> unat d \<le> 57" "v \<noteq> 0 \<longrightarrow> ds \<noteq> [] \<and> hd ds \<noteq> 48" by blast
  have "diag_num_bytes v = Some ds" using False r(1,2) by (simp add: diag_num_bytes_def)
  then show ?thesis using False r(3-6) by simp
qed

lemma unhex_digit: "unat nib < 16 \<Longrightarrow> unhex (hex_digit nib) = unat nib"
proof -
  assume n: "unat nib < 16"
  show ?thesis
  proof (cases "nib < 10")
    case True
    then have "unat nib < 10" by (simp add: word_less_nat_alt)
    then have "unat (48 + nib) = 48 + unat nib" by (subst unat_plus_small) simp_all
    then show ?thesis using True \<open>unat nib < 10\<close> by (simp add: hex_digit_def unhex_def word_less_nat_alt)
  next
    case False
    then have l: "10 \<le> unat nib" by (simp add: not_less word_le_nat_alt)
    have u: "unat (97 + nib) = 97 + unat nib" using n by (subst unat_plus_small) simp_all
    then have "unat (97 + nib - 10) = 97 + unat nib - 10" by (subst unat_sub) (simp_all add: word_le_nat_alt)
    then show ?thesis using False l by (simp add: hex_digit_def unhex_def word_less_nat_alt)
  qed
qed

lemma hex_nibble: "unat (ucast (drop_bit (4 * n) v AND 0xF) :: u8) = unat (v :: u32) div 16 ^ n mod 16"
proof -
  have "unat (drop_bit (4 * n) v AND 0xF) = unat v div 2 ^ (4 * n) mod 2 ^ 4"
  proof -
    have "(0xF :: u32) = mask 4" by (simp add: mask_eq_exp_minus_1)
    then show ?thesis
      by (simp only: take_bit_eq_mask [symmetric] unsigned_take_bit_eq unat_drop_bit_eq) (simp only: take_bit_eq_mod drop_bit_eq_div)
  qed
  moreover have "(2 :: nat) ^ (4 * n) = 16 ^ n" by (simp add: power_mult)
  ultimately show ?thesis unfolding unat_ucast_mod by simp
qed

lemma foldl_shift: "foldl (\<lambda>n b. 16 * n + unhex b) m bs = 16 ^ length bs * m + hex_value bs"
proof (induction bs arbitrary: m)
  case (Cons b bs)
  have "hex_value (b # bs) = foldl (\<lambda>n b. 16 * n + unhex b) (unhex b) bs" by (simp add: hex_value_def)
  then show ?case using Cons.IH [of "16 * m + unhex b"] Cons.IH [of "unhex b"] by (simp add: algebra_simps)
qed (simp add: hex_value_def)

lemma hex_loop_ok: "hex_value (hex_loop v n) = unat v mod 16 ^ Suc n \<and> length (hex_loop v n) = Suc n"
proof (induction n)
  case 0
  have "unhex (hex_digit (ucast (v AND 0xF))) = unat v mod 16"
    using hex_nibble [of 0 v] unhex_digit by simp
  then show ?case by (simp add: hex_value_def)
next
  case (Suc n)
  let ?d = "hex_digit (ucast (drop_bit (4 * Suc n) v AND 0xF))"
  have d: "unhex ?d = unat v div 16 ^ Suc n mod 16" using hex_nibble [of "Suc n" v] by (subst unhex_digit) simp_all
  have "hex_value (hex_loop v (Suc n)) = foldl (\<lambda>n b. 16 * n + unhex b) (unhex ?d) (hex_loop v n)"
    by (simp add: hex_value_def)
  also have "\<dots> = 16 ^ Suc n * (unat v div 16 ^ Suc n mod 16) + unat v mod 16 ^ Suc n"
    unfolding foldl_shift d using Suc.IH by simp
  also have "\<dots> = unat v mod (16 ^ Suc n * 16)" by (rule mod_mult2_eq [symmetric])
  finally show ?case using Suc.IH by (simp add: mult.commute)
qed

lemma diag_hex_ok: "\<exists>ds. diag_hex_bytes v = [48, 120] @ ds \<and> length ds = 8 \<and> hex_value ds = unat v"
proof -
  have "unat v < 2 ^ 32" using unsigned_less [of v] by simp
  then have "unat v mod 16 ^ Suc 7 = unat v" by simp
  then show ?thesis using hex_loop_ok [of v 7] by (simp add: diag_hex_bytes_def)
qed

lemma fold_putc: "fold diag_putc bs s = s\<lparr>uart := uart s @ bs\<rparr>"
  by (induction bs arbitrary: s) (simp_all add: diag_putc_def)

section \<open>The exception handler\<close>

definition xt_ok :: "ptr \<Rightarrow> ntree \<Rightarrow> xtensa \<Rightarrow> bool" where
  "xt_ok c T s = ((\<exists>ns. sys_inv (xt_kernel s) T ns) \<and> framed_but c 0 26 T (xt_kernel s) \<and> length (ar s) = 16)"

lemma xt_ok_kept:
  assumes "xt_ok c T s" and "sys_inv k T ns" and "kept T (xt_kernel s) k"
  shows "xt_ok c T (s\<lparr>xt_kernel := k\<rparr>)"
  using assms framed_kept by (auto simp: xt_ok_def)

lemma xt_ok_wr:
  assumes ok: "xt_ok c T s"
  shows "xt_ok c T (s\<lparr>xt_kernel := reg_wr a v (xt_kernel s)\<rparr>)"
proof -
  have "framed_but c 0 26 T (reg_wr a v (xt_kernel s))"
    using framed_more [of c 0 26 T "xt_kernel s" "words (reg_wr a v (xt_kernel s))"] ok reg_wr_more
    by (simp add: xt_ok_def reg_wr_def)
  moreover from ok obtain ns where "sys_inv (xt_kernel s) T ns" by (auto simp: xt_ok_def)
  then have "sys_inv (reg_wr a v (xt_kernel s)) T ns" by (rule reg_wr_step)
  ultimately show ?thesis using ok by (auto simp: xt_ok_def)
qed

lemma xt_ok_outside: "xt_kernel s' = xt_kernel s \<Longrightarrow> length (ar s') = length (ar s) \<Longrightarrow> xt_ok c T s' = xt_ok c T s"
  by (simp add: xt_ok_def)

lemma xt_same [simp]:
  "xt_kernel (diag_putc b s) = xt_kernel s" "ar (diag_putc b s) = ar s" "exccause (diag_putc b s) = exccause s"
  "xt_kernel (diag_marker b s) = xt_kernel s" "ar (diag_marker b s) = ar s"
  "xt_kernel (rrkernel_trace v s) = xt_kernel s" "ar (rrkernel_trace v s) = ar s"
  "xt_kernel (xt_report_trap e s) = xt_kernel s" "ar (xt_report_trap e s) = ar s"
  "xt_kernel (clear_software_interrupt s) = xt_kernel s" "ar (clear_software_interrupt s) = ar s"
  "xt_kernel (xt_rearm cc s) = xt_kernel s" "ar (xt_rearm cc s) = ar s"
  by (simp_all add: diag_putc_def diag_marker_def rrkernel_trace_def xt_report_trap_def clear_software_interrupt_def
      xt_rearm_def ccompare0_write_def Let_def)

lemma uart_same [simp]:
  "uart (diag_marker b s) = uart s" "uart (rrkernel_trace v s) = uart s @ [ucast v]"
  "uart (xt_report_trap e s) = uart s" "uart (clear_software_interrupt s) = uart s" "uart (xt_rearm cc s) = uart s"
  by (simp_all add: diag_putc_def diag_marker_def rrkernel_trace_def xt_report_trap_def clear_software_interrupt_def
      xt_rearm_def ccompare0_write_def TRACE_SWITCH_def Let_def)

lemma xt_measure_run:
  assumes "xt_ok c T s"
  shows "xt_ok c T (xt_measure_period cc s)" "ticks (xt_kernel (xt_measure_period cc s)) = ticks (xt_kernel s)"
    "kept T (xt_kernel s) (xt_kernel (xt_measure_period cc s))"
    "ar (xt_measure_period cc s) = ar s" "uart (xt_measure_period cc s) = uart s"
proof -
  from assms obtain ns where inv: "sys_inv (xt_kernel s) T ns" by (auto simp: xt_ok_def)
  have k: "xt_kernel (xt_measure_period cc s) = xt_kernel s
      \<or> (\<exists>v. xt_kernel (xt_measure_period cc s) = record_period_error v (xt_kernel s))"
    by (auto simp: xt_measure_period_def Let_def)
  show a: "ar (xt_measure_period cc s) = ar s" "uart (xt_measure_period cc s) = uart s"
    by (simp_all add: xt_measure_period_def Let_def)
  show q: "kept T (xt_kernel s) (xt_kernel (xt_measure_period cc s))"
    using k record_step(4) [OF inv] by auto
  show "ticks (xt_kernel (xt_measure_period cc s)) = ticks (xt_kernel s)"
    using k by (auto simp: record_period_error_def Let_def)
  have "sys_inv (xt_kernel (xt_measure_period cc s)) T ns" using k inv record_step(3) [OF inv] by auto
  then show "xt_ok c T (xt_measure_period cc s)"
    using assms framed_kept [OF _ q] a by (auto simp: xt_ok_def)
qed

text \<open>The first half of a trap: publish, tick, acknowledge, choose.\<close>

lemma xt_trap_switch_run:
  assumes ok: "xt_ok (current_tcb (xt_kernel s)) T s" and fr: "load_words frame 26 (words (xt_kernel s)) = Some vs"
  shows "\<exists>nx s'. xt_trap_switch pending cc frame s = Some (nx, s') \<and> xt_ok 0 T s' \<and> ar s' = ar s \<and> uart s' = uart s
    \<and> ticks (xt_kernel s') = (if bit pending INT_TIMER0 then ticks (xt_kernel s) + 1 else ticks (xt_kernel s))
    \<and> config (xt_kernel s') = config (xt_kernel s)
    \<and> words (xt_kernel s') = (if bit pending INT_SW0 then (words (xt_kernel s))(DPORT_CPU_INTR_FROM_CPU_0 \<mapsto> 0)
        else words (xt_kernel s))
    \<and> (nx \<noteq> 0 \<longrightarrow> LeafN nx \<in> set (subs T) \<and> current_tcb (xt_kernel s') = nx)"
proof -
  let ?k = "xt_kernel s" and ?c = "current_tcb (xt_kernel s)"
  from ok obtain ns where inv: "sys_inv ?k T ns" and f: "framed_but ?c 0 26 T ?k" by (auto simp: xt_ok_def)
  from publish_step [OF inv, of frame] obtain k1 where
    k1: "(if ?c = 0 then Some ?k else upd (\<lambda>t. t\<lparr>sp := frame\<rparr>) ?c ?k) = Some k1"
      "sys_inv k1 T ns" "words k1 = words ?k" "config k1 = config ?k" "ticks k1 = ticks ?k"
      "\<forall>a. rd k1 a = (if a = ?c then map_option (\<lambda>t. t\<lparr>sp := frame\<rparr>) (rd ?k a) else rd ?k a)" by blast
  have "load_words (frame + 0) 26 (words ?k) \<noteq> None" using fr by simp
  from framed_publish [OF f this k1(6,3)] sys_invD(2) [OF inv] have f1: "framed_but 0 0 26 T k1" by blast
  have at: "words ?k (frame + of_nat (4 * i)) = Some (vs ! i)" if "i < 26" for i
    by (rule load_at [OF fr that])
  have c: "words k1 (frame + OFF_EXCCAUSE) = Some (vs ! 19)" "words k1 (frame + XT_OFF_PC) = Some (vs ! 0)"
    using at [of 19] at [of 0] by (simp_all add: k1(3) OFF_EXCCAUSE_def XT_OFF_PC_def)
  let ?s1 = "diag_marker 84 (s\<lparr>xt_kernel := k1\<rparr>)"
  have ok1: "xt_ok 0 T ?s1" using ok k1(2) f1 by (auto simp: xt_ok_def)
  define F where "F = (if bit pending INT_TIMER0 then do {
            k \<leftarrow> on_tick (xt_kernel ?s1);
            Some (xt_measure_period cc (diag_marker 75 (?s1\<lparr>xt_kernel := k\<rparr>)))
          }
          else Some ?s1)"
  have "\<exists>s2. F = Some s2 \<and> xt_ok 0 T s2 \<and> ar s2 = ar s \<and> uart s2 = uart s
    \<and> ticks (xt_kernel s2) = (if bit pending INT_TIMER0 then ticks ?k + 1 else ticks ?k) \<and> kept T k1 (xt_kernel s2)"
  proof (cases "bit pending INT_TIMER0")
    case True
    from tick_run [OF k1(2)] obtain k where k: "on_tick k1 = Some k" "sys_inv k T ns" "kept T k1 k" "ticks k = ticks k1 + 1"
      by blast
    let ?s2 = "diag_marker 75 (?s1\<lparr>xt_kernel := k\<rparr>)"
    have "xt_ok 0 T (?s1\<lparr>xt_kernel := k\<rparr>)" by (rule xt_ok_kept [OF ok1 k(2)]) (use k(3) in simp)
    then have ok2: "xt_ok 0 T ?s2" by (simp add: xt_ok_def)
    note m = xt_measure_run [OF ok2, of cc]
    have "kept T k1 (xt_kernel (xt_measure_period cc ?s2))" using kept_trans [OF k(3)] m(3) by simp
    then show ?thesis using True k(1,4) k1(5) m by (simp add: F_def)
  next
    case False
    then show ?thesis using ok1 k1(5) by (simp add: F_def)
  qed
  then obtain s2 where s2: "F = Some s2" "xt_ok 0 T s2" "ar s2 = ar s" "uart s2 = uart s"
    "ticks (xt_kernel s2) = (if bit pending INT_TIMER0 then ticks ?k + 1 else ticks ?k)" "kept T k1 (xt_kernel s2)" by blast
  define s3 where "s3 = (if bit pending INT_SW0
              then clear_software_interrupt (s2\<lparr>xt_kernel := reg_wr DPORT_CPU_INTR_FROM_CPU_0 0 (xt_kernel s2)\<rparr>)
              else s2)"
  have w2: "words (xt_kernel s2) = words ?k" "config (xt_kernel s2) = config ?k" using s2(6) k1(3,4) by (simp_all add: kept_def)
  have s3: "xt_ok 0 T s3" "ar s3 = ar s" "uart s3 = uart s" "ticks (xt_kernel s3) = ticks (xt_kernel s2)"
    "config (xt_kernel s3) = config ?k"
    "words (xt_kernel s3) = (if bit pending INT_SW0 then (words ?k)(DPORT_CPU_INTR_FROM_CPU_0 \<mapsto> 0) else words ?k)"
    using s2(2-4) w2 xt_ok_wr [OF s2(2)] xt_ok_outside [of "clear_software_interrupt _"]
    by (simp_all add: s3_def reg_wr_def xt_ok_def)
  from s3(1) obtain ms where "sys_inv (xt_kernel s3) T ms" by (auto simp: xt_ok_def)
  from switch_run [OF this] obtain nx k4 where k4: "schedule_next (xt_kernel s3) = Some (nx, k4)" "sys_inv k4 T ms"
    "kept T (xt_kernel s3) k4" "ticks k4 = ticks (xt_kernel s3)"
    "nx \<noteq> 0 \<longrightarrow> LeafN nx \<in> set (subs T) \<and> current_tcb k4 = nx" by blast
  have ok4: "xt_ok 0 T (s3\<lparr>xt_kernel := k4\<rparr>)" by (rule xt_ok_kept [OF s3(1) k4(2,3)])
  define s5 where "s5 = (let s = diag_marker 78 (s3\<lparr>xt_kernel := k4\<rparr>) in if nx = null_ptr \<and> bit pending INT_TIMER0 then xt_rearm cc s else s)"
  have s5: "xt_kernel s5 = k4" "ar s5 = ar s" "uart s5 = uart s" using s3 by (simp_all add: s5_def Let_def)
  let ?s' = "xt_report_trap \<lparr>xe_cause = vs ! 19, xe_epc = vs ! 0, xe_current = ?c, xe_next = nx, xe_after = False\<rparr> s5"
  have "xt_trap_switch pending cc frame s = Some (nx, ?s')"
  proof -
    have "(if k_current ?k = null_ptr then Some ?k else upd (\<lambda>t. t\<lparr>sp := frame\<rparr>) (k_current ?k) ?k) = Some k1"
      using k1(1) by (simp only: k_current_def)
    then show ?thesis
      unfolding xt_trap_switch_def Let_def
      using c s2(1) k4(1) unfolding F_def s3_def s5_def Let_def k_current_def by simp
  qed
  moreover have "xt_ok 0 T ?s'" using ok4 s5 s3(2) by (simp add: xt_ok_def)
  moreover have "config k4 = config ?k" "words k4 = words (xt_kernel s3)" using k4(3) s3(5) by (simp_all add: kept_def)
  ultimately show ?thesis
    using s5 s3(4,6) s2(5) k4(4,5) by (intro exI [of _ nx] exI [of _ ?s']) simp
qed

text \<open>Restoring: 26 words at the stack pointer.\<close>

definition restored :: "u32 list \<Rightarrow> xtensa \<Rightarrow> bool" where
  "restored vs s = (ar s = take 16 (drop 2 vs) \<and> epc1 s = vs ! 0 \<and> ps s = vs ! 1 \<and> sar s = vs ! 18 \<and> lbeg s = vs ! 21
     \<and> lend s = vs ! 22 \<and> lcount s = vs ! 23 \<and> threadptr s = vs ! 24 \<and> scompare1 s = vs ! 25)"

lemma xt_restore_run:
  assumes ok: "xt_ok c T s" and l: "load_words (ar s ! 1) 26 (words (xt_kernel s)) = Some vs"
  shows "\<exists>s'. xt_restore s = Some s' \<and> restored vs s' \<and> xt_ok c T s' \<and> xt_kernel s' = xt_kernel s \<and> uart s' = uart s
    \<and> ccompare0 s' = ccompare0 s"
proof -
  have n: "length vs = 26" using l by (rule load_length)
  let ?s' = "s\<lparr>sar := vs ! 18, lbeg := vs ! 21, lend := vs ! 22, lcount := vs ! 23, threadptr := vs ! 24,
             scompare1 := vs ! 25, ps := vs ! 1, epc1 := vs ! 0, ar := take 16 (drop 2 vs)\<rparr>"
  have "xt_restore s = Some ?s'" using l by (simp add: xt_restore_def)
  moreover have "restored vs ?s'" by (simp add: restored_def)
  moreover have "xt_ok c T ?s'" using ok n by (simp add: xt_ok_def)
  ultimately show ?thesis by (intro exI [of _ ?s']) simp
qed

context quiet_port
begin

lemma xt_after_run:
  assumes ok: "xt_ok c T s"
  shows "\<exists>s'. xt_after_switch P t0 cc t1 s = Some s' \<and> xt_ok c T s' \<and> ar s' = ar s \<and> uart s' = uart s
    \<and> ticks (xt_kernel s') = ticks (xt_kernel s) \<and> current_tcb (xt_kernel s') = current_tcb (xt_kernel s)
    \<and> kept T (xt_kernel s) (xt_kernel s') \<and> ccompare0 s' = cc + kc_slice_cycles (config (xt_kernel s))
    \<and> (\<forall>a. rd (xt_kernel s') a = rd (the (reclaim_finished_tasks P (xt_kernel s))) a)
    \<and> karena (xt_kernel s') = karena (the (reclaim_finished_tasks P (xt_kernel s)))"
proof -
  let ?m = "kc_measure (config (xt_kernel s)) \<noteq> MeasureOff"
  define e where "e = \<lparr>xe_cause = 0, xe_epc = 0, xe_current = k_current (xt_kernel s), xe_next = k_current (xt_kernel s), xe_after = True\<rparr>"
  from ok obtain ns where "sys_inv (xt_kernel s) T ns" by (auto simp: xt_ok_def)
  from reclaim_run [OF this] obtain k ns' where k: "reclaim_finished_tasks P (xt_kernel s) = Some k" "sys_inv k T ns'"
    "kept T (xt_kernel s) k" "ticks k = ticks (xt_kernel s)" "current_tcb k = current_tcb (xt_kernel s)" by blast
  let ?s2 = "xt_rearm cc ((xt_report_trap e s)\<lparr>xt_kernel := k\<rparr>)"
  let ?v = "t1 - (if ?m then t0 else 0)"
  let ?s' = "if ?m then ?s2\<lparr>xt_kernel := record_latency ?v (xt_kernel ?s2)\<rparr> else ?s2"
  have run: "xt_after_switch P t0 cc t1 s = Some ?s'"
    unfolding xt_after_switch_def e_def Let_def using k(1) by simp
  have ok1: "xt_ok c T (s\<lparr>xt_kernel := k\<rparr>)" by (rule xt_ok_kept [OF ok k(2,3)])
  then have ok2: "xt_ok c T ?s2" by (simp add: xt_ok_def)
  have m: "sys_inv (xt_kernel ?s2) T ns'" using k(2) by simp
  note l = record_step(1,2) [OF m, of ?v]
  have "xt_ok c T ?s'" using ok2 xt_ok_kept [OF ok2 l] by (cases ?m) simp_all
  moreover have "ar ?s' = ar s" "uart ?s' = uart s" by simp_all
  moreover have "kept T (xt_kernel s) (xt_kernel ?s')" using k(3) kept_trans [OF k(3)] l(2) by (cases ?m) simp_all
  moreover have c: "config k = config (xt_kernel s)" using k(3) by (simp add: kept_def)
  moreover have "ccompare0 ?s' = cc + kc_slice_cycles (config (xt_kernel s))"
    by (simp add: xt_rearm_def ccompare0_write_def c Let_def)
  moreover have "ticks (xt_kernel ?s') = ticks k" "current_tcb (xt_kernel ?s') = current_tcb k" "karena (xt_kernel ?s') = karena k"
    "rd (xt_kernel ?s') a = rd k a" for a
    by (simp_all add: record_latency_def Let_def rd_def)
  ultimately show ?thesis using run k by (intro exI [of _ ?s']) simp
qed

text \<open>The whole level-1 path: the task handed out runs from its own frame; with nothing runnable the
  interrupted code goes on from the frame just saved.\<close>

lemma xt_level1_run:
  assumes ok: "xt_ok (current_tcb (xt_kernel s)) T s" and fr: "load_words (ar s ! 1) 26 (words (xt_kernel s)) = Some vs"
    and apart: "\<forall>i<26. DPORT_CPU_INTR_FROM_CPU_0 \<noteq> ar s ! 1 + of_nat (4 * i)"
  shows "\<exists>nx s1 s' ws. xt_level1 P pending (c0, t0, c1, t1) s = Some s' \<and> xt_ok 0 T s' \<and> restored ws s'
    \<and> xt_trap_switch pending c0 (ar s ! 1) (rrkernel_trace 69 (s\<lparr>ps := 3 OR PS_WOE\<rparr>)) = Some (nx, s1)
    \<and> (\<forall>a. rd (xt_kernel s') a = rd (the (reclaim_finished_tasks P (xt_kernel s1))) a)
    \<and> karena (xt_kernel s') = karena (the (reclaim_finished_tasks P (xt_kernel s1)))
    \<and> ticks (xt_kernel s') = (if bit pending INT_TIMER0 then ticks (xt_kernel s) + 1 else ticks (xt_kernel s))
    \<and> ccompare0 s' = c1 + kc_slice_cycles (config (xt_kernel s'))
    \<and> uart s' = uart s @ (if nx = 0 then [69, 82] else [69, 83, 82])
    \<and> (if nx = 0 then ws = vs
       else \<exists>t. LeafN nx \<in> set (subs T) \<and> current_tcb (xt_kernel s') = nx \<and> rd (xt_kernel s') nx = Some t
         \<and> load_words (sp t) 26 (words (xt_kernel s')) = Some ws)"
proof -
  let ?f = "ar s ! 1"
  let ?s0 = "rrkernel_trace 69 (s\<lparr>ps := 3 OR PS_WOE\<rparr>)"
  have ok0: "xt_ok (current_tcb (xt_kernel ?s0)) T ?s0" using ok by (simp add: xt_ok_def)
  have "load_words ?f 26 (words (xt_kernel ?s0)) = Some vs" using fr by simp
  note tr = xt_trap_switch_run [OF ok0 this, of pending c0]
  have k0: "xt_kernel ?s0 = xt_kernel s" "ar ?s0 = ar s" "uart ?s0 = uart s @ [69]" by simp_all
  from tr [unfolded k0] obtain nx s1 where
    s1: "xt_trap_switch pending c0 ?f ?s0 = Some (nx, s1)" "xt_ok 0 T s1" "ar s1 = ar s" "uart s1 = uart s @ [69]"
      "ticks (xt_kernel s1) = (if bit pending INT_TIMER0 then ticks (xt_kernel s) + 1 else ticks (xt_kernel s))"
      "words (xt_kernel s1) = (if bit pending INT_SW0 then (words (xt_kernel s))(DPORT_CPU_INTR_FROM_CPU_0 \<mapsto> 0)
        else words (xt_kernel s))"
      "nx \<noteq> 0 \<longrightarrow> LeafN nx \<in> set (subs T) \<and> current_tcb (xt_kernel s1) = nx" by blast
  have f1: "load_words ?f 26 (words (xt_kernel s1)) = Some vs"
  proof -
    have "\<forall>i<26. words (xt_kernel s1) (?f + of_nat (4 * i)) = words (xt_kernel s) (?f + of_nat (4 * i))"
    proof (intro allI impI)
      fix i :: nat assume "i < 26"
      from apart \<open>i < 26\<close> have ne: "(?f + of_nat (4 * i) = DPORT_CPU_INTR_FROM_CPU_0) = False" by metis
      show "words (xt_kernel s1) (?f + of_nat (4 * i)) = words (xt_kernel s) (?f + of_nat (4 * i))"
        unfolding s1(6) by (cases "bit pending INT_SW0") (simp_all only: if_True if_False fun_upd_apply ne)
    qed
    then have "load_words ?f 26 (words (xt_kernel s1)) = load_words ?f 26 (words (xt_kernel s))" by (rule load_cong)
    then show ?thesis using fr by (simp only:)
  qed
  have len: "length (ar s1) = 16" using s1(2) by (simp add: xt_ok_def)
  have "\<exists>s2 ws. (if nx = null_ptr then Some s1
          else do { t \<leftarrow> rd (xt_kernel s1) nx; Some (rrkernel_trace 83 (s1\<lparr>ar := (ar s1)[1 := sp t]\<rparr>)) }) = Some s2
      \<and> xt_ok 0 T s2 \<and> xt_kernel s2 = xt_kernel s1 \<and> uart s2 = uart s @ (if nx = 0 then [69] else [69, 83])
      \<and> load_words (ar s2 ! 1) 26 (words (xt_kernel s1)) = Some ws
      \<and> (if nx = 0 then ws = vs else \<exists>t. rd (xt_kernel s1) nx = Some t \<and> ar s2 ! 1 = sp t)"
  proof (cases "nx = 0")
    case True
    then show ?thesis using s1(2,3,4) f1 by (intro exI [of _ s1] exI [of _ vs]) simp
  next
    case False
    with s1(2,7) obtain t ws where t: "rd (xt_kernel s1) nx = Some t" "load_words (sp t) 26 (words (xt_kernel s1)) = Some ws"
      by (auto simp: xt_ok_def framed_but_def)
    let ?s2 = "rrkernel_trace 83 (s1\<lparr>ar := (ar s1)[1 := sp t]\<rparr>)"
    have "xt_ok 0 T ?s2" using s1(2) len by (simp add: xt_ok_def)
    moreover have "ar ?s2 ! 1 = sp t" using len by simp
    ultimately show ?thesis using False t s1(4) by (intro exI [of _ ?s2] exI [of _ ws]) simp
  qed
  then obtain s2 ws where s2: "(if nx = null_ptr then Some s1
          else do { t \<leftarrow> rd (xt_kernel s1) nx; Some (rrkernel_trace 83 (s1\<lparr>ar := (ar s1)[1 := sp t]\<rparr>)) }) = Some s2"
      "xt_ok 0 T s2" "xt_kernel s2 = xt_kernel s1" "uart s2 = uart s @ (if nx = 0 then [69] else [69, 83])"
      "load_words (ar s2 ! 1) 26 (words (xt_kernel s1)) = Some ws"
      "if nx = 0 then ws = vs else \<exists>t. rd (xt_kernel s1) nx = Some t \<and> ar s2 ! 1 = sp t" by blast
  from xt_after_run [OF s2(2), of t0 c1 t1] obtain s3 where
    s3: "xt_after_switch P t0 c1 t1 s2 = Some s3" "xt_ok 0 T s3" "ar s3 = ar s2" "uart s3 = uart s2"
      "ticks (xt_kernel s3) = ticks (xt_kernel s2)" "current_tcb (xt_kernel s3) = current_tcb (xt_kernel s2)"
      "kept T (xt_kernel s2) (xt_kernel s3)" "ccompare0 s3 = c1 + kc_slice_cycles (config (xt_kernel s2))"
      "\<forall>a. rd (xt_kernel s3) a = rd (the (reclaim_finished_tasks P (xt_kernel s2))) a"
      "karena (xt_kernel s3) = karena (the (reclaim_finished_tasks P (xt_kernel s2)))" by blast
  have ok4: "xt_ok 0 T (rrkernel_trace 82 s3)" using s3(2) by (simp add: xt_ok_def)
  have w3: "words (xt_kernel s3) = words (xt_kernel s1)" "config (xt_kernel s3) = config (xt_kernel s2)"
    using s3(7) s2(3) by (simp_all add: kept_def)
  have "load_words (ar (rrkernel_trace 82 s3) ! 1) 26 (words (xt_kernel (rrkernel_trace 82 s3))) = Some ws"
    using s2(5) s3(3) w3 by simp
  from xt_restore_run [OF ok4 this] obtain s' where s': "xt_restore (rrkernel_trace 82 s3) = Some s'" "restored ws s'"
    "xt_ok 0 T s'" "xt_kernel s' = xt_kernel s3" "uart s' = uart (rrkernel_trace 82 s3)"
    "ccompare0 s' = ccompare0 (rrkernel_trace 82 s3)" by auto
  have cc: "ccompare0 (rrkernel_trace 82 s3) = ccompare0 s3" by (simp add: rrkernel_trace_def diag_putc_def)
  have fin: "if nx = 0 then ws = vs
       else \<exists>t. LeafN nx \<in> set (subs T) \<and> current_tcb (xt_kernel s') = nx \<and> rd (xt_kernel s') nx = Some t
         \<and> load_words (sp t) 26 (words (xt_kernel s')) = Some ws"
  proof (cases "nx = 0")
    case True
    then show ?thesis using s2(6) by simp
  next
    case False
    then obtain t where t: "rd (xt_kernel s1) nx = Some t" "ar s2 ! 1 = sp t" using s2(6) by auto
    have n: "LeafN nx \<in> set (subs T)" "current_tcb (xt_kernel s1) = nx" using s1(7) False by simp_all
    have "nx \<in> set (addrs T)" using subs_addr [OF n(1)] by simp
    then have "map_option sp (rd (xt_kernel s3) nx) = Some (sp t)" using s3(7) s2(3) t(1) by (simp add: kept_def)
    then obtain u where u: "rd (xt_kernel s3) nx = Some u" "sp u = sp t" by auto
    have "load_words (sp u) 26 (words (xt_kernel s')) = Some ws" using s2(5) t(2) u(2) s'(4) w3(1) by simp
    then show ?thesis using False n u(1) s'(4) s3(6) s2(3) by simp
  qed
  have "xt_level1 P pending (c0, t0, c1, t1) s = Some s'"
    unfolding xt_level1_def using s1(1,3) s2(1) s3(1) s'(1) by simp
  moreover have "ticks (xt_kernel s') = (if bit pending INT_TIMER0 then ticks (xt_kernel s) + 1 else ticks (xt_kernel s))"
    using s'(4) s3(5) s2(3) s1(5) by simp
  moreover have "ccompare0 s' = c1 + kc_slice_cycles (config (xt_kernel s'))" using s'(4,6) cc s3(8) w3(2) by simp
  moreover have "uart s' = uart s @ (if nx = 0 then [69, 82] else [69, 83, 82])" using s'(5) s3(4) s2(4) by simp
  moreover have "\<forall>a. rd (xt_kernel s') a = rd (the (reclaim_finished_tasks P (xt_kernel s1))) a"
    "karena (xt_kernel s') = karena (the (reclaim_finished_tasks P (xt_kernel s1)))"
    using s3(9,10) s2(3) s'(4) by simp_all
  ultimately show ?thesis using s'(2,3) fin s1(1) by blast
qed

end

section \<open>Saving and restoring\<close>

lemma frame_length: "length (ar s) = 16 \<Longrightarrow> length (frame_of s) = 26"
  by (simp add: frame_of_def)

lemma xt_save_run:
  assumes ok: "xt_ok c T s"
  shows "xt_ok c T (xt_save s)" "ar (xt_save s) ! 1 = ar s ! 1 - XT_FRAME_SIZE"
    "load_words (ar (xt_save s) ! 1) 26 (words (xt_kernel (xt_save s))) = Some (frame_of s)"
    "current_tcb (xt_kernel (xt_save s)) = current_tcb (xt_kernel s)" "ticks (xt_kernel (xt_save s)) = ticks (xt_kernel s)"
proof -
  let ?b = "ar s ! 1 - XT_FRAME_SIZE"
  let ?w = "store_words ?b (frame_of s) (words (xt_kernel s))"
  from ok obtain ns where inv: "sys_inv (xt_kernel s) T ns" and f: "framed_but c 0 26 T (xt_kernel s)" and n: "length (ar s) = 16"
    by (auto simp: xt_ok_def)
  have k: "xt_kernel (xt_save s) = (xt_kernel s)\<lparr>words := ?w\<rparr>" "length (ar (xt_save s)) = 16"
    using n by (simp_all add: xt_save_def Let_def)
  show a: "ar (xt_save s) ! 1 = ?b" using n by (simp add: xt_save_def Let_def)
  have "sys_inv ((xt_kernel s)\<lparr>words := ?w\<rparr>) T ns" by (rule quiet_step [OF inv]) simp_all
  moreover have "framed_but c 0 26 T ((xt_kernel s)\<lparr>words := ?w\<rparr>)" using framed_more [OF f, of ?w] store_more by simp
  ultimately show "xt_ok c T (xt_save s)" using k by (auto simp: xt_ok_def)
  show "load_words (ar (xt_save s) ! 1) 26 (words (xt_kernel (xt_save s))) = Some (frame_of s)"
    using load_store [of "frame_of s" ?b "words (xt_kernel s)"] frame_length [OF n] a k by simp
  show "current_tcb (xt_kernel (xt_save s)) = current_tcb (xt_kernel s)" "ticks (xt_kernel (xt_save s)) = ticks (xt_kernel s)"
    using k by simp_all
qed

text \<open>The state on the way into the frame: the vector, then the test for an Alloca exception.\<close>

definition xt_entered :: "xtensa \<Rightarrow> xtensa" where
  "xt_entered s = xt_dispatch (xtensa_kernel_vector s)"

lemma entered_ok: "xt_ok c T s \<Longrightarrow> xt_ok c T (xt_entered s)"
  by (simp add: xt_ok_def xt_entered_def xt_dispatch_def xtensa_kernel_vector_def)

lemma entered_same:
  "xt_kernel (xt_entered s) = xt_kernel s" "exccause (xt_entered s) = exccause s"
  "ar (xt_entered s) = (ar s)[2 := exccause s, 3 := EXCCAUSE_ALLOCA]" "uart (xt_entered s) = uart s"
  by (simp_all add: xt_entered_def xt_dispatch_def xtensa_kernel_vector_def)

lemma entered_frame:
  assumes n: "length (ar s) = 16"
  shows "take 16 (drop 2 (frame_of (xt_entered s))) = (ar s)[2 := exccause s, 3 := EXCCAUSE_ALLOCA]"
    "frame_of (xt_entered s) ! 0 = epc1 s" "frame_of (xt_entered s) ! 1 = ps s AND NOT PS_EXCM"
    "frame_of (xt_entered s) ! 18 = sar s" "frame_of (xt_entered s) ! 21 = lbeg s" "frame_of (xt_entered s) ! 22 = lend s"
    "frame_of (xt_entered s) ! 23 = lcount s" "frame_of (xt_entered s) ! 24 = threadptr s"
    "frame_of (xt_entered s) ! 25 = scompare1 s"
proof -
  obtain x xs where x: "ar s = x # xs" "length xs = 15" using n by (cases "ar s") auto
  let ?l = "xs[1 := exccause s, 2 := EXCCAUSE_ALLOCA]"
  have f: "frame_of (xt_entered s) = [epc1 s, ps s AND NOT PS_EXCM, x] @ ?l @
     [sar s, exccause s, excvaddr s, lbeg s, lend s, lcount s, threadptr s, scompare1 s]"
    using x by (simp add: frame_of_def xt_entered_def xt_dispatch_def xtensa_kernel_vector_def numeral_2_eq_2 numeral_3_eq_3)
  have l: "length ?l = 15" using x(2) by simp
  show "take 16 (drop 2 (frame_of (xt_entered s))) = (ar s)[2 := exccause s, 3 := EXCCAUSE_ALLOCA]"
    unfolding f x(1) using l by (simp add: numeral_2_eq_2 numeral_3_eq_3)
  show "frame_of (xt_entered s) ! 0 = epc1 s" "frame_of (xt_entered s) ! 1 = ps s AND NOT PS_EXCM"
    "frame_of (xt_entered s) ! 18 = sar s" "frame_of (xt_entered s) ! 21 = lbeg s" "frame_of (xt_entered s) ! 22 = lend s"
    "frame_of (xt_entered s) ! 23 = lcount s" "frame_of (xt_entered s) ! 24 = threadptr s"
    "frame_of (xt_entered s) ! 25 = scompare1 s"
    unfolding f using l by (simp_all add: nth_append nth_Cons')
qed

text \<open>An interrupted task gets back everything but \<open>a2\<close> and \<open>a3\<close>: those come back as the cause and
  the constant they were compared with.\<close>

lemma xt_switch_back:
  assumes n: "length (ar s) = 16" and s1: "s1 = xt_save (xt_entered s)"
    and later: "ar s2 ! 1 = ar s1 ! 1"
      "\<forall>i<26. words (xt_kernel s2) (ar s1 ! 1 + of_nat (4 * i)) = words (xt_kernel s1) (ar s1 ! 1 + of_nat (4 * i))"
  shows "\<exists>s3. xt_restore s2 = Some s3 \<and> ar s3 = (ar s)[2 := exccause s, 3 := EXCCAUSE_ALLOCA] \<and> epc1 s3 = epc1 s
    \<and> ps s3 = ps s AND NOT PS_EXCM \<and> sar s3 = sar s \<and> lbeg s3 = lbeg s \<and> lend s3 = lend s \<and> lcount s3 = lcount s
    \<and> threadptr s3 = threadptr s \<and> scompare1 s3 = scompare1 s"
proof -
  let ?e = "xt_entered s"
  have ne: "length (ar ?e) = 16" using n by (simp add: entered_same)
  have w: "ar s1 ! 1 = ar ?e ! 1 - XT_FRAME_SIZE"
    "words (xt_kernel s1) = store_words (ar ?e ! 1 - XT_FRAME_SIZE) (frame_of ?e) (words (xt_kernel ?e))"
    using ne by (simp_all add: s1 xt_save_def Let_def)
  have "load_words (ar s2 ! 1) 26 (words (xt_kernel s2)) = load_words (ar s1 ! 1) 26 (words (xt_kernel s1))"
    unfolding later(1) by (rule load_cong [OF later(2)])
  also have "\<dots> = Some (frame_of ?e)" unfolding w using load_store [of "frame_of ?e"] frame_length [OF ne] by simp
  finally have "load_words (ar s2 ! 1) 26 (words (xt_kernel s2)) = Some (frame_of ?e)" .
  then show ?thesis using entered_frame [OF n] by (simp add: xt_restore_def)
qed

text \<open>The whole handler on a level-1 interrupt.\<close>

context quiet_port
begin

lemma xt_handler_run:
  assumes ok: "xt_ok (current_tcb (xt_kernel s)) T s" and lvl: "exccause s = EXCCAUSE_LEVEL1_INTERRUPT"
    and apart: "\<forall>i<26. DPORT_CPU_INTR_FROM_CPU_0 \<noteq> ar s ! 1 - XT_FRAME_SIZE + of_nat (4 * i)"
  shows "\<exists>s' ws. xtensa_exception_handler P pending c (xtensa_kernel_vector s) = Some (XtResumed, s')
    \<and> xt_ok 0 T s' \<and> restored ws s'
    \<and> ticks (xt_kernel s') = (if bit pending INT_TIMER0 then ticks (xt_kernel s) + 1 else ticks (xt_kernel s))
    \<and> (ws = frame_of (xt_entered s) \<or> (\<exists>t. LeafN (current_tcb (xt_kernel s')) \<in> set (subs T)
         \<and> rd (xt_kernel s') (current_tcb (xt_kernel s')) = Some t
         \<and> load_words (sp t) 26 (words (xt_kernel s')) = Some ws))"
proof -
  let ?e = "xt_entered s" and ?v = "xt_save (xt_entered s)"
  obtain c0 t0 c1 t1 where c: "c = (c0, t0, c1, t1)" by (cases c)
  note e = entered_same [of s]
  have n: "length (ar s) = 16" using ok by (simp add: xt_ok_def)
  have oke: "xt_ok (current_tcb (xt_kernel ?e)) T ?e" using entered_ok [OF ok] by (simp add: e)
  note v = xt_save_run [OF oke]
  have okv: "xt_ok (current_tcb (xt_kernel ?v)) T ?v" using v(1) by (simp only: v(4))
  have a1: "ar ?v ! 1 = ar s ! 1 - XT_FRAME_SIZE" using v(2) n by (simp add: e)
  have kv: "ticks (xt_kernel ?v) = ticks (xt_kernel s)" using v(5) by (simp add: e)
  from xt_level1_run [OF okv v(3) apart [folded a1], of pending c0 t0 c1 t1] obtain nx s' ws where
    r: "xt_level1 P pending (c0, t0, c1, t1) ?v = Some s'" "xt_ok 0 T s'" "restored ws s'"
      "ticks (xt_kernel s') = (if bit pending INT_TIMER0 then ticks (xt_kernel ?v) + 1 else ticks (xt_kernel ?v))"
      "if nx = 0 then ws = frame_of ?e
       else \<exists>t. LeafN nx \<in> set (subs T) \<and> current_tcb (xt_kernel s') = nx \<and> rd (xt_kernel s') nx = Some t
         \<and> load_words (sp t) 26 (words (xt_kernel s')) = Some ws" by blast
  have ex: "exccause ?v = exccause s" by (simp add: xt_save_def Let_def e)
  have ex2: "exccause (xt_dispatch (xtensa_kernel_vector s)) = exccause s" using e(2) by (simp add: xt_entered_def)
  have "xtensa_exception_handler P pending c (xtensa_kernel_vector s) = Some (XtResumed, s')"
    unfolding xtensa_exception_handler_def Let_def xt_entered_def [symmetric] c
    using r(1) ex e(2) lvl by (simp add: EXCCAUSE_LEVEL1_INTERRUPT_def EXCCAUSE_ALLOCA_def)
  then show ?thesis using r(2-5) kv by (cases "nx = 0") auto
qed

text \<open>Nothing runnable and a kick, after the running task has ended: the interrupted code goes on
  from the frame on its own stack, and that stack has been freed.\<close>

lemma xt_idle_kick:
  assumes inv: "sys_inv (xt_kernel s) T ns" and ok: "xt_ok 0 T s" and cur: "current_tcb (xt_kernel s) = 0"
    and none: "none_runnable (xt_kernel s) T" and p: "\<not> bit pending INT_TIMER0"
    and fr: "load_words frame 26 (words (xt_kernel s)) = Some vs" and sw: "xt_trap_switch pending cc frame s = Some (nx, s1)"
  shows "nx = 0" and "sys_inv (xt_kernel s1) T ns" and "karena (xt_kernel s1) = karena (xt_kernel s)"
    and "map_option blocks_of (rd (xt_kernel s1) a) = map_option blocks_of (rd (xt_kernel s) a)"
proof -
  let ?k = "if bit pending INT_SW0 then reg_wr DPORT_CPU_INTR_FROM_CPU_0 0 (xt_kernel s) else xt_kernel s"
  have iK: "sys_inv ?k T ns" using inv reg_wr_step by simp
  have nK: "none_runnable ?k T" using none by (simp add: none_runnable_def reg_wr_def)
  from idle_schedule [OF sys_invD(1) [OF iK] nK] obtain k4 where
    k4: "schedule_next ?k = Some (0, k4)" "karena k4 = karena ?k" by blast
  from switch_step [OF iK] k4(1) have i4: "sys_inv k4 T ns" and ss: "steady_step (set ns) ?k k4" by auto
  have bs: "blocks_of (steady t) = blocks_of t" for t by (simp add: steady_def blocks_of_def)
  have "map_option steady (rd k4 a) = map_option steady (rd ?k a)" using ss unfolding steady_step_def by blast
  then have st: "map_option blocks_of (rd k4 a) = map_option blocks_of (rd ?k a)"
    by (cases "rd k4 a"; cases "rd ?k a") (simp_all, metis bs)
  have c: "words (xt_kernel s) (frame + OFF_EXCCAUSE) = Some (vs ! 19)" "words (xt_kernel s) (frame + XT_OFF_PC) = Some (vs ! 0)"
    using load_at [OF fr, of 19] load_at [OF fr, of 0] by (simp_all add: OFF_EXCCAUSE_def XT_OFF_PC_def)
  have "nx = 0 \<and> xt_kernel s1 = k4"
    using sw k4(1) p cur c unfolding xt_trap_switch_def Let_def k_current_def
    by (cases "bit pending INT_SW0") (auto simp: diag_marker_def TRACE_SWITCH_def xt_report_trap_def clear_software_interrupt_def)
  then show "nx = 0" "sys_inv (xt_kernel s1) T ns" "karena (xt_kernel s1) = karena (xt_kernel s)"
    "map_option blocks_of (rd (xt_kernel s1) a) = map_option blocks_of (rd (xt_kernel s) a)"
    using i4 k4(2) st by (simp_all add: reg_wr_def rd_def)
qed

lemma xt_frees_own_stack:
  assumes inv: "sys_inv (xt_kernel s) T ns" and ok: "xt_ok 0 T s" and cur: "current_tcb (xt_kernel s) = 0"
    and none: "none_runnable (xt_kernel s) T" and p: "\<not> bit pending INT_TIMER0"
    and fr: "load_words (ar s ! 1) 26 (words (xt_kernel s)) = Some vs"
    and apart: "\<forall>i<26. DPORT_CPU_INTR_FROM_CPU_0 \<noteq> ar s ! 1 + of_nat (4 * i)"
  shows "\<exists>s'. xt_level1 P pending c s = Some s' \<and> restored vs s'
    \<and> (\<forall>d\<in>set ns. \<not> port_pinned P d \<longrightarrow> rd (xt_kernel s') d = None
        \<and> (\<forall>t b. rd (xt_kernel s) d = Some t \<longrightarrow> b \<in> set (blocks_of t)
            \<longrightarrow> live_payload (karena (xt_kernel s)) b \<and> \<not> live_payload (karena (xt_kernel s')) b))"
proof -
  obtain c0 t0 c1 t1 where c: "c = (c0, t0, c1, t1)" by (cases c)
  have ok': "xt_ok (current_tcb (xt_kernel s)) T s" using ok cur by simp
  let ?s0 = "rrkernel_trace 69 (s\<lparr>ps := 3 OR PS_WOE\<rparr>)"
  have k0: "xt_kernel ?s0 = xt_kernel s" "ar ?s0 = ar s" by simp_all
  from xt_level1_run [OF ok' fr apart, of pending c0 t0 c1 t1] obtain nx s1 s' ws where
    r: "xt_level1 P pending (c0, t0, c1, t1) s = Some s'" "restored ws s'" "xt_trap_switch pending c0 (ar s ! 1) ?s0 = Some (nx, s1)"
      "\<forall>a. rd (xt_kernel s') a = rd (the (reclaim_finished_tasks P (xt_kernel s1))) a"
      "karena (xt_kernel s') = karena (the (reclaim_finished_tasks P (xt_kernel s1)))"
      "if nx = 0 then ws = vs
       else \<exists>t. LeafN nx \<in> set (subs T) \<and> current_tcb (xt_kernel s') = nx \<and> rd (xt_kernel s') nx = Some t
         \<and> load_words (sp t) 26 (words (xt_kernel s')) = Some ws"
    by (elim exE conjE) (rule that; assumption)
  have ok0: "xt_ok 0 T ?s0" using ok by (simp add: xt_ok_def)
  note idle = xt_idle_kick [OF inv [folded k0(1)] ok0 cur [folded k0(1)] none [folded k0(1)] p fr [folded k0(1)] r(3), unfolded k0]
  from sys_invD [OF idle(2)] have i: "tree_ok (xt_kernel s1) T" "mem_ok (xt_kernel s1)" "dead_ok (xt_kernel s1) T ns" by auto
  from reclaim_ok [OF i(2,1,3)] obtain k2 B where k2: "reclaim_finished_tasks P (xt_kernel s1) = Some k2"
    "\<forall>a\<in>set ns. \<not> port_pinned P a \<longrightarrow> rd k2 a = None" "lost_all (karena (xt_kernel s1)) (karena k2) B"
    "B = (\<Union>a\<in>{a \<in> set ns. \<not> port_pinned P a}. insert a (set (blocks_of (the (rd (xt_kernel s1) a)))))"
    by (elim exE conjE) (rule that)
  have "rd (xt_kernel s') d = None \<and> (\<forall>t b. rd (xt_kernel s) d = Some t \<longrightarrow> b \<in> set (blocks_of t)
      \<longrightarrow> live_payload (karena (xt_kernel s)) b \<and> \<not> live_payload (karena (xt_kernel s')) b)"
    if d: "d \<in> set ns" "\<not> port_pinned P d" for d
  proof (intro conjI allI impI)
    show "rd (xt_kernel s') d = None" using r(4) k2(1,2) d by simp
    fix t b assume t: "rd (xt_kernel s) d = Some t" "b \<in> set (blocks_of t)"
    have b1: "blocks_of (the (rd (xt_kernel s1) d)) = blocks_of t" using idle(4) [of d] t(1) by (cases "rd (xt_kernel s1) d") auto
    have "b \<in> B" unfolding k2(4) by (rule UN_I [of d]) (use d t(2) b1 in simp_all)
    then show "\<not> live_payload (karena (xt_kernel s')) b" using r(5) k2(1,3) by (simp add: lost_all_def)
    show "live_payload (karena (xt_kernel s)) b" using sys_invD(3) [OF inv] t by (auto simp: mem_ok_def)
  qed
  then show ?thesis using r(1,2,6) idle(1) unfolding c by auto
qed

end

section \<open>A task's first frame\<close>

lemma xt_frame_list:
  "xt_frame_words entry p frame w =
     store_words frame ((replicate 32 0)[0 := entry, 1 := PS_TASK_ENTRY, 3 := frame, 4 := p]) w"
proof -
  let ?z = "replicate 32 (0 :: u32)"
  have o: "XT_OFF_PC = of_nat (4 * 0)" "XT_OFF_PS = of_nat (4 * 1)" "XT_OFF_A1 = of_nat (4 * 3)" "XT_OFF_A2 = of_nat (4 * 4)"
    by (simp_all add: XT_OFF_PC_def XT_OFF_PS_def XT_OFF_A1_def XT_OFF_A2_def)
  have "(store_words frame ?z w)(frame + of_nat (4 * 0) \<mapsto> entry) = store_words frame (?z[0 := entry]) w"
    by (rule store_words_upd) simp_all
  moreover have "(store_words frame (?z[0 := entry]) w)(frame + of_nat (4 * 1) \<mapsto> PS_TASK_ENTRY)
      = store_words frame (?z[0 := entry, 1 := PS_TASK_ENTRY]) w"
    by (rule store_words_upd) simp_all
  moreover have "(store_words frame (?z[0 := entry, 1 := PS_TASK_ENTRY]) w)(frame + of_nat (4 * 3) \<mapsto> frame)
      = store_words frame (?z[0 := entry, 1 := PS_TASK_ENTRY, 3 := frame]) w"
    by (rule store_words_upd) simp_all
  moreover have "(store_words frame (?z[0 := entry, 1 := PS_TASK_ENTRY, 3 := frame]) w)(frame + of_nat (4 * 4) \<mapsto> p)
      = store_words frame (?z[0 := entry, 1 := PS_TASK_ENTRY, 3 := frame, 4 := p]) w"
    by (rule store_words_upd) simp_all
  ultimately show ?thesis unfolding xt_frame_words_def o by (simp only: fun_upd_def)
qed

text \<open>A new task starts at the trampoline with its TCB in \<open>a2\<close>, interrupts and window overflows
  enabled, and a stack that grows down from its frame, at the aligned end of its own block.\<close>

lemma xt_first_dispatch:
  assumes t: "rd k p = Some t" and a: "alloc_block (max sz 512 + 144) 16 k = Some (Some b, k\<lparr>karena := a\<rparr>)"
    and c: "xt_create e p sz k = Some (Inr (), k1)" and rm: "unat b + unat sz + 1024 \<le> 2 ^ 32"
    and s: "xt_kernel s = k1" "rd k1 p = Some t1" "ar s ! 1 = sp t1"
  shows "\<exists>s'. xt_restore s = Some s' \<and> ar s' = (replicate 16 0)[1 := sp t1, 2 := p] \<and> epc1 s' = e \<and> ps s' = PS_TASK_ENTRY
    \<and> unat (sp t1) mod 16 = 0 \<and> unat b + 512 \<le> unat (sp t1)
    \<and> unat (sp t1) + unat XT_FRAME_SIZE \<le> unat b + unat (max sz 512 + 144)"
proof -
  let ?tp = "xt_top b sz" and ?m = "max sz 512 + 128"
  let ?f = "?tp - 128"
  let ?vs = "(replicate 32 0)[0 := e, 1 := PS_TASK_ENTRY, 3 := ?f, 4 := p]"
  have p0: "p \<noteq> 0" using t rd_nonnull by blast
  from c xt_create_run [OF t a, of e] have k1: "k1 = put p (t\<lparr>stack_base := b, stack_size := max sz 512, sp := ?f, flags := 0\<rparr>)
      (k\<lparr>karena := a, words := xt_frame_words e p ?f (words k)\<rparr>)" by simp
  have sp1: "sp t1 = ?f" using s(2) rd_put [OF p0] unfolding k1 by auto
  have w: "words k1 = store_words ?f ?vs (words k)" unfolding k1 by (simp add: put_def xt_frame_list)
  have l: "load_words (ar s ! 1) 26 (words (xt_kernel s)) = Some (take 26 ?vs)"
    unfolding s(1,3) sp1 w using load_slice [of ?vs 0 26 ?f "words k"] by simp
  have m: "unat (max sz 512) \<le> unat sz + 512" "512 \<le> unat (max sz 512)" by (simp_all add: max_def word_le_nat_alt)
  have m1: "unat ?m = unat (max sz 512) + 128" using rm m(1) by (subst unat_plus_small) simp_all
  have r: "unat b + unat ?m + unat (16 :: u32) < 2 ^ 32" using rm m(1) m1 by simp
  have z: "unat (max sz 512 + 144) = unat ?m + 16"
    using unat_plus_small [of ?m 16] r by (simp add: add.assoc)
  have tp: "?tp = (b + (?m + 16)) AND NOT (16 - 1)" by (simp add: xt_top_def add.assoc)
  note B = top_bounds [of 16 4, OF _ _ r, folded tp]
  have u: "unat ?f = unat ?tp - 128" using B(1) m(2) m1 by (subst unat_sub; simp add: word_le_nat_alt)
  have al: "unat ?f mod 16 = 0" using B(3) B(1) m(2) m1 unfolding u by simp presburger
  have g: "take 16 (drop 2 (take 26 ?vs)) = (replicate 16 0)[1 := ?f, 2 := p]" by (simp add: numeral_eq_Suc)
  have lo: "unat b + 512 \<le> unat ?f" using B(1) m(2) m1 unfolding u by simp
  have hi: "unat ?f + unat XT_FRAME_SIZE \<le> unat b + unat (max sz 512 + 144)"
    using B(1,2) m1 unfolding u z XT_FRAME_SIZE_def by simp
  show ?thesis using l g lo hi al unfolding sp1 [symmetric] by (simp add: xt_restore_def)
qed

end
