(* ===== verification/RkSmp.thy ===== *)
theory RkSmp
  imports RkRiscv RkArm RkXtensa
begin

text \<open>
  Cores (\<^verbatim>\<open>src/smp.rs\<close>) and critical sections (\<^verbatim>\<open>src/critical.rs\<close>): core ids, inter-processor
  interrupts, and the spin lock as a transition system.  Each core runs a stack of frames, its
  main program below and interrupt handlers above; a frame is somewhere in \<open>SpinLock::lock\<close>, holds
  the guard, or does something else.  The lock word is shared; one step is one atomic access to
  it.  How a port masks interrupts is an argument, in the locale \<open>critical\<close> (RkPort).
\<close>

unbundle bit_operations_syntax

section \<open>Critical sections\<close>

text \<open>\<open>critical::with\<close>: the body runs on the rest of the state with the mask set.\<close>

definition with_critical ::
  "('m \<Rightarrow> 't \<times> 'm) \<Rightarrow> ('t \<Rightarrow> 'm \<Rightarrow> 'm) \<Rightarrow> ('m \<times> 's \<Rightarrow> 'r \<times> 'm \<times> 's) \<Rightarrow> 'm \<times> 's \<Rightarrow> 'r \<times> 'm \<times> 's" where
  "with_critical enter leave f s =
     (let (m, x) = s;
          (token, m) = enter m;
          (r, m, x) = f (m, x)
      in (r, leave token m, x))"

section \<open>The lock word\<close>

text \<open>The word is an integer or a \<open>bool\<close>, by target; a \<open>bool\<close> is 0 or 1 here.\<close>

definition lock_word_new :: u32 where "lock_word_new = 0"

definition lock_is_held :: "u32 \<Rightarrow> bool" where "lock_is_held w = (w \<noteq> 0)"

definition lock_clear :: "u32 \<Rightarrow> u32" where "lock_clear w = 0"

text \<open>A weak exchange may fail although the word is the expected one.\<close>

definition compare_exchange_weak :: "bool \<Rightarrow> u32 \<Rightarrow> u32 \<Rightarrow> u32 \<Rightarrow> bool \<times> u32" where
  "compare_exchange_weak spurious w old new = (if w = old \<and> \<not> spurious then (True, new) else (False, w))"

text \<open>
  Where a frame is: outside; inside \<open>lock\<close> with the interrupts masked, about to exchange (or, on
  the single-core target, to test) the word; in the inner loop that waits for the word to read as
  free; after the single-core test, about to store; holding the guard; in \<open>drop\<close>, the word cleared
  and the interrupt state still to restore.
\<close>

datatype 't phase = Outside | Entered 't | Waiting 't | Passed 't | Holding 't | Released 't

section \<open>The targets\<close>

definition MAX_ACTIVE_CORES :: usize where "MAX_ACTIVE_CORES = 8"

text \<open>
  The trait: what the identity register answers, what the operating system reports as its
  parallelism (if it does), one iteration of a loop of \<open>spinlock_acquire\<close> (\<open>None\<close>: the frame is not in
  it), the release, and the interrupt to another core.
\<close>

record 't cpu_arch =
  arch_core_id :: "u32 \<Rightarrow> usize"
  arch_max_cores :: "usize option \<Rightarrow> usize"
  arch_acquire :: "bool \<Rightarrow> 't phase \<Rightarrow> u32 \<Rightarrow> ('t phase \<times> u32) option"
  arch_release :: "u32 \<Rightarrow> u32"
  arch_send_ipi :: "usize \<Rightarrow> kernel \<Rightarrow> kernel"
  arch_supports_smp :: bool

definition CLINT_MSIP :: usize where "CLINT_MSIP = 0x02000000"
definition GICD_SGIR :: usize where "GICD_SGIR = 0x08000F00"
definition DPORT_LATCH :: usize where "DPORT_LATCH = 0x3FF00000"

definition riscv_arch :: "'t cpu_arch" where
  "riscv_arch =
     \<lparr>arch_core_id = (\<lambda>mhartid. mhartid),
      arch_max_cores = (\<lambda>_. MAX_ACTIVE_CORES),
      arch_acquire = (\<lambda>spurious f w. case f of
          Entered t \<Rightarrow> (case compare_exchange_weak spurious w 0 1 of
              (True, w) \<Rightarrow> Some (Holding t, w)
            | (False, w) \<Rightarrow> Some (Waiting t, w))
        | Waiting t \<Rightarrow> Some (if lock_is_held w then Waiting t else Entered t, w)
        | _ \<Rightarrow> None),
      arch_release = (\<lambda>_. 0),
      arch_send_ipi = (\<lambda>target k. reg_wr (CLINT_MSIP + 4 * target) 1 k),
      arch_supports_smp = True\<rparr>"

definition arm_arch :: "'t cpu_arch" where
  "arm_arch =
     \<lparr>arch_core_id = (\<lambda>mpidr. mpidr AND 0xFF),
      arch_max_cores = (\<lambda>_. MAX_ACTIVE_CORES),
      arch_acquire = (\<lambda>spurious f w. case f of
          Entered t \<Rightarrow> (case compare_exchange_weak spurious w 0 1 of
              (True, w) \<Rightarrow> Some (Holding t, w)
            | (False, w) \<Rightarrow> Some (Waiting t, w))
        | Waiting t \<Rightarrow> Some (if lock_is_held w then Waiting t else Entered t, w)
        | _ \<Rightarrow> None),
      arch_release = (\<lambda>_. 0),
      arch_send_ipi = (\<lambda>target k.
        let target_list = push_bit (unat target) 1 in reg_wr GICD_SGIR (push_bit 16 target_list) k),
      arch_supports_smp = True\<rparr>"

definition xtensa_arch :: "'t cpu_arch" where
  "xtensa_arch =
     \<lparr>arch_core_id = (\<lambda>prid. prid),
      arch_max_cores = (\<lambda>_. 2),
      arch_acquire = (\<lambda>spurious f w. case f of
          Entered t \<Rightarrow> (case compare_exchange_weak spurious w 0 1 of
              (True, w) \<Rightarrow> Some (Holding t, w)
            | (False, w) \<Rightarrow> Some (Waiting t, w))
        | Waiting t \<Rightarrow> Some (if lock_is_held w then Waiting t else Entered t, w)
        | _ \<Rightarrow> None),
      arch_release = (\<lambda>_. 0),
      arch_send_ipi = (\<lambda>target k. reg_wr (DPORT_LATCH + 4 * target) 1 k),
      arch_supports_smp = True\<rparr>"

definition single_core_arch :: "'t cpu_arch" where
  "single_core_arch =
     \<lparr>arch_core_id = (\<lambda>_. 0),
      arch_max_cores = (\<lambda>_. 1),
      arch_acquire = (\<lambda>spurious f w. case f of
          Entered t \<Rightarrow> Some (if lock_is_held w then Entered t else Passed t, w)
        | Passed t \<Rightarrow> Some (Holding t, 1)
        | _ \<Rightarrow> None),
      arch_release = (\<lambda>w. lock_clear w),
      arch_send_ipi = (\<lambda>target k. k),
      arch_supports_smp = False\<rparr>"

text \<open>The hosted backend; its threads get their numbers from \<open>host_core_id\<close> below.\<close>

definition host_arch :: "'t cpu_arch" where
  "host_arch =
     \<lparr>arch_core_id = (\<lambda>number. number),
      arch_max_cores = (\<lambda>parallelism. min (case parallelism of Some n \<Rightarrow> n | None \<Rightarrow> 1) MAX_ACTIVE_CORES),
      arch_acquire = (\<lambda>spurious f w. case f of
          Entered t \<Rightarrow> (case compare_exchange_weak spurious w 0 1 of
              (True, w) \<Rightarrow> Some (Holding t, w)
            | (False, w) \<Rightarrow> Some (Entered t, w))
        | _ \<Rightarrow> None),
      arch_release = (\<lambda>_. 0),
      arch_send_ipi = (\<lambda>target k. k),
      arch_supports_smp = True\<rparr>"

text \<open>The numbers given out to threads, on first use, and the next one.\<close>

record host_ids =
  core_of :: "u32 \<rightharpoonup> usize"
  next_core :: usize

definition host_core_id :: "u32 \<Rightarrow> host_ids \<Rightarrow> usize \<times> host_ids" where
  "host_core_id thread s =
     (case core_of s thread of
        Some i \<Rightarrow> (i, s)
      | None \<Rightarrow> (next_core s, \<lparr>core_of = (core_of s)(thread \<mapsto> next_core s), next_core = next_core s + 1\<rparr>))"

text \<open>The implementation a build uses, and the functions that go through it.\<close>

datatype native = RiscvArch | ArmArch | XtensaArch | SingleCoreArch | HostArch

fun arch_of :: "native \<Rightarrow> 't cpu_arch" where
  "arch_of RiscvArch = riscv_arch"
| "arch_of ArmArch = arm_arch"
| "arch_of XtensaArch = xtensa_arch"
| "arch_of SingleCoreArch = single_core_arch"
| "arch_of HostArch = host_arch"

definition smp_core_id :: "native \<Rightarrow> u32 \<Rightarrow> usize" where
  "smp_core_id a r = arch_core_id (arch_of a :: unit cpu_arch) r"

definition max_cores :: "native \<Rightarrow> usize option \<Rightarrow> usize" where
  "max_cores a parallelism = arch_max_cores (arch_of a :: unit cpu_arch) parallelism"

definition supports_smp :: "native \<Rightarrow> bool" where
  "supports_smp a = arch_supports_smp (arch_of a :: unit cpu_arch)"

definition send_ipi :: "native \<Rightarrow> usize \<Rightarrow> kernel \<Rightarrow> kernel" where
  "send_ipi a target k = arch_send_ipi (arch_of a :: unit cpu_arch) target k"

definition spinlock_acquire :: "native \<Rightarrow> bool \<Rightarrow> 't phase \<Rightarrow> u32 \<Rightarrow> ('t phase \<times> u32) option" where
  "spinlock_acquire a spurious f w = arch_acquire (arch_of a) spurious f w"

definition spinlock_release :: "native \<Rightarrow> u32 \<Rightarrow> u32" where
  "spinlock_release a w = arch_release (arch_of a :: unit cpu_arch) w"

lemmas arch_defs = riscv_arch_def arm_arch_def xtensa_arch_def single_core_arch_def host_arch_def

lemma max_cores_simps [simp]:
  "max_cores RiscvArch p = MAX_ACTIVE_CORES" "max_cores ArmArch p = MAX_ACTIVE_CORES" "max_cores XtensaArch p = 2"
  "max_cores SingleCoreArch p = 1"
  "max_cores HostArch p = min (case p of Some n \<Rightarrow> n | None \<Rightarrow> 1) MAX_ACTIVE_CORES"
  by (simp_all add: max_cores_def arch_defs)

lemma supports_smp_simps [simp]: "supports_smp a \<longleftrightarrow> a \<noteq> SingleCoreArch"
  by (cases a) (simp_all add: supports_smp_def arch_defs)

text \<open>A step of the loop, for all targets at once.\<close>

lemma spinlock_acquire_simps [simp]:
  "spinlock_acquire a spurious (Entered t) w =
     (if a = SingleCoreArch then Some (if lock_is_held w then Entered t else Passed t, w)
      else case compare_exchange_weak spurious w 0 1 of
             (True, w) \<Rightarrow> Some (Holding t, w)
           | (False, w) \<Rightarrow> Some (if a = HostArch then Entered t else Waiting t, w))"
  "spinlock_acquire a spurious (Waiting t) w =
     (if a = SingleCoreArch \<or> a = HostArch then None else Some (if lock_is_held w then Waiting t else Entered t, w))"
  "spinlock_acquire a spurious (Passed t) w = (if a = SingleCoreArch then Some (Holding t, 1) else None)"
  "spinlock_acquire a spurious Outside w = None" "spinlock_acquire a spurious (Holding t) w = None"
  "spinlock_acquire a spurious (Released t) w = None"
  by (cases a; simp add: spinlock_acquire_def arch_defs)+

lemma spinlock_release_zero [simp]: "spinlock_release a w = 0"
  by (cases a) (simp_all add: spinlock_release_def arch_defs lock_clear_def)

section \<open>Steps of a core\<close>

text \<open>\<open>OtherCode m\<close>: code outside the lock, which leaves the interrupt state \<open>m\<close>.\<close>

datatype 'm act = LockCall | TryAcquire bool | DropWord | DropMask | TakeInterrupt | EndInterrupt | OtherCode 'm

text \<open>The shared word, the core's interrupt state and its frames, innermost first.\<close>

fun core_step ::
  "native \<Rightarrow> ('m \<Rightarrow> 't \<times> 'm) \<Rightarrow> ('t \<Rightarrow> 'm \<Rightarrow> 'm) \<Rightarrow> ('m \<Rightarrow> bool) \<Rightarrow> 'm act \<Rightarrow>
     u32 \<times> 'm \<times> 't phase list \<Rightarrow> (u32 \<times> 'm \<times> 't phase list) option" where
  "core_step a enter leave masked LockCall (w, m, Outside # fs) =
     (let (irq, m) = enter m in Some (w, m, Entered irq # fs))"
| "core_step a enter leave masked (TryAcquire spurious) (w, m, f # fs) =
     (case spinlock_acquire a spurious f w of None \<Rightarrow> None | Some (f, w) \<Rightarrow> Some (w, m, f # fs))"
| "core_step a enter leave masked DropWord (w, m, Holding irq # fs) = Some (spinlock_release a w, m, Released irq # fs)"
| "core_step a enter leave masked DropMask (w, m, Released irq # fs) = Some (w, leave irq m, Outside # fs)"
| "core_step a enter leave masked TakeInterrupt (w, m, fs) = (if masked m then None else Some (w, m, Outside # fs))"
| "core_step a enter leave masked EndInterrupt (w, m, Outside # f # fs) = Some (w, m, f # fs)"
| "core_step a enter leave masked (OtherCode m') (w, m, Outside # fs) = Some (w, m', Outside # fs)"
| "core_step a enter leave masked _ _ = None"

record ('m, 't) smp =
  lock_word :: u32
  irq_state :: "nat \<Rightarrow> 'm"
  frames :: "nat \<Rightarrow> 't phase list"

definition smp_boot :: "(nat \<Rightarrow> 'm) \<Rightarrow> ('m, 't) smp" where
  "smp_boot m = \<lparr>lock_word = lock_word_new, irq_state = m, frames = (\<lambda>c. [Outside])\<rparr>"

definition smp_step ::
  "native \<Rightarrow> ('m \<Rightarrow> 't \<times> 'm) \<Rightarrow> ('t \<Rightarrow> 'm \<Rightarrow> 'm) \<Rightarrow> ('m \<Rightarrow> bool) \<Rightarrow> nat \<times> 'm act \<Rightarrow>
     ('m, 't) smp \<Rightarrow> ('m, 't) smp option" where
  "smp_step a enter leave masked ca s = (let (c, x) = ca in
     case core_step a enter leave masked x (lock_word s, irq_state s c, frames s c) of
       None \<Rightarrow> None
     | Some (w, m, fs) \<Rightarrow> Some \<lparr>lock_word = w, irq_state = (irq_state s)(c := m), frames = (frames s)(c := fs)\<rparr>)"

fun smp_run ::
  "native \<Rightarrow> ('m \<Rightarrow> 't \<times> 'm) \<Rightarrow> ('t \<Rightarrow> 'm \<Rightarrow> 'm) \<Rightarrow> ('m \<Rightarrow> bool) \<Rightarrow> (nat \<times> 'm act) list \<Rightarrow>
     ('m, 't) smp \<Rightarrow> ('m, 't) smp option" where
  "smp_run a enter leave masked [] s = Some s"
| "smp_run a enter leave masked (x # xs) s = do {
     s \<leftarrow> smp_step a enter leave masked x s;
     smp_run a enter leave masked xs s
   }"

text \<open>The states of \<open>n\<close> cores that start outside the lock.\<close>

inductive smp_reach ::
  "native \<Rightarrow> ('m \<Rightarrow> 't \<times> 'm) \<Rightarrow> ('t \<Rightarrow> 'm \<Rightarrow> 'm) \<Rightarrow> ('m \<Rightarrow> bool) \<Rightarrow> ('m \<Rightarrow> bool) \<Rightarrow> nat \<Rightarrow> ('m, 't) smp \<Rightarrow> bool"
  for a enter leave masked valid n where
  boot: "(\<And>c. valid (m c)) \<Longrightarrow> smp_reach a enter leave masked valid n (smp_boot m)"
| step: "smp_reach a enter leave masked valid n s \<Longrightarrow> c < n \<Longrightarrow> (\<And>m. x = OtherCode m \<Longrightarrow> valid m) \<Longrightarrow>
    smp_step a enter leave masked (c, x) s = Some s' \<Longrightarrow> smp_reach a enter leave masked valid n s'"

definition holds :: "('m, 't) smp \<Rightarrow> nat \<Rightarrow> bool" where
  "holds s c = (case frames s c of Holding t # fs \<Rightarrow> True | _ \<Rightarrow> False)"

definition acquiring :: "('m, 't) smp \<Rightarrow> nat \<Rightarrow> bool" where
  "acquiring s c = (case frames s c of Entered t # fs \<Rightarrow> True | Waiting t # fs \<Rightarrow> True | Passed t # fs \<Rightarrow> True | _ \<Rightarrow> False)"

section \<open>The invariant\<close>

fun token_of :: "'t phase \<Rightarrow> 't option" where
  "token_of Outside = None"
| "token_of (Entered t) = Some t"
| "token_of (Waiting t) = Some t"
| "token_of (Passed t) = Some t"
| "token_of (Holding t) = Some t"
| "token_of (Released t) = Some t"

fun holding :: "'t phase list \<Rightarrow> bool" where
  "holding (Holding t # fs) = True"
| "holding _ = False"

lemma holds_holding: "holds s c \<longleftrightarrow> holding (frames s c)"
  by (cases "frames s c" rule: holding.cases) (simp_all add: holds_def)

text \<open>Of one core: every interrupted frame is outside the lock; a frame inside it has the
  interrupts masked, with the token that restores them.\<close>

definition core_ok ::
  "native \<Rightarrow> ('m \<Rightarrow> 't \<times> 'm) \<Rightarrow> ('m \<Rightarrow> bool) \<Rightarrow> nat \<Rightarrow> nat \<Rightarrow> u32 \<times> 'm \<times> 't phase list \<Rightarrow> bool" where
  "core_ok a enter valid n c x = (case x of (w, m, fs) \<Rightarrow>
     fs \<noteq> [] \<and> set (tl fs) \<subseteq> {Outside} \<and> valid m
     \<and> (\<forall>t. token_of (hd fs) = Some t \<longrightarrow> (\<exists>m0. valid m0 \<and> enter m0 = (t, m)))
     \<and> (n \<le> c \<longrightarrow> hd fs = Outside)
     \<and> (\<forall>t. hd fs = Passed t \<longrightarrow> a = SingleCoreArch \<and> w = 0)
     \<and> (\<forall>t. hd fs = Waiting t \<longrightarrow> a \<noteq> SingleCoreArch \<and> a \<noteq> HostArch))"

definition spin_inv :: "native \<Rightarrow> ('m \<Rightarrow> 't \<times> 'm) \<Rightarrow> ('m \<Rightarrow> bool) \<Rightarrow> nat \<Rightarrow> ('m, 't) smp \<Rightarrow> bool" where
  "spin_inv a enter valid n s \<longleftrightarrow>
     (\<forall>c. core_ok a enter valid n c (lock_word s, irq_state s c, frames s c))
     \<and> lock_word s = (if \<exists>c. holds s c then 1 else 0)
     \<and> (\<forall>c d. holds s c \<and> holds s d \<longrightarrow> c = d)"

lemma core_ok_other:
  assumes "core_ok a enter valid n d (w, m, fs)" "a = SingleCoreArch \<Longrightarrow> n \<le> d"
  shows "core_ok a enter valid n d (w', m, fs)"
  using assms by (cases "a = SingleCoreArch") (simp_all add: core_ok_def)

context critical
begin

lemma core_step_ok:
  assumes ok: "core_ok a enter valid n c (w, m, fs)" and lt: "c < n" and v: "\<And>m'. x = OtherCode m' \<Longrightarrow> valid m'"
    and st: "core_step a enter leave masked x (w, m, fs) = Some (w', m', fs')"
  shows "core_ok a enter valid n c (w', m', fs')"
    and "(holding fs' = holding fs \<and> w' = w) \<or> (\<not> holding fs \<and> holding fs' \<and> w = 0 \<and> w' = 1)
      \<or> (holding fs \<and> \<not> holding fs' \<and> w' = 0)"
proof -
  obtain f gs where fs: "fs = f # gs" and gs: "set gs \<subseteq> {Outside}" and vm: "valid m"
    and tok: "\<And>t. token_of f = Some t \<Longrightarrow> \<exists>m0. valid m0 \<and> enter m0 = (t, m)"
    and pass: "\<And>t. f = Passed t \<Longrightarrow> a = SingleCoreArch \<and> w = 0"
    and wait: "\<And>t. f = Waiting t \<Longrightarrow> a \<noteq> SingleCoreArch \<and> a \<noteq> HostArch"
    using ok by (cases fs) (auto simp: core_ok_def)
  have em: "valid m \<Longrightarrow> enter m = (t, m2) \<Longrightarrow> valid m2" for t m m2 using enter_masks [of m] by simp
  have lm: "\<exists>m0. valid m0 \<and> enter m0 = (t, m) \<Longrightarrow> valid (leave t m)" for t m
    using leave_restores by (metis fst_conv snd_conv)
  have "core_ok a enter valid n c (w', m', fs')
     \<and> ((holding fs' = holding fs \<and> w' = w) \<or> (\<not> holding fs \<and> holding fs' \<and> w = 0 \<and> w' = 1)
      \<or> (holding fs \<and> \<not> holding fs' \<and> w' = 0))"
  proof (cases x)
    case LockCall
    then show ?thesis using st gs vm lt em [OF vm] unfolding fs
      by (cases f) (auto simp: core_ok_def split: prod.splits)
  next
    case (TryAcquire b)
    then show ?thesis using st gs vm lt tok pass wait unfolding fs
      by (cases f) (auto simp: core_ok_def compare_exchange_weak_def lock_is_held_def split: if_splits)
  next
    case DropWord
    then show ?thesis using st gs vm lt tok unfolding fs
      by (cases f) (auto simp: core_ok_def split: if_splits)
  next
    case DropMask
    then show ?thesis using st gs vm lt tok lm unfolding fs by (cases f) (auto simp: core_ok_def)
  next
    case TakeInterrupt
    have "f = Outside" if "\<not> masked m"
      using tok enter_masks that by (cases f) (metis snd_conv token_of.simps)+
    then show ?thesis using TakeInterrupt st gs vm lt unfolding fs by (auto simp: core_ok_def split: if_splits)
  next
    case EndInterrupt
    then show ?thesis using st gs vm lt unfolding fs
      by (cases f; cases gs) (auto simp: core_ok_def)
  next
    case (OtherCode m2)
    then show ?thesis using st gs v lt unfolding fs by (cases f) (auto simp: core_ok_def)
  qed
  then show "core_ok a enter valid n c (w', m', fs')"
    and "(holding fs' = holding fs \<and> w' = w) \<or> (\<not> holding fs \<and> holding fs' \<and> w = 0 \<and> w' = 1)
      \<or> (holding fs \<and> \<not> holding fs' \<and> w' = 0)" by blast+
qed

lemma smp_step_inv:
  assumes inv: "spin_inv a enter valid n s" and lt: "c < n" and v: "\<And>m'. x = OtherCode m' \<Longrightarrow> valid m'"
    and one: "a = SingleCoreArch \<Longrightarrow> n \<le> 1" and st: "smp_step a enter leave masked (c, x) s = Some s'"
  shows "spin_inv a enter valid n s'"
proof -
  obtain w m fs where cs: "core_step a enter leave masked x (lock_word s, irq_state s c, frames s c) = Some (w, m, fs)"
    and s': "s' = \<lparr>lock_word = w, irq_state = (irq_state s)(c := m), frames = (frames s)(c := fs)\<rparr>"
    using st by (auto simp: smp_step_def split: option.splits)
  have ok: "core_ok a enter valid n d (lock_word s, irq_state s d, frames s d)" for d
    using inv unfolding spin_inv_def by blast
  note cok = core_step_ok [OF ok [of c] lt v cs]
  have h: "holds s' d = (if d = c then holding fs else holds s d)" for d by (simp add: holds_holding s')
  have W: "lock_word s = (if \<exists>c. holds s c then 1 else 0)" and U: "\<And>c d. holds s c \<Longrightarrow> holds s d \<Longrightarrow> c = d"
    using inv by (auto simp: spin_inv_def)
  have "core_ok a enter valid n d (lock_word s', irq_state s' d, frames s' d)" for d
  proof (cases "d = c")
    case False
    then have "a = SingleCoreArch \<Longrightarrow> n \<le> d" using one lt by simp
    from core_ok_other [OF ok [of d] this] show ?thesis using False by (simp add: s')
  qed (use cok(1) in \<open>simp add: s'\<close>)
  moreover have "lock_word s' = (if \<exists>d. holds s' d then 1 else 0) \<and> (\<forall>d e. holds s' d \<and> holds s' e \<longrightarrow> d = e)"
  proof -
    have w': "lock_word s' = w" by (simp add: s')
    consider (same) "holding fs = holds s c" "w = lock_word s"
      | (take) "\<not> holds s c" "holding fs" "lock_word s = 0" "w = 1"
      | (free) "holds s c" "\<not> holding fs" "w = 0"
      using cok(2) by (auto simp: holds_holding)
    then show ?thesis
    proof cases
      case same
      then have "holds s' d = holds s d" for d by (simp add: h)
      then show ?thesis using W U w' same by simp
    next
      case take
      then have "\<not> holds s d" for d using W by (auto split: if_splits)
      then have "holds s' d \<longleftrightarrow> d = c" for d using take by (simp add: h)
      then show ?thesis using w' take by auto
    next
      case free
      then have "\<not> holds s' d" for d using U [of c d] by (auto simp: h)
      then show ?thesis using w' free by simp
    qed
  qed
  ultimately show ?thesis unfolding spin_inv_def by blast
qed

lemma smp_reach_inv:
  assumes "smp_reach a enter leave masked valid n s" and one: "a = SingleCoreArch \<Longrightarrow> n \<le> 1"
  shows "spin_inv a enter valid n s"
  using assms(1)
proof (induction rule: smp_reach.induct)
  case (boot m)
  then show ?case by (auto simp: spin_inv_def core_ok_def smp_boot_def lock_word_new_def holds_def)
next
  case (step s c x s')
  show ?case by (rule smp_step_inv [OF step.IH step.hyps(2,3) one step.hyps(4)])
qed

text \<open>At most one core holds the lock, and no interrupt is taken on it while it does.\<close>

lemma exclusion:
  assumes "smp_reach a enter leave masked valid n s" and "a = SingleCoreArch \<Longrightarrow> n \<le> 1" and "holds s c"
  shows "holds s d \<Longrightarrow> d = c" and "masked (irq_state s c)" and "lock_word s = 1" and "c < n"
proof -
  note inv = smp_reach_inv [OF assms(1,2)]
  show "holds s d \<Longrightarrow> d = c" "lock_word s = 1" using inv assms(3) by (auto simp: spin_inv_def)
  obtain t fs where f: "frames s c = Holding t # fs"
    using assms(3) by (auto simp: holds_def split: list.splits phase.splits)
  have ok: "core_ok a enter valid n c (lock_word s, irq_state s c, frames s c)" using inv unfolding spin_inv_def by blast
  then obtain m where "valid m" "enter m = (t, irq_state s c)" using f by (auto simp: core_ok_def)
  then show "masked (irq_state s c)" using enter_masks [of m] by simp
  show "c < n" using ok f by (auto simp: core_ok_def not_less [symmetric])
qed

text \<open>A core that is acquiring gets the lock after at most one step of the holder and three of its own.\<close>

lemma free_acquire:
  assumes "acquiring s c" and "lock_word s = 0"
    and ok: "core_ok a enter valid n c (lock_word s, irq_state s c, frames s c)"
  shows "\<exists>k s'. k \<le> 3 \<and> smp_run a enter leave masked (replicate k (c, TryAcquire False)) s = Some s' \<and> holds s' c"
proof -
  have one: "smp_step a enter leave masked (c, TryAcquire False) s =
      (case spinlock_acquire a False f 0 of None \<Rightarrow> None
       | Some (f', w) \<Rightarrow> Some (s\<lparr>lock_word := w, frames := (frames s)(c := f' # fs)\<rparr>))"
    if "lock_word s = 0" "frames s c = f # fs" for f fs s
    using that by (auto simp: smp_step_def split: option.splits)
  have entered: "\<exists>k s'. k \<le> 2 \<and> smp_run a enter leave masked (replicate k (c, TryAcquire False)) s = Some s' \<and> holds s' c"
    if "lock_word s = 0" "frames s c = Entered t # fs" for t fs s
  proof (cases "a = SingleCoreArch")
    case True
    let ?s = "s\<lparr>frames := (frames s)(c := Passed t # fs)\<rparr>"
    have "smp_step a enter leave masked (c, TryAcquire False) s = Some ?s"
      using one [OF that] that(1) True by (simp add: lock_is_held_def)
    moreover have "smp_step a enter leave masked (c, TryAcquire False) ?s =
        Some (s\<lparr>lock_word := 1, frames := (frames s)(c := Holding t # fs)\<rparr>)"
      using one [of ?s "Passed t" fs] that(1) True by simp
    ultimately show ?thesis by (intro exI [of _ 2]) (simp add: holds_def numeral_2_eq_2)
  next
    case False
    then have "smp_run a enter leave masked (replicate 1 (c, TryAcquire False)) s =
        Some (s\<lparr>lock_word := 1, frames := (frames s)(c := Holding t # fs)\<rparr>)"
      using that by (simp add: one compare_exchange_weak_def)
    then show ?thesis by (intro exI [of _ 1]) (simp add: holds_def)
  qed
  consider (e) t fs where "frames s c = Entered t # fs" | (w) t fs where "frames s c = Waiting t # fs"
    | (p) t fs where "frames s c = Passed t # fs"
    using assms(1) by (auto simp: acquiring_def split: list.splits phase.splits)
  then show ?thesis
  proof cases
    case e
    from entered [OF assms(2) e] obtain k s' where
      "k \<le> 2" "smp_run a enter leave masked (replicate k (c, TryAcquire False)) s = Some s'" "holds s' c" by blast
    then show ?thesis by (intro exI [of _ k] exI [of _ s']) simp
  next
    case w
    let ?s = "s\<lparr>frames := (frames s)(c := Entered t # fs)\<rparr>"
    have "a \<noteq> SingleCoreArch" "a \<noteq> HostArch" using ok w by (simp_all add: core_ok_def)
    then have "smp_step a enter leave masked (c, TryAcquire False) s = Some ?s"
      using one [OF assms(2) w] assms(2) by (simp add: lock_is_held_def)
    moreover have "lock_word ?s = 0" "frames ?s c = Entered t # fs" using assms(2) by simp_all
    from entered [OF this] obtain k s' where
      "k \<le> 2" "smp_run a enter leave masked (replicate k (c, TryAcquire False)) ?s = Some s'" "holds s' c" by blast
    ultimately show ?thesis by (intro exI [of _ "Suc k"] exI [of _ s']) simp
  next
    case p
    have "smp_run a enter leave masked (replicate 1 (c, TryAcquire False)) s =
        Some (s\<lparr>lock_word := 1, frames := (frames s)(c := Holding t # fs)\<rparr>)"
      using one [OF assms(2) p] ok p by (simp add: core_ok_def)
    then show ?thesis by (intro exI [of _ 1]) (simp add: holds_def)
  qed
qed

lemma progress:
  assumes "smp_reach a enter leave masked valid n s" and "a = SingleCoreArch \<Longrightarrow> n \<le> 1" and "acquiring s c"
  shows "\<exists>d k s'. k \<le> 3 \<and> d \<noteq> c \<and> holds s' c
    \<and> smp_run a enter leave masked ((if lock_word s = 0 then [] else [(d, DropWord)]) @ replicate k (c, TryAcquire False)) s = Some s'"
proof -
  note inv = smp_reach_inv [OF assms(1,2)]
  then have ok: "core_ok a enter valid n c (lock_word s, irq_state s c, frames s c)" unfolding spin_inv_def by blast
  show ?thesis
proof (cases "lock_word s = 0")
  case True
  from free_acquire [OF assms(3) True ok] show ?thesis using True n_not_Suc_n [of c] by (simp; metis)
next
  case False
  then obtain d where d: "holds s d" using inv by (auto simp: spin_inv_def split: if_splits)
  then obtain t fs where f: "frames s d = Holding t # fs" by (auto simp: holds_def split: list.splits phase.splits)
  have dc: "d \<noteq> c" using f assms(3) by (auto simp: acquiring_def)
  let ?s = "s\<lparr>lock_word := 0, frames := (frames s)(d := Released t # fs)\<rparr>"
  have st: "smp_step a enter leave masked (d, DropWord) s = Some ?s"
    using f by (simp add: smp_step_def)
  have "acquiring ?s c" "lock_word ?s = 0" using assms(3) dc by (simp_all add: acquiring_def)
  moreover have "core_ok a enter valid n c (lock_word ?s, irq_state ?s c, frames ?s c)"
    using ok assms(3) dc by (auto simp: core_ok_def)
  ultimately obtain k s' where
    "k \<le> 3" "smp_run a enter leave masked (replicate k (c, TryAcquire False)) ?s = Some s'" "holds s' c" using free_acquire by blast
  then show ?thesis using st dc False by (intro exI [of _ d] exI [of _ k] exI [of _ s']) simp
qed
qed

text \<open>From the call to the end of the guard, whatever the other cores do in between, the interrupt
  state of the core comes back.\<close>

lemma acquire_keeps_token:
  "spinlock_acquire a b f w = Some (f', w') \<Longrightarrow> token_of f' = token_of f"
  by (cases f) (auto simp: compare_exchange_weak_def split: if_splits)

lemma bracket_run:
  assumes "smp_run a enter leave masked tr s = Some s'"
    and "\<And>x. (c, x) \<in> set tr \<Longrightarrow> x = DropWord \<or> (\<exists>b. x = TryAcquire b)"
    and "frames s c = f # fs" and "token_of f = Some t"
  shows "\<exists>f'. frames s' c = f' # fs \<and> token_of f' = Some t \<and> irq_state s' c = irq_state s c"
  using assms
proof (induction tr arbitrary: s f)
  case (Cons y tr)
  obtain d x where y: "y = (d, x)" by (cases y)
  obtain s1 where s1: "smp_step a enter leave masked (d, x) s = Some s1" "smp_run a enter leave masked tr s1 = Some s'"
    using Cons.prems(1) by (auto simp: y split: bind_splits)
  have "\<exists>f1. frames s1 c = f1 # fs \<and> token_of f1 = Some t \<and> irq_state s1 c = irq_state s c"
  proof (cases "d = c")
    case True
    consider "x = DropWord" | b where "x = TryAcquire b" using Cons.prems(2) [of x] y True by auto
    then show ?thesis
    proof cases
      case 1
      then show ?thesis using s1(1) True Cons.prems(3,4) by (cases f) (auto simp: smp_step_def)
    next
      case 2
      then show ?thesis using s1(1) True Cons.prems(3,4)
        by (auto simp: smp_step_def acquire_keeps_token split: option.splits)
    qed
  next
    case False
    then show ?thesis using s1(1) Cons.prems(3,4) by (auto simp: smp_step_def split: option.splits)
  qed
  then obtain f1 where f1: "frames s1 c = f1 # fs" "token_of f1 = Some t" "irq_state s1 c = irq_state s c" by blast
  from Cons.IH [OF s1(2) _ f1(1,2)] Cons.prems(2) f1(3) y show ?case by simp
qed simp

lemma bracket:
  assumes "smp_run a enter leave masked ((c, LockCall) # tr @ [(c, DropMask)]) s = Some s'"
    and "\<And>x. (c, x) \<in> set tr \<Longrightarrow> x = DropWord \<or> (\<exists>b. x = TryAcquire b)" and "valid (irq_state s c)"
  shows "irq_state s' c = irq_state s c"
proof -
  have app: "smp_run a enter leave masked (xs @ ys) s = Option.bind (smp_run a enter leave masked xs s) (smp_run a enter leave masked ys)"
    for xs ys s proof (induction xs arbitrary: s)
    case (Cons x xs)
    then show ?case by (cases "smp_step a enter leave masked x s") simp_all
  qed simp
  obtain s1 s2 where s1: "smp_step a enter leave masked (c, LockCall) s = Some s1"
    and s2: "smp_run a enter leave masked tr s1 = Some s2" and s3: "smp_step a enter leave masked (c, DropMask) s2 = Some s'"
    using assms(1) by (auto simp: app split: bind_splits)
  obtain t m where e: "enter (irq_state s c) = (t, m)" by (cases "enter (irq_state s c)")
  obtain fs where f1: "frames s1 c = Entered t # fs" "irq_state s1 c = m"
    using s1 e by (auto simp: smp_step_def split: option.splits elim!: core_step.elims)
  obtain f2 where f2: "frames s2 c = f2 # fs" "token_of f2 = Some t" "irq_state s2 c = m"
    using bracket_run [OF s2 assms(2) f1(1)] f1(2) by auto
  have "irq_state s' c = leave t m" using s3 f2 by (cases f2) (auto simp: smp_step_def)
  then show ?thesis using leave_restores [OF assms(3)] e by simp
qed

text \<open>A section whose body gives the mask back gives it back too, and its body runs with interrupts
  masked.\<close>

lemma with_critical_ok:
  assumes "valid m" and "fst (snd (f (snd (enter m), x))) = snd (enter m)"
  shows "with_critical enter leave f (m, x) =
      (fst (f (snd (enter m), x)), m, snd (snd (f (snd (enter m), x)))) \<and> masked (snd (enter m))"
  using assms enter_masks [OF assms(1)] leave_restores [OF assms(1)]
  by (simp add: with_critical_def split: prod.splits) (metis fst_conv snd_conv)

end

section \<open>The ports\<close>

text \<open>How each bare-metal target masks interrupts: entering, leaving, when they are masked, and the
  values the state can have.\<close>

fun port_masking ::
  "native \<Rightarrow> ((u32 \<Rightarrow> u32 \<times> u32) \<times> (u32 \<Rightarrow> u32 \<Rightarrow> u32) \<times> (u32 \<Rightarrow> bool) \<times> (u32 \<Rightarrow> bool)) option" where
  "port_masking RiscvArch = Some (rv_critical_enter, rv_critical_exit, \<lambda>m. m AND 8 = 0, \<lambda>m. True)"
| "port_masking ArmArch = Some (mask_irqs, unmask_irqs, \<lambda>c. bit c 7 \<and> bit c 6, \<lambda>c. True)"
| "port_masking XtensaArch = Some (xt_critical_enter, xt_critical_exit, \<lambda>p. p AND PS_INTLEVEL_MASK \<noteq> 0, \<lambda>p. True)"
| "port_masking SingleCoreArch = Some (critical_enter, critical_exit, \<lambda>m. m = 1, \<lambda>m. m \<le> 1)"
| "port_masking HostArch = None"

lemma port_critical:
  assumes "port_masking a = Some (en, lv, masked, valid)"
  shows "critical en lv masked valid"
  using assms rv_critical.critical_axioms arm_critical.critical_axioms xt_critical.critical_axioms
    cm_critical.critical_axioms
  by (cases a) auto

lemma max_cores_one:
  "n \<le> unat (max_cores SingleCoreArch p) \<Longrightarrow> n \<le> 1" by simp

text \<open>The configuration accepts a number of cores exactly when the target has them and an interlock
  for them.\<close>

lemma cores_accepted:
  assumes "set_active_cores (max_cores a p) (supports_smp a) n k = (r, k')" and "r = Inr ()"
  shows "1 \<le> unat n" and "unat n \<le> 8" and "a = SingleCoreArch \<Longrightarrow> n = 1" and "active_cores k' = n"
proof -
  have m: "max_cores a p \<le> 8"
    by (cases a) (auto simp: MAX_ACTIVE_CORES_def word_le_nat_alt min_def split: option.splits)
  have r: "n \<noteq> 0" "n \<le> max (max_cores a p) 1" "n = 1 \<or> supports_smp a"
    using set_active_cores_ok(1) [OF assms(1)] assms(2) by auto
  show "1 \<le> unat n" using r(1) by (simp add: Suc_le_eq unat_gt_0)
  have "n \<le> 8" using r(2) m by (auto simp: max_def word_le_nat_alt split: if_splits)
  then show "unat n \<le> 8" by (simp add: word_le_nat_alt)
  show "a = SingleCoreArch \<Longrightarrow> n = 1" using r(3) by simp
  show "active_cores k' = n" using set_active_cores_ok(2) [OF assms(1)] assms(2) by simp
qed

text \<open>Why the single-core target has one core: with two, test and store are not one access.\<close>

lemma two_cores_break_test_and_set:
  "\<exists>tr s. smp_run SingleCoreArch critical_enter critical_exit (\<lambda>m. m = 1) tr (smp_boot (\<lambda>c. 0)) = Some s
     \<and> holds s 0 \<and> holds s 1"
  by (rule exI [of _ "[(0, LockCall), (1, LockCall), (0, TryAcquire False), (1, TryAcquire False),
        (0, TryAcquire False), (1, TryAcquire False)]"])
    (simp add: smp_step_def smp_boot_def critical_enter_def lock_is_held_def lock_word_new_def holds_def)

section \<open>Interrupts to other cores\<close>

text \<open>On the default registers, an interrupt to the first core is what \<open>request_switch\<close> does there.\<close>

lemma ipi_to_self:
  "send_ipi RiscvArch 0 k = rv_request_switch timer_regs_default k"
  "send_ipi XtensaArch 0 k = xt_request_switch k"
  by (simp_all add: send_ipi_def arch_defs DPORT_LATCH_def DPORT_CPU_INTR_FROM_CPU_0_def rv_request_switch_def timer_regs_default_def DEFAULT_CLINT_BASE_def CLINT_MSIP_def
      xt_request_switch_def USE_SOFTWARE_KICK_def)

text \<open>The target is written where the machine expects it only on the default memory map.\<close>

lemma ipi_arm_register: "GICD_SGIR = gicd c 0xF00 \<longleftrightarrow> gic_dist c = gic_dist qemu_virt"
  by (simp add: GICD_SGIR_def gicd_def qemu_virt_def)

text \<open>The numbers of the hosted threads: stable, and different for different threads.\<close>

definition ids_ok :: "host_ids \<Rightarrow> bool" where
  "ids_ok s \<longleftrightarrow> (\<forall>t i. core_of s t = Some i \<longrightarrow> i < next_core s) \<and> inj_on (core_of s) (dom (core_of s))"

lemma host_core_id_ok:
  assumes "ids_ok s" and "next_core s < 0xFFFFFFFF" and "host_core_id t s = (i, s')"
  shows "ids_ok s'" and "host_core_id t s' = (i, s')" and "\<And>u j. core_of s u = Some j \<Longrightarrow> core_of s' u = Some j"
    and "\<And>u. core_of s' u = Some i \<Longrightarrow> u = t"
proof -
  have lt: "next_core s < next_core s + 1" using assms(2) by (simp add: word_less_nat_alt unat_Suc_small)
  show "\<And>u j. core_of s u = Some j \<Longrightarrow> core_of s' u = Some j"
    using assms(3) by (auto simp: host_core_id_def split: option.splits)
  show "host_core_id t s' = (i, s')" using assms(3) by (auto simp: host_core_id_def split: option.splits)
  have b: "core_of s u = Some j \<Longrightarrow> j < next_core s" for u j using assms(1) by (simp add: ids_ok_def)
  have inj: "core_of s u = Some j \<Longrightarrow> core_of s v = Some j \<Longrightarrow> u = v" for u v j
    using assms(1) by (auto simp: ids_ok_def inj_on_def dom_def)
  show "core_of s' u = Some i \<Longrightarrow> u = t" for u
    using assms(3) b [of u i] inj by (auto simp: host_core_id_def split: option.splits if_splits)
  show "ids_ok s'"
  proof (cases "core_of s t")
    case None
    then have s': "s' = \<lparr>core_of = (core_of s)(t \<mapsto> next_core s), next_core = next_core s + 1\<rparr>"
      using assms(3) by (auto simp: host_core_id_def)
    have "j < next_core s'" if "core_of s' u = Some j" for u j
      using that b [of u j] lt by (auto simp: s' split: if_splits)
    moreover have "inj_on (core_of s') (dom (core_of s'))"
      using b inj by (fastforce simp: s' inj_on_def dom_def split: if_splits)
    ultimately show ?thesis unfolding ids_ok_def by blast
  qed (use assms in \<open>simp add: host_core_id_def\<close>)
qed

end
