(* ===== verification/RkPosix.thy ===== *)
theory RkPosix
  imports RkIrq
begin

text \<open>
  The POSIX port (\<^verbatim>\<open>src/arch/posix.rs\<close>): tasks are fibres of one thread, switched inside the
  handler of the timer signal.  The functions of the C library that act on signal masks are an
  argument, with their documented behaviour as \<open>posix_libc\<close>; the clock is what its reads answer.

  Registers and the words on a stack are those of x86-64.  Addresses are 32 bits wide, as in the
  rest of the model: a 64-bit value takes two words of memory, low half first.
\<close>

unbundle bit_operations_syntax

section \<open>The C library\<close>

definition SIGALRM :: nat where "SIGALRM = 14"
definition SIG_BLOCK :: nat where "SIG_BLOCK = 0"
definition SIG_UNBLOCK :: nat where "SIG_UNBLOCK = 1"
definition SIG_SETMASK :: nat where "SIG_SETMASK = 2"

text \<open>\<open>sigprocmask how set m\<close> is the mask after the call, when it was \<open>m\<close> before.\<close>

record 's libc =
  sigemptyset :: 's
  sigaddset :: "nat \<Rightarrow> 's \<Rightarrow> 's"
  sigismember :: "nat \<Rightarrow> 's \<Rightarrow> bool"
  sigprocmask :: "nat \<Rightarrow> 's \<Rightarrow> 's \<Rightarrow> 's"

text \<open>\<open>clock_gettime\<close> answers seconds and nanoseconds, or fails.\<close>

definition posix_now_ns :: "(u64 \<times> u64) option \<Rightarrow> u64" where
  "posix_now_ns answer =
     (case answer of
        None \<Rightarrow> 0
      | Some (tv_sec, tv_nsec) \<Rightarrow> sat_add (sat_mul tv_sec 1000000000) tv_nsec)"

section \<open>Critical sections\<close>

definition px_critical_enter :: "'s libc \<Rightarrow> 's \<Rightarrow> 's \<times> 's" where
  "px_critical_enter L m =
     (let set = sigaddset L SIGALRM (sigemptyset L) in (m, sigprocmask L SIG_BLOCK set m))"

definition px_critical_exit :: "'s libc \<Rightarrow> 's \<Rightarrow> 's \<Rightarrow> 's" where
  "px_critical_exit L token m = sigprocmask L SIG_SETMASK token m"

section \<open>The state\<close>

definition POSIX_MIN_SLICE_NS :: u64 where "POSIX_MIN_SLICE_NS = 50000"
definition POSIX_UNITS_PER_SEC :: u32 where "POSIX_UNITS_PER_SEC = 10000000"

text \<open>What a switch saves, the stack pointer and the next instruction.\<close>

record fibre =
  rbx :: u64
  rbp :: u64
  r12 :: u64
  r13 :: u64
  r14 :: u64
  r15 :: u64
  mxcsr :: u32
  x87_cw :: u16
  rsp :: ptr
  rip :: u64

text \<open>The thread: its registers and mask, the statics of the port, the last value the timer was armed
  with, how many signals the thread raised, and the kernel.\<close>

record 's posix =
  fibre_regs :: fibre
  sigmask :: 's
  px_timer :: u64
  px_slice_ns :: u64
  px_last_tick_ns :: u64
  next_expiry_ns :: u64
  px_ready :: u32
  scratch_sp :: ptr
  armed :: "u64 \<times> u64"
  raised :: nat
  px_kernel :: kernel

text \<open>\<open>rearm\<close>; \<open>tnow\<close> is the clock.\<close>

definition px_rearm :: "u64 \<Rightarrow> 's posix \<Rightarrow> 's posix" where
  "px_rearm tnow s =
     (let ns = px_slice_ns s;
          s = s\<lparr>next_expiry_ns := sat_add tnow ns\<rparr>
      in s\<lparr>armed := (ns div 1000000000, ns mod 1000000000)\<rparr>)"

section \<open>The switch\<close>

definition push64 :: "u64 \<Rightarrow> 's posix \<Rightarrow> 's posix" where
  "push64 v s =
     (let a = rsp (fibre_regs s) - 8
      in s\<lparr>fibre_regs := (fibre_regs s)\<lparr>rsp := a\<rparr>,
           px_kernel := reg_wr (a + 4) (hi_word v) (reg_wr a (lo_word v) (px_kernel s))\<rparr>)"

definition peek64 :: "ptr \<Rightarrow> kernel \<Rightarrow> u64 option" where
  "peek64 a k = do {
     lo \<leftarrow> words k a;
     hi \<leftarrow> words k (a + 4);
     Some (push_bit 32 (ucast hi) OR ucast lo)
   }"

definition pop64 :: "'s posix \<Rightarrow> (u64 \<times> 's posix) option" where
  "pop64 s = do {
     v \<leftarrow> peek64 (rsp (fibre_regs s)) (px_kernel s);
     Some (v, s\<lparr>fibre_regs := (fibre_regs s)\<lparr>rsp := rsp (fibre_regs s) + 8\<rparr>\<rparr>)
   }"

text \<open>The first half: \<open>ra\<close> is the return address that the call pushed.\<close>

definition switch_out :: "u64 \<Rightarrow> 's posix \<Rightarrow> 's posix" where
  "switch_out ra s =
     (let f = fibre_regs s;
          s = push64 ra s;
          s = push64 (rbp f) s;
          s = push64 (rbx f) s;
          s = push64 (r12 f) s;
          s = push64 (r13 f) s;
          s = push64 (r14 f) s;
          s = push64 (r15 f) s;
          a = rsp (fibre_regs s) - 16;
          k = reg_wr a (mxcsr f) (px_kernel s);
          k = reg_wr (a + 4) (reg_rd (a + 4) k AND 0xFFFF0000 OR ucast (x87_cw f)) k
      in s\<lparr>fibre_regs := (fibre_regs s)\<lparr>rsp := a\<rparr>, px_kernel := k\<rparr>)"

definition switch_in :: "ptr \<Rightarrow> 's posix \<Rightarrow> 's posix option" where
  "switch_in to_sp s = do {
     m \<leftarrow> words (px_kernel s) to_sp;
     cw \<leftarrow> words (px_kernel s) (to_sp + 4);
     let s = s\<lparr>fibre_regs := (fibre_regs s)\<lparr>rsp := to_sp + 16, mxcsr := m, x87_cw := ucast cw\<rparr>\<rparr>;
     (v15, s) \<leftarrow> pop64 s;
     (v14, s) \<leftarrow> pop64 s;
     (v13, s) \<leftarrow> pop64 s;
     (v12, s) \<leftarrow> pop64 s;
     (vbx, s) \<leftarrow> pop64 s;
     (vbp, s) \<leftarrow> pop64 s;
     (ret, s) \<leftarrow> pop64 s;
     Some (s\<lparr>fibre_regs := (fibre_regs s)\<lparr>r15 := v15, r14 := v14, r13 := v13, r12 := v12, rbx := vbx, rbp := vbp, rip := ret\<rparr>\<rparr>)
   }"

text \<open>\<open>rrkernel_switch\<close>: \<open>from\<close> is the TCB whose stack pointer is stored, null for the scratch slot.\<close>

definition rrkernel_switch :: "u64 \<Rightarrow> ptr \<Rightarrow> ptr \<Rightarrow> 's posix \<Rightarrow> 's posix option" where
  "rrkernel_switch ra from to_sp s = do {
     let s = switch_out ra s;
     let a = rsp (fibre_regs s);
     s \<leftarrow> (if from = null_ptr then Some (s\<lparr>scratch_sp := a\<rparr>)
          else do { k \<leftarrow> upd (\<lambda>t. t\<lparr>sp := a\<rparr>) from (px_kernel s); Some (s\<lparr>px_kernel := k\<rparr>) });
     switch_in to_sp s
   }"

text \<open>\<open>rrkernel_fibre_entry\<close> and \<open>rrkernel_task_start\<close>, which leaves its argument for the trampoline.\<close>

definition rrkernel_fibre_entry :: "'s libc \<Rightarrow> 's posix \<Rightarrow> 's posix" where
  "rrkernel_fibre_entry L s =
     (let set = sigaddset L SIGALRM (sigemptyset L)
      in s\<lparr>sigmask := sigprocmask L SIG_UNBLOCK set (sigmask s)\<rparr>)"

definition rrkernel_task_start :: "'s libc \<Rightarrow> 's posix \<Rightarrow> u64 \<times> 's posix" where
  "rrkernel_task_start L s =
     (let s = s\<lparr>fibre_regs := (fibre_regs s)\<lparr>rsp := rsp (fibre_regs s) - 8\<rparr>\<rparr>;
          s = rrkernel_fibre_entry L s;
          s = s\<lparr>fibre_regs := (fibre_regs s)\<lparr>rsp := rsp (fibre_regs s) + 8\<rparr>\<rparr>
      in (r12 (fibre_regs s), s))"

section \<open>The signal handler\<close>

text \<open>\<open>alarm_handler\<close> up to the switch, if there is one: \<open>t0\<close>, \<open>t1\<close> and \<open>t2\<close> are the clock on entry,
  when the timer is armed and at the end.\<close>

definition px_tick :: "u64 \<Rightarrow> 's posix \<Rightarrow> 's posix option" where
  "px_tick t0 s =
     (if t0 \<ge> next_expiry_ns s then do {
        k \<leftarrow> on_tick (px_kernel s);
        let s = s\<lparr>px_kernel := k\<rparr>;
        Some (if kc_measure (config k) \<noteq> MeasureOff then
                (let last = px_last_tick_ns s; s = s\<lparr>px_last_tick_ns := t0\<rparr>
                 in if last \<noteq> 0 \<and> t0 > last then
                      (let want = px_slice_ns s; period = t0 - last;
                           err = (if period > want then period - want else want - period)
                       in s\<lparr>px_kernel := record_period_error (ucast (min err 0xFFFFFFFF)) (px_kernel s)\<rparr>)
                    else s)
              else s)
      }
      else Some s)"

definition alarm_handler :: "u64 \<Rightarrow> u64 \<Rightarrow> u64 \<Rightarrow> u64 \<Rightarrow> 's posix \<Rightarrow> (bool \<times> 's posix) option" where
  "alarm_handler ra t0 t1 t2 s = do {
     s \<leftarrow> px_tick t0 s;
     let cur = k_current (px_kernel s);
     (nx, k) \<leftarrow> schedule_next (px_kernel s);
     let s = s\<lparr>px_kernel := k\<rparr>;
     if nx = null_ptr \<or> nx = cur then Some (False, px_rearm t1 s)
     else do {
       let s = px_rearm t1 s;
       let s = (if kc_measure (config (px_kernel s)) \<noteq> MeasureOff
                then s\<lparr>px_kernel := record_latency (ucast (min (sat_sub t2 t0) 0xFFFFFFFF)) (px_kernel s)\<rparr>
                else s);
       t \<leftarrow> rd (px_kernel s) nx;
       s \<leftarrow> rrkernel_switch ra cur (sp t) s;
       Some (True, s)
     }
   }"

text \<open>Where a switch lands: a new fibre starts; one that was switched away from inside the handler
  finishes it.\<close>

definition alarm_landed :: "'s libc \<Rightarrow> port \<Rightarrow> u64 \<Rightarrow> 's posix \<Rightarrow> (u64 option \<times> 's posix) option" where
  "alarm_landed L P entry s =
     (if rip (fibre_regs s) = entry then
        (let (arg, s) = rrkernel_task_start L s in Some (Some arg, s))
      else do {
        k \<leftarrow> reclaim_finished_tasks P (px_kernel s);
        Some (None, s\<lparr>px_kernel := k\<rparr>)
      })"

section \<open>The porting surface\<close>

definition px_cycles_to_ns :: "u32 \<Rightarrow> kernel \<Rightarrow> u64" where
  "px_cycles_to_ns cycles k = ucast cycles * (1000000000 div ucast POSIX_UNITS_PER_SEC)"

definition px_platform_limits :: "kernel \<Rightarrow> platform_limits" where
  "px_platform_limits k =
     \<lparr>min_slice_ns = POSIX_MIN_SLICE_NS, max_slice_ns = Some (0xFFFFFFFF * 100), limits_timer_hz = POSIX_UNITS_PER_SEC,
      timer_note = ''POSIX hrtimer (CLOCK_MONOTONIC) + SIGALRM, x86-64 fibre switch''\<rparr>"

definition px_plan_timer :: "scheduler_config \<Rightarrow> config_error + timer_plan" where
  "px_plan_timer cfg =
     (let requested = (case cfg_slice cfg of Cycles c \<Rightarrow> ucast c * 100 | other \<Rightarrow> as_nanos other (cfg_timer_hz cfg)) in
      if requested = 0 then Inl ZeroSlice
      else if requested < POSIX_MIN_SLICE_NS then Inl (SliceBelowPlatformMinimum requested POSIX_MIN_SLICE_NS)
      else let units = div_ceil requested 100 in
        if units > 0xFFFFFFFF then Inl (SliceAboveTimerRange requested (0xFFFFFFFF * 100))
        else Inr \<lparr>plan_slice_ns = units * 100, plan_slice_cycles = ucast units, plan_timer_hz = POSIX_UNITS_PER_SEC\<rparr>)"

text \<open>\<open>start_timer\<close>: whether \<open>sigaction\<close> succeeds, and the timer \<open>timer_create\<close> makes, if it does.\<close>

definition px_start_result :: "bool \<Rightarrow> u64 option \<Rightarrow> config_error + unit" where
  "px_start_result sigaction_ok timer_made =
     (if \<not> sigaction_ok then Inl (PlatformError ''sigaction(SIGALRM) failed'')
      else if timer_made = None then Inl (PlatformError ''timer_create failed'') else Inr ())"

definition px_start_timer :: "bool \<Rightarrow> u64 option \<Rightarrow> u64 \<Rightarrow> timer_plan \<Rightarrow> 's posix \<Rightarrow> (config_error + unit) \<times> 's posix" where
  "px_start_timer sigaction_ok timer_made tnow plan s =
     (let s = s\<lparr>px_slice_ns := plan_slice_ns plan\<rparr> in
      case px_start_result sigaction_ok timer_made of
        Inl e \<Rightarrow> (Inl e, s)
      | Inr _ \<Rightarrow>
          (let s = s\<lparr>px_timer := the timer_made\<rparr>; s = px_rearm tnow s in (Inr (), s\<lparr>px_ready := 1\<rparr>)))"

definition px_retune_timer :: "u64 \<Rightarrow> timer_plan \<Rightarrow> 's posix \<Rightarrow> (config_error + unit) \<times> 's posix" where
  "px_retune_timer tnow plan s = (Inr (), px_rearm tnow (s\<lparr>px_slice_ns := plan_slice_ns plan\<rparr>))"

definition px_adopt :: "ptr \<Rightarrow> kernel \<Rightarrow> ((config_error + unit) \<times> kernel) option" where
  "px_adopt p k = do {
     k \<leftarrow> upd (\<lambda>t. t\<lparr>sp := null_ptr, stack_base := null_ptr, stack_size := 0\<rparr>) p k;
     Some (Inr (), k)
   }"

text \<open>The first frame: zeroed, then the floating-point control state, the TCB in \<open>r12\<close> and the
  address of \<open>rrkernel_task_start\<close>.\<close>

definition px_frame_words :: "u64 \<Rightarrow> ptr \<Rightarrow> ptr \<Rightarrow> (ptr \<rightharpoonup> u32) \<Rightarrow> (ptr \<rightharpoonup> u32)" where
  "px_frame_words entry p frame w =
     (store_words frame (replicate 18 0) w)
       (frame \<mapsto> 0x1F80, frame + 4 \<mapsto> 0x037F,
        frame + 40 \<mapsto> p, frame + 44 \<mapsto> 0,
        frame + 64 \<mapsto> lo_word entry, frame + 68 \<mapsto> hi_word entry)"

definition px_create :: "u64 \<Rightarrow> ptr \<Rightarrow> usize \<Rightarrow> kernel \<Rightarrow> ((spawn_error + unit) \<times> kernel) option" where
  "px_create entry p stack_sz k = do {
     let sz = max stack_sz 8192 + 16;
     (r, k) \<leftarrow> alloc_block sz 16 k;
     (case r of
        None \<Rightarrow> Some (Inl ArenaExhausted, k)
      | Some blk \<Rightarrow> do {
          k \<leftarrow> upd (\<lambda>t. t\<lparr>stack_base := blk, stack_size := sz - 16\<rparr>) p k;
          let top = (blk + sz) AND NOT 15;
          let frame = (top - 72) AND NOT 15;
          let k = k\<lparr>words := px_frame_words entry p frame (words k)\<rparr>;
          k \<leftarrow> upd (\<lambda>t. t\<lparr>sp := frame, flags := 0\<rparr>) p k;
          Some (Inr (), k)
        })
   }"

definition px_request_switch :: "'s posix \<Rightarrow> 's posix" where
  "px_request_switch s = (if px_ready s = 1 then s\<lparr>raised := raised s + 1\<rparr> else s)"

definition px_on_task_reclaimed :: "ptr \<Rightarrow> kernel \<Rightarrow> kernel option" where
  "px_on_task_reclaimed p k = Some k"

definition px_is_pinned :: "ptr \<Rightarrow> bool" where
  "px_is_pinned p = False"

definition px_cycle_counter :: "u32 option" where
  "px_cycle_counter = None"

definition px_cycle_counter_hz :: u32 where
  "px_cycle_counter_hz = 0"

definition px_parks_synchronously :: bool where
  "px_parks_synchronously = False"

definition posix_port :: "u64 \<Rightarrow> ptr \<Rightarrow> bool \<Rightarrow> u64 option \<Rightarrow> port" where
  "posix_port entry default_arena sigaction_ok timer_made =
     \<lparr>port_plan = px_plan_timer, port_limits = px_platform_limits, port_ns = px_cycles_to_ns,
      port_adopt = px_adopt, port_start = (\<lambda>plan k. (px_start_result sigaction_ok timer_made, k)),
      port_retune = (\<lambda>plan k. (Inr (), k)), port_create = px_create entry, port_pinned = px_is_pinned,
      port_reclaimed = px_on_task_reclaimed, port_default_arena = default_arena\<rparr>"

section \<open>The mask\<close>

text \<open>What the manual pages say of masks: \<open>v\<close> holds of the masks a thread can have, those without
  \<open>SIGKILL\<close> and \<open>SIGSTOP\<close>.\<close>

definition posix_libc :: "'s libc \<Rightarrow> ('s \<Rightarrow> bool) \<Rightarrow> bool" where
  "posix_libc L v =
     ((\<forall>n. \<not> sigismember L n (sigemptyset L)) \<and>
      (\<forall>n i set. sigismember L n (sigaddset L i set) \<longleftrightarrow> n = i \<or> sigismember L n set) \<and>
      (\<forall>how set m. v m \<longrightarrow> v (sigprocmask L how set m)) \<and>
      (\<forall>n set m. n \<noteq> 9 \<longrightarrow> n \<noteq> 19 \<longrightarrow>
         (sigismember L n (sigprocmask L SIG_BLOCK set m) \<longleftrightarrow> sigismember L n m \<or> sigismember L n set)) \<and>
      (\<forall>n set m. sigismember L n (sigprocmask L SIG_UNBLOCK set m) \<longleftrightarrow> sigismember L n m \<and> \<not> sigismember L n set) \<and>
      (\<forall>set m. v set \<longrightarrow> sigprocmask L SIG_SETMASK set m = set))"

lemma posix_libcD:
  assumes "posix_libc L v"
  shows "\<not> sigismember L n (sigemptyset L)" "sigismember L n (sigaddset L i sg) \<longleftrightarrow> n = i \<or> sigismember L n sg"
    "v m \<Longrightarrow> v (sigprocmask L how sg m)"
    "n \<noteq> 9 \<Longrightarrow> n \<noteq> 19 \<Longrightarrow> sigismember L n (sigprocmask L SIG_BLOCK sg m) \<longleftrightarrow> sigismember L n m \<or> sigismember L n sg"
    "sigismember L n (sigprocmask L SIG_UNBLOCK sg m) \<longleftrightarrow> sigismember L n m \<and> \<not> sigismember L n sg"
    "v sg \<Longrightarrow> sigprocmask L SIG_SETMASK sg m = sg"
  using assms by (simp_all add: posix_libc_def)

text \<open>Sets of signals as the kernel keeps them behave like that.\<close>

definition set_libc :: "nat set libc" where
  "set_libc =
     \<lparr>sigemptyset = {}, sigaddset = insert, sigismember = (\<in>),
      sigprocmask = (\<lambda>how set m. if how = SIG_BLOCK then m \<union> (set - {9, 19}) else if how = SIG_UNBLOCK then m - set
                       else set - {9, 19})\<rparr>"

definition no_kill :: "nat set \<Rightarrow> bool" where
  "no_kill m = (9 \<notin> m \<and> 19 \<notin> m)"

lemma set_libc_ok: "posix_libc set_libc no_kill"
  by (auto simp: posix_libc_def set_libc_def no_kill_def SIG_BLOCK_def SIG_UNBLOCK_def SIG_SETMASK_def)

lemma px_critical:
  assumes L: "posix_libc L v"
  shows "critical (px_critical_enter L) (px_critical_exit L) (sigismember L SIGALRM) v"
proof
  fix m assume m: "v m"
  show "sigismember L SIGALRM (snd (px_critical_enter L m)) \<and> v (snd (px_critical_enter L m))"
    by (simp add: px_critical_enter_def Let_def posix_libcD [OF L] m SIGALRM_def)
  show "px_critical_exit L (fst (px_critical_enter L m)) (snd (px_critical_enter L m)) = m"
    by (simp add: px_critical_enter_def px_critical_exit_def Let_def posix_libcD [OF L] m)
qed

interpretation px_sets: critical "px_critical_enter set_libc" "px_critical_exit set_libc" "sigismember set_libc SIGALRM" no_kill
  by (rule px_critical) (rule set_libc_ok)

text \<open>A fibre starts with the tick signal unblocked, whatever the mask was.\<close>

lemma fibre_entry_unblocks:
  "posix_libc L v \<Longrightarrow> \<not> sigismember L SIGALRM (sigmask (rrkernel_fibre_entry L s))"
  using posix_libcD(2,5) [of L v] by (simp add: rrkernel_fibre_entry_def Let_def)

section \<open>Planning and the timer\<close>

definition px_requested :: "scheduler_config \<Rightarrow> u64" where
  "px_requested cfg = (case cfg_slice cfg of Cycles c \<Rightarrow> ucast c * 100 | other \<Rightarrow> as_nanos other (cfg_timer_hz cfg))"

lemma div_ceil_100:
  fixes r :: u64
  shows "unat (div_ceil r 100) = (unat r + 99) div 100"
proof -
  have m: "unat (r mod 100) = unat r mod 100" "unat (r div 100) = unat r div 100" by (simp_all add: unat_mod unat_div)
  have z: "r mod 100 = 0 \<longleftrightarrow> unat r mod 100 = 0" unfolding m(1) [symmetric] by (simp only: unat_eq_0)
  have b: "unat r < 2 ^ 64" using unat_lt2p64 [of r] by simp
  show ?thesis
  proof (cases "r mod 100 = 0")
    case True
    then have "100 * (unat r div 100) = unat r" using z mult_div_mod_eq [of 100 "unat r"] by linarith
    then have "(unat r + 99) div 100 = unat r div 100" by (intro div_nat_eqI) simp_all
    then show ?thesis using True m(2) by (simp add: div_ceil_def)
  next
    case False
    define q where "q = unat r div 100"
    define i where "i = unat r mod 100"
    from False have "0 < i" "100 * q + i = unat r" "i < 100" using z by (simp_all add: i_def q_def)
    then have "(q + 1) * 100 \<le> unat r + 99" "unat r + 99 < (q + 1 + 1) * 100" by simp_all
    then have "(unat r + 99) div 100 = unat r div 100 + 1" unfolding q_def [symmetric] by (intro div_nat_eqI) simp_all
    moreover have "unat r div 100 < 2 ^ 63" by (rule less_mult_imp_div_less) (rule less_le_trans [OF b], simp)
    then have "unat (r div 100 + 1) = unat r div 100 + 1" using m(2) by (subst unat_plus_small) simp_all
    ultimately show ?thesis using False by (simp add: div_ceil_def)
  qed
qed

text \<open>A plan on a host is the least multiple of 100 ns that covers the slice asked for.\<close>

lemma host_units:
  fixes r u :: u64
  assumes u: "u = div_ceil r 100" and b: "\<not> u > 0xFFFFFFFF"
  shows "unat (u * 100) = unat (ucast u :: u32) * 100" "unat r \<le> unat (u * 100)" "unat (u * 100) < unat r + 100"
proof -
  have ub: "unat u < 2 ^ 32" using b by (simp add: not_less word_le_nat_alt)
  have ru: "unat u = (unat r + 99) div 100" unfolding u by (rule div_ceil_100)
  have ns: "unat (u * 100) = unat u * 100" using ub by (subst unat_mult_lem [THEN iffD1]) simp_all
  have cy: "unat (ucast u :: u32) = unat u" unfolding unat_ucast_mod using ub by simp
  show "unat (u * 100) = unat (ucast u :: u32) * 100" by (simp add: ns cy)
  show "unat r \<le> unat (u * 100)" "unat (u * 100) < unat r + 100" by (simp_all add: ns ru)
qed

lemma px_plan_ok:
  assumes "px_plan_timer cfg = Inr plan"
  shows "50000 \<le> unat (plan_slice_ns plan)" "plan_timer_hz plan = 10000000"
    "unat (plan_slice_ns plan) = unat (plan_slice_cycles plan) * 100"
    "unat (px_requested cfg) \<le> unat (plan_slice_ns plan)" "unat (plan_slice_ns plan) < unat (px_requested cfg) + 100"
proof -
  define r where "r = px_requested cfg"
  define u where "u = div_ceil r 100"
  have c: "\<not> r < POSIX_MIN_SLICE_NS" "\<not> u > 0xFFFFFFFF"
    and p: "plan = \<lparr>plan_slice_ns = u * 100, plan_slice_cycles = ucast u, plan_timer_hz = POSIX_UNITS_PER_SEC\<rparr>"
    using assms unfolding px_plan_timer_def Let_def px_requested_def [symmetric] r_def [symmetric] u_def [symmetric]
    by (simp_all only: split: if_splits) simp_all
  note h = host_units [OF u_def c(2)]
  have r5: "50000 \<le> unat r" using c(1) by (simp add: POSIX_MIN_SLICE_NS_def not_less word_le_nat_alt)
  show "plan_timer_hz plan = 10000000" by (simp add: p POSIX_UNITS_PER_SEC_def)
  show "unat (plan_slice_ns plan) = unat (plan_slice_cycles plan) * 100" using h(1) by (simp add: p)
  show "unat (px_requested cfg) \<le> unat (plan_slice_ns plan)" "unat (plan_slice_ns plan) < unat (px_requested cfg) + 100"
    unfolding r_def [symmetric] p using h(2,3) by simp_all
  then show "50000 \<le> unat (plan_slice_ns plan)" using r5 unfolding r_def by simp
qed

lemma px_rearmed:
  "unat (fst (armed (px_rearm t s))) * 1000000000 + unat (snd (armed (px_rearm t s))) = unat (px_slice_ns s)"
  "unat (snd (armed (px_rearm t s))) < 1000000000"
  "next_expiry_ns (px_rearm t s) = sat_add t (px_slice_ns s)"
  by (simp_all add: px_rearm_def Let_def unat_div unat_mod)

lemma px_rearm_same [simp]:
  "fibre_regs (px_rearm t s) = fibre_regs s" "sigmask (px_rearm t s) = sigmask s" "px_kernel (px_rearm t s) = px_kernel s"
  "px_slice_ns (px_rearm t s) = px_slice_ns s"
  by (simp_all add: px_rearm_def Let_def)

section \<open>The port keeps its contract\<close>

definition px_size :: "usize \<Rightarrow> usize" where
  "px_size stack_sz = max stack_sz 8192"

definition px_first_sp :: "ptr \<Rightarrow> usize \<Rightarrow> ptr" where
  "px_first_sp blk stack_sz = (((blk + (px_size stack_sz + 16)) AND NOT 15) - 72) AND NOT 15"

lemma px_create_run:
  assumes t: "rd k p = Some t" and a: "alloc_block (px_size sz + 16) 16 k = Some (Some b, k\<lparr>karena := a\<rparr>)"
  shows "px_create e p sz k = Some (Inr (), put p (t\<lparr>stack_base := b, stack_size := px_size sz,
      sp := px_first_sp b sz, flags := 0\<rparr>) (k\<lparr>karena := a, words := px_frame_words e p (px_first_sp b sz) (words k)\<rparr>))"
proof -
  have p0: "p \<noteq> 0" using t rd_nonnull by blast
  let ?k = "k\<lparr>karena := a\<rparr>"
  let ?t = "t\<lparr>stack_base := b, stack_size := px_size sz\<rparr>"
  have t': "rd ?k p = Some t" using t by (simp add: rd_def)
  have u: "upd (\<lambda>t. t\<lparr>stack_base := b, stack_size := px_size sz\<rparr>) p ?k = Some (put p ?t ?k)"
    by (rule upd_put [OF t'])
  let ?w = "px_frame_words e p (px_first_sp b sz) (words k)"
  have t2: "rd ((put p ?t ?k)\<lparr>words := w\<rparr>) p = Some ?t" for w using p0 by (simp add: put_def rd_def)
  have w: "words (put p ?t ?k) = words k" by (simp add: put_def)
  have u2: "upd (\<lambda>t. t\<lparr>sp := v, flags := 0\<rparr>) p ((put p ?t ?k)\<lparr>words := w\<rparr>)
      = Some (put p (?t\<lparr>sp := v, flags := 0\<rparr>) ((put p ?t ?k)\<lparr>words := w\<rparr>))" for v w
    by (rule upd_put [OF t2])
  have m: "px_size sz + 16 - 16 = px_size sz" by simp
  have "px_create e p sz k
      = Some (Inr (), put p (?t\<lparr>sp := px_first_sp b sz, flags := 0\<rparr>) ((put p ?t ?k)\<lparr>words := ?w\<rparr>))"
    unfolding px_create_def Let_def px_size_def [symmetric] a by (simp add: u u2 w m px_first_sp_def del: upd_SomeD)
  then show ?thesis by (simp add: put_def)
qed

lemma px_create_ok:
  assumes ok: "mem_ok k" and t: "rd k p = Some t" and st: "stack_base t = 0" and rm: "roomy k sz"
  shows "\<exists>r k'. px_create e p sz k = Some (r, k') \<and> mem_ok k' \<and> created p k k' \<and> (\<forall>e. r = Inl e \<longrightarrow> no_stack p k k')"
proof (rule create_contract [OF ok t st])
  have "unat (8192 :: usize) + unat (16 :: usize) \<le> 16000" "unat (16 :: usize) \<noteq> 0" by simp_all
  note s = stack_space [OF rm this]
  show "space_for k (px_size sz + 16)" "px_size sz + 16 \<noteq> 0" unfolding px_size_def by (rule s(2), rule s(3))
  show "pow2 16 4" "unat (16 :: usize) \<le> 32" by (simp_all add: pow2_def)
  show "px_create e p sz k = Some (Inl ArenaExhausted, k)" if "alloc_block (px_size sz + 16) 16 k = Some (None, k)"
    using that by (simp add: px_create_def Let_def px_size_def)
  show "\<exists>t' w. px_create e p sz k = Some (Inr (), put p t' (k\<lparr>karena := a, words := w\<rparr>)) \<and> stack_base t' = b
      \<and> stackless t' = stackless t"
    if "alloc_block (px_size sz + 16) 16 k = Some (Some b, k\<lparr>karena := a\<rparr>)" for b a
    unfolding px_create_run [OF t that] by (intro exI conjI, rule refl) (simp_all add: stackless_def)
qed

lemma px_adopt_ok:
  assumes ok: "mem_ok k" and t: "rd k p = Some t" and st: "stack_base t = 0"
  shows "\<exists>r k'. px_adopt p k = Some (r, k') \<and> mem_ok k' \<and> created p k k'"
proof (rule adopt_contract [OF ok t st])
  show "px_adopt p k = Some (Inr (), put p (t\<lparr>sp := null_ptr, stack_base := null_ptr, stack_size := 0\<rparr>) k)"
    using t by (simp add: px_adopt_def upd_put)
qed (simp_all add: stackless_def)

interpretation px: quiet_port "posix_port entry default_arena sigaction_ok timer_made"
proof
  let ?P = "posix_port entry default_arena sigaction_ok timer_made"
  show "port_reclaimed ?P p k = Some k" for p k
    by (simp add: posix_port_def px_on_task_reclaimed_def)
  show "\<exists>w t'. port_reclaimed ?P p k = Some ((put p t' k)\<lparr>words := w\<rparr>) \<and> blocks_of t' = blocks_of t"
    if "rd k p = Some t" for p k t
    using quiet_hook [OF that] by (simp add: posix_port_def px_on_task_reclaimed_def)
  show "\<exists>e k'. port_create ?P p sz k = Some (e, k') \<and> mem_ok k' \<and> created p k k' \<and> (\<forall>x. e = Inl x \<longrightarrow> no_stack p k k')"
    if "mem_ok k" "rd k p = Some t" "stack_base t = 0" "roomy k sz" for k p t sz
    using px_create_ok [OF that] by (simp add: posix_port_def)
  show "\<exists>e k'. port_adopt ?P p k = Some (e, k') \<and> mem_ok k' \<and> created p k k'"
    if "mem_ok k" "rd k p = Some t" "stack_base t = 0" for k p t
    using px_adopt_ok [OF that] by (simp add: posix_port_def)
qed

section \<open>Saving and restoring\<close>

definition join :: "u32 \<Rightarrow> u32 \<Rightarrow> u64" where
  "join lo hi = push_bit 32 (ucast hi) OR ucast lo"

lemma join_halves [simp]: "join (lo_word v) (hi_word v) = v"
  by (simp add: join_def word_halves)

text \<open>The fourteen words above the floating-point state, from the stack pointer up.\<close>

definition saved_words :: "u64 \<Rightarrow> fibre \<Rightarrow> u32 list" where
  "saved_words ra f = concat (map (\<lambda>v. [lo_word v, hi_word v]) [r15 f, r14 f, r13 f, r12 f, rbx f, rbp f, ra])"

definition with_saved :: "u32 \<Rightarrow> u16 \<Rightarrow> u32 list \<Rightarrow> ptr \<Rightarrow> fibre \<Rightarrow> fibre" where
  "with_saved m cw vs a f = f\<lparr>mxcsr := m, x87_cw := cw, rsp := a,
     r15 := join (vs ! 0) (vs ! 1), r14 := join (vs ! 2) (vs ! 3), r13 := join (vs ! 4) (vs ! 5),
     r12 := join (vs ! 6) (vs ! 7), rbx := join (vs ! 8) (vs ! 9), rbp := join (vs ! 10) (vs ! 11), rip := join (vs ! 12) (vs ! 13)\<rparr>"

lemma saved_length: "length (saved_words ra f) = 14"
  by (simp add: saved_words_def)

lemma with_saved_words: "with_saved m cw (saved_words ra f) a g = f\<lparr>mxcsr := m, x87_cw := cw, rsp := a, rip := ra\<rparr>"
  by (cases f; cases g) (simp add: with_saved_def saved_words_def numeral_eq_Suc)

lemma pop64_run:
  assumes "words (px_kernel s) (rsp (fibre_regs s)) = Some lo" and "words (px_kernel s) (rsp (fibre_regs s) + 4) = Some hi"
  shows "pop64 s = Some (join lo hi, s\<lparr>fibre_regs := (fibre_regs s)\<lparr>rsp := rsp (fibre_regs s) + 8\<rparr>\<rparr>)"
  using assms by (simp add: pop64_def peek64_def join_def)

lemma switch_in_run:
  assumes m: "words (px_kernel s) a = Some m" and cw: "words (px_kernel s) (a + 4) = Some cw"
    and vs: "load_words (a + 16) 14 (words (px_kernel s)) = Some vs"
  shows "switch_in a s = Some (s\<lparr>fibre_regs := with_saved m (ucast cw) vs (a + 72) (fibre_regs s)\<rparr>)"
proof -
  have w: "words (px_kernel s) (a + 16) = Some (vs ! 0)" "words (px_kernel s) (a + 20) = Some (vs ! 1)"
    "words (px_kernel s) (a + 24) = Some (vs ! 2)" "words (px_kernel s) (a + 28) = Some (vs ! 3)"
    "words (px_kernel s) (a + 32) = Some (vs ! 4)" "words (px_kernel s) (a + 36) = Some (vs ! 5)"
    "words (px_kernel s) (a + 40) = Some (vs ! 6)" "words (px_kernel s) (a + 44) = Some (vs ! 7)"
    "words (px_kernel s) (a + 48) = Some (vs ! 8)" "words (px_kernel s) (a + 52) = Some (vs ! 9)"
    "words (px_kernel s) (a + 56) = Some (vs ! 10)" "words (px_kernel s) (a + 60) = Some (vs ! 11)"
    "words (px_kernel s) (a + 64) = Some (vs ! 12)" "words (px_kernel s) (a + 68) = Some (vs ! 13)"
    using load_at [OF vs, of 0] load_at [OF vs, of 1] load_at [OF vs, of 2] load_at [OF vs, of 3] load_at [OF vs, of 4]
      load_at [OF vs, of 5] load_at [OF vs, of 6] load_at [OF vs, of 7] load_at [OF vs, of 8] load_at [OF vs, of 9]
      load_at [OF vs, of 10] load_at [OF vs, of 11] load_at [OF vs, of 12] load_at [OF vs, of 13]
    by (simp_all add: add.assoc)
  show ?thesis
    unfolding switch_in_def using m cw
    by (simp add: Let_def pop64_run w add.assoc with_saved_def)
qed

lemma push64_run:
  assumes "rsp (fibre_regs s) = a + 8"
  shows "push64 v s = s\<lparr>fibre_regs := (fibre_regs s)\<lparr>rsp := a\<rparr>,
    px_kernel := (px_kernel s)\<lparr>words := (words (px_kernel s))(a \<mapsto> lo_word v, a + 4 \<mapsto> hi_word v)\<rparr>\<rparr>"
  using assms by (simp add: push64_def reg_wr_def)

lemma low_half_kept: "ucast ((x AND 0xFFFF0000) OR (ucast (c :: u16) :: u32)) = c"
proof -
  have e: "(0xFFFF0000 :: u32) = NOT (mask 16)" by (simp add: mask_eq_exp_minus_1)
  show ?thesis unfolding e by (rule bit_word_eqI) (auto simp: bit_simps)
qed

lemma switch_out_run:
  fixes s :: "'s posix"
  defines "f \<equiv> fibre_regs s" and "b \<equiv> rsp (fibre_regs s) - 72"
  shows "\<exists>w cw. switch_out ra s = s\<lparr>fibre_regs := f\<lparr>rsp := b\<rparr>, px_kernel := (px_kernel s)\<lparr>words := w\<rparr>\<rparr>
    \<and> w b = Some (mxcsr f) \<and> w (b + 4) = Some cw \<and> ucast cw = x87_cw f \<and> load_words (b + 16) 14 w = Some (saved_words ra f)
    \<and> (\<forall>a. words (px_kernel s) a \<noteq> None \<longrightarrow> w a \<noteq> None)"
proof -
  have r: "rsp f = b + 72" by (simp add: f_def b_def)
  define w where "w = (words (px_kernel s))
    (b + 64 \<mapsto> lo_word ra, b + 68 \<mapsto> hi_word ra, b + 56 \<mapsto> lo_word (rbp f), b + 60 \<mapsto> hi_word (rbp f),
     b + 48 \<mapsto> lo_word (rbx f), b + 52 \<mapsto> hi_word (rbx f), b + 40 \<mapsto> lo_word (r12 f), b + 44 \<mapsto> hi_word (r12 f),
     b + 32 \<mapsto> lo_word (r13 f), b + 36 \<mapsto> hi_word (r13 f), b + 24 \<mapsto> lo_word (r14 f), b + 28 \<mapsto> hi_word (r14 f),
     b + 16 \<mapsto> lo_word (r15 f), b + 20 \<mapsto> hi_word (r15 f), b \<mapsto> mxcsr f)"
  define cw where "cw = (case words (px_kernel s) (b + 4) of None \<Rightarrow> 0 | Some v \<Rightarrow> v) AND 0xFFFF0000 OR (ucast (x87_cw f) :: u32)"
  have "switch_out ra s = s\<lparr>fibre_regs := f\<lparr>rsp := b\<rparr>, px_kernel := (px_kernel s)\<lparr>words := w(b + 4 \<mapsto> cw)\<rparr>\<rparr>"
    unfolding switch_out_def Let_def f_def [symmetric]
    by (simp add: push64_run [of _ "b + 64"] push64_run [of _ "b + 56"] push64_run [of _ "b + 48"] push64_run [of _ "b + 40"]
      push64_run [of _ "b + 32"] push64_run [of _ "b + 24"] push64_run [of _ "b + 16"] r f_def [symmetric] add.assoc reg_wr_def reg_rd_def
      w_def cw_def)
  moreover have "load_words (b + 16) (length (saved_words ra f)) (w(b + 4 \<mapsto> cw)) = Some (saved_words ra f)"
  proof (rule load_all)
    fix i assume "i < length (saved_words ra f)"
    then have "i \<in> set [0..<14]" by (simp add: saved_length)
    then have "i \<in> {0, 1, 2, 3, 4, 5, 6, 7, 8, 9, 10, 11, 12, 13}" by (simp add: upt_rec numeral_eq_Suc del: set_upt)
    then show "(w(b + 4 \<mapsto> cw)) (b + 16 + of_nat (4 * i)) = Some (saved_words ra f ! i)"
      by (auto simp: w_def saved_words_def add.assoc)
  qed
  moreover have "ucast cw = x87_cw f" unfolding cw_def by (rule low_half_kept)
  ultimately show ?thesis
    by (intro exI [of _ "w(b + 4 \<mapsto> cw)"] exI [of _ cw]) (simp add: saved_length w_def)
qed

section \<open>The handler\<close>

definition px_ok :: "ptr \<Rightarrow> ntree \<Rightarrow> 's posix \<Rightarrow> bool" where
  "px_ok c T s = ((\<exists>ns. sys_inv (px_kernel s) T ns) \<and> framed_but c 0 2 T (px_kernel s) \<and> framed_but c 16 14 T (px_kernel s))"

lemma px_ok_kept:
  assumes "px_ok c T s" and "sys_inv k T ns" and "kept T (px_kernel s) k"
  shows "px_ok c T (s\<lparr>px_kernel := k\<rparr>)"
  using assms framed_kept by (auto simp: px_ok_def)

lemma px_ok_outside: "px_kernel s' = px_kernel s \<Longrightarrow> px_ok c T s' = px_ok c T s"
  by (simp add: px_ok_def)

text \<open>What the handler leaves alone.\<close>

definition px_fixed :: "'s posix \<Rightarrow> 's posix \<Rightarrow> bool" where
  "px_fixed s s' = (sigmask s' = sigmask s \<and> px_slice_ns s' = px_slice_ns s \<and> px_ready s' = px_ready s
     \<and> px_timer s' = px_timer s \<and> raised s' = raised s \<and> config (px_kernel s') = config (px_kernel s))"

lemma px_fixed_trans: "px_fixed s s1 \<Longrightarrow> px_fixed s1 s2 \<Longrightarrow> px_fixed s s2"
  by (simp add: px_fixed_def)

text \<open>The registers of the fibre are those of the frame at the saved stack pointer of task \<open>n\<close>.\<close>

definition px_resumed :: "ptr \<Rightarrow> 's posix \<Rightarrow> bool" where
  "px_resumed n s = (\<exists>t m cw vs f. rd (px_kernel s) n = Some t \<and> words (px_kernel s) (sp t) = Some m
     \<and> words (px_kernel s) (sp t + 4) = Some cw \<and> load_words (sp t + 16) 14 (words (px_kernel s)) = Some vs
     \<and> fibre_regs s = with_saved m (ucast cw) vs (sp t + 72) f)"

lemma px_tick_run:
  assumes ok: "px_ok c T s"
  shows "\<exists>s'. px_tick t0 s = Some s' \<and> px_ok c T s' \<and> px_fixed s s' \<and> fibre_regs s' = fibre_regs s
    \<and> ticks (px_kernel s') = (if next_expiry_ns s \<le> t0 then ticks (px_kernel s) + 1 else ticks (px_kernel s))
    \<and> kept T (px_kernel s) (px_kernel s') \<and> current_tcb (px_kernel s') = current_tcb (px_kernel s)"
proof (cases "next_expiry_ns s \<le> t0")
  case False
  then show ?thesis using ok by (simp add: px_tick_def px_fixed_def)
next
  case True
  from ok obtain ns where inv: "sys_inv (px_kernel s) T ns" by (auto simp: px_ok_def)
  from tick_run [OF inv] obtain k where k: "on_tick (px_kernel s) = Some k" "sys_inv k T ns" "kept T (px_kernel s) k"
    "ticks k = ticks (px_kernel s) + 1" "current_tcb k = current_tcb (px_kernel s)" by blast
  have cfg: "config k = config (px_kernel s)" using k(3) by (simp add: kept_def)
  let ?want = "px_slice_ns s" and ?period = "t0 - px_last_tick_ns s"
  define v where "v = (ucast (min (if ?period > ?want then ?period - ?want else ?want - ?period) 0xFFFFFFFF) :: u32)"
  note r = record_step(3,4) [OF k(2), of v]
  have f: "ticks (record_period_error v k) = ticks k" "current_tcb (record_period_error v k) = current_tcb k"
    "config (record_period_error v k) = config k" by (simp_all add: record_period_error_def Let_def)
  have kr: "kept T (px_kernel s) (record_period_error v k)" by (rule kept_trans [OF k(3) r(2)])
  note o1 = px_ok_kept [OF ok k(2,3)] and o2 = px_ok_kept [OF ok r(1) kr]
  show ?thesis
  proof (cases "kc_measure (config k) \<noteq> MeasureOff \<and> px_last_tick_ns s \<noteq> 0 \<and> px_last_tick_ns s < t0")
    case m: True
    then have "px_tick t0 s = Some (s\<lparr>px_last_tick_ns := t0, px_kernel := record_period_error v k\<rparr>)"
      using True k(1) by (simp add: px_tick_def Let_def v_def)
    moreover have "px_ok c T (s\<lparr>px_last_tick_ns := t0, px_kernel := record_period_error v k\<rparr>)"
      using o2 px_ok_outside [of "s\<lparr>px_last_tick_ns := t0, px_kernel := record_period_error v k\<rparr>" "s\<lparr>px_kernel := record_period_error v k\<rparr>"] by simp
    ultimately show ?thesis using True f k(4,5) kr cfg by (simp add: px_fixed_def)
  next
    case m: False
    then obtain l where "px_tick t0 s = Some (s\<lparr>px_last_tick_ns := l, px_kernel := k\<rparr>)"
    proof (cases "kc_measure (config k) \<noteq> MeasureOff")
      case True': True
      with m have no: "(px_last_tick_ns s \<noteq> 0 \<and> px_last_tick_ns s < t0) = False" by blast
      show ?thesis using that [of t0] True True' k(1) no by (simp add: px_tick_def Let_def del: de_Morgan_conj)
    next
      case False': False
      have "s\<lparr>px_kernel := k\<rparr> = s\<lparr>px_last_tick_ns := px_last_tick_ns s, px_kernel := k\<rparr>" by simp
      then show ?thesis using that [of "px_last_tick_ns s"] True False' k(1) by (simp add: px_tick_def Let_def)
    qed
    moreover have "px_ok c T (s\<lparr>px_last_tick_ns := l, px_kernel := k\<rparr>)"
      using o1 px_ok_outside [of "s\<lparr>px_last_tick_ns := l, px_kernel := k\<rparr>" "s\<lparr>px_kernel := k\<rparr>"] by simp
    ultimately show ?thesis using True k(3-5) cfg by (simp add: px_fixed_def)
  qed
qed

text \<open>With nothing to run the current task stays the current one.\<close>

lemma null_switch_current:
  assumes inv: "sys_inv k T ns" and s: "schedule_next k = Some (0, k')"
  shows "current_tcb k' = current_tcb k"
proof -
  note i = sys_invD [OF inv]
  from schedule_next_spec [OF i(2,8)] obtain leaf k0 k1 k2 where
    k0: "k0 = k\<lparr>current_tcb := (if eff_cur k = 0 then 0 else current_tcb k)\<rparr>"
    and p: "picked T k0 leaf k1" and s2: "schedule_next k = Some (leaf, k2)"
    and e: "if leaf = 0 then k2 = k1 else switched (eff_cur k) leaf k1 k2" by blast
  have k1: "k' = k1" using s s2 e by simp
  have "current_tcb k1 = current_tcb k0" using p moved_kernel by (auto simp: picked_def)
  moreover have "eff_cur k = current_tcb k"
  proof (cases "current_tcb k = 0")
    case True
    then show ?thesis by (simp add: eff_cur_def rd_def split: option.splits)
  next
    case False
    then have l: "LeafN (current_tcb k) \<in> set (subs T)" using i(5) by (simp add: cur_in_def)
    from tree_ok_group [OF i(2)] obtain ts where T: "T = GroupN (root k) ts" by blast
    then have "\<exists>t. rdh (heap k) (addr (LeafN (current_tcb k))) = Some t \<and> nxt t \<noteq> 0"
      using i(2) l by (intro leaf_linked [of "heap k" T]) (simp_all add: tree_ok_def)
    then show ?thesis by (auto simp: eff_cur_def rd_def)
  qed
  ultimately show ?thesis unfolding k1 k0 by simp
qed

text \<open>The switch to the fibre of \<open>n\<close>.\<close>

lemma px_switch_run:
  assumes ok: "px_ok c T s" and c: "c = 0 \<or> LeafN c \<in> set (subs T)" and n: "LeafN n \<in> set (subs T)" "n \<noteq> c"
    and t: "rd (px_kernel s) n = Some t"
  shows "\<exists>s'. rrkernel_switch ra c (sp t) s = Some s' \<and> px_ok 0 T s' \<and> px_fixed s s' \<and> px_resumed n s'
    \<and> ticks (px_kernel s') = ticks (px_kernel s) \<and> current_tcb (px_kernel s') = current_tcb (px_kernel s)
    \<and> armed s' = armed s \<and> next_expiry_ns s' = next_expiry_ns s
    \<and> (c \<noteq> 0 \<longrightarrow> (\<exists>u. rd (px_kernel s') c = Some u \<and> sp u = rsp (fibre_regs s) - 72))"
proof -
  let ?b = "rsp (fibre_regs s) - 72" and ?f = "fibre_regs s"
  from switch_out_run [of ra s] obtain w cw where so: "switch_out ra s = s\<lparr>fibre_regs := ?f\<lparr>rsp := ?b\<rparr>, px_kernel := (px_kernel s)\<lparr>words := w\<rparr>\<rparr>"
    "w ?b = Some (mxcsr ?f)" "w (?b + 4) = Some cw" "load_words (?b + 16) 14 w = Some (saved_words ra ?f)"
    "\<And>a. words (px_kernel s) a \<noteq> None \<Longrightarrow> w a \<noteq> None" by blast
  let ?k = "(px_kernel s)\<lparr>words := w\<rparr>"
  from ok obtain ns where inv: "sys_inv (px_kernel s) T ns" and f: "framed_but c 0 2 T (px_kernel s)" "framed_but c 16 14 T (px_kernel s)"
    by (auto simp: px_ok_def)
  have i1: "sys_inv ?k T ns" by (rule quiet_step [OF inv]) simp_all
  have f1: "framed_but c 0 2 T ?k" "framed_but c 16 14 T ?k" using framed_more [OF f(1), of w] framed_more [OF f(2), of w] so(5) by blast+
  have ca: "c = 0 \<or> c \<in> set (addrs T)" using c subs_addr [of "LeafN c" T] by auto
  from publish_at [OF i1 ca, of ?b] obtain k' where
    k: "(if c = 0 then Some ?k else upd (\<lambda>t. t\<lparr>sp := ?b\<rparr>) c ?k) = Some k'" "sys_inv k' T ns"
      "words k' = words ?k" "config k' = config ?k" "ticks k' = ticks ?k" "current_tcb k' = current_tcb ?k"
      "\<forall>a. rd k' a = (if a = c then map_option (\<lambda>t. t\<lparr>sp := ?b\<rparr>) (rd ?k a) else rd ?k a)" by blast
  have l: "load_words (?b + 0) 2 (words ?k) \<noteq> None" "load_words (?b + 16) 14 (words ?k) \<noteq> None"
    using so(2-4) by (simp_all add: load_words_def upt_rec numeral_2_eq_2)
  note to = sys_invD(2) [OF i1]
  have f2: "framed_but 0 0 2 T k'" "framed_but 0 16 14 T k'"
    by (rule framed_publish [OF f1(1) l(1) k(7,3) to], rule framed_publish [OF f1(2) l(2) k(7,3) to])
  define s2 where "s2 = (if c = 0 then s\<lparr>fibre_regs := ?f\<lparr>rsp := ?b\<rparr>, px_kernel := k', scratch_sp := ?b\<rparr>
      else s\<lparr>fibre_regs := ?f\<lparr>rsp := ?b\<rparr>, px_kernel := k'\<rparr>)"
  have k2: "px_kernel s2 = k'" by (simp add: s2_def)
  have ok2: "px_ok 0 T s2" using k(2) f2 by (auto simp: px_ok_def k2)
  have tn: "rd k' n = Some t" using k(7) n(2) t by (simp add: rd_def)
  have nT: "n \<noteq> 0" using t rd_nonnull by blast
  from f2 n(1) nT tn have "load_words (sp t + 0) 2 (words k') \<noteq> None" "load_words (sp t + 16) 14 (words k') \<noteq> None"
    by (auto simp: framed_but_def)
  then obtain vs us where v: "load_words (sp t) 2 (words k') = Some us" "load_words (sp t + 16) 14 (words k') = Some vs" by auto
  have u: "words k' (sp t) = Some (us ! 0)" "words k' (sp t + 4) = Some (us ! 1)"
    using load_at [OF v(1), of 0] load_at [OF v(1), of 1] by simp_all
  note si = switch_in_run [of s2, unfolded k2, OF u v(2)]
  let ?s' = "s2\<lparr>fibre_regs := with_saved (us ! 0) (ucast (us ! 1)) vs (sp t + 72) (fibre_regs s2)\<rparr>"
  have "(if c = null_ptr then Some ((switch_out ra s)\<lparr>scratch_sp := rsp (fibre_regs (switch_out ra s))\<rparr>)
      else do { k \<leftarrow> upd (\<lambda>t. t\<lparr>sp := rsp (fibre_regs (switch_out ra s))\<rparr>) c (px_kernel (switch_out ra s));
        Some ((switch_out ra s)\<lparr>px_kernel := k\<rparr>) }) = Some s2"
    using k(1) so(1) by (auto simp: s2_def split: if_splits)
  then have "rrkernel_switch ra c (sp t) s = Some ?s'"
    unfolding rrkernel_switch_def Let_def using si by simp
  moreover have "px_ok 0 T ?s'" using ok2 px_ok_outside [of ?s' s2] by simp
  moreover have "px_fixed s ?s'" using k(4) by (simp add: px_fixed_def s2_def)
  moreover have "px_resumed n ?s'"
    unfolding px_resumed_def by (intro exI conjI) (use tn u v(2) in \<open>simp_all add: k2\<close>)
  moreover have "ticks (px_kernel ?s') = ticks (px_kernel s)" "current_tcb (px_kernel ?s') = current_tcb (px_kernel s)"
    using k(5,6) by (simp_all add: k2)
  moreover have "armed ?s' = armed s" "next_expiry_ns ?s' = next_expiry_ns s" by (simp_all add: s2_def)
  moreover have "c \<noteq> 0 \<longrightarrow> (\<exists>u. rd (px_kernel ?s') c = Some u \<and> sp u = ?b)"
  proof
    assume "c \<noteq> 0"
    with ca have "c \<in> set (addrs T)" by simp
    from tree_rd [OF to this] obtain u where "rd ?k c = Some u" by blast
    then show "\<exists>u. rd (px_kernel ?s') c = Some u \<and> sp u = ?b" using k(7) by (simp add: k2)
  qed
  ultimately show ?thesis by blast
qed

lemma framed_weaken:
  assumes f: "framed_but 0 d n T k" and t: "tree_ok k T"
  shows "framed_but c d n T k"
  unfolding framed_but_def
proof (intro allI impI)
  fix a assume a: "LeafN a \<in> set (subs T)" "a \<noteq> c"
  have "a \<in> set (addrs T)" using subs_addr [OF a(1)] by simp
  from tree_rd [OF t this] obtain u where "rd k a = Some u" by blast
  then have "a \<noteq> 0" using rd_nonnull by blast
  then show "\<exists>t. rd k a = Some t \<and> load_words (sp t + d) n (words k) \<noteq> None" using f a(1) by (auto simp: framed_but_def)
qed

lemma px_ok_weaken: "px_ok 0 T s \<Longrightarrow> px_ok c T s"
  using framed_weaken sys_invD(2) by (auto simp: px_ok_def)

text \<open>A signal: a tick if the timer's time has come, then a switch, or the same fibre again; in both
  cases the timer is armed for one slice.\<close>

lemma px_handler_run:
  assumes ok: "px_ok (current_tcb (px_kernel s)) T s"
  shows "\<exists>b s'. alarm_handler ra t0 t1 t2 s = Some (b, s') \<and> px_ok (current_tcb (px_kernel s')) T s' \<and> px_fixed s s'
    \<and> ticks (px_kernel s') = (if next_expiry_ns s \<le> t0 then ticks (px_kernel s) + 1 else ticks (px_kernel s))
    \<and> next_expiry_ns s' = sat_add t1 (px_slice_ns s) \<and> armed s' = (px_slice_ns s div 1000000000, px_slice_ns s mod 1000000000)
    \<and> (if b then LeafN (current_tcb (px_kernel s')) \<in> set (subs T) \<and> px_resumed (current_tcb (px_kernel s')) s'
         \<and> current_tcb (px_kernel s') \<noteq> current_tcb (px_kernel s)
         \<and> (current_tcb (px_kernel s) \<noteq> 0 \<longrightarrow> (\<exists>u. rd (px_kernel s') (current_tcb (px_kernel s)) = Some u \<and> sp u = rsp (fibre_regs s) - 72))
       else fibre_regs s' = fibre_regs s \<and> current_tcb (px_kernel s') = current_tcb (px_kernel s))"
proof -
  let ?c = "current_tcb (px_kernel s)"
  from px_tick_run [OF ok, of t0] obtain s1 where s1: "px_tick t0 s = Some s1" "px_ok ?c T s1" "px_fixed s s1"
    "fibre_regs s1 = fibre_regs s" "ticks (px_kernel s1) = (if next_expiry_ns s \<le> t0 then ticks (px_kernel s) + 1 else ticks (px_kernel s))"
    "kept T (px_kernel s) (px_kernel s1)" "current_tcb (px_kernel s1) = ?c" by blast
  from s1(2) obtain ns where inv: "sys_inv (px_kernel s1) T ns" by (auto simp: px_ok_def)
  from switch_run [OF inv] obtain n k where k: "schedule_next (px_kernel s1) = Some (n, k)" "sys_inv k T ns"
    "kept T (px_kernel s1) k" "ticks k = ticks (px_kernel s1)" "n \<noteq> 0 \<longrightarrow> LeafN n \<in> set (subs T) \<and> current_tcb k = n" by blast
  have cfg: "config k = config (px_kernel s1)" using k(3) by (simp add: kept_def)
  have sl: "px_slice_ns s1 = px_slice_ns s" using s1(3) by (simp add: px_fixed_def)
  let ?s2 = "px_rearm t1 (s1\<lparr>px_kernel := k\<rparr>)"
  have ok2: "px_ok ?c T ?s2" using px_ok_kept [OF s1(2) k(2,3)] px_ok_outside [of ?s2 "s1\<lparr>px_kernel := k\<rparr>"] by simp
  have fx2: "px_fixed s ?s2" using s1(3) cfg by (simp add: px_fixed_def px_rearm_def Let_def)
  have ar2: "next_expiry_ns ?s2 = sat_add t1 (px_slice_ns s)"
    "armed ?s2 = (px_slice_ns s div 1000000000, px_slice_ns s mod 1000000000)"
    by (simp_all add: px_rearm_def Let_def sl)
  show ?thesis
  proof (cases "n = 0 \<or> n = ?c")
    case True
    then have "alarm_handler ra t0 t1 t2 s = Some (False, ?s2)"
      unfolding alarm_handler_def using s1(1,7) k(1) by (auto simp: k_current_def)
    moreover have "current_tcb k = ?c" using True k(1,5) null_switch_current [OF inv] s1(7) by auto
    ultimately show ?thesis using ok2 fx2 ar2 s1(4,5) k(4) by (intro exI [of _ False] exI [of _ ?s2]) simp
  next
    case False
    then have n: "LeafN n \<in> set (subs T)" "n \<noteq> ?c" "current_tcb k = n" using k(5) by auto
    define v where "v = (ucast (min (sat_sub t2 t0) 0xFFFFFFFF) :: u32)"
    define s3 where "s3 = (if kc_measure (config k) \<noteq> MeasureOff then ?s2\<lparr>px_kernel := record_latency v k\<rparr> else ?s2)"
    note r = record_step(1,2) [OF k(2), of v]
    have f: "ticks (record_latency v k) = ticks k" "current_tcb (record_latency v k) = current_tcb k"
      "config (record_latency v k) = config k" "rd (record_latency v k) a = rd k a" for a
      by (simp_all add: record_latency_def Let_def rd_def)
    have ok3: "px_ok ?c T s3" unfolding s3_def using ok2 px_ok_kept [of ?c T ?s2 "record_latency v k"] r by simp
    have fx3: "px_fixed s s3" using fx2 f(3) by (simp add: px_fixed_def s3_def)
    have k3: "ticks (px_kernel s3) = ticks k" "current_tcb (px_kernel s3) = n" "rd (px_kernel s3) a = rd k a" for a
      using f n(3) by (simp_all add: s3_def)
    have o3: "fibre_regs s3 = fibre_regs s" "armed s3 = armed ?s2" "next_expiry_ns s3 = next_expiry_ns ?s2"
      using s1(4) by (simp_all add: s3_def)
    have cT: "?c = 0 \<or> LeafN ?c \<in> set (subs T)" using sys_invD(5) [OF inv] s1(7) by (simp add: cur_in_def)
    have "n \<in> set (addrs T)" using subs_addr [OF n(1)] by simp
    from tree_rd [OF sys_invD(2) [OF k(2)] this] obtain t where t: "rd k n = Some t" by blast
    from px_switch_run [OF ok3 cT n(1,2), of t ra] t k3(3) obtain s' where
      s': "rrkernel_switch ra ?c (sp t) s3 = Some s'" "px_ok 0 T s'" "px_fixed s3 s'" "px_resumed n s'"
        "ticks (px_kernel s') = ticks k" "current_tcb (px_kernel s') = n" "armed s' = armed s3" "next_expiry_ns s' = next_expiry_ns s3"
        "?c \<noteq> 0 \<longrightarrow> (\<exists>u. rd (px_kernel s') ?c = Some u \<and> sp u = rsp (fibre_regs s) - 72)"
      unfolding k3(1,2) o3(1) by auto
    have "alarm_handler ra t0 t1 t2 s = Some (True, s')"
    proof -
      have m: "(if kc_measure (config (px_kernel ?s2)) \<noteq> MeasureOff
                then ?s2\<lparr>px_kernel := record_latency (ucast (min (sat_sub t2 t0) 0xFFFFFFFF)) (px_kernel ?s2)\<rparr> else ?s2) = s3"
        by (simp add: s3_def v_def)
      have n0: "(n = null_ptr \<or> n = ?c) = False" using False by simp
      show ?thesis
        unfolding alarm_handler_def s1(1) bind.bind_lunit Let_def k(1) split_conv k_current_def s1(7) n0 if_False m k3(3) t s'(1) ..
    qed
    moreover have "px_fixed s s'" by (rule px_fixed_trans [OF fx3 s'(3)])
    ultimately show ?thesis
      using px_ok_weaken [OF s'(2)] s'(4-9) k(4) s1(5) o3(2,3) ar2 n by (intro exI [of _ True] exI [of _ s']) simp
  qed
qed

text \<open>A fibre that is switched out and, with its frame untouched, in again has the registers it had,
  and returns from the switch.\<close>

lemma px_switch_back:
  assumes s1: "s1 = switch_out ra s" and b: "b = rsp (fibre_regs s1)"
    and later: "\<And>i. i < 18 \<Longrightarrow> words (px_kernel s2) (b + of_nat (4 * i)) = words (px_kernel s1) (b + of_nat (4 * i))"
  shows "switch_in b s2 = Some (s2\<lparr>fibre_regs := (fibre_regs s)\<lparr>rip := ra\<rparr>\<rparr>)"
proof -
  from switch_out_run [of ra s] obtain w cw where so:
    "switch_out ra s = s\<lparr>fibre_regs := (fibre_regs s)\<lparr>rsp := rsp (fibre_regs s) - 72\<rparr>, px_kernel := (px_kernel s)\<lparr>words := w\<rparr>\<rparr>"
    "w (rsp (fibre_regs s) - 72) = Some (mxcsr (fibre_regs s))" "w (rsp (fibre_regs s) - 72 + 4) = Some cw"
    "ucast cw = x87_cw (fibre_regs s)"
    "load_words (rsp (fibre_regs s) - 72 + 16) 14 w = Some (saved_words ra (fibre_regs s))" by blast
  have bs: "b = rsp (fibre_regs s) - 72" "words (px_kernel s1) = w" unfolding b s1 so(1) by simp_all
  have m: "words (px_kernel s2) b = Some (mxcsr (fibre_regs s))" using later [of 0] so(2) bs by simp
  have c: "words (px_kernel s2) (b + 4) = Some cw" using later [of 1] so(3) bs by simp
  have "load_words (b + 16) 14 (words (px_kernel s2)) = load_words (b + 16) 14 w"
  proof (rule load_cong, intro allI impI)
    fix i :: nat assume i: "i < 14"
    have e: "b + 16 + of_nat (4 * i) = b + of_nat (4 * (i + 4))" by (simp add: algebra_simps)
    show "words (px_kernel s2) (b + 16 + of_nat (4 * i)) = w (b + 16 + of_nat (4 * i))"
      unfolding e bs(2) [symmetric] by (rule later) (use i in simp)
  qed
  then have l: "load_words (b + 16) 14 (words (px_kernel s2)) = Some (saved_words ra (fibre_regs s))" using so(5) bs(1) by simp
  have r: "b + 72 = rsp (fibre_regs s)" by (simp add: bs(1))
  show ?thesis unfolding switch_in_run [OF m c l] with_saved_words [of _ _ ra "fibre_regs s"] so(4) r by simp
qed

section \<open>The first dispatch of a task\<close>

lemma px_frame_list:
  "px_frame_words entry p frame w = store_words frame
     ((replicate 18 0)[0 := 0x1F80, 1 := 0x037F, 10 := p, 11 := 0, 16 := lo_word entry, 17 := hi_word entry]) w"
proof -
  let ?z = "replicate 18 (0 :: u32)"
  have o: "(store_words frame ?z w)(frame \<mapsto> v) = (store_words frame ?z w)(frame + of_nat (4 * 0) \<mapsto> v)" "frame + 4 = frame + of_nat (4 * 1)" "frame + 40 = frame + of_nat (4 * 10)" "frame + 44 = frame + of_nat (4 * 11)"
    "frame + 64 = frame + of_nat (4 * 16)" "frame + 68 = frame + of_nat (4 * 17)" for v by simp_all
  have "(store_words frame (?z) w)(frame + of_nat (4 * 0) \<mapsto> 0x1F80)
      = store_words frame (?z[0 := 0x1F80]) w"
    by (rule store_words_upd) simp_all
  moreover have "(store_words frame (?z[0 := 0x1F80]) w)(frame + of_nat (4 * 1) \<mapsto> 0x037F)
      = store_words frame (?z[0 := 0x1F80, 1 := 0x037F]) w"
    by (rule store_words_upd) simp_all
  moreover have "(store_words frame (?z[0 := 0x1F80, 1 := 0x037F]) w)(frame + of_nat (4 * 10) \<mapsto> p)
      = store_words frame (?z[0 := 0x1F80, 1 := 0x037F, 10 := p]) w"
    by (rule store_words_upd) simp_all
  moreover have "(store_words frame (?z[0 := 0x1F80, 1 := 0x037F, 10 := p]) w)(frame + of_nat (4 * 11) \<mapsto> 0)
      = store_words frame (?z[0 := 0x1F80, 1 := 0x037F, 10 := p, 11 := 0]) w"
    by (rule store_words_upd) simp_all
  moreover have "(store_words frame (?z[0 := 0x1F80, 1 := 0x037F, 10 := p, 11 := 0]) w)(frame + of_nat (4 * 16) \<mapsto> lo_word entry)
      = store_words frame (?z[0 := 0x1F80, 1 := 0x037F, 10 := p, 11 := 0, 16 := lo_word entry]) w"
    by (rule store_words_upd) simp_all
  moreover have "(store_words frame (?z[0 := 0x1F80, 1 := 0x037F, 10 := p, 11 := 0, 16 := lo_word entry]) w)(frame + of_nat (4 * 17) \<mapsto> hi_word entry)
      = store_words frame (?z[0 := 0x1F80, 1 := 0x037F, 10 := p, 11 := 0, 16 := lo_word entry, 17 := hi_word entry]) w"
    by (rule store_words_upd) simp_all
  ultimately show ?thesis unfolding px_frame_words_def o by (simp only: fun_upd_def)
qed

lemma px_first_bounds:
  assumes rm: "unat b + unat sz + 16384 \<le> 2 ^ 32"
  shows "unat (px_first_sp b sz + 72) mod 16 = 8" "unat b + unat (px_size sz) < unat (px_first_sp b sz + 72) + 16"
    "unat (px_first_sp b sz + 72) \<le> unat b + unat (px_size sz) + 8"
    "unat (px_first_sp b sz + 72) = unat (px_first_sp b sz) + 72" "unat b + 8000 \<le> unat (px_first_sp b sz)"
proof -
  let ?tp = "(b + (px_size sz + 16)) AND NOT (16 - 1)"
  have m: "unat (px_size sz) \<le> unat sz + 8192" "8192 \<le> unat (px_size sz)" by (simp_all add: px_size_def max_def word_le_nat_alt)
  have r: "unat b + unat (px_size sz) + unat (16 :: u32) < 2 ^ 32" using rm m(1) by simp
  have pw: "(16 :: u32) = 2 ^ 4" "(4 :: nat) < 32" by simp_all
  note B = top_bounds [OF pw r]
  have u: "unat (?tp - 72) = unat ?tp - 72" using B(1) m(2) by (subst unat_sub; simp add: word_le_nat_alt)
  have "px_first_sp b sz = (?tp - 72) AND NOT (mask 4)" by (simp add: px_first_sp_def mask_eq_exp_minus_1)
  then have f: "unat (px_first_sp b sz) = (unat ?tp - 72) - (unat ?tp - 72) mod 16"
    using and_not_mask_unat [of "?tp - 72" 4] u by simp
  have "16 dvd unat ?tp" using B(3) by (simp add: mod_eq_0_iff_dvd)
  then obtain q where q: "unat ?tp = 16 * q" by (auto simp: dvd_def)
  have q5: "512 \<le> q" using B(1) m(2) unfolding q by simp
  have "unat ?tp - 72 = 16 * (q - 5) + 8" using q5 unfolding q by simp
  then have v: "unat (px_first_sp b sz) = 16 * (q - 5)" unfolding f by simp
  have qb: "16 * q < 2 ^ 32" using B(2) r unfolding q by simp
  show w: "unat (px_first_sp b sz + 72) = unat (px_first_sp b sz) + 72" using v qb by (subst unat_plus_small) simp_all
  have w': "unat (px_first_sp b sz + 72) = 16 * (q - 1) + 8" unfolding w v using q5 by simp
  show "unat (px_first_sp b sz + 72) mod 16 = 8" unfolding w' by simp
  show "unat b + unat (px_size sz) < unat (px_first_sp b sz + 72) + 16" unfolding w' using B(1) q5 unfolding q by simp
  show "unat (px_first_sp b sz + 72) \<le> unat b + unat (px_size sz) + 8" unfolding w' using B(2) q5 unfolding q by simp
  show "unat b + 8000 \<le> unat (px_first_sp b sz)" unfolding v using B(1) m(2) q5 unfolding q by simp
qed

text \<open>The first switch to a new task ends in \<open>rrkernel_task_start\<close>, which hands the TCB to the trampoline
  with the tick signal unblocked, no floating-point exception unmasked, and the stack as at the entry
  of a function: 8 bytes off a multiple of 16, inside its own block.\<close>

lemma px_first_dispatch:
  assumes L: "posix_libc L v" and t: "rd k p = Some t"
    and a: "alloc_block (px_size sz + 16) 16 k = Some (Some b, k\<lparr>karena := a\<rparr>)"
    and c: "px_create e p sz k = Some (Inr (), k1)" and rm: "unat b + unat sz + 16384 \<le> 2 ^ 32"
    and s: "px_kernel s = k1" "rd k1 p = Some t1"
  shows "\<exists>s1 s2. switch_in (sp t1) s = Some s1 \<and> alarm_landed L P e s1 = Some (Some (ucast p), s2)
    \<and> \<not> sigismember L SIGALRM (sigmask s2) \<and> mxcsr (fibre_regs s2) = 0x1F80 \<and> x87_cw (fibre_regs s2) = 0x037F
    \<and> unat (rsp (fibre_regs s2)) mod 16 = 8 \<and> unat b + 8000 \<le> unat (rsp (fibre_regs s2))
    \<and> unat (rsp (fibre_regs s2)) \<le> unat b + unat (px_size sz) + 8 \<and> px_kernel s2 = k1"
proof -
  let ?f = "px_first_sp b sz"
  let ?vs = "(replicate 18 0)[0 := 0x1F80, 1 := 0x037F, 10 := p, 11 := 0, 16 := lo_word e, 17 := hi_word e]"
  have p0: "p \<noteq> 0" using t rd_nonnull by blast
  from c px_create_run [OF t a, of e] have k1: "k1 = put p (t\<lparr>stack_base := b, stack_size := px_size sz, sp := ?f, flags := 0\<rparr>)
      (k\<lparr>karena := a, words := px_frame_words e p ?f (words k)\<rparr>)" by simp
  have sp1: "sp t1 = ?f" using s(2) rd_put [OF p0] unfolding k1 by auto
  have w: "words (px_kernel s) = store_words ?f ?vs (words k)" unfolding s(1) k1 by (simp add: put_def px_frame_list)
  have l: "load_words (?f + 16) 14 (words (px_kernel s)) = Some (take 14 (drop 4 ?vs))"
    using load_slice [of ?vs 4 14 ?f "words k"] by (simp add: w)
  have m: "words (px_kernel s) ?f = Some 0x1F80" "words (px_kernel s) (?f + 4) = Some 0x037F"
    using store_words_at [of ?vs 0 ?f "words k"] store_words_at [of ?vs 1 ?f "words k"] by (simp_all add: w)
  let ?r = "with_saved 0x1F80 (ucast (0x037F :: u32)) (take 14 (drop 4 ?vs)) (?f + 72) (fibre_regs s)"
  let ?s1 = "s\<lparr>fibre_regs := ?r\<rparr>"
  have i: "switch_in (sp t1) s = Some ?s1" unfolding sp1 by (rule switch_in_run [OF m l])
  have j: "join p 0 = ucast p" by (simp add: join_def)
  have r: "rip ?r = e" "r12 ?r = ucast p" "mxcsr ?r = 0x1F80" "x87_cw ?r = 0x037F" "rsp ?r = ?f + 72"
    by (simp_all add: with_saved_def j nth_list_update)
  let ?s2 = "?s1\<lparr>sigmask := sigmask (rrkernel_fibre_entry L ?s1)\<rparr>"
  have fs: "fibre_regs (rrkernel_fibre_entry L x) = fibre_regs x" "px_kernel (rrkernel_fibre_entry L x) = px_kernel x" for x
    by (simp_all add: rrkernel_fibre_entry_def Let_def)
  have ts: "rrkernel_task_start L ?s1 = (ucast p, ?s2)"
    using r(2) by (simp add: rrkernel_task_start_def rrkernel_fibre_entry_def Let_def)
  have "alarm_landed L P e ?s1 = Some (Some (ucast p), ?s2)" using ts r(1) by (simp add: alarm_landed_def)
  moreover have "\<not> sigismember L SIGALRM (sigmask ?s2)" using fibre_entry_unblocks [OF L, of ?s1] by simp
  ultimately show ?thesis
    using i r(3-5) px_first_bounds [OF rm] s(1) by (intro exI [of _ ?s1] exI [of _ ?s2]) simp
qed

section \<open>After the switch\<close>

context quiet_port
begin

text \<open>Back on a task's own stack, the memory of the dead tasks is freed, and never that stack.\<close>

lemma px_landed_run:
  assumes ok: "px_ok (current_tcb (px_kernel s)) T s" and cur: "LeafN (current_tcb (px_kernel s)) \<in> set (subs T)"
  shows "\<exists>start s'. alarm_landed L P entry s = Some (start, s') \<and> px_ok (current_tcb (px_kernel s)) T s'
    \<and> fibre_regs s' = fibre_regs s \<and> current_tcb (px_kernel s') = current_tcb (px_kernel s)
    \<and> ticks (px_kernel s') = ticks (px_kernel s) \<and> next_expiry_ns s' = next_expiry_ns s \<and> px_slice_ns s' = px_slice_ns s
    \<and> (start = None \<longleftrightarrow> rip (fibre_regs s) \<noteq> entry) \<and> (start \<noteq> None \<longrightarrow> sigmask s' = sigmask (rrkernel_fibre_entry L s))
    \<and> (\<forall>t. rd (px_kernel s) (current_tcb (px_kernel s)) = Some t \<longrightarrow> rd (px_kernel s') (current_tcb (px_kernel s)) = Some t
         \<and> (\<forall>b\<in>set (blocks_of t). live_payload (karena (px_kernel s')) b))"
proof (cases "rip (fibre_regs s) = entry")
  case True
  let ?s' = "snd (rrkernel_task_start L s)"
  have e: "fibre_regs ?s' = fibre_regs s" "px_kernel ?s' = px_kernel s" "next_expiry_ns ?s' = next_expiry_ns s" "px_slice_ns ?s' = px_slice_ns s"
    "sigmask ?s' = sigmask (rrkernel_fibre_entry L s)"
    by (simp_all add: rrkernel_task_start_def rrkernel_fibre_entry_def Let_def)
  from ok obtain ns where "sys_inv (px_kernel s) T ns" by (auto simp: px_ok_def)
  from sys_invD(3) [OF this] have "\<forall>t. rd (px_kernel s) (current_tcb (px_kernel s)) = Some t \<longrightarrow> (\<forall>b\<in>set (blocks_of t). live_payload (karena (px_kernel s)) b)"
    by (auto simp: mem_ok_def)
  moreover have "alarm_landed L P entry s = Some (Some (r12 (fibre_regs s)), ?s')"
    using True e(1) by (simp add: alarm_landed_def rrkernel_task_start_def rrkernel_fibre_entry_def Let_def)
  ultimately show ?thesis using ok e True px_ok_outside [of ?s' s] by (intro exI [of _ "Some (r12 (fibre_regs s))"] exI [of _ ?s']) simp
next
  case False
  let ?c = "current_tcb (px_kernel s)"
  from ok obtain ns where inv: "sys_inv (px_kernel s) T ns" by (auto simp: px_ok_def)
  note i = sys_invD [OF inv]
  from reclaim_run [OF inv] obtain k ms where k: "reclaim_finished_tasks P (px_kernel s) = Some k" "sys_inv k T ms"
    "kept T (px_kernel s) k" "ticks k = ticks (px_kernel s)" "current_tcb k = ?c" by blast
  have cT: "?c \<in> set (addrs T)" using subs_addr [OF cur] by simp
  then have "?c \<notin> set ns" using i(4) by (auto simp: dead_ok_def)
  with reclaim_ok [OF i(3,2,4)] k(1) have same: "rd k ?c = rd (px_kernel s) ?c" by auto
  have live: "\<forall>t. rd k ?c = Some t \<longrightarrow> (\<forall>b\<in>set (blocks_of t). live_payload (karena k) b)"
    using sys_invD(3) [OF k(2)] by (auto simp: mem_ok_def)
  have "alarm_landed L P entry s = Some (None, s\<lparr>px_kernel := k\<rparr>)" using False k(1) by (simp add: alarm_landed_def)
  moreover have "px_ok ?c T (s\<lparr>px_kernel := k\<rparr>)" by (rule px_ok_kept [OF ok k(2,3)])
  ultimately show ?thesis using False k(4,5) same live by (intro exI [of _ None] exI [of _ "s\<lparr>px_kernel := k\<rparr>"]) simp
qed

end

section \<open>A run of signals\<close>

text \<open>One signal, to the end of what the handler does for the fibre it lands in.\<close>

definition px_signal :: "'s libc \<Rightarrow> port \<Rightarrow> u64 \<Rightarrow> u64 \<times> u64 \<times> u64 \<times> u64 \<Rightarrow> 's posix \<Rightarrow> 's posix option" where
  "px_signal L P entry sig s = do {
     let (ra, t0, t1, t2) = sig;
     (switched_away, s) \<leftarrow> alarm_handler ra t0 t1 t2 s;
     if switched_away then do { (start, s) \<leftarrow> alarm_landed L P entry s; Some s } else Some s
   }"

fun px_signals :: "'s libc \<Rightarrow> port \<Rightarrow> u64 \<Rightarrow> (u64 \<times> u64 \<times> u64 \<times> u64) list \<Rightarrow> 's posix \<Rightarrow> 's posix option" where
  "px_signals L P entry [] s = Some s"
| "px_signals L P entry (sig # sigs) s = do { s \<leftarrow> px_signal L P entry sig s; px_signals L P entry sigs s }"

text \<open>How many of them find the timer's time come, for a slice \<open>sl\<close> and the next expiry \<open>e\<close>.\<close>

fun expiries :: "u64 \<Rightarrow> u64 \<Rightarrow> (u64 \<times> u64 \<times> u64 \<times> u64) list \<Rightarrow> nat" where
  "expiries sl e [] = 0"
| "expiries sl e ((ra, t0, t1, t2) # sigs) = (if e \<le> t0 then 1 else 0) + expiries sl (sat_add t1 sl) sigs"

context quiet_port
begin

lemma px_signal_run:
  assumes ok: "px_ok (current_tcb (px_kernel s)) T s"
  shows "\<exists>s'. px_signal L P entry (ra, t0, t1, t2) s = Some s' \<and> px_ok (current_tcb (px_kernel s')) T s'
    \<and> ticks (px_kernel s') = (if next_expiry_ns s \<le> t0 then ticks (px_kernel s) + 1 else ticks (px_kernel s))
    \<and> next_expiry_ns s' = sat_add t1 (px_slice_ns s) \<and> px_slice_ns s' = px_slice_ns s
    \<and> (\<forall>t. rd (px_kernel s') (current_tcb (px_kernel s')) = Some t \<longrightarrow> (\<forall>b\<in>set (blocks_of t). live_payload (karena (px_kernel s')) b))"
proof -
  from px_handler_run [OF ok, of ra t0 t1 t2] obtain b s1 where
    s1: "alarm_handler ra t0 t1 t2 s = Some (b, s1)" "px_ok (current_tcb (px_kernel s1)) T s1" "px_fixed s s1"
      "ticks (px_kernel s1) = (if next_expiry_ns s \<le> t0 then ticks (px_kernel s) + 1 else ticks (px_kernel s))"
      "next_expiry_ns s1 = sat_add t1 (px_slice_ns s)" "b \<longrightarrow> LeafN (current_tcb (px_kernel s1)) \<in> set (subs T)"
    by (elim exE conjE) (rule that, auto)
  have sl: "px_slice_ns s1 = px_slice_ns s" using s1(3) by (simp add: px_fixed_def)
  show ?thesis
  proof (cases b)
    case True
    with px_landed_run [OF s1(2), of L entry] s1(6) obtain start s' where
      s': "alarm_landed L P entry s1 = Some (start, s')" "px_ok (current_tcb (px_kernel s1)) T s'"
        "current_tcb (px_kernel s') = current_tcb (px_kernel s1)" "ticks (px_kernel s') = ticks (px_kernel s1)"
        "next_expiry_ns s' = next_expiry_ns s1" "px_slice_ns s' = px_slice_ns s1" by blast
    from s'(2) obtain ms where "sys_inv (px_kernel s') T ms" by (auto simp: px_ok_def)
    from sys_invD(3) [OF this] have "\<forall>t. rd (px_kernel s') (current_tcb (px_kernel s')) = Some t \<longrightarrow> (\<forall>b\<in>set (blocks_of t). live_payload (karena (px_kernel s')) b)"
      by (auto simp: mem_ok_def)
    then show ?thesis using True s1(1,4,5) s' sl by (intro exI [of _ s']) (simp add: px_signal_def)
  next
    case False
    from s1(2) obtain ms where "sys_inv (px_kernel s1) T ms" by (auto simp: px_ok_def)
    from sys_invD(3) [OF this] have "\<forall>t. rd (px_kernel s1) (current_tcb (px_kernel s1)) = Some t \<longrightarrow> (\<forall>b\<in>set (blocks_of t). live_payload (karena (px_kernel s1)) b)"
      by (auto simp: mem_ok_def)
    then show ?thesis using False s1 sl by (intro exI [of _ s1]) (simp add: px_signal_def)
  qed
qed

text \<open>The clock counts the signals that come a full slice after the timer was last armed.\<close>

lemma px_signals_run:
  "px_ok (current_tcb (px_kernel s)) T s \<Longrightarrow> \<exists>s'. px_signals L P entry sigs s = Some s' \<and> px_ok (current_tcb (px_kernel s')) T s'
    \<and> ticks (px_kernel s') = ticks (px_kernel s) + of_nat (expiries (px_slice_ns s) (next_expiry_ns s) sigs)
    \<and> px_slice_ns s' = px_slice_ns s"
proof (induction sigs arbitrary: s)
  case (Cons sig sigs)
  obtain ra t0 t1 t2 where sig: "sig = (ra, t0, t1, t2)" by (metis prod_cases4)
  from px_signal_run [OF Cons.prems, of L entry ra t0 t1 t2] obtain s1 where
    s1: "px_signal L P entry sig s = Some s1" "px_ok (current_tcb (px_kernel s1)) T s1"
    "ticks (px_kernel s1) = (if next_expiry_ns s \<le> t0 then ticks (px_kernel s) + 1 else ticks (px_kernel s))"
    "next_expiry_ns s1 = sat_add t1 (px_slice_ns s)" "px_slice_ns s1 = px_slice_ns s" unfolding sig by blast
  from Cons.IH [OF s1(2)] obtain s' where s': "px_signals L P entry sigs s1 = Some s'" "px_ok (current_tcb (px_kernel s')) T s'"
    "ticks (px_kernel s') = ticks (px_kernel s1) + of_nat (expiries (px_slice_ns s1) (next_expiry_ns s1) sigs)" "px_slice_ns s' = px_slice_ns s1"
    by blast
  then show ?case using s1 by (intro exI [of _ s']) (simp add: sig)
qed simp

end

text \<open>Signals less than a slice apart leave the clock where it is.\<close>

fun frequent :: "u64 \<Rightarrow> u64 \<Rightarrow> (u64 \<times> u64 \<times> u64 \<times> u64) list \<Rightarrow> bool" where
  "frequent sl armed_at [] = True"
| "frequent sl armed_at ((ra, t0, t1, t2) # sigs) = (unat t0 < unat armed_at + unat sl \<and> frequent sl t1 sigs)"

lemma frequent_never_expires:
  assumes "frequent sl a sigs" and "\<forall>(ra, t0, t1, t2) \<in> set sigs. t0 \<noteq> - 1"
  shows "expiries sl (sat_add a sl) sigs = 0"
  using assms
proof (induction sigs arbitrary: a)
  case (Cons sig sigs)
  obtain ra t0 t1 t2 where sig: "sig = (ra, t0, t1, t2)" by (metis prod_cases4)
  have "unat t0 < unat (- 1 :: u64)" using Cons.prems(2) word_order.not_eq_extremum [of t0] by (simp add: sig word_less_nat_alt)
  then have "unat t0 < unat (sat_add a sl)" using Cons.prems(1) unfolding unat_sat_add sig unat_max_word by simp
  then have "\<not> sat_add a sl \<le> t0" by (simp add: word_le_nat_alt)
  then show ?case using Cons by (simp add: sig)
qed simp

section \<open>Nothing to run\<close>

text \<open>A blocked fibre then goes on running: its park returns at once.\<close>

lemma px_idle_runs_on:
  assumes ok: "px_ok (current_tcb (px_kernel s)) T s" and none: "none_runnable (px_kernel s) T" and e: "t0 < next_expiry_ns s"
  shows "\<exists>s'. alarm_handler ra t0 t1 t2 s = Some (False, s') \<and> fibre_regs s' = fibre_regs s
    \<and> ticks (px_kernel s') = ticks (px_kernel s) \<and> current_tcb (px_kernel s') = current_tcb (px_kernel s)
    \<and> (\<forall>a. map_option st (rd (px_kernel s') a) = map_option st (rd (px_kernel s) a))"
proof -
  from ok obtain ns where inv: "sys_inv (px_kernel s) T ns" by (auto simp: px_ok_def)
  from idle_schedule [OF sys_invD(1) [OF inv] none] obtain k' where k': "schedule_next (px_kernel s) = Some (0, k')"
    "ticks k' = ticks (px_kernel s)" "\<forall>a. map_option st (rd k' a) = map_option st (rd (px_kernel s) a)" by blast
  have "(next_expiry_ns s \<le> t0) = False" using e by simp
  then have "px_tick t0 s = Some s" by (simp add: px_tick_def)
  then have "alarm_handler ra t0 t1 t2 s = Some (False, px_rearm t1 (s\<lparr>px_kernel := k'\<rparr>))"
    using k'(1) by (simp add: alarm_handler_def Let_def)
  then show ?thesis using k' null_switch_current [OF inv k'(1)] by (intro exI [of _ "px_rearm t1 (s\<lparr>px_kernel := k'\<rparr>)"]) simp
qed

end
