(* ===== verification/RkWin32.thy ===== *)
theory RkWin32
  imports RkPosix
begin

text \<open>
  The Windows port (\<^verbatim>\<open>src/arch/win32.rs\<close>): each task is a thread of the system, created suspended, and
  a tick thread suspends the one that ran and resumes the one the ring selects.  What the kernel
  calls for (threads, handles, clocks) is an argument; \<open>win_laws\<close> states what the documentation
  promises.  The system's own state is an opaque table that is kept in \<open>words\<close>, the part of the
  state outside the kernel's heap.
\<close>

section \<open>The system\<close>

type_synonym sys_table = "ptr \<rightharpoonup> u32"

text \<open>\<open>create_thread\<close> makes a suspended thread and \<open>open_thread\<close> opens the calling one; both answer the
  null handle when they fail.  \<open>handle_open\<close>, \<open>alive\<close> (open, and the thread has not ended) and \<open>suspend_count\<close> say what a
  handle stands for.\<close>

record win_api =
  suspend_thread :: "ptr \<Rightarrow> sys_table \<Rightarrow> sys_table"
  resume_thread :: "ptr \<Rightarrow> sys_table \<Rightarrow> sys_table"
  close_handle :: "ptr \<Rightarrow> sys_table \<Rightarrow> sys_table"
  create_thread :: "sys_table \<Rightarrow> ptr \<times> sys_table"
  open_thread :: "sys_table \<Rightarrow> ptr \<times> sys_table"
  alive :: "sys_table \<Rightarrow> ptr \<Rightarrow> bool"
  handle_open :: "sys_table \<Rightarrow> ptr \<Rightarrow> bool"
  suspend_count :: "sys_table \<Rightarrow> ptr \<Rightarrow> nat"

definition WIN_UNITS_PER_SEC :: u32 where "WIN_UNITS_PER_SEC = 10000000"
definition MIN_SLICE_NS_HIGH_RES :: u64 where "MIN_SLICE_NS_HIGH_RES = 500000"
definition MIN_SLICE_NS_FALLBACK :: u64 where "MIN_SLICE_NS_FALLBACK = 1000000"

section \<open>The kernel lock\<close>

record rlock =
  lock_owner :: u32
  lock_depth :: u32

text \<open>One pass of \<open>critical_enter\<close> in thread \<open>thread_id\<close>: the token, or nothing when the exchange fails; a weak
  exchange may fail for no reason (\<open>spurious\<close>).\<close>

definition w32_try_enter :: "u32 \<Rightarrow> bool \<Rightarrow> rlock \<Rightarrow> u32 option \<times> rlock" where
  "w32_try_enter thread_id spurious l =
     (let me = thread_id + 1 in
      if lock_owner l = me then (Some (lock_depth l + 1), l\<lparr>lock_depth := lock_depth l + 1\<rparr>)
      else if lock_owner l = 0 \<and> \<not> spurious then (Some 1, l\<lparr>lock_owner := me, lock_depth := 1\<rparr>)
      else (None, l))"

definition w32_critical_exit :: "u32 \<Rightarrow> rlock \<Rightarrow> rlock" where
  "w32_critical_exit token l =
     (let d = lock_depth l; l = l\<lparr>lock_depth := d - 1\<rparr> in if d = 1 then l\<lparr>lock_owner := 0\<rparr> else l)"

text \<open>The loop around it, for the results of its exchanges: how often it yields, and how it ends.\<close>

datatype spin_end = Entered | Aborted | StillSpinning

fun w32_spin :: "u64 \<Rightarrow> bool list \<Rightarrow> nat \<times> spin_end" where
  "w32_spin spins [] = (0, StillSpinning)"
| "w32_spin spins (won # rest) =
     (if won then (0, Entered)
      else let spins = spins + 1; yields = (if spins AND 0xFF = 0 then 1 else 0) in
        if spins > 200000000 then (yields, Aborted)
        else let (n, e) = w32_spin spins rest in (yields + n, e))"

section \<open>The clock and the timer\<close>

text \<open>\<open>now_ns\<close>: the cached frequency, and what the two performance-counter calls answer.  The result
  is the time and the cache.\<close>

definition w32_now_ns :: "u64 \<Rightarrow> u64 option \<Rightarrow> u64 option \<Rightarrow> u64 \<times> u64" where
  "w32_now_ns cached frequency counter =
     (let freq = (if cached = 0 then (case frequency of None \<Rightarrow> None | Some f \<Rightarrow> if f <=s 0 then None else Some f)
                  else Some cached)
      in case freq of
           None \<Rightarrow> (0, cached)
         | Some freq \<Rightarrow>
             (case counter of
                None \<Rightarrow> (0, freq)
              | Some c \<Rightarrow> (ucast ((scast c :: u128) * 1000000000 div (ucast freq :: u128)), freq)))"

record win =
  objects_made :: bool
  win_timer :: ptr
  win_kick :: ptr
  high_res :: u8
  tick_thread :: ptr
  exit_code :: u32
  baton :: ptr
  slice_units :: u64
  deadline :: u64
  win_last_tick :: u64
  due_time :: u64
  kick_set :: bool
  win_kernel :: kernel

text \<open>\<open>ensure_objects\<close>, for the timers the two calls make and the event.\<close>

definition ensure_objects :: "ptr \<Rightarrow> ptr \<Rightarrow> ptr \<Rightarrow> win \<Rightarrow> win" where
  "ensure_objects high_res_timer plain_timer kick s =
     (if objects_made s then s
      else let s = (if high_res_timer = null_ptr then s\<lparr>high_res := 2, win_timer := plain_timer\<rparr>
                    else s\<lparr>high_res := 1, win_timer := high_res_timer\<rparr>)
        in s\<lparr>win_kick := kick, objects_made := True\<rparr>)"

text \<open>\<open>rearm_timer\<close>: a negative due time is relative.\<close>

definition rearm_timer :: "u64 \<Rightarrow> win \<Rightarrow> win" where
  "rearm_timer t s =
     (let units = slice_units s
      in s\<lparr>deadline := t + units * 100, due_time := - units\<rparr>)"

section \<open>The porting surface\<close>

definition w32_cycles_to_ns :: "u32 \<Rightarrow> kernel \<Rightarrow> u64" where
  "w32_cycles_to_ns cycles k = ucast cycles * (1000000000 div ucast WIN_UNITS_PER_SEC)"

definition w32_platform_limits :: "u8 \<Rightarrow> kernel \<Rightarrow> platform_limits" where
  "w32_platform_limits res k =
     (let fine = (res = 1) in
      \<lparr>min_slice_ns = (if fine then MIN_SLICE_NS_HIGH_RES else MIN_SLICE_NS_FALLBACK),
       max_slice_ns = Some (0xFFFFFFFF * 100), limits_timer_hz = WIN_UNITS_PER_SEC,
       timer_note = (if fine then ''high-resolution waitable timer (0.5 ms granularity)''
                     else ''system waitable timer with timeBeginPeriod(1) (1 ms granularity)'')\<rparr>)"

definition w32_plan_timer :: "u8 \<Rightarrow> scheduler_config \<Rightarrow> config_error + timer_plan" where
  "w32_plan_timer res cfg =
     (let limits = w32_platform_limits res kernel_new;
          requested = (case cfg_slice cfg of Cycles c \<Rightarrow> ucast c * 100 | other \<Rightarrow> as_nanos other (cfg_timer_hz cfg)) in
      if requested = 0 then Inl ZeroSlice
      else if requested < min_slice_ns limits then Inl (SliceBelowPlatformMinimum requested (min_slice_ns limits))
      else let units = div_ceil requested 100 in
        if units > 0xFFFFFFFF then Inl (SliceAboveTimerRange requested (0xFFFFFFFF * 100))
        else Inr \<lparr>plan_slice_ns = units * 100, plan_slice_cycles = ucast units, plan_timer_hz = WIN_UNITS_PER_SEC\<rparr>)"

text \<open>\<open>start_timer\<close>, after \<open>ensure_objects\<close>: \<open>thread\<close> is the tick thread that \<open>CreateThread\<close> makes, or null.\<close>

definition w32_start_result :: "bool \<Rightarrow> ptr \<Rightarrow> config_error + unit" where
  "w32_start_result have_objects thread =
     (if \<not> have_objects then Inl (PlatformError ''could not create the kernel timer'')
      else if thread = null_ptr then Inl (PlatformError ''could not create the tick thread'') else Inr ())"

definition w32_start_timer :: "ptr \<Rightarrow> ptr \<Rightarrow> ptr \<Rightarrow> ptr \<Rightarrow> u64 \<Rightarrow> timer_plan \<Rightarrow> win \<Rightarrow> (config_error + unit) \<times> win" where
  "w32_start_timer high_res_timer plain_timer kick thread t plan s =
     (let s = ensure_objects high_res_timer plain_timer kick s;
          have_objects = (win_timer s \<noteq> 0 \<and> win_kick s \<noteq> 0);
          r = w32_start_result have_objects thread in
      if \<not> have_objects then (r, s)
      else let s = rearm_timer t (s\<lparr>slice_units := ucast (plan_slice_cycles plan)\<rparr>) in
        case r of Inl e \<Rightarrow> (r, s) | Inr _ \<Rightarrow> (r, s\<lparr>tick_thread := thread\<rparr>))"

definition w32_retune_timer :: "u64 \<Rightarrow> timer_plan \<Rightarrow> win \<Rightarrow> (config_error + unit) \<times> win" where
  "w32_retune_timer t plan s = (Inr (), rearm_timer t (s\<lparr>slice_units := ucast (plan_slice_cycles plan)\<rparr>))"

text \<open>\<open>adopt_current_task\<close>, on the kernel and with the baton.\<close>

definition w32_adopt :: "win_api \<Rightarrow> ptr \<Rightarrow> kernel \<Rightarrow> ((config_error + unit) \<times> kernel) option" where
  "w32_adopt A p k = do {
     let (h, w) = open_thread A (words k);
     let k = k\<lparr>words := w\<rparr>;
     if h = null_ptr then Some (Inl (PlatformError ''OpenThread on the calling thread failed''), k)
     else do {
       k \<leftarrow> upd (\<lambda>t. t\<lparr>backend := h, stack_base := null_ptr, stack_size := 0\<rparr>) p k;
       Some (Inr (), k)
     }
   }"

definition w32_adopt_current :: "win_api \<Rightarrow> ptr \<Rightarrow> win \<Rightarrow> ((config_error + unit) \<times> win) option" where
  "w32_adopt_current A p s = do {
     (r, k) \<leftarrow> w32_adopt A p (win_kernel s);
     let s = s\<lparr>win_kernel := k\<rparr>;
     Some (r, case r of Inl e \<Rightarrow> s | Inr _ \<Rightarrow> s\<lparr>baton := p\<rparr>)
   }"

definition w32_create :: "win_api \<Rightarrow> ptr \<Rightarrow> usize \<Rightarrow> kernel \<Rightarrow> ((spawn_error + unit) \<times> kernel) option" where
  "w32_create A p stack_sz k = do {
     let (h, w) = create_thread A (words k);
     let k = k\<lparr>words := w\<rparr>;
     if h = null_ptr then Some (Inl (Backend (PlatformError ''CreateThread failed for a new task'')), k)
     else do {
       k \<leftarrow> upd (\<lambda>t. t\<lparr>backend := h, stack_base := null_ptr, stack_size := stack_sz\<rparr>) p k;
       Some (Inr (), k)
     }
   }"

definition w32_request_switch :: "win \<Rightarrow> win" where
  "w32_request_switch s = (if win_kick s \<noteq> 0 then s\<lparr>kick_set := True\<rparr> else s)"

text \<open>\<open>on_task_reclaimed\<close> and \<open>is_pinned\<close>, for the TCB in \<open>RUNNING_TCB\<close>.\<close>

definition w32_on_task_reclaimed :: "win_api \<Rightarrow> ptr \<Rightarrow> ptr \<Rightarrow> kernel \<Rightarrow> kernel option" where
  "w32_on_task_reclaimed A now_running p k = do {
     t \<leftarrow> rd k p;
     let h = backend t;
     k \<leftarrow> upd (\<lambda>t. t\<lparr>backend := null_ptr\<rparr>) p k;
     if h = null_ptr then Some k
     else if h \<noteq> now_running then Some (k\<lparr>words := close_handle A h (words k)\<rparr>) else Some k
   }"

definition w32_is_pinned :: "ptr \<Rightarrow> ptr \<Rightarrow> bool" where
  "w32_is_pinned now_running p = (now_running \<noteq> 0 \<and> now_running = p)"

definition w32_cycle_counter :: "u32 option" where
  "w32_cycle_counter = None"

definition w32_cycle_counter_hz :: u32 where
  "w32_cycle_counter_hz = 0"

definition w32_parks_synchronously :: bool where
  "w32_parks_synchronously = False"

text \<open>\<open>res\<close> is \<open>HIGH_RES\<close>; whether the objects are there and the tick thread is made is for the system
  to say.\<close>

definition win32_port :: "win_api \<Rightarrow> u8 \<Rightarrow> ptr \<Rightarrow> ptr \<Rightarrow> bool \<Rightarrow> ptr \<Rightarrow> port" where
  "win32_port A res now_running default_arena have_objects thread =
     \<lparr>port_plan = w32_plan_timer res, port_limits = w32_platform_limits res, port_ns = w32_cycles_to_ns,
      port_adopt = w32_adopt A, port_start = (\<lambda>plan k. (w32_start_result have_objects thread, k)),
      port_retune = (\<lambda>plan k. (Inr (), k)), port_create = w32_create A, port_pinned = w32_is_pinned now_running,
      port_reclaimed = w32_on_task_reclaimed A now_running, port_default_arena = default_arena\<rparr>"

section \<open>The tick thread\<close>

text \<open>A pass either goes on or ends the process with a code.\<close>

datatype pass_end = Continued | ProcessExit u32

definition suspend_and_maybe_close :: "win_api \<Rightarrow> ptr \<Rightarrow> kernel \<Rightarrow> kernel option" where
  "suspend_and_maybe_close A prev k = do {
     t \<leftarrow> rd k prev;
     let h = backend t;
     if h = null_ptr then Some k
     else do {
       let k = k\<lparr>words := suspend_thread A h (words k)\<rparr>;
       t \<leftarrow> rd k prev;
       if st t = Dead then upd (\<lambda>t. t\<lparr>backend := null_ptr\<rparr>) prev (k\<lparr>words := close_handle A h (words k)\<rparr>)
       else Some k
     }
   }"

text \<open>\<open>finish_shutdown\<close> resumes the threads of the ring it finds, then ends the process.\<close>

partial_function (option) resume_ring :: "win_api \<Rightarrow> ptr \<Rightarrow> ptr \<Rightarrow> kernel \<Rightarrow> kernel option" where
  "resume_ring A start p k = do {
     t \<leftarrow> rd k p;
     let k = (if backend t = null_ptr then k else k\<lparr>words := resume_thread A (backend t) (words k)\<rparr>);
     let p = nxt t;
     if p = null_ptr \<or> p = start then Some k else resume_ring A start p k
   }"

definition finish_shutdown :: "win_api \<Rightarrow> u32 \<Rightarrow> win \<Rightarrow> (pass_end \<times> win) option" where
  "finish_shutdown A code s = do {
     let k = win_kernel s;
     let start = (if ring_head k = null_ptr then k_current k else ring_head k);
     k \<leftarrow> (if start = null_ptr then Some k else resume_ring A start start k);
     Some (ProcessExit code, s\<lparr>win_kernel := k\<rparr>)
   }"

text \<open>The measurement before the lock is taken.\<close>

definition w32_measure :: "bool \<Rightarrow> u64 \<Rightarrow> win \<Rightarrow> win" where
  "w32_measure from_timer t0 s =
     (if from_timer then
        (let last = win_last_tick s; s = s\<lparr>win_last_tick := t0\<rparr>
         in if last \<noteq> 0 \<and> t0 > last then
              (let period = t0 - last; want = slice_units s * 100;
                   err = (if period > want then period - want else want - period)
               in s\<lparr>win_kernel := record_period_error (ucast (min err 0xFFFFFFFF)) (win_kernel s)\<rparr>)
            else s)
      else s)"

text \<open>The switch: \<open>next\<close> is what \<open>schedule_next\<close> answers, \<open>tr\<close> the clock when the timer is armed.\<close>

definition w32_switch :: "win_api \<Rightarrow> u64 \<Rightarrow> ptr \<Rightarrow> win \<Rightarrow> (pass_end \<times> win) option" where
  "w32_switch A tr nx s =
     (if nx = null_ptr then
        (if kc_idle (config (win_kernel s)) = ExitWhenAllDead then finish_shutdown A 0 s
         else do {
           let prev = baton s;
           let s = s\<lparr>baton := 0\<rparr>;
           k \<leftarrow> (if prev \<noteq> 0 then suspend_and_maybe_close A prev (win_kernel s) else Some (win_kernel s));
           Some (Continued, rearm_timer tr (s\<lparr>win_kernel := k\<rparr>))
         })
      else do {
        t \<leftarrow> rd (win_kernel s) nx;
        let next_handle = backend t;
        let prev = baton s;
        let s = s\<lparr>baton := nx\<rparr>;
        k \<leftarrow> (if prev \<noteq> 0 \<and> prev \<noteq> nx then suspend_and_maybe_close A prev (win_kernel s) else Some (win_kernel s));
        let k = k\<lparr>words := resume_thread A next_handle (words k)\<rparr>;
        Some (Continued, rearm_timer tr (s\<lparr>win_kernel := k\<rparr>))
      })"

text \<open>One round of \<open>tick_thread_main\<close>, with the lock held from the test of the shutdown flag to the switch;
  \<open>t0\<close> and \<open>t1\<close> are the clock after the wait and at the end.\<close>

definition tick_thread_pass :: "win_api \<Rightarrow> bool \<Rightarrow> u64 \<Rightarrow> u64 \<Rightarrow> u64 \<Rightarrow> win \<Rightarrow> (pass_end \<times> win) option" where
  "tick_thread_pass A from_timer t0 tr t1 s = do {
     let s = w32_measure from_timer t0 s;
     if shutdown_flag (win_kernel s) then finish_shutdown A (exit_code s) s
     else do {
       k \<leftarrow> (if from_timer then on_tick (win_kernel s) else Some (win_kernel s));
       k \<leftarrow> reclaim_finished_tasks (win32_port A (high_res s) (baton s) 0 True (tick_thread s)) k;
       (nx, k) \<leftarrow> schedule_next k;
       (e, s) \<leftarrow> w32_switch A tr nx (s\<lparr>win_kernel := k\<rparr>);
       Some (e, case e of
          Continued \<Rightarrow> s\<lparr>win_kernel := record_latency (ucast (min (sat_sub t1 t0) 0xFFFFFFFF)) (win_kernel s)\<rparr>
        | ProcessExit _ \<Rightarrow> s)
     }
   }"

text \<open>\<open>shutdown\<close>: without a tick thread the process ends at once; otherwise the code is left for the tick
  thread, and after 202 rounds of sleep the caller ends the process itself.\<close>

definition w32_shutdown :: "u32 \<Rightarrow> nat \<Rightarrow> win \<Rightarrow> pass_end \<times> win" where
  "w32_shutdown code sleeps s =
     (if tick_thread s = 0 then (ProcessExit code, s)
      else (if sleeps > 201 then ProcessExit code else Continued, w32_request_switch (s\<lparr>exit_code := code\<rparr>)))"

section \<open>What the documentation promises\<close>

text \<open>The rest of the table, when a call concerns one handle.\<close>

definition same_elsewhere :: "win_api \<Rightarrow> ptr \<Rightarrow> sys_table \<Rightarrow> sys_table \<Rightarrow> bool" where
  "same_elsewhere A h w w' = (\<forall>g. g \<noteq> h \<longrightarrow> handle_open A w' g = handle_open A w g
     \<and> alive A w' g = alive A w g \<and> suspend_count A w' g = suspend_count A w g)"

definition win_laws :: "win_api \<Rightarrow> bool" where
  "win_laws A =
     ((\<forall>w h. alive A w h \<longrightarrow> handle_open A w h) \<and>
      (\<forall>w h. same_elsewhere A h w (suspend_thread A h w) \<and> same_elsewhere A h w (resume_thread A h w)
         \<and> same_elsewhere A h w (close_handle A h w)) \<and>
      (\<forall>w h. alive A w h \<longrightarrow> alive A (suspend_thread A h w) h \<and> alive A (resume_thread A h w) h) \<and>
      (\<forall>w h. alive A w h \<longrightarrow> suspend_count A w h < 127 \<longrightarrow> suspend_count A (suspend_thread A h w) h = suspend_count A w h + 1) \<and>
      (\<forall>w h. alive A w h \<longrightarrow> suspend_count A (resume_thread A h w) h = suspend_count A w h - 1) \<and>
      (\<forall>w h. \<not> handle_open A (close_handle A h w) h) \<and>
      (\<forall>w h w'. create_thread A w = (h, w') \<longrightarrow> same_elsewhere A h w w' \<and>
         (h \<noteq> 0 \<longrightarrow> \<not> handle_open A w h \<and> alive A w' h \<and> suspend_count A w' h = 1)) \<and>
      (\<forall>w h w'. open_thread A w = (h, w') \<longrightarrow> same_elsewhere A h w w' \<and>
         (h \<noteq> 0 \<longrightarrow> \<not> handle_open A w h \<and> alive A w' h \<and> suspend_count A w' h = 0)))"

section \<open>The kernel's steps and the handles\<close>

text \<open>What of a control block the tick thread looks at.\<close>

definition thread_of :: "tcb \<Rightarrow> ptr \<times> bool" where
  "thread_of t = (backend t, st t = Dead)"

definition same_threads :: "kernel \<Rightarrow> kernel \<Rightarrow> bool" where
  "same_threads k k' = (words k' = words k \<and> (\<forall>a. map_option thread_of (rd k' a) = map_option thread_of (rd k a)))"

lemma same_threads_trans: "same_threads k k1 \<Longrightarrow> same_threads k1 k2 \<Longrightarrow> same_threads k k2"
  by (simp add: same_threads_def)

lemma tick_threads:
  assumes inv: "sys_inv k T ns" and r: "on_tick k = Some k'"
  shows "same_threads k k'"
proof -
  from tick_form [OF inv] obtain A B where
    f: "on_tick k = Some (k\<lparr>ticks := ticks k + 1, heap := map_at (\<lambda>t. if due (ticks k + 1) t then make_ready t else t) A (map_at drain_one B (heap k))\<rparr>)"
    by blast
  have "thread_of (if due n t then make_ready t else t) = thread_of t" "thread_of (drain_one t) = thread_of t" for n t
    by (auto simp: thread_of_def due_def make_ready_def drain_one_def)
  then have "map_option thread_of (rd k' a) = map_option thread_of (rd k a)" for a
    using f r by (cases "rdh (heap k) a") (auto simp: rd_def rdh_map_at)
  then show ?thesis using f r by (auto simp: same_threads_def)
qed

lemma switch_threads:
  assumes inv: "sys_inv k T ns" and r: "schedule_next k = Some (n, k')"
  shows "same_threads k k'"
proof -
  note i = sys_invD [OF inv]
  from switch_step [OF inv] r have ss: "steady_step (set ns) k k'" by auto
  from schedule_next_spec [OF i(2,8)] obtain leaf k0 k1 k2 where
    k0: "k0 = k\<lparr>current_tcb := (if eff_cur k = 0 then 0 else current_tcb k)\<rparr>"
    and p: "picked T k0 leaf k1" and s2: "schedule_next k = Some (leaf, k2)"
    and e: "if leaf = 0 then k2 = k1 else switched (eff_cur k) leaf k1 k2" by blast
  have k2: "k2 = k'" using s2 r by simp
  have ao: "arm_only (heap k) (heap k1)" using p k0 by (simp add: picked_def moved_def)
  have runs: "st t \<noteq> Dead" if "leaf \<noteq> 0" "rd k leaf = Some t" for t
    using p k0 that by (auto simp: picked_def h_runnable_def rd_def not_runnable_def)
  have "map_option thread_of (rd k' a) = map_option thread_of (rd k a)" for a
  proof (cases "rd k a")
    case None
    then have "map_option steady (rd k' a) = None" using steady_stepD(4) [OF ss, of a] by simp
    then show ?thesis using None by simp
  next
    case (Some t)
    with arm_onlyD [OF ao, of a t] obtain t1 where t1: "rd k1 a = Some t1" "plain t1 = plain t" by (auto simp: rd_def)
    have s1: "st t1 = st t" "backend t1 = backend t" using plain_eqD(1) [OF t1(2)] arg_cong [OF t1(2), of backend] by (simp_all add: plain_def)
    show ?thesis
    proof (cases "leaf = 0")
      case True
      then show ?thesis using e k2 t1(1) s1 Some by (simp add: thread_of_def)
    next
      case False
      with e k2 have sw: "switched (eff_cur k) leaf k1 k'" by simp
      from sw [unfolded switched_def, THEN conjunct2, THEN conjunct2, THEN conjunct2, THEN conjunct2, THEN conjunct2,
          THEN conjunct2, THEN conjunct2, THEN conjunct2, THEN conjunct2, THEN conjunct2, THEN conjunct2] t1(1)
      obtain t' where t': "rd k' a = Some t'" "frozen t' = frozen t1"
        "st t' = (if leaf \<noteq> eff_cur k \<and> a = leaf then Running else if leaf \<noteq> eff_cur k \<and> a = eff_cur k \<and> st t1 = Running then Ready else st t1)"
        by blast
      have "backend t' = backend t1" using arg_cong [OF t'(2), of backend] by (simp add: frozen_def)
      moreover have "st t' = Dead \<longleftrightarrow> st t1 = Dead" using t'(3) runs [OF False, of t] Some s1 by (auto split: if_splits)
      ultimately show ?thesis using t'(1) Some s1 by (simp add: thread_of_def)
    qed
  qed
  then show ?thesis using steady_stepD(6) [OF ss] by (simp add: same_threads_def)
qed

text \<open>The reclamation finds no handle to close: the tick thread has closed them all, but the one of the
  pinned task.\<close>

lemma freed_words:
  "free_block p k = Some k' \<Longrightarrow> same_outside k k' \<and> heap k' = heap k \<and> pending_free k' = pending_free k"
  "free_tcb p k = Some k' \<Longrightarrow> same_outside k k' \<and> heap k' = (heap k)(p := None) \<and> pending_free k' = pending_free k"
  by (auto simp: free_block_def free_tcb_def same_outside_def split: bind_splits)

lemma w32_reclaim_loop:
  assumes "port_pinned P = w32_is_pinned b" and "port_reclaimed P = w32_on_task_reclaimed A b"
  shows "dead_list k p ns \<Longrightarrow> distinct ns \<Longrightarrow> \<forall>d\<in>set ns. d \<noteq> b \<longrightarrow> (\<exists>t. rd k d = Some t \<and> backend t = 0)
    \<Longrightarrow> reclaim_loop P p k = Some k' \<Longrightarrow> same_outside k k'
    \<and> (\<forall>t. rd k b = Some t \<longrightarrow> (\<exists>t'. rd k' b = Some t' \<and> thread_of t' = thread_of t))"
proof (induction ns arbitrary: p k)
  case Nil
  then have "k' = k" by (simp add: reclaim_loop.simps)
  then show ?case by (simp add: same_outside_def)
next
  case (Cons d ns)
  from Cons.prems(1) obtain t where t: "p = d" "rd k d = Some t" "dead_list k (prv t) ns" by auto
  have d0: "d \<noteq> 0" using t(2) rd_nonnull by blast
  show ?case
  proof (cases "d = b")
    case True
    let ?k = "(put d (t\<lparr>prv := pending_free k\<rparr>) k)\<lparr>pending_free := d\<rparr>"
    have r: "rd ?k a = (if a = d then Some (t\<lparr>prv := pending_free k\<rparr>) else rd k a)" for a
      using rd_put [OF d0] by (simp add: rd_def)
    have "port_pinned P d" using True d0 by (simp add: assms(1) w32_is_pinned_def)
    then have run: "reclaim_loop P (prv t) ?k = Some k'"
      using Cons.prems(4) t d0 unfolding t(1) by (subst (asm) reclaim_loop.simps) (simp add: upd_put)
    have dl: "dead_list ?k (prv t) ns" using Cons.prems(2) t(3) r by (auto intro: dead_list_cong)
    have ns: "distinct ns" "\<forall>e\<in>set ns. e \<noteq> b \<longrightarrow> (\<exists>t. rd ?k e = Some t \<and> backend t = 0)"
      using Cons.prems(2,3) by (auto simp: r True [symmetric])
    have "same_outside k ?k" by (simp add: same_outside_def put_def)
    moreover have "thread_of (t\<lparr>prv := v\<rparr>) = thread_of t" for v by (simp add: thread_of_def)
    ultimately show ?thesis
      using Cons.IH [OF dl ns run] r t(2) True by (auto intro: same_outside_trans)
  next
    case False
    have np: "\<not> port_pinned P d" using False by (auto simp: assms(1) w32_is_pinned_def)
    from Cons.prems(3) False t(2) have bk: "backend t = 0" by auto
    have tt: "t\<lparr>backend := 0\<rparr> = t" using bk by (cases t) simp
    have "heap k d = Some t" using t(2) d0 by (simp add: rd_def rdh_def)
    then have pt: "put d (t\<lparr>backend := 0\<rparr>) k = k" by (simp add: tt put_def fun_upd_idem)
    have "port_reclaimed P d k = Some k"
      using t(2) bk pt by (simp add: assms(2) w32_on_task_reclaimed_def upd_put)
    with Cons.prems(4) t d0 np obtain k1 k2 k3 where r: "free_block (closure_block t) k = Some k1"
      "free_block (stack_base t) k1 = Some k2" "free_tcb d k2 = Some k3"
      "reclaim_loop P (prv t) (k3\<lparr>reclaimed := reclaimed k3 + 1\<rparr>) = Some k'"
      unfolding t(1) by (subst (asm) reclaim_loop.simps) (auto split: bind_splits)
    let ?k = "k3\<lparr>reclaimed := reclaimed k3 + 1\<rparr>"
    have h: "heap ?k = (heap k)(d := None)" "same_outside k ?k"
      using freed_words(1) [OF r(1)] freed_words(1) [OF r(2)] freed_words(2) [OF r(3)] by (simp_all add: same_outside_def)
    have e: "rd ?k a = (if a = d then None else rd k a)" for a by (simp add: rd_def rdh_def h(1))
    have dl: "dead_list ?k (prv t) ns" using Cons.prems(2) t(3) e by (auto intro: dead_list_cong)
    have ns: "distinct ns" "\<forall>x\<in>set ns. x \<noteq> b \<longrightarrow> (\<exists>t. rd ?k x = Some t \<and> backend t = 0)"
      using Cons.prems(2,3) by (auto simp: e)
    show ?thesis using Cons.IH [OF dl ns r(4)] h(2) False by (auto simp: e intro: same_outside_trans)
  qed
qed

text \<open>A dead task loses its handle.\<close>

lemma dead_backend_inv:
  assumes inv: "sys_inv k T ns" and d: "d \<in> set ns" and t: "rd k d = Some t"
  shows "sys_inv (put d (t\<lparr>backend := v\<rparr>) k) T ns"
proof -
  let ?k = "put d (t\<lparr>backend := v\<rparr>) k"
  have d0: "d \<noteq> 0" using t rd_nonnull by blast
  note i = sys_invD [OF inv]
  note r = rd_put [OF d0, of "t\<lparr>backend := v\<rparr>" k]
  have off: "d \<notin> set (addrs T)" using i(4) d by (auto simp: dead_ok_def)
  have sh: "same_shape (heap k) (heap ?k)"
    unfolding same_shape_def using r t by (auto simp: rd_def shape_def)
  have "tree_ok ?k T" by (rule tree_ok_shape [OF i(2) sh]) (simp_all add: put_def)
  moreover have "cur_ok ?k" using i(8) t r by (auto simp: cur_ok_def put_def)
  moreover have "one_running ?k" using i(9) t unfolding one_running_def r by (auto simp: put_def)
  ultimately have "kernel_ok ?k T" by (simp add: kernel_ok_def)
  moreover have "mem_ok ?k"
  proof (rule mem_ok_owners [OF i(3)])
    show "same_owners (heap k) (heap ?k)"
      unfolding heap_put by (rule same_owners_upd [OF t [unfolded rd_def]]) (simp add: blocks_of_def)
  qed (simp_all add: put_def)
  moreover have "dead_ok ?k T ns"
  proof -
    have "dead_list k p ms \<Longrightarrow> dead_list ?k p ms" for p ms
      using t by (induction ms arbitrary: p) (auto simp: r)
    then show ?thesis using i(4) by (simp add: dead_ok_def put_def)
  qed
  moreover have "cur_in ?k T" using i(5) by (simp add: cur_in_def put_def)
  moreover have "locks_ok ?k T" using i(6) off unfolding locks_ok_def r by auto
  moreover have "count_ok ?k T"
  proof -
    have "{a \<in> set (addrs T). leaf_at ?k a} = {a \<in> set (addrs T). leaf_at k a}"
      using off by (auto simp: leaf_at_def r)
    then show ?thesis using i(7) by (simp add: count_ok_def put_def)
  qed
  ultimately show ?thesis by (simp add: sys_inv_def)
qed

section \<open>One task at a time\<close>

text \<open>Every task of the tree has a thread of its own, suspended once, but for the task that holds the
  baton, whose thread runs; a dead task keeps its handle only while it holds the baton.\<close>

definition tasks_of :: "ntree \<Rightarrow> ptr list \<Rightarrow> ptr set" where
  "tasks_of T ns = {a. LeafN a \<in> set (subs T)} \<union> set ns"

definition one_thread :: "win_api \<Rightarrow> ptr \<Rightarrow> ntree \<Rightarrow> ptr list \<Rightarrow> kernel \<Rightarrow> bool" where
  "one_thread A b T ns k =
     ((\<forall>a. LeafN a \<in> set (subs T) \<longrightarrow> (\<exists>t. rd k a = Some t \<and> st t \<noteq> Dead \<and> backend t \<noteq> 0 \<and> alive A (words k) (backend t)
         \<and> suspend_count A (words k) (backend t) = (if a = b then 0 else 1))) \<and>
      (\<forall>a\<in>tasks_of T ns. \<forall>c\<in>tasks_of T ns. \<forall>t u. rd k a = Some t \<longrightarrow> rd k c = Some u \<longrightarrow> backend t \<noteq> 0
         \<longrightarrow> backend u = backend t \<longrightarrow> c = a) \<and>
      (b = 0 \<or> LeafN b \<in> set (subs T) \<or> b \<in> set ns) \<and>
      (\<forall>d\<in>set ns. d \<noteq> b \<longrightarrow> (\<exists>t. rd k d = Some t \<and> backend t = 0)))"

definition win_ok :: "win_api \<Rightarrow> ntree \<Rightarrow> ptr list \<Rightarrow> win \<Rightarrow> bool" where
  "win_ok A T ns s = (sys_inv (win_kernel s) T ns \<and> one_thread A (baton s) T ns (win_kernel s))"

lemma one_threadD:
  assumes "one_thread A b T ns k"
  shows "LeafN a \<in> set (subs T) \<Longrightarrow> \<exists>t. rd k a = Some t \<and> st t \<noteq> Dead \<and> backend t \<noteq> 0 \<and> alive A (words k) (backend t)
         \<and> suspend_count A (words k) (backend t) = (if a = b then 0 else 1)"
    and "a \<in> tasks_of T ns \<Longrightarrow> c \<in> tasks_of T ns \<Longrightarrow> rd k a = Some t \<Longrightarrow> rd k c = Some u \<Longrightarrow> backend t \<noteq> 0 \<Longrightarrow> backend u = backend t \<Longrightarrow> c = a"
    and "b = 0 \<or> LeafN b \<in> set (subs T) \<or> b \<in> set ns" and "d \<in> set ns \<Longrightarrow> d \<noteq> b \<Longrightarrow> \<exists>t. rd k d = Some t \<and> backend t = 0"
proof -
  note o = assms [unfolded one_thread_def]
  show "LeafN a \<in> set (subs T) \<Longrightarrow> \<exists>t. rd k a = Some t \<and> st t \<noteq> Dead \<and> backend t \<noteq> 0 \<and> alive A (words k) (backend t)
         \<and> suspend_count A (words k) (backend t) = (if a = b then 0 else 1)" by (rule o [THEN conjunct1, rule_format])
  show "a \<in> tasks_of T ns \<Longrightarrow> c \<in> tasks_of T ns \<Longrightarrow> rd k a = Some t \<Longrightarrow> rd k c = Some u \<Longrightarrow> backend t \<noteq> 0 \<Longrightarrow> backend u = backend t \<Longrightarrow> c = a"
    by (rule o [THEN conjunct2, THEN conjunct1, rule_format])
  show "b = 0 \<or> LeafN b \<in> set (subs T) \<or> b \<in> set ns" by (rule o [THEN conjunct2, THEN conjunct2, THEN conjunct1])
  show "d \<in> set ns \<Longrightarrow> d \<noteq> b \<Longrightarrow> \<exists>t. rd k d = Some t \<and> backend t = 0"
    by (rule o [THEN conjunct2, THEN conjunct2, THEN conjunct2, rule_format])
qed

lemma one_thread_same:
  assumes o: "one_thread A b T ns k" and s: "same_threads k k'"
  shows "one_thread A b T ns k'"
proof -
  have w: "words k' = words k" using s by (simp add: same_threads_def)
  have m: "map_option thread_of (rd k' a) = map_option thread_of (rd k a)" for a using s by (simp add: same_threads_def)
  have f: "\<exists>t'. rd k' a = Some t' \<and> backend t' = backend t \<and> (st t' = Dead \<longleftrightarrow> st t = Dead)" if "rd k a = Some t" for a t
    using m [of a] that by (cases "rd k' a") (auto simp: thread_of_def)
  have g: "\<exists>t. rd k a = Some t \<and> backend t = backend t'" if "rd k' a = Some t'" for a t'
    using m [of a] that by (cases "rd k a") (auto simp: thread_of_def)
  show ?thesis
    unfolding one_thread_def w
  proof (intro conjI allI impI ballI)
    fix a assume "LeafN a \<in> set (subs T)"
    from one_threadD(1) [OF o this] obtain t where t: "rd k a = Some t" "st t \<noteq> Dead" "backend t \<noteq> 0" "alive A (words k) (backend t)"
      "suspend_count A (words k) (backend t) = (if a = b then 0 else 1)" by blast
    from f [OF t(1)] t(2-5) show "\<exists>t. rd k' a = Some t \<and> st t \<noteq> Dead \<and> backend t \<noteq> 0 \<and> alive A (words k) (backend t)
         \<and> suspend_count A (words k) (backend t) = (if a = b then 0 else 1)" by auto
  next
    fix a c t u assume m: "a \<in> tasks_of T ns" "c \<in> tasks_of T ns"
      and h: "rd k' a = Some t" "rd k' c = Some u" "backend t \<noteq> 0" "backend u = backend t"
    from g [OF h(1)] g [OF h(2)] obtain t0 u0 where "rd k a = Some t0" "backend t0 = backend t" "rd k c = Some u0" "backend u0 = backend u"
      by blast
    then show "c = a" using one_threadD(2) [OF o m, of t0 u0] h(3,4) by simp
  next
    show "b = 0 \<or> LeafN b \<in> set (subs T) \<or> b \<in> set ns" by (rule one_threadD(3) [OF o])
  next
    fix d assume "d \<in> set ns" "d \<noteq> b"
    from one_threadD(4) [OF o this] obtain t where t: "rd k d = Some t" "backend t = 0" by blast
    from f [OF t(1)] t(2) show "\<exists>t. rd k' d = Some t \<and> backend t = 0" by auto
  qed
qed

lemma reclaim_threads:
  assumes inv: "sys_inv k T ns" and o: "one_thread A b T ns k"
    and P: "port_contract P" "port_pinned P = w32_is_pinned b" "port_reclaimed P = w32_on_task_reclaimed A b"
  shows "\<exists>k' ns'. reclaim_finished_tasks P k = Some k' \<and> sys_inv k' T ns' \<and> one_thread A b T ns' k' \<and> set ns' \<subseteq> {b}
    \<and> words k' = words k \<and> config k' = config k \<and> ticks k' = ticks k \<and> current_tcb k' = current_tcb k"
proof -
  let ?ns = "rev (filter (port_pinned P) ns)" and ?k = "k\<lparr>pending_free := null_ptr\<rparr>"
  from port_contract.reclaim_step_exact [OF P(1) inv] obtain k' where
    r: "reclaim_finished_tasks P k = Some k'" "sys_inv k' T ?ns" "\<forall>a. a \<notin> set ns \<longrightarrow> rd k' a = rd k a"
      "\<forall>a\<in>set ns. \<not> port_pinned P a \<longrightarrow> rd k' a = None" "current_tcb k' = current_tcb k" by blast
  note i = sys_invD [OF inv]
  have e: "rd ?k a = rd k a" for a by (simp add: rd_def)
  have d: "dead_list ?k (pending_free k) ns" "distinct ns" "\<forall>d\<in>set ns. d \<noteq> b \<longrightarrow> (\<exists>t. rd ?k d = Some t \<and> backend t = 0)"
    using i(4) one_threadD(4) [OF o] e by (auto simp: dead_ok_def intro: dead_list_cong)
  have run: "reclaim_loop P (pending_free k) ?k = Some k'" using r(1) by (simp add: reclaim_finished_tasks_def)
  from w32_reclaim_loop [OF P(2,3) d run] have so: "same_outside ?k k'"
    and tb: "\<forall>t. rd k b = Some t \<longrightarrow> (\<exists>t'. rd k' b = Some t' \<and> thread_of t' = thread_of t)" using e by auto
  have w: "words k' = words k" "config k' = config k" "ticks k' = ticks k" using so by (simp_all add: same_outside_def)
  have pin: "port_pinned P a \<longleftrightarrow> b \<noteq> 0 \<and> a = b" for a by (auto simp: P(2) w32_is_pinned_def)
  have g: "\<exists>t. rd k a = Some t \<and> thread_of t = thread_of t'" if "rd k' a = Some t'" for a t'
  proof (cases "a \<in> set ns")
    case False
    then show ?thesis using r(3) that by auto
  next
    case True
    with r(4) that pin have "a = b" by force
    moreover from True i(4) dead_list_rd obtain t where "rd k a = Some t" unfolding dead_ok_def by blast
    ultimately show ?thesis using tb that by auto
  qed
  have "one_thread A b T ?ns k'"
    unfolding one_thread_def w
  proof (intro conjI allI impI ballI)
    fix a assume a: "LeafN a \<in> set (subs T)"
    have "a \<in> set (addrs T)" using subs_addr [OF a] by simp
    then have "a \<notin> set ns" using i(4) by (auto simp: dead_ok_def)
    then show "\<exists>t. rd k' a = Some t \<and> st t \<noteq> Dead \<and> backend t \<noteq> 0 \<and> alive A (words k) (backend t)
         \<and> suspend_count A (words k) (backend t) = (if a = b then 0 else 1)" using r(3) one_threadD(1) [OF o a] by simp
  next
    fix a c t u assume "a \<in> tasks_of T ?ns" "c \<in> tasks_of T ?ns"
      and h: "rd k' a = Some t" "rd k' c = Some u" "backend t \<noteq> 0" "backend u = backend t"
    then have m: "a \<in> tasks_of T ns" "c \<in> tasks_of T ns" by (auto simp: tasks_of_def)
    from g [OF h(1)] g [OF h(2)] obtain t0 u0 where "rd k a = Some t0" "backend t0 = backend t" "rd k c = Some u0" "backend u0 = backend u"
      by (auto simp: thread_of_def)
    then show "c = a" using one_threadD(2) [OF o m, of t0 u0] h(3,4) by simp
  next
    show "b = 0 \<or> LeafN b \<in> set (subs T) \<or> b \<in> set ?ns" using one_threadD(3) [OF o] by (auto simp: pin)
  next
    fix d assume "d \<in> set ?ns" "d \<noteq> b"
    then show "\<exists>t. rd k' d = Some t \<and> backend t = 0" by (simp add: pin)
  qed
  then show ?thesis using r(1,2,5) w by (intro exI [of _ k'] exI [of _ ?ns]) (auto simp: pin)
qed

lemma win_lawsD:
  assumes "win_laws A"
  shows "same_elsewhere A h w (suspend_thread A h w)" "same_elsewhere A h w (resume_thread A h w)"
    "same_elsewhere A h w (close_handle A h w)"
    "alive A w h \<Longrightarrow> alive A (suspend_thread A h w) h" "alive A w h \<Longrightarrow> alive A (resume_thread A h w) h"
    "alive A w h \<Longrightarrow> suspend_count A w h < 127 \<Longrightarrow> suspend_count A (suspend_thread A h w) h = suspend_count A w h + 1"
    "alive A w h \<Longrightarrow> suspend_count A (resume_thread A h w) h = suspend_count A w h - 1"
    "\<not> handle_open A (close_handle A h w) h" "alive A w h \<Longrightarrow> handle_open A w h"
    "create_thread A w = (g, w') \<Longrightarrow> same_elsewhere A g w w'"
    "create_thread A w = (g, w') \<Longrightarrow> g \<noteq> 0 \<Longrightarrow> \<not> handle_open A w g \<and> alive A w' g \<and> suspend_count A w' g = 1"
  using assms by (simp_all add: win_laws_def)

lemma same_elsewhereD:
  "same_elsewhere A h w w' \<Longrightarrow> g \<noteq> h \<Longrightarrow> alive A w' g = alive A w g \<and> suspend_count A w' g = suspend_count A w g"
  by (simp add: same_elsewhere_def)

text \<open>A call that concerns the thread of one task leaves the others as they are.\<close>

lemma one_thread_call:
  assumes o: "one_thread A b T ns k" and t: "rd k p = Some t" "backend t \<noteq> 0" and pm: "p \<in> tasks_of T ns"
    and w: "same_elsewhere A (backend t) (words k) w"
    and b': "b' = 0 \<or> LeafN b' \<in> set (subs T)" and others: "\<And>a. LeafN a \<in> set (subs T) \<Longrightarrow> a \<noteq> p \<Longrightarrow> a = b \<longleftrightarrow> a = b'"
    and p: "LeafN p \<in> set (subs T) \<Longrightarrow> alive A w (backend t) \<and> suspend_count A w (backend t) = (if p = b' then 0 else 1)"
    and dead: "\<And>d. d \<in> set ns \<Longrightarrow> d \<noteq> b' \<Longrightarrow> d \<noteq> b"
  shows "one_thread A b' T ns (k\<lparr>words := w\<rparr>)"
proof -
  have r: "rd (k\<lparr>words := w\<rparr>) a = rd k a" "words (k\<lparr>words := w\<rparr>) = w" for a by (simp_all add: rd_def)
  show ?thesis
    unfolding one_thread_def r
  proof (intro conjI allI impI ballI)
    fix a assume a: "LeafN a \<in> set (subs T)"
    from one_threadD(1) [OF o a] obtain u where u: "rd k a = Some u" "st u \<noteq> Dead" "backend u \<noteq> 0" "alive A (words k) (backend u)"
      "suspend_count A (words k) (backend u) = (if a = b then 0 else 1)" by blast
    have "alive A w (backend u) \<and> suspend_count A w (backend u) = (if a = b' then 0 else 1)"
    proof (cases "a = p")
      case True
      then show ?thesis using p a u(1) t(1) by auto
    next
      case False
      then have "backend u \<noteq> backend t" using one_threadD(2) [OF o pm _ t(1) u(1) t(2)] a by (auto simp: tasks_of_def)
      from same_elsewhereD [OF w this] show ?thesis using u(4,5) others [OF a False] by simp
    qed
    then show "\<exists>t. rd k a = Some t \<and> st t \<noteq> Dead \<and> backend t \<noteq> 0 \<and> alive A w (backend t)
        \<and> suspend_count A w (backend t) = (if a = b' then 0 else 1)" using u(1-3) by auto
  next
    fix a c t u assume "a \<in> tasks_of T ns" "c \<in> tasks_of T ns" "rd k a = Some t" "rd k c = Some u" "backend t \<noteq> 0" "backend u = backend t"
    then show "c = a" by (rule one_threadD(2) [OF o])
  next
    show "b' = 0 \<or> LeafN b' \<in> set (subs T) \<or> b' \<in> set ns" using b' by blast
  next
    fix d assume "d \<in> set ns" "d \<noteq> b'"
    then show "\<exists>t. rd k d = Some t \<and> backend t = 0" using one_threadD(4) [OF o] dead by blast
  qed
qed

text \<open>Taking the CPU away.\<close>

lemma w32_release:
  assumes A: "win_laws A" and inv: "sys_inv k T ns" and o: "one_thread A b T ns k" and b0: "b \<noteq> 0"
  shows "\<exists>k'. suspend_and_maybe_close A b k = Some k' \<and> sys_inv k' T ns \<and> one_thread A 0 T ns k' \<and> config k' = config k
    \<and> ticks k' = ticks k \<and> current_tcb k' = current_tcb k \<and> (\<forall>a. a \<notin> set ns \<longrightarrow> rd k' a = rd k a)"
proof (cases "LeafN b \<in> set (subs T)")
  case True
  from one_threadD(1) [OF o True] obtain t where t: "rd k b = Some t" "st t \<noteq> Dead" "backend t \<noteq> 0" "alive A (words k) (backend t)"
    "suspend_count A (words k) (backend t) = 0" by auto
  let ?k = "k\<lparr>words := suspend_thread A (backend t) (words k)\<rparr>"
  have bn: "b \<notin> set ns" using sys_invD(4) [OF inv] subs_addr [OF True] by (auto simp: dead_ok_def)
  have "one_thread A 0 T ns ?k"
  proof (rule one_thread_call [OF o t(1,3) _ win_lawsD(1) [OF A]])
    show "b \<in> tasks_of T ns" using True by (simp add: tasks_of_def)
    show "a = b \<longleftrightarrow> a = 0" if "LeafN a \<in> set (subs T)" "a \<noteq> b" for a
      using one_threadD(1) [OF o that(1)] that(2) rd_nonnull by blast
    show "alive A (suspend_thread A (backend t) (words k)) (backend t)
      \<and> suspend_count A (suspend_thread A (backend t) (words k)) (backend t) = (if b = 0 then 0 else 1)"
      using win_lawsD(4,6) [OF A t(4)] t(5) b0 by simp
  qed (use bn in auto)
  moreover have "sys_inv ?k T ns" by (rule quiet_step [OF inv]) simp_all
  moreover have "suspend_and_maybe_close A b k = Some ?k" using t(1-3) by (simp add: suspend_and_maybe_close_def rd_def)
  ultimately show ?thesis by (intro exI [of _ ?k]) (simp add: rd_def)
next
  case False
  then have bn: "b \<in> set ns" using one_threadD(3) [OF o] b0 by blast
  with sys_invD(4) [OF inv] dead_list_rd obtain t where t: "rd k b = Some t" "st t = Dead" unfolding dead_ok_def by blast
  have n0: "a \<noteq> 0" if "LeafN a \<in> set (subs T)" for a using one_threadD(1) [OF o that] rd_nonnull by blast
  have nb: "a \<noteq> b" if "LeafN a \<in> set (subs T)" for a using that False by blast
  show ?thesis
  proof (cases "backend t = 0")
    case True
    have "one_thread A 0 T ns k"
      unfolding one_thread_def
    proof (intro conjI allI impI ballI)
      fix a assume a: "LeafN a \<in> set (subs T)"
      show "\<exists>t. rd k a = Some t \<and> st t \<noteq> Dead \<and> backend t \<noteq> 0 \<and> alive A (words k) (backend t)
          \<and> suspend_count A (words k) (backend t) = (if a = 0 then 0 else 1)"
        using one_threadD(1) [OF o a] n0 [OF a] nb [OF a] by simp
    next
      fix a c t u assume "a \<in> tasks_of T ns" "c \<in> tasks_of T ns" "rd k a = Some t" "rd k c = Some u" "backend t \<noteq> 0" "backend u = backend t"
      then show "c = a" by (rule one_threadD(2) [OF o])
    next
      fix d assume "d \<in> set ns"
      then show "\<exists>t. rd k d = Some t \<and> backend t = 0" using one_threadD(4) [OF o, of d] t(1) True by (cases "d = b") auto
    qed simp
    moreover have "suspend_and_maybe_close A b k = Some k" using t True by (simp add: suspend_and_maybe_close_def)
    ultimately show ?thesis using inv by (intro exI [of _ k]) simp
  next
    case nz: False
    let ?h = "backend t"
    let ?w = "close_handle A ?h (suspend_thread A ?h (words k))"
    let ?k = "put b (t\<lparr>backend := 0\<rparr>) (k\<lparr>words := ?w\<rparr>)"
    have e: "?k = (put b (t\<lparr>backend := 0\<rparr>) k)\<lparr>words := ?w\<rparr>" by (simp add: put_def)
    have r: "rd ?k a = (if a = b then Some (t\<lparr>backend := 0\<rparr>) else rd k a)" for a
      using rd_put [OF b0, of "t\<lparr>backend := 0\<rparr>" "k\<lparr>words := ?w\<rparr>" a] by (simp add: rd_def)
    have wk: "words ?k = ?w" by (simp add: put_def)
    have sw: "same_elsewhere A ?h (words k) ?w"
      using win_lawsD(1,3) [OF A] by (simp add: same_elsewhere_def)
    have "sys_inv ?k T ns" unfolding e by (rule quiet_step [OF dead_backend_inv [OF inv bn t(1)]]) simp_all
    moreover have "one_thread A 0 T ns ?k"
      unfolding one_thread_def wk r
    proof (intro conjI allI impI ballI)
      fix a assume a: "LeafN a \<in> set (subs T)"
      from one_threadD(1) [OF o a] obtain u where u: "rd k a = Some u" "st u \<noteq> Dead" "backend u \<noteq> 0" "alive A (words k) (backend u)"
        "suspend_count A (words k) (backend u) = 1" using nb [OF a] by auto
      have "backend u \<noteq> ?h" using one_threadD(2) [OF o _ _ t(1) u(1) nz] nb [OF a] bn a by (auto simp: tasks_of_def)
      from same_elsewhereD [OF sw this] show "\<exists>u. (if a = b then Some (t\<lparr>backend := 0\<rparr>) else rd k a) = Some u \<and> st u \<noteq> Dead
          \<and> backend u \<noteq> 0 \<and> alive A ?w (backend u) \<and> suspend_count A ?w (backend u) = (if a = 0 then 0 else 1)"
        using u nb [OF a] n0 [OF a] by simp
    next
      fix a c x y assume m: "a \<in> tasks_of T ns" "c \<in> tasks_of T ns" and h: "(if a = b then Some (t\<lparr>backend := 0\<rparr>) else rd k a) = Some x"
        "(if c = b then Some (t\<lparr>backend := 0\<rparr>) else rd k c) = Some y" "backend x \<noteq> 0" "backend y = backend x"
      have ab: "a \<noteq> b"
      proof
        assume "a = b"
        then have "x = t\<lparr>backend := 0\<rparr>" using h(1) by simp
        then show False using h(3) by simp
      qed
      have "c \<noteq> b"
      proof
        assume "c = b"
        then have "y = t\<lparr>backend := 0\<rparr>" using h(2) by simp
        then show False using h(3,4) by simp
      qed
      with ab h(1,2) have "rd k a = Some x" "rd k c = Some y" by simp_all
      then show "c = a" using h(3,4) by (rule one_threadD(2) [OF o m])
    next
      fix d assume d: "d \<in> set ns"
      show "\<exists>u. (if d = b then Some (t\<lparr>backend := 0\<rparr>) else rd k d) = Some u \<and> backend u = 0"
        using one_threadD(4) [OF o d] by (cases "d = b") simp_all
    qed simp
    moreover have "suspend_and_maybe_close A b k = Some ?k"
      using t nz by (simp add: suspend_and_maybe_close_def rd_def upd_put Let_def)
    ultimately show ?thesis using bn by (intro exI [of _ ?k]) (auto simp: r, simp_all add: put_def)
  qed
qed

text \<open>Giving it to the next task.\<close>

lemma w32_give:
  assumes A: "win_laws A" and inv: "sys_inv k T ns" and o: "one_thread A b T ns k" and b: "b = 0 \<or> b = n"
    and n: "LeafN n \<in> set (subs T)" and t: "rd k n = Some t"
  shows "sys_inv (k\<lparr>words := resume_thread A (backend t) (words k)\<rparr>) T ns"
    and "one_thread A n T ns (k\<lparr>words := resume_thread A (backend t) (words k)\<rparr>)"
proof -
  show "sys_inv (k\<lparr>words := resume_thread A (backend t) (words k)\<rparr>) T ns" by (rule quiet_step [OF inv]) simp_all
  from one_threadD(1) [OF o n] t have u: "backend t \<noteq> 0" "alive A (words k) (backend t)"
    "suspend_count A (words k) (backend t) = (if n = b then 0 else 1)" by auto
  have n0: "a \<noteq> 0" if "LeafN a \<in> set (subs T)" for a using one_threadD(1) [OF o that] rd_nonnull by blast
  have d0: "d \<noteq> 0" if "d \<in> set ns" for d
    using sys_invD(4) [OF inv] dead_list_rd that rd_nonnull unfolding dead_ok_def by blast
  have nn: "n \<notin> set ns" using sys_invD(4) [OF inv] subs_addr [OF n] by (auto simp: dead_ok_def)
  show "one_thread A n T ns (k\<lparr>words := resume_thread A (backend t) (words k)\<rparr>)"
  proof (rule one_thread_call [OF o t u(1) _ win_lawsD(2) [OF A]])
    show "n \<in> tasks_of T ns" using n by (simp add: tasks_of_def)
    show "a = b \<longleftrightarrow> a = n" if "LeafN a \<in> set (subs T)" "a \<noteq> n" for a using b that n0 by auto
    show "alive A (resume_thread A (backend t) (words k)) (backend t)
      \<and> suspend_count A (resume_thread A (backend t) (words k)) (backend t) = (if n = n then 0 else 1)"
      using win_lawsD(5,7) [OF A u(2)] u(3) by simp
    show "d \<noteq> b" if "d \<in> set ns" "d \<noteq> n" for d using b that d0 by auto
  qed (use n in simp)
qed

section \<open>The port keeps its contract\<close>

lemma upd_outside:
  assumes "rd k p = Some t"
  shows "upd f p (k\<lparr>words := w\<rparr>) = Some (put p (f t) (k\<lparr>words := w\<rparr>))"
  using assms by (simp add: upd_put rd_def)

lemma outside_unchanged:
  assumes "rd k p = Some t"
  shows "put p t (k\<lparr>words := w\<rparr>) = k\<lparr>words := w\<rparr>"
proof -
  have "heap k p = Some t" using assms by (auto simp: rd_def rdh_def split: if_splits)
  then show ?thesis by (simp add: put_def fun_upd_idem)
qed

lemma w32_create_ok:
  assumes ok: "mem_ok k" and t: "rd k p = Some t" and st: "stack_base t = 0"
  shows "\<exists>r k'. w32_create A p sz k = Some (r, k') \<and> mem_ok k' \<and> created p k k' \<and> (\<forall>e. r = Inl e \<longrightarrow> no_stack p k k')"
proof -
  obtain h w where c: "create_thread A (words k) = (h, w)" by (cases "create_thread A (words k)")
  show ?thesis
  proof (cases "h = 0")
    case True
    then have "w32_create A p sz k = Some (Inl (Backend (PlatformError ''CreateThread failed for a new task'')), put p t (k\<lparr>words := w\<rparr>))"
      using c outside_unchanged [OF t] by (simp add: w32_create_def)
    from outside_contract [OF ok t st this st refl] show ?thesis by blast
  next
    case False
    let ?t = "t\<lparr>backend := h, stack_base := null_ptr, stack_size := sz\<rparr>"
    have "w32_create A p sz k = Some (Inr (), put p ?t (k\<lparr>words := w\<rparr>))"
      using c False upd_outside [OF t] by (simp add: w32_create_def Let_def)
    from outside_contract [OF ok t st this] show ?thesis by (fastforce simp: stackless_def)
  qed
qed

lemma w32_adopt_ok:
  assumes ok: "mem_ok k" and t: "rd k p = Some t" and st: "stack_base t = 0"
  shows "\<exists>r k'. w32_adopt A p k = Some (r, k') \<and> mem_ok k' \<and> created p k k'"
proof -
  obtain h w where c: "open_thread A (words k) = (h, w)" by (cases "open_thread A (words k)")
  show ?thesis
  proof (cases "h = 0")
    case True
    then have "w32_adopt A p k = Some (Inl (PlatformError ''OpenThread on the calling thread failed''), put p t (k\<lparr>words := w\<rparr>))"
      using c outside_unchanged [OF t] by (simp add: w32_adopt_def)
    from outside_contract [OF ok t st this st refl] show ?thesis by blast
  next
    case False
    let ?t = "t\<lparr>backend := h, stack_base := null_ptr, stack_size := 0\<rparr>"
    have "w32_adopt A p k = Some (Inr (), put p ?t (k\<lparr>words := w\<rparr>))"
      using c False upd_outside [OF t] by (simp add: w32_adopt_def Let_def)
    from outside_contract [OF ok t st this] show ?thesis by (fastforce simp: stackless_def)
  qed
qed

interpretation w32: port_contract "win32_port A res b default_arena have_objects th"
proof
  let ?P = "win32_port A res b default_arena have_objects th"
  show "\<exists>w t'. port_reclaimed ?P p k = Some ((put p t' k)\<lparr>words := w\<rparr>) \<and> blocks_of t' = blocks_of t"
    if t: "rd k p = Some t" for p k t
  proof -
    let ?t = "t\<lparr>backend := null_ptr\<rparr>"
    have "words (put p ?t k) = words k" by (simp add: put_def)
    then have e: "put p ?t k = (put p ?t k)\<lparr>words := words k\<rparr>" by simp
    have "\<exists>w. w32_on_task_reclaimed A b p k = Some ((put p ?t k)\<lparr>words := w\<rparr>)"
      unfolding w32_on_task_reclaimed_def using t e by (simp add: upd_put Let_def) blast
    moreover have "blocks_of ?t = blocks_of t" by (simp add: blocks_of_def)
    ultimately show ?thesis by (auto simp: win32_port_def)
  qed
  show "\<exists>e k'. port_create ?P p sz k = Some (e, k') \<and> mem_ok k' \<and> created p k k' \<and> (\<forall>x. e = Inl x \<longrightarrow> no_stack p k k')"
    if "mem_ok k" "rd k p = Some t" "stack_base t = 0" "roomy k sz" for k p t sz
    using w32_create_ok [OF that(1-3)] by (simp add: win32_port_def)
  show "\<exists>e k'. port_adopt ?P p k = Some (e, k') \<and> mem_ok k' \<and> created p k k'"
    if "mem_ok k" "rd k p = Some t" "stack_base t = 0" for k p t
    using w32_adopt_ok [OF that] by (simp add: win32_port_def)
qed

text \<open>A new task has a thread of its own, which does not run.\<close>

lemma w32_create_thread:
  assumes A: "win_laws A" and t: "rd k p = Some t" and r: "w32_create A p sz k = Some (Inr (), k')"
  shows "\<exists>t'. rd k' p = Some t' \<and> backend t' \<noteq> 0 \<and> \<not> handle_open A (words k) (backend t') \<and> alive A (words k') (backend t')
    \<and> suspend_count A (words k') (backend t') = 1 \<and> same_elsewhere A (backend t') (words k) (words k')"
proof -
  obtain h w where c: "create_thread A (words k) = (h, w)" by (cases "create_thread A (words k)")
  have p0: "p \<noteq> 0" using t rd_nonnull by blast
  have h0: "h \<noteq> 0" using r c by (auto simp: w32_create_def)
  let ?t = "t\<lparr>backend := h, stack_base := null_ptr, stack_size := sz\<rparr>"
  have k': "k' = put p ?t (k\<lparr>words := w\<rparr>)"
    using r c h0 upd_outside [OF t] by (simp add: w32_create_def Let_def)
  have "rd k' p = Some ?t" "words k' = w" using p0 by (simp_all add: k' put_def rd_def)
  then show ?thesis using win_lawsD(10,11) [OF A c] h0 by simp
qed

section \<open>A pass of the tick thread\<close>

lemma w32_measure_run:
  assumes "win_ok A T ns s"
  shows "win_ok A T ns (w32_measure ft t0 s)" "baton (w32_measure ft t0 s) = baton s"
    "ticks (win_kernel (w32_measure ft t0 s)) = ticks (win_kernel s)"
    "config (win_kernel (w32_measure ft t0 s)) = config (win_kernel s)"
    "shutdown_flag (win_kernel (w32_measure ft t0 s)) = shutdown_flag (win_kernel s)"
    "slice_units (w32_measure ft t0 s) = slice_units s"
    "heap (win_kernel (w32_measure ft t0 s)) = heap (win_kernel s)"
proof -
  have k: "\<exists>v. win_kernel (w32_measure ft t0 s) = win_kernel s \<or> win_kernel (w32_measure ft t0 s) = record_period_error v (win_kernel s)"
    by (auto simp: w32_measure_def Let_def)
  show b: "baton (w32_measure ft t0 s) = baton s" "slice_units (w32_measure ft t0 s) = slice_units s"
    by (simp_all add: w32_measure_def Let_def)
  have f: "ticks (record_period_error v k) = ticks k" "config (record_period_error v k) = config k"
    "shutdown_flag (record_period_error v k) = shutdown_flag k" "rd (record_period_error v k) a = rd k a"
    "words (record_period_error v k) = words k" "heap (record_period_error v k) = heap k" for v k a
    by (simp_all add: record_period_error_def Let_def rd_def)
  show "ticks (win_kernel (w32_measure ft t0 s)) = ticks (win_kernel s)"
    "config (win_kernel (w32_measure ft t0 s)) = config (win_kernel s)"
    "shutdown_flag (win_kernel (w32_measure ft t0 s)) = shutdown_flag (win_kernel s)"
    "heap (win_kernel (w32_measure ft t0 s)) = heap (win_kernel s)" using k f by auto
  have i: "sys_inv (win_kernel s) T ns" "one_thread A (baton s) T ns (win_kernel s)" using assms by (simp_all add: win_ok_def)
  have "same_threads (win_kernel s) (record_period_error v (win_kernel s))" for v by (simp add: same_threads_def f)
  then show "win_ok A T ns (w32_measure ft t0 s)"
    unfolding win_ok_def b using k i record_step(3) [OF i(1)] one_thread_same [OF i(2)] by metis
qed

text \<open>The switch: the task it picks, and no other, has a running thread; with nothing to run, none has.\<close>

lemma w32_switch_run:
  assumes A: "win_laws A" and inv: "sys_inv (win_kernel s) T ns" and o: "one_thread A (baton s) T ns (win_kernel s)"
    and n: "nx \<noteq> 0 \<longrightarrow> LeafN nx \<in> set (subs T)"
    and p: "nx = 0 \<longrightarrow> kc_idle (config (win_kernel s)) \<noteq> ExitWhenAllDead"
  shows "\<exists>s'. w32_switch A tr nx s = Some (Continued, s') \<and> sys_inv (win_kernel s') T ns \<and> one_thread A nx T ns (win_kernel s')
    \<and> baton s' = nx \<and> ticks (win_kernel s') = ticks (win_kernel s) \<and> current_tcb (win_kernel s') = current_tcb (win_kernel s)
    \<and> slice_units s' = slice_units s \<and> due_time s' = - slice_units s \<and> deadline s' = tr + slice_units s * 100"
proof -
  let ?k = "win_kernel s" and ?b = "baton s"
  have "\<exists>k'. (if ?b \<noteq> 0 \<and> ?b \<noteq> nx then suspend_and_maybe_close A ?b ?k else Some ?k) = Some k' \<and> sys_inv k' T ns
    \<and> one_thread A (if ?b = nx then nx else 0) T ns k' \<and> ticks k' = ticks ?k \<and> current_tcb k' = current_tcb ?k
    \<and> (\<forall>a. a \<notin> set ns \<longrightarrow> rd k' a = rd ?k a)"
  proof (cases "?b \<noteq> 0 \<and> ?b \<noteq> nx")
    case True
    with w32_release [OF A inv o] show ?thesis by auto
  next
    case False
    then show ?thesis using inv o by (intro exI [of _ ?k]) auto
  qed
  then obtain k' where k': "(if ?b \<noteq> 0 \<and> ?b \<noteq> nx then suspend_and_maybe_close A ?b ?k else Some ?k) = Some k'" "sys_inv k' T ns"
    "one_thread A (if ?b = nx then nx else 0) T ns k'" "ticks k' = ticks ?k" "current_tcb k' = current_tcb ?k"
    "\<forall>a. a \<notin> set ns \<longrightarrow> rd k' a = rd ?k a" by blast
  show ?thesis
  proof (cases "nx = 0")
    case True
    have o0: "one_thread A 0 T ns k'" using k'(3) by (cases "?b = nx") (simp_all add: True)
    have "w32_switch A tr nx s = Some (Continued, rearm_timer tr (s\<lparr>baton := 0, win_kernel := k'\<rparr>))"
      using k'(1) p True by (auto simp: w32_switch_def Let_def)
    then show ?thesis using True k'(2,4,5) o0 by (simp add: rearm_timer_def Let_def)
  next
    case False
    with n have l: "LeafN nx \<in> set (subs T)" by simp
    then have "nx \<notin> set ns" using sys_invD(4) [OF inv] subs_addr [OF l] by (auto simp: dead_ok_def)
    moreover from one_threadD(1) [OF o l] obtain t where t: "rd ?k nx = Some t" by blast
    ultimately have t': "rd k' nx = Some t" using k'(6) by simp
    let ?k' = "k'\<lparr>words := resume_thread A (backend t) (words k')\<rparr>"
    have "(if ?b = nx then nx else 0) = 0 \<or> (if ?b = nx then nx else 0) = nx" by simp
    note g = w32_give [OF A k'(2,3) this l t']
    have "w32_switch A tr nx s = Some (Continued, rearm_timer tr (s\<lparr>baton := nx, win_kernel := ?k'\<rparr>))"
      using k'(1) False t by (auto simp: w32_switch_def Let_def split: if_splits)
    then show ?thesis using False k'(4,5) g by (simp add: rearm_timer_def Let_def)
  qed
qed

lemma w32_pass_run:
  assumes A: "win_laws A" and ok: "win_ok A T ns s" and sd: "\<not> shutdown_flag (win_kernel s)"
    and p: "kc_idle (config (win_kernel s)) \<noteq> ExitWhenAllDead"
  shows "\<exists>s' ns'. tick_thread_pass A from_timer t0 tr t1 s = Some (Continued, s') \<and> win_ok A T ns' s'
    \<and> ticks (win_kernel s') = (if from_timer then ticks (win_kernel s) + 1 else ticks (win_kernel s))
    \<and> (baton s' \<noteq> 0 \<longrightarrow> LeafN (baton s') \<in> set (subs T) \<and> current_tcb (win_kernel s') = baton s')
    \<and> (\<not> from_timer \<longrightarrow> none_runnable (win_kernel s) T \<longrightarrow> baton s' = 0)
    \<and> due_time s' = - slice_units s \<and> deadline s' = tr + slice_units s * 100"
proof -
  let ?s0 = "w32_measure from_timer t0 s"
  let ?k0 = "win_kernel ?s0" and ?b = "baton s"
  note m = w32_measure_run [OF ok, of from_timer t0]
  have i0: "sys_inv ?k0 T ns" "one_thread A ?b T ns ?k0" using m(1,2) by (simp_all add: win_ok_def)
  have "\<exists>k. (if from_timer then on_tick ?k0 else Some ?k0) = Some k \<and> sys_inv k T ns \<and> same_threads ?k0 k \<and> config k = config ?k0
    \<and> ticks k = (if from_timer then ticks ?k0 + 1 else ticks ?k0) \<and> (\<not> from_timer \<longrightarrow> k = ?k0)"
  proof (cases from_timer)
    case True
    from tick_run [OF i0(1)] obtain k where "on_tick ?k0 = Some k" "sys_inv k T ns" "kept T ?k0 k" "ticks k = ticks ?k0 + 1" by blast
    then show ?thesis using True tick_threads [OF i0(1)] by (simp add: kept_def)
  next
    case False
    then show ?thesis using i0(1) by (simp add: same_threads_def)
  qed
  then obtain k1 where k1: "(if from_timer then on_tick ?k0 else Some ?k0) = Some k1" "sys_inv k1 T ns" "same_threads ?k0 k1"
    "config k1 = config ?k0" "ticks k1 = (if from_timer then ticks ?k0 + 1 else ticks ?k0)" "\<not> from_timer \<longrightarrow> k1 = ?k0" by blast
  note o1 = one_thread_same [OF i0(2) k1(3)]
  let ?P = "win32_port A (high_res ?s0) (baton ?s0) 0 True (tick_thread ?s0)"
  have P: "port_contract ?P" "port_pinned ?P = w32_is_pinned ?b" "port_reclaimed ?P = w32_on_task_reclaimed A ?b"
    using w32.port_contract_axioms by (simp_all add: win32_port_def m(2))
  from reclaim_threads [OF k1(2) o1 P] obtain k2 ns2 where k2: "reclaim_finished_tasks ?P k1 = Some k2" "sys_inv k2 T ns2"
    "one_thread A ?b T ns2 k2" "config k2 = config k1" "ticks k2 = ticks k1" by blast
  have same: "rd k2 a = rd k1 a" if "a \<in> set (addrs T)" for a
    using port_contract.reclaim_step_exact [OF P(1) k1(2)] k2(1) sys_invD(4) [OF k1(2)] that by (auto simp: dead_ok_def)
  from switch_run [OF k2(2)] obtain nx k3 where k3: "schedule_next k2 = Some (nx, k3)" "sys_inv k3 T ns2" "kept T k2 k3"
    "ticks k3 = ticks k2" "nx \<noteq> 0 \<longrightarrow> LeafN nx \<in> set (subs T) \<and> current_tcb k3 = nx" by blast
  note o3 = one_thread_same [OF k2(3) switch_threads [OF k2(2) k3(1)]]
  have cfg: "config k3 = config (win_kernel s)" using k3(3) k2(4) k1(4) m(4) by (simp add: kept_def)
  have idle: "nx = 0" if ft: "\<not> from_timer" and no: "none_runnable (win_kernel s) T"
  proof -
    have "h_runnable (heap k2) a = h_runnable (heap (win_kernel s)) a" if "LeafN a \<in> set (subs T)" for a
    proof -
      have "a \<in> set (addrs T)" using subs_addr [OF that] by simp
      then have "rdh (heap k2) a = rdh (heap (win_kernel s)) a" using same k1(6) ft m(7) by (simp add: rd_def)
      then show ?thesis by (simp add: h_runnable_def)
    qed
    then have "none_runnable k2 T" using no by (simp add: none_runnable_def)
    from idle_schedule [OF sys_invD(1) [OF k2(2)] this] k3(1) show ?thesis by auto
  qed
  let ?s3 = "?s0\<lparr>win_kernel := k3\<rparr>"
  have "nx \<noteq> 0 \<longrightarrow> LeafN nx \<in> set (subs T)" "nx = 0 \<longrightarrow> kc_idle (config (win_kernel ?s3)) \<noteq> ExitWhenAllDead"
    "sys_inv (win_kernel ?s3) T ns2" "one_thread A (baton ?s3) T ns2 (win_kernel ?s3)"
    using k3(2,5) p cfg o3 m(2) by simp_all
  from w32_switch_run [OF A this(3,4,1,2), of tr] obtain s' where s': "w32_switch A tr nx ?s3 = Some (Continued, s')"
    "sys_inv (win_kernel s') T ns2" "one_thread A nx T ns2 (win_kernel s')" "baton s' = nx" "ticks (win_kernel s') = ticks k3"
    "current_tcb (win_kernel s') = current_tcb k3" "due_time s' = - slice_units s" "deadline s' = tr + slice_units s * 100"
    using m(6) by auto
  define v where "v = (ucast (min (sat_sub t1 t0) 0xFFFFFFFF) :: u32)"
  let ?k4 = "record_latency v (win_kernel s')"
  have f: "ticks ?k4 = ticks (win_kernel s')" "current_tcb ?k4 = current_tcb (win_kernel s')" "same_threads (win_kernel s') ?k4"
    by (simp_all add: record_latency_def Let_def same_threads_def rd_def)
  have "win_ok A T ns2 (s'\<lparr>win_kernel := ?k4\<rparr>)"
    using record_step(1) [OF s'(2)] one_thread_same [OF s'(3) f(3)] s'(4) by (simp add: win_ok_def)
  moreover have "tick_thread_pass A from_timer t0 tr t1 s = Some (Continued, s'\<lparr>win_kernel := ?k4\<rparr>)"
    unfolding tick_thread_pass_def Let_def using sd m(5) k1(1) k2(1) k3(1) s'(1) by (simp add: v_def)
  ultimately show ?thesis
    using f s'(4-8) k3(4,5) k2(5) k1(5) m(3) idle by (intro exI [of _ "s'\<lparr>win_kernel := ?k4\<rparr>"] exI [of _ ns2]) auto
qed

section \<open>The end of the process\<close>

text \<open>The walk of \<open>finish_shutdown\<close> resumes the threads of one ring.\<close>

definition resume_one :: "win_api \<Rightarrow> tcb_heap \<Rightarrow> ptr \<Rightarrow> sys_table \<Rightarrow> sys_table" where
  "resume_one A h a w = (case rdh h a of None \<Rightarrow> w | Some t \<Rightarrow> if backend t = 0 then w else resume_thread A (backend t) w)"

lemma resume_ring_chain:
  "rdh (heap k) p \<noteq> None \<Longrightarrow> chain (heap k) p (ps @ [start]) \<Longrightarrow> start \<notin> set ps
    \<Longrightarrow> resume_ring A start p k = Some (k\<lparr>words := fold (resume_one A (heap k)) (p # ps) (words k)\<rparr>)"
proof (induction ps arbitrary: p k)
  case Nil
  then obtain t where t: "rdh (heap k) p = Some t" "nxt t = start" by (auto simp: link_def)
  then show ?case by (subst resume_ring.simps) (simp add: rd_def resume_one_def Let_def)
next
  case (Cons q ps)
  then obtain t u where t: "rdh (heap k) p = Some t" "nxt t = q" "rdh (heap k) q = Some u" by (auto simp: link_def)
  then have q0: "q \<noteq> 0" by (auto simp: rdh_def split: if_splits)
  let ?k = "if backend t = null_ptr then k else k\<lparr>words := resume_thread A (backend t) (words k)\<rparr>"
  have h: "heap ?k = heap k" "words ?k = resume_one A (heap k) p (words k)" using t(1) by (simp_all add: resume_one_def)
  have "resume_ring A start p k = resume_ring A start q ?k"
  proof -
    have "(q = start) = False" using Cons.prems(3) by auto
    then show ?thesis using t q0 by (subst resume_ring.simps) (simp add: rd_def Let_def)
  qed
  moreover have "resume_ring A start q ?k = Some (?k\<lparr>words := fold (resume_one A (heap k)) (q # ps) (words ?k)\<rparr>)"
    using Cons.IH [of ?k q] Cons.prems t(3) by (simp only: h) simp
  moreover have "?k\<lparr>words := w\<rparr> = k\<lparr>words := w\<rparr>" for w by simp
  ultimately show ?case unfolding h by simp
qed

lemma finish_shutdown_run:
  assumes r: "ring (heap (win_kernel s)) (start # as)"
    and st: "start = (if ring_head (win_kernel s) = 0 then current_tcb (win_kernel s) else ring_head (win_kernel s))"
  shows "finish_shutdown A code s = Some (ProcessExit code,
    s\<lparr>win_kernel := (win_kernel s)\<lparr>words := fold (resume_one A (heap (win_kernel s))) (start # as) (words (win_kernel s))\<rparr>\<rparr>)"
proof -
  have "rdh (heap (win_kernel s)) start \<noteq> None" using ring_succ [OF r] by auto
  moreover have "chain (heap (win_kernel s)) start (as @ [start])" "start \<notin> set as" using r by auto
  ultimately have run: "resume_ring A start start (win_kernel s)
      = Some ((win_kernel s)\<lparr>words := fold (resume_one A (heap (win_kernel s))) (start # as) (words (win_kernel s))\<rparr>)"
    by (rule resume_ring_chain)
  have s0: "start \<noteq> 0" using \<open>rdh (heap (win_kernel s)) start \<noteq> None\<close> by (auto simp: rdh_def)
  show ?thesis unfolding finish_shutdown_def Let_def k_current_def st [symmetric] using run s0 by simp
qed

text \<open>With the policy \<open>ExitWhenAllDead\<close> a moment without a runnable task ends the process, however many
  tasks are only asleep.\<close>

lemma w32_exit_policy:
  assumes ok: "kernel_ok (win_kernel s) T" and none: "none_runnable (win_kernel s) T"
    and p: "kc_idle (config (win_kernel s)) = ExitWhenAllDead"
  shows "\<exists>k'. schedule_next (win_kernel s) = Some (0, k')
    \<and> w32_switch A tr 0 (s\<lparr>win_kernel := k'\<rparr>) = finish_shutdown A 0 (s\<lparr>win_kernel := k'\<rparr>)
    \<and> (\<forall>a. map_option st (rd k' a) = map_option st (rd (win_kernel s) a))"
proof -
  from idle_schedule [OF ok none] obtain k' where k': "schedule_next (win_kernel s) = Some (0, k')" "config k' = config (win_kernel s)"
    "\<forall>a. map_option st (rd k' a) = map_option st (rd (win_kernel s) a)" by blast
  then show ?thesis using p by (intro exI [of _ k']) (simp add: w32_switch_def)
qed

section \<open>The lock\<close>

text \<open>Threads by their id; \<open>opened\<close> counts the sections each has open.\<close>

datatype lock_act = Enter u32 bool | Leave u32

fun lock_step :: "lock_act \<Rightarrow> rlock \<times> (u32 \<Rightarrow> nat) \<Rightarrow> (rlock \<times> (u32 \<Rightarrow> nat)) option" where
  "lock_step (Enter th spurious) (l, opened) =
     (case w32_try_enter th spurious l of
        (None, l) \<Rightarrow> Some (l, opened)
      | (Some token, l) \<Rightarrow> Some (l, opened(th := opened th + 1)))"
| "lock_step (Leave th) (l, opened) =
     (if opened th = 0 then None else Some (w32_critical_exit 0 l, opened(th := opened th - 1)))"

text \<open>The word of the lock says which thread is inside, and how deep.\<close>

definition lock_inv :: "rlock \<times> (u32 \<Rightarrow> nat) \<Rightarrow> bool" where
  "lock_inv x = (case x of (l, opened) \<Rightarrow>
     (\<forall>th. opened th = (if lock_owner l \<noteq> 0 \<and> th = lock_owner l - 1 then unat (lock_depth l) else 0))
     \<and> (lock_owner l \<noteq> 0 \<longrightarrow> lock_depth l \<noteq> 0))"

definition lock_act_ok :: "lock_act \<Rightarrow> rlock \<times> (u32 \<Rightarrow> nat) \<Rightarrow> bool" where
  "lock_act_ok a x = (case a of Enter th _ \<Rightarrow> th \<noteq> 0xFFFFFFFF \<and> snd x th < 0xFFFFFFFF | Leave th \<Rightarrow> snd x th \<noteq> 0)"

lemma lock_step_inv:
  assumes inv: "lock_inv x" and a: "lock_act_ok a x"
  shows "\<exists>x'. lock_step a x = Some x' \<and> lock_inv x'"
proof -
  obtain l opened where x: "x = (l, opened)" by (cases x)
  have i: "opened th = (if lock_owner l \<noteq> 0 \<and> th = lock_owner l - 1 then unat (lock_depth l) else 0)" for th
    using inv by (simp add: lock_inv_def x)
  have d: "lock_owner l \<noteq> 0 \<Longrightarrow> lock_depth l \<noteq> 0" using inv by (simp add: lock_inv_def x)
  show ?thesis
  proof (cases a)
    case (Enter th sp)
    have t: "th + 1 \<noteq> 0" "opened th < 0xFFFFFFFF" using a Enter by (auto simp: lock_act_ok_def x eq_neg_iff_add_eq_0 [symmetric])
    show ?thesis
    proof (cases "lock_owner l = th + 1")
      case True
      have o: "opened th = unat (lock_depth l)" using i [of th] True t(1) by simp
      then have u: "unat (lock_depth l + 1) = unat (lock_depth l) + 1" using t(2) by (subst unat_plus_small) simp_all
      then have "lock_depth l + 1 \<noteq> 0" by (metis add_is_0 unat_0 zero_neq_one)
      moreover have "(opened(th := opened th + 1)) y = (if y = th then unat (lock_depth l + 1) else 0)" for y
        using o u i [of y] True by simp
      ultimately show ?thesis
        using True t(1) by (simp add: Enter x w32_try_enter_def lock_inv_def)
    next
      case False
      show ?thesis
      proof (cases "lock_owner l = 0 \<and> \<not> sp")
        case True
        then have "opened y = 0" for y using i [of y] by simp
        then show ?thesis using True False t(1) by (simp add: Enter x w32_try_enter_def lock_inv_def)
      next
        case no: False
        then have "w32_try_enter th sp l = (None, l)" using False by (auto simp: w32_try_enter_def)
        then show ?thesis using inv by (simp add: Enter x)
      qed
    qed
  next
    case (Leave th)
    have o: "opened th \<noteq> 0" using a Leave by (simp add: lock_act_ok_def x)
    then have ow: "lock_owner l \<noteq> 0" "th = lock_owner l - 1" "opened th = unat (lock_depth l)" using i [of th] by (auto split: if_splits)
    show ?thesis
    proof (cases "lock_depth l = 1")
      case True
      then show ?thesis using o i ow by (simp add: Leave x w32_critical_exit_def lock_inv_def)
    next
      case False
      have d0: "lock_depth l \<noteq> 0" using d ow(1) .
      have u: "unat (lock_depth l - 1) = unat (lock_depth l) - 1" using d0 by (simp add: unat_minus_one)
      have "lock_depth l - 1 \<noteq> 0" using False by simp
      then show ?thesis using o i ow u False by (simp add: Leave x w32_critical_exit_def lock_inv_def)
    qed
  qed
qed

text \<open>At most one thread is inside.\<close>

lemma lock_excludes: "lock_inv (l, opened) \<Longrightarrow> opened th \<noteq> 0 \<Longrightarrow> opened th' \<noteq> 0 \<Longrightarrow> th' = th"
  by (auto simp: lock_inv_def split: if_splits)

section \<open>Planning and the clock\<close>

lemma w32_plan_ok:
  assumes "w32_plan_timer res cfg = Inr plan"
  shows "(if res = 1 then 500000 else 1000000) \<le> unat (plan_slice_ns plan)" "plan_timer_hz plan = 10000000"
    "unat (plan_slice_ns plan) = unat (plan_slice_cycles plan) * 100"
    "unat (px_requested cfg) \<le> unat (plan_slice_ns plan)" "unat (plan_slice_ns plan) < unat (px_requested cfg) + 100"
proof -
  define r where "r = px_requested cfg"
  define u where "u = div_ceil r 100"
  define m where "m = min_slice_ns (w32_platform_limits res kernel_new)"
  have c: "\<not> r < m" "\<not> u > 0xFFFFFFFF"
    and p: "plan = \<lparr>plan_slice_ns = u * 100, plan_slice_cycles = ucast u, plan_timer_hz = WIN_UNITS_PER_SEC\<rparr>"
    using assms unfolding w32_plan_timer_def Let_def px_requested_def [symmetric] r_def [symmetric] u_def [symmetric] m_def [symmetric]
    by (simp_all only: split: if_splits) simp_all
  note h = host_units [OF u_def c(2)]
  have "(if res = 1 then 500000 else 1000000) = unat m"
    by (simp add: m_def w32_platform_limits_def MIN_SLICE_NS_HIGH_RES_def MIN_SLICE_NS_FALLBACK_def Let_def)
  then have r5: "(if res = 1 then 500000 else 1000000) \<le> unat r" using c(1) by (simp add: not_less word_le_nat_alt)
  show "plan_timer_hz plan = 10000000" by (simp add: p WIN_UNITS_PER_SEC_def)
  show "unat (plan_slice_ns plan) = unat (plan_slice_cycles plan) * 100" using h(1) by (simp add: p)
  show "unat (px_requested cfg) \<le> unat (plan_slice_ns plan)" "unat (plan_slice_ns plan) < unat (px_requested cfg) + 100"
    unfolding r_def [symmetric] p using h(2,3) by simp_all
  then show "(if res = 1 then 500000 else 1000000) \<le> unat (plan_slice_ns plan)" using r5 unfolding r_def by linarith
qed

text \<open>The clock reads the counter exactly, whatever its size: the product does not overflow.\<close>

lemma w32_now_exact:
  assumes c: "unat c < 2 ^ 63" and f: "0 < unat f" "unat f < 2 ^ 63"
  shows "unat (fst (w32_now_ns 0 (Some f) (Some c))) = unat c * 1000000000 div unat f mod 2 ^ 64" "snd (w32_now_ns 0 (Some f) (Some c)) = f"
proof -
  have s: "sint v = int (unat v)" if "unat v < 2 ^ 63" for v :: u64
  proof -
    have "int (unat v) < int (2 ^ 63)" using that by (simp only: of_nat_less_iff)
    then have "uint v < 2 ^ 63" by (simp only: of_nat_unat of_nat_power of_nat_numeral)
    moreover have "- (2 ^ 63) \<le> uint v" by (rule order_trans [of _ 0]) simp_all
    ultimately have "signed_take_bit 63 (uint v) = uint v" by (intro signed_take_bit_int_eq_self)
    then show ?thesis by (simp add: sint_uint)
  qed
  have "0 < int (unat f)" using f(1) by (simp only: of_nat_0_less_iff)
  then have pos: "\<not> f <=s 0" unfolding word_sle_eq s [OF f(2)] by simp
  let ?c = "scast c :: u128" and ?f = "ucast f :: u128"
  have "?c = of_int (sint c)" by simp
  then have "?c = of_nat (unat c)" using s [OF c] by simp
  then have uc: "unat ?c = unat c" using c by (simp add: unat_ucast_mod)
  have uf: "unat ?f = unat f" using f(2) unfolding unat_ucast_mod by simp
  have "unat (?c * 1000000000) = unat c * 1000000000"
    using c uc by (subst unat_mult_lem [THEN iffD1]) simp_all
  then have "unat (ucast (?c * 1000000000 div ?f) :: u64) = unat c * 1000000000 div unat f mod 2 ^ 64"
    unfolding unat_ucast_mod by (simp add: unat_div uf)
  then show "unat (fst (w32_now_ns 0 (Some f) (Some c))) = unat c * 1000000000 div unat f mod 2 ^ 64"
    using pos by (simp add: w32_now_ns_def)
  show "snd (w32_now_ns 0 (Some f) (Some c)) = f" using pos by (simp add: w32_now_ns_def)
qed

end
