(* ===== verification/RkPorts.thy ===== *)
theory RkPorts
  imports RkSmp RkWin32
begin

text \<open>
  The ports together: each keeps the contract of RkLife, so what is proved over the contract holds
  on all of them.
\<close>

text \<open>The address of the trampoline, the default arena and what the machine answers at start-up are
  free in each port.\<close>

definition bare_metal :: "port \<Rightarrow> bool" where
  "bare_metal P =
     ((\<exists>e a dwt. P = cortex_port e a dwt) \<or> (\<exists>e a r tm. P = riscv_port e a r tm)
      \<or> (\<exists>e a c hz. P = arm_port e a c hz) \<or> (\<exists>e a vb. P = xtensa_port e a vb))"

lemma bare_metal_ports [simp]:
  "bare_metal (cortex_port e a dwt)" "bare_metal (riscv_port e a r tm)" "bare_metal (arm_port e a c hz)"
  "bare_metal (xtensa_port e a vb)"
  unfolding bare_metal_def by blast+

lemma bare_metal_quiet: "bare_metal P \<Longrightarrow> quiet_port P"
  unfolding bare_metal_def
  using cm.quiet_port_axioms rv.quiet_port_axioms arm.quiet_port_axioms xt.quiet_port_axioms by auto

lemma bare_metal_contract: "bare_metal P \<Longrightarrow> port_contract P"
  using bare_metal_quiet unfolding quiet_port_def by blast

lemma bare_metal_pins_nothing: "bare_metal P \<Longrightarrow> \<not> port_pinned P p"
  by (auto simp: bare_metal_def cortex_port_def cm_is_pinned_def riscv_port_def rv_is_pinned_def arm_port_def
      arm_is_pinned_def xtensa_port_def xt_is_pinned_def)

text \<open>With the ports for hosts, where what the system answers is free as well.\<close>

definition supported :: "port \<Rightarrow> bool" where
  "supported P = (bare_metal P \<or> (\<exists>e a ok made. P = posix_port e a ok made)
     \<or> (\<exists>A res b a have_objects th. P = win32_port A res b a have_objects th))"

lemma supported_bare_metal: "bare_metal P \<Longrightarrow> supported P"
  by (simp add: supported_def)

lemma supported_ports:
  "supported (cortex_port e a dwt)" "supported (posix_port e64 a ok made)" "supported (win32_port A res b a have_objects th)"
  unfolding supported_def by (simp, blast+)

lemma supported_contract: "supported P \<Longrightarrow> port_contract P"
  using bare_metal_contract px.port_contract_axioms w32.port_contract_axioms by (auto simp: supported_def)

text \<open>An accepted plan is a slice its timer can count: 24 bits on SysTick, a 32-bit count of at least
  the port's minimum on the others.\<close>

definition demanded :: "scheduler_config \<Rightarrow> u32 \<Rightarrow> u64" where
  "demanded cfg hz = (case cfg_slice cfg of Cycles c \<Rightarrow> ucast c | other \<Rightarrow> to_cycles other hz)"

lemma plans_fit:
  assumes P: "bare_metal P" and plan: "port_plan P cfg = Inr plan"
  shows "100 \<le> unat (plan_slice_cycles plan)" and "plan_timer_hz plan \<noteq> 0"
    and "cfg_timer_hz cfg \<noteq> 0 \<Longrightarrow> plan_timer_hz plan = cfg_timer_hz cfg"
    and "unat (plan_slice_cycles plan) = unat (demanded cfg (plan_timer_hz plan))"
    and "P = cortex_port e a dwt \<Longrightarrow> unat (plan_slice_cycles plan) < 2 ^ 24"
proof -
  consider (c) e a dwt where "P = cortex_port e a dwt" | (r) e a r tm where "P = riscv_port e a r tm"
    | (m) e a c hz where "P = arm_port e a c hz" | (x) e a vb where "P = xtensa_port e a vb"
    using P unfolding bare_metal_def by blast
  then have "100 \<le> unat (plan_slice_cycles plan) \<and> plan_timer_hz plan \<noteq> 0
    \<and> (cfg_timer_hz cfg \<noteq> 0 \<longrightarrow> plan_timer_hz plan = cfg_timer_hz cfg)
    \<and> unat (plan_slice_cycles plan) = unat (demanded cfg (plan_timer_hz plan))"
  proof cases
    case c
    then have "cm_plan_timer cfg = Inr plan" using plan by (simp add: cortex_port_def)
    from plan_timer_ok [OF this] show ?thesis by (simp add: demanded_def plan_cycles_def)
  next
    case r
    then have "rv_plan_timer cfg = Inr plan" using plan by (simp add: riscv_port_def)
    from rv_plan_ok [OF this] show ?thesis by (simp add: demanded_def)
  next
    case m
    then have "arm_plan_timer hz cfg = Inr plan" using plan by (simp add: arm_port_def)
    from arm_plan_ok [OF this] show ?thesis by (simp add: demanded_def)
  next
    case x
    then have "xt_plan_timer cfg = Inr plan" using plan by (simp add: xtensa_port_def)
    from xt_plan_ok [OF this] show ?thesis by (simp add: demanded_def)
  qed
  then show "100 \<le> unat (plan_slice_cycles plan)" and "plan_timer_hz plan \<noteq> 0"
    and "cfg_timer_hz cfg \<noteq> 0 \<Longrightarrow> plan_timer_hz plan = cfg_timer_hz cfg"
    and "unat (plan_slice_cycles plan) = unat (demanded cfg (plan_timer_hz plan))" by blast+
  show "unat (plan_slice_cycles plan) < 2 ^ 24" if "P = cortex_port e a dwt"
    using plan that plan_timer_ok(2) [of cfg plan] by (simp add: cortex_port_def)
qed

section \<open>The handlers, from entry to return\<close>

text \<open>RISC-V: the task the kernel calls current runs from its own frame, with a full slice on the
  comparator, counted from one of the counter readings \<open>trs\<close>.\<close>

definition rv_resumed :: "u64 set \<Rightarrow> ntree \<Rightarrow> riscv \<Rightarrow> bool" where
  "rv_resumed trs T s = (\<exists>t tr. LeafN (current_tcb (rv_kernel s)) \<in> set (subs T) \<and> rd (rv_kernel s) (current_tcb (rv_kernel s)) = Some t
     \<and> load_words (sp t) 30 (words (rv_kernel s)) = Some (rv_gprs s @ [mepc s, mstatus s])
     \<and> rv_sp s = sp t + RV_FRAME_SIZE \<and> tr \<in> trs
     \<and> comparator (rv_regs s) (rv_kernel s) = tr + ucast (kc_slice_cycles (config (rv_kernel s))))"

context quiet_port
begin

lemma rv_trap_run:
  assumes ok: "rv_ok (current_tcb (rv_kernel s)) T s"
  shows "\<exists>b s'. rv_trap_entry P cs s = Some (b, s') \<and> rv_ok 0 T s' \<and> rv_fixed s s'
    \<and> (b \<longrightarrow> rv_resumed (set (map (fst \<circ> snd \<circ> snd) cs)) T s')"
proof -
  from rv_save_run [OF ok] obtain s1 where s1: "rv_save s = Some s1" "rv_ok 0 T s1" "rv_fixed s s1" by blast
  from rv_wait_run [OF s1(2), of cs] obtain b s' where s': "rv_wait P cs s1 = Some (b, s')" "rv_ok 0 T s'" "rv_fixed s1 s'"
    "b \<longrightarrow> rv_resumed (set (map (fst \<circ> snd \<circ> snd) cs)) T s'" unfolding rv_resumed_def by blast
  have "rv_trap_entry P cs s = Some (b, s')" using s1(1) s'(1) by (simp add: rv_trap_entry_def)
  with s'(2,4) rv_fixed_trans [OF s1(3) s'(3)] show ?thesis by blast
qed

lemma arm_irq_run:
  assumes ok: "arm_ok (current_tcb (a_kernel s)) T s"
  shows "\<exists>b s'. rrkernel_irq_entry P cs s = Some (b, s') \<and> arm_ok 0 T s' \<and> (b \<longrightarrow> arm_resumed T s')"
proof -
  from arm_save_run [OF ok] obtain s1 where s1: "arm_save s = Some s1" "arm_ok 0 T s1" by blast
  from arm_wait_run [OF s1(2), of cs] s1(1) show ?thesis by (simp add: rrkernel_irq_entry_def)
qed

end

end
