(* ===== verification/RkPendSV.thy ===== *)
theory RkPendSV
  imports RkIrq
begin

text \<open>
  The Cortex-M handlers on the whole kernel: \<open>SysTick_Handler\<close> and \<open>PendSV_Handler\<close> are total
  under the system invariant and keep it, and the registers a task resumes with are those of its
  own frame.
\<close>

definition cx_ok :: "ptr \<Rightarrow> ntree \<Rightarrow> kernel \<Rightarrow> bool" where
  "cx_ok c T k = ((\<exists>ns. sys_inv k T ns) \<and> framed_but c 0 8 T k)"

lemma cx_ok_kept: "cx_ok c T k \<Longrightarrow> sys_inv k' T ns \<Longrightarrow> kept T k k' \<Longrightarrow> cx_ok c T k'"
  using framed_kept by (auto simp: cx_ok_def)

lemma cx_ok_quiet:
  assumes "cx_ok c T k" and "heap k' = heap k" "root k' = root k" "nodes k' = nodes k" "current_tcb k' = current_tcb k"
    "karena k' = karena k" "pending_free k' = pending_free k" "active_threads k' = active_threads k"
    and "\<And>a. words k a \<noteq> None \<Longrightarrow> words k' a \<noteq> None"
  shows "cx_ok c T k'"
proof -
  from assms(1) obtain ns where "sys_inv k T ns" by (auto simp: cx_ok_def)
  then have "sys_inv k' T ns" by (rule quiet_step) (rule assms)+
  moreover have "framed_but c 0 8 T (k\<lparr>words := words k'\<rparr>)"
    using assms(1,9) framed_more by (auto simp: cx_ok_def)
  then have "framed_but c 0 8 T k'" using assms(2) by (simp add: framed_but_def rd_def)
  ultimately show ?thesis by (auto simp: cx_ok_def)
qed

text \<open>The task the kernel calls current is about to run with the registers of its frame in \<open>w\<close>.\<close>

definition resumes :: "ntree \<Rightarrow> (ptr \<rightharpoonup> u32) \<Rightarrow> cpu \<Rightarrow> kernel \<Rightarrow> bool" where
  "resumes T w cp k = (\<exists>t. LeafN (current_tcb k) \<in> set (subs T) \<and> rd k (current_tcb k) = Some t
     \<and> load_words (sp t) 8 w = Some (r4_r11 cp)
     \<and> (if uses_msp t then msp cp = sp t + 32 \<and> exc_return cp = 0xFFFFFFF9
        else psp cp = sp t + 32 \<and> exc_return cp = 0xFFFFFFFD)
     \<and> words k SYST_CVR = Some 0)"

section \<open>The tick\<close>

lemma systick_run:
  assumes ok: "cx_ok c T (cm_kernel x)"
  shows "\<exists>x'. SysTick_Handler v x = Some x' \<and> cx_ok c T (cm_kernel x') \<and> ticks (cm_kernel x') = ticks (cm_kernel x) + 1
    \<and> current_tcb (cm_kernel x') = current_tcb (cm_kernel x) \<and> switch_pending (cm_kernel x')"
proof -
  define x1 where "x1 = (if dwt_ok x = 1 \<and> kc_measure (config (cm_kernel x)) = MeasureCycles then
                (let last = last_tick_cycles x;
                     c = (if last \<noteq> 0 then
                            x\<lparr>cm_kernel := record_period_error
                                (abs_diff (v - last) (kc_slice_cycles (config (cm_kernel x)))) (cm_kernel x)\<rparr>
                          else x)
                 in c\<lparr>last_tick_cycles := v\<rparr>)
              else x)"
  have x1: "cm_kernel x1 = cm_kernel x \<or> (\<exists>e. cm_kernel x1 = record_period_error e (cm_kernel x))"
    by (auto simp: x1_def Let_def)
  from ok obtain ns where inv: "sys_inv (cm_kernel x) T ns" by (auto simp: cx_ok_def)
  have ok1: "cx_ok c T (cm_kernel x1)" using x1 ok cx_ok_kept [OF ok record_step(3,4) [OF inv]] by auto
  have same: "ticks (cm_kernel x1) = ticks (cm_kernel x)" "current_tcb (cm_kernel x1) = current_tcb (cm_kernel x)"
    using x1 by (auto simp: record_period_error_def Let_def)
  from ok1 obtain ms where "sys_inv (cm_kernel x1) T ms" by (auto simp: cx_ok_def)
  from tick_run [OF this] obtain k where k: "on_tick (cm_kernel x1) = Some k" "sys_inv k T ms" "kept T (cm_kernel x1) k"
    "ticks k = ticks (cm_kernel x1) + 1" "current_tcb k = current_tcb (cm_kernel x1)" by blast
  let ?x' = "x1\<lparr>cm_kernel := request_switch k\<rparr>"
  have "SysTick_Handler v x = Some ?x'" using k(1) unfolding SysTick_Handler_def x1_def [symmetric] by (simp add: Let_def)
  moreover have "cx_ok c T (request_switch k)"
    by (rule cx_ok_quiet [OF cx_ok_kept [OF ok1 k(2,3)]]) (simp_all add: request_switch_def)
  ultimately show ?thesis using k(4,5) same by (simp add: request_switch_def)
qed

section \<open>The switch\<close>

context quiet_port
begin

lemma pendsv_next_run:
  assumes ok: "cx_ok c T (cm_kernel x)"
  shows "\<exists>nx x'. rrkernel_schedule_next P t0 t1 x = Some (nx, x') \<and> cx_ok c T (cm_kernel x')
    \<and> ticks (cm_kernel x') = ticks (cm_kernel x) \<and> words (cm_kernel x') = words (cm_kernel x)
    \<and> (nx \<noteq> 0 \<longrightarrow> LeafN nx \<in> set (subs T) \<and> current_tcb (cm_kernel x') = nx)"
proof -
  from ok obtain ns where "sys_inv (cm_kernel x) T ns" by (auto simp: cx_ok_def)
  from reclaim_run [OF this] obtain k ms where k: "reclaim_finished_tasks P (cm_kernel x) = Some k" "sys_inv k T ms"
    "kept T (cm_kernel x) k" "ticks k = ticks (cm_kernel x)" by blast
  from switch_run [OF k(2)] obtain nx k1 where k1: "schedule_next k = Some (nx, k1)" "sys_inv k1 T ms" "kept T k k1"
    "ticks k1 = ticks k" "nx \<noteq> 0 \<longrightarrow> LeafN nx \<in> set (subs T) \<and> current_tcb k1 = nx" by blast
  have ok1: "cx_ok c T k1" by (rule cx_ok_kept [OF ok k1(2) kept_trans [OF k(3) k1(3)]])
  let ?t = "if dwt_ok x = 1 then t0 else 0"
  let ?k2 = "if ?t \<noteq> 0 \<and> kc_measure (config k1) = MeasureCycles then record_latency (t1 - ?t) k1 else k1"
  have "rrkernel_schedule_next P t0 t1 x = Some (nx, x\<lparr>cm_kernel := ?k2\<rparr>)"
    using k(1) k1(1) by (simp add: rrkernel_schedule_next_def Let_def)
  moreover have "cx_ok c T ?k2" using ok1 cx_ok_kept [OF ok1 record_step(1,2) [OF k1(2)]] by simp
  moreover have "words k1 = words (cm_kernel x)" using k(3) k1(3) by (simp add: kept_def)
  ultimately show ?thesis
    using k(4) k1(4,5) by (intro exI [of _ nx] exI [of _ "x\<lparr>cm_kernel := ?k2\<rparr>"]) (simp add: record_latency_def Let_def)
qed

text \<open>The task the kernel calls current resumes with the registers of its own frame; with nothing
  runnable the core waits.\<close>

lemma pendsv_pick_run:
  assumes ok: "cx_ok 0 T (cm_kernel x)" and n: "length (r4_r11 cp) = 8"
  shows "\<exists>b cp' x'. PendSV_pick P t0 t1 (cp, x) = Some (b, cp', x') \<and> cx_ok 0 T (cm_kernel x') \<and> length (r4_r11 cp') = 8
    \<and> ticks (cm_kernel x') = ticks (cm_kernel x)
    \<and> (if b then resumes T (words (cm_kernel x)) cp' (cm_kernel x')
       else cp' = cp)"
proof -
  from pendsv_next_run [OF ok, of t0 t1] obtain nx x1 where x1: "rrkernel_schedule_next P t0 t1 x = Some (nx, x1)"
    "cx_ok 0 T (cm_kernel x1)" "ticks (cm_kernel x1) = ticks (cm_kernel x)" "words (cm_kernel x1) = words (cm_kernel x)"
    "nx \<noteq> 0 \<longrightarrow> LeafN nx \<in> set (subs T) \<and> current_tcb (cm_kernel x1) = nx" by blast
  show ?thesis
  proof (cases "nx = 0")
    case True
    let ?x' = "x1\<lparr>cm_kernel := rrkernel_idle_wait (cm_kernel x1)\<rparr>"
    have "PendSV_pick P t0 t1 (cp, x) = Some (False, cp, ?x')" using x1(1) True by (simp add: PendSV_pick_def)
    moreover have "cx_ok 0 T (rrkernel_idle_wait (cm_kernel x1))"
      by (rule cx_ok_quiet [OF x1(2)]) (simp_all add: rrkernel_idle_wait_def)
    ultimately show ?thesis
      using n x1(3) by (intro exI [of _ False] exI [of _ cp] exI [of _ ?x']) (simp add: rrkernel_idle_wait_def)
  next
    case False
    with x1(5) have c: "LeafN nx \<in> set (subs T)" "current_tcb (cm_kernel x1) = nx" by simp_all
    with x1(2) False obtain t vs where t: "rd (cm_kernel x1) nx = Some t" "load_words (sp t) 8 (words (cm_kernel x1)) = Some vs"
      by (auto simp: cx_ok_def framed_but_def)
    let ?cp = "if uses_msp t then cp\<lparr>r4_r11 := vs, msp := sp t + 32, exc_return := 0xFFFFFFF9\<rparr>
           else cp\<lparr>r4_r11 := vs, psp := sp t + 32, exc_return := 0xFFFFFFFD\<rparr>"
    let ?x' = "x1\<lparr>cm_kernel := reg_wr SYST_CVR 0 (cm_kernel x1)\<rparr>"
    have "PendSV_pick P t0 t1 (cp, x) = Some (True, ?cp, ?x')"
      using x1(1) False t by (simp add: PendSV_pick_def pendsv_restore_def Let_def)
    moreover have "cx_ok 0 T (reg_wr SYST_CVR 0 (cm_kernel x1))"
      by (rule cx_ok_quiet [OF x1(2)]) (simp_all add: reg_wr_def)
    moreover have "rd (reg_wr SYST_CVR 0 (cm_kernel x1)) nx = Some t" using t(1) by (simp add: reg_wr_def rd_def)
    ultimately show ?thesis
      using load_length [OF t(2)] t(2) c x1(3,4)
      by (intro exI [of _ True] exI [of _ ?cp] exI [of _ ?x']) (simp add: resumes_def reg_wr_def)
  qed
qed

lemma pendsv_run:
  assumes ok: "cx_ok (current_tcb (cm_kernel x)) T (cm_kernel x)" and n: "length (r4_r11 cp) = 8"
  shows "\<exists>b cp' x'. PendSV_Handler P t0 t1 (cp, x) = Some (b, cp', x') \<and> cx_ok 0 T (cm_kernel x') \<and> length (r4_r11 cp') = 8
    \<and> ticks (cm_kernel x') = ticks (cm_kernel x)
    \<and> (b \<longrightarrow> (\<exists>w. resumes T w cp' (cm_kernel x')))"
proof -
  let ?c = "current_tcb (cm_kernel x)"
  have "\<exists>cp1 k1. pendsv_save cp (cm_kernel x) = Some (cp1, k1) \<and> cx_ok 0 T k1 \<and> length (r4_r11 cp1) = 8
    \<and> ticks k1 = ticks (cm_kernel x)"
  proof (cases "?c = 0")
    case True
    then show ?thesis using ok n by (simp add: pendsv_save_def k_current_def)
  next
    case False
    from ok obtain ns where inv: "sys_inv (cm_kernel x) T ns" by (auto simp: cx_ok_def)
    from cur_on_cpu [OF inv False] obtain t where "on_cpu (cm_kernel x) ?c t" by blast
    then have t: "rd (cm_kernel x) ?c = Some t" by (simp add: on_cpu_def)
    let ?sp = "(if uses_msp t then msp cp else psp cp) - 32"
    let ?k = "(cm_kernel x)\<lparr>words := store_words ?sp (r4_r11 cp) (words (cm_kernel x))\<rparr>"
    have i1: "sys_inv ?k T ns" by (rule quiet_step [OF inv]) simp_all
    have l: "load_words (?sp + 0) 8 (words ?k) \<noteq> None" using load_store [of "r4_r11 cp" ?sp "words (cm_kernel x)"] n by simp
    have f1: "framed_but (current_tcb ?k) 0 8 T ?k"
      using framed_more [of ?c 0 8 T "cm_kernel x" "words ?k"] store_more ok by (simp add: cx_ok_def)
    have ne: "current_tcb ?k \<noteq> 0" using False by simp
    from publish_step [OF i1, of ?sp] obtain k' where
      k: "(if current_tcb ?k = 0 then Some ?k else upd (\<lambda>t. t\<lparr>sp := ?sp\<rparr>) (current_tcb ?k) ?k) = Some k'"
        "sys_inv k' T ns" "words k' = words ?k" "ticks k' = ticks ?k"
        "\<forall>a. rd k' a = (if a = current_tcb ?k then map_option (\<lambda>t. t\<lparr>sp := ?sp\<rparr>) (rd ?k a) else rd ?k a)" by blast
    from framed_publish [OF f1 l k(5,3)] sys_invD(2) [OF i1] have f': "framed_but 0 0 8 T k'" by blast
    from k(1) ne have k1: "upd (\<lambda>t. t\<lparr>sp := ?sp\<rparr>) (current_tcb ?k) ?k = Some k'" by (simp only: if_False)
    have "rd ?k (current_tcb ?k) = Some t" using t by (simp add: rd_def)
    from upd_put [OF this] k1 have "k' = put (current_tcb ?k) (t\<lparr>sp := ?sp\<rparr>) ?k" by simp
    then have "pendsv_save cp (cm_kernel x) = Some (if uses_msp t then cp\<lparr>msp := msp cp - 32\<rparr> else cp, k')"
      using pendsv_save_run [of "cm_kernel x" ?c t cp] t by (simp add: k_current_def)
    then show ?thesis using k(2,4) f' n by (auto simp: cx_ok_def)
  qed
  then obtain cp1 k1 where s: "pendsv_save cp (cm_kernel x) = Some (cp1, k1)" "cx_ok 0 T k1" "length (r4_r11 cp1) = 8"
    "ticks k1 = ticks (cm_kernel x)" by blast
  have ok1: "cx_ok 0 T (cm_kernel (x\<lparr>cm_kernel := k1\<rparr>))" using s(2) by simp
  from pendsv_pick_run [OF ok1 s(3), of t0 t1] obtain b cp' x' where
    p: "PendSV_pick P t0 t1 (cp1, x\<lparr>cm_kernel := k1\<rparr>) = Some (b, cp', x')" "cx_ok 0 T (cm_kernel x')" "length (r4_r11 cp') = 8"
      "ticks (cm_kernel x') = ticks (cm_kernel (x\<lparr>cm_kernel := k1\<rparr>))"
    and "if b then resumes T (words (cm_kernel (x\<lparr>cm_kernel := k1\<rparr>))) cp' (cm_kernel x')
       else cp' = cp1" by blast
  then have r: "b \<longrightarrow> (\<exists>w. resumes T w cp' (cm_kernel x'))" by auto
  have "PendSV_Handler P t0 t1 (cp, x) = Some (b, cp', x')" using s(1) p(1) by (simp add: PendSV_Handler_def)
  then show ?thesis using p(2-4) s(4) r by (intro exI [of _ b] exI [of _ cp'] exI [of _ x']) simp
qed

end

end
