(* ===== verification/RkBoot.thy ===== *)
theory RkBoot
  imports RkSystem RkPort
begin

text \<open>
  A kernel booted on the Cortex-M port with an 8 KiB region, evaluated from \<open>kernel_new\<close> by
  running \<open>init_locked\<close>.  It satisfies the system's invariant, and instantiates the
  hypotheses of the properties about memory, tasks and reachable states.
\<close>

abbreviation boot_port :: port where
  "boot_port \<equiv> cortex_port 0x100 0x20000000 True"

definition boot_plan :: timer_plan where
  "boot_plan = \<lparr>plan_slice_ns = 1000000, plan_slice_cycles = 48000, plan_timer_hz = 48000000\<rparr>"

definition boot_region :: "ptr \<times> usize" where
  "boot_region = (0x20000000, 8192)"

definition boot :: "((config_error + unit) \<times> kernel) option" where
  "boot = init_locked boot_port scheduler_config_default boot_plan boot_region kernel_new"

definition boot_kernel :: kernel where
  "boot_kernel = snd (the boot)"

lemma boot_result: "map_option (\<lambda>(r, k). (r, root k, current_tcb k, nodes k, ticks k)) boot
    = Some (Inr (), 0x20000010, 0x20000088, 2, 0)"
  by code_simp

lemma boot_runs: "init_locked boot_port scheduler_config_default boot_plan boot_region kernel_new
    = Some (Inr (), boot_kernel)"
  using boot_result by (auto simp: boot_def boot_kernel_def)

lemma boot_fields [simp]: "root boot_kernel = 0x20000010" "current_tcb boot_kernel = 0x20000088"
  "nodes boot_kernel = 2" "ticks boot_kernel = 0"
  using boot_result by (auto simp: boot_def boot_kernel_def)

lemma kernel_new_pristine: "pristine kernel_new"
  by (simp add: pristine_def kernel_new_def)

lemma boot_region_ok: "region_ok boot_region"
  by (simp add: region_ok_def boot_region_def)

lemma boot_started: "started boot_plan boot_kernel"
proof -
  have "\<exists>r k'. init_locked boot_port scheduler_config_default boot_plan boot_region kernel_new = Some (r, k')
      \<and> (\<forall>u. r = Inr u \<longrightarrow> started boot_plan k')"
    by (rule cm.init_locked_ok [OF kernel_new_pristine boot_region_ok])
  with boot_runs show ?thesis by auto
qed

lemma boot_reachable: "reachable boot_port scheduler_config_default boot_plan boot_region boot_kernel"
  by (rule reachable.boot [OF kernel_new_pristine boot_region_ok boot_runs])

definition boot_tree :: ntree where
  "boot_tree = GroupN 0x20000010 [LeafN 0x20000088]"

lemma boot_ok: "kernel_ok boot_kernel boot_tree" "mem_ok boot_kernel" "dead_ok boot_kernel boot_tree []"
proof -
  from boot_started obtain rt where r: "kernel_ok boot_kernel (GroupN rt [LeafN 0x20000088])" "mem_ok boot_kernel"
    "dead_ok boot_kernel (GroupN rt [LeafN 0x20000088]) []"
    by (auto simp: started_def)
  moreover have "rt = 0x20000010" using r(1) by (simp add: kernel_ok_def tree_ok_def)
  ultimately show "kernel_ok boot_kernel boot_tree" "mem_ok boot_kernel" "dead_ok boot_kernel boot_tree []"
    by (simp_all add: boot_tree_def)
qed

lemma boot_roomy: "unat sz \<le> 4096 \<Longrightarrow> roomy boot_kernel sz"
proof -
  have "map_option (\<lambda>(r, k). (ar_base (karena k), ar_len (karena k))) boot = Some (0x20000000, 8192)"
    by code_simp
  then have "ar_base (karena boot_kernel) = 0x20000000" "ar_len (karena boot_kernel) = 8192"
    by (auto simp: boot_def boot_kernel_def)
  then show "unat sz \<le> 4096 \<Longrightarrow> roomy boot_kernel sz" by (simp add: roomy_def)
qed

section \<open>The booted kernel with nothing to run\<close>

text \<open>Its one task blocked; and its one task finished, not yet reclaimed.\<close>

lemma boot_sys: "sys_inv boot_kernel boot_tree []"
proof -
  from started_inv [OF boot_started] obtain rt where T: "sys_inv boot_kernel (GroupN rt [LeafN 0x20000088]) []" by auto
  moreover have "rt = 0x20000010" using sys_invD(2) [OF T] by (simp add: tree_ok_def)
  ultimately show ?thesis by (simp add: boot_tree_def)
qed

definition boot_blocked :: kernel where
  "boot_blocked = snd (the (mark_blocked_locked 7 0 boot_kernel))"

definition boot_exited :: kernel where
  "boot_exited = the (exit_task 0x20000088 boot_kernel)"

lemma boot_blocked_ok: "sys_inv boot_blocked boot_tree []" "none_runnable boot_blocked boot_tree"
  "current_tcb boot_blocked = 0x20000088"
proof -
  have c: "current_tcb boot_kernel \<noteq> 0" by simp
  from cur_on_cpu [OF boot_sys c] obtain t where t: "on_cpu boot_kernel 0x20000088 t" by auto
  from mark_blocked_run [OF t, of 7 0] have b: "boot_blocked = request_switch (put 0x20000088 (blocked 7 0 t) boot_kernel)"
    by (simp add: boot_blocked_def)
  from block_step [OF boot_sys, of 7 0] have "task_step boot_tree boot_kernel boot_blocked"
    by (auto simp: boot_blocked_def)
  then show "sys_inv boot_blocked boot_tree []" by (rule task_step_inv [OF boot_sys])
  show "none_runnable boot_blocked boot_tree"
    by (simp add: none_runnable_def boot_tree_def b request_switch_def h_runnable_def not_runnable_def put_def rdh_upd blocked_def)
  show "current_tcb boot_blocked = 0x20000088" by (simp add: b request_switch_def put_def)
qed

lemma boot_exited_ok: "sys_inv boot_exited (GroupN 0x20000010 []) [0x20000088]" "current_tcb boot_exited = 0"
proof -
  have c: "current_tcb boot_kernel \<noteq> 0" by simp
  have t: "regroup 0x20000010 (cut 0x20000088) boot_tree = GroupN 0x20000010 []"
    by (simp add: boot_tree_def cut_def)
  from exit_step [OF boot_sys c] obtain k' T' g us where e: "exit_task 0x20000088 boot_kernel = Some k'"
    "sys_inv k' T' [0x20000088]" "T' = regroup g (cut 0x20000088) boot_tree" "GroupN g us \<in> set (subs boot_tree)"
    "current_tcb k' = 0" by auto
  moreover have "g = 0x20000010" using e(4) by (simp add: boot_tree_def)
  ultimately show "sys_inv boot_exited (GroupN 0x20000010 []) [0x20000088]" "current_tcb boot_exited = 0"
    using t by (simp_all add: boot_exited_def)
qed

end
