(* ===== verification/RkWindow.thy ===== *)
theory RkWindow
  imports RkXtensa
begin

text \<open>
  The register windows of \<^verbatim>\<open>src/arch/xtensa.rs\<close>: the six overflow and underflow vectors, and the
  recovery from an Alloca exception.

  The handlers are given as the instruction lists of the source, run by \<open>run\<close>.  The machine has
  64 address registers; \<open>WINDOWBASE\<close> counts them in fours, so that \<open>a0\<close> to \<open>a15\<close> are sixteen of
  them from there on.  \<open>WINDOWSTART\<close> marks the windows that hold a frame.
\<close>

section \<open>The machine\<close>

record wcore =
  phys :: "6 word \<Rightarrow> u32"
  window_base :: "4 word"
  window_start :: "4 word \<Rightarrow> bool"
  wps :: u32
  wsave1 :: u32
  wcause :: u32
  wmem :: "ptr \<rightharpoonup> u32"

definition reg_of :: "4 word \<Rightarrow> nat \<Rightarrow> 6 word" where
  "reg_of w n = 4 * ucast w + of_nat n"

definition areg :: "nat \<Rightarrow> wcore \<Rightarrow> u32" where
  "areg n s = phys s (reg_of (window_base s) n)"

definition set_areg :: "nat \<Rightarrow> u32 \<Rightarrow> wcore \<Rightarrow> wcore" where
  "set_areg n v s = s\<lparr>phys := (phys s)(reg_of (window_base s) n := v)\<rparr>"

definition rotate_window :: "4 word \<Rightarrow> wcore \<Rightarrow> wcore" where
  "rotate_window n s = s\<lparr>window_base := window_base s + n\<rparr>"

definition PS_OWB_SHIFT :: nat where "PS_OWB_SHIFT = 8"
definition PS_OWB_MASK :: u32 where "PS_OWB_MASK = 0xF00"

text \<open>\<open>PS.OWB\<close>: the window base from before an exception.\<close>

definition ps_owb :: "u32 \<Rightarrow> 4 word" where
  "ps_owb p = ucast (drop_bit PS_OWB_SHIFT p)"

datatype vector = WindowUnderflow4 | WindowUnderflow8 | WindowUnderflow12 | AllocaException

text \<open>\<open>S32e t b k\<close> is \<^verbatim>\<open>s32e at, ab, -k\<close>.  \<open>RsrBase\<close> reads \<open>WINDOWBASE\<close>, \<open>RsrSave\<close> and \<open>WsrSave\<close> are on
  \<open>EXCSAVE1\<close>, \<open>RsrCause\<close> reads \<open>EXCCAUSE\<close>.\<close>

datatype xinstr =
    S32e nat nat u32 | L32e nat nat u32
  | RsrBase nat | RsrPs nat | WsrPs nat | RsrSave nat | WsrSave nat | RsrCause nat
  | Movi nat u32 | Extui nat nat nat nat | Xor nat nat nat | Slli nat nat nat
  | Rotw "4 word" | Rsync | Bbci nat nat vector | Beq nat nat vector | J vector | Rfwo | Rfwu

text \<open>What ends a run: a jump to another handler, the return to the interrupted program, or the end
  of the list.\<close>

datatype exit = Jumped vector | Returned | FellThrough

definition return_from_window :: "bool \<Rightarrow> wcore \<Rightarrow> wcore" where
  "return_from_window filled s =
     s\<lparr>window_start := (window_start s)(window_base s := filled), window_base := ps_owb (wps s), wps := wps s AND NOT PS_EXCM\<rparr>"

fun run :: "xinstr list \<Rightarrow> wcore \<Rightarrow> (exit \<times> wcore) option" where
  "run [] s = Some (FellThrough, s)"
| "run (S32e t b k # is) s = run is (s\<lparr>wmem := (wmem s)(areg b s - k \<mapsto> areg t s)\<rparr>)"
| "run (L32e t b k # is) s = do { v \<leftarrow> wmem s (areg b s - k); run is (set_areg t v s) }"
| "run (RsrBase t # is) s = run is (set_areg t (ucast (window_base s)) s)"
| "run (RsrPs t # is) s = run is (set_areg t (wps s) s)"
| "run (WsrPs t # is) s = run is (s\<lparr>wps := areg t s\<rparr>)"
| "run (RsrSave t # is) s = run is (set_areg t (wsave1 s) s)"
| "run (WsrSave t # is) s = run is (s\<lparr>wsave1 := areg t s\<rparr>)"
| "run (RsrCause t # is) s = run is (set_areg t (wcause s) s)"
| "run (Movi t v # is) s = run is (set_areg t v s)"
| "run (Extui t b sh n # is) s = run is (set_areg t (take_bit n (drop_bit sh (areg b s))) s)"
| "run (Xor t a b # is) s = run is (set_areg t (areg a s XOR areg b s) s)"
| "run (Slli t a n # is) s = run is (set_areg t (push_bit n (areg a s)) s)"
| "run (Rotw n # is) s = run is (rotate_window n s)"
| "run (Rsync # is) s = run is s"
| "run (Bbci a n v # is) s = (if bit (areg a s) n then run is s else Some (Jumped v, s))"
| "run (Beq a b v # is) s = (if areg a s = areg b s then Some (Jumped v, s) else run is s)"
| "run (J v # is) s = Some (Jumped v, s)"
| "run (Rfwo # is) s = Some (Returned, return_from_window False s)"
| "run (Rfwu # is) s = Some (Returned, return_from_window True s)"

text \<open>What the hardware does at a window exception: it turns to the window concerned and notes the
  base it came from.\<close>

definition window_exception :: "4 word \<Rightarrow> wcore \<Rightarrow> wcore" where
  "window_exception w s =
     s\<lparr>wps := wps s AND NOT PS_OWB_MASK OR push_bit PS_OWB_SHIFT (ucast (window_base s)) OR PS_EXCM, window_base := w\<rparr>"

section \<open>The handlers\<close>

definition WindowOverflow4 :: "xinstr list" where
  "WindowOverflow4 = [S32e 0 5 16, S32e 1 5 12, S32e 2 5 8, S32e 3 5 4, Rfwo]"

definition WindowUnderflow4_code :: "xinstr list" where
  "WindowUnderflow4_code = [L32e 0 5 16, L32e 1 5 12, L32e 2 5 8, L32e 3 5 4, Rfwu]"

definition xtensa_alloca_exception :: "xinstr list" where
  "xtensa_alloca_exception =
     [RsrBase 0, Rotw (- 1), RsrPs 2, Extui 3 2 8 4, Xor 3 3 4, RsrSave 4, Slli 3 3 8, Xor 2 2 3, WsrPs 2, Rsync,
      Bbci 4 31 WindowUnderflow4, Rotw (- 1), Bbci 8 30 WindowUnderflow8, Rotw (- 1), J WindowUnderflow12]"

definition WindowOverflow8 :: "xinstr list" where
  "WindowOverflow8 =
     [S32e 0 9 16, L32e 0 1 12, S32e 1 9 12, S32e 2 9 8, S32e 3 9 4,
      S32e 4 0 32, S32e 5 0 28, S32e 6 0 24, S32e 7 0 20, Rfwo]"

definition WindowUnderflow8_code :: "xinstr list" where
  "WindowUnderflow8_code =
     [L32e 0 9 16, L32e 1 9 12, L32e 2 9 8, L32e 7 1 12, L32e 3 9 4,
      L32e 4 7 32, L32e 5 7 28, L32e 6 7 24, L32e 7 7 20, Rfwu]"

definition WindowOverflow12 :: "xinstr list" where
  "WindowOverflow12 =
     [S32e 0 13 16, L32e 0 1 12, S32e 1 13 12, S32e 2 13 8, S32e 3 13 4,
      S32e 4 0 48, S32e 5 0 44, S32e 6 0 40, S32e 7 0 36, S32e 8 0 32, S32e 9 0 28, S32e 10 0 24, S32e 11 0 20, Rfwo]"

definition WindowUnderflow12_code :: "xinstr list" where
  "WindowUnderflow12_code =
     [L32e 0 13 16, L32e 1 13 12, L32e 2 13 8, L32e 11 1 12, L32e 3 13 4,
      L32e 4 11 48, L32e 5 11 44, L32e 6 11 40, L32e 7 11 36, L32e 8 11 32, L32e 9 11 28, L32e 10 11 24, L32e 11 11 20, Rfwu]"

text \<open>The way to the Alloca handler: the kernel vector parks \<open>a0\<close>, the exception handler tests the cause.\<close>

definition kernel_vector_code :: "xinstr list" where
  "kernel_vector_code = [WsrSave 0, RsrCause 2, Movi 3 EXCCAUSE_ALLOCA, Beq 2 3 AllocaException]"

fun code_at :: "vector \<Rightarrow> xinstr list" where
  "code_at WindowUnderflow4 = WindowUnderflow4_code"
| "code_at WindowUnderflow8 = WindowUnderflow8_code"
| "code_at WindowUnderflow12 = WindowUnderflow12_code"
| "code_at AllocaException = xtensa_alloca_exception"

text \<open>A run that follows the jumps, of which there are at most two.\<close>

fun run_jumps :: "nat \<Rightarrow> xinstr list \<Rightarrow> wcore \<Rightarrow> wcore option" where
  "run_jumps n is s = (case run is s of
     Some (Returned, s) \<Rightarrow> Some s
   | Some (Jumped v, s) \<Rightarrow> (case n of 0 \<Rightarrow> None | Suc n \<Rightarrow> run_jumps n (code_at v) s)
   | _ \<Rightarrow> None)"

declare run_jumps.simps [simp del]

text \<open>The handlers for a frame of \<open>n\<close> windows, which is what \<^verbatim>\<open>call4\<close>, \<^verbatim>\<open>call8\<close> and \<^verbatim>\<open>call12\<close> leave
  to their caller.\<close>

definition overflow_code :: "nat \<Rightarrow> xinstr list" where
  "overflow_code n = (if n = 1 then WindowOverflow4 else if n = 2 then WindowOverflow8 else WindowOverflow12)"

definition underflow_code :: "nat \<Rightarrow> xinstr list" where
  "underflow_code n = (if n = 1 then WindowUnderflow4_code else if n = 2 then WindowUnderflow8_code else WindowUnderflow12_code)"

section \<open>Registers across windows\<close>

lemma reg_of_base: "(4 * ucast (w + v) :: 6 word) = 4 * ucast w + 4 * ucast v" for w v :: "4 word"
proof -
  have "unat (4 * ucast (w + v) :: 6 word) = 4 * ((unat w + unat v) mod 16) mod 64"
    by (simp add: unat_word_ariths unat_ucast_up)
  also have "4 * ((unat w + unat v) mod 16) mod 64 = 4 * (unat w + unat v) mod 64" by (simp add: mult_mod_right)
  also have "\<dots> = (4 * unat w mod 64 + 4 * unat v mod 64) mod 64" by (simp add: mod_add_eq distrib_left)
  also have "\<dots> = unat (4 * ucast w + 4 * ucast v :: 6 word)" by (simp add: unat_word_ariths unat_ucast_up)
  finally show ?thesis by (simp only: word_unat_eq_iff)
qed

text \<open>Windows overlap: the registers from the fourth on are those of the next window.\<close>

lemma reg_of_minus: "reg_of (w - 1) n = reg_of w n - 4" "reg_of (w - 2) n = reg_of w n - 8" "reg_of (w - 3) n = reg_of w n - 12"
proof -
  have "(4 * ucast (w - v) :: 6 word) = 4 * ucast w - 4 * ucast v" for v :: "4 word"
    using reg_of_base [of "w - v" v] by (simp add: eq_diff_eq)
  from this [of 1] this [of 2] this [of 3]
  show "reg_of (w - 1) n = reg_of w n - 4" "reg_of (w - 2) n = reg_of w n - 8" "reg_of (w - 3) n = reg_of w n - 12"
    by (simp_all add: reg_of_def)
qed

lemma ps_fields:
  "ps_owb (p AND NOT PS_OWB_MASK OR push_bit PS_OWB_SHIFT (ucast w) OR PS_EXCM) = w"
proof (rule bit_word_eqI)
  fix n assume "n < LENGTH(4)"
  then have "n = 0 \<or> n = 1 \<or> n = 2 \<or> n = 3" by auto
  then show "bit (ps_owb (p AND NOT PS_OWB_MASK OR push_bit PS_OWB_SHIFT (ucast w) OR PS_EXCM)) n = bit w n"
    by (elim disjE) (simp_all add: ps_owb_def bit_simps PS_OWB_MASK_def PS_OWB_SHIFT_def PS_EXCM_def)
qed

text \<open>The exclusive-or of the Alloca handler gives \<open>PS.OWB\<close> the current base.\<close>

lemma owb_repair:
  "p XOR push_bit 8 (take_bit 4 (drop_bit 8 p) XOR ucast w) = p AND NOT PS_OWB_MASK OR push_bit PS_OWB_SHIFT (ucast w)"
  for p :: u32 and w :: "4 word"
proof (rule bit_word_eqI)
  fix n assume "n < LENGTH(32)"
  show "bit (p XOR push_bit 8 (take_bit 4 (drop_bit 8 p) XOR ucast w)) n = bit (p AND NOT PS_OWB_MASK OR push_bit PS_OWB_SHIFT (ucast w)) n"
  proof (cases "n \<in> {8..<12}")
    case True
    then have "n = 8 \<or> n = 9 \<or> n = 10 \<or> n = 11" by auto
    then show ?thesis by (elim disjE) (auto simp: bit_simps PS_OWB_MASK_def PS_OWB_SHIFT_def)
  next
    case False
    have "bit (PS_OWB_MASK) n \<longleftrightarrow> n \<in> {8..<12}"
    proof -
      have m: "PS_OWB_MASK = push_bit 8 (mask 4)" by (simp add: PS_OWB_MASK_def mask_eq_exp_minus_1)
      show ?thesis unfolding m using \<open>n < LENGTH(32)\<close> by (auto simp: bit_push_bit_iff bit_mask_iff)
    qed
    moreover have "\<not> bit (ucast w :: u32) (n - 8)" if "8 \<le> n" using False that bit_imp_le_length [of w "n - 8"] by (auto simp: bit_simps)
    ultimately show ?thesis using False \<open>n < LENGTH(32)\<close> by (auto simp: bit_simps PS_OWB_SHIFT_def)
  qed
qed

lemma reg_of_eq [simp]: "reg_of w i = reg_of w j \<longleftrightarrow> (of_nat i :: 6 word) = of_nat j"
  by (simp add: reg_of_def)

lemma areg_set [simp]: "areg i (set_areg j v s) = (if (of_nat i :: 6 word) = of_nat j then v else areg i s)"
  by (simp add: areg_def set_areg_def)

lemma set_areg_frame [simp]: "window_base (set_areg j v s) = window_base s" "window_start (set_areg j v s) = window_start s"
  "wmem (set_areg j v s) = wmem s" "wps (set_areg j v s) = wps s" "wsave1 (set_areg j v s) = wsave1 s" "wcause (set_areg j v s) = wcause s"
  by (simp_all add: set_areg_def)

lemma areg_mem [simp]: "areg i (s\<lparr>wmem := m\<rparr>) = areg i s" "areg i (s\<lparr>wps := p\<rparr>) = areg i s" "areg i (s\<lparr>wsave1 := p\<rparr>) = areg i s"
  by (simp_all add: areg_def)

section \<open>A frame in memory\<close>

text \<open>The registers of a frame of \<open>n\<close> windows: four words below the stack pointer \<open>b\<close> of the next
  frame, the others below the stack pointer of the frame before, whose copy lies 12 below its own.\<close>

definition base_area :: "u32 \<Rightarrow> ptr list" where
  "base_area b = [b - 16, b - 12, b - 8, b - 4]"

definition extra_area :: "nat \<Rightarrow> u32 \<Rightarrow> ptr list" where
  "extra_area n l = (if n = 1 then [] else if n = 2 then [l - 32, l - 28, l - 24, l - 20]
     else [l - 48, l - 44, l - 40, l - 36, l - 32, l - 28, l - 24, l - 20])"

fun load_all :: "(ptr \<rightharpoonup> u32) \<Rightarrow> ptr list \<Rightarrow> u32 list option" where
  "load_all m [] = Some []"
| "load_all m (a # as) = do { v \<leftarrow> m a; vs \<leftarrow> load_all m as; Some (v # vs) }"

definition frame_at :: "nat \<Rightarrow> u32 \<Rightarrow> (ptr \<rightharpoonup> u32) \<Rightarrow> u32 list option" where
  "frame_at n b m = do {
     vs \<leftarrow> load_all m (base_area b);
     if n = 1 then Some vs else do {
       l \<leftarrow> m (vs ! 1 - 12);
       ws \<leftarrow> load_all m (extra_area n l);
       Some (vs @ ws)
     }
   }"

fun fill :: "nat list \<Rightarrow> u32 list \<Rightarrow> wcore \<Rightarrow> wcore" where
  "fill (i # is) (v # vs) s = fill is vs (set_areg i v s)"
| "fill _ _ s = s"

definition lower_regs :: "nat \<Rightarrow> nat list" where
  "lower_regs n = (if n = 1 then [0, 1, 2, 3] else if n = 2 then [0, 1, 2, 3, 4, 5, 6, 7]
     else [0, 1, 2, 3, 4, 5, 6, 7, 8, 9, 10, 11])"

lemma set_swap: "i < j \<Longrightarrow> j < 64 \<Longrightarrow> set_areg i v (set_areg j u s) = set_areg j u (set_areg i v s)"
  by (auto simp: set_areg_def word_of_nat_eq_iff take_bit_nat_eq_self fun_upd_twist)

lemma set_same [simp]: "set_areg i v (set_areg i u s) = set_areg i v s"
  by (simp add: set_areg_def)

lemma option_bind_swap: "Option.bind x (\<lambda>v. Option.bind y (\<lambda>w. f v w)) = Option.bind y (\<lambda>w. Option.bind x (\<lambda>v. f v w))"
  by (cases x; cases y) simp_all

lemmas window_code = WindowUnderflow4_code_def WindowUnderflow8_code_def WindowUnderflow12_code_def
  WindowOverflow4_def WindowOverflow8_def WindowOverflow12_def

text \<open>The underflow handlers load the frame.\<close>

lemma underflow_run:
  assumes "n \<in> {1, 2, 3}"
  shows "run (underflow_code n) s = do {
    vs \<leftarrow> frame_at n (areg (4 * n + 1) s) (wmem s);
    Some (Returned, return_from_window True (fill (lower_regs n) vs s))
  }"
proof -
  have "n = 1 \<or> n = 2 \<or> n = 3" using assms by auto
  then show ?thesis
    by (elim disjE) (simp_all add: underflow_code_def window_code frame_at_def base_area_def extra_area_def lower_regs_def set_swap [of _ 7] set_swap [of _ 11]
      option_bind_swap [of "wmem s (areg 9 s - 4)"] option_bind_swap [of "wmem s (areg 13 s - 4)"])
qed

lemma set_comm: "i \<noteq> j \<Longrightarrow> i < 64 \<Longrightarrow> j < 64 \<Longrightarrow> set_areg i v (set_areg j u s) = set_areg j u (set_areg i v s)"
  using set_swap [of i j] set_swap [of j i] by (cases "i < j") auto

text \<open>What the registers of the frame held before does not matter.\<close>

lemma fill_forget:
  "i \<in> set is \<Longrightarrow> distinct is \<Longrightarrow> \<forall>j\<in>set is. j < 64 \<Longrightarrow> length vs = length is \<Longrightarrow> fill is vs (set_areg i u s) = fill is vs s"
proof (induction "is" arbitrary: vs s)
  case (Cons j js)
  then obtain v ws where vs: "vs = v # ws" by (cases vs) auto
  show ?case
  proof (cases "i = j")
    case True
    then show ?thesis by (simp add: vs)
  next
    case False
    then have "fill js ws (set_areg i u (set_areg j v s)) = fill js ws (set_areg j v s)" using Cons vs by simp
    moreover have "set_areg j v (set_areg i u s) = set_areg i u (set_areg j v s)" using False Cons.prems by (intro set_comm) auto
    ultimately show ?thesis by (simp add: vs)
  qed
qed simp

lemma load_all_length: "load_all m as = Some vs \<Longrightarrow> length vs = length as"
  by (induction as arbitrary: vs) (auto split: bind_splits)

lemma frame_at_length: "frame_at n b m = Some vs \<Longrightarrow> n \<in> {1, 2, 3} \<Longrightarrow> length vs = length (lower_regs n)"
  by (auto simp: frame_at_def base_area_def extra_area_def lower_regs_def dest!: load_all_length split: bind_splits if_splits)

section \<open>The Alloca exception\<close>

lemma set_areg_ps [simp]: "(set_areg n v s)\<lparr>wps := p\<rparr> = set_areg n v (s\<lparr>wps := p\<rparr>)"
  by (simp add: set_areg_def)

lemma rotate_simps [simp]:
  "rotate_window v (s\<lparr>wps := p\<rparr>) = (rotate_window v s)\<lparr>wps := p\<rparr>"
  "rotate_window v (rotate_window w s) = rotate_window (v + w) s"
  "wmem (rotate_window v s) = wmem s" "wps (rotate_window v s) = wps s" "wsave1 (rotate_window v s) = wsave1 s"
  "window_base (rotate_window v s) = window_base s + v" "window_start (rotate_window v s) = window_start s"
  by (simp_all add: rotate_window_def add_ac)

lemma rotate_set:
  "rotate_window (- 1) (set_areg n v s) = set_areg (n + 4) v (rotate_window (- 1) s)"
  "rotate_window (- 2) (set_areg n v s) = set_areg (n + 8) v (rotate_window (- 2) s)"
  "rotate_window (- 3) (set_areg n v s) = set_areg (n + 12) v (rotate_window (- 3) s)"
  by (simp_all add: rotate_window_def set_areg_def reg_of_minus) (simp_all add: reg_of_def)

text \<open>How many windows the caller's frame has: the top bits of the return address in \<open>a0\<close>.\<close>

definition call_windows :: "u32 \<Rightarrow> nat" where
  "call_windows a0 = (if \<not> bit a0 31 then 1 else if \<not> bit a0 30 then 2 else 3)"

definition refill :: "nat \<Rightarrow> wcore \<Rightarrow> wcore option" where
  "refill n s = (case run (underflow_code n) (window_exception (window_base s - of_nat n) s) of Some (Returned, s) \<Rightarrow> Some s | _ \<Rightarrow> None)"

lemma callee_sp_kept: "n \<in> {1, 2, 3} \<Longrightarrow> i \<in> set (lower_regs n) \<Longrightarrow> areg (4 * n + 1) (set_areg i u s) = areg (4 * n + 1) s"
  by (elim insertE emptyE; hypsubst) (auto simp: lower_regs_def)

lemma run_jumps_jump: "run is s = Some (Jumped v, s') \<Longrightarrow> run_jumps (Suc n) is s = run_jumps n (code_at v) s'"
  by (subst run_jumps.simps) simp

lemma run_jumps_0: "run_jumps 0 is s = (case run is s of Some (Returned, s) \<Rightarrow> Some s | _ \<Rightarrow> None)"
  by (subst run_jumps.simps) (simp split: option.split exit.split)

text \<open>In a handler \<open>EXCM\<close> is set already.\<close>

lemma window_exception_again:
  assumes "wps s OR PS_EXCM = wps s"
  shows "window_exception (window_base s - w) s = (rotate_window (- w) s)
      \<lparr>wps := wps s AND NOT PS_OWB_MASK OR push_bit PS_OWB_SHIFT (ucast (window_base s))\<rparr>"
proof -
  have excm: "bit (wps s) n" "\<not> bit PS_OWB_MASK n" if "bit PS_EXCM n" for n
  proof -
    have "bit (wps s OR PS_EXCM) n" using that by (simp add: bit_simps)
    then show "bit (wps s) n" using assms by simp
    have "PS_EXCM AND PS_OWB_MASK = 0" by (simp add: PS_EXCM_def PS_OWB_MASK_def)
    then have "\<not> bit (PS_EXCM AND PS_OWB_MASK) n" by simp
    then show "\<not> bit PS_OWB_MASK n" using that by (simp add: bit_simps)
  qed
  then have "wps s AND NOT PS_OWB_MASK OR push_bit PS_OWB_SHIFT (ucast (window_base s)) OR PS_EXCM
    = wps s AND NOT PS_OWB_MASK OR push_bit PS_OWB_SHIFT (ucast (window_base s))"
    by (intro bit_word_eqI) (auto simp: bit_or_iff bit_and_iff bit_not_iff)
  then show ?thesis by (simp add: window_exception_def rotate_window_def)
qed

lemma alloca_run:
  assumes "wps s OR PS_EXCM = wps s"
  shows "run_jumps 1 xtensa_alloca_exception s = refill (call_windows (wsave1 s)) (set_areg 0 (wsave1 s) s)"
proof -
  let ?n = "call_windows (wsave1 s)" and ?a = "wsave1 s"
    and ?p = "wps s AND NOT PS_OWB_MASK OR push_bit PS_OWB_SHIFT (ucast (window_base s))"
  let ?t = "(rotate_window (- of_nat ?n) (set_areg 0 ?a s))\<lparr>wps := ?p\<rparr>"
  have n: "?n \<in> {1, 2, 3}" by (simp add: call_windows_def)
  let ?x = "push_bit 8 (take_bit 4 (drop_bit 8 (wps s))) XOR push_bit 8 (ucast (window_base s))"
  have wb: "wps s XOR ?x = ?p" using owb_repair [of "wps s" "window_base s"] by (simp add: push_bit_xor)
  note step = call_windows_def xtensa_alloca_exception_def underflow_code_def lower_regs_def rotate_set wb [simplified] wb
    set_swap [of _ 4] set_swap [of _ 8] set_swap [of _ 12] set_swap [of 2 3] set_swap [of 6 7] set_swap [of 10 11]
  have "\<exists>i j v. run xtensa_alloca_exception s = Some (Jumped v, fill [i, j] [?p, ?x] ?t) \<and> code_at v = underflow_code ?n
      \<and> i \<in> set (lower_regs ?n) \<and> j \<in> set (lower_regs ?n)"
  proof (cases "bit ?a 31")
    case False
    then show ?thesis by - (rule exI [of _ 2], rule exI [of _ 3], rule exI [of _ WindowUnderflow4], simp add: step)
  next
    case b: True
    show ?thesis
    proof (cases "bit ?a 30")
      case True
      with b show ?thesis by - (rule exI [of _ 10], rule exI [of _ 11], rule exI [of _ WindowUnderflow12], simp add: step)
    next
      case False
      with b show ?thesis by - (rule exI [of _ 6], rule exI [of _ 7], rule exI [of _ WindowUnderflow8], simp add: step)
    qed
  qed
  then obtain i j v where r: "run xtensa_alloca_exception s = Some (Jumped v, fill [i, j] [?p, ?x] ?t)"
    "code_at v = underflow_code ?n" "i \<in> set (lower_regs ?n)" "j \<in> set (lower_regs ?n)" by blast
  have l: "distinct (lower_regs ?n)" "\<forall>j\<in>set (lower_regs ?n). j < 64" by (simp_all add: lower_regs_def)
  have t: "areg (4 * ?n + 1) (fill [i, j] [?p, ?x] ?t) = areg (4 * ?n + 1) ?t" by (simp only: fill.simps callee_sp_kept [OF n r(3)] callee_sp_kept [OF n r(4)])
  have rf: "run (code_at v) (fill [i, j] [?p, ?x] ?t) = run (underflow_code ?n) ?t"
    unfolding r(2) underflow_run [OF n] t
    using frame_at_length [OF _ n] by (auto simp: fill_forget [OF r(3) l] fill_forget [OF r(4) l] split: bind_split)
  have "run_jumps 1 xtensa_alloca_exception s = run_jumps 0 (code_at v) (fill [i, j] [?p, ?x] ?t)"
    using run_jumps_jump [OF r(1), of 0] by simp
  also have "\<dots> = refill ?n (set_areg 0 ?a s)"
  proof -
    have "window_exception (window_base s - of_nat ?n) (set_areg 0 ?a s) = ?t"
      using window_exception_again [of "set_areg 0 ?a s" "of_nat ?n"] assms by simp
    then show ?thesis by (simp only: run_jumps_0 rf refill_def set_areg_frame)
  qed
  finally show ?thesis .
qed

text \<open>From the kernel vector on: a refill, of a state where the test of the cause has overwritten \<open>a2\<close>
  and \<open>a3\<close>.\<close>

lemma alloca_path:
  assumes "wps s OR PS_EXCM = wps s" and "wcause s = EXCCAUSE_ALLOCA"
  shows "run_jumps 2 kernel_vector_code s
    = refill (call_windows (areg 0 s)) ((set_areg 2 EXCCAUSE_ALLOCA (set_areg 3 EXCCAUSE_ALLOCA s))\<lparr>wsave1 := areg 0 s\<rparr>)"
proof -
  let ?t = "(set_areg 2 EXCCAUSE_ALLOCA (set_areg 3 EXCCAUSE_ALLOCA s))\<lparr>wsave1 := areg 0 s\<rparr>"
  have id: "set_areg i (areg i x) x = x" for i x by (simp add: set_areg_def areg_def)
  have "run kernel_vector_code s = Some (Jumped AllocaException, ?t)"
    using assms(2) set_comm [of 2 3] by (simp add: kernel_vector_code_def) (simp add: set_areg_def)
  from run_jumps_jump [OF this, of 1] have "run_jumps 2 kernel_vector_code s = run_jumps 1 xtensa_alloca_exception ?t"
    by (simp add: numeral_2_eq_2)
  moreover have "set_areg 0 (areg 0 s) ?t = ?t" using id [of 0 ?t] by simp
  ultimately show ?thesis using alloca_run [of ?t] assms(1) by simp
qed

section \<open>Spilling a frame and loading it again\<close>

fun store_all :: "ptr list \<Rightarrow> u32 list \<Rightarrow> (ptr \<rightharpoonup> u32) \<Rightarrow> (ptr \<rightharpoonup> u32)" where
  "store_all (a # as) (v # vs) m = store_all as vs (m(a \<mapsto> v))"
| "store_all _ _ m = m"

text \<open>The stack of a frame of \<open>n\<close> windows, by the calling convention: the next frame below this one,
  this one below the one before, each with its save area.\<close>

definition stacked :: "nat \<Rightarrow> wcore \<Rightarrow> bool" where
  "stacked n s =
     (16 \<le> unat (areg (4 * n + 1) s) \<and>
      (n = 1 \<or> (case wmem s (areg 1 s - 12) of None \<Rightarrow> False
         | Some l \<Rightarrow> unat (areg (4 * n + 1) s) + 16 \<le> unat (areg 1 s) \<and> unat (areg 1 s) + 16 * n \<le> unat l)))"

definition link_of :: "nat \<Rightarrow> wcore \<Rightarrow> u32" where
  "link_of n s = (if n = 1 then 0 else the (wmem s (areg 1 s - 12)))"

definition saved_at :: "nat \<Rightarrow> wcore \<Rightarrow> ptr list" where
  "saved_at n s = base_area (areg (4 * n + 1) s) @ extra_area n (link_of n s)"

lemma unat_below: "unat k \<le> unat a \<Longrightarrow> unat (a - k) = unat a - unat k" for a k :: u32
  by (simp add: unat_sub_if')

lemma link_of_Some:
  assumes "stacked n s" and "n \<noteq> 1"
  shows "wmem s (areg 1 s - 12) = Some (link_of n s)"
    and "unat (areg (4 * n + 1) s) + 16 \<le> unat (areg 1 s)" "unat (areg 1 s) + 16 * n \<le> unat (link_of n s)"
  using assms by (auto simp: stacked_def link_of_def split: option.splits)

lemma ascending_distinct: "sorted_wrt (<) (map unat as) \<Longrightarrow> distinct as"
  by (metis distinct_map strict_sorted_iff)

lemma less_chain: "sorted_wrt (<) (x # y # zs) \<longleftrightarrow> x < y \<and> sorted_wrt (<) (y # zs)" for x :: nat
  by (rule sorted_wrt2) (rule transp_on_less)

lemma stacked_distinct:
  assumes n: "n \<in> {1, 2, 3}" and st: "stacked n s"
  shows "distinct (saved_at n s)" and "n \<noteq> 1 \<Longrightarrow> areg 1 s - 12 \<notin> set (saved_at n s)"
proof -
  let ?c = "areg (4 * n + 1) s" and ?l = "link_of n s" and ?p = "areg 1 s"
  have "16 \<le> unat ?c" using st by (simp add: stacked_def)
  then obtain c where c: "unat ?c = c + 16" by (metis add.commute le_Suc_ex)
  then have cs: "unat (?c - 16) = c" "unat (?c - 12) = c + 4" "unat (?c - 8) = c + 8" "unat (?c - 4) = c + 12"
    by (simp_all add: unat_below)
  have b: "distinct (base_area ?c)"
    using cs by (intro ascending_distinct) (simp add: base_area_def less_chain sorted_wrt1 del: sorted_wrt.simps(2))
  have d: "distinct (base_area ?c @ (?p - 12) # extra_area n ?l)" if "n \<noteq> 1"
  proof -
    note lk = link_of_Some(2,3) [OF st that]
    from lk(1) obtain p where p: "unat ?p = c + 32 + p" unfolding c using le_Suc_ex [of "c + 32" "unat ?p"] by auto
    have ps: "unat (?p - 12) = c + 20 + p" using p by (simp add: unat_below)
    have "n = 2 \<or> n = 3" using n that by auto
    then show ?thesis
    proof
      assume n2: "n = 2"
      then have "c + 64 + p \<le> unat ?l" using lk(2) p by simp
      then obtain l where "unat ?l = c + 64 + p + l" by (metis le_Suc_ex)
      then have "unat (?l - 32) = c + 32 + p + l" "unat (?l - 28) = c + 36 + p + l" "unat (?l - 24) = c + 40 + p + l"
        "unat (?l - 20) = c + 44 + p + l" by (simp_all add: unat_below)
      with cs ps n2 show ?thesis
        by (intro ascending_distinct) (simp add: base_area_def extra_area_def less_chain sorted_wrt1 del: sorted_wrt.simps(2))
    next
      assume n3: "n = 3"
      then have "c + 80 + p \<le> unat ?l" using lk(2) p by simp
      then obtain l where "unat ?l = c + 80 + p + l" by (metis le_Suc_ex)
      then have "unat (?l - 48) = c + 32 + p + l" "unat (?l - 44) = c + 36 + p + l" "unat (?l - 40) = c + 40 + p + l"
        "unat (?l - 36) = c + 44 + p + l" "unat (?l - 32) = c + 48 + p + l" "unat (?l - 28) = c + 52 + p + l"
        "unat (?l - 24) = c + 56 + p + l" "unat (?l - 20) = c + 60 + p + l" by (simp_all add: unat_below)
      with cs ps n3 show ?thesis
        by (intro ascending_distinct) (simp add: base_area_def extra_area_def less_chain sorted_wrt1 del: sorted_wrt.simps(2))
    qed
  qed
  then show "n \<noteq> 1 \<Longrightarrow> areg 1 s - 12 \<notin> set (saved_at n s)" by (auto simp: saved_at_def)
  show "distinct (saved_at n s)" using b d by (cases "n = 1") (auto simp: saved_at_def extra_area_def)
qed

lemma load_all_other: "a \<notin> set as \<Longrightarrow> load_all (m(a \<mapsto> v)) as = load_all m as"
  by (induction as) auto

lemma store_all_other: "a \<notin> set as \<Longrightarrow> store_all as vs m a = m a"
  by (induction as vs m rule: store_all.induct) auto

lemma load_store_all: "distinct as \<Longrightarrow> length vs = length as \<Longrightarrow> load_all (store_all as vs m) as = Some vs"
proof (induction as vs m rule: store_all.induct)
  case (1 a as v vs m)
  then have "load_all (store_all as vs (m(a \<mapsto> v))) as = Some vs" by (simp add: fun_upd_def)
  then show ?case using 1 by (simp add: store_all_other)
qed auto

lemma option_bind_assoc: "Option.bind (Option.bind x f) g = Option.bind x (\<lambda>v. Option.bind (f v) g)"
  by (cases x) simp_all

lemma load_all_append: "load_all m (as @ bs) = do { vs \<leftarrow> load_all m as; ws \<leftarrow> load_all m bs; Some (vs @ ws) }"
  by (induction as) (simp_all add: option_bind_assoc)

lemma load_all_cong: "(\<And>a. a \<in> set as \<Longrightarrow> m' a = m a) \<Longrightarrow> load_all m' as = load_all m as"
  by (induction as) simp_all

text \<open>The overflow handlers store the frame.\<close>

lemma overflow_run:
  assumes n: "n \<in> {1, 2, 3}" and st: "stacked n s"
  shows "run (overflow_code n) s = Some (Returned, return_from_window False
    ((if n = 1 then s else set_areg 0 (link_of n s) s)
      \<lparr>wmem := store_all (saved_at n s) (map (\<lambda>i. areg i s) (lower_regs n)) (wmem s)\<rparr>))"
proof -
  have d: "areg 1 s - 12 \<noteq> areg (4 * n + 1) s - 16" "wmem s (areg 1 s - 12) = Some (link_of n s)" if "n \<noteq> 1"
    using stacked_distinct(2) [OF n st that] link_of_Some(1) [OF st that] by (auto simp: saved_at_def base_area_def)
  have "n = 1 \<or> n = 2 \<or> n = 3" using n by auto
  then show ?thesis
  proof (elim disjE)
    assume n1: "n = 1"
    show ?thesis unfolding n1 by (simp add: overflow_code_def window_code saved_at_def base_area_def extra_area_def lower_regs_def)
  next
    assume n2: "n = 2"
    show ?thesis using d unfolding n2
      by (simp add: overflow_code_def window_code saved_at_def base_area_def extra_area_def lower_regs_def)
        (simp add: set_areg_def)
  next
    assume n3: "n = 3"
    show ?thesis using d unfolding n3
      by (simp add: overflow_code_def window_code saved_at_def base_area_def extra_area_def lower_regs_def)
        (simp add: set_areg_def)
  qed
qed

text \<open>What a frame reads back as, in a memory that has kept its words and the link.\<close>

lemma frame_saved:
  assumes n: "n \<in> {1, 2, 3}" and st: "stacked n s"
    and m: "\<And>a. a \<in> set (saved_at n s) \<or> a = areg 1 s - 12 \<Longrightarrow>
      m a = store_all (saved_at n s) (map (\<lambda>i. areg i s) (lower_regs n)) (wmem s) a"
  shows "frame_at n (areg (4 * n + 1) s) m = Some (map (\<lambda>i. areg i s) (lower_regs n))"
proof -
  let ?vs = "map (\<lambda>i. areg i s) (lower_regs n)" and ?c = "areg (4 * n + 1) s"
  have l: "load_all m (saved_at n s) = Some ?vs"
    using load_all_cong [of "saved_at n s" m] m load_store_all [OF stacked_distinct(1) [OF n st], of ?vs "wmem s"] n
    by (auto simp: lower_regs_def saved_at_def base_area_def extra_area_def)
  show ?thesis
  proof (cases "n = 1")
    case True
    with l show ?thesis by (simp add: frame_at_def saved_at_def extra_area_def)
  next
    case False
    from l obtain vs ws where v: "load_all m (base_area ?c) = Some vs" "load_all m (extra_area n (link_of n s)) = Some ws" "vs @ ws = ?vs"
      by (auto simp: saved_at_def load_all_append split: bind_splits)
    have "length vs = 4" using load_all_length [OF v(1)] by (simp add: base_area_def)
    then have "vs ! 1 = ?vs ! 1" unfolding v(3) [symmetric] by (simp add: nth_append)
    also have "\<dots> = areg 1 s" by (simp add: lower_regs_def)
    finally have "m (vs ! 1 - 12) = Some (link_of n s)"
      using m [of "areg 1 s - 12"] store_all_other [OF stacked_distinct(2) [OF n st False]] link_of_Some(1) [OF st False] by simp
    with v False show ?thesis by (simp add: frame_at_def)
  qed
qed

text \<open>The registers of a frame of \<open>n\<close> windows from the window \<open>t\<close> on.\<close>

definition frame_regs :: "nat \<Rightarrow> 4 word \<Rightarrow> 6 word set" where
  "frame_regs n t = reg_of t ` set (lower_regs n)"

lemma fill_frame: "window_base (fill is vs s) = window_base s" "window_start (fill is vs s) = window_start s"
  "wmem (fill is vs s) = wmem s" "wps (fill is vs s) = wps s"
  by (induction "is" vs s rule: fill.induct) simp_all

lemma fill_other: "r \<notin> reg_of (window_base s) ` set is \<Longrightarrow> phys (fill is vs s) r = phys s r"
  by (induction "is" vs s rule: fill.induct) (simp_all add: set_areg_def)

lemma fill_map:
  assumes "distinct is" and "\<forall>j\<in>set is. j < 64" and "i \<in> set is"
  shows "areg i (fill is (map g is) s) = g i"
  using assms
proof (induction "is" arbitrary: s)
  case (Cons j js)
  show ?case
  proof (cases "i \<in> set js")
    case True
    with Cons show ?thesis by simp
  next
    case False
    then have i: "i = j" using Cons.prems by simp
    have "reg_of (window_base s) i \<notin> reg_of (window_base s) ` set js"
      using Cons.prems i by (auto simp: word_of_nat_eq_iff take_bit_nat_eq_self)
    from fill_other [of _ "set_areg j (g j) s", simplified, OF this]
    show ?thesis using i by (simp add: areg_def fill_frame) (simp add: set_areg_def)
  qed
qed simp

lemma lower_regs_ok: "distinct (lower_regs n)" "\<forall>j\<in>set (lower_regs n). j < 64"
  by (simp_all add: lower_regs_def)

lemma reg_of_callee: "n \<in> {1, 2, 3} \<Longrightarrow> reg_of (w - of_nat n) (4 * n + 1) = reg_of w 1"
  by (elim insertE emptyE; hypsubst) (simp_all add: reg_of_minus, simp_all add: reg_of_def)

lemma return_fields:
  "window_base (return_from_window v s) = ps_owb (wps s)" "window_start (return_from_window v s) = (window_start s)(window_base s := v)"
  "phys (return_from_window v s) = phys s" "wmem (return_from_window v s) = wmem s"
  by (simp_all add: return_from_window_def)

lemma exception_fields:
  "window_base (window_exception t s) = t" "window_start (window_exception t s) = window_start s"
  "phys (window_exception t s) = phys s" "wmem (window_exception t s) = wmem s"
  "ps_owb (wps (window_exception t s)) = window_base s"
  by (simp_all add: window_exception_def ps_fields)

text \<open>A refill puts the frame that memory holds below the running one.\<close>

lemma refill_frame:
  assumes n: "n \<in> {1, 2, 3}" and f: "frame_at n (areg 1 s) (wmem s) = Some (map g (lower_regs n))"
  shows "\<exists>s'. refill n s = Some s' \<and> (\<forall>i\<in>set (lower_regs n). phys s' (reg_of (window_base s - of_nat n) i) = g i)
    \<and> (\<forall>r. r \<notin> frame_regs n (window_base s - of_nat n) \<longrightarrow> phys s' r = phys s r) \<and> window_base s' = window_base s
    \<and> window_start s' = (window_start s)(window_base s - of_nat n := True) \<and> wmem s' = wmem s"
proof -
  let ?t = "window_base s - of_nat n"
  let ?e = "window_exception ?t s" and ?vs = "map g (lower_regs n)"
  let ?s' = "return_from_window True (fill (lower_regs n) ?vs ?e)"
  have "areg (4 * n + 1) ?e = areg 1 s" using reg_of_callee [OF n, of "window_base s"] by (simp add: areg_def exception_fields)
  then have "refill n s = Some ?s'" unfolding refill_def underflow_run [OF n] using f by (simp add: exception_fields)
  moreover have "phys ?s' (reg_of ?t i) = g i" if "i \<in> set (lower_regs n)" for i
    using fill_map [OF lower_regs_ok that, of g ?e] by (simp add: areg_def return_fields fill_frame exception_fields)
  moreover have "phys ?s' r = phys s r" if "r \<notin> frame_regs n ?t" for r
    using fill_other [of r ?e "lower_regs n" ?vs] that by (simp add: return_fields exception_fields frame_regs_def)
  ultimately show ?thesis by (intro exI [of _ ?s']) (simp add: return_fields fill_frame exception_fields)
qed

lemma lower_regs_upt: "n \<in> {1, 2, 3} \<Longrightarrow> lower_regs n = [0..<4 * n]"
  by (elim insertE emptyE; hypsubst) (simp_all add: lower_regs_def upt_rec)

text \<open>The frame below shares no register with the sixteen of the running window.\<close>

lemma frame_below:
  assumes "n \<in> {1, 2, 3}" and "i < 16"
  shows "reg_of w i \<notin> frame_regs n (w - of_nat n)"
proof
  assume "reg_of w i \<in> frame_regs n (w - of_nat n)"
  then obtain j where j: "j < 4 * n" "reg_of w i = reg_of (w - of_nat n) j"
    using assms(1) by (auto simp: frame_regs_def lower_regs_upt)
  have "reg_of (w - of_nat n) j + of_nat (4 * n) = reg_of w j"
    using assms(1) by (elim insertE emptyE; hypsubst) (simp_all add: reg_of_minus)
  then have "4 * ucast (w - of_nat n) + of_nat (4 * n) = (4 * ucast w :: 6 word)" by (simp add: reg_of_def)
  with j(2) have "4 * ucast (w - of_nat n) + (of_nat (i + 4 * n) :: 6 word) = 4 * ucast (w - of_nat n) + of_nat j"
    by (simp only: reg_of_def of_nat_add add_ac)
  then have "(of_nat (i + 4 * n) :: 6 word) = of_nat j" by (rule add_left_imp_eq)
  then have "(i + 4 * n) mod 64 = j mod 64" by (simp only: word_of_nat_eq_iff) (simp add: take_bit_eq_mod)
  moreover have "i + 4 * n < 64" "j < 64" using assms j(1) by auto
  ultimately show False using j(1) by simp
qed

end
