(* ===== verification/RkApp.thy ===== *)
theory RkApp
  imports RkXtensa RkCortex
begin

text \<open>
  \<^verbatim>\<open>src/app_support.rs\<close>: the log buffer that survives a crash, the sink of the application, starting
  and ending \<^verbatim>\<open>main\<close>, and the reports of faults and panics.

  Text is the list of its bytes.  A sink is a function of the application on a state of its own.
  A byte is logged in two steps, since only the first is a critical section: it reserves a place
  (\<open>push_reserve\<close>), then stores (\<open>push_store\<close>).  \<open>None\<close> is an index that overflows: a panic where
  overflow is checked, a store outside the buffer where it is not.
\<close>

unbundle bit_operations_syntax

section \<open>The log\<close>

definition LOG_CAP :: usize where
  "LOG_CAP = 512"

record 'w app_log =
  log_sink :: "(u8 list \<Rightarrow> 'w \<Rightarrow> 'w) option"
  log_buf :: "u8 list"
  log_len :: usize
  log_world :: 'w

definition log_boot :: "'w \<Rightarrow> 'w app_log" where
  "log_boot w = \<lparr>log_sink = None, log_buf = replicate (unat LOG_CAP) 0, log_len = 0, log_world = w\<rparr>"

definition install_log :: "(u8 list \<Rightarrow> 'w \<Rightarrow> 'w) \<Rightarrow> 'w app_log \<Rightarrow> 'w app_log" where
  "install_log f s = s\<lparr>log_sink := Some f\<rparr>"

definition log_with :: "(u8 list \<Rightarrow> 'w \<Rightarrow> 'w) \<Rightarrow> 'w app_log \<Rightarrow> 'w app_log" where
  "log_with f s = install_log f s"

definition push_reserve :: "'w app_log \<Rightarrow> usize \<times> 'w app_log" where
  "push_reserve s = (let i = log_len s in (i, s\<lparr>log_len := i + 1\<rparr>))"

definition push_store :: "usize \<Rightarrow> u8 \<Rightarrow> 'w app_log \<Rightarrow> 'w app_log option" where
  "push_store i b s =
     (if i = - 1 then None
      else if i + 1 < LOG_CAP then Some (s\<lparr>log_buf := (log_buf s)[unat i := b, unat (i + 1) := 0]\<rparr>)
      else Some s)"

definition log_push :: "u8 \<Rightarrow> 'w app_log \<Rightarrow> 'w app_log option" where
  "log_push b s = (let (i, s) = push_reserve s in push_store i b s)"

fun log_to_buffer :: "u8 list \<Rightarrow> 'w app_log \<Rightarrow> 'w app_log option" where
  "log_to_buffer [] s = Some s"
| "log_to_buffer (b # bs) s = do { s \<leftarrow> log_push b s; log_to_buffer bs s }"

definition log_fmt :: "u8 list \<Rightarrow> 'w app_log \<Rightarrow> 'w app_log option" where
  "log_fmt args s = do {
     s \<leftarrow> log_to_buffer args s;
     Some (case log_sink s of None \<Rightarrow> s | Some f \<Rightarrow> s\<lparr>log_world := f args (log_world s)\<rparr>)
   }"

definition log_bytes :: "'w app_log \<Rightarrow> u8 list" where
  "log_bytes s = (let n = min (log_len s) (LOG_CAP - 1) in take (unat n) (log_buf s))"

text \<open>What a debugger shows of the buffer: the bytes before the first NUL.\<close>

definition c_string :: "u8 list \<Rightarrow> u8 list" where
  "c_string bs = takeWhile (\<lambda>b. b \<noteq> 0) bs"

fun log_all :: "u8 list list \<Rightarrow> 'w app_log \<Rightarrow> 'w app_log option" where
  "log_all [] s = Some s"
| "log_all (m # ms) s = do { s \<leftarrow> log_fmt m s; log_all ms s }"

section \<open>Starting, ending and failing\<close>

text \<open>How a function of the application ends: it returns, it panics with a message, or the task
  has left the ring and another runs.\<close>

datatype 'a app_end = Normal 'a | Panicked "u8 list" | Exited

definition crlf :: "u8 list" where
  "crlf = [13, 10]"

definition app_init :: "port \<Rightarrow> u32 \<Rightarrow> slice \<Rightarrow> usize \<Rightarrow> kernel \<Rightarrow> ((config_error + unit) \<times> kernel) option" where
  "app_init P clock sl stack k = init_with P (set_stack_size (embedded sl clock) stack) k"

definition park_app :: "kernel \<Rightarrow> kernel" where
  "park_app k = shutdown k"

text \<open>\<open>dbg\<close> is the text of an error under \<^verbatim>\<open>{:?}\<close>.\<close>

definition configure :: "port \<Rightarrow> (config_error \<Rightarrow> u8 list) \<Rightarrow> u32 \<Rightarrow> slice \<Rightarrow> usize \<Rightarrow> 'w app_log \<times> kernel
    \<Rightarrow> (unit app_end \<times> 'w app_log \<times> kernel) option" where
  "configure P dbg clock sl stack s = do {
     (started, k) \<leftarrow> app_init P clock sl stack (snd s);
     (case started of
        Inr _ \<Rightarrow> Some (Normal (), fst s, k)
      | Inl e \<Rightarrow> do {
          l \<leftarrow> log_fmt (bytes_of ''rrkernel: configure failed: '' @ dbg e @ crlf) (fst s);
          Some (Panicked (bytes_of ''rrkernel: configure failed: '' @ dbg e), l, k)
        })
   }"

definition exit_main :: "kernel \<Rightarrow> (unit app_end \<times> kernel) option" where
  "exit_main k =
     (let me = k_current k in
      if me = null_ptr then Some (Panicked (bytes_of ''rrkernel: `configure(...)` was never called before `main` returned''), k)
      else do { k \<leftarrow> exit_task me k; Some (Exited, k) })"

text \<open>\<^verbatim>\<open>{:#010x}\<close>.\<close>

definition fmt_hex10 :: "u32 \<Rightarrow> u8 list" where
  "fmt_hex10 v = bytes_of ''0x'' @ map (\<lambda>i. hex_digit (ucast (drop_bit (4 * i) v AND 0xF))) [7, 6, 5, 4, 3, 2, 1, 0]"

definition hard_fault :: "u32 \<Rightarrow> 'w app_log \<times> kernel \<Rightarrow> ('w app_log \<times> kernel) option" where
  "hard_fault process_sp s = do {
     let (l, k) = s;
     let cfsr = reg_rd 0xE000ED28 k; let hfsr = reg_rd 0xE000ED2C k;
     let bfar = reg_rd 0xE000ED38 k; let mmfar = reg_rd 0xE000ED34 k;
     pc \<leftarrow> words k (process_sp + 24);
     l \<leftarrow> log_fmt (bytes_of ''!!! HardFault  CFSR '' @ fmt_hex10 cfsr @ bytes_of '' HFSR '' @ fmt_hex10 hfsr @ crlf) l;
     l \<leftarrow> log_fmt (bytes_of ''    BFAR '' @ fmt_hex10 bfar @ bytes_of '' MMFAR '' @ fmt_hex10 mmfar @
            bytes_of '' PSP '' @ fmt_hex10 process_sp @ bytes_of '' faulting PC '' @ fmt_hex10 pc @ crlf) l;
     Some (l, park_app k)
   }"

text \<open>The report of the A and R profiles.\<close>

definition ar_hard_fault :: "u32 \<Rightarrow> u32 \<Rightarrow> u32 \<Rightarrow> 'w app_log \<times> kernel \<Rightarrow> ('w app_log \<times> kernel) option" where
  "ar_hard_fault mode stk lr s = do {
     l \<leftarrow> log_fmt (bytes_of ''!!! fault (ARM A/R profile)  CPSR '' @ fmt_hex10 mode @ bytes_of '' SP '' @ fmt_hex10 stk @
            bytes_of '' LR '' @ fmt_hex10 lr @ crlf) (fst s);
     l \<leftarrow> log_fmt (bytes_of ''    no CFSR/HFSR on this profile (those are M-profile SCB registers); the A/R port reports through its own trap entry'' @ crlf) l;
     Some (l, park_app (snd s))
   }"

definition unexpected_exception :: "'w app_log \<times> kernel \<Rightarrow> ('w app_log \<times> kernel) option" where
  "unexpected_exception s = do {
     l \<leftarrow> log_fmt (bytes_of ''!!! unexpected exception: an unhandled vector fired'' @ crlf) (fst s);
     Some (l, park_app (snd s))
   }"

definition app_panic :: "u8 list \<Rightarrow> 'w app_log \<times> kernel \<Rightarrow> ('w app_log \<times> kernel) option" where
  "app_panic msg s = do {
     l \<leftarrow> log_fmt (bytes_of ''!!! panic: '' @ msg @ crlf) (fst s);
     Some (l, park_app (snd s))
   }"

section \<open>What the buffer holds\<close>

text \<open>The log after the bytes \<open>t\<close>: their number is counted, the first 511 are kept, and the rest is zero.\<close>

definition log_holds :: "u8 list \<Rightarrow> 'w app_log \<Rightarrow> bool" where
  "log_holds t s = (log_len s = of_nat (length t) \<and> length t < 2 ^ 32 \<and>
     log_buf s = take 511 t @ replicate (512 - length (take 511 t)) 0)"

lemma log_holds_boot: "log_holds [] (log_boot w)"
  by (simp add: log_holds_def log_boot_def LOG_CAP_def)

lemma log_holds_cong: "log_len s' = log_len s \<Longrightarrow> log_buf s' = log_buf s \<Longrightarrow> log_holds t s' = log_holds t s"
  by (simp add: log_holds_def)

lemma unat_len: "log_holds t s \<Longrightarrow> unat (log_len s) = length t"
  by (simp add: log_holds_def unat_of_nat)

text \<open>A store at a place that was reserved.\<close>

lemma push_store_run:
  assumes "length t < 2 ^ 32 - 1"
  shows "push_store (of_nat (length t)) b s = Some (if length t < 511 then s\<lparr>log_buf := (log_buf s)[length t := b, length t + 1 := 0]\<rparr> else s)"
proof -
  let ?i = "of_nat (length t) :: usize"
  have i: "unat ?i = length t" "unat (?i + 1) = length t + 1"
    using assms by (simp_all add: unat_of_nat unat_word_ariths)
  have "?i \<noteq> - 1"
  proof
    assume "?i = - 1"
    then have "unat ?i = 2 ^ 32 - 1" using unat_max_word [where 'a = 32] by simp
    with i(1) assms show False by simp
  qed
  moreover have "?i + 1 < LOG_CAP \<longleftrightarrow> length t < 511" by (simp add: word_less_nat_alt i(2) LOG_CAP_def)
  ultimately show ?thesis using i by (simp add: push_store_def)
qed

lemma reserve_run: "log_holds t s \<Longrightarrow> push_reserve s = (of_nat (length t), s\<lparr>log_len := of_nat (length t + 1)\<rparr>)"
  by (simp add: push_reserve_def log_holds_def Let_def add.commute)

lemma buf_store:
  assumes "length t < 511"
  shows "(take 511 t @ replicate (512 - length (take 511 t)) 0)[length t := b, length t + 1 := 0]
    = take 511 (t @ [b]) @ replicate (512 - length (take 511 (t @ [b]))) 0"
proof -
  have "512 - length t = Suc (Suc (510 - length t))" "511 - length t = Suc (510 - length t)" using assms by simp_all
  then show ?thesis using assms by (simp add: list_update_append)
qed

lemma log_push_run:
  assumes "log_holds t s" and "length t < 2 ^ 32 - 1"
  shows "\<exists>s'. log_push b s = Some s' \<and> log_holds (t @ [b]) s' \<and> log_sink s' = log_sink s \<and> log_world s' = log_world s"
proof (cases "length t < 511")
  case True
  then show ?thesis using assms buf_store [OF True, of b]
    by (simp add: log_push_def reserve_run [OF assms(1)] push_store_run [OF assms(2)] del: One_nat_def) (simp add: log_holds_def)
next
  case False
  then show ?thesis using assms
    by (simp add: log_push_def reserve_run [OF assms(1)] push_store_run [OF assms(2)]) (simp add: log_holds_def)
qed

text \<open>The byte after \<open>2 ^ 32 - 1\<close> others is the one that fails.\<close>

lemma log_push_full:
  assumes "log_holds t s" and "\<not> length t < 2 ^ 32 - 1"
  shows "log_push b s = None"
proof -
  have "length t = 2 ^ 32 - 1" using assms by (simp add: log_holds_def)
  then have "(of_nat (length t) :: usize) = - 1" by (simp add: word_unat_eq_iff unat_of_nat unat_max_word)
  then show ?thesis by (simp add: log_push_def reserve_run [OF assms(1)] push_store_def)
qed

lemma log_to_buffer_run:
  assumes "log_holds t s" and "length (t @ bs) < 2 ^ 32"
  shows "\<exists>s'. log_to_buffer bs s = Some s' \<and> log_holds (t @ bs) s' \<and> log_sink s' = log_sink s \<and> log_world s' = log_world s"
  using assms
proof (induction bs arbitrary: t s)
  case (Cons b bs)
  then obtain s1 where s1: "log_push b s = Some s1" "log_holds (t @ [b]) s1" "log_sink s1 = log_sink s" "log_world s1 = log_world s"
    using log_push_run [of t s b] by auto
  from Cons.IH [OF s1(2)] Cons.prems(2) s1 show ?case by simp
qed simp

lemma log_to_buffer_full: "log_holds t s \<Longrightarrow> 2 ^ 32 \<le> length (t @ bs) \<Longrightarrow> log_to_buffer bs s = None"
proof (induction bs arbitrary: t s)
  case Nil
  then show ?case by (simp add: log_holds_def)
next
  case (Cons b bs)
  show ?case
  proof (cases "length t < 2 ^ 32 - 1")
    case True
    with log_push_run [OF Cons.prems(1) True, of b] obtain s1 where "log_push b s = Some s1" "log_holds (t @ [b]) s1" by blast
    with Cons.IH [of "t @ [b]" s1] Cons.prems(2) show ?thesis by simp
  next
    case False
    with log_push_full [OF Cons.prems(1)] show ?thesis by simp
  qed
qed

lemma log_all_run:
  assumes "log_holds t s" and "length (t @ concat ms) < 2 ^ 32"
  shows "\<exists>s'. log_all ms s = Some s' \<and> log_holds (t @ concat ms) s' \<and> log_sink s' = log_sink s
    \<and> log_world s' = (case log_sink s of None \<Rightarrow> log_world s | Some f \<Rightarrow> fold f ms (log_world s))"
  using assms
proof (induction ms arbitrary: t s)
  case Nil
  then show ?case by (auto split: option.split)
next
  case (Cons m ms)
  from Cons.prems(2) have "length (t @ m) < 2 ^ 32" by simp
  from log_to_buffer_run [OF Cons.prems(1) this] obtain s1 where
    s1: "log_to_buffer m s = Some s1" "log_holds (t @ m) s1" "log_sink s1 = log_sink s" "log_world s1 = log_world s" by blast
  let ?s2 = "case log_sink s of None \<Rightarrow> s1 | Some f \<Rightarrow> s1\<lparr>log_world := f m (log_world s)\<rparr>"
  have r: "log_fmt m s = Some ?s2" using s1 by (simp add: log_fmt_def split: option.split)
  have h: "log_holds (t @ m) ?s2" using s1(2) by (simp add: log_holds_def split: option.split)
  from Cons.IH [OF h] Cons.prems(2) obtain s' where "log_all ms ?s2 = Some s'" "log_holds ((t @ m) @ concat ms) s'"
    "log_sink s' = log_sink ?s2" "log_world s' = (case log_sink ?s2 of None \<Rightarrow> log_world ?s2 | Some f \<Rightarrow> fold f ms (log_world ?s2))"
    by auto
  then show ?case using r s1 by (intro exI [of _ s']) (simp split: option.split)
qed

lemma log_all_full:
  assumes "log_holds t s" and "2 ^ 32 \<le> length (t @ concat ms)"
  shows "log_all ms s = None"
  using assms
proof (induction ms arbitrary: t s)
  case Nil
  then show ?case by (simp add: log_holds_def)
next
  case (Cons m ms)
  show ?case
  proof (cases "length (t @ m) < 2 ^ 32")
    case False
    then show ?thesis using log_to_buffer_full [OF Cons.prems(1)] by (simp add: log_fmt_def)
  next
    case True
    from log_to_buffer_run [OF Cons.prems(1) True] obtain s1 where s1: "log_to_buffer m s = Some s1" "log_holds (t @ m) s1" by blast
    let ?s2 = "case log_sink s1 of None \<Rightarrow> s1 | Some f \<Rightarrow> s1\<lparr>log_world := f m (log_world s1)\<rparr>"
    have "log_fmt m s = Some ?s2" using s1 by (simp add: log_fmt_def)
    moreover have "log_holds (t @ m) ?s2" using s1(2) by (simp add: log_holds_def split: option.split)
    ultimately show ?thesis using Cons.IH [of "t @ m" ?s2] Cons.prems(2) by simp
  qed
qed

lemma log_bytes_run: "log_holds t s \<Longrightarrow> log_bytes s = take 511 t"
proof -
  assume h: "log_holds t s"
  have "unat (min (log_len s) (LOG_CAP - 1)) = min (length t) 511"
    using unat_len [OF h] by (simp add: min_def word_le_nat_alt LOG_CAP_def)
  moreover have "take (min (length t) 511) t = take 511 t" by (cases "length t \<le> 511") simp_all
  ultimately show ?thesis using h by (simp add: log_bytes_def log_holds_def)
qed

lemma c_string_run: "log_holds t s \<Longrightarrow> c_string (log_buf s) = takeWhile (\<lambda>b. b \<noteq> 0) (take 511 t)"
  by (simp add: log_holds_def c_string_def takeWhile_append takeWhile_eq_all_conv eq_commute [of "take 511 t"])

section \<open>Tasks that log at the same time\<close>

text \<open>The two steps of a byte, of a task that may be preempted between them; the places reserved and not
  yet stored are kept by task.\<close>

datatype log_act = Reserve nat u8 | Store nat

fun log_act_step :: "log_act \<Rightarrow> 'w app_log \<times> (nat \<rightharpoonup> usize \<times> u8) \<Rightarrow> ('w app_log \<times> (nat \<rightharpoonup> usize \<times> u8)) option" where
  "log_act_step (Reserve th b) (s, p) =
     (case p th of Some _ \<Rightarrow> None | None \<Rightarrow> (let (i, s) = push_reserve s in Some (s, p(th \<mapsto> (i, b)))))"
| "log_act_step (Store th) (s, p) =
     (case p th of None \<Rightarrow> None | Some (i, b) \<Rightarrow> do { s \<leftarrow> push_store i b s; Some (s, p(th := None)) })"

fun log_acts :: "log_act list \<Rightarrow> 'w app_log \<times> (nat \<rightharpoonup> usize \<times> u8) \<Rightarrow> ('w app_log \<times> (nat \<rightharpoonup> usize \<times> u8)) option" where
  "log_acts [] x = Some x"
| "log_acts (a # as) x = do { x \<leftarrow> log_act_step a x; log_acts as x }"

definition pushes_of :: "nat \<Rightarrow> u8 list \<Rightarrow> log_act list" where
  "pushes_of th bs = concat (map (\<lambda>b. [Reserve th b, Store th]) bs)"

lemma pushes_of_simps [simp]: "pushes_of th [] = []" "pushes_of th (b # bs) = Reserve th b # Store th # pushes_of th bs"
  by (simp_all add: pushes_of_def)

lemma log_acts_append: "log_acts (as @ bs) x = do { x \<leftarrow> log_acts as x; log_acts bs x }"
proof (induction as arbitrary: x)
  case (Cons a as)
  then show ?case by (cases "log_act_step a x") auto
qed simp

text \<open>A task that is not preempted does what \<open>log_to_buffer\<close> does.\<close>

lemma log_acts_pushes: "p th = None \<Longrightarrow> log_acts (pushes_of th bs) (s, p) = map_option (\<lambda>s. (s, p)) (log_to_buffer bs s)"
proof (induction bs arbitrary: s)
  case (Cons b bs)
  have i: "p(th := None) = p" using Cons.prems by auto
  obtain i s1 where r: "push_reserve s = (i, s1)" by fastforce
  show ?case
  proof (cases "push_store i b s1")
    case None
    then show ?thesis using Cons.prems r by (simp add: log_push_def)
  next
    case (Some s2)
    then show ?thesis using Cons r i by (simp add: log_push_def)
  qed
qed simp

text \<open>One byte whose task is preempted while another logs \<open>bs\<close>: its NUL falls on the first byte of \<open>bs\<close>.\<close>

lemma preempted_push:
  assumes h: "log_holds t s" and l: "length t + 1 + length bs \<le> 511" and bs: "bs \<noteq> []"
  shows "\<exists>s'. log_acts (Reserve 0 a # pushes_of 1 bs @ [Store 0]) (s, \<lambda>_. None) = Some (s', \<lambda>_. None)
    \<and> log_holds (t @ [a, 0] @ tl bs) s' \<and> log_world s' = log_world s"
proof -
  let ?i = "of_nat (length t) :: usize" and ?s1 = "s\<lparr>log_len := of_nat (length t + 1)\<rparr>"
  let ?p = "(\<lambda>_. None)(0 \<mapsto> (?i, a)) :: nat \<rightharpoonup> usize \<times> u8"
  have "log_buf s = t @ replicate (Suc (511 - length t)) 0" using h l by (simp add: log_holds_def Suc_diff_le del: replicate_Suc)
  then have h1: "log_holds (t @ [0]) ?s1" using l by (simp add: log_holds_def)
  have "length ((t @ [0]) @ bs) < 2 ^ 32" using l by simp
  from log_to_buffer_run [OF h1 this] obtain s2 where
    s2: "log_to_buffer bs ?s1 = Some s2" "log_holds ((t @ [0]) @ bs) s2" "log_world s2 = log_world s" by auto
  obtain b cs where b: "bs = b # cs" using bs by (cases bs) auto
  let ?s' = "s2\<lparr>log_buf := (log_buf s2)[length t := a, length t + 1 := 0]\<rparr>"
  have "log_holds (t @ [a, 0] @ tl bs) ?s'" using s2(2) l by (simp add: log_holds_def b list_update_append)
  moreover have "push_store ?i a s2 = Some ?s'" using push_store_run [of t] l by simp
  then have "log_acts (Reserve 0 a # pushes_of 1 bs @ [Store 0]) (s, \<lambda>_. None) = Some (?s', \<lambda>_. None)"
    using log_acts_pushes [of ?p 1 bs ?s1] s2(1) by (simp add: log_acts_append reserve_run [OF h] fun_upd_idem)
  ultimately show ?thesis using s2(3) by (intro exI [of _ ?s']) simp
qed

text \<open>\<open>exit_main\<close> without a current task panics, and has done nothing.\<close>

lemma exit_main_unconfigured: "k_current k = null_ptr \<Longrightarrow> \<exists>msg. exit_main k = Some (Panicked msg, k)"
  by (simp add: exit_main_def)

end
