(* ===== verification/RkHal.thy ===== *)
theory RkHal
  imports RkExec
begin

text \<open>
  \<^verbatim>\<open>src/hal.rs\<close>: delays, the bus shared through a kernel mutex, and the blocking facade over an
  asynchronous driver.  The driver itself is not in the repository: a transfer is a function on the
  bus, an argument.  What the cycle counter answers is a list of readings.
\<close>

section \<open>Delays\<close>

record kernel_delay =
  kd_spin_below_ns :: u64

definition delay_new :: "u64 \<Rightarrow> kernel_delay" where
  "delay_new ns = \<lparr>kd_spin_below_ns = ns\<rparr>"

definition delay_default :: kernel_delay where
  "delay_default = delay_new 100000"

definition get_spin_below_ns :: "kernel_delay \<Rightarrow> u64" where
  "get_spin_below_ns d = kd_spin_below_ns d"

text \<open>The cycles to spin for, and the number of readings the spin takes; \<open>None\<close> while it still spins
  at the end of the list.\<close>

definition spin_cycles :: "u64 \<Rightarrow> u32 \<Rightarrow> u32" where
  "spin_cycles ns hz = ucast ((ucast ns :: u128) * ucast hz div 1000000000)"

fun spin_on :: "u32 \<Rightarrow> u32 \<Rightarrow> u32 option list \<Rightarrow> nat option" where
  "spin_on start want [] = None"
| "spin_on start want (r # rs) =
     (if (case r of None \<Rightarrow> start | Some c \<Rightarrow> c) - start < want then map_option Suc (spin_on start want rs) else Some 1)"

text \<open>\<open>Spun n\<close>: the delay has spun \<open>n\<close> times and returns; \<open>Asleep\<close>: the task sleeps.\<close>

datatype delay_end = Spun nat | Asleep

definition delay_ns :: "port \<Rightarrow> u32 option list \<Rightarrow> u32 \<Rightarrow> kernel_delay \<Rightarrow> u32 \<Rightarrow> kernel \<Rightarrow> (delay_end \<times> kernel) option" where
  "delay_ns P readings hz d ns0 k =
     (let ns = ucast ns0 :: u64 in
      if ns < kd_spin_below_ns d then do {
        n \<leftarrow> ticks_for P (dur_from_nanos ns) k;
        let until = now k + n;
        (case readings of
           Some start # rest \<Rightarrow> do { m \<leftarrow> spin_on start (spin_cycles ns hz) rest; Some (Spun m, k) }
         | _ \<Rightarrow> Some (Spun (unat (sat_mul ns 4)), k))
      }
      else do { k \<leftarrow> sleep P (dur_from_nanos ns) k; Some (Asleep, k) })"

definition async_delay_ns :: "port \<Rightarrow> u32 \<Rightarrow> kernel \<Rightarrow> sleep_future option" where
  "async_delay_ns P ns k = exec_sleep P (dur_from_nanos (ucast ns)) k"

section \<open>A bus shared between tasks\<close>

datatype 'e shared_error = Bus 'e | LockTimeout | LockOrder | TooManyLocks

definition shared_of_lock :: "lock_error \<Rightarrow> 'e shared_error" where
  "shared_of_lock e = (case e of
     Timeout \<Rightarrow> LockTimeout
   | OrderViolation _ _ \<Rightarrow> LockOrder
   | TooManyHeldLocks \<Rightarrow> TooManyLocks
   | NotRunning \<Rightarrow> LockOrder
   | AlreadyOwnedBySelf \<Rightarrow> LockOrder)"

datatype i2c_kind = KindOther

definition shared_kind :: "'e shared_error \<Rightarrow> i2c_kind" where
  "shared_kind e = KindOther"

record 'b mutex_device =
  md_header :: mutex_header
  md_bus :: 'b
  md_timeout_ms :: u64

definition mutex_device_new :: "u32 \<Rightarrow> 'b \<Rightarrow> 'b mutex_device" where
  "mutex_device_new i bus = \<lparr>md_header = mutex_with_id (lock_id_new i), md_bus = bus, md_timeout_ms = 1000\<rparr>"

definition mutex_device_with_timeout :: "u32 \<Rightarrow> 'b \<Rightarrow> u64 \<Rightarrow> 'b mutex_device" where
  "mutex_device_with_timeout i bus timeout = \<lparr>md_header = mutex_with_id (lock_id_new i), md_bus = bus, md_timeout_ms = timeout\<rparr>"

definition device_deadline :: "port \<Rightarrow> 'b mutex_device \<Rightarrow> kernel \<Rightarrow> u64" where
  "device_deadline P d k = lock_deadline P (md_timeout_ms d) k"

definition device_lock_turn :: "u64 \<Rightarrow> 'b mutex_device \<Rightarrow> kernel \<Rightarrow> ((unit shared_error + unit) progress \<times> kernel) option" where
  "device_lock_turn deadline d k = do {
     (r, k) \<leftarrow> try_lock_for_turn deadline (md_header d) k;
     Some (case r of Again \<Rightarrow> Again | Done (Inl e) \<Rightarrow> Done (Inl (shared_of_lock e)) | Done (Inr _) \<Rightarrow> Done (Inr ()), k)
   }"

text \<open>A transaction: turns in the lock, then the transfer \<open>f\<close> on the bus and the drop of the guard.  Between
  the two the task may be preempted.\<close>

datatype bus_point = Locking | Transferring

definition transaction_turn ::
  "u64 \<Rightarrow> ('b \<Rightarrow> ('e + unit) \<times> 'b) \<Rightarrow> bus_point \<Rightarrow> 'b mutex_device \<times> kernel
     \<Rightarrow> (('e shared_error + unit) progress \<times> bus_point \<times> 'b mutex_device \<times> kernel) option" where
  "transaction_turn deadline f at x = (let (d, k) = x in case at of
     Locking \<Rightarrow> do {
       (r, k) \<leftarrow> try_lock_for_turn deadline (md_header d) k;
       Some (case r of
          Again \<Rightarrow> (Again, Locking, d, k)
        | Done (Inl e) \<Rightarrow> (Done (Inl (shared_of_lock e)), Locking, d, k)
        | Done (Inr _) \<Rightarrow> (Again, Transferring, d, k))
     }
   | Transferring \<Rightarrow> do {
       let (r, bus) = f (md_bus d);
       k \<leftarrow> release_shim (md_header d) k;
       Some (Done (case r of Inl e \<Rightarrow> Inl (Bus e) | Inr _ \<Rightarrow> Inr ()), Locking, d\<lparr>md_bus := bus\<rparr>, k)
     })"

section \<open>The blocking facade\<close>

definition blocking_new :: "'t \<Rightarrow> 't" where
  "blocking_new inner = inner"

definition into_inner :: "'t \<Rightarrow> 't" where
  "into_inner b = b"

text \<open>A transaction of the facade is \<open>block_on\<close> over the driver's future.\<close>

definition blocking_i2c_turn ::
  "(ptr \<Rightarrow> 'f \<times> kernel \<Rightarrow> ('o option \<times> 'f \<times> kernel) option) \<Rightarrow> ptr \<Rightarrow> exec_point \<Rightarrow> 'f \<times> kernel
     \<Rightarrow> ('o progress \<times> exec_point \<times> 'f \<times> kernel) option" where
  "blocking_i2c_turn transaction waker at s = block_on_turn transaction waker at s"

definition blocking_spi_turn ::
  "(ptr \<Rightarrow> 'f \<times> kernel \<Rightarrow> ('o option \<times> 'f \<times> kernel) option) \<Rightarrow> ptr \<Rightarrow> exec_point \<Rightarrow> 'f \<times> kernel
     \<Rightarrow> ('o progress \<times> exec_point \<times> 'f \<times> kernel) option" where
  "blocking_spi_turn transaction waker at s = block_on_turn transaction waker at s"

section \<open>What a delay does\<close>

text \<open>The spin ends at the first reading as far from the start as wanted.\<close>

lemma spin_on_first:
  "spin_on start want (map Some cs) = (case find (\<lambda>c. want \<le> c - start) cs of
     None \<Rightarrow> None | Some c \<Rightarrow> Some (Suc (length (takeWhile (\<lambda>c. c - start < want) cs))))"
  by (induction cs) (auto simp: not_less split: option.split)

text \<open>It is no longer than asked, and short by less than a cycle.\<close>

lemma spin_cycles_exact:
  assumes "unat ns * unat hz div 1000000000 < 2 ^ 32"
  shows "unat (spin_cycles ns hz) = unat ns * unat hz div 1000000000"
proof -
  have "unat ns * unat hz < 2 ^ 128"
  proof -
    have "unat ns * unat hz \<le> 2 ^ 64 * 2 ^ 32" by (intro mult_le_mono) (simp_all add: less_imp_le)
    then show ?thesis by simp
  qed
  then have "unat ((ucast ns :: u128) * ucast hz div 1000000000) = unat ns * unat hz div 1000000000"
    by (simp add: unat_div unat_word_ariths unat_ucast_up)
  then show ?thesis using assms by (simp add: spin_cycles_def unat_ucast_mod)
qed

lemma spin_is_short: "unat ns * unat hz < 1000000000 \<Longrightarrow> spin_cycles ns hz = 0"
  using spin_cycles_exact [of ns hz] by (simp add: word_unat_eq_iff)

lemma delay_sleeps:
  assumes "kd_spin_below_ns d \<le> ucast ns"
  shows "delay_ns P readings hz d ns k = map_option (\<lambda>k. (Asleep, k)) (sleep P (dur_from_nanos (ucast ns)) k)"
  using leD [OF assms] by (cases "sleep P (dur_from_nanos (ucast ns)) k") (simp_all add: delay_ns_def Let_def)

section \<open>What a transaction does\<close>

text \<open>A lock that is refused leaves the bus alone, and the caller is told which kind of refusal it was.\<close>

lemma transaction_refused:
  assumes "current_tcb k = me" "rd k me = Some t" "held_ok t" "tid t \<noteq> 0" "mh_owner (md_header d) = 0"
    and "order_verdict (held t) (mh_id (md_header d)) = Inl e"
  shows "transaction_turn deadline f Locking (d, k) = Some (Done (Inl (shared_of_lock e)), Locking, d, k)"
  using try_acquire_run [OF assms(1-5)] assms(6) by (simp add: transaction_turn_def try_lock_for_turn_def)

text \<open>A lock that is granted: the transfer runs once on the bus, its error is passed on, and the caller's
  list of locks is what it was.\<close>

lemma transaction_granted:
  assumes T: "tree_ok k T" and "current_tcb k = me" "rd k me = Some t" "held_ok t" "tid t \<noteq> 0" "mh_owner (md_header d) = 0"
    and v: "order_verdict (held t) (mh_id (md_header d)) = Inr ()" and f: "f (md_bus d) = (r, bus)"
  shows "\<exists>k1 k2 u. transaction_turn deadline f Locking (d, k) = Some (Again, Transferring, d, k1)
    \<and> transaction_turn deadline f Transferring (d, k1)
      = Some (Done (case r of Inl e \<Rightarrow> Inl (Bus e) | Inr _ \<Rightarrow> Inr ()), Locking, d\<lparr>md_bus := bus\<rparr>, k2)
    \<and> held u = held t \<and> held_ok u \<and> no_held u = no_held t
    \<and> k2 = (put me u k1)\<lparr>heap := map_at (\<lambda>t. if waits_on (mh_id (md_header d)) t then make_ready t else t)
         (set (visited (put me u k1) T)) (heap (put me u k1))\<rparr>"
proof -
  let ?i = "mh_id (md_header d)"
  let ?k1 = "put me (pushed ?i t) k"
  note p = pushed_ok [OF assms(4) verdict_ok [OF assms(4) v]]
  have 1: "transaction_turn deadline f Locking (d, k) = Some (Again, Transferring, d, ?k1)"
    using try_acquire_run [OF assms(2-6)] v by (simp add: transaction_turn_def try_lock_for_turn_def)
  have "same_shape (heap k) (heap ?k1)"
    unfolding heap_put using assms(3) by (intro same_shape_upd [of _ _ t] shape_no_held p(3)) (simp add: rd_def)
  then have T1: "tree_ok ?k1 T" by (rule tree_ok_shape [OF T]) (simp_all add: put_def)
  have "me \<noteq> 0" using assms(3) by auto
  then have c: "current_tcb ?k1 = me" "rd ?k1 me = Some (pushed ?i t)" using assms(2) by (simp add: put_def, simp add: rd_put)
  from release_shim_run [OF T1 c p(2), of "md_header d"] obtain u where
    u: "held u = remove1 ?i (held t @ [?i])" "held_ok u" "no_held u = no_held (pushed ?i t)"
    and r: "release_shim (md_header d) ?k1 = Some ((put me u ?k1)\<lparr>heap := map_at (\<lambda>t. if waits_on ?i t then make_ready t else t)
         (set (visited (put me u ?k1) T)) (heap (put me u ?k1))\<rparr>)" unfolding p(1) by blast
  have "?i \<notin> set (held t)"
    using verdict_ok(2) [OF assms(4) v] assms(4) sorted_wrt_last [of "held t" ?i] by (auto simp: held_ok_def)
  then have "held u = held t" using u(1) by (simp add: remove1_append)
  then show ?thesis using 1 u(2,3) r p(3) f
    by (intro exI [of _ ?k1] exI [of _ u] exI) (auto simp: transaction_turn_def)
qed

end
