(* ===== verification/RkClosure.thy ===== *)
theory RkClosure
  imports RkLife
begin

text \<open>
  \<^verbatim>\<open>src/closure.rs\<close>: a closure stored in a block of the arena, run once by the trampoline or dropped.

  The blocks are \<open>blobs\<close>: the headers by the address of their block, the values by their own address,
  each with the number of its type, which stands for the monomorphic functions of that type.  A value that has been
  moved out is gone from the map, so a second run of a block is \<open>None\<close>, as is a run through the
  functions of another type.  What a call and a destructor do is an argument.
\<close>

section \<open>The operations\<close>

record closure_header =
  ch_run :: nat
  ch_data_off :: usize

record 'f blobs =
  bl_header :: "ptr \<rightharpoonup> closure_header"
  bl_value :: "ptr \<rightharpoonup> nat \<times> 'f"

definition place :: "nat \<Rightarrow> usize \<Rightarrow> ptr \<Rightarrow> 'f \<Rightarrow> 'f blobs \<Rightarrow> ptr \<times> 'f blobs" where
  "place ty al base f m =
     (let data_off = closure_data_off al
      in (base, \<lparr>bl_header = (bl_header m)(base \<mapsto> \<lparr>ch_run = ty, ch_data_off = data_off\<rparr>),
                 bl_value = (bl_value m)(base + data_off \<mapsto> (ty, f))\<rparr>))"

definition run_closure :: "('f \<Rightarrow> 'w \<Rightarrow> 'w option) \<Rightarrow> nat \<Rightarrow> ptr \<Rightarrow> 'f blobs \<times> 'w \<Rightarrow> ('f blobs \<times> 'w) option" where
  "run_closure call ty data x = do {
     (ty', f) \<leftarrow> bl_value (fst x) data;
     if ty' \<noteq> ty then None else do {
       let m = (fst x)\<lparr>bl_value := (bl_value (fst x))(data := None)\<rparr>;
       w \<leftarrow> call f (snd x);
       Some (m, w)
     }
   }"

definition blob_run :: "('f \<Rightarrow> 'w \<Rightarrow> 'w option) \<Rightarrow> ptr \<Rightarrow> 'f blobs \<times> 'w \<Rightarrow> ('f blobs \<times> 'w) option" where
  "blob_run call base x = do {
     hdr \<leftarrow> bl_header (fst x) base;
     run_closure call (ch_run hdr) (base + ch_data_off hdr) x
   }"

definition drop_blob :: "('f \<Rightarrow> 'w \<Rightarrow> 'w) \<Rightarrow> nat \<Rightarrow> usize \<Rightarrow> ptr \<Rightarrow> 'f blobs \<times> 'w \<Rightarrow> ('f blobs \<times> 'w) option" where
  "drop_blob dtor ty al base x = do {
     let data = base + closure_data_off al;
     (ty', f) \<leftarrow> bl_value (fst x) data;
     if ty' \<noteq> ty then None
     else Some ((fst x)\<lparr>bl_value := (bl_value (fst x))(data := None)\<rparr>, dtor f (snd x))
   }"

section \<open>Blocks that hold a closure each\<close>

text \<open>The closures stored and not yet run, by block: the type, its size and alignment, and the value.
  The blocks are as the arena hands them out, a header apart.\<close>

type_synonym 'f stored = "ptr \<rightharpoonup> nat \<times> (usize \<times> usize) \<times> 'f"

definition blob_end :: "ptr \<Rightarrow> usize \<times> usize \<Rightarrow> nat" where
  "blob_end b sa = unat b + unat (block_size_for (fst sa) (snd sa))"

definition apart :: "ptr \<Rightarrow> usize \<times> usize \<Rightarrow> ptr \<Rightarrow> usize \<times> usize \<Rightarrow> bool" where
  "apart b sa c ta \<longleftrightarrow> blob_end b sa + 4 \<le> unat c \<or> blob_end c ta + 4 \<le> unat b"

definition blobs_ok :: "'f blobs \<Rightarrow> 'f stored \<Rightarrow> bool" where
  "blobs_ok m es =
     ((\<forall>b ty sa f. es b = Some (ty, sa, f) \<longrightarrow> closure_ok sa \<and> blob_end b sa < 2 ^ 32
         \<and> bl_header m b = Some \<lparr>ch_run = ty, ch_data_off = closure_data_off (snd sa)\<rparr>
         \<and> bl_value m (b + closure_data_off (snd sa)) = Some (ty, f)) \<and>
      (\<forall>b c ty sa f ty' sa' f'. es b = Some (ty, sa, f) \<longrightarrow> es c = Some (ty', sa', f') \<longrightarrow> b \<noteq> c \<longrightarrow> apart b sa c sa'))"

lemma data_address:
  assumes "closure_ok sa" and "blob_end b sa < 2 ^ 32"
  shows "unat (b + closure_data_off (snd sa)) = unat b + unat (closure_data_off (snd sa))"
  using closure_layout(3) [OF assms(1)] assms(2) by (intro unat_plus_small) (simp add: blob_end_def)

text \<open>Values in blocks that are apart have different addresses.\<close>

lemma apart_data:
  assumes "closure_ok sa" "blob_end b sa < 2 ^ 32" "closure_ok ta" "blob_end c ta < 2 ^ 32" and "apart b sa c ta"
  shows "b + closure_data_off (snd sa) \<noteq> c + closure_data_off (snd ta)"
proof
  assume "b + closure_data_off (snd sa) = c + closure_data_off (snd ta)"
  then have "unat b + unat (closure_data_off (snd sa)) = unat c + unat (closure_data_off (snd ta))"
    using data_address [OF assms(1,2)] data_address [OF assms(3,4)] by simp
  moreover note closure_layout(3) [OF assms(1)] closure_layout(3) [OF assms(3)]
  ultimately show False using assms(5) by (auto simp: apart_def blob_end_def)
qed

lemma blobs_okD:
  assumes "blobs_ok m es" and "es b = Some (ty, sa, f)"
  shows "closure_ok sa" "blob_end b sa < 2 ^ 32" "bl_header m b = Some \<lparr>ch_run = ty, ch_data_off = closure_data_off (snd sa)\<rparr>"
    "bl_value m (b + closure_data_off (snd sa)) = Some (ty, f)"
    "es c = Some (ty', ta, g) \<Longrightarrow> b \<noteq> c \<Longrightarrow> apart b sa c ta"
  using assms unfolding blobs_ok_def by blast+

text \<open>A closure placed in a block apart from the others is stored, and leaves the others stored.\<close>

lemma place_ok:
  assumes ok: "blobs_ok m es" and sa: "closure_ok sa" "blob_end b sa < 2 ^ 32"
    and fresh: "es b = None" "\<And>c ty ta g. es c = Some (ty, ta, g) \<Longrightarrow> apart b sa c ta"
  shows "blobs_ok (snd (place ty (snd sa) b f m)) (es(b \<mapsto> (ty, sa, f)))"
proof -
  have sym: "apart b sa c ta = apart c ta b sa" for c ta by (auto simp: apart_def)
  have d: "c + closure_data_off (snd ta) \<noteq> b + closure_data_off (snd sa)" if "es c = Some (ty', ta, g)" for c ty' ta g
    using apart_data [OF blobs_okD(1,2) [OF ok that] sa] fresh(2) [OF that] sym by blast
  have ne: "c \<noteq> b" if "es c = Some x" for c x using that fresh(1) by auto
  show ?thesis
    unfolding blobs_ok_def
  proof (intro conjI allI impI)
    fix c ty' ta g assume e: "(es(b \<mapsto> (ty, sa, f))) c = Some (ty', ta, g)"
    show "closure_ok ta" "blob_end c ta < 2 ^ 32"
      "bl_header (snd (place ty (snd sa) b f m)) c = Some \<lparr>ch_run = ty', ch_data_off = closure_data_off (snd ta)\<rparr>"
      "bl_value (snd (place ty (snd sa) b f m)) (c + closure_data_off (snd ta)) = Some (ty', g)"
      using e sa blobs_okD(1-4) [OF ok] d ne by (auto simp: place_def Let_def split: if_splits)
  next
    fix c d ty1 ta1 g1 ty2 ta2 g2
    assume "(es(b \<mapsto> (ty, sa, f))) c = Some (ty1, ta1, g1)" "(es(b \<mapsto> (ty, sa, f))) d = Some (ty2, ta2, g2)" "c \<noteq> d"
    then show "apart c ta1 d ta2" using blobs_okD(5) [OF ok] fresh(2) sym by (auto split: if_splits)
  qed
qed

text \<open>Taking a value out of its block leaves the others stored.\<close>

lemma take_ok:
  assumes ok: "blobs_ok m es" and b: "es b = Some (ty, sa, f)"
  shows "blobs_ok (m\<lparr>bl_value := (bl_value m)(b + closure_data_off (snd sa) := None)\<rparr>) (es(b := None))"
proof -
  have d: "c + closure_data_off (snd ta) \<noteq> b + closure_data_off (snd sa)" if "es c = Some (ty', ta, g)" "c \<noteq> b" for c ty' ta g
    using apart_data [OF blobs_okD(1,2) [OF ok that(1)] blobs_okD(1,2) [OF ok b] blobs_okD(5) [OF ok that(1) b]] that(2) by blast
  show ?thesis
    unfolding blobs_ok_def using blobs_okD [OF ok] d by (auto split: if_splits)
qed

text \<open>The trampoline runs the closure that was placed, and takes it out.\<close>

theorem closure_runs:
  assumes ok: "blobs_ok m es" and b: "es b = Some (ty, sa, f)"
  shows "\<exists>m'. blob_run call b (m, w) = map_option (\<lambda>w. (m', w)) (call f w) \<and> blobs_ok m' (es(b := None))
    \<and> blob_run call b (m', w') = None"
proof -
  let ?m = "m\<lparr>bl_value := (bl_value m)(b + closure_data_off (snd sa) := None)\<rparr>"
  note d = blobs_okD(3,4) [OF ok b]
  have "blob_run call b (m, w) = map_option (\<lambda>w. (?m, w)) (call f w)"
    using d by (cases "call f w") (simp_all add: blob_run_def run_closure_def)
  moreover have "blob_run call b (?m, w') = None" using d by (simp add: blob_run_def run_closure_def)
  ultimately show ?thesis using take_ok [OF ok b] by blast
qed

text \<open>A closure that will never run is destroyed where it was placed: \<open>drop_blob\<close> computes the offset anew.\<close>

theorem closure_dropped:
  assumes ok: "blobs_ok m es" and b: "es b = Some (ty, sa, f)"
  shows "\<exists>m'. drop_blob dtor ty (snd sa) b (m, w) = Some (m', dtor f w) \<and> blobs_ok m' (es(b := None))
    \<and> drop_blob dtor ty (snd sa) b (m', w') = None"
  using blobs_okD(4) [OF ok b] take_ok [OF ok b] by (simp add: drop_blob_def Let_def)

text \<open>So a task runs the closure of its block and then leaves the ring.\<close>

theorem trampoline_runs:
  assumes ok: "blobs_ok m es" and t: "rd k p = Some t" and b: "es (closure_block t) = Some (ty, sa, f)"
  shows "task_trampoline (\<lambda>b k. map_option snd (blob_run call b (m, k))) p k = Option.bind (call f k) (exit_task p)"
proof -
  from closure_runs [OF ok b, of call k] obtain m' where "blob_run call (closure_block t) (m, k) = map_option (\<lambda>w. (m', w)) (call f k)" by blast
  then show ?thesis using t by (cases "call f k") (simp_all add: task_trampoline_def)
qed

end
