(* ===== verification/Spec2Isabelle.thy ===== *)
theory Spec2Isabelle
  imports RkStarve RkPorts RkPendSV RkBoot RkWindow RkApp RkHal RkClosure
begin

text \<open>
  rrkernel: a preemptive round-robin kernel in Rust (\<^verbatim>\<open>src/src/\<close>), modelled and verified.

  \<^bold>\<open>The program.\<close>  Tasks and groups are task control blocks (TCBs) in an arena, linked into
  rings: each group's children form one circular doubly linked ring, so the TCBs form a tree
  with the root group on top.  A timer interrupt counts a tick, takes a unit off the quantum of
  each node on the running path, and wakes sleepers (\<^verbatim>\<open>scheduler.rs\<close>, \<open>on_tick\<close>); a deferred
  interrupt saves the running task, asks \<open>schedule_next\<close> for the next leaf, and restores it
  (\<^verbatim>\<open>arch/\<close>).  Tasks block on resources and deadlines and are woken by interrupts and
  other tasks (\<^verbatim>\<open>event.rs\<close>, \<^verbatim>\<open>sync.rs\<close>, \<^verbatim>\<open>time.rs\<close>, \<^verbatim>\<open>exec.rs\<close>, \<^verbatim>\<open>io.rs\<close>); they are spawned from
  closures stored in the arena, exit through a trampoline and are reclaimed later
  (\<^verbatim>\<open>thread.rs\<close>, \<^verbatim>\<open>closure.rs\<close>, \<^verbatim>\<open>trampoline.rs\<close>).

  \<^bold>\<open>How it is modelled.\<close>  The kernel's statics are the record \<open>kernel\<close> (RkTcb).  A pointer to a
  TCB is a 32-bit word and the TCBs are a partial map \<open>heap\<close>; reading or writing through a null
  or dangling pointer is \<open>None\<close>, so \<open>f k = Some r\<close> says that \<open>f\<close> returns and dereferences no
  bad pointer.  Integers are words of their Rust width.  A loop is a \<open>partial_function (option)\<close>:
  a loop that never ends is \<open>None\<close> too.  Errors of the program are values of a sum type.  The
  critical sections of the source make each operation one atomic step; a call that blocks is
  modelled as one turn, run again each time the task has the CPU.  The arena (RkArena) is a map
  from header addresses to headers and one from back-pointer slots to headers; register and
  stack words are \<open>words\<close>.  The functions of a port are the record \<open>port\<close> (RkSpawn).

  \<^bold>\<open>Theories.\<close>
  RkPrelude: words, saturating arithmetic, rounding.
  RkConfig: \<^verbatim>\<open>config.rs\<close>.  RkArena, RkAlloc: \<^verbatim>\<open>arena.rs\<close> and the proof that allocation and free
  keep blocks disjoint, aligned and accounted for (\<open>arena_ok\<close>, \<open>live_payload\<close>).
  RkTcb, RkRing: \<^verbatim>\<open>tcb.rs\<close>, \<^verbatim>\<open>ring.rs\<close>.  RkTree, RkSched: the tree walks, the policy, the switch,
  ticks, waking and blocking of \<^verbatim>\<open>scheduler.rs\<close>.  RkShape: the heap as an abstract tree
  (\<open>tree_at\<close>, \<open>tree_ok\<close>).  RkWalk: what \<open>walk_tree\<close> visits.  RkPick, RkPolicy: the descent and
  the climb refine \<open>first_leaf\<close> and \<open>climb\<close>; the policy of \<open>pick_next_leaf\<close>.  RkSwitch: the
  switch keeps \<open>kernel_ok\<close>.  RkTick: the effect of a tick; round robin.  RkExamples: two small
  kernels for witnesses.
  RkSpawn: spawning, start-up, exit, reclaiming.  RkGraft: linking a node.  RkExit: unlinking
  one.  RkMemory: ownership of blocks (\<open>mem_ok\<close>).  RkReclaim: the dead list and its
  reclaiming, over the locale \<open>reclaimer\<close>.  RkLife: the locale \<open>port_contract\<close> (what a port's
  functions promise) and spawning in it.  RkClosure: \<^verbatim>\<open>closure.rs\<close>,
  closures stored in blocks, each run or dropped once.  RkStart: groups, exit, start-up in it.  RkCortex:
  the Cortex-M port, its interpretation of \<open>port_contract\<close>, its handlers.
  RkQuery: getters, \<open>for_each_task\<close>, statistics.  RkSync: \<^verbatim>\<open>sync.rs\<close>.  RkTime: \<^verbatim>\<open>time.rs\<close>.
  RkEvent: \<^verbatim>\<open>event.rs\<close>.  RkExec: \<^verbatim>\<open>exec.rs\<close>.  RkIo: \<^verbatim>\<open>io.rs\<close>, refined to a queue of bytes.
  RkSystem: all operations as one transition system, its invariant \<open>sys_inv\<close>, reachability.
  RkBoot: a kernel booted by evaluation, for witnesses.  RkStarve: what hides a ready task from
  the policy.
  RkPort: frames in memory, the locales \<open>critical\<close> (masking interrupts) and \<open>quiet_port\<close> (a port
  whose reclaim hook does nothing).  RkIrq: the kernel's steps as an interrupt handler sees them.
  RkPendSV: the Cortex-M handlers from entry to return.  RkRiscv, RkArm, RkXtensa:
  \<^verbatim>\<open>arch/riscv.rs\<close>, \<^verbatim>\<open>arch/arm_ar.rs\<close>, \<^verbatim>\<open>arch/xtensa.rs\<close>, each with its state (registers, timer,
  the kernel), its operations, its interpretations of \<open>quiet_port\<close> and \<open>critical\<close>, and its handler
  from entry to return.  RkSmp: \<^verbatim>\<open>critical.rs\<close> and \<^verbatim>\<open>smp.rs\<close>, the spin lock as a transition system
  of cores with nested interrupts.
  RkPosix: \<^verbatim>\<open>arch/posix.rs\<close>.  The state \<open>posix\<close> has the registers of the fibre that runs, the
  signal mask, the timer and the kernel; the mask operations of the C library are an argument
  (\<open>libc\<close>, with the laws \<open>posix_libc\<close>); \<open>px_ok\<close> says that every suspended fibre has a frame.
  RkWin32: \<^verbatim>\<open>arch/win32.rs\<close>.  The system's threads and handles are an argument (\<open>win_api\<close>, with
  the documented laws \<open>win_laws\<close>) over a table kept in \<open>words\<close>; \<open>one_thread\<close> says that the thread
  of the task with the baton runs and every other is suspended once; \<open>lock_step\<close> is the kernel
  lock as a transition system of threads.
  RkWindow: the register windows of the Xtensa.  The overflow, underflow and Alloca handlers are the
  instruction lists of the source, run by \<open>run\<close> on a core with 64 registers (\<open>wcore\<close>); \<open>frame_at\<close> is
  a spilled frame in memory.
  RkApp: \<^verbatim>\<open>app_support.rs\<close>, the log (\<open>app_log\<close>; a byte is reserved, then stored) and the reports.
  RkHal: \<^verbatim>\<open>hal.rs\<close>, delays, the bus behind a mutex, the blocking facade.
  RkPorts: what holds on the bare-metal ports (\<open>bare_metal\<close>) and on every port (\<open>supported\<close>).

  \<^bold>\<open>Properties.\<close>  \<open>reachable_invariant\<close> and \<open>reachable_progress\<close> are about every reachable state, on
  every port.  Then come the scheduler (policy, tick, walks, wakes), the arena, the life of a
  task, locks, blocking and events, time and pipes, the ports and their handlers, the register
  windows, the log, and the spin lock.  Some state a defect: \<open>idle_group_starves\<close>, \<open>distant_sleeper_never_woken\<close>,
  \<open>mutex_excludes_nobody\<close>, \<open>wake_all_is_lost\<close>, \<open>kick_when_idle_sticks\<close>, \<open>xtensa_round_trip\<close>,
  \<open>xtensa_resumes_freed_stack\<close>, \<open>posix_clock_counts\<close>, \<open>alloca_refills\<close> (for \<open>a2\<close> and \<open>a3\<close>),
  \<open>preempted_push_loses_text\<close>.

  \<^bold>\<open>Bounds.\<close>  \<open>tree_ok\<close> asks for fewer than \<open>2 ^ 31\<close> nodes ever created, so the walks' budget
  \<open>nodes + 2\<close> does not wrap; \<open>roomy\<close> asks that the arena and the sizes asked for do not reach
  the end of the address space, since the code's pointer arithmetic wraps there.  A handler that
  waits with nothing to run takes a list of what the hardware answers at each pass: the list is
  the number of passes, and the lemmas hold for every list.

  \<^bold>\<open>Not modelled.\<close>  Memory orderings weaker than one access at a time; what the operating systems
  of the host ports, the device drivers and the cycle counters do, which are arguments; when the Xtensa
  hardware raises a window exception (a run of a handler starts from \<open>window_exception\<close>); the macros
  that generate start-up code; firmware images, examples and tests, which are applications of the
  kernel.  The contents of closures, of user futures and of protected data are opaque: a future is
  a poll function, an argument.
\<close>

section \<open>The kernel as a whole\<close>





section \<open>The switch\<close>

text \<open>
  C3.  \<open>schedule_next\<close> always returns, dereferences no bad pointer, and keeps the kernel's
  invariants; the task it hands out, if any, is a leaf of the scheduling tree, runnable, now
  current, with a quantum left.
\<close>

theorem schedule_next_safe:
  assumes "kernel_ok k T"
  shows "\<exists>leaf k'. schedule_next k = Some (leaf, k') \<and> kernel_ok k' T
    \<and> (leaf \<noteq> 0 \<longrightarrow> LeafN leaf \<in> set (subs T) \<and> current_tcb k' = leaf
        \<and> h_runnable (heap k') leaf \<and> has_quantum k' leaf)"
  using schedule_next_ok [OF assms] .

theorem schedule_next_safe_witness:
  "\<exists>leaf k'. schedule_next ex_kernel = Some (leaf, k') \<and> kernel_ok k' ex_tree
    \<and> (leaf \<noteq> 0 \<longrightarrow> LeafN leaf \<in> set (subs ex_tree) \<and> current_tcb k' = leaf
        \<and> h_runnable (heap k') leaf \<and> has_quantum k' leaf)"
  using schedule_next_safe [OF ex_kernel_ok] .

text \<open>
  C4.  When some quantum on the running path is spent, the outermost node \<open>Z\<close> whose quantum
  is spent loses the CPU: the next leaf is found by climbing from the group above \<open>Z\<close> (from
  the root when \<open>Z\<close> is the root), each group offering the turn to its children in ring
  order from the one after its cursor.  Only cursors and quanta change.
\<close>

theorem spent_node_passes_turn:
  assumes "tree_ok k T" and "lineage T (Ps @ Z # Bs)" and "Ps @ Z # Bs = LeafN cur # As"
    and "spent k (addr Z)" and "\<forall>B\<in>set Bs. \<not> spent k (addr B)"
  shows "\<exists>k1 k'. moved T k k1 \<and> only_at (set (addrs Z)) k k1
    \<and> pick_next_leaf cur k = Some (climb (heap k1) (if Bs = [] then [T] else Bs), k')
    \<and> picked T k (climb (heap k1) (if Bs = [] then [T] else Bs)) k'"
  using pick_spent [OF assms] .

text \<open>The running task of the example has used up its quantum.\<close>

definition ex_spent :: kernel where
  "ex_spent = put 32 ((ex_leaf 16 48 64 1)\<lparr>st := Running, remaining_cycles := 0\<rparr>) ex_kernel"

lemma ex_spent_ok: "tree_ok ex_spent ex_tree"
proof (rule tree_ok_shape [OF ex_tree_ok])
  show "same_shape (heap ex_kernel) (heap ex_spent)"
    unfolding ex_spent_def heap_put
    by (rule same_shape_upd [of _ _ "(ex_leaf 16 48 64 1)\<lparr>st := Running\<rparr>"]) (simp_all add: ex_rdh shape_def)
qed (simp_all add: ex_spent_def put_def)

lemma ex_spent_rd: "rd ex_spent p = (if p = 32 then
    Some ((ex_leaf 16 48 64 1)\<lparr>st := Running, remaining_cycles := 0\<rparr>) else rdh ex_heap p)"
  by (simp add: ex_spent_def rd_put) (simp add: rd_def)

theorem spent_node_passes_turn_witness:
  "\<exists>k1 k'. moved ex_tree ex_spent k1 \<and> only_at {32} ex_spent k1
    \<and> pick_next_leaf 32 ex_spent = Some (climb (heap k1) [ex_tree], k')
    \<and> picked ex_tree ex_spent (climb (heap k1) [ex_tree]) k'"
  using spent_node_passes_turn [OF ex_spent_ok, of "[]" "LeafN 32" "[ex_tree]" 32 "[ex_tree]"]
    ex_lineage(1)
  by (simp add: spent_def ex_spent_rd ex_rdh ex_tree_def ex_group_def)

text \<open>
  C5.  With tasks directly under the root (no groups), the policy is round robin: when the
  running task's quantum is spent, the CPU goes to the next runnable task of the ring, and
  back to the task itself only when no other is runnable.
\<close>

theorem round_robin:
  assumes "tree_ok k (flat r as)" and "c \<in> set as" and "spent k c" and "\<not> spent k r"
    and "cursor (heap k) r = c"
  shows "\<exists>k'. pick_next_leaf c k = Some (or_null (next_runnable_opt (heap k) c), k')
    \<and> picked (flat r as) k (or_null (next_runnable_opt (heap k) c)) k'"
  using flat_round_robin [OF assms] .

definition flat_spent :: kernel where
  "flat_spent = put 32 ((ex_leaf 16 48 96 1)\<lparr>st := Running, remaining_cycles := 0\<rparr>) flat_kernel"

lemma flat_spent_ok: "tree_ok flat_spent (flat 16 flat_addrs)"
proof (rule tree_ok_shape [OF flat_tree_ok])
  show "same_shape (heap flat_kernel) (heap flat_spent)"
    unfolding flat_spent_def heap_put
    by (rule same_shape_upd [of _ _ "(ex_leaf 16 48 96 1)\<lparr>st := Running\<rparr>"]) (simp_all add: flat_rdh shape_def)
qed (simp_all add: flat_spent_def put_def)

lemma flat_spent_rd: "rd flat_spent p = (if p = 32 then
    Some ((ex_leaf 16 48 96 1)\<lparr>st := Running, remaining_cycles := 0\<rparr>) else rdh flat_heap p)"
  by (simp add: flat_spent_def rd_put) (simp add: rd_def)

theorem round_robin_witness:
  "\<exists>k'. pick_next_leaf 32 flat_spent = Some (or_null (next_runnable_opt (heap flat_spent) 32), k')
    \<and> picked (flat 16 flat_addrs) flat_spent (or_null (next_runnable_opt (heap flat_spent) 32)) k'"
proof (rule round_robin [OF flat_spent_ok])
  show "32 \<in> set flat_addrs" by (simp add: flat_addrs_def)
  show "spent flat_spent 32" by (simp add: spent_def flat_spent_rd)
  show "\<not> spent flat_spent 16" by (simp add: spent_def flat_spent_rd flat_rdh ex_group_def)
  show "cursor (heap flat_spent) 16 = 32"
    using flat_spent_rd [of 16] by (simp add: cursor_def rd_def flat_rdh ex_group_def)
qed

text \<open>
  Turn after turn the runnable tasks get the CPU in ring order: after \<open>n\<close> turns the
  one \<open>n\<close> places further, so each runnable task gets exactly one turn per lap.
\<close>

theorem round_robin_laps:
  assumes "tree_ok k (flat r as)" and "i < length (filter (h_runnable (heap k)) as)"
  shows "((\<lambda>p. the (next_runnable_opt (heap k) p)) ^^ n) (filter (h_runnable (heap k)) as ! i)
       = filter (h_runnable (heap k)) as ! ((i + n) mod length (filter (h_runnable (heap k)) as))"
  using flat_turns [OF assms] .

lemma flat_runnables: "filter (h_runnable flat_heap) flat_addrs = [32, 48, 80]"
  by (simp add: flat_addrs_def h_runnable_def flat_rdh not_runnable_def ex_leaf_def zero_tcb_def)

theorem round_robin_laps_witness:
  "((\<lambda>p. the (next_runnable_opt flat_heap p)) ^^ 4) 48 = 80"
  using round_robin_laps [OF flat_tree_ok, of 1 4] by (simp add: flat_runnables)

text \<open>
  Mid-slice: while no quantum on its path is spent, a runnable running task keeps the
  CPU, and the switch changes nothing.
\<close>

theorem resumes_mid_slice:
  assumes "tree_ok k T" and "lineage T (LeafN cur # As)"
    and "\<forall>A\<in>set (LeafN cur # As). \<not> spent k (addr A)" and "h_runnable (heap k) cur"
  shows "pick_next_leaf cur k = Some (cur, k)"
  using pick_resume [OF assms] .

theorem resumes_mid_slice_witness:
  "pick_next_leaf 80 ex_kernel = Some (80, ex_kernel)"
  by (rule resumes_mid_slice [OF ex_tree_ok ex_lineage(2)])
    (simp_all add: spent_def rd_def ex_rdh ex_tree_def h_runnable_def not_runnable_def
      ex_leaf_def ex_group_def zero_tcb_def)

text \<open>
  A descent from a node reaches exactly \<open>first_leaf\<close>: at every group the first runnable
  child from its cursor on.  It stays inside the subtree, changes only cursors and quanta,
  and the leaf it reaches has a quantum.
\<close>

theorem descend_reaches_first_leaf:
  assumes "tree_ok k T" and "S \<in> set (subs T)"
  shows "\<exists>k'. descend_and_arm (addr S) k = Some (first_leaf (heap k) S, k')
    \<and> settled T k k' \<and> only_at (set (addrs S)) k k'
    \<and> (first_leaf (heap k) S \<noteq> 0 \<longrightarrow> has_quantum k' (first_leaf (heap k) S))"
proof -
  note lim = tree_ok_limits [OF assms(1)]
  have "length (addrs S) \<le> length (addrs T)"
    using card_mono [OF _ subs_addrs [OF assms(2)]] lim(3) subs_distinct [OF lim(3) assms(2)]
    by (simp add: distinct_card)
  with lim descend_spec [OF lim(4,3) assms(2), of 0 "walk_limit k"] show ?thesis
    by (simp add: descend_and_arm_def)
qed

theorem descend_reaches_first_leaf_witness:
  "\<exists>k'. descend_and_arm 64 ex_kernel = Some (80, k') \<and> has_quantum k' 80"
  using descend_reaches_first_leaf [OF ex_tree_ok, of "GroupN 64 [LeafN 80, LeafN 96]"]
  by (auto simp: ex_tree_def choice_def turn_def cursor_def ex_rdh h_runnable_def not_runnable_def
      ex_leaf_def ex_group_def zero_tcb_def)

text \<open>
  Advancing from a group climbs from it towards the root and stops at the first group
  with a child that leads to a runnable leaf; it gives null only if there is none on the
  way up.
\<close>

theorem advance_climbs:
  assumes "tree_ok k T" and "lineage T (GroupN a ts # As)"
  shows "\<exists>k'. advance_from a k = Some (climb (heap k) (GroupN a ts # As), k') \<and> moved T k k'
     \<and> (climb (heap k) (GroupN a ts # As) \<noteq> 0 \<longrightarrow> has_quantum k' (climb (heap k) (GroupN a ts # As)))"
  using advance_from_spec [OF assms] .

theorem advance_climbs_witness:
  "\<exists>k'. advance_from 64 ex_kernel = Some (climb ex_heap [GroupN 64 [LeafN 80, LeafN 96], ex_tree], k')
     \<and> moved ex_tree ex_kernel k'"
  using advance_climbs [OF ex_tree_ok lineage_tl [OF ex_lineage(2)]] by auto

section \<open>Ticks and wake-ups\<close>

text \<open>
  C7.  A tick counts, takes one unit off the quantum of every node on the running path
  (never below zero) and off no other, then makes ready each visited task whose deadline
  has passed.
\<close>

theorem tick_effect:
  assumes "tree_ok k T" and "lineage T (LeafN (current_tcb k) # As)"
  shows "on_tick k = Some (k\<lparr>ticks := ticks k + 1, heap :=
     map_at (\<lambda>t. if due (ticks k + 1) t then make_ready t else t) (set (visited k T))
       (map_at drain_one (set (map addr (LeafN (current_tcb k) # As))) (heap k))\<rparr>)"
  using on_tick_effect [OF assms] .

lemma ex_visited: "visited ex_kernel ex_tree = [32, 48, 64, 80, 96]"
  by (simp add: visited_def ex_tree_def)

theorem tick_effect_witness:
  "on_tick ex_kernel = Some (ex_kernel\<lparr>ticks := 5, heap :=
     map_at (\<lambda>t. if due 5 t then make_ready t else t) {32, 48, 64, 80, 96}
       (map_at drain_one {32, 16} ex_heap)\<rparr>)"
proof -
  have "lineage ex_tree [LeafN (current_tcb ex_kernel), ex_tree]" using ex_lineage(1) by simp
  from tick_effect [OF ex_tree_ok this] show ?thesis
    unfolding ex_visited ex_fields list.map addr.simps ex_addr list.set by simp
qed

text \<open>
  C8.  Every walk over the tasks visits, in preorder, the nodes entered in the first
  \<open>nodes + 2\<close> events (entering a node or leaving it) of the full traversal, and no other.
\<close>

theorem walk_visits_prefix:
  assumes "tree_ok (snd s) T" and "cb_ok f"
  shows "walk_all f s = visit f (entered (take (unat (nodes (snd s)) + 2)
           (concat (map events (kids T))))) s"
  using walk_all_visits [OF assms] by (simp add: visited_def)

theorem walk_visits_prefix_witness:
  "walk_all (blocked_count_cb 7) (0, ex_kernel)
     = visit (blocked_count_cb 7) [32, 48, 64, 80, 96] (0, ex_kernel)"
proof -
  have "cb_ok (blocked_count_cb 7)"
    by (auto simp: cb_ok_def blocked_count_cb_def)
  from walk_visits_prefix [of "(0, ex_kernel)" ex_tree, OF _ this] show ?thesis
    using ex_tree_ok by (simp add: ex_tree_def)
qed



text \<open>
  C10.  \<open>wake_first_blocked_on\<close> wakes exactly the first visited task waiting on the resource
  (marking it woken), and tells whether there was one.
\<close>

theorem wake_first_wakes_one:
  assumes "tree_ok k T"
  shows "wake_first_blocked_on r k = Some (case List.find (h_waits k r) (visited k T) of
           None \<Rightarrow> (False, k)
         | Some p \<Rightarrow> (True, k\<lparr>heap := map_at (make_ready \<circ> set_woken) {p} (heap k)\<rparr>))"
  using wake_first_effect [OF assms] .

theorem wake_first_wakes_one_witness:
  "wake_first_blocked_on 7 ex_kernel
     = Some (True, ex_kernel\<lparr>heap := map_at (make_ready \<circ> set_woken) {48} ex_heap\<rparr>)"
  using wake_first_wakes_one [OF ex_tree_ok, of 7]
  by (simp add: ex_visited h_waits_def waits_on_def rd_def ex_rdh ex_leaf_def zero_tcb_def)

text \<open>
  \<open>wake_blocked_on\<close> makes ready every visited task waiting on the resource and no
  other; it does not mark them woken.
\<close>

theorem wake_all_effect:
  assumes "tree_ok k T"
  shows "wake_blocked_on r k = Some (k\<lparr>heap :=
           map_at (\<lambda>t. if waits_on r t then make_ready t else t) (set (visited k T)) (heap k)\<rparr>)"
  using wake_blocked_on_effect [OF assms] .

theorem wake_all_effect_witness:
  "wake_blocked_on 7 ex_kernel = Some (ex_kernel\<lparr>heap :=
     map_at (\<lambda>t. if waits_on 7 t then make_ready t else t) {32, 48, 64, 80, 96} ex_heap\<rparr>)"
  using wake_all_effect [OF ex_tree_ok, of 7] by (simp add: ex_visited)

text \<open>
  \<open>wake_task\<close> marks the visited task with the given id as woken, and makes it ready if it
  was blocked: a wake-up that comes before the wait is not lost.
\<close>

theorem wake_task_marks:
  assumes "tree_ok k T" and "i \<noteq> 0"
  shows "wake_task i k = Some (k\<lparr>heap :=
           map_at (\<lambda>t. if tid t = i then (if st t = Blocked then make_ready (set_woken t)
                       else set_woken t) else t) (set (visited k T)) (heap k)\<rparr>)"
  using wake_task_effect [OF assms] .

theorem wake_task_marks_witness:
  "wake_task 2 ex_kernel = Some (ex_kernel\<lparr>heap :=
     map_at (\<lambda>t. if tid t = 2 then (if st t = Blocked then make_ready (set_woken t)
                 else set_woken t) else t) {32, 48, 64, 80, 96} ex_heap\<rparr>)"
  using wake_task_marks [OF ex_tree_ok, of 2] by (simp add: ex_visited)

section \<open>Memory\<close>

text \<open>
  C11.  An allocation returns or reports exhaustion without a change.  A block it hands out
  is aligned, lies in the region, holds the requested size, and is disjoint from every live
  block and its header; the live blocks and their sizes are otherwise as before.
\<close>

theorem alloc_sound:
  assumes "arena_ok a fs" and "pow2 al n" and "room_for a sz (max al 4)" and "sz \<noteq> 0"
  shows "\<exists>r a'. alloc sz al a = Some (r, a') \<and> (case r of None \<Rightarrow> a' = a
     | Some p \<Rightarrow> (\<exists>fs'. arena_ok a' fs') \<and> alloc_good a sz (max al 4) p a')"
  using alloc_ok [OF assms] .

definition ex_arena :: arena where
  "ex_arena = arena_init 0x1000 256 arena_empty"

lemma ex_arena_ok: "arena_ok ex_arena []"
  unfolding ex_arena_def by (rule arena_init_ok(1)) simp_all

lemma ex_arena_alloc: "\<exists>a'. alloc 24 8 ex_arena = Some (Some 0x1010, a')"
proof -
  have "map_option fst (alloc 24 8 ex_arena) = Some (Some 0x1010)" by code_simp
  then show ?thesis by auto
qed

theorem alloc_sound_witness:
  "\<exists>a' fs'. alloc 24 8 ex_arena = Some (Some 0x1010, a') \<and> arena_ok a' fs' \<and> alloc_good ex_arena 24 8 0x1010 a'"
proof -
  have p: "pow2 8 3" by (simp add: pow2_def)
  have r: "room_for ex_arena 24 (max 8 4)" by (simp add: room_for_def ex_arena_def arena_init_def max_def)
  have m: "max 8 (4 :: usize) = 8" by (simp add: max_def)
  from ex_arena_alloc obtain a' where a: "alloc 24 8 ex_arena = Some (Some 0x1010, a')" by blast
  from alloc_sound [OF ex_arena_ok p r] a show ?thesis unfolding m by auto
qed

text \<open>
  C12.  Freeing a live block makes exactly that block not live, keeps every other live block
  and its size, keeps the arena's structure, and gives its size back to the accounting.
\<close>

theorem free_sound:
  assumes "arena_ok a fs" and "live_payload a p" and "p \<noteq> 0"
  shows "\<exists>a' fs'. arena_free p a = Some a' \<and> arena_ok a' fs' \<and>
    (\<forall>q. live_payload a' q \<longleftrightarrow> live_payload a q \<and> q \<noteq> p) \<and> (\<forall>q. live_payload a' q \<longrightarrow> size_at a' q = size_at a q) \<and>
    unat (ar_live a') = unat (ar_live a) - size_at a p"
  using free_ok [OF assms] .

definition ex_used :: arena where
  "ex_used = snd (the (alloc 24 8 ex_arena))"

lemma ex_used_ok: "\<exists>fs. arena_ok ex_used fs" "live_payload ex_used 0x1010"
proof -
  have p: "pow2 8 3" by (simp add: pow2_def)
  have r: "room_for ex_arena 24 (max 8 4)" by (simp add: room_for_def ex_arena_def arena_init_def max_def)
  from ex_arena_alloc obtain a' where a: "alloc 24 8 ex_arena = Some (Some 0x1010, a')" by blast
  from alloc_ok [OF ex_arena_ok p r] a show "\<exists>fs. arena_ok ex_used fs" "live_payload ex_used 0x1010"
    by (auto simp: ex_used_def alloc_good_def)
qed

theorem free_sound_witness:
  "\<exists>a'. arena_free 0x1010 ex_used = Some a' \<and> \<not> live_payload a' 0x1010"
proof -
  from ex_used_ok(1) obtain fs where "arena_ok ex_used fs" by blast
  from free_sound [OF this ex_used_ok(2)] show ?thesis by auto
qed



section \<open>The life of a task\<close>





text \<open>
  C16.  When the running task exits, its leaf leaves the tree and nothing else does, it
  becomes Dead and heads the list of tasks to reclaim, no task is current, a switch is
  requested, and the invariants hold.
\<close>

theorem exit_sound:
  assumes "kernel_ok k T" and "mem_ok k" and "dead_ok k T ns" and "LeafN (current_tcb k) \<in> set (subs T)"
  shows "\<exists>g us k' T'. exit_task (current_tcb k) k = Some k' \<and> GroupN g us \<in> set (subs T) \<and> LeafN (current_tcb k) \<in> set us
    \<and> T' = regroup g (cut (current_tcb k)) T \<and> kernel_ok k' T' \<and> mem_ok k' \<and> dead_ok k' T' (current_tcb k # ns)
    \<and> retired (current_tcb k) k k' \<and> set (addrs T') = set (addrs T) - {current_tcb k}"
  using exit_lifecycle [OF assms] .

theorem exit_sound_witness:
  "\<exists>k'. exit_task 0x20000088 boot_kernel = Some k' \<and> kernel_ok k' (GroupN 0x20000010 [])
    \<and> retired 0x20000088 boot_kernel k'"
proof -
  have l: "LeafN (current_tcb boot_kernel) \<in> set (subs boot_tree)" by (simp add: boot_tree_def)
  have t: "regroup 0x20000010 (cut 0x20000088) boot_tree = GroupN 0x20000010 []"
    by (simp add: boot_tree_def cut_def)
  from exit_sound [OF boot_ok l] obtain g us k' where
    e: "exit_task 0x20000088 boot_kernel = Some k'" "GroupN g us \<in> set (subs boot_tree)"
      "kernel_ok k' (regroup g (cut 0x20000088) boot_tree)" "retired 0x20000088 boot_kernel k'" by auto
  moreover from e(2) have "g = 0x20000010" by (simp add: boot_tree_def)
  ultimately show ?thesis using t by auto
qed

text \<open>
  C17.  Reclaiming frees, of every dead task the port does not pin, the TCB, the stack and
  the closure block, and no other memory; pinned tasks stay on the list, the tree is
  untouched, and the counter grows by the number of tasks freed.
\<close>

theorem reclaim_sound:
  assumes "supported P" and "mem_ok k" and "tree_ok k T" and "dead_ok k T ns"
  shows "\<exists>k' B. reclaim_finished_tasks P k = Some k' \<and> mem_ok k' \<and> tree_ok k' T
     \<and> dead_ok k' T (rev (filter (port_pinned P) ns))
     \<and> (\<forall>a\<in>set ns. \<not> port_pinned P a \<longrightarrow> rd k' a = None)
     \<and> (\<forall>a. a \<notin> set ns \<longrightarrow> rd k' a = rd k a)
     \<and> lost_all (karena k) (karena k') B
     \<and> B = (\<Union>a\<in>{a \<in> set ns. \<not> port_pinned P a}.
         insert a (set (blocks_of (the (rd k a)))))
     \<and> current_tcb k' = current_tcb k \<and> active_threads k' = active_threads k
     \<and> reclaimed k' = reclaimed k
         + of_nat (length (filter (\<lambda>a. \<not> port_pinned P a) ns))"
  by (rule reclaimer.reclaim_ok [OF port_contract.axioms(1) [OF supported_contract [OF assms(1)]] assms(2-)])

theorem reclaim_sound_witness:
  "\<exists>k' k''. exit_task 0x20000088 boot_kernel = Some k'
    \<and> reclaim_finished_tasks boot_port k' = Some k'' \<and> rd k' 0x20000088 \<noteq> None \<and> rd k'' 0x20000088 = None
    \<and> reclaimed k'' = reclaimed boot_kernel + 1"
proof -
  have l: "LeafN (current_tcb boot_kernel) \<in> set (subs boot_tree)" by (simp add: boot_tree_def)
  from exit_lifecycle [OF boot_ok l] obtain T' k' where
    e: "exit_task 0x20000088 boot_kernel = Some k'" "kernel_ok k' T'" "mem_ok k'" "dead_ok k' T' [0x20000088]"
      "retired 0x20000088 boot_kernel k'" by auto
  from e(2) have tk: "tree_ok k' T'" by (simp add: kernel_ok_def)
  have r: "rd k' 0x20000088 \<noteq> None" using e(4) dead_list_rd by (fastforce simp: dead_ok_def)
  have p: "\<not> port_pinned boot_port a" for a by (simp add: cortex_port_def cm_is_pinned_def)
  have "\<exists>k'' B. reclaim_finished_tasks boot_port k' = Some k'' \<and> mem_ok k'' \<and> tree_ok k'' T'
     \<and> dead_ok k'' T' (rev (filter (port_pinned boot_port) [0x20000088]))
     \<and> (\<forall>a\<in>set [0x20000088]. \<not> port_pinned boot_port a \<longrightarrow> rd k'' a = None)
     \<and> (\<forall>a. a \<notin> set [0x20000088] \<longrightarrow> rd k'' a = rd k' a)
     \<and> lost_all (karena k') (karena k'') B
     \<and> B = (\<Union>a\<in>{a \<in> set [0x20000088]. \<not> port_pinned boot_port a}. insert a (set (blocks_of (the (rd k' a)))))
     \<and> current_tcb k'' = current_tcb k' \<and> active_threads k'' = active_threads k'
     \<and> reclaimed k'' = reclaimed k' + of_nat (length (filter (\<lambda>a. \<not> port_pinned boot_port a) [0x20000088]))"
    by (rule reclaim_sound [OF supported_ports(1) e(3) tk e(4)])
  then obtain k'' where k'': "reclaim_finished_tasks boot_port k' = Some k''" "rd k'' 0x20000088 = None"
      "reclaimed k'' = reclaimed k' + 1" using p by auto
  moreover have "reclaimed k' = reclaimed boot_kernel" using e(5) by (simp add: retired_def)
  ultimately show ?thesis using e(1) r by auto
qed

text \<open>
  The closure block has room for the header and the closure, at an offset that meets
  the closure's alignment, with at most 71 bytes beyond its size.
\<close>

theorem closure_fits:
  assumes "closure_ok f"
  shows "unat (closure_data_off (snd f)) mod unat (snd f) = 0 \<and> unat HEADER_SIZE \<le> unat (closure_data_off (snd f))
    \<and> unat (closure_data_off (snd f)) + unat (fst f) \<le> unat (block_size_for (fst f) (snd f))
    \<and> unat (block_size_for (fst f) (snd f)) \<le> unat (fst f) + 71"
  using closure_layout [OF assms] by blast

theorem closure_fits_witness:
  "unat (closure_data_off 16) mod 16 = 0 \<and> unat (closure_data_off 16) + 40 \<le> unat (block_size_for 40 16)"
proof -
  have "closure_ok (40, 16)" using exI [of "pow2 16" 4] by (simp add: closure_ok_def pow2_def)
  from closure_fits [OF this] show ?thesis by simp
qed

text \<open>
  A task's quantum is accepted exactly when it is a positive whole number of ticks
  that fits 32 bits, and the number stored is that quotient.
\<close>

theorem quantum_is_exact:
  assumes "sl \<noteq> SliceDefault" and "port_ns P (kc_slice_cycles (config k)) k \<noteq> 0"
  shows "quantum_ticks_for P sl k = Inr n \<longleftrightarrow>
    n \<noteq> 0 \<and> unat (as_nanos sl (kc_timer_hz (config k))) = unat n * unat (port_ns P (kc_slice_cycles (config k)) k)"
  using quantum_exact [OF assms] .

theorem quantum_is_exact_witness:
  "quantum_ticks_for boot_port (Millis 20) boot_kernel = Inr 20 \<and> quantum_ticks_for boot_port (Micros 1500) boot_kernel \<noteq> Inr 1"
proof -
  have ns: "port_ns boot_port (kc_slice_cycles (config boot_kernel)) boot_kernel = 1000000" by code_simp
  then have ne: "port_ns boot_port (kc_slice_cycles (config boot_kernel)) boot_kernel \<noteq> 0" by simp
  show ?thesis
    using quantum_is_exact [OF _ ne, of "Millis 20" 20] quantum_is_exact [OF _ ne, of "Micros 1500" 1]
    unfolding ns by (simp add: as_nanos_def sat_mul_def)
qed

section \<open>Locks\<close>

text \<open>
  C18.  Asking for a lock that no owner is recorded for: refused with the two ids when the
  lock does not come after all that are held, refused when all four places are taken, and
  otherwise granted and appended to the held list; a refusal changes nothing.
\<close>

theorem lock_order:
  assumes "current_tcb k = me" and "rd k me = Some t" and "held_ok t" and "tid t \<noteq> 0" and "mh_owner m = 0"
  shows "try_acquire m k = Some (case order_verdict (held t) (mh_id m) of
      Inl e \<Rightarrow> (Inl e, k)
    | Inr _ \<Rightarrow> (Inr True, put me (pushed (mh_id m) t) k))"
  using try_acquire_run [OF assms] .

definition ex_holder :: tcb where
  "ex_holder = (ex_leaf 16 48 64 1)\<lparr>st := Running, held_locks := 5 # replicate 3 0, held_count := 1\<rparr>"

definition ex_locked :: kernel where
  "ex_locked = put 32 ex_holder ex_kernel"

lemma ex_locked_rd: "rd ex_locked p = (if p = 32 then Some ex_holder else rdh ex_heap p)"
  by (simp add: ex_locked_def rd_put) (simp add: rd_def)

lemma ex_holder_ok: "held_ok ex_holder" "held ex_holder = [5]" "tid ex_holder = 1"
  by (simp_all add: held_ok_def held_def ex_holder_def MAX_HELD_LOCKS_def ex_leaf_def)

lemma ex_leaf_held: "held_ok (ex_leaf p n v i)" "held (ex_leaf p n v i) = []"
  by (simp_all add: held_ok_def held_def MAX_HELD_LOCKS_def ex_leaf_def zero_tcb_def)

theorem lock_order_witness:
  "try_acquire \<lparr>mh_id = 3, mh_owner = 0\<rparr> ex_locked = Some (Inl (OrderViolation 5 3), ex_locked)
   \<and> try_acquire \<lparr>mh_id = 9, mh_owner = 0\<rparr> ex_locked = Some (Inr True, put 32 (pushed 9 ex_holder) ex_locked)"
proof -
  have c: "current_tcb ex_locked = 32" by (simp add: ex_locked_def put_def)
  have r: "rd ex_locked 32 = Some ex_holder" by (simp add: ex_locked_rd)
  show ?thesis
    using lock_order [OF c r ex_holder_ok(1), of "\<lparr>mh_id = 3, mh_owner = 0\<rparr>"]
      lock_order [OF c r ex_holder_ok(1), of "\<lparr>mh_id = 9, mh_owner = 0\<rparr>"] ex_holder_ok(2,3)
    by (simp add: order_verdict_def MAX_HELD_LOCKS_def)
qed

text \<open>
  The order check rules out deadlock among lockers: when every held list ascends, the
  relation "the check lets \<open>p\<close> ask for a lock that \<open>q\<close> holds" has no cycle.
\<close>

theorem no_lock_cycle:
  assumes "\<forall>p t. rd k p = Some t \<longrightarrow> held_ok t"
  shows "acyclic {(p, q). may_wait_for k p q}"
  using no_circular_wait [OF assms] .

theorem no_lock_cycle_witness:
  "acyclic {(p, q). may_wait_for ex_locked p q} \<and> may_wait_for ex_locked 48 32"
proof -
  have g: "held_ok (ex_group p n v h c)" for p n v h c
    by (simp add: held_ok_def held_def MAX_HELD_LOCKS_def ex_group_def zero_tcb_def)
  have l: "held_ok (ex_leaf p n v i\<lparr>st := s, blocked_on := r, block_deadline := d\<rparr>)"
    "held_ok (ex_leaf p n v i\<lparr>st := s, blocked_on := r\<rparr>)" for p n v i s r d
    by (simp_all add: held_ok_def held_def MAX_HELD_LOCKS_def ex_leaf_def zero_tcb_def)
  have "\<forall>p t. rd ex_locked p = Some t \<longrightarrow> held_ok t"
    using g l ex_leaf_held(1) ex_holder_ok(1) by (auto simp: ex_locked_rd ex_rdh)
  from no_lock_cycle [OF this] have "acyclic {(p, q). may_wait_for ex_locked p q}" .
  moreover have "may_wait_for ex_locked 48 32"
    unfolding may_wait_for_def ex_locked_rd
    using ex_holder_ok(2) by (auto simp: ex_rdh order_verdict_def held_def ex_leaf_def zero_tcb_def)
  ultimately show ?thesis by blast
qed

text \<open>
  C19.  A mutex does not exclude: \<open>try_acquire\<close> reads the owner word and never sets it (the
  two stores stand inside comments), so of two tasks that lock the same mutex one after the
  other, both get it and both hold it.
\<close>

theorem mutex_excludes_nobody:
  assumes "rd k p = Some t" "held_ok t" "tid t \<noteq> 0" "order_verdict (held t) (mh_id m) = Inr ()"
    and "rd k q = Some u" "held_ok u" "tid u \<noteq> 0" "order_verdict (held u) (mh_id m) = Inr ()"
    and "p \<noteq> q" and "mh_owner m = 0"
  shows "\<exists>k1 k2 t' u'. lock_turn m (k\<lparr>current_tcb := p\<rparr>) = Some (Done (Inr ()), k1)
    \<and> lock_turn m (k1\<lparr>current_tcb := q\<rparr>) = Some (Done (Inr ()), k2)
    \<and> rd k2 p = Some t' \<and> mh_id m \<in> set (held t') \<and> rd k2 q = Some u' \<and> mh_id m \<in> set (held u')"
  using second_owner [OF assms] .

theorem mutex_excludes_nobody_witness:
  "\<exists>k1 k2 t' u'. lock_turn \<lparr>mh_id = 9, mh_owner = 0\<rparr> (ex_locked\<lparr>current_tcb := 32\<rparr>) = Some (Done (Inr ()), k1)
    \<and> lock_turn \<lparr>mh_id = 9, mh_owner = 0\<rparr> (k1\<lparr>current_tcb := 80\<rparr>) = Some (Done (Inr ()), k2)
    \<and> rd k2 32 = Some t' \<and> 9 \<in> set (held t') \<and> rd k2 80 = Some u' \<and> 9 \<in> set (held u')"
  using mutex_excludes_nobody [of ex_locked 32 ex_holder "\<lparr>mh_id = 9, mh_owner = 0\<rparr>" 80 "ex_leaf 64 96 96 3"]
    ex_holder_ok ex_leaf_held [of 64 96 96 3]
  by (simp add: ex_locked_rd ex_rdh order_verdict_def MAX_HELD_LOCKS_def ex_leaf_def)

text \<open>
  Unlocking takes the first occurrence of the lock off the caller's held list, keeps
  the rest of it in order, and makes ready every visited task waiting on the lock.
\<close>

theorem unlock_effect:
  assumes "tree_ok k T" and "current_tcb k = me" and "rd k me = Some t" and "held_ok t"
  shows "\<exists>u k1. k1 = put me u k \<and> held u = remove1 (mh_id m) (held t) \<and> held_ok u
    \<and> no_held u = no_held t \<and> tree_ok k1 T
    \<and> release_shim m k = Some (k1\<lparr>heap := map_at (\<lambda>t. if waits_on (mh_id m) t then make_ready t else t)
         (set (visited k1 T)) (heap k1)\<rparr>)"
  using release_shim_run [OF assms] .

lemma ex_locked_ok: "tree_ok ex_locked ex_tree"
proof (rule tree_ok_shape [OF ex_tree_ok])
  show "same_shape (heap ex_kernel) (heap ex_locked)"
    unfolding ex_locked_def heap_put ex_holder_def
    by (rule same_shape_upd [of _ _ "(ex_leaf 16 48 64 1)\<lparr>st := Running\<rparr>"]) (simp_all add: ex_rdh shape_def)
qed (simp_all add: ex_locked_def put_def)

theorem unlock_effect_witness:
  "\<exists>u k'. release_shim \<lparr>mh_id = 5, mh_owner = 0\<rparr> ex_locked = Some k' \<and> held u = [] \<and> no_held u = no_held ex_holder"
proof -
  have c: "current_tcb ex_locked = 32" by (simp add: ex_locked_def put_def)
  have r: "rd ex_locked 32 = Some ex_holder" by (simp add: ex_locked_rd)
  from unlock_effect [OF ex_locked_ok c r ex_holder_ok(1), of "\<lparr>mh_id = 5, mh_owner = 0\<rparr>"] show ?thesis
    by (auto simp: ex_holder_ok(2))
qed

section \<open>Blocking and events\<close>

text \<open>
  \<open>mark_blocked_locked\<close> on the running task: a deadline already reached is reported and
  nothing changes; otherwise the task is Blocked on the resource until the deadline (0 for
  none) and a switch is requested.
\<close>

theorem block_outcomes:
  assumes "on_cpu k p t"
  shows "mark_blocked_locked r d k = Some (if d \<noteq> 0 \<and> d \<le> ticks k then (OutAlreadyPast, k)
    else (OutBlocked, request_switch (put p (blocked r d t) k)))"
  using mark_blocked_run [OF assms] .

lemma ex_on_cpu: "on_cpu ex_kernel 32 ((ex_leaf 16 48 64 1)\<lparr>st := Running\<rparr>)"
  by (simp add: on_cpu_def rd_def ex_rdh)

theorem block_outcomes_witness:
  "mark_blocked_locked 7 3 ex_kernel = Some (OutAlreadyPast, ex_kernel)
   \<and> map_option fst (mark_blocked_locked 7 9 ex_kernel) = Some OutBlocked"
  using block_outcomes [OF ex_on_cpu, of 7 3] block_outcomes [OF ex_on_cpu, of 7 9] by simp

text \<open>
  C20.  A wake-up before the wait is not lost: after \<open>wake_task\<close> on a visited task, that
  task's next \<open>park\<close>, with any deadline, returns Woken at once.
\<close>

theorem wake_before_park:
  assumes "tree_ok k T" and "p \<in> set (visited k T)" and "rd k p = Some t" and "tid t \<noteq> 0"
  shows "\<exists>k' u. wake_task (tid t) k = Some k' \<and> rd k' p = Some u \<and> st u \<noteq> Blocked \<and>
    (\<forall>d. \<exists>k''. park_turn (tid t) d (k'\<lparr>current_tcb := p\<rparr>) = Some (Done Woken, k''))"
  using wake_then_park [OF assms] .

lemma ex_visited_mem: "48 \<in> set (visited ex_kernel ex_tree)" "80 \<in> set (visited ex_kernel ex_tree)"
  "32 \<in> set (visited ex_kernel ex_tree)" "96 \<in> set (visited ex_kernel ex_tree)"
  by (simp_all add: ex_visited)

theorem wake_before_park_witness:
  "\<exists>k' k''. wake_task 3 ex_kernel = Some k' \<and> park_turn 3 0 (k'\<lparr>current_tcb := 80\<rparr>) = Some (Done Woken, k'')"
  using wake_before_park [OF ex_tree_ok ex_visited_mem(2), of "ex_leaf 64 96 96 3"]
  by (simp add: rd_def ex_rdh) (auto simp: ex_leaf_def)



text \<open>
  \<open>WaitQueue::wake_one\<close> delivers: the first visited waiter is ready, and its next turn
  in \<open>wait\<close>, with any deadline, returns success.
\<close>

theorem wake_one_is_delivered:
  assumes "tree_ok k T" and "List.find (h_waits k (wq_id q)) (visited k T) = Some p"
  shows "\<exists>k' u. wake_one q k = Some (True, k') \<and> rd k' p = Some u \<and> st u = Ready \<and>
    (\<forall>d. \<exists>k''. wq_wait_turn d q (k'\<lparr>current_tcb := p\<rparr>) = Some (Done (Inr ()), k''))"
  using wake_one_delivers [OF assms] .

theorem wake_one_is_delivered_witness:
  "\<exists>k' k''. wake_one \<lparr>wq_id = 7\<rparr> ex_kernel = Some (True, k')
    \<and> wq_wait_turn 0 \<lparr>wq_id = 7\<rparr> (k'\<lparr>current_tcb := 48\<rparr>) = Some (Done (Inr ()), k'')"
proof -
  have "List.find (h_waits ex_kernel (wq_id \<lparr>wq_id = 7\<rparr>)) (visited ex_kernel ex_tree) = Some 48"
    by (simp add: ex_visited h_waits_def waits_on_def rd_def ex_rdh ex_leaf_def zero_tcb_def)
  from wake_one_is_delivered [OF ex_tree_ok this] show ?thesis by blast
qed

text \<open>
  C22.  \<open>WaitQueue::wake_all\<close> does not deliver: it makes a waiter ready without marking it
  woken, so the waiter's next turn in \<open>wait\<close> blocks it on the queue again.
\<close>

theorem wake_all_is_lost:
  assumes "tree_ok k T" and "p \<in> set (visited k T)" and "rd k p = Some t"
    and "waits_on (wq_id q) t" and "\<not> woken t" and "d = 0 \<or> ticks k < d"
  shows "\<exists>n k1 u k2 v. wake_all q k = Some (n, k1) \<and> n \<noteq> 0 \<and> rd k1 p = Some u \<and> st u = Ready
    \<and> wq_wait_turn d q (k1\<lparr>current_tcb := p\<rparr>) = Some (Again, k2) \<and> rd k2 p = Some v \<and> waits_on (wq_id q) v"
  using wake_all_reblocks [OF assms] .

theorem wake_all_is_lost_witness:
  "\<exists>n k1 k2 v. wake_all \<lparr>wq_id = 7\<rparr> ex_kernel = Some (n, k1)
    \<and> wq_wait_turn 0 \<lparr>wq_id = 7\<rparr> (k1\<lparr>current_tcb := 96\<rparr>) = Some (Again, k2) \<and> rd k2 96 = Some v \<and> waits_on 7 v"
  using wake_all_is_lost [OF ex_tree_ok ex_visited_mem(4), of "(ex_leaf 64 80 80 4)\<lparr>st := Blocked, blocked_on := 7\<rparr>"
      "\<lparr>wq_id = 7\<rparr>" 0]
  by (simp add: rd_def ex_rdh waits_on_def woken_def) (auto simp: ex_leaf_def zero_tcb_def)

text \<open>
  A wake flag outlives the wait it was meant for: a signal's \<open>wait\<close> that succeeds
  leaves the flag set, and the task's next \<open>WaitQueue::wait\<close> returns success although nobody
  woke the queue.
\<close>

theorem wake_flag_goes_stale:
  assumes "on_cpu k p t" and "woken t" and "sig_set g"
  shows "\<exists>g' k' k''. signal_wait_turn i d (g, k) = Some (Done (Inr ()), g', k')
    \<and> wq_wait_turn d' q k' = Some (Done (Inr ()), k'')"
  using stale_wake_flag [OF assms] .

theorem wake_flag_goes_stale_witness:
  "\<exists>g' k' k''. signal_wait_turn 1 0 (\<lparr>sig_set = True, sig_waiter = 0\<rparr>,
       put 32 (set_woken ((ex_leaf 16 48 64 1)\<lparr>st := Running\<rparr>)) ex_kernel) = Some (Done (Inr ()), g', k')
    \<and> wq_wait_turn 0 \<lparr>wq_id = 7\<rparr> k' = Some (Done (Inr ()), k'')"
  by (rule wake_flag_goes_stale [OF on_cpu_put [OF ex_on_cpu] woken_set_woken]) simp

section \<open>Time, tasks that poll, and pipes\<close>

text \<open>
  C23.  A duration becomes the least positive number of ticks that covers it (all ones when
  it does not fit), so no sleep is shorter than asked and none is zero ticks.
\<close>

theorem sleep_covers_duration:
  assumes "ns \<noteq> 0"
  shows "unat (ticks_covering ns d) = min (2 ^ 64 - 1)
      (max 1 ((unat (as_nanos_u128 d) + unat ns - 1) div unat ns))
    \<and> (ticks_covering ns d \<noteq> - 1 \<longrightarrow> unat (as_nanos_u128 d) \<le> unat (ticks_covering ns d) * unat ns)"
  using ticks_ceil [OF assms] ticks_cover(1) [OF assms] by blast

theorem sleep_covers_duration_witness:
  "unat (ticks_covering 1000000 (Duration 0 1500000)) = 2
    \<and> unat (ticks_covering 1000000 (Duration 0 0)) = 1"
  using sleep_covers_duration [of 1000000 "Duration 0 1500000"]
    sleep_covers_duration [of 1000000 "Duration 0 0"]
  by (simp add: unat_as_nanos)

text \<open>
  A task in \<open>block_on\<close> over a sleep future blocks until the deadline when it lies
  ahead, and returns once the clock has reached it.
\<close>

theorem async_sleep_effect:
  assumes "on_cpu k p t"
  shows "(if ticks k < sl_deadline f
      then \<exists>u k'. block_on_turn sleep_poll w Polling (f, k) = Some (Again, Parked (tid t) (sl_deadline f), f, k')
        \<and> rd k' p = Some u \<and> st u = Blocked \<and> blocked_on u = tid t \<and> block_deadline u = sl_deadline f \<and> \<not> woken u
        \<and> ticks k' = ticks k \<and> switch_pending k'
      else block_on_turn sleep_poll w Polling (f, k) = Some (Done (), Polling, f, put p (undated t) k))"
  using async_sleep_blocks [OF assms] async_sleep_done [OF assms] by (simp add: not_less)

theorem async_sleep_effect_witness:
  "\<exists>k'. block_on_turn sleep_poll 32 Polling (\<lparr>sl_deadline = 9\<rparr>, ex_kernel)
      = Some (Again, Parked 1 9, \<lparr>sl_deadline = 9\<rparr>, k')
    \<and> block_on_turn sleep_poll 32 Polling (\<lparr>sl_deadline = 4\<rparr>, ex_kernel)
      = Some (Done (), Polling, \<lparr>sl_deadline = 4\<rparr>, put 32 (undated ((ex_leaf 16 48 64 1)\<lparr>st := Running\<rparr>)) ex_kernel)"
proof -
  have "tid ((ex_leaf 16 48 64 1)\<lparr>st := Running\<rparr>) = 1" by (simp add: ex_leaf_def)
  then show ?thesis
    using async_sleep_effect [OF ex_on_cpu, of "\<lparr>sl_deadline = 9\<rparr>" 32] async_sleep_effect [OF ex_on_cpu, of "\<lparr>sl_deadline = 4\<rparr>" 32]
    by auto
qed

text \<open>
  A task awaiting a signal with a deadline never registers as its waiter: it sleeps
  until the deadline, and a \<open>set\<close> in the meantime changes no task.
\<close>

theorem awaited_signal_sleeps_on:
  assumes "on_cpu k p t" and "\<not> sig_set g" "sig_waiter g = 0" and "d \<noteq> 0" "ticks k < d"
  shows "\<exists>u k'. block_on_turn signal_poll w Polling ((d, g), k) = Some (Again, Parked (tid t) d, (d, g), k')
    \<and> rd k' p = Some u \<and> st u = Blocked \<and> blocked_on u = tid t \<and> block_deadline u = d \<and> \<not> woken u
    \<and> ticks k' = ticks k \<and> switch_pending k' \<and> signal_set (g, k') = Some (g\<lparr>sig_set := True\<rparr>, k')"
  using async_signal_sleeps_on [OF assms] .

theorem awaited_signal_sleeps_on_witness:
  "\<exists>k'. block_on_turn signal_poll 32 Polling ((1004, signal_new), ex_kernel)
      = Some (Again, Parked 1 1004, (1004, signal_new), k')
    \<and> signal_set (signal_new, k') = Some (signal_new\<lparr>sig_set := True\<rparr>, k')"
proof -
  have "tid ((ex_leaf 16 48 64 1)\<lparr>st := Running\<rparr>) = 1" by (simp add: ex_leaf_def)
  then show ?thesis
    using awaited_signal_sleeps_on [OF ex_on_cpu, of signal_new 1004 32] by (auto simp: signal_new_def)
qed

text \<open>
  C24.  A pipe is a queue: through any sequence of interrupt-side pushes and writes and
  task-side reads, what was read so far, followed by what the pipe holds, is what was
  accepted so far, in order; no byte is lost, repeated or reordered.
\<close>

theorem pipe_is_fifo:
  assumes "pipe_ok p" and "tree_ok k T" and "list_all op_small as" and "c @ sent = got @ contents p"
  shows "\<exists>sent' got' p' k'. pipe_run as (sent, got, p, k) = Some (sent', got', p', k') \<and> pipe_ok p' \<and> tree_ok k' T
    \<and> c @ sent' = got' @ contents p'"
  using pipe_run_ok [OF assms] .

theorem pipe_is_fifo_witness:
  "\<exists>sent got p' k'. pipe_run [PushOp 1, WriteOp [2, 3, 4], PopOp [0, 0], PushOp 5] ([], [], pipe_new, ex_kernel)
      = Some (sent, got, p', k') \<and> sent = got @ contents p'"
  using pipe_is_fifo [OF pipe_new_ok ex_tree_ok, of "[PushOp 1, WriteOp [2, 3, 4], PopOp [0, 0], PushOp 5]" "[]" "[]" "[]"]
  by (simp add: contents_new) blast

section \<open>The Cortex-M port\<close>

text \<open>
  A timer plan that is accepted fits SysTick: at least 100 and fewer than \<open>2 ^ 24\<close>
  cycles per slice, so the reload value, one less, neither wraps nor is truncated, for a
  nonzero clock.
\<close>

theorem timer_plan_fits:
  assumes "cm_plan_timer cfg = Inr plan"
  shows "100 \<le> unat (plan_slice_cycles plan) \<and> unat (plan_slice_cycles plan) < 2 ^ 24
    \<and> unat (plan_slice_cycles plan - 1) = unat (plan_slice_cycles plan) - 1
    \<and> plan_timer_hz plan = cfg_timer_hz cfg \<and> cfg_timer_hz cfg \<noteq> 0
    \<and> unat (plan_slice_cycles plan) = unat (plan_cycles cfg)"
  using plan_timer_ok [OF assms] by blast

theorem timer_plan_fits_witness:
  "\<exists>plan. cm_plan_timer (scheduler_config_default\<lparr>cfg_slice := Cycles 8000, cfg_timer_hz := 8000000\<rparr>) = Inr plan
    \<and> unat (plan_slice_cycles plan - 1) = 7999"
proof -
  let ?plan = "\<lparr>plan_slice_ns = cycles_to_ns_with 8000000 8000, plan_slice_cycles = 8000, plan_timer_hz = 8000000\<rparr>"
  have p: "cm_plan_timer (scheduler_config_default\<lparr>cfg_slice := Cycles 8000, cfg_timer_hz := 8000000\<rparr>) = Inr ?plan"
    by (simp add: cm_plan_timer_def plan_cycles_def scheduler_config_default_def MIN_SLICE_CYCLES_def
        MAX_SLICE_CYCLES_def Let_def)
  from timer_plan_fits [OF p] p show ?thesis by simp
qed

text \<open>
  C27.  A context switch is undone by the switch back: when a task saved by \<open>PendSV\<close> is
  restored later, with its stack frame and saved stack pointer untouched, R4 to R11 and its
  stack pointer are what they were, the exception returns to the stack it was using, and the
  slice counter restarts.
\<close>

theorem switch_round_trip:
  assumes "k_current k = p" and "rd k p = Some t" and "length (r4_r11 cp) = 8"
    and "pendsv_save cp k = Some (cp1, k1)" and "rd k1 p = Some t1"
    and "rd k2 p = Some t2" "sp t2 = sp t1" "uses_msp t2 = uses_msp t"
      "\<forall>i<8. words k2 (sp t1 + of_nat (4 * i)) = words k1 (sp t1 + of_nat (4 * i))"
  shows "\<exists>cp3 k3. pendsv_restore p cp2 k2 = Some (cp3, k3) \<and> r4_r11 cp3 = r4_r11 cp \<and>
    (if uses_msp t then msp cp3 = msp cp \<and> exc_return cp3 = 0xFFFFFFF9
     else psp cp3 = psp cp \<and> exc_return cp3 = 0xFFFFFFFD) \<and> words k3 SYST_CVR = Some 0"
  using switch_back [OF assms] .

definition ex_cpu :: cpu where
  "ex_cpu = \<lparr>r4_r11 = [4, 5, 6, 7, 8, 9, 10, 11], psp = 0x20000800, msp = 0x20001000, exc_return = 0xFFFFFFFD\<rparr>"

theorem switch_round_trip_witness:
  "\<exists>cp1 k1 cp3 k3. pendsv_save ex_cpu ex_kernel = Some (cp1, k1)
    \<and> pendsv_restore 32 (ex_cpu\<lparr>r4_r11 := replicate 8 0, psp := 0\<rparr>) k1 = Some (cp3, k3)
    \<and> r4_r11 cp3 = r4_r11 ex_cpu \<and> psp cp3 = 0x20000800"
proof -
  let ?t = "(ex_leaf 16 48 64 1)\<lparr>st := Running\<rparr>"
  have c: "k_current ex_kernel = 32" by (simp add: k_current_def)
  have r: "rd ex_kernel 32 = Some ?t" by (simp add: rd_def ex_rdh)
  have l: "length (r4_r11 ex_cpu) = 8" by (simp add: ex_cpu_def)
  have u: "\<not> uses_msp ?t" by (simp add: uses_msp_def ex_leaf_def zero_tcb_def)
  from pendsv_save_run [OF c r] obtain cp1 k1 w where
    s: "pendsv_save ex_cpu ex_kernel = Some (cp1, k1)" "k1 = put 32 (?t\<lparr>sp := psp ex_cpu - 32\<rparr>) (ex_kernel\<lparr>words := w\<rparr>)"
    using u by simp
  have t1: "rd k1 32 = Some (?t\<lparr>sp := psp ex_cpu - 32\<rparr>)" by (simp add: s(2) rd_def)
  have u1: "uses_msp (?t\<lparr>sp := psp ex_cpu - 32\<rparr>) = uses_msp ?t" by (simp add: uses_msp_def)
  from switch_round_trip [OF c r l s(1) t1 t1 refl u1, of "ex_cpu\<lparr>r4_r11 := replicate 8 0, psp := 0\<rparr>"] u s(1)
  show ?thesis by (auto simp: ex_cpu_def)
qed


section \<open>Idle groups\<close>

text \<open>
  C6.  A group hides its runnable tasks behind an idle child group: when no current task is left
  and every child of the root leads, along the cursors, to nothing that can run, the switch
  hands out null, and leaves a kernel in which the next switch will hand out null too, although
  a task with another parent on the way is ready all the time (as in the witness).
\<close>

theorem idle_group_starves:
  assumes "kernel_ok k T" and "T = GroupN (root k) ts" and "eff_cur k = 0"
    and "\<forall>c\<in>set ts. first_leaf (heap k) c = 0"
  shows "\<exists>k'. schedule_next k = Some (0, k') \<and> kernel_ok k' T \<and> root k' = root k \<and> eff_cur k' = 0
    \<and> (\<forall>c\<in>set ts. first_leaf (heap k') c = 0) \<and> (\<forall>a. h_runnable (heap k') a = h_runnable (heap k) a)"
  by (rule switch_none [OF assms])

theorem idle_group_starves_witness:
  "\<exists>k1 k2. schedule_next nest_kernel = Some (0, k1) \<and> schedule_next k1 = Some (0, k2)
    \<and> LeafN 96 \<in> set (subs nest_tree) \<and> h_runnable (heap k1) 96 \<and> h_runnable (heap k2) 96"
proof -
  have T: "nest_tree = GroupN (root nest_kernel) [GroupN 48 [GroupN 64 [LeafN 80], LeafN 96]]"
    by (simp add: nest_tree_def)
  have e: "eff_cur nest_kernel = 0" by (simp add: eff_cur_def)
  have n: "\<forall>c\<in>set [GroupN 48 [GroupN 64 [LeafN 80], LeafN 96]]. first_leaf (heap nest_kernel) c = 0"
    using nest_hides(1) by (simp del: first_leaf.simps)
  from idle_group_starves [OF nest_ok T e n] obtain k1 where k1: "schedule_next nest_kernel = Some (0, k1)"
    "kernel_ok k1 nest_tree" "root k1 = root nest_kernel" "eff_cur k1 = 0"
    "\<forall>c\<in>set [GroupN 48 [GroupN 64 [LeafN 80], LeafN 96]]. first_leaf (heap k1) c = 0"
    "h_runnable (heap k1) 96" using nest_hides(2) by auto
  have T1: "nest_tree = GroupN (root k1) [GroupN 48 [GroupN 64 [LeafN 80], LeafN 96]]" using T k1(3) by simp
  from idle_group_starves [OF k1(2) T1 k1(4,5)] k1(1,6) show ?thesis by (auto simp: nest_tree_def)
qed

section \<open>The bare-metal ports\<close>

text \<open>
  C25.  On every bare-metal port an accepted timer plan is the slice that was asked for, exactly,
  at least 100 cycles of a clock that is known and is the configured one when there is one; on
  the Cortex-M it also fits the 24-bit reload register.
\<close>

theorem timer_plans_fit:
  assumes "bare_metal P" and "port_plan P cfg = Inr plan"
  shows "100 \<le> unat (plan_slice_cycles plan) \<and> plan_timer_hz plan \<noteq> 0
    \<and> (cfg_timer_hz cfg \<noteq> 0 \<longrightarrow> plan_timer_hz plan = cfg_timer_hz cfg)
    \<and> unat (plan_slice_cycles plan) = unat (demanded cfg (plan_timer_hz plan))
    \<and> (\<forall>e a dwt. P = cortex_port e a dwt \<longrightarrow> unat (plan_slice_cycles plan) < 2 ^ 24)"
  using plans_fit [OF assms] by blast

theorem timer_plans_fit_witness:
  "\<exists>plan. port_plan boot_port (scheduler_config_default\<lparr>cfg_slice := Cycles 8000, cfg_timer_hz := 8000000\<rparr>) = Inr plan
    \<and> unat (plan_slice_cycles plan) = 8000"
proof -
  let ?cfg = "scheduler_config_default\<lparr>cfg_slice := Cycles 8000, cfg_timer_hz := 8000000\<rparr>"
  let ?plan = "\<lparr>plan_slice_ns = cycles_to_ns_with 8000000 8000, plan_slice_cycles = 8000, plan_timer_hz = 8000000\<rparr>"
  have p: "port_plan boot_port ?cfg = Inr ?plan"
    by (simp add: cortex_port_def cm_plan_timer_def plan_cycles_def scheduler_config_default_def MIN_SLICE_CYCLES_def
        MAX_SLICE_CYCLES_def Let_def)
  from timer_plans_fit [OF bare_metal_ports(1) p] p show ?thesis by (simp add: demanded_def)
qed



text \<open>
  C28.  A RISC-V trap returns, through however many passes of its wait with nothing to run, and
  keeps the state well formed.  When it resumes a task, that task is the current one, its
  registers are those of its frame, and the comparator is one slice past a counter reading.
\<close>

theorem riscv_trap_resumes:
  assumes "rv_ok (current_tcb (rv_kernel s)) T s"
  shows "\<exists>b s'. rv_trap_entry (riscv_port entry default_arena r tm) cs s = Some (b, s') \<and> rv_ok 0 T s' \<and> rv_fixed s s'
    \<and> (b \<longrightarrow> rv_resumed (set (map (fst \<circ> snd \<circ> snd) cs)) T s')"
  by (rule rv.rv_trap_run [OF assms])

definition ex_riscv :: "u32 \<Rightarrow> kernel \<Rightarrow> riscv" where
  "ex_riscv cause k = \<lparr>rv_gprs = replicate 28 7, rv_sp = 0x20001000, mstatus = 0x1880, mie = 0, mtvec = 0x100,
     mepc = 0x400, mcause = cause, rv_regs = timer_regs_default, last_tick_low = 0, trap_hook = 0, rv_events = [],
     rv_kernel = k\<rparr>"

lemma ex_riscv_ok:
  "rv_ok 0x20000088 boot_tree (ex_riscv cause boot_kernel)" "rv_ok 0x20000088 boot_tree (ex_riscv cause boot_blocked)"
  using boot_sys boot_blocked_ok(1) by (auto simp: rv_ok_def ex_riscv_def framed_but_def boot_tree_def)

theorem riscv_trap_resumes_witness:
  "\<exists>b s'. rv_trap_entry (riscv_port 0x100 0x20000000 timer_regs_default 0) [(0, 0, 50, 60)] (ex_riscv MCAUSE_TIMER boot_kernel) = Some (b, s')
    \<and> rv_ok 0 boot_tree s'"
proof -
  have "current_tcb (rv_kernel (ex_riscv MCAUSE_TIMER boot_kernel)) = 0x20000088" by (simp add: ex_riscv_def)
  then have "rv_ok (current_tcb (rv_kernel (ex_riscv MCAUSE_TIMER boot_kernel))) boot_tree (ex_riscv MCAUSE_TIMER boot_kernel)"
    using ex_riscv_ok(1) by simp
  from riscv_trap_resumes [OF this] show ?thesis by blast
qed

text \<open>
  C29.  A kick taken with nothing runnable is a trap that never ends by itself: its wait counts no
  tick, whatever interrupts arrive, so a task that sleeps on a deadline is never woken.
\<close>

theorem kick_when_idle_sticks:
  assumes "rv_ok c T s" and "none_runnable (rv_kernel s) T" and "mcause s = MCAUSE_SOFT"
  shows "\<exists>s'. rv_wait P cs s = Some (False, s') \<and> ticks (rv_kernel s') = ticks (rv_kernel s)
    \<and> none_runnable (rv_kernel s') T \<and> (\<forall>a. map_option st (rd (rv_kernel s') a) = map_option st (rd (rv_kernel s) a))"
  by (rule soft_wait_stuck [OF assms])

theorem kick_when_idle_sticks_witness:
  "\<exists>s'. rv_wait boot_port [(1, 2, 3, 4), (5, 6, 7, 8)] (ex_riscv MCAUSE_SOFT boot_blocked) = Some (False, s')
    \<and> none_runnable (rv_kernel s') boot_tree"
proof -
  have "none_runnable (rv_kernel (ex_riscv MCAUSE_SOFT boot_blocked)) boot_tree" "mcause (ex_riscv MCAUSE_SOFT boot_blocked) = MCAUSE_SOFT"
    using boot_blocked_ok(2) by (simp_all add: ex_riscv_def)
  from kick_when_idle_sticks [OF ex_riscv_ok(2) this] show ?thesis by blast
qed

text \<open>
  Reading the 64-bit machine timer in two halves ends and tells the truth: for a counter that
  never goes back and moves by less than \<open>2 ^ 29\<close> between two accesses, the loop returns at its
  first or its second pass, with the value the counter had at one of its reads.
\<close>

theorem mtime_read_is_true:
  assumes "\<And>j. unat (c j) \<le> unat (c (Suc j)) \<and> unat (c (Suc j)) \<le> unat (c j) + 2 ^ 29"
  shows "mtime_now c i = Some (c (i + 1)) \<or> mtime_now c i = Some (c (i + 4))"
  by (rule mtime_now_total) (rule assms)

theorem mtime_read_is_true_witness:
  "mtime_now (\<lambda>j. if j = 0 then 0xFFFFFFFF else 0x100000000) 0 = Some 0x100000000"
proof -
  let ?c = "\<lambda>j :: nat. if j = 0 then 0xFFFFFFFF else 0x100000000 :: u64"
  have "unat (?c j) \<le> unat (?c (Suc j)) \<and> unat (?c (Suc j)) \<le> unat (?c j) + 2 ^ 29" for j by simp
  from mtime_read_is_true [of ?c 0, OF this] show ?thesis by simp
qed

text \<open>
  C30.  An interrupt of the Arm A/R port returns and keeps the state well formed.  When it resumes a
  task, that task is the current one, its registers are those of its frame, and the timer counts
  a full slice.
\<close>

theorem arm_irq_resumes:
  assumes "arm_ok (current_tcb (a_kernel s)) T s"
  shows "\<exists>b s'. rrkernel_irq_entry (arm_port entry default_arena c cntfrq) cs s = Some (b, s') \<and> arm_ok 0 T s'
    \<and> (b \<longrightarrow> arm_resumed T s')"
  by (rule arm.arm_irq_run [OF assms])

definition ex_arm :: arm where
  "ex_arm = \<lparr>a_gprs = replicate 14 7, a_sp = 0x20001000, lr_irq = 0x404, spsr = 0x1F, pc = 0, cpsr = 0xD2, vbar = 0,
     cntp_tval = 0, cntp_ctl = 0, cntv_tval = 0, cntv_ctl = 0, a_config = qemu_virt, trace_hook = 0, a_trace = [],
     a_kernel = boot_kernel\<rparr>"

theorem arm_irq_resumes_witness:
  "\<exists>b s'. rrkernel_irq_entry (arm_port 0x100 0x20000000 qemu_virt 62500000) [(30, 0xFFFFFFF0, 0xFFFFFFE0)] ex_arm = Some (b, s')
    \<and> arm_ok 0 boot_tree s'"
proof -
  have "arm_ok (current_tcb (a_kernel ex_arm)) boot_tree ex_arm"
    using boot_sys by (auto simp: arm_ok_def ex_arm_def framed_but_def boot_tree_def)
  from arm_irq_resumes [OF this] show ?thesis by blast
qed

text \<open>
  C31.  An Xtensa task that is switched out, and in again with its frame untouched, gets back its
  program counter and every register it had, but two: the vector uses \<open>a2\<close> and \<open>a3\<close> before it
  saves them, so they come back as the exception's cause and a constant.
\<close>

theorem xtensa_round_trip:
  assumes "length (ar s) = 16" and "s1 = xt_save (xt_entered s)" and "ar s2 ! 1 = ar s1 ! 1"
    and "\<forall>i<26. words (xt_kernel s2) (ar s1 ! 1 + of_nat (4 * i)) = words (xt_kernel s1) (ar s1 ! 1 + of_nat (4 * i))"
  shows "\<exists>s3. xt_restore s2 = Some s3 \<and> ar s3 = (ar s)[2 := exccause s, 3 := EXCCAUSE_ALLOCA] \<and> epc1 s3 = epc1 s
    \<and> ps s3 = ps s AND NOT PS_EXCM \<and> sar s3 = sar s \<and> lbeg s3 = lbeg s \<and> lend s3 = lend s \<and> lcount s3 = lcount s
    \<and> threadptr s3 = threadptr s \<and> scompare1 s3 = scompare1 s"
  by (rule xt_switch_back [OF assms])

definition ex_xtensa :: "kernel \<Rightarrow> xtensa" where
  "ex_xtensa k = \<lparr>ar = [0x400, 0x20001000, 22, 33, 44, 55, 66, 77, 88, 99, 100, 110, 120, 130, 140, 150], epc1 = 0x4000,
     ps = 0x40030, sar = 1, exccause = 4, excvaddr = 0, lbeg = 2, lend = 3, lcount = 4, threadptr = 5, scompare1 = 6,
     excsave1 = 0, intenable = 0x40, intclear = 0, vecbase = 0, ccompare0 = 0, last_tick_cc = 0, xt_hook = 0,
     xt_events = [], uart = [], reported = 0, xt_kernel = k\<rparr>"

theorem xtensa_round_trip_witness:
  "\<exists>s3. xt_restore (xt_save (xt_entered (ex_xtensa ex_kernel))) = Some s3 \<and> epc1 s3 = 0x4000
    \<and> ar (ex_xtensa ex_kernel) ! 2 = 22 \<and> ar s3 ! 2 = 4 \<and> ar s3 ! 4 = 44"
proof -
  have n: "length (ar (ex_xtensa ex_kernel)) = 16" by (simp add: ex_xtensa_def)
  from xtensa_round_trip [OF n refl refl] show ?thesis by (auto simp: ex_xtensa_def)
qed

text \<open>
  C32.  The Xtensa port frees the stack it runs on: when the current task has exited, no task is
  runnable and a kick is taken, the handler reclaims the dead tasks and then resumes the frame of
  the finished task, although its control block is gone and its stack is a free block.
\<close>

theorem xtensa_resumes_freed_stack:
  assumes "sys_inv (xt_kernel s) T ns" and "xt_ok 0 T s" and "current_tcb (xt_kernel s) = 0"
    and "none_runnable (xt_kernel s) T" and "\<not> bit pending INT_TIMER0"
    and "load_words (ar s ! 1) 26 (words (xt_kernel s)) = Some vs"
    and "\<forall>i<26. DPORT_CPU_INTR_FROM_CPU_0 \<noteq> ar s ! 1 + of_nat (4 * i)"
  shows "\<exists>s'. xt_level1 (xtensa_port entry default_arena vb) pending c s = Some s' \<and> restored vs s'
    \<and> (\<forall>d\<in>set ns. rd (xt_kernel s') d = None
        \<and> (\<forall>t b. rd (xt_kernel s) d = Some t \<longrightarrow> b \<in> set (blocks_of t)
            \<longrightarrow> live_payload (karena (xt_kernel s)) b \<and> \<not> live_payload (karena (xt_kernel s')) b))"
  using xt.xt_frees_own_stack [OF assms, of entry default_arena vb c] by (simp add: xtensa_port_def xt_is_pinned_def)

theorem xtensa_resumes_freed_stack_witness:
  "\<exists>s'. xt_level1 (xtensa_port 0x100 0x20000000 0) 0 (0, 0, 0, 0)
      (ex_xtensa (boot_exited\<lparr>words := (\<lambda>a. Some 9)\<rparr>)) = Some s'
    \<and> restored (replicate 26 9) s' \<and> rd (xt_kernel s') 0x20000088 = None"
proof -
  let ?k = "boot_exited\<lparr>words := (\<lambda>a. Some 9)\<rparr>" and ?T = "GroupN 0x20000010 []"
  have inv: "sys_inv ?k ?T [0x20000088]" by (rule quiet_step [OF boot_exited_ok(1)]) simp_all
  have f: "xt_kernel (ex_xtensa ?k) = ?k" "ar (ex_xtensa ?k) ! 1 = 0x20001000" "length (ar (ex_xtensa ?k)) = 16"
    by (simp_all add: ex_xtensa_def)
  have "sys_inv (xt_kernel (ex_xtensa ?k)) ?T [0x20000088]" using inv f(1) by simp
  moreover have "xt_ok 0 ?T (ex_xtensa ?k)" using inv f by (auto simp: xt_ok_def framed_but_def)
  moreover have "current_tcb (xt_kernel (ex_xtensa ?k)) = 0" using boot_exited_ok(2) f(1) by simp
  moreover have "none_runnable (xt_kernel (ex_xtensa ?k)) ?T" by (simp add: none_runnable_def)
  moreover have "\<not> bit (0 :: u32) INT_TIMER0" by simp
  moreover have "load_words (ar (ex_xtensa ?k) ! 1) 26 (words (xt_kernel (ex_xtensa ?k))) = Some (replicate 26 9)"
    using f(1) those_map_Some [of "[0..<26]" "\<lambda>i. Some 9" "\<lambda>i. 9"]
    by (simp add: load_words_def map_replicate_const)
  moreover have "\<forall>i<26. DPORT_CPU_INTR_FROM_CPU_0 \<noteq> ar (ex_xtensa ?k) ! 1 + of_nat (4 * i)"
  proof (intro allI impI)
    fix i :: nat assume "i < 26"
    then have "unat (0x20001000 + of_nat (4 * i) :: u32) \<le> 0x20001100" by (simp add: unat_word_ariths unat_of_nat del: of_nat_mult)
    moreover have "unat DPORT_CPU_INTR_FROM_CPU_0 > 0x20001100" by (simp add: DPORT_CPU_INTR_FROM_CPU_0_def)
    ultimately show "DPORT_CPU_INTR_FROM_CPU_0 \<noteq> ar (ex_xtensa ?k) ! 1 + of_nat (4 * i)" unfolding f(2) by auto
  qed
  ultimately show ?thesis
    using xtensa_resumes_freed_stack [of "ex_xtensa ?k" ?T "[0x20000088]" 0 "replicate 26 9" "0x100" "0x20000000" 0 "(0, 0, 0, 0)"]
    by auto
qed

section \<open>Several cores\<close>

text \<open>
  C40.  The spin lock, on every bare-metal target, with at most the cores the target may start, and
  whatever interrupts arrive: no two cores hold it, the holder has its interrupts masked, and a
  core that asks for it gets it after one step of the holder and at most three of its own.
\<close>

theorem spin_lock_sound:
  assumes "port_masking a = Some (enter, leave, masked, valid)" and "smp_reach a enter leave masked valid n s"
    and "n \<le> unat (max_cores a p)"
  shows "(\<forall>c d. holds s c \<longrightarrow> holds s d \<longrightarrow> d = c)
    \<and> (\<forall>c. holds s c \<longrightarrow> masked (irq_state s c) \<and> lock_word s = 1 \<and> c < n)
    \<and> (\<forall>c. acquiring s c \<longrightarrow> (\<exists>d k s'. k \<le> 3 \<and> d \<noteq> c \<and> holds s' c
      \<and> smp_run a enter leave masked ((if lock_word s = 0 then [] else [(d, DropWord)]) @ replicate k (c, TryAcquire False)) s = Some s'))"
proof -
  have one: "a = SingleCoreArch \<Longrightarrow> n \<le> 1" using assms(3) max_cores_one by blast
  note c = port_critical [OF assms(1)]
  from critical.exclusion [OF c assms(2) one] critical.progress [OF c assms(2) one] show ?thesis by blast
qed

theorem spin_lock_sound_witness:
  "\<exists>s. smp_run RiscvArch rv_critical_enter rv_critical_exit (\<lambda>m. m AND 8 = 0)
        [(0, LockCall), (1, LockCall), (1, TryAcquire False), (0, TryAcquire False)] (smp_boot (\<lambda>c. 8)) = Some s
    \<and> holds s 1 \<and> \<not> holds s 0 \<and> (\<exists>d k s'. k \<le> 3 \<and> d \<noteq> 0 \<and> holds s' 0
      \<and> smp_run RiscvArch rv_critical_enter rv_critical_exit (\<lambda>m. m AND 8 = 0) ([(d, DropWord)] @ replicate k (0, TryAcquire False)) s = Some s')"
proof -
  let ?run = "\<lambda>tr. smp_run RiscvArch rv_critical_enter rv_critical_exit (\<lambda>m. m AND 8 = 0) tr (smp_boot (\<lambda>c. 8))"
  let ?reach = "smp_reach RiscvArch rv_critical_enter rv_critical_exit (\<lambda>m. m AND 8 = 0) (\<lambda>m. True) 2"
  let ?step = "smp_step RiscvArch rv_critical_enter rv_critical_exit (\<lambda>m. m AND 8 = 0)"
  have r0: "?reach (smp_boot (\<lambda>c. 8))" by (rule smp_reach.boot) simp
  obtain s1 s2 s3 s where st: "?step (0, LockCall) (smp_boot (\<lambda>c. 8)) = Some s1" "?step (1, LockCall) s1 = Some s2"
    "?step (1, TryAcquire False) s2 = Some s3" "?step (0, TryAcquire False) s3 = Some s"
    and h: "holds s 1" "acquiring s 0"
    by (simp add: smp_step_def smp_boot_def rv_critical_enter_def compare_exchange_weak_def lock_word_new_def holds_def acquiring_def)
  have "?reach s1" by (rule smp_reach.step [OF r0 _ _ st(1)]) simp_all
  then have "?reach s2" by (rule smp_reach.step [OF _ _ _ st(2)]) simp_all
  then have "?reach s3" by (rule smp_reach.step [OF _ _ _ st(3)]) simp_all
  then have r: "?reach s" by (rule smp_reach.step [OF _ _ _ st(4)]) simp_all
  have m: "port_masking RiscvArch = Some (rv_critical_enter, rv_critical_exit, \<lambda>m. m AND 8 = 0, \<lambda>m. True)" by simp
  have n: "2 \<le> unat (max_cores RiscvArch None)" by (simp add: MAX_ACTIVE_CORES_def)
  note sound = spin_lock_sound [OF m r n]
  have "?run [(0, LockCall), (1, LockCall), (1, TryAcquire False), (0, TryAcquire False)] = Some s" using st by simp
  moreover have "\<not> holds s 0" using sound h(1) by fastforce
  moreover have "lock_word s \<noteq> 0" using sound h(1) by auto
  moreover obtain d k s' where "k \<le> 3" "d \<noteq> 0" "holds s' 0"
    "smp_run RiscvArch rv_critical_enter rv_critical_exit (\<lambda>m. m AND 8 = 0)
      ((if lock_word s = 0 then [] else [(d, DropWord)]) @ replicate k (0, TryAcquire False)) s = Some s'"
    using sound h(2) by blast
  ultimately show ?thesis using h(1) by (intro exI [of _ s]) auto
qed

section \<open>The ports for hosts\<close>

text \<open>
  C33.  A timer signal on POSIX always returns.  The timer is armed for exactly one slice.  When the
  handler switches, it leaves the registers of the saved frame of the current task; where it lands, the
  dead tasks are reclaimed and the stack that is now in use is not among what is freed, and a fibre
  that starts there has the tick signal unblocked.  Otherwise the same fibre goes on unchanged.
\<close>

theorem posix_signal_resumes:
  assumes "posix_libc L v" and "px_ok (current_tcb (px_kernel s)) T s"
  shows "\<exists>b s1. alarm_handler ra t0 t1 t2 s = Some (b, s1)
    \<and> unat (fst (armed s1)) * 1000000000 + unat (snd (armed s1)) = unat (px_slice_ns s)
    \<and> (if b then px_resumed (current_tcb (px_kernel s1)) s1
         \<and> (\<exists>start s2. alarm_landed L (posix_port e a sig_ok made) e s1 = Some (start, s2)
              \<and> px_ok (current_tcb (px_kernel s2)) T s2 \<and> fibre_regs s2 = fibre_regs s1
              \<and> (start \<noteq> None \<longrightarrow> \<not> sigismember L SIGALRM (sigmask s2))
              \<and> (\<forall>t. rd (px_kernel s2) (current_tcb (px_kernel s2)) = Some t
                    \<longrightarrow> (\<forall>b\<in>set (blocks_of t). live_payload (karena (px_kernel s2)) b)))
       else px_ok (current_tcb (px_kernel s1)) T s1 \<and> fibre_regs s1 = fibre_regs s)"
proof -
  from px_handler_run [OF assms(2), of ra t0 t1 t2] obtain b s1 where
    s1: "alarm_handler ra t0 t1 t2 s = Some (b, s1)" "px_ok (current_tcb (px_kernel s1)) T s1"
      "armed s1 = (px_slice_ns s div 1000000000, px_slice_ns s mod 1000000000)"
    and b: "if b then LeafN (current_tcb (px_kernel s1)) \<in> set (subs T) \<and> px_resumed (current_tcb (px_kernel s1)) s1
       else fibre_regs s1 = fibre_regs s" by (elim exE conjE) (rule that, auto split: if_splits)
  have ar: "unat (fst (armed s1)) * 1000000000 + unat (snd (armed s1)) = unat (px_slice_ns s)"
    by (simp add: s1(3) unat_div unat_mod)
  show ?thesis
  proof (cases b)
    case True
    then have l: "LeafN (current_tcb (px_kernel s1)) \<in> set (subs T)" and r: "px_resumed (current_tcb (px_kernel s1)) s1" using b by simp_all
    from px.px_landed_run [OF s1(2) l, of L e a sig_ok made e] obtain start s2 where
      s2: "alarm_landed L (posix_port e a sig_ok made) e s1 = Some (start, s2)" "px_ok (current_tcb (px_kernel s1)) T s2"
        "fibre_regs s2 = fibre_regs s1" "current_tcb (px_kernel s2) = current_tcb (px_kernel s1)"
        "start \<noteq> None \<longrightarrow> sigmask s2 = sigmask (rrkernel_fibre_entry L s1)"
        "\<forall>t. rd (px_kernel s1) (current_tcb (px_kernel s1)) = Some t \<longrightarrow> rd (px_kernel s2) (current_tcb (px_kernel s1)) = Some t
         \<and> (\<forall>b\<in>set (blocks_of t). live_payload (karena (px_kernel s2)) b)" by blast
    have "\<forall>t. rd (px_kernel s2) (current_tcb (px_kernel s2)) = Some t \<longrightarrow> (\<forall>b\<in>set (blocks_of t). live_payload (karena (px_kernel s2)) b)"
      using s2(4,6) r by (auto simp: px_resumed_def)
    moreover have "start \<noteq> None \<longrightarrow> \<not> sigismember L SIGALRM (sigmask s2)" using s2(5) fibre_entry_unblocks [OF assms(1)] by simp
    ultimately show ?thesis using True s1(1) ar r s2(1-4) by (intro exI [of _ b] exI [of _ s1]) simp
  next
    case False
    then show ?thesis using s1(1,2) ar b by (intro exI [of _ b] exI [of _ s1]) simp
  qed
qed

definition ex_posix :: "kernel \<Rightarrow> nat set posix" where
  "ex_posix k = \<lparr>fibre_regs = \<lparr>rbx = 1, rbp = 2, r12 = 3, r13 = 4, r14 = 5, r15 = 6, mxcsr = 0x1F80, x87_cw = 0x37F,
     rsp = 0x20001000, rip = 0x400\<rparr>, sigmask = {14}, px_timer = 1, px_slice_ns = 1000000, px_last_tick_ns = 0,
     next_expiry_ns = 1000500, px_ready = 1, scratch_sp = 0, armed = (0, 1000000), raised = 0, px_kernel = k\<rparr>"

lemma ex_posix_ok: "px_ok 0x20000088 boot_tree (ex_posix boot_kernel)"
  using boot_sys by (auto simp: px_ok_def ex_posix_def framed_but_def boot_tree_def)

theorem posix_signal_resumes_witness:
  "\<exists>b s1. alarm_handler 0x777 2000000 2000100 2000200 (ex_posix boot_kernel) = Some (b, s1)
    \<and> unat (fst (armed s1)) * 1000000000 + unat (snd (armed s1)) = 1000000"
proof -
  have "current_tcb (px_kernel (ex_posix boot_kernel)) = 0x20000088" "unat (px_slice_ns (ex_posix boot_kernel)) = 1000000"
    by (simp_all add: ex_posix_def)
  moreover from this have "px_ok (current_tcb (px_kernel (ex_posix boot_kernel))) boot_tree (ex_posix boot_kernel)" using ex_posix_ok by simp
  from posix_signal_resumes [OF set_libc_ok this, of "0x777" 2000000 2000100 2000200 "0x100" 0 True "Some 1"] obtain b s1 where
    "alarm_handler 0x777 2000000 2000100 2000200 (ex_posix boot_kernel) = Some (b, s1)"
    "unat (fst (armed s1)) * 1000000000 + unat (snd (armed s1)) = unat (px_slice_ns (ex_posix boot_kernel))" by blast
  ultimately show ?thesis by (intro exI [of _ b] exI [of _ s1]) simp
qed

text \<open>
  C34.  On POSIX the kernel's clock counts, of any run of signals, those that come a full slice or more
  after the timer was last armed.  Each signal arms it anew: so when signals come less than a slice
  apart, whether they are kicks or not, the clock stands still.
\<close>

theorem posix_clock_counts:
  assumes "px_ok (current_tcb (px_kernel s)) T s"
  shows "\<exists>s'. px_signals L (posix_port e a sig_ok made) e sigs s = Some s' \<and> px_ok (current_tcb (px_kernel s')) T s'
    \<and> ticks (px_kernel s') = ticks (px_kernel s) + of_nat (expiries (px_slice_ns s) (next_expiry_ns s) sigs)
    \<and> (frequent (px_slice_ns s) armed_at sigs \<longrightarrow> next_expiry_ns s = sat_add armed_at (px_slice_ns s)
        \<longrightarrow> (\<forall>(ra, t0, t1, t2)\<in>set sigs. t0 \<noteq> - 1) \<longrightarrow> ticks (px_kernel s') = ticks (px_kernel s))"
proof -
  from px.px_signals_run [OF assms, of L e a sig_ok made e sigs] obtain s' where
    s': "px_signals L (posix_port e a sig_ok made) e sigs s = Some s'" "px_ok (current_tcb (px_kernel s')) T s'"
    "ticks (px_kernel s') = ticks (px_kernel s) + of_nat (expiries (px_slice_ns s) (next_expiry_ns s) sigs)" by blast
  then show ?thesis using frequent_never_expires by (intro exI [of _ s']) auto
qed

theorem posix_clock_counts_witness:
  "\<exists>s'. px_signals set_libc (posix_port 0x100 0 True (Some 1)) 0x100 [(7, 900000, 900100, 900200), (7, 1700000, 1700100, 1700200)]
      (ex_posix boot_kernel) = Some s' \<and> ticks (px_kernel s') = 0"
proof -
  let ?sigs = "[(7, 900000, 900100, 900200), (7, 1700000, 1700100, 1700200)] :: (u64 \<times> u64 \<times> u64 \<times> u64) list"
  have c: "current_tcb (px_kernel (ex_posix boot_kernel)) = 0x20000088" and t: "ticks (px_kernel (ex_posix boot_kernel)) = 0"
    by (simp_all add: ex_posix_def)
  have "px_ok (current_tcb (px_kernel (ex_posix boot_kernel))) boot_tree (ex_posix boot_kernel)" using ex_posix_ok c by simp
  from posix_clock_counts [OF this, of set_libc "0x100" 0 True "Some 1" ?sigs 500] obtain s' where
    s': "px_signals set_libc (posix_port 0x100 0 True (Some 1)) 0x100 ?sigs (ex_posix boot_kernel) = Some s'"
    and k: "frequent (px_slice_ns (ex_posix boot_kernel)) 500 ?sigs \<longrightarrow> next_expiry_ns (ex_posix boot_kernel) = sat_add 500 (px_slice_ns (ex_posix boot_kernel))
        \<longrightarrow> (\<forall>(ra, t0, t1, t2)\<in>set ?sigs. t0 \<noteq> - 1) \<longrightarrow> ticks (px_kernel s') = ticks (px_kernel (ex_posix boot_kernel))" by blast
  have "frequent (px_slice_ns (ex_posix boot_kernel)) 500 ?sigs" "next_expiry_ns (ex_posix boot_kernel) = sat_add 500 (px_slice_ns (ex_posix boot_kernel))"
    "\<forall>(ra, t0, t1, t2)\<in>set ?sigs. t0 \<noteq> - 1"
    by (simp_all add: ex_posix_def sat_add_def)
  with k s' t show ?thesis by simp
qed

text \<open>
  C35.  On Windows a pass of the tick thread returns.  After it the task that holds the baton, the current
  one, is the only task whose thread can run: each other task of the tree has a live thread of its own,
  suspended once; and a kick with nothing runnable leaves no task running.  The timer is armed for one slice.
\<close>

theorem windows_one_task_runs:
  assumes "win_laws A" and "win_ok A T ns s" and "\<not> shutdown_flag (win_kernel s)"
    and "kc_idle (config (win_kernel s)) \<noteq> ExitWhenAllDead"
  shows "\<exists>s' ns'. tick_thread_pass A from_timer t0 tr t1 s = Some (Continued, s') \<and> win_ok A T ns' s'
    \<and> ticks (win_kernel s') = (if from_timer then ticks (win_kernel s) + 1 else ticks (win_kernel s))
    \<and> (\<forall>a. LeafN a \<in> set (subs T) \<longrightarrow> (\<exists>t. rd (win_kernel s') a = Some t \<and> alive A (words (win_kernel s')) (backend t)
         \<and> (suspend_count A (words (win_kernel s')) (backend t) = 0 \<longleftrightarrow> a = baton s')))
    \<and> (baton s' \<noteq> 0 \<longrightarrow> current_tcb (win_kernel s') = baton s')
    \<and> (\<not> from_timer \<longrightarrow> none_runnable (win_kernel s) T \<longrightarrow> baton s' = 0)
    \<and> due_time s' = - slice_units s"
proof -
  from w32_pass_run [OF assms, of from_timer t0 tr t1] obtain s' ns' where
    s': "tick_thread_pass A from_timer t0 tr t1 s = Some (Continued, s')" "win_ok A T ns' s'"
      "ticks (win_kernel s') = (if from_timer then ticks (win_kernel s) + 1 else ticks (win_kernel s))"
      "baton s' \<noteq> 0 \<longrightarrow> current_tcb (win_kernel s') = baton s'" "\<not> from_timer \<longrightarrow> none_runnable (win_kernel s) T \<longrightarrow> baton s' = 0"
      "due_time s' = - slice_units s" by blast
  have o: "one_thread A (baton s') T ns' (win_kernel s')" using s'(2) by (simp add: win_ok_def)
  have "\<exists>t. rd (win_kernel s') a = Some t \<and> alive A (words (win_kernel s')) (backend t)
         \<and> (suspend_count A (words (win_kernel s')) (backend t) = 0 \<longleftrightarrow> a = baton s')" if "LeafN a \<in> set (subs T)" for a
    using one_threadD(1) [OF o that] by auto
  with s' show ?thesis by blast
qed

text \<open>A system whose table maps each open handle to the suspend count of its thread.\<close>

definition ex_win_api :: win_api where
  "ex_win_api =
     \<lparr>suspend_thread = (\<lambda>h w. case w h of None \<Rightarrow> w | Some n \<Rightarrow> if n < 127 then w(h \<mapsto> n + 1) else w),
      resume_thread = (\<lambda>h w. case w h of None \<Rightarrow> w | Some n \<Rightarrow> if n = 0 then w else w(h \<mapsto> n - 1)),
      close_handle = (\<lambda>h w. w(h := None)),
      create_thread = (\<lambda>w. if w 0x40 = None then (0x40, w(0x40 \<mapsto> 1)) else (0, w)),
      open_thread = (\<lambda>w. if w 0x44 = None then (0x44, w(0x44 \<mapsto> 0)) else (0, w)),
      alive = (\<lambda>w h. w h \<noteq> None), handle_open = (\<lambda>w h. w h \<noteq> None),
      suspend_count = (\<lambda>w h. case w h of None \<Rightarrow> 0 | Some n \<Rightarrow> unat n)\<rparr>"

lemma ex_win_laws: "win_laws ex_win_api"
proof -
  have up: "unat (n + 1) = Suc (unat n)" if "unat n < 127" for n :: u32 using that by (subst unat_plus_small) simp_all
  have dn: "unat (n - 1) = unat n - 1" if "n \<noteq> 0" for n :: u32 using that by (simp add: unat_minus_one)
  show ?thesis
    by (auto simp: win_laws_def ex_win_api_def same_elsewhere_def up dn word_less_nat_alt split: option.splits if_splits)
qed

definition ex_win :: "kernel \<Rightarrow> win" where
  "ex_win k = \<lparr>objects_made = True, win_timer = 1, win_kick = 2, high_res = 1, tick_thread = 3, exit_code = 0, baton = 0x20000088,
     slice_units = 10000, deadline = 0, win_last_tick = 0, due_time = 0, kick_set = False, win_kernel = k\<rparr>"

definition ex_win_kernel :: kernel where
  "ex_win_kernel = put 0x20000088 ((the (rd boot_kernel 0x20000088))\<lparr>backend := 0x44\<rparr>) (boot_kernel\<lparr>words := [0x44 \<mapsto> 0]\<rparr>)"

lemma ex_win_ok: "win_ok ex_win_api boot_tree [] (ex_win ex_win_kernel)" "\<not> shutdown_flag ex_win_kernel"
  "kc_idle (config ex_win_kernel) = Wait"
proof -
  let ?k = "boot_kernel\<lparr>words := [0x44 \<mapsto> 0]\<rparr>" and ?t = "the (rd boot_kernel 0x20000088)"
  have "map_option (\<lambda>(r, k). (map_option (\<lambda>t. st t = Dead) (rd k 0x20000088), shutdown_flag k, kc_idle (config k))) boot = Some (Some False, False, Wait)"
    by code_simp
  then have b: "map_option (\<lambda>t. st t = Dead) (rd boot_kernel 0x20000088) = Some False" "\<not> shutdown_flag boot_kernel" "kc_idle (config boot_kernel) = Wait"
    by (auto simp: boot_def boot_kernel_def)
  then obtain t where t: "rd boot_kernel 0x20000088 = Some t" "st t \<noteq> Dead" by auto
  then have hp: "heap boot_kernel 0x20000088 = Some t" by (simp add: rd_def rdh_def split: if_splits)
  from t(1) have tk: "rd ?k 0x20000088 = Some t" by (simp add: rd_def)
  have i: "sys_inv ?k boot_tree []" by (rule quiet_step [OF boot_sys]) simp_all
  have "mild t (t\<lparr>backend := 0x44\<rparr>)" by (simp add: mild_def shape_def blocks_of_def held_ok_def held_def)
  with tk have "task_step boot_tree ?k (put 0x20000088 (t\<lparr>backend := 0x44\<rparr>) ?k)" by (intro task_step_put) (simp_all add: boot_tree_def)
  then have "sys_inv ex_win_kernel boot_tree []" unfolding ex_win_kernel_def t(1) option.sel by (rule task_step_inv [OF i])
  moreover have "one_thread ex_win_api 0x20000088 boot_tree [] ex_win_kernel"
    using t(2) by (auto simp: one_thread_def tasks_of_def boot_tree_def ex_win_kernel_def hp ex_win_api_def put_def rd_def rdh_def)
  ultimately show "win_ok ex_win_api boot_tree [] (ex_win ex_win_kernel)" by (simp add: win_ok_def ex_win_def)
  show "\<not> shutdown_flag ex_win_kernel" "kc_idle (config ex_win_kernel) = Wait" using b by (simp_all add: ex_win_kernel_def put_def)
qed

theorem windows_one_task_runs_witness:
  "\<exists>s'. tick_thread_pass ex_win_api True 5 6 7 (ex_win ex_win_kernel) = Some (Continued, s')
    \<and> ticks (win_kernel s') = ticks ex_win_kernel + 1
    \<and> (\<exists>t. rd (win_kernel s') 0x20000088 = Some t
         \<and> (suspend_count ex_win_api (words (win_kernel s')) (backend t) = 0 \<longleftrightarrow> 0x20000088 = baton s'))"
proof -
  have k: "win_kernel (ex_win ex_win_kernel) = ex_win_kernel" by (simp add: ex_win_def)
  have h: "\<not> shutdown_flag (win_kernel (ex_win ex_win_kernel))" "kc_idle (config (win_kernel (ex_win ex_win_kernel))) \<noteq> ExitWhenAllDead"
    using ex_win_ok(2,3) by (simp_all add: k)
  have l: "LeafN 0x20000088 \<in> set (subs boot_tree)" by (simp add: boot_tree_def)
  from windows_one_task_runs [OF ex_win_laws ex_win_ok(1) h, of True 5 6 7] l k show ?thesis by auto
qed

section \<open>Register windows\<close>

text \<open>
  C36.  The overflow and underflow handlers of the Xtensa are inverse.  An overflow stores the registers of
  the frame in the window \<open>t\<close> and frees the window, and disturbs no register outside the frame.  A later
  underflow of that window, from a frame with the same stack pointer and a memory that has kept the
  words stored, gives each register of the frame its value back and changes no other.
\<close>

theorem window_round_trip:
  assumes "n \<in> {1, 2, 3}" and "stacked n (window_exception t s)"
  shows "\<exists>s1. run (overflow_code n) (window_exception t s) = Some (Returned, s1)
    \<and> window_base s1 = window_base s \<and> window_start s1 = (window_start s)(t := False)
    \<and> (\<forall>r. r \<notin> frame_regs n t \<longrightarrow> phys s1 r = phys s r)
    \<and> (\<forall>s2. window_base s2 = t + of_nat n \<longrightarrow> areg 1 s2 = areg (4 * n + 1) (window_exception t s)
        \<longrightarrow> (\<forall>a. a \<in> set (saved_at n (window_exception t s)) \<or> a = areg 1 (window_exception t s) - 12 \<longrightarrow> wmem s2 a = wmem s1 a)
        \<longrightarrow> (\<exists>s3. refill n s2 = Some s3 \<and> (\<forall>r\<in>frame_regs n t. phys s3 r = phys s r)
              \<and> (\<forall>r. r \<notin> frame_regs n t \<longrightarrow> phys s3 r = phys s2 r) \<and> window_base s3 = window_base s2
              \<and> window_start s3 = (window_start s2)(t := True) \<and> wmem s3 = wmem s2))"
proof -
  let ?e = "window_exception t s"
  let ?g = "\<lambda>i. areg i ?e"
  let ?m = "store_all (saved_at n ?e) (map ?g (lower_regs n)) (wmem ?e)"
  let ?x = "(if n = 1 then ?e else set_areg 0 (link_of n ?e) ?e)\<lparr>wmem := ?m\<rparr>"
  let ?s1 = "return_from_window False ?x"
  have r: "run (overflow_code n) ?e = Some (Returned, ?s1)" by (rule overflow_run [OF assms])
  have z: "reg_of t 0 \<in> frame_regs n t" by (simp add: frame_regs_def lower_regs_def)
  have "window_base ?s1 = window_base s" "window_start ?s1 = (window_start s)(t := False)" "wmem ?s1 = ?m"
    by (simp_all add: return_fields exception_fields)
  moreover have "phys ?s1 r = phys s r" if "r \<notin> frame_regs n t" for r
    using that z by (auto simp: return_fields exception_fields set_areg_def)
  moreover have "\<exists>s3. refill n s2 = Some s3 \<and> (\<forall>r\<in>frame_regs n t. phys s3 r = phys s r)
              \<and> (\<forall>r. r \<notin> frame_regs n t \<longrightarrow> phys s3 r = phys s2 r) \<and> window_base s3 = window_base s2
              \<and> window_start s3 = (window_start s2)(t := True) \<and> wmem s3 = wmem s2"
    if b: "window_base s2 = t + of_nat n" and c: "areg 1 s2 = areg (4 * n + 1) ?e"
      and m: "\<forall>a. a \<in> set (saved_at n ?e) \<or> a = areg 1 ?e - 12 \<longrightarrow> wmem s2 a = ?m a" for s2
  proof -
    have "frame_at n (areg 1 s2) (wmem s2) = Some (map ?g (lower_regs n))" unfolding c using m by (intro frame_saved [OF assms]) blast
    from refill_frame [OF assms(1) this] show ?thesis by (simp add: b frame_regs_def areg_def exception_fields)
  qed
  ultimately show ?thesis using r by (intro exI [of _ ?s1]) simp
qed

text \<open>
  C37.  When a task runs into an Alloca exception, the way from the kernel vector to the handler ends as the
  underflow of the caller's frame would: the frame, of as many windows as the return address says, is
  loaded below the running window, which gets its base back.  Of the sixteen registers of the task, \<open>a2\<close> and
  \<open>a3\<close> are lost: both hold the cause.
\<close>

theorem alloca_refills:
  assumes "wps s OR PS_EXCM = wps s" and "wcause s = EXCCAUSE_ALLOCA" and "n = call_windows (areg 0 s)"
    and "frame_at n (areg 1 s) (wmem s) = Some vs"
  shows "\<exists>s'. run_jumps 2 kernel_vector_code s = Some s' \<and> window_base s' = window_base s
    \<and> window_start s' = (window_start s)(window_base s - of_nat n := True) \<and> wmem s' = wmem s
    \<and> (\<forall>i<4 * n. phys s' (reg_of (window_base s - of_nat n) i) = vs ! i)
    \<and> (\<forall>i<16. areg i s' = (if i = 2 \<or> i = 3 then EXCCAUSE_ALLOCA else areg i s))"
proof -
  let ?t = "(set_areg 2 EXCCAUSE_ALLOCA (set_areg 3 EXCCAUSE_ALLOCA s))\<lparr>wsave1 := areg 0 s\<rparr>"
  have n: "n \<in> {1, 2, 3}" by (simp add: assms(3) call_windows_def)
  have "length vs = 4 * n" using frame_at_length [OF assms(4) n] n by (simp add: lower_regs_upt)
  then have "map ((!) vs) (lower_regs n) = vs" using map_nth [of vs] n by (simp add: lower_regs_upt)
  then have "frame_at n (areg 1 ?t) (wmem ?t) = Some (map ((!) vs) (lower_regs n))" using assms(4) by simp
  from refill_frame [OF n this] obtain s' where s': "refill n ?t = Some s'"
    "\<forall>i\<in>set (lower_regs n). phys s' (reg_of (window_base s - of_nat n) i) = vs ! i"
    "\<forall>r. r \<notin> frame_regs n (window_base s - of_nat n) \<longrightarrow> phys s' r = phys ?t r" "window_base s' = window_base s"
    "window_start s' = (window_start s)(window_base s - of_nat n := True)" "wmem s' = wmem s" by auto
  have "areg i s' = (if i = 2 \<or> i = 3 then EXCCAUSE_ALLOCA else areg i s)" if "i < 16" for i
  proof -
    have "areg i s' = areg i ?t" using s'(3,4) frame_below [OF n that] by (simp add: areg_def)
    moreover have "(of_nat i :: 6 word) = of_nat j \<longleftrightarrow> i = j" if "j < 16" for j
      using \<open>i < 16\<close> that by (simp add: word_of_nat_eq_iff take_bit_nat_eq_self)
    from this [of 2] this [of 3] have "(of_nat i :: 6 word) = 2 \<longleftrightarrow> i = 2" "(of_nat i :: 6 word) = 3 \<longleftrightarrow> i = 3" by simp_all
    ultimately show ?thesis by simp
  qed
  moreover have "run_jumps 2 kernel_vector_code s = Some s'" using alloca_path [OF assms(1,2)] s'(1) assms(3) by simp
  ultimately show ?thesis using s'(2,4-6) n by (intro exI [of _ s']) (simp add: lower_regs_upt)
qed

text \<open>A core whose stack pointers and save areas are as the calling convention has them.\<close>

definition ex_window :: wcore where
  "ex_window = \<lparr>phys = (\<lambda>r. if r = 9 then 0x1000 else if r = 1 then 0x1100 else if r = 0 then 0x80000000 else ucast r),
     window_base = 2, window_start = (\<lambda>w. w = 0 \<or> w = 2), wps = PS_EXCM OR PS_WOE, wsave1 = 0, wcause = EXCCAUSE_ALLOCA,
     wmem = [0x10F4 \<mapsto> 0x1200]\<rparr>"

theorem window_round_trip_witness:
  "\<exists>s1. run (overflow_code 2) (window_exception 0 ex_window) = Some (Returned, s1) \<and> window_base s1 = 2 \<and> \<not> window_start s1 0"
proof -
  have st: "stacked 2 (window_exception 0 ex_window)"
    by (simp add: stacked_def areg_def reg_of_def window_exception_def ex_window_def)
  from window_round_trip [OF _ st] show ?thesis by (auto simp: ex_window_def)
qed

theorem alloca_refills_witness:
  "\<exists>s'. run_jumps 2 kernel_vector_code (ex_window\<lparr>window_base := 0, wmem := [0x10F0 \<mapsto> 7, 0x10F4 \<mapsto> 0x1200, 0x10F8 \<mapsto> 8, 0x10FC \<mapsto> 9,
      0x11F4 \<mapsto> 0x1300, 0x12E0 \<mapsto> 1, 0x12E4 \<mapsto> 2, 0x12E8 \<mapsto> 3, 0x12EC \<mapsto> 4]\<rparr>) = Some s' \<and> areg 2 s' = 5"
proof -
  let ?s = "ex_window\<lparr>window_base := 0, wmem := [0x10F0 \<mapsto> 7, 0x10F4 \<mapsto> 0x1200, 0x10F8 \<mapsto> 8, 0x10FC \<mapsto> 9,
      0x11F4 \<mapsto> 0x1300, 0x12E0 \<mapsto> 1, 0x12E4 \<mapsto> 2, 0x12E8 \<mapsto> 3, 0x12EC \<mapsto> 4]\<rparr>"
  have c: "call_windows (areg 0 ?s) = 2" by (simp add: call_windows_def areg_def reg_of_def ex_window_def bit_simps)
  have f: "frame_at 2 (areg 1 ?s) (wmem ?s) = Some [7, 0x1200, 8, 9, 1, 2, 3, 4]"
    by (simp add: frame_at_def base_area_def extra_area_def areg_def reg_of_def ex_window_def)
  have "wps ?s OR PS_EXCM = wps ?s" "wcause ?s = EXCCAUSE_ALLOCA"
    by (simp_all add: ex_window_def PS_EXCM_def PS_WOE_def)
  from alloca_refills [OF this c [symmetric] f] show ?thesis by (auto simp: EXCCAUSE_ALLOCA_def)
qed

section \<open>The log\<close>

text \<open>
  C38.  The log keeps the first 511 bytes of all that was ever logged, in order: both what \<open>log_bytes\<close>
  gives and, up to the first NUL, what a debugger shows; and the sink, when one is installed, gets each message
  once, in order.  That is so exactly while fewer than \<open>2 ^ 32\<close> bytes have been logged: the byte after those
  overflows the index.
\<close>

theorem log_keeps_first_bytes:
  shows "case log_all ms (case f of None \<Rightarrow> log_boot w | Some g \<Rightarrow> log_with g (log_boot w)) of
      None \<Rightarrow> 2 ^ 32 \<le> length (concat ms)
    | Some s \<Rightarrow> length (concat ms) < 2 ^ 32 \<and> log_bytes s = take 511 (concat ms)
        \<and> c_string (log_buf s) = takeWhile (\<lambda>b. b \<noteq> 0) (take 511 (concat ms))
        \<and> log_world s = (case f of None \<Rightarrow> w | Some g \<Rightarrow> fold g ms w)"
proof -
  let ?s = "case f of None \<Rightarrow> log_boot w | Some g \<Rightarrow> log_with g (log_boot w)"
  have h: "log_holds [] ?s" using log_holds_boot [of w] by (simp add: log_holds_def log_with_def install_log_def split: option.split)
  have w: "log_sink ?s = f" "log_world ?s = w" by (simp_all add: log_with_def install_log_def log_boot_def split: option.split)
  show ?thesis
  proof (cases "length (concat ms) < 2 ^ 32")
    case True
    then have "length ([] @ concat ms) < 2 ^ 32" by simp
    from log_all_run [OF h this] obtain s' where s': "log_all ms ?s = Some s'" "log_holds ([] @ concat ms) s'"
      "log_world s' = (case log_sink ?s of None \<Rightarrow> log_world ?s | Some f \<Rightarrow> fold f ms (log_world ?s))" by blast
    have "log_world s' = (case f of None \<Rightarrow> w | Some g \<Rightarrow> fold g ms w)" unfolding s'(3) w by (rule refl)
    with s'(1) log_bytes_run [OF s'(2)] c_string_run [OF s'(2)] True show ?thesis by simp
  next
    case False
    with log_all_full [OF h, of ms] show ?thesis by simp
  qed
qed

text \<open>
  C39.  A task preempted in the middle of a byte destroys another's text.  When task 0 has reserved a place
  for its byte \<open>a\<close> and task 1 logs \<open>bs\<close> before the byte is stored, the NUL stored after \<open>a\<close> falls on the
  first byte of \<open>bs\<close>: that byte is lost, and a debugger shows nothing of what task 1 has logged.
\<close>

theorem preempted_push_loses_text:
  assumes "log_holds t s" and "length t + 1 + length bs \<le> 511" and "bs \<noteq> []" and "0 \<notin> set t" and "a \<noteq> 0"
  shows "\<exists>s'. log_acts (Reserve 0 a # pushes_of 1 bs @ [Store 0]) (s, \<lambda>_. None) = Some (s', \<lambda>_. None)
    \<and> log_bytes s' = t @ [a, 0] @ tl bs \<and> c_string (log_buf s') = t @ [a]"
proof -
  from preempted_push [OF assms(1-3), of a] obtain s' where
    s': "log_acts (Reserve 0 a # pushes_of 1 bs @ [Store 0]) (s, \<lambda>_. None) = Some (s', \<lambda>_. None)" "log_holds (t @ [a, 0] @ tl bs) s'" by blast
  have l: "take 511 (t @ [a, 0] @ tl bs) = t @ [a, 0] @ tl bs" using assms(2,3) by (intro take_all) (simp add: Suc_le_eq)
  have "takeWhile (\<lambda>b. b \<noteq> 0) (t @ [a, 0] @ tl bs) = t @ [a]"
    using assms(4,5) by (subst takeWhile_append2) auto
  then show ?thesis using s' log_bytes_run [OF s'(2)] c_string_run [OF s'(2)] l by (intro exI [of _ s']) simp
qed

theorem preempted_push_loses_text_witness:
  "\<exists>s'. log_acts [Reserve 0 65, Reserve 1 66, Store 1, Reserve 1 67, Store 1, Store 0] (log_boot (), \<lambda>_. None) = Some (s', \<lambda>_. None)
    \<and> log_bytes s' = [65, 0, 67] \<and> c_string (log_buf s') = [65]"
  using preempted_push_loses_text [OF log_holds_boot, of "[66, 67]" 65 "()"] by simp

section \<open>A bus shared between tasks\<close>

text \<open>
  A transaction on a shared bus, in every case: the order check refuses the lock, the bus is not
  touched and the caller learns which refusal it was; or the lock is granted, the transfer runs once, its
  error is passed on, and the caller holds what it held before.
\<close>

theorem bus_transaction:
  assumes "tree_ok k T" and "current_tcb k = me" "rd k me = Some t" "held_ok t" "tid t \<noteq> 0" "mh_owner (md_header d) = 0"
    and "f (md_bus d) = (r, bus)"
  shows "case order_verdict (held t) (mh_id (md_header d)) of
      Inl e \<Rightarrow> transaction_turn dl f Locking (d, k) = Some (Done (Inl (shared_of_lock e)), Locking, d, k)
    | Inr _ \<Rightarrow> \<exists>k1 k2 u. transaction_turn dl f Locking (d, k) = Some (Again, Transferring, d, k1)
        \<and> transaction_turn dl f Transferring (d, k1)
          = Some (Done (case r of Inl e \<Rightarrow> Inl (Bus e) | Inr _ \<Rightarrow> Inr ()), Locking, d\<lparr>md_bus := bus\<rparr>, k2)
        \<and> held u = held t \<and> held_ok u \<and> no_held u = no_held t
        \<and> k2 = (put me u k1)\<lparr>heap := map_at (\<lambda>t. if waits_on (mh_id (md_header d)) t then make_ready t else t)
             (set (visited (put me u k1) T)) (heap (put me u k1))\<rparr>"
proof (cases "order_verdict (held t) (mh_id (md_header d))")
  case (Inl e)
  with transaction_refused [OF assms(2-6) Inl] show ?thesis by simp
next
  case (Inr x)
  then have "order_verdict (held t) (mh_id (md_header d)) = Inr ()" by simp
  from transaction_granted [where f = f and d = d, OF assms(1-6) this assms(7)] show ?thesis by (simp add: Inr)
qed

end
